(* ===== verification/Prelude.thy ===== *)
theory Prelude
  imports Main "HOL-Library.AList" "HOL-Library.Char_ord" "HOL-Library.List_Lexorder"
    "HOL-Library.Sublist" "HOL-Library.Multiset" "HOL-Library.Product_Lexorder" "HOL-Library.Word"
begin

text \<open>
  Shared vocabulary of the development. Go strings are byte strings, so they are \<^typ>\<open>string\<close>
  (lists of 8-bit characters) ordered lexicographically by byte, as Go's \<open>cmp.Compare\<close> orders
  them. A Go map is an association list \<^typ>\<open>(string \<times> 'v) list\<close> with distinct keys: the order of
  the list is the (unspecified) iteration order of the map, so a result that the source makes
  independent of Go's randomised iteration is proved independent of that order here.

  The theory holds the map operations \<open>gget\<close>, \<open>gset\<close>, \<open>gdel\<close> and their laws, the string functions
  of Go's \<open>strings\<close> package the sources call, and the generic list lemmas of the components.
\<close>

section \<open>Collections of facts\<close>

named_theorems gomap_simps \<open>lookup, update and delete on Go maps\<close>
named_theorems wf_intros \<open>operations keep the well-formedness of their state\<close>

section \<open>Go maps\<close>

type_synonym ('k, 'v) kvs = "('k \<times> 'v) list"
type_synonym 'v gomap = "(string, 'v) kvs"

abbreviation gget :: "('k, 'v) kvs \<Rightarrow> 'k \<Rightarrow> 'v option" where
  "gget m k \<equiv> map_of m k"

abbreviation gset :: "('k, 'v) kvs \<Rightarrow> 'k \<Rightarrow> 'v \<Rightarrow> ('k, 'v) kvs" where
  "gset m k v \<equiv> AList.update k v m"

abbreviation gdel :: "('k, 'v) kvs \<Rightarrow> 'k \<Rightarrow> ('k, 'v) kvs" where
  "gdel m k \<equiv> AList.delete k m"

abbreviation gkeys :: "('k, 'v) kvs \<Rightarrow> 'k list" where
  "gkeys m \<equiv> map fst m"

abbreviation gwf :: "('k, 'v) kvs \<Rightarrow> bool" where
  "gwf m \<equiv> distinct (map fst m)"

text \<open>A read of a missing key yields Go's zero value, given as the default.\<close>

definition gor :: "('k, 'v) kvs \<Rightarrow> 'k \<Rightarrow> 'v \<Rightarrow> 'v" where
  "gor m k z = (case gget m k of None \<Rightarrow> z | Some v \<Rightarrow> v)"

lemma gget_gset [simp, gomap_simps]: "gget (gset m k v) k' = (if k' = k then Some v else gget m k')"
  by (simp add: update_conv')

lemma gget_gdel [simp, gomap_simps]: "gget (gdel m k) k' = (if k' = k then None else gget m k')"
  by (simp add: delete_conv')

lemma gwf_gset [simp, wf_intros]: "gwf m \<Longrightarrow> gwf (gset m k v)"
  by (rule distinct_update)

lemma gwf_gdel [simp, wf_intros]: "gwf m \<Longrightarrow> gwf (gdel m k)"
  by (rule distinct_delete)

lemma gwf_filter [simp, wf_intros]: "gwf m \<Longrightarrow> gwf (filter P m)"
  by (rule distinct_map_filter)

lemma gdom: "set (gkeys m) = dom (map_of m)"
  by (simp add: dom_map_of_conv_image_fst)

lemma set_gkeys_gset [simp]: "set (gkeys (gset m k v)) = insert k (set (gkeys m))"
  unfolding gdom by (simp add: update_conv')

lemma set_gkeys_gdel [simp]: "set (gkeys (gdel m k)) = set (gkeys m) - {k}"
  by (auto simp: delete_keys)

lemma gwf_mem_iff: "gwf m \<Longrightarrow> (k, v) \<in> set m \<longleftrightarrow> gget m k = Some v"
  by simp

text \<open>
  Lookups are reasoned about as lookups, not as membership in the association list.
\<close>

declare map_of_eq_Some_iff [simp del] Some_eq_map_of_iff [simp del]

lemma gget_in_keys: "gget m k = Some v \<Longrightarrow> k \<in> set (gkeys m)"
  by (metis domI dom_map_of_conv_image_fst set_map)

lemma gget_None_iff: "gget m k = None \<longleftrightarrow> k \<notin> set (gkeys m)"
  by (simp add: map_of_eq_None_iff)

lemma gget_filter:
  "gwf m \<Longrightarrow> gget (filter (\<lambda>(k, v). P k v) m) k =
     (case gget m k of None \<Rightarrow> None | Some v \<Rightarrow> if P k v then Some v else None)"
  by (induction m) (auto simp: map_of_eq_None_iff image_iff split: option.splits)

lemma gget_map_snd: "gget (map (\<lambda>(k, v). (k, f k v)) m) k = map_option (f k) (gget m k)"
  by (induction m) auto

lemma fst_map_snd [simp]: "fst \<circ> (\<lambda>(k, v). (k, f k v)) = fst"
  by (simp add: comp_def case_prod_unfold)

lemma gor_gset [simp]: "gor (gset m k v) k' z = (if k' = k then v else gor m k' z)"
  by (simp add: gor_def)

lemma gor_gdel [simp]: "gor (gdel m k) k' z = (if k' = k then z else gor m k' z)"
  by (simp add: gor_def)

lemma gor_Nil [simp]: "gor [] k z = z"
  by (simp add: gor_def)

lemma gmap_set_eq:
  assumes "gwf m" "gwf m'" "map_of m = map_of m'"
  shows "set m = set m'"
proof -
  have "(k, v) \<in> set m \<longleftrightarrow> (k, v) \<in> set m'" for k v
    using assms gwf_mem_iff [of m k v] gwf_mem_iff [of m' k v] by metis
  then show ?thesis by auto
qed

lemma gmap_mset_eq:
  assumes "gwf m" "gwf m'" "map_of m = map_of m'"
  shows "mset m = mset m'"
  using assms gmap_set_eq [OF assms] by (simp add: distinct_map set_eq_iff_mset_eq_distinct)

section \<open>Sorted key lists\<close>

lemma sorted_distinct_set_unique_list:
  "sorted xs \<Longrightarrow> distinct xs \<Longrightarrow> sorted ys \<Longrightarrow> distinct ys \<Longrightarrow> set xs = set ys \<Longrightarrow> xs = (ys :: 'a :: linorder list)"
  by (rule sorted_distinct_set_unique)

lemma sort_keys_eq:
  "gwf m \<Longrightarrow> gwf m' \<Longrightarrow> map_of m = map_of m' \<Longrightarrow> sort (gkeys m) = sort (gkeys (m' :: ('k :: linorder, 'v) kvs))"
  by (rule sorted_distinct_set_unique_list) (simp_all add: gdom del: set_map)

section \<open>Subsequences\<close>

lemma subseq_set: "subseq xs ys \<Longrightarrow> set xs \<subseteq> set ys"
  by (induction rule: list_emb.induct) auto

lemma subseq_sorted_wrt: "subseq xs ys \<Longrightarrow> sorted_wrt R ys \<Longrightarrow> sorted_wrt R xs"
  by (induction rule: list_emb.induct) (auto dest: subseq_set)

lemma filter_enumerate_subseq: "subseq (map snd (filter P (enumerate n xs))) xs"
  using subseq_map [OF subseq_filter_left [of P "enumerate n xs"], of snd] by simp

section \<open>The last elements of a list\<close>

definition lastn :: "nat \<Rightarrow> 'a list \<Rightarrow> 'a list" where
  "lastn n xs = drop (length xs - n) xs"

lemma lastn_short: "length xs \<le> n \<Longrightarrow> lastn n xs = xs"
  by (simp add: lastn_def)

lemma lastn_Cons: "n \<le> length xs \<Longrightarrow> lastn n (x # xs) = lastn n xs"
  by (simp add: lastn_def Suc_diff_le)

lemma set_lastn: "set (lastn n xs) \<subseteq> set xs"
  by (simp add: lastn_def set_drop_subset)

lemma length_lastn: "length (lastn n xs) = min n (length xs)"
  by (simp add: lastn_def)

lemma rev_take_lastn: "rev (lastn n xs) = take n (rev xs)"
  by (simp add: lastn_def take_rev)

end
