(* ===== verification/Go_Strings.thy ===== *)
theory Go_Strings
  imports Prelude
begin

text \<open>
  The functions of Go's \<open>strings\<close> and \<open>unicode/utf8\<close> packages the modelled sources call, on byte
  strings: \<open>strings.Cut\<close>, \<open>strings.CutPrefix\<close>, \<open>strings.CutSuffix\<close>, \<open>strings.Contains\<close> and
  \<open>utf8.DecodeRuneInString\<close>, with the laws the components use.
\<close>

section \<open>Cutting strings\<close>

fun index_cut :: "string \<Rightarrow> string \<Rightarrow> (string \<times> string) option" where
  "index_cut sep [] = (if sep = [] then Some ([], []) else None)"
| "index_cut sep (c # s) =
     (if prefix sep (c # s) then Some ([], drop (length sep) (c # s))
      else map_option (\<lambda>(b, a). (c # b, a)) (index_cut sep s))"

text \<open>\<open>strings.Cut\<close> around the first instance of the separator.\<close>

definition Cut :: "string \<Rightarrow> string \<Rightarrow> string \<times> string \<times> bool" where
  "Cut s sep = (case index_cut sep s of Some (b, a) \<Rightarrow> (b, a, True) | None \<Rightarrow> (s, [], False))"

definition CutPrefix :: "string \<Rightarrow> string \<Rightarrow> string \<times> bool" where
  "CutPrefix s p = (if prefix p s then (drop (length p) s, True) else (s, False))"

definition CutSuffix :: "string \<Rightarrow> string \<Rightarrow> string \<times> bool" where
  "CutSuffix s p = (if suffix p s then (take (length s - length p) s, True) else (s, False))"

fun Contains :: "string \<Rightarrow> string \<Rightarrow> bool" where
  "Contains [] sub = (sub = [])"
| "Contains (c # s) sub = (prefix sub (c # s) \<or> Contains s sub)"

lemma index_cut_Some: "index_cut sep s = Some (b, a) \<Longrightarrow> s = b @ sep @ a"
  by (induction sep s arbitrary: b rule: index_cut.induct)
     (auto simp: prefix_def split: if_splits)

lemma index_cut_char_None: "index_cut [c] s = None \<longleftrightarrow> c \<notin> set s"
  by (induction s) auto

lemma index_cut_char_Some:
  "index_cut [c] s = Some (b, a) \<longleftrightarrow> s = b @ c # a \<and> c \<notin> set b"
proof (induction s arbitrary: b)
  case Nil
  then show ?case by simp
next
  case (Cons d s)
  show ?case
  proof (cases b)
    case Nil
    then show ?thesis using Cons.IH by (auto simp: prefix_def)
  next
    case (Cons e b')
    then show ?thesis using Cons.IH [of b'] by (auto simp: prefix_def)
  qed
qed

lemma Cut_char_found:
  "c \<notin> set b \<Longrightarrow> Cut (b @ c # a) [c] = (b, a, True)"
proof -
  assume "c \<notin> set b"
  then have "index_cut [c] (b @ c # a) = Some (b, a)" by (simp add: index_cut_char_Some)
  then show ?thesis by (simp add: Cut_def)
qed

lemma Cut_char_iff:
  "Cut s [c] = (b, a, ok) \<longleftrightarrow>
     (if ok then s = b @ c # a \<and> c \<notin> set b else c \<notin> set s \<and> b = s \<and> a = [])"
proof (cases "index_cut [c] s")
  case None
  moreover from None have "c \<notin> set s" by (simp add: index_cut_char_None)
  ultimately show ?thesis by (auto simp: Cut_def)
next
  case (Some p)
  then obtain b' a' where p: "index_cut [c] s = Some (b', a')" by (cases p) auto
  then have "s = b' @ c # a'" "c \<notin> set b'" by (simp_all add: index_cut_char_Some)
  moreover have "index_cut [c] s = Some (b, a) \<longleftrightarrow> s = b @ c # a \<and> c \<notin> set b"
    by (rule index_cut_char_Some)
  ultimately show ?thesis using p by (auto simp: Cut_def)
qed

lemma Contains_iff_sublist: "Contains s sub \<longleftrightarrow> sublist sub s"
  by (induction s) (auto simp: sublist_Cons_right)

lemma CutPrefix_append [simp]: "CutPrefix (p @ s) p = (s, True)"
  by (simp add: CutPrefix_def)

lemma CutSuffix_append [simp]: "CutSuffix (s @ p) p = (s, True)"
  by (simp add: CutSuffix_def suffixI)

section \<open>Decoding a rune\<close>

definition RuneError :: nat where
  "RuneError = 65533"

abbreviation byte :: "char \<Rightarrow> nat" where
  "byte c \<equiv> of_char c"

definition in_bytes :: "nat \<Rightarrow> nat \<Rightarrow> char \<Rightarrow> bool" where
  "in_bytes lo hi c \<longleftrightarrow> lo \<le> byte c \<and> byte c \<le> hi"

text \<open>
  \<open>utf8.DecodeRuneInString\<close>: the first code point and its width in bytes, \<open>RuneError\<close> of width 1
  for an invalid encoding (overlong forms, surrogates and values above 10FFFF included) and of
  width 0 for the empty string.
\<close>

definition decodeRune :: "string \<Rightarrow> nat \<times> nat" where
  "decodeRune s = (case s of
     [] \<Rightarrow> (RuneError, 0)
   | b0 # bs \<Rightarrow> (let n0 = byte b0 in
       if n0 < 128 then (n0, 1)
       else if n0 < 194 \<or> 244 < n0 then (RuneError, 1)
       else if n0 < 224 then
         (case bs of b1 # _ \<Rightarrow>
            if in_bytes 128 191 b1 then ((n0 - 192) * 64 + (byte b1 - 128), 2) else (RuneError, 1)
          | [] \<Rightarrow> (RuneError, 1))
       else if n0 < 240 then
         (case bs of b1 # b2 # _ \<Rightarrow>
            if in_bytes (if n0 = 224 then 160 else 128) (if n0 = 237 then 159 else 191) b1
               \<and> in_bytes 128 191 b2
            then ((n0 - 224) * 4096 + (byte b1 - 128) * 64 + (byte b2 - 128), 3) else (RuneError, 1)
          | _ \<Rightarrow> (RuneError, 1))
       else
         (case bs of b1 # b2 # b3 # _ \<Rightarrow>
            if in_bytes (if n0 = 240 then 144 else 128) (if n0 = 244 then 143 else 191) b1
               \<and> in_bytes 128 191 b2 \<and> in_bytes 128 191 b3
            then ((n0 - 240) * 262144 + (byte b1 - 128) * 4096 + (byte b2 - 128) * 64
                  + (byte b3 - 128), 4) else (RuneError, 1)
          | _ \<Rightarrow> (RuneError, 1))))"

lemma decodeRune_width: "s \<noteq> [] \<Longrightarrow> 1 \<le> snd (decodeRune s) \<and> snd (decodeRune s) \<le> length s"
  by (auto simp: decodeRune_def Let_def split: list.splits if_splits)

lemma decodeRune_ascii: "byte c < 128 \<Longrightarrow> decodeRune (c # s) = (byte c, 1)"
  by (simp add: decodeRune_def)

section \<open>Numbers\<close>

text \<open>\<open>strconv.FormatUint\<close> and \<open>ParseUint\<close> in base 10 at 64 bits.\<close>

fun FormatUint :: "nat \<Rightarrow> string" where
  "FormatUint n = (if n < 10 then [char_of (48 + n)] else FormatUint (n div 10) @ [char_of (48 + n mod 10)])"

declare FormatUint.simps [simp del]

definition isDigit :: "char \<Rightarrow> bool" where
  "isDigit c \<longleftrightarrow> 48 \<le> (of_char c :: nat) \<and> (of_char c :: nat) \<le> 57"

definition digitsValue :: "string \<Rightarrow> nat" where
  "digitsValue s = foldl (\<lambda>acc c. acc * 10 + (of_char c - 48)) 0 s"

definition ParseUint :: "string \<Rightarrow> nat option" where
  "ParseUint s = (if s = [] \<or> \<not> list_all isDigit s then None
     else if digitsValue s < 2 ^ 64 then Some (digitsValue s) else None)"

lemma digit_char: "d < (10 :: nat) \<Longrightarrow> (of_char (char_of (48 + d) :: char) :: nat) = 48 + d"
  by (simp add: of_char_of)

lemma digit_char0: "d < (10 :: nat) \<Longrightarrow> isDigit (char_of (48 + d))"
  by (simp add: isDigit_def of_char_of)

lemma digitsValue_snoc: "digitsValue (s @ [c]) = digitsValue s * 10 + (of_char c - 48)"
  by (simp add: digitsValue_def)

lemma FormatUint_digits: "FormatUint n \<noteq> [] \<and> list_all isDigit (FormatUint n) \<and> digitsValue (FormatUint n) = n"
proof (induction n rule: FormatUint.induct)
  case (1 n)
  show ?case
  proof (cases "n < 10")
    case True
    then show ?thesis by (simp add: FormatUint.simps [of n] digit_char0 digitsValue_def of_char_of)
  next
    case False
    then show ?thesis using 1 [OF False] digit_char [of "n mod 10"] digit_char0 [of "n mod 10"]
      by (simp add: FormatUint.simps [of n] digitsValue_snoc)
  qed
qed

lemma ParseUint_FormatUint: "n < 2 ^ 64 \<Longrightarrow> ParseUint (FormatUint n) = Some n"
  using FormatUint_digits [of n] by (simp add: ParseUint_def)

end
