(* ===== verification/Glob.thy ===== *)
theory Glob
  imports Go_Strings
begin

text \<open>
  Go's \<open>path.Match\<close>, the glob matcher behind every ACL expression: \<open>*\<close> (any run without a slash),
  \<open>?\<close> (one rune other than a slash), \<open>[...]\<close> classes and backslash escapes, with the early exits and
  the bad-pattern errors of the library function. \<open>Match\<close> yields \<open>None\<close> for \<open>path.ErrBadPattern\<close>.
  The theory shows that a pattern is malformed for one name exactly when it is malformed for every
  name, that a pattern without metacharacters matches only itself, and what a lone \<open>*\<close> matches.
\<close>

section \<open>Definitions\<close>

abbreviation chBackslash :: char where "chBackslash \<equiv> CHR 0x5C"
abbreviation chStar :: char where "chStar \<equiv> CHR ''*''"
abbreviation chQuest :: char where "chQuest \<equiv> CHR ''?''"
abbreviation chOpen :: char where "chOpen \<equiv> CHR ''[''"
abbreviation chClose :: char where "chClose \<equiv> CHR '']''"
abbreviation chCaret :: char where "chCaret \<equiv> CHR ''^''"
abbreviation chDash :: char where "chDash \<equiv> CHR ''-''"
abbreviation chSlash :: char where "chSlash \<equiv> CHR ''/''"

text \<open>A possibly escaped character of a class; \<open>None\<close> is \<open>ErrBadPattern\<close>.\<close>

definition getEsc :: "string \<Rightarrow> (nat \<times> string) option" where
  "getEsc chunk = (case chunk of
     [] \<Rightarrow> None
   | c # cs \<Rightarrow>
      if c = chDash \<or> c = chClose then None
      else (let rest = (if c = chBackslash then cs else chunk) in
        if rest = [] then None
        else (let (r, n) = decodeRune rest in
          if r = RuneError \<and> n = 1 then None
          else if drop n rest = [] then None
          else Some (r, drop n rest))))"

lemma getEsc_shorter: "getEsc chunk = Some (r, rest) \<Longrightarrow> length rest < length chunk \<and> rest \<noteq> []"
  using decodeRune_width [of chunk] decodeRune_width [of "tl chunk"]
  by (auto simp: getEsc_def Let_def split: list.splits if_splits prod.splits)

text \<open>The ranges of a class up to its closing bracket: whether one holds \<open>r\<close>, and what follows.\<close>

function matchClass :: "nat \<Rightarrow> string \<Rightarrow> bool \<Rightarrow> nat \<Rightarrow> (bool \<times> string) option" where
  "matchClass r chunk m nrange =
     (if chunk \<noteq> [] \<and> hd chunk = chClose \<and> 0 < nrange then Some (m, tl chunk)
      else (case getEsc chunk of
        None \<Rightarrow> None
      | Some (lo, chunk1) \<Rightarrow>
          if hd chunk1 = chDash then
            (case getEsc (tl chunk1) of
               None \<Rightarrow> None
             | Some (hi, chunk2) \<Rightarrow> matchClass r chunk2 (m \<or> lo \<le> r \<and> r \<le> hi) (Suc nrange))
          else matchClass r chunk1 (m \<or> lo \<le> r \<and> r \<le> lo) (Suc nrange)))"
  by pat_completeness auto
termination
  by (relation "measure (\<lambda>(r, chunk, m, n). length chunk)")
     (auto dest!: getEsc_shorter simp: le_diff_conv less_diff_conv)

declare matchClass.simps [simp del]

lemma matchClass_shorter: "matchClass r chunk m n = Some (m', rest) \<Longrightarrow> length rest < length chunk"
proof (induction r chunk m n rule: matchClass.induct)
  case (1 r chunk m n)
  then show ?case
    by (subst (asm) (3) matchClass.simps)
       (fastforce split: if_splits option.splits prod.splits dest: getEsc_shorter)
qed

datatype chunk_result = BadPattern | NoMatch | Rest string

text \<open>
  \<open>matchChunk\<close> matches a chunk (a pattern piece without a star) at the start of \<open>s\<close>. Once \<open>failed\<close>,
  it reads the chunk on for its syntax alone.
\<close>

function matchChunk :: "string \<Rightarrow> string \<Rightarrow> bool \<Rightarrow> chunk_result" where
  "matchChunk chunk s failed0 =
     (case chunk of
        [] \<Rightarrow> (if failed0 then NoMatch else Rest s)
      | c # cs \<Rightarrow>
        (let failed = (failed0 \<or> s = []) in
         if c = chOpen then
           (let r = (if failed then 0 else fst (decodeRune s));
                s1 = (if failed then s else drop (snd (decodeRune s)) s);
                negated = (cs \<noteq> [] \<and> hd cs = chCaret);
                body = (if negated then tl cs else cs)
            in (case matchClass r body False 0 of
                  None \<Rightarrow> BadPattern
                | Some (m, rest) \<Rightarrow> matchChunk rest s1 (failed \<or> m = negated)))
         else if c = chQuest then
           (if failed then matchChunk cs s True
            else matchChunk cs (drop (snd (decodeRune s)) s) (hd s = chSlash))
         else if c = chBackslash \<and> cs = [] then BadPattern
         else
           (let d = (if c = chBackslash then hd cs else c);
                ds = (if c = chBackslash then tl cs else cs)
            in if failed then matchChunk ds s True
               else matchChunk ds (tl s) (d \<noteq> hd s))))"
  by pat_completeness auto
termination
proof (relation "measure (\<lambda>(chunk, s, f). length chunk)", goal_cases)
  case 1
  then show ?case by simp
next
  case (2 chunk s failed0 c cs)
  then show ?case by (auto dest!: matchClass_shorter split: if_splits)
qed auto

declare matchChunk.simps [simp del]

fun scanLoop :: "bool \<Rightarrow> string \<Rightarrow> string \<times> string" where
  "scanLoop inrange [] = ([], [])"
| "scanLoop inrange (c # cs) =
     (if c = chBackslash then
        (case cs of
           [] \<Rightarrow> ([c], [])
         | d # ds \<Rightarrow> (let (k, r) = scanLoop inrange ds in (c # d # k, r)))
      else if c = chStar \<and> \<not> inrange then ([], c # cs)
      else (let (k, r) = scanLoop (if c = chOpen then True else if c = chClose then False else inrange) cs
            in (c # k, r)))"

definition scanChunk :: "string \<Rightarrow> bool \<times> string \<times> string" where
  "scanChunk pattern =
     (let p = dropWhile (\<lambda>c. c = chStar) pattern in (p \<noteq> pattern, scanLoop False p))"

lemma scanLoop_append: "scanLoop b p = (k, r) \<Longrightarrow> p = k @ r"
  by (induction b p arbitrary: k r rule: scanLoop.induct)
     (auto simp: Let_def split: if_splits list.splits prod.splits)

lemma scanLoop_progress: "scanLoop False (c # cs) = (k, r) \<Longrightarrow> c \<noteq> chStar \<Longrightarrow> length r < length (c # cs)"
  by (auto simp: Let_def split: if_splits list.splits prod.splits dest!: scanLoop_append)

lemma scanChunk_shorter:
  assumes "pattern \<noteq> []" "scanChunk pattern = (star, chunk, rest)"
  shows "length rest < length pattern"
proof (cases "dropWhile (\<lambda>c. c = chStar) pattern")
  case Nil
  with assms show ?thesis by (auto simp: scanChunk_def Let_def)
next
  case (Cons c cs)
  then have "c \<noteq> chStar" using hd_dropWhile [of "\<lambda>c. c = chStar" pattern] by simp
  moreover have "scanLoop False (c # cs) = (chunk, rest)"
    using assms(2) Cons by (simp add: scanChunk_def Let_def)
  ultimately have "length rest < length (c # cs)" by (intro scanLoop_progress)
  also have "\<dots> \<le> length pattern" using length_dropWhile_le [of "\<lambda>c. c = chStar" pattern] Cons by simp
  finally show ?thesis .
qed

text \<open>After a star, the chunk is tried at each later position that skips no slash.\<close>

fun starTry :: "string \<Rightarrow> bool \<Rightarrow> string \<Rightarrow> chunk_result" where
  "starTry chunk final [] = NoMatch"
| "starTry chunk final (c # cs) =
     (if c = chSlash then NoMatch
      else (case matchChunk chunk cs False of
              Rest t \<Rightarrow> if final \<and> t \<noteq> [] then starTry chunk final cs else Rest t
            | BadPattern \<Rightarrow> BadPattern
            | NoMatch \<Rightarrow> starTry chunk final cs))"

text \<open>Before reporting no match, the rest of the pattern is checked for its syntax.\<close>

function restValid :: "string \<Rightarrow> bool" where
  "restValid pattern =
     (if pattern = [] then True
      else (case scanChunk pattern of (_, chunk, rest) \<Rightarrow>
         if matchChunk chunk [] False = BadPattern then False else restValid rest))"
  by pat_completeness auto
termination
  by (relation "measure length") (auto dest: scanChunk_shorter [OF _ sym])

declare restValid.simps [simp del]

function Match :: "string \<Rightarrow> string \<Rightarrow> bool option" where
  "Match pattern name =
     (if pattern = [] then Some (name = [])
      else (case scanChunk pattern of (star, chunk, rest) \<Rightarrow>
        if star \<and> chunk = [] then Some (chSlash \<notin> set name)
        else (case matchChunk chunk name False of
            BadPattern \<Rightarrow> None
          | r \<Rightarrow>
            (case (case r of Rest t \<Rightarrow> if t = [] \<or> rest \<noteq> [] then Rest t
                                       else if star then starTry chunk (rest = []) name else NoMatch
                   | _ \<Rightarrow> if star then starTry chunk (rest = []) name else NoMatch) of
               BadPattern \<Rightarrow> None
             | Rest t \<Rightarrow> Match rest t
             | NoMatch \<Rightarrow> if restValid rest then Some False else None))))"
  by pat_completeness auto
termination
  by (relation "measure (\<lambda>(p, n). length p)") (auto dest: scanChunk_shorter [OF _ sym])

declare Match.simps [simp del]

section \<open>Malformed patterns\<close>

lemma matchClass_rest_indep:
  "map_option snd (matchClass r chunk m n) = map_option snd (matchClass r' chunk m' n)"
proof (induction r chunk m n arbitrary: m' rule: matchClass.induct)
  case (1 r chunk m n)
  show ?case
  proof (cases "chunk \<noteq> [] \<and> hd chunk = chClose \<and> 0 < n")
    case True
    then show ?thesis by (simp add: matchClass.simps [of _ chunk _ n])
  next
    case False
    note neg = this
    show ?thesis
    proof (cases "getEsc chunk")
      case None
      with neg show ?thesis by (simp add: matchClass.simps [of _ chunk _ n])
    next
      case (Some p)
      then obtain lo k where lo: "getEsc chunk = Some (lo, k)" by (cases p) auto
      show ?thesis
      proof (cases "hd k = chDash")
        case True
        show ?thesis
        proof (cases "getEsc (tl k)")
          case None
          with neg lo True show ?thesis by (simp add: matchClass.simps [of _ chunk _ n])
        next
          case (Some q)
          then obtain hi k2 where hi: "getEsc (tl k) = Some (hi, k2)" by (cases q) auto
          have "matchClass q chunk b n = matchClass q k2 (b \<or> lo \<le> q \<and> q \<le> hi) (Suc n)" for q b
            using neg lo True hi by (subst matchClass.simps) auto
          then show ?thesis using "1.IH"(1) [OF neg lo refl True hi refl] by metis
        qed
      next
        case False
        have "matchClass q chunk b n = matchClass q k (b \<or> lo \<le> q \<and> q \<le> lo) (Suc n)" for q b
          using neg lo False by (subst matchClass.simps) auto
        then show ?thesis using "1.IH"(2) [OF neg lo refl False] by metis
      qed
    qed
  qed
qed

lemma matchChunk_Nil [simp]: "matchChunk [] s f = (if f then NoMatch else Rest s)"
  by (simp add: matchChunk.simps)

lemma matchChunk_open:
  "matchChunk (chOpen # cs) s f =
     (let failed = (f \<or> s = []);
          negated = (cs \<noteq> [] \<and> hd cs = chCaret)
      in (case matchClass (if failed then 0 else fst (decodeRune s)) (if negated then tl cs else cs) False 0 of
            None \<Rightarrow> BadPattern
          | Some (m, rest) \<Rightarrow>
              matchChunk rest (if failed then s else drop (snd (decodeRune s)) s) (failed \<or> m = negated)))"
  by (simp add: matchChunk.simps [of "chOpen # cs"] Let_def cong: option.case_cong)

lemma matchChunk_quest:
  "matchChunk (chQuest # cs) s f =
     (if f \<or> s = [] then matchChunk cs s True
      else matchChunk cs (drop (snd (decodeRune s)) s) (hd s = chSlash))"
  by (simp add: matchChunk.simps [of "chQuest # cs"])

lemma matchChunk_escape:
  "matchChunk (chBackslash # cs) s f =
     (case cs of [] \<Rightarrow> BadPattern
      | d # ds \<Rightarrow> if f \<or> s = [] then matchChunk ds s True else matchChunk ds (tl s) (d \<noteq> hd s))"
  by (simp add: matchChunk.simps [of "chBackslash # cs"] split: list.split)

definition literal_char :: "char \<Rightarrow> bool" where
  "literal_char c \<longleftrightarrow> c \<noteq> chOpen \<and> c \<noteq> chQuest \<and> c \<noteq> chBackslash"

lemma matchChunk_literal:
  "literal_char c \<Longrightarrow> matchChunk (c # cs) s f =
     (if f \<or> s = [] then matchChunk cs s True else matchChunk cs (tl s) (c \<noteq> hd s))"
  by (simp add: literal_char_def matchChunk.simps [of "c # cs"])

lemmas matchChunk_eqs = matchChunk_open matchChunk_quest matchChunk_escape matchChunk_literal

text \<open>Whether a chunk is malformed does not depend on the name it is matched against.\<close>

lemma matchChunk_bad_indep: "matchChunk chunk s f = BadPattern \<longleftrightarrow> matchChunk chunk s' f' = BadPattern"
proof (induction "length chunk" arbitrary: chunk s f s' f' rule: less_induct)
  case less
  show ?case
  proof (cases chunk)
    case Nil
    then show ?thesis by simp
  next
    case (Cons c cs)
    have eq: "matchChunk k s f = BadPattern \<longleftrightarrow> matchChunk k s' f' = BadPattern"
      if "length k \<le> length cs" for k s f s' f'
      using less.hyps [of k] that Cons by simp
    consider "c = chOpen" | "c = chQuest" | "c = chBackslash" | "literal_char c"
      by (auto simp: literal_char_def)
    then show ?thesis
    proof cases
      case 1
      let ?neg = "cs \<noteq> [] \<and> hd cs = chCaret"
      let ?body = "if ?neg then tl cs else cs"
      define r1 where "r1 = (if f \<or> s = [] then 0 else fst (decodeRune s))"
      define r2 where "r2 = (if f' \<or> s' = [] then 0 else fst (decodeRune s'))"
      have same: "map_option snd (matchClass r1 ?body False 0) = map_option snd (matchClass r2 ?body False 0)"
        by (rule matchClass_rest_indep)
      show ?thesis
      proof (cases "matchClass r1 ?body False 0")
        case None
        with same have "matchClass r2 ?body False 0 = None" by simp
        with None show ?thesis
          unfolding Cons 1 matchChunk_open by (simp add: Let_def r1_def r2_def)
      next
        case (Some p)
        then obtain m k where k: "matchClass r1 ?body False 0 = Some (m, k)" by (cases p) auto
        with same have "map_option snd (matchClass r2 ?body False 0) = Some k" by simp
        then obtain m' where k': "matchClass r2 ?body False 0 = Some (m', k)" by (auto simp: map_option_eq_Some)
        have "length k \<le> length cs"
          using matchClass_shorter [OF k] by (auto split: if_splits)
        note this [THEN eq]
        with k k' show ?thesis
          unfolding Cons 1 matchChunk_open by (simp add: Let_def r1_def r2_def)
      qed
    next
      case 2
      show ?thesis
        unfolding Cons 2 matchChunk_quest by (simp add: eq [OF order_refl, of s' f'] eq [OF order_refl])
    next
      case 3
      show ?thesis
      proof (cases cs)
        case Nil
        then show ?thesis unfolding Cons 3 matchChunk_escape by simp
      next
        case ds: (Cons d ds)
        then have "length ds \<le> length cs" by simp
        note this [THEN eq]
        then show ?thesis unfolding Cons 3 matchChunk_escape ds by auto
      qed
    next
      case 4
      then show ?thesis
        unfolding Cons using eq [OF order_refl] by (simp add: matchChunk_literal)
    qed
  qed
qed

lemma starTry_bad: "starTry chunk l name = BadPattern \<Longrightarrow> matchChunk chunk s f = BadPattern"
  using matchChunk_bad_indep [of chunk _ _ s f]
  by (induction name) (auto split: if_splits chunk_result.splits)

lemma scanChunk_empty_rest: "scanChunk p = (star, [], rest) \<Longrightarrow> rest = []"
proof -
  assume a: "scanChunk p = (star, [], rest)"
  then have "scanLoop False (dropWhile (\<lambda>c. c = chStar) p) = ([], rest)" by (simp add: scanChunk_def Let_def)
  moreover from this have "rest = dropWhile (\<lambda>c. c = chStar) p" by (auto dest: scanLoop_append)
  ultimately show "rest = []"
    using dropWhile_eq_Nil_conv [of "\<lambda>c. c = chStar" p] hd_dropWhile [of "\<lambda>c. c = chStar" p]
    by (cases rest) (fastforce simp: Let_def split: if_splits list.splits prod.splits)+
qed

text \<open>A pattern errs on a name exactly when one of its chunks is malformed, whatever the name.\<close>

lemma Match_None_iff: "Match pattern name = None \<longleftrightarrow> \<not> restValid pattern"
proof (induction pattern name rule: Match.induct)
  case (1 pattern name)
  show ?case
  proof (cases "pattern = []")
    case True
    then show ?thesis by (simp add: Match.simps restValid.simps)
  next
    case False
    obtain star chunk rest where sc: "scanChunk pattern = (star, chunk, rest)" by (metis prod_cases3)
    have valid: "restValid pattern \<longleftrightarrow> matchChunk chunk name False \<noteq> BadPattern \<and> restValid rest"
      using False sc matchChunk_bad_indep [of chunk name False "[]" False]
      by (simp add: restValid.simps [of pattern])
    show ?thesis
    proof (cases "star \<and> chunk = []")
      case True
      then show ?thesis
        using False sc valid scanChunk_empty_rest [of pattern star rest]
        by (simp add: Match.simps [of pattern] restValid.simps [of "[]"] matchChunk.simps)
    next
      case nstar: False
      note IH = "1.IH" [OF False sc [symmetric] refl nstar]
      show ?thesis
        using False sc valid nstar IH starTry_bad [of chunk "rest = []" name name False]
        by (auto simp: Match.simps [of pattern] split: chunk_result.splits)
    qed
  qed
qed

lemma Match_Some_indep: "Match pattern name = Some b \<Longrightarrow> Match pattern name' \<noteq> None"
  by (metis Match_None_iff option.distinct(1))

section \<open>Patterns without metacharacters, and a trailing star\<close>

definition literal :: "string \<Rightarrow> bool" where
  "literal p \<longleftrightarrow> list_all (\<lambda>c. literal_char c \<and> c \<noteq> chStar) p"

lemma scanLoop_literal: "literal p \<Longrightarrow> q = [] \<or> hd q = chStar \<Longrightarrow> scanLoop False (p @ q) = (p, q)"
  by (induction p; cases q) (auto simp: literal_def literal_char_def Let_def)

lemma scanChunk_literal:
  assumes "literal p" "p \<noteq> []" "q = [] \<or> hd q = chStar"
  shows "scanChunk (p @ q) = (False, p, q)"
proof -
  have "dropWhile (\<lambda>c. c = chStar) (p @ q) = p @ q"
    using assms by (cases p) (auto simp: literal_def)
  with assms show ?thesis by (simp add: scanChunk_def scanLoop_literal)
qed

lemma matchChunk_literal_failed: "literal p \<Longrightarrow> matchChunk p s True = NoMatch"
  by (induction p) (simp_all add: literal_def matchChunk_literal)

lemma matchChunk_literal_prefix:
  "literal p \<Longrightarrow> matchChunk p s False = (if prefix p s then Rest (drop (length p) s) else NoMatch)"
proof (induction p arbitrary: s)
  case Nil
  then show ?case by simp
next
  case (Cons c p)
  then have lit: "literal_char c" "literal p" by (simp_all add: literal_def)
  then show ?case
    using Cons.IH [OF lit(2)] matchChunk_literal_failed [OF lit(2)]
    by (cases s; cases "c = hd s") (auto simp: matchChunk_literal)
qed

lemma Match_star: "Match [chStar] name = Some (chSlash \<notin> set name)"
  by (simp add: Match.simps scanChunk_def)

lemma restValid_star [simp]: "restValid [chStar]"
  by (simp add: restValid.simps scanChunk_def)

lemma restValid_Nil [simp]: "restValid []"
  by (simp add: restValid.simps)

text \<open>A pattern without metacharacters matches exactly itself.\<close>

lemma Match_literal: "literal p \<Longrightarrow> Match p name = Some (name = p)"
proof (cases "p = []")
  case True
  then show ?thesis by (simp add: Match.simps)
next
  case False
  assume lit: "literal p"
  have sc: "scanChunk p = (False, p, [])" using scanChunk_literal [OF lit False, of "[]"] by simp
  show ?thesis
    using False sc matchChunk_literal_prefix [OF lit, of name]
    by (auto simp: Match.simps [of p] Match.simps [of "[]"] prefix_def)
qed

text \<open>A literal followed by a star matches the names it prefixes, up to the next slash.\<close>

lemma Match_literal_star:
  assumes "literal p" "p \<noteq> []"
  shows "Match (p @ [chStar]) name = Some (prefix p name \<and> chSlash \<notin> set (drop (length p) name))"
proof -
  have sc: "scanChunk (p @ [chStar]) = (False, p, [chStar])"
    using scanChunk_literal [OF assms, of "[chStar]"] by simp
  show ?thesis
    using assms(2) sc matchChunk_literal_prefix [OF assms(1), of name]
    by (simp add: Match.simps [of "p @ [chStar]"] Match_star)
qed

end
