(* ===== verification/Acl_Policy.thy ===== *)
theory Acl_Policy
  imports Glob
begin

text \<open>
  The access-control policy of \<open>internal/acl\<close>: grants and their validation (\<open>policy.go\<close>), the
  matching of resource and audience expressions (\<open>match.go\<close>), the identity they are matched against
  (\<open>internal/auth/identity.go\<close>) and the providers that derive grants from an identity's raw claims
  (\<open>source*.go\<close>). The main result is that validation makes the bad-pattern branch of the matchers
  unreachable, for file grants and for provider grants alike (locale \<open>grant_source\<close>).
\<close>

section \<open>Grants and policies\<close>

record grant =
  gResources :: "string list"
  gAudience :: "string list"
  gPermissions :: "string list"

record policy =
  pGrants :: "grant list"

definition validResourceTypes :: "string list" where
  "validResourceTypes = [''service'', ''stack'', ''node'', ''task'', ''config'', ''secret'',
     ''network'', ''volume'', ''plugin'', ''swarm'']"

definition validAudienceKinds :: "string list" where
  "validAudienceKinds = [''user'', ''group'']"

definition validPermissions :: "string list" where
  "validPermissions = [''read'', ''write'', ''exec'']"

datatype policy_error =
    EmptyResources
  | InvalidResource string
  | UnknownResourceType string
  | BadResourceGlob string
  | InvalidAudience string
  | UnknownAudienceKind string
  | BadAudienceGlob string
  | EmptyPermissions
  | UnknownPermission string

text \<open>The first error of a loop that returns at the first offending element.\<close>

fun first_error :: "('a \<Rightarrow> 'e option) \<Rightarrow> 'a list \<Rightarrow> 'e option" where
  "first_error f [] = None"
| "first_error f (x # xs) = (case f x of Some e \<Rightarrow> Some e | None \<Rightarrow> first_error f xs)"

lemma first_error_None: "first_error f xs = None \<longleftrightarrow> (\<forall>x \<in> set xs. f x = None)"
  by (induction xs) (auto split: option.splits)

definition validateResource :: "string \<Rightarrow> policy_error option" where
  "validateResource r =
     (if r = ''*'' then None
      else (case Cut r '':'' of (typ, pat, ok) \<Rightarrow>
        if \<not> ok \<or> pat = [] then Some (InvalidResource r)
        else if typ \<notin> set validResourceTypes then Some (UnknownResourceType typ)
        else (case Match pat [] of None \<Rightarrow> Some (BadResourceGlob r) | Some _ \<Rightarrow> None)))"

definition validateAudience :: "string \<Rightarrow> policy_error option" where
  "validateAudience a =
     (if a = ''*'' then None
      else (case Cut a '':'' of (kind, pat, ok) \<Rightarrow>
        if \<not> ok \<or> pat = [] then Some (InvalidAudience a)
        else if kind \<notin> set validAudienceKinds then Some (UnknownAudienceKind kind)
        else (case Match pat [] of None \<Rightarrow> Some (BadAudienceGlob a) | Some _ \<Rightarrow> None)))"

definition validatePermission :: "string \<Rightarrow> policy_error option" where
  "validatePermission p = (if p \<in> set validPermissions then None else Some (UnknownPermission p))"

definition validateGrant :: "grant \<Rightarrow> policy_error option" where
  "validateGrant g =
     (if gResources g = [] then Some EmptyResources
      else (case first_error validateResource (gResources g) of
        Some e \<Rightarrow> Some e
      | None \<Rightarrow> (case first_error validateAudience (gAudience g) of
          Some e \<Rightarrow> Some e
        | None \<Rightarrow>
            if gPermissions g = [] then Some EmptyPermissions
            else first_error validatePermission (gPermissions g))))"

fun validate_from :: "nat \<Rightarrow> grant list \<Rightarrow> (nat \<times> policy_error) option" where
  "validate_from i [] = None"
| "validate_from i (g # gs) =
     (case validateGrant g of Some e \<Rightarrow> Some (i, e) | None \<Rightarrow> validate_from (Suc i) gs)"

definition Validate :: "policy \<Rightarrow> (nat \<times> policy_error) option" where
  "Validate p = validate_from 0 (pGrants p)"

section \<open>Identities\<close>

text \<open>A decoded JSON value, Go's \<open>any\<close> with the dynamic types a claim can have.\<close>

datatype any = AStr string | AArr "any list" | AObj "(string \<times> any) list" | AOther

record identity =
  idSubject :: string
  idDisplayName :: string
  idEmail :: string
  idGroups :: "string list"
  idProvider :: string
  idRaw :: "any gomap"
  idExpiresAt :: "int option"
  idClientID :: string

definition ProviderToken :: string where "ProviderToken = ''oauth''"
definition RawTokenGrants :: string where "RawTokenGrants = ''tokenGrants''"

definition FromToken :: "identity option \<Rightarrow> bool" where
  "FromToken i = (case i of None \<Rightarrow> False | Some i \<Rightarrow> idProvider i = ProviderToken)"

section \<open>Matching\<close>

definition splitResource :: "string \<Rightarrow> string \<times> string \<times> bool" where
  "splitResource resource = Cut resource '':''"

definition matchResourceParts :: "string \<Rightarrow> string \<Rightarrow> string \<Rightarrow> bool" where
  "matchResourceParts expression resType resName =
     (if expression = ''*'' then True
      else (case Cut expression '':'' of (exprType, exprPattern, ok) \<Rightarrow>
        if \<not> ok then False
        else if exprType \<noteq> ''*'' \<and> exprType \<noteq> resType then False
        else if resName = [] then False
        else (case Match exprPattern resName of None \<Rightarrow> False | Some matched \<Rightarrow> matched)))"

definition matchResource :: "string \<Rightarrow> string \<Rightarrow> bool" where
  "matchResource expression resource =
     (if expression = ''*'' then True
      else (case splitResource resource of (resType, resName, ok) \<Rightarrow>
        if \<not> ok then False else matchResourceParts expression resType resName))"

record user_claims =
  skipSubject :: bool
  skipEmail :: bool

definition globOk :: "string \<Rightarrow> string \<Rightarrow> bool" where
  "globOk pat s = (case Match pat s of None \<Rightarrow> False | Some matched \<Rightarrow> matched)"

definition matchAudience :: "string \<Rightarrow> identity \<Rightarrow> user_claims \<Rightarrow> bool" where
  "matchAudience expression i claims =
     (if expression = ''*'' then True
      else (case Cut expression '':'' of (kind, pat, ok) \<Rightarrow>
        if \<not> ok then False
        else if kind = ''user'' then
          (if \<not> skipSubject claims \<and> idSubject i \<noteq> [] \<and> globOk pat (idSubject i) then True
           else if \<not> skipEmail claims \<and> idEmail i \<noteq> [] \<and> globOk pat (idEmail i) then True
           else False)
        else if kind = ''group'' then list_ex (globOk pat) (idGroups i)
        else False))"

section \<open>Provider grants\<close>

definition strings_of :: "any option \<Rightarrow> string list" where
  "strings_of v = (case v of
     Some (AArr xs) \<Rightarrow> concat (map (\<lambda>x. case x of AStr s \<Rightarrow> [s] | _ \<Rightarrow> []) xs)
   | _ \<Rightarrow> [])"

fun extractGrantsFromRaw :: "any list \<Rightarrow> grant list" where
  "extractGrantsFromRaw [] = []"
| "extractGrantsFromRaw (AObj m # raw) =
     (let g = \<lparr>gResources = strings_of (gget m ''resources''), gAudience = [],
               gPermissions = strings_of (gget m ''permissions'')\<rparr>
      in if gResources g \<noteq> [] \<and> gPermissions g \<noteq> [] \<and> validateGrant g = None
         then g # extractGrantsFromRaw raw else extractGrantsFromRaw raw)"
| "extractGrantsFromRaw (_ # raw) = extractGrantsFromRaw raw"

definition any_array :: "any option \<Rightarrow> any list option" where
  "any_array v = (case v of Some (AArr xs) \<Rightarrow> Some xs | _ \<Rightarrow> None)"

text \<open>
  The three sources. The JSON decoder of the headers source is a third-party package, so decoding
  a header into an array and into an object are parameters.
\<close>

definition HeadersSource_GrantsFor ::
  "(string \<Rightarrow> any list option) \<Rightarrow> (string \<Rightarrow> any gomap option) \<Rightarrow> string \<Rightarrow> string \<Rightarrow> identity option \<Rightarrow> grant list"
where
  "HeadersSource_GrantsFor unmarshalArray unmarshalObject header capability i = (case i of
     None \<Rightarrow> []
   | Some i \<Rightarrow>
      if header = [] then []
      else (case gget (idRaw i) header of
        Some (AStr headerVal) \<Rightarrow>
          if headerVal = [] then []
          else if capability \<noteq> [] then
            (case unmarshalObject headerVal of
               None \<Rightarrow> []
             | Some caps \<Rightarrow> (case any_array (gget caps capability) of
                 None \<Rightarrow> extractGrantsFromRaw []
               | Some raw \<Rightarrow> extractGrantsFromRaw raw))
          else (case unmarshalArray headerVal of
                  None \<Rightarrow> [] | Some raw \<Rightarrow> extractGrantsFromRaw raw)
      | _ \<Rightarrow> []))"

definition OIDCSource_GrantsFor :: "string \<Rightarrow> identity option \<Rightarrow> grant list" where
  "OIDCSource_GrantsFor claim i = (case i of
     None \<Rightarrow> []
   | Some i \<Rightarrow>
      if claim = [] then []
      else (case any_array (gget (idRaw i) claim) of None \<Rightarrow> [] | Some raw \<Rightarrow> extractGrantsFromRaw raw))"

definition TailscaleSource_GrantsFor :: "string \<Rightarrow> identity option \<Rightarrow> grant list" where
  "TailscaleSource_GrantsFor capability i = (case i of
     None \<Rightarrow> []
   | Some i \<Rightarrow>
      if capability = [] then []
      else (case gget (idRaw i) ''caps'' of
        Some (AObj caps) \<Rightarrow>
          (case any_array (gget caps capability) of None \<Rightarrow> [] | Some raw \<Rightarrow> extractGrantsFromRaw raw)
      | _ \<Rightarrow> []))"

section \<open>What validation guarantees\<close>

text \<open>An expression the matchers can evaluate without a bad-pattern error, whatever the name.\<close>

definition glob_safe :: "string \<Rightarrow> bool" where
  "glob_safe expr \<longleftrightarrow> expr = ''*'' \<or>
     (\<forall>typ pat name. Cut expr '':'' = (typ, pat, True) \<longrightarrow> Match pat name \<noteq> None)"

lemma validateResource_glob_safe: "validateResource r = None \<Longrightarrow> glob_safe r"
  unfolding validateResource_def glob_safe_def
  by (auto split: if_splits prod.splits option.splits dest: Match_Some_indep)

lemma validateAudience_glob_safe: "validateAudience a = None \<Longrightarrow> glob_safe a"
  unfolding validateAudience_def glob_safe_def
  by (auto split: if_splits prod.splits option.splits dest: Match_Some_indep)

lemma validateGrantD:
  assumes "validateGrant g = None"
  shows "gResources g \<noteq> []" "gPermissions g \<noteq> []"
    "\<forall>r \<in> set (gResources g). validateResource r = None"
    "\<forall>a \<in> set (gAudience g). validateAudience a = None"
    "set (gPermissions g) \<subseteq> set validPermissions"
  using assms
  by (auto simp: validateGrant_def first_error_None validatePermission_def split: if_splits option.splits)

lemma validateGrant_glob_safe:
  "validateGrant g = None \<Longrightarrow> e \<in> set (gResources g) \<union> set (gAudience g) \<Longrightarrow> glob_safe e"
  by (auto dest: validateGrantD intro: validateResource_glob_safe validateAudience_glob_safe)

lemma validate_from_None: "validate_from i gs = None \<longleftrightarrow> (\<forall>g \<in> set gs. validateGrant g = None)"
  by (induction i gs rule: validate_from.induct) (auto split: option.splits)

lemma Validate_None: "Validate p = None \<longleftrightarrow> (\<forall>g \<in> set (pGrants p). validateGrant g = None)"
  by (simp add: Validate_def validate_from_None)

lemma extractGrantsFromRaw_valid:
  "g \<in> set (extractGrantsFromRaw raw) \<Longrightarrow> validateGrant g = None \<and> gAudience g = []"
  by (induction raw rule: extractGrantsFromRaw.induct) (auto simp: Let_def split: if_splits)

text \<open>
  What the evaluator relies on in a grant source: every grant it yields has passed validation and
  carries no audience, being scoped to the identity it was derived from.
\<close>

locale grant_source =
  fixes GrantsFor :: "identity option \<Rightarrow> grant list"
  assumes source_valid: "g \<in> set (GrantsFor i) \<Longrightarrow> validateGrant g = None"
    and source_no_audience: "g \<in> set (GrantsFor i) \<Longrightarrow> gAudience g = []"
begin

lemma source_glob_safe: "g \<in> set (GrantsFor i) \<Longrightarrow> e \<in> set (gResources g) \<Longrightarrow> glob_safe e"
  by (rule validateGrant_glob_safe) (auto intro: source_valid)

lemma source_permissions: "g \<in> set (GrantsFor i) \<Longrightarrow> set (gPermissions g) \<subseteq> set validPermissions"
  by (rule validateGrantD(5)) (rule source_valid)

end

lemma HeadersSource_raw: "\<exists>raw. HeadersSource_GrantsFor ua uo header capability i = extractGrantsFromRaw raw"
  unfolding HeadersSource_GrantsFor_def
  by (auto split: option.split any.split intro: exI [of _ "[]"])

lemma OIDCSource_raw: "\<exists>raw. OIDCSource_GrantsFor claim i = extractGrantsFromRaw raw"
  unfolding OIDCSource_GrantsFor_def by (auto split: option.split intro: exI [of _ "[]"])

lemma TailscaleSource_raw: "\<exists>raw. TailscaleSource_GrantsFor capability i = extractGrantsFromRaw raw"
  unfolding TailscaleSource_GrantsFor_def
  by (auto split: option.split any.split intro: exI [of _ "[]"])

interpretation headers_src: grant_source "HeadersSource_GrantsFor ua uo header capability"
  for ua uo header capability
  by unfold_locales (metis HeadersSource_raw extractGrantsFromRaw_valid)+

interpretation oidc_src: grant_source "OIDCSource_GrantsFor claim" for claim
  by unfold_locales (metis OIDCSource_raw extractGrantsFromRaw_valid)+

interpretation tailscale_src: grant_source "TailscaleSource_GrantsFor capability" for capability
  by unfold_locales (metis TailscaleSource_raw extractGrantsFromRaw_valid)+

end
