(* ===== verification/Acl_Evaluator.thy ===== *)
theory Acl_Evaluator
  imports Acl_Policy
begin

text \<open>
  The ACL evaluator of \<open>internal/acl/evaluator.go\<close>, with the provider grants of \<open>source_token.go\<close> and
  the fingerprint of \<open>fingerprint.go\<close>. A nil \<open>*Evaluator\<close> is \<open>None\<close>; the atomically swapped policy
  pointer is an address with the policy it points to; the resolver and the grant source are the
  functions behind the two interfaces of \<open>source.go\<close>. The decision is refined to an abstract
  relation (\<open>covered\<close>) that has no cached flags, and the type-level projection \<open>TypeGrants\<close> is shown
  to be no narrower than the decision, for every resolver that keeps the laws of the locale
  \<open>stack_resolver\<close>.
\<close>

section \<open>State\<close>

record resolver =
  StackOf_of :: "string \<Rightarrow> string \<Rightarrow> string"
  ServiceOfTask_of :: "string \<Rightarrow> string"

record evaluator =
  evPolicy :: "(nat \<times> policy) option"
  evSource :: "(identity option \<Rightarrow> grant list) option"
  evResolver :: "resolver option"
  evUserClaims :: user_claims
  evPolicyGeneration :: "64 word"

definition PermissionExec :: string where "PermissionExec = ''exec''"

definition PolicyGeneration :: "evaluator option \<Rightarrow> 64 word" where
  "PolicyGeneration e = (case e of None \<Rightarrow> 0 | Some e \<Rightarrow> evPolicyGeneration e)"

definition NewEvaluator :: evaluator where
  "NewEvaluator = \<lparr>evPolicy = None, evSource = None, evResolver = None,
     evUserClaims = \<lparr>skipSubject = False, skipEmail = False\<rparr>, evPolicyGeneration = 0\<rparr>"

definition SetPolicy :: "(nat \<times> policy) option \<Rightarrow> evaluator option \<Rightarrow> evaluator option" where
  "SetPolicy p e = map_option (\<lambda>e. e\<lparr>evPolicy := p, evPolicyGeneration := evPolicyGeneration e + 1\<rparr>) e"

definition SetResolver :: "resolver option \<Rightarrow> evaluator option \<Rightarrow> evaluator option" where
  "SetResolver r e = map_option (\<lambda>e. e\<lparr>evResolver := r\<rparr>) e"

definition SetSource :: "(identity option \<Rightarrow> grant list) option \<Rightarrow> evaluator option \<Rightarrow> evaluator option" where
  "SetSource s e = map_option (\<lambda>e. e\<lparr>evSource := s\<rparr>) e"

datatype claims_error = NoUserClaims | UnknownUserClaim string

fun userClaims_loop :: "string list \<Rightarrow> user_claims \<Rightarrow> claims_error + user_claims" where
  "userClaims_loop [] uc = Inr uc"
| "userClaims_loop (claim # claims) uc =
     (if claim = ''sub'' then userClaims_loop claims (uc\<lparr>skipSubject := False\<rparr>)
      else if claim = ''email'' then userClaims_loop claims (uc\<lparr>skipEmail := False\<rparr>)
      else Inl (UnknownUserClaim claim))"

definition SetOIDCUserClaims :: "string list \<Rightarrow> evaluator option \<Rightarrow> claims_error + evaluator option" where
  "SetOIDCUserClaims claims e =
     (if claims = [] then Inl NoUserClaims
      else (case userClaims_loop claims \<lparr>skipSubject = True, skipEmail = True\<rparr> of
        Inl err \<Rightarrow> Inl err
      | Inr uc \<Rightarrow> Inr (map_option (\<lambda>e. e\<lparr>evUserClaims := uc\<rparr>) e)))"

section \<open>Collecting grants\<close>

definition noFileGrants :: "nat \<times> policy" where
  "noFileGrants = (0, \<lparr>pGrants = []\<rparr>)"

definition effectivePolicy :: "evaluator \<Rightarrow> string \<Rightarrow> (nat \<times> policy) option" where
  "effectivePolicy e permission =
     (if evPolicy e = None \<and> permission = PermissionExec then Some noFileGrants else evPolicy e)"

definition audienceMatches :: "grant \<Rightarrow> identity option \<Rightarrow> user_claims \<Rightarrow> bool" where
  "audienceMatches g i claims =
     (if gAudience g = [] then True
      else (case i of None \<Rightarrow> False | Some i \<Rightarrow> list_ex (\<lambda>expr. matchAudience expr i claims) (gAudience g)))"

definition hasPermission :: "grant \<Rightarrow> string \<Rightarrow> bool" where
  "hasPermission g permission =
     list_ex (\<lambda>p. p = permission \<or> permission = ''read'' \<and> (p = ''write'' \<or> p = PermissionExec)) (gPermissions g)"

definition deriveSourceGrants :: "(identity option \<Rightarrow> grant list) \<Rightarrow> identity \<Rightarrow> grant list" where
  "deriveSourceGrants source i =
     (if \<not> FromToken (Some i) then source (Some i)
      else extractGrantsFromRaw
             (case any_array (gget (idRaw i) RawTokenGrants) of None \<Rightarrow> [] | Some raw \<Rightarrow> raw))"

definition sourceGrants :: "evaluator \<Rightarrow> identity option \<Rightarrow> grant list" where
  "sourceGrants e i = (case (evSource e, i) of
     (Some source, Some i) \<Rightarrow> deriveSourceGrants source i | _ \<Rightarrow> [])"

definition collectGrants :: "evaluator \<Rightarrow> identity option \<Rightarrow> policy \<Rightarrow> grant list" where
  "collectGrants e i p =
     filter (\<lambda>g. audienceMatches g i (evUserClaims e)) (pGrants p) @ sourceGrants e i"

record grantSet =
  gsGrants :: "grant list"
  gsServices :: bool
  gsStacks :: bool

definition emptyGrantSet :: grantSet where
  "emptyGrantSet = \<lparr>gsGrants = [], gsServices = False, gsStacks = False\<rparr>"

definition noteResource :: "string \<Rightarrow> grantSet \<Rightarrow> grantSet" where
  "noteResource expr gs = (case Cut expr '':'' of (exprType, _) \<Rightarrow>
     gs\<lparr>gsServices := gsServices gs \<or> exprType = ''service'' \<or> exprType = ''*'',
        gsStacks := gsStacks gs \<or> exprType = ''stack'' \<or> exprType = ''*''\<rparr>)"

definition addGrant :: "string \<Rightarrow> grant \<Rightarrow> grantSet \<Rightarrow> grantSet" where
  "addGrant permission g gs =
     (if \<not> hasPermission g permission then gs
      else fold noteResource (gResources g) (gs\<lparr>gsGrants := gsGrants gs @ [g]\<rparr>))"

definition grantSetOf :: "evaluator \<Rightarrow> identity option \<Rightarrow> policy \<Rightarrow> string \<Rightarrow> grantSet" where
  "grantSetOf e i p permission = fold (addGrant permission) (collectGrants e i p) emptyGrantSet"

text \<open>The second component is \<open>allowAll\<close>.\<close>

definition grantsWith :: "evaluator option \<Rightarrow> identity option \<Rightarrow> string \<Rightarrow> grantSet \<times> bool" where
  "grantsWith e i permission = (case e of
     None \<Rightarrow> (emptyGrantSet, permission \<noteq> PermissionExec)
   | Some e \<Rightarrow> (case effectivePolicy e permission of
       None \<Rightarrow> (emptyGrantSet, True)
     | Some (_, p) \<Rightarrow> (grantSetOf e i p permission, False)))"

section \<open>Matching a resource\<close>

definition grantCovers :: "grant \<Rightarrow> string \<Rightarrow> string \<Rightarrow> bool" where
  "grantCovers g resType resName = list_ex (\<lambda>expr. matchResourceParts expr resType resName) (gResources g)"

definition anyCovers :: "grant list \<Rightarrow> string \<Rightarrow> string \<Rightarrow> bool" where
  "anyCovers grants resType resName = list_ex (\<lambda>g. grantCovers g resType resName) grants"

definition matchesParts :: "evaluator option \<Rightarrow> grantSet \<Rightarrow> string \<Rightarrow> string \<Rightarrow> bool" where
  "matchesParts e gs resType resID =
     (if anyCovers (gsGrants gs) resType resID then True
      else (case Option.bind e evResolver of
        None \<Rightarrow> False
      | Some r \<Rightarrow>
        if resType = ''task'' then
          (if \<not> gsServices gs \<and> \<not> gsStacks gs then False
           else (let svcName = ServiceOfTask_of r resID in
             if svcName = [] then False
             else if gsServices gs \<and> anyCovers (gsGrants gs) ''service'' svcName then True
             else if \<not> gsStacks gs then False
             else (let stackName = StackOf_of r ''service'' svcName in
               stackName \<noteq> [] \<and> anyCovers (gsGrants gs) ''stack'' stackName)))
        else if \<not> gsStacks gs then False
        else (let stackName = StackOf_of r resType resID in
          stackName \<noteq> [] \<and> anyCovers (gsGrants gs) ''stack'' stackName)))"

definition matches :: "evaluator option \<Rightarrow> grantSet \<Rightarrow> string \<Rightarrow> bool" where
  "matches e gs resource = (case splitResource resource of (resType, resID, ok) \<Rightarrow>
     if \<not> ok then list_ex (\<lambda>g. ''*'' \<in> set (gResources g)) (gsGrants gs)
     else matchesParts e gs resType resID)"

definition Can :: "evaluator option \<Rightarrow> identity option \<Rightarrow> string \<Rightarrow> string \<Rightarrow> bool" where
  "Can e i permission resource =
     (case grantsWith e i permission of (grants, allowAll) \<Rightarrow> allowAll \<or> matches e grants resource)"

definition Checker :: "evaluator option \<Rightarrow> identity option \<Rightarrow> string \<Rightarrow> string \<Rightarrow> bool" where
  "Checker e i permission =
     (case grantsWith e i permission of (grants, allowAll) \<Rightarrow>
        if allowAll then (\<lambda>_. True) else (\<lambda>resource. matches e grants resource))"

definition Filter ::
  "evaluator option \<Rightarrow> identity option \<Rightarrow> string \<Rightarrow> 'a list \<Rightarrow> ('a \<Rightarrow> string) \<Rightarrow> 'a list" where
  "Filter e i permission items resourceFunc =
     (case grantsWith e i permission of (grants, allowAll) \<Rightarrow>
        if allowAll then items else filter (\<lambda>item. matches e grants (resourceFunc item)) items)"

definition FilterInPlaceNamed ::
  "evaluator option \<Rightarrow> identity option \<Rightarrow> string \<Rightarrow> 'a list \<Rightarrow> string \<Rightarrow> ('a \<Rightarrow> string) \<Rightarrow> 'a list" where
  "FilterInPlaceNamed e i permission items resourceType nameFunc =
     (case grantsWith e i permission of (grants, allowAll) \<Rightarrow>
        if allowAll then items
        else filter (\<lambda>item. matchesParts e grants resourceType (nameFunc item)) items)"

definition HasAnyGrant :: "evaluator option \<Rightarrow> identity option \<Rightarrow> bool" where
  "HasAnyGrant e i = (case e of
     None \<Rightarrow> True
   | Some e \<Rightarrow> (case evPolicy e of None \<Rightarrow> True | Some (_, p) \<Rightarrow> 0 < length (collectGrants e i p)))"

definition canEverything :: "evaluator option \<Rightarrow> identity option \<Rightarrow> string \<Rightarrow> bool" where
  "canEverything e i permission = (case e of
     None \<Rightarrow> True
   | Some e \<Rightarrow> (case evPolicy e of
       None \<Rightarrow> True
     | Some (_, p) \<Rightarrow>
         list_ex (\<lambda>g. hasPermission g permission \<and> ''*'' \<in> set (gResources g)) (collectGrants e i p)))"

definition CanReadEverything :: "evaluator option \<Rightarrow> identity option \<Rightarrow> bool" where
  "CanReadEverything e i = canEverything e i ''read''"

definition CanWriteEverything :: "evaluator option \<Rightarrow> identity option \<Rightarrow> bool" where
  "CanWriteEverything e i = canEverything e i ''write''"

text \<open>The nested loops of \<open>PermissionsFor\<close>; \<open>None\<close> is the nil map.\<close>

definition addPermissions :: "string list \<Rightarrow> string list \<Rightarrow> string list" where
  "addPermissions existing perms = fold (\<lambda>perm ps. if perm \<in> set ps then ps else ps @ [perm]) perms existing"

definition PermissionsFor :: "evaluator option \<Rightarrow> identity option \<Rightarrow> string list gomap option" where
  "PermissionsFor e i = (case e of
     None \<Rightarrow> None
   | Some e \<Rightarrow> (case evPolicy e of
       None \<Rightarrow> None
     | Some (_, p) \<Rightarrow> (let grants = collectGrants e i p in
         if grants = [] then None
         else Some (fold (\<lambda>g result. fold (\<lambda>r result.
                gset result r (addPermissions (gor result r []) (gPermissions g))) (gResources g) result) grants []))))"

section \<open>The type-level projection\<close>

definition impliedTypes :: "string \<Rightarrow> string list" where
  "impliedTypes t =
     (if t = ''stack'' then [''service'', ''task'', ''config'', ''secret'', ''network'', ''volume'']
      else if t = ''service'' then [''task''] else [])"

record typeAccess =
  taGranted :: "(string \<times> string) list"
  taAllowAll :: bool

definition TypeAccess_Can :: "typeAccess \<Rightarrow> string \<Rightarrow> string \<Rightarrow> bool" where
  "TypeAccess_Can t permission resourceType =
     (if taAllowAll t then permission \<noteq> PermissionExec
      else (permission, resourceType) \<in> set (taGranted t) \<or> (permission, ''*'') \<in> set (taGranted t))"

definition grantResourceType :: "string \<Rightarrow> string \<times> bool" where
  "grantResourceType expr =
     (if expr = ''*'' then (''*'', True)
      else (case splitResource expr of (resType, _, ok) \<Rightarrow> (resType, ok)))"

definition typeRow :: "grant \<Rightarrow> string \<Rightarrow> (string \<times> string) list" where
  "typeRow g expr = (case grantResourceType expr of (resType, ok) \<Rightarrow>
     if \<not> ok then []
     else concat (map (\<lambda>permission. if \<not> hasPermission g permission then []
            else (permission, resType) # map (Pair permission) (impliedTypes resType)) validPermissions))"

definition TypeGrants :: "evaluator option \<Rightarrow> identity option \<Rightarrow> typeAccess" where
  "TypeGrants e i = (case e of
     None \<Rightarrow> \<lparr>taGranted = [], taAllowAll = True\<rparr>
   | Some e \<Rightarrow> (case evPolicy e of
       None \<Rightarrow> \<lparr>taGranted = [], taAllowAll = True\<rparr>
     | Some (_, p) \<Rightarrow>
         \<lparr>taGranted = concat (map (\<lambda>g. concat (map (typeRow g) (gResources g))) (collectGrants e i p)),
          taAllowAll = False\<rparr>))"

section \<open>Fingerprints\<close>

text \<open>
  \<open>maphash.String\<close> and \<open>maphash.Bytes\<close> under the process seed are arbitrary functions here: the
  fingerprint's properties do not depend on which.
\<close>

definition grantHash :: "(string \<Rightarrow> 64 word) \<Rightarrow> (64 word \<Rightarrow> 64 word \<Rightarrow> 64 word) \<Rightarrow> grant \<Rightarrow> 64 word" where
  "grantHash hashString mixHash g =
     mixHash (sum_list (map hashString (gResources g))) (sum_list (map hashString (gPermissions g)))"

definition Fingerprint ::
  "(string \<Rightarrow> 64 word) \<Rightarrow> (64 word \<Rightarrow> 64 word \<Rightarrow> 64 word) \<Rightarrow> evaluator option \<Rightarrow> identity option \<Rightarrow> 64 word" where
  "Fingerprint hashString mixHash e i = (case e of
     None \<Rightarrow> 0
   | Some ev \<Rightarrow> (case evPolicy ev of
       None \<Rightarrow> 0
     | Some (_, p) \<Rightarrow> mixHash
         (sum_list (map (grantHash hashString mixHash)
            (filter (\<lambda>g. audienceMatches g i (evUserClaims ev)) (pGrants p)))
          + sum_list (map (grantHash hashString mixHash) (sourceGrants ev i)))
         (PolicyGeneration e)))"

section \<open>Memoised grant sets\<close>

text \<open>
  \<open>Identity.Derived\<close> keeps what was computed under a key; \<open>grantsWith\<close> keys the grant set on the
  policy pointer and the permission, one memo per identity and evaluator.
\<close>

type_synonym grant_memo = "(nat \<times> string, grantSet) kvs"

definition Derived :: "'k \<Rightarrow> 'v \<Rightarrow> ('k, 'v) kvs \<Rightarrow> 'v \<times> ('k, 'v) kvs" where
  "Derived key derived memo = (case gget memo key of
     Some v \<Rightarrow> (v, memo) | None \<Rightarrow> (derived, gset memo key derived))"

definition grantsWith_memo ::
  "evaluator option \<Rightarrow> identity \<Rightarrow> string \<Rightarrow> grant_memo \<Rightarrow> (grantSet \<times> bool) \<times> grant_memo" where
  "grantsWith_memo e i permission memo = (case e of
     None \<Rightarrow> ((emptyGrantSet, permission \<noteq> PermissionExec), memo)
   | Some e \<Rightarrow> (case effectivePolicy e permission of
       None \<Rightarrow> ((emptyGrantSet, True), memo)
     | Some (addr, p) \<Rightarrow>
         (case Derived (addr, permission) (grantSetOf e (Some i) p permission) memo of
            (gs, memo') \<Rightarrow> ((gs, False), memo'))))"

section \<open>The grant set of a permission\<close>

definition exprType :: "string \<Rightarrow> string" where
  "exprType expr = fst (Cut expr '':'')"

lemma fold_noteResource:
  "fold noteResource es gs = gs
     \<lparr>gsServices := gsServices gs \<or> (\<exists>e \<in> set es. exprType e = ''service'' \<or> exprType e = ''*''),
      gsStacks := gsStacks gs \<or> (\<exists>e \<in> set es. exprType e = ''stack'' \<or> exprType e = ''*'')\<rparr>"
  by (induction es arbitrary: gs) (auto simp: noteResource_def exprType_def split: prod.splits)

lemma gsGrants_fold:
  "gsGrants (fold (addGrant permission) gl gs) = gsGrants gs @ filter (\<lambda>g. hasPermission g permission) gl"
  by (induction gl arbitrary: gs) (auto simp: addGrant_def fold_noteResource)

lemma gsServices_fold:
  "gsServices (fold (addGrant permission) gl gs) \<longleftrightarrow> gsServices gs \<or>
     (\<exists>g \<in> set gl. hasPermission g permission \<and>
        (\<exists>e \<in> set (gResources g). exprType e = ''service'' \<or> exprType e = ''*''))"
  by (induction gl arbitrary: gs) (auto simp: addGrant_def fold_noteResource)

lemma gsStacks_fold:
  "gsStacks (fold (addGrant permission) gl gs) \<longleftrightarrow> gsStacks gs \<or>
     (\<exists>g \<in> set gl. hasPermission g permission \<and>
        (\<exists>e \<in> set (gResources g). exprType e = ''stack'' \<or> exprType e = ''*''))"
  by (induction gl arbitrary: gs) (auto simp: addGrant_def fold_noteResource)

definition permitted :: "evaluator \<Rightarrow> identity option \<Rightarrow> policy \<Rightarrow> string \<Rightarrow> grant list" where
  "permitted e i p permission = filter (\<lambda>g. hasPermission g permission) (collectGrants e i p)"

lemma gsGrants_grantSetOf [simp]: "gsGrants (grantSetOf e i p permission) = permitted e i p permission"
  by (simp add: grantSetOf_def gsGrants_fold emptyGrantSet_def permitted_def)

lemma matchResourceParts_type:
  "matchResourceParts expr t n \<Longrightarrow> expr = ''*'' \<or> (\<exists>pat. Cut expr '':'' = (''*'', pat, True) \<or> Cut expr '':'' = (t, pat, True))"
  by (auto simp: matchResourceParts_def split: if_splits prod.splits)

lemma exprType_bare [simp]: "exprType ''*'' = ''*''"
  by (simp add: exprType_def Cut_def)

lemma matchResourceParts_exprType: "matchResourceParts expr t n \<Longrightarrow> exprType expr = ''*'' \<or> exprType expr = t"
  using matchResourceParts_type [of expr t n] by (auto simp: exprType_def Cut_def)

lemma anyCovers_iff:
  "anyCovers gl t n \<longleftrightarrow> (\<exists>g \<in> set gl. \<exists>e \<in> set (gResources g). matchResourceParts e t n)"
  by (simp add: anyCovers_def grantCovers_def list_ex_iff)

text \<open>The flags only cut work: without them no grant could have covered a service or a stack.\<close>

lemma no_services_no_cover:
  "\<not> gsServices (grantSetOf e i p permission) \<Longrightarrow> \<not> anyCovers (permitted e i p permission) ''service'' n"
  by (auto simp: grantSetOf_def gsServices_fold permitted_def anyCovers_iff dest!: matchResourceParts_exprType)

lemma no_stacks_no_cover:
  "\<not> gsStacks (grantSetOf e i p permission) \<Longrightarrow> \<not> anyCovers (permitted e i p permission) ''stack'' n"
  by (auto simp: grantSetOf_def gsStacks_fold permitted_def anyCovers_iff dest!: matchResourceParts_exprType)

section \<open>The decision, abstractly\<close>

text \<open>
  A resource is covered by a grant that names it, by one that names the parent service of a task,
  or by one that names the stack it, or its parent service, belongs to.
\<close>

inductive covered :: "grant list \<Rightarrow> resolver option \<Rightarrow> string \<Rightarrow> string \<Rightarrow> bool" for grants r where
  direct: "anyCovers grants t n \<Longrightarrow> covered grants r t n"
| parent: "r = Some rs \<Longrightarrow> ServiceOfTask_of rs n \<noteq> [] \<Longrightarrow>
     anyCovers grants ''service'' (ServiceOfTask_of rs n) \<Longrightarrow> covered grants r ''task'' n"
| parent_stack: "r = Some rs \<Longrightarrow> ServiceOfTask_of rs n \<noteq> [] \<Longrightarrow>
     StackOf_of rs ''service'' (ServiceOfTask_of rs n) \<noteq> [] \<Longrightarrow>
     anyCovers grants ''stack'' (StackOf_of rs ''service'' (ServiceOfTask_of rs n)) \<Longrightarrow>
     covered grants r ''task'' n"
| stack: "r = Some rs \<Longrightarrow> t \<noteq> ''task'' \<Longrightarrow> StackOf_of rs t n \<noteq> [] \<Longrightarrow>
     anyCovers grants ''stack'' (StackOf_of rs t n) \<Longrightarrow> covered grants r t n"

inductive_cases covered_task: "covered grants r ''task'' n"

lemma covered_iff:
  "covered grants r t n \<longleftrightarrow> anyCovers grants t n \<or>
     (\<exists>rs. r = Some rs \<and>
        (if t = ''task'' then ServiceOfTask_of rs n \<noteq> [] \<and>
           (anyCovers grants ''service'' (ServiceOfTask_of rs n) \<or>
            StackOf_of rs ''service'' (ServiceOfTask_of rs n) \<noteq> [] \<and>
            anyCovers grants ''stack'' (StackOf_of rs ''service'' (ServiceOfTask_of rs n)))
         else StackOf_of rs t n \<noteq> [] \<and> anyCovers grants ''stack'' (StackOf_of rs t n)))"
  by (auto intro: covered.intros elim!: covered.cases split: if_splits)

lemma covered_mono: "set gl \<subseteq> set gl' \<Longrightarrow> covered gl r t n \<Longrightarrow> covered gl' r t n"
proof -
  assume "set gl \<subseteq> set gl'"
  then have "anyCovers gl t n \<Longrightarrow> anyCovers gl' t n" for t n by (auto simp: anyCovers_iff)
  then show "covered gl r t n \<Longrightarrow> covered gl' r t n" by (auto simp: covered_iff split: if_splits)
qed

lemma matchesParts_covered:
  "matchesParts (Some e) (grantSetOf e i p permission) t n \<longleftrightarrow>
     covered (permitted e i p permission) (evResolver e) t n"
  using no_services_no_cover [of e i p permission] no_stacks_no_cover [of e i p permission]
  by (auto simp: matchesParts_def covered_iff Let_def split: option.splits)

section \<open>Properties of the decision\<close>

lemma Can_policy:
  "effectivePolicy e permission = Some (a, p) \<Longrightarrow>
     Can (Some e) i permission resource = matches (Some e) (grantSetOf e i p permission) resource"
  by (simp add: Can_def grantsWith_def)

lemma effectivePolicy_loaded: "evPolicy e = Some ap \<Longrightarrow> effectivePolicy e permission = Some ap"
  by (simp add: effectivePolicy_def)

lemma Can_no_policy:
  "evPolicy e = None \<Longrightarrow> permission \<noteq> PermissionExec \<Longrightarrow> Can (Some e) i permission resource"
  by (simp add: Can_def grantsWith_def effectivePolicy_def)

lemma matches_iff:
  "matches (Some e) (grantSetOf e i p permission) resource \<longleftrightarrow>
     (case splitResource resource of (t, n, ok) \<Rightarrow>
        if ok then covered (permitted e i p permission) (evResolver e) t n
        else (\<exists>g \<in> set (permitted e i p permission). ''*'' \<in> set (gResources g)))"
  by (auto simp: matches_def matchesParts_covered list_ex_iff split: prod.split)

text \<open>
  C1. The access decision implements the abstract coverage relation: under a policy, an identity may
  exercise a permission on a resource exactly when one of its grants carrying the permission names
  the resource, the parent service of a task, or the stack of either; a resource without a type is
  covered by a bare wildcard alone. The evaluator's service and stack flags change no answer.
\<close>

theorem Can_refines_covered:
  assumes "effectivePolicy e permission = Some (a, p)"
  shows "Can (Some e) i permission resource \<longleftrightarrow>
    (case splitResource resource of (t, n, ok) \<Rightarrow>
       if ok then covered (permitted e i p permission) (evResolver e) t n
       else (\<exists>g \<in> set (permitted e i p permission). ''*'' \<in> set (gResources g)))"
  using assms by (simp add: Can_policy matches_iff)

definition ex_grant :: grant where
  "ex_grant = \<lparr>gResources = [''stack:shop''], gAudience = [''group:ops''], gPermissions = [''write'']\<rparr>"

definition ex_resolver :: resolver where
  "ex_resolver = \<lparr>StackOf_of = (\<lambda>t n. if t = ''service'' \<and> n = ''web'' then ''shop'' else []),
     ServiceOfTask_of = (\<lambda>t. if t = ''t1'' then ''web'' else [])\<rparr>"

definition ex_evaluator :: evaluator where
  "ex_evaluator = NewEvaluator\<lparr>evPolicy := Some (7, \<lparr>pGrants = [ex_grant]\<rparr>), evResolver := Some ex_resolver\<rparr>"

definition ex_identity :: identity where
  "ex_identity = \<lparr>idSubject = ''ann'', idDisplayName = ''Ann'', idEmail = [], idGroups = [''ops''],
     idProvider = ''oidc'', idRaw = [], idExpiresAt = None, idClientID = []\<rparr>"

lemma Match_shop [simp]: "Match ''shop'' n = Some (n = ''shop'')"
  by (rule Match_literal) (simp add: literal_def literal_char_def)

lemma Match_ops [simp]: "Match ''ops'' n = Some (n = ''ops'')"
  by (rule Match_literal) (simp add: literal_def literal_char_def)

lemmas ex_defs = ex_grant_def ex_resolver_def ex_evaluator_def ex_identity_def NewEvaluator_def
  effectivePolicy_def permitted_def collectGrants_def sourceGrants_def audienceMatches_def
  matchAudience_def globOk_def hasPermission_def PermissionExec_def splitResource_def Cut_def

lemma ex_covered: "covered (permitted ex_evaluator (Some ex_identity) \<lparr>pGrants = [ex_grant]\<rparr> ''read'') (evResolver ex_evaluator) ''task'' ''t1''"
  by (simp add: covered_iff anyCovers_iff matchResourceParts_def ex_defs)

theorem Can_refines_covered_witness:
  "effectivePolicy ex_evaluator ''read'' = Some (7, \<lparr>pGrants = [ex_grant]\<rparr>) \<and>
   Can (Some ex_evaluator) (Some ex_identity) ''read'' ''task:t1''"
proof -
  have pol: "effectivePolicy ex_evaluator ''read'' = Some (7, \<lparr>pGrants = [ex_grant]\<rparr>)"
    by (simp add: ex_defs)
  have "splitResource ''task:t1'' = (''task'', ''t1'', True)" by (simp add: splitResource_def Cut_def)
  with pol ex_covered Can_refines_covered [OF pol, of "Some ex_identity" "''task:t1''"] show ?thesis by simp
qed

lemma sourceGrants_valid:
  assumes "\<And>src. evSource e = Some src \<Longrightarrow> grant_source src" and "g \<in> set (sourceGrants e i)"
  shows "validateGrant g = None"
proof -
  from assms(2) obtain src j where src: "evSource e = Some src" and g: "g \<in> set (deriveSourceGrants src j)"
    by (cases "evSource e"; cases i) (auto simp: sourceGrants_def)
  show ?thesis
  proof (cases "FromToken (Some j)")
    case True
    with g extractGrantsFromRaw_valid show ?thesis unfolding deriveSourceGrants_def by auto
  next
    case False
    with g assms(1) [OF src] show ?thesis
      by (auto simp: deriveSourceGrants_def intro: grant_source.source_valid)
  qed
qed

text \<open>
  A policy that passed validation, with a grant source that keeps its contract, never reaches the
  bad-pattern branch of a matcher: every resource and audience expression of every grant collected
  for any identity can be evaluated against every name without \<open>path.ErrBadPattern\<close>.
\<close>

theorem validated_grants_glob_safe:
  assumes "Validate p = None"
    and "\<And>src. evSource e = Some src \<Longrightarrow> grant_source src"
    and "g \<in> set (collectGrants e i p)"
    and "expr \<in> set (gResources g) \<union> set (gAudience g)"
    and "Cut expr '':'' = (typ, pat, True)"
  shows "Match pat name \<noteq> None"
proof -
  have "validateGrant g' = None" if "g' \<in> set (sourceGrants e i)" for g'
    using assms(2) that by (rule sourceGrants_valid)
  then have "validateGrant g = None"
    using assms(1,3) by (auto simp: collectGrants_def Validate_None)
  then have "glob_safe expr" using assms(4) by (rule validateGrant_glob_safe)
  moreover have "expr \<noteq> ''*''" using assms(5) by (auto simp: Cut_def)
  ultimately show ?thesis using assms(5) by (simp add: glob_safe_def)
qed

theorem validated_grants_glob_safe_witness:
  "Validate \<lparr>pGrants = [ex_grant]\<rparr> = None \<and> ex_grant \<in> set (collectGrants ex_evaluator (Some ex_identity) \<lparr>pGrants = [ex_grant]\<rparr>)
   \<and> Match ''shop'' ''a/b'' \<noteq> None"
proof -
  have v: "Validate \<lparr>pGrants = [ex_grant]\<rparr> = None"
    by (simp add: Validate_def validateGrant_def ex_grant_def validateResource_def validateAudience_def
        validatePermission_def validResourceTypes_def validAudienceKinds_def validPermissions_def Cut_def)
  have src: "\<And>src. evSource ex_evaluator = Some src \<Longrightarrow> grant_source src"
    by (simp add: ex_evaluator_def NewEvaluator_def)
  have g: "ex_grant \<in> set (collectGrants ex_evaluator (Some ex_identity) \<lparr>pGrants = [ex_grant]\<rparr>)"
    by (simp add: ex_defs)
  have x: "''stack:shop'' \<in> set (gResources ex_grant) \<union> set (gAudience ex_grant)" by (simp add: ex_grant_def)
  have c: "Cut ''stack:shop'' '':'' = (''stack'', ''shop'', True)" by (simp add: Cut_def)
  show ?thesis using validated_grants_glob_safe [OF v src g x c, of "''a/b''"] v g by blast
qed

text \<open>
  C19. Nothing grants a shell implicitly: whenever \<open>exec\<close> is allowed, with or without a policy, a grant
  collected for the identity lists \<open>exec\<close> itself.
\<close>

theorem exec_needs_explicit_grant:
  assumes "Can e i PermissionExec resource"
  shows "\<exists>ev g. e = Some ev \<and> PermissionExec \<in> set (gPermissions g) \<and>
    g \<in> set (collectGrants ev i (case evPolicy ev of Some (_, p) \<Rightarrow> p | None \<Rightarrow> \<lparr>pGrants = []\<rparr>))"
proof (cases e)
  case None
  with assms show ?thesis
    by (auto simp: Can_def grantsWith_def matches_def emptyGrantSet_def matchesParts_def anyCovers_def
        split: prod.splits if_splits)
next
  case (Some ev)
  define p where "p = (case evPolicy ev of Some (_, p) \<Rightarrow> p | None \<Rightarrow> \<lparr>pGrants = []\<rparr>)"
  obtain a where pol: "effectivePolicy ev PermissionExec = Some (a, p)"
    by (cases "evPolicy ev") (auto simp: effectivePolicy_def p_def noFileGrants_def)
  have ne: "permitted ev i p PermissionExec \<noteq> []"
    using assms Some pol
    by (auto simp: Can_policy matches_iff covered_iff anyCovers_iff split: prod.splits if_splits)
  then obtain g where "g \<in> set (permitted ev i p PermissionExec)" by (cases "permitted ev i p PermissionExec") auto
  then have "g \<in> set (collectGrants ev i p)" "hasPermission g PermissionExec" by (auto simp: permitted_def)
  moreover from this(2) have "PermissionExec \<in> set (gPermissions g)"
    by (auto simp: hasPermission_def list_ex_iff PermissionExec_def)
  ultimately show ?thesis using Some unfolding p_def by blast
qed

definition ex_exec :: evaluator where
  "ex_exec = NewEvaluator\<lparr>evSource := Some (\<lambda>_. [\<lparr>gResources = [''*''], gAudience = [], gPermissions = [''exec'']\<rparr>])\<rparr>"

lemma ex_exec_can: "Can (Some ex_exec) (Some ex_identity) ''exec'' ''task:t1''"
  by (simp add: Can_def grantsWith_def ex_exec_def ex_defs noFileGrants_def deriveSourceGrants_def
      FromToken_def ProviderToken_def matches_def matchesParts_def grantSetOf_def addGrant_def
      emptyGrantSet_def noteResource_def anyCovers_def grantCovers_def matchResourceParts_def)

theorem exec_needs_explicit_grant_witness:
  "Can (Some ex_exec) (Some ex_identity) PermissionExec ''task:t1'' \<and>
   (\<exists>ev g. Some ex_exec = Some ev \<and> PermissionExec \<in> set (gPermissions g) \<and>
    g \<in> set (collectGrants ev (Some ex_identity) (case evPolicy ev of Some (_, p) \<Rightarrow> p | None \<Rightarrow> \<lparr>pGrants = []\<rparr>)))"
proof -
  have c: "Can (Some ex_exec) (Some ex_identity) PermissionExec ''task:t1''"
    using ex_exec_can by (simp add: PermissionExec_def)
  show ?thesis using c exec_needs_explicit_grant [OF c] by blast
qed

lemma hasPermission_read: "hasPermission g q \<Longrightarrow> q = ''write'' \<or> q = PermissionExec \<Longrightarrow> hasPermission g ''read''"
  by (auto simp: hasPermission_def list_ex_iff PermissionExec_def)

text \<open>Write and exec each imply read on the same resource.\<close>

theorem write_or_exec_implies_read:
  assumes "Can e i q resource" and "q = ''write'' \<or> q = PermissionExec"
  shows "Can e i ''read'' resource"
proof (cases "\<exists>ev a p. e = Some ev \<and> evPolicy ev = Some (a, p)")
  case True
  then obtain ev a p where e: "e = Some ev" and p: "evPolicy ev = Some (a, p)" by blast
  have sub: "set (permitted ev i p q) \<subseteq> set (permitted ev i p ''read'')"
    using assms(2) by (auto simp: permitted_def dest: hasPermission_read)
  show ?thesis
    using assms(1) sub covered_mono [OF sub] unfolding e
    by (auto simp: Can_policy [OF effectivePolicy_loaded [OF p]] matches_iff split: prod.splits if_splits)
next
  case False
  then show ?thesis
    by (cases e) (auto simp: Can_def grantsWith_def effectivePolicy_def PermissionExec_def split: option.splits)
qed

theorem write_or_exec_implies_read_witness:
  "Can (Some ex_exec) (Some ex_identity) ''exec'' ''task:t1'' \<and> Can (Some ex_exec) (Some ex_identity) ''read'' ''task:t1''"
  using ex_exec_can write_or_exec_implies_read [OF ex_exec_can] by (simp add: PermissionExec_def)

lemma splitResource_typed: "CHR '':'' \<notin> set t \<Longrightarrow> splitResource (t @ '':'' @ n) = (t, n, True)"
  using Cut_char_found [of "CHR '':''" t n] by (simp add: splitResource_def)

text \<open>
  C20. The check built once for many resources decides each as a single decision would; filtering a list keeps exactly the items that
  decision admits, in order; the in-place variant that is handed a type and names, and so builds no \<open>type:name\<close> string,
  keeps the same ones.
\<close>

theorem Filter_is_Can:
  "Checker e i permission resource = Can e i permission resource \<and>
   Filter e i permission items f = filter (\<lambda>item. Can e i permission (f item)) items \<and>
   (CHR '':'' \<notin> set t \<longrightarrow>
      FilterInPlaceNamed e i permission items t nameOf =
      Filter e i permission items (\<lambda>item. t @ '':'' @ nameOf item))"
proof (intro conjI)
  show "Checker e i permission resource = Can e i permission resource"
    by (simp add: Checker_def Can_def split: prod.split)
  show "Filter e i permission items f = filter (\<lambda>item. Can e i permission (f item)) items"
    by (auto simp: Filter_def Can_def split: prod.split)
  show "CHR '':'' \<notin> set t \<longrightarrow> FilterInPlaceNamed e i permission items t nameOf =
      Filter e i permission items (\<lambda>item. t @ '':'' @ nameOf item)"
    using splitResource_typed [of t] by (auto simp: FilterInPlaceNamed_def Filter_def matches_def split: prod.split)
qed

theorem Filter_is_Can_witness:
  "CHR '':'' \<notin> set ''task'' \<and>
   FilterInPlaceNamed (Some ex_evaluator) (Some ex_identity) ''read'' [''t1''] ''task'' (\<lambda>x. x) =
   Filter (Some ex_evaluator) (Some ex_identity) ''read'' [''t1''] (\<lambda>item. ''task'' @ '':'' @ item)"
  using Filter_is_Can [of "Some ex_evaluator" "Some ex_identity" "''read''" _ "[''t1'']" _ "''task''" "\<lambda>x. x"] by simp

text \<open>
  Default deny: under a loaded policy, an identity without any applicable grant may exercise no
  permission on any resource.
\<close>

theorem no_grant_denies:
  assumes "\<not> HasAnyGrant e i"
  shows "\<not> Can e i permission resource"
proof -
  from assms obtain ev a p where e: "e = Some ev" and p: "evPolicy ev = Some (a, p)"
    and none: "collectGrants ev i p = []"
    by (auto simp: HasAnyGrant_def split: option.splits)
  then have "permitted ev i p permission = []" by (simp add: permitted_def)
  then show ?thesis
    using e effectivePolicy_loaded [OF p, of permission]
    by (auto simp: Can_policy matches_iff covered_iff anyCovers_iff split: prod.splits)
qed

theorem no_grant_denies_witness:
  "\<not> HasAnyGrant (Some ex_evaluator) None \<and> \<not> Can (Some ex_evaluator) None ''read'' ''stack:shop''"
proof -
  have h: "\<not> HasAnyGrant (Some ex_evaluator) None" by (simp add: HasAnyGrant_def ex_defs)
  show ?thesis using h no_grant_denies [OF h] by blast
qed

text \<open>
  An identity that passes the everything gate for a permission other than exec may exercise it
  on every resource string, one without a type included, so an endpoint behind the gate exposes
  nothing the per-resource check would refuse.
\<close>

theorem canEverything_Can:
  assumes "canEverything e i permission" "permission \<noteq> PermissionExec"
  shows "Can e i permission resource"
proof (cases "\<exists>ev a p. e = Some ev \<and> evPolicy ev = Some (a, p)")
  case True
  then obtain ev a p where e: "e = Some ev" and p: "evPolicy ev = Some (a, p)" by blast
  from assms e p obtain g where g: "g \<in> set (permitted ev i p permission)" "''*'' \<in> set (gResources g)"
    by (auto simp: canEverything_def permitted_def list_ex_iff)
  moreover have "matchResourceParts ''*'' t n" for t n by (simp add: matchResourceParts_def)
  ultimately have "anyCovers (permitted ev i p permission) t n" for t n by (auto simp: anyCovers_iff)
  with g show ?thesis
    unfolding e by (auto simp: Can_policy [OF effectivePolicy_loaded [OF p]] matches_iff covered_iff split: prod.split)
next
  case False
  with assms(2) show ?thesis
    by (cases e) (auto simp: Can_def grantsWith_def effectivePolicy_def split: option.splits)
qed

definition ex_reader :: evaluator where
  "ex_reader = NewEvaluator\<lparr>evPolicy := Some (3, \<lparr>pGrants = [\<lparr>gResources = [''*''], gAudience = [], gPermissions = [''read'']\<rparr>]\<rparr>)\<rparr>"

theorem canEverything_Can_witness:
  "canEverything (Some ex_reader) (Some ex_identity) ''read'' \<and> Can (Some ex_reader) (Some ex_identity) ''read'' ''swarm''"
proof -
  have c: "canEverything (Some ex_reader) (Some ex_identity) ''read''"
    by (simp add: canEverything_def ex_reader_def ex_defs)
  show ?thesis using c canEverything_Can [OF c, of "''swarm''"] by (simp add: PermissionExec_def)
qed

section \<open>Memoisation\<close>

text \<open>
  A memo is coherent when each entry is what the policy at its address yields. Addresses are never
  reused while a memo refers to them: \<open>heap\<close> is what each policy pointer points to.
\<close>

definition coherent :: "(nat \<rightharpoonup> policy) \<Rightarrow> evaluator \<Rightarrow> identity \<Rightarrow> grant_memo \<Rightarrow> bool" where
  "coherent heap e i memo \<longleftrightarrow> (\<forall>a permission gs. gget memo (a, permission) = Some gs \<longrightarrow>
     (\<exists>p. heap a = Some p \<and> gs = grantSetOf e (Some i) p permission))"

lemma grantSetOf_policy_indep: "grantSetOf (e\<lparr>evPolicy := p', evPolicyGeneration := n\<rparr>) i p permission = grantSetOf e i p permission"
  by (simp add: grantSetOf_def collectGrants_def sourceGrants_def)

text \<open>
  The memo never changes an answer: from any coherent memo, the memoised lookup yields exactly
  the grant set computed afresh and leaves the memo coherent, and it stays coherent when the policy
  is hot-swapped, so no decision is served from a policy that has been replaced.
\<close>

theorem grantsWith_memo_transparent:
  assumes "coherent heap e i memo"
    and "\<And>a p. effectivePolicy e permission = Some (a, p) \<Longrightarrow> heap a = Some p"
  shows "fst (grantsWith_memo (Some e) i permission memo) = grantsWith (Some e) (Some i) permission
    \<and> coherent heap e i (snd (grantsWith_memo (Some e) i permission memo))
    \<and> (\<forall>q e'. SetPolicy q (Some e) = Some e' \<longrightarrow>
         coherent heap e' i (snd (grantsWith_memo (Some e) i permission memo)))"
proof -
  let ?m = "snd (grantsWith_memo (Some e) i permission memo)"
  have a: "fst (grantsWith_memo (Some e) i permission memo) = grantsWith (Some e) (Some i) permission \<and> coherent heap e i ?m"
  proof (cases "effectivePolicy e permission")
    case None
    with assms(1) show ?thesis by (simp add: grantsWith_memo_def grantsWith_def)
  next
    case (Some ap)
    obtain a p where ap: "ap = (a, p)" by (cases ap)
    have h: "heap a = Some p" using assms(2) Some ap by simp
    show ?thesis
    proof (cases "gget memo (a, permission)")
      case None
      with Some ap h assms(1) show ?thesis
        by (auto simp: grantsWith_memo_def grantsWith_def Derived_def coherent_def)
    next
      case (Some gs)
      with assms(1) h have "gs = grantSetOf e (Some i) p permission" by (fastforce simp: coherent_def)
      with Some \<open>effectivePolicy e permission = Some ap\<close> ap assms(1) show ?thesis
        by (simp add: grantsWith_memo_def grantsWith_def Derived_def)
    qed
  qed
  have "coherent heap e' i ?m" if "SetPolicy q (Some e) = Some e'" for q e'
    using a that unfolding coherent_def SetPolicy_def by (auto simp: grantSetOf_policy_indep)
  with a show ?thesis by blast
qed

theorem grantsWith_memo_transparent_witness:
  "coherent (\<lambda>a. if a = 7 then Some \<lparr>pGrants = [ex_grant]\<rparr> else None) ex_evaluator ex_identity [] \<and>
   fst (grantsWith_memo (Some ex_evaluator) ex_identity ''read'' []) = grantsWith (Some ex_evaluator) (Some ex_identity) ''read''"
proof -
  let ?heap = "\<lambda>a. if a = 7 then Some \<lparr>pGrants = [ex_grant]\<rparr> else None"
  have c: "coherent ?heap ex_evaluator ex_identity []" by (simp add: coherent_def)
  have h: "?heap a = Some p" if "effectivePolicy ex_evaluator ''read'' = Some (a, p)" for a p
    using that by (auto simp: ex_evaluator_def effectivePolicy_def NewEvaluator_def)
  show ?thesis using c grantsWith_memo_transparent [OF c h] by blast
qed

section \<open>Fingerprints\<close>

text \<open>Two grants with the same resources and permissions, in any order, hash alike and cover alike.\<close>

definition grant_shape :: "grant \<Rightarrow> string multiset \<times> string multiset" where
  "grant_shape g = (mset (gResources g), mset (gPermissions g))"

definition shapeHash ::
  "(string \<Rightarrow> 64 word) \<Rightarrow> (64 word \<Rightarrow> 64 word \<Rightarrow> 64 word) \<Rightarrow> string multiset \<times> string multiset \<Rightarrow> 64 word" where
  "shapeHash hs mx s = mx (sum_mset (image_mset hs (fst s))) (sum_mset (image_mset hs (snd s)))"

lemma grantHash_shape: "grantHash hs mx = (\<lambda>g. shapeHash hs mx (grant_shape g))"
  by (simp add: fun_eq_iff grantHash_def shapeHash_def grant_shape_def sum_mset_sum_list [symmetric])

lemma Fingerprint_collect:
  "evPolicy e = Some (a, p) \<Longrightarrow> Fingerprint hs mx (Some e) i =
     mx (sum_mset (image_mset (shapeHash hs mx) (image_mset grant_shape (mset (collectGrants e i p))))) (evPolicyGeneration e)"
  by (simp add: Fingerprint_def PolicyGeneration_def collectGrants_def grantHash_shape
      sum_mset_sum_list [symmetric] image_mset.compositionality comp_def)

lemma shape_cover: "grant_shape g = grant_shape h \<Longrightarrow> set (gResources g) = set (gResources h) \<and> set (gPermissions g) = set (gPermissions h)"
  by (auto simp: grant_shape_def dest: mset_eq_setD)

lemma shape_hasPermission: "grant_shape g = grant_shape h \<Longrightarrow> hasPermission g q = hasPermission h q"
  using shape_cover [of g h] by (simp add: hasPermission_def list_ex_iff)

lemma shapes_permitted:
  assumes "image_mset grant_shape (mset (collectGrants e i p)) = image_mset grant_shape (mset (collectGrants e j p))"
    and "g \<in> set (permitted e i p q)"
  shows "\<exists>h \<in> set (permitted e j p q). set (gResources h) = set (gResources g)"
proof -
  from assms(2) have g: "g \<in> set (collectGrants e i p)" "hasPermission g q" by (auto simp: permitted_def)
  from g(1) assms(1) have "grant_shape g \<in># image_mset grant_shape (mset (collectGrants e j p))"
    by (metis image_eqI in_multiset_in_set set_image_mset)
  then obtain h where h: "h \<in> set (collectGrants e j p)" "grant_shape g = grant_shape h" by auto
  have "set (gResources h) = set (gResources g)" using shape_cover [OF h(2)] by simp
  moreover have "h \<in> set (permitted e j p q)"
    using h g(2) shape_hasPermission [OF h(2)] by (simp add: permitted_def)
  ultimately show ?thesis by blast
qed

text \<open>
  The fingerprint is a function of what an identity may see: two identities whose applicable
  grants agree up to the order of grants, resources and permissions get the same fingerprint under
  one policy generation, and every decision about them is the same, so sharing a cached response
  between them is sound.
\<close>

theorem same_grants_same_fingerprint:
  assumes "evPolicy e = Some (a, p)"
    and "image_mset grant_shape (mset (collectGrants e i p)) = image_mset grant_shape (mset (collectGrants e j p))"
  shows "Fingerprint hs mx (Some e) i = Fingerprint hs mx (Some e) j
    \<and> Can (Some e) i permission resource = Can (Some e) j permission resource"
proof
  show "Fingerprint hs mx (Some e) i = Fingerprint hs mx (Some e) j"
    using assms by (simp add: Fingerprint_collect)
  have any: "anyCovers (permitted e i p permission) t n = anyCovers (permitted e j p permission) t n" for t n
    using shapes_permitted [OF assms(2)] shapes_permitted [OF assms(2) [symmetric]]
    unfolding anyCovers_iff by metis
  have bare: "(\<exists>g \<in> set (permitted e i p permission). ''*'' \<in> set (gResources g)) \<longleftrightarrow>
      (\<exists>g \<in> set (permitted e j p permission). ''*'' \<in> set (gResources g))"
    using shapes_permitted [OF assms(2)] shapes_permitted [OF assms(2) [symmetric]] by metis
  show "Can (Some e) i permission resource = Can (Some e) j permission resource"
    unfolding Can_policy [OF effectivePolicy_loaded [OF assms(1)]] matches_iff covered_iff any bare ..
qed

theorem same_grants_same_fingerprint_witness:
  "Fingerprint (\<lambda>_. 5) (\<lambda>a b. a + 3 * b) (Some ex_evaluator) (Some ex_identity)
     = Fingerprint (\<lambda>_. 5) (\<lambda>a b. a + 3 * b) (Some ex_evaluator) (Some (ex_identity\<lparr>idSubject := ''bob''\<rparr>))"
proof -
  let ?bob = "Some (ex_identity\<lparr>idSubject := ''bob''\<rparr>)"
  have p: "evPolicy ex_evaluator = Some (7, \<lparr>pGrants = [ex_grant]\<rparr>)" by (simp add: ex_defs)
  have s: "image_mset grant_shape (mset (collectGrants ex_evaluator (Some ex_identity) \<lparr>pGrants = [ex_grant]\<rparr>)) =
      image_mset grant_shape (mset (collectGrants ex_evaluator ?bob \<lparr>pGrants = [ex_grant]\<rparr>))"
    by (simp add: ex_defs)
  show ?thesis using same_grants_same_fingerprint [OF p s] by blast
qed

section \<open>The type-level projection\<close>

lemma TypeGrants_mem:
  assumes "evPolicy e = Some (a, p)" "g \<in> set (collectGrants e i p)" "hasPermission g permission"
    and "permission \<in> set validPermissions" "expr \<in> set (gResources g)" "grantResourceType expr = (t, True)"
    and "t' = t \<or> t' \<in> set (impliedTypes t)"
  shows "(permission, t') \<in> set (taGranted (TypeGrants (Some e) i))"
proof -
  let ?row = "\<lambda>q. if \<not> hasPermission g q then [] else (q, t) # map (Pair q) (impliedTypes t)"
  have "(permission, t') \<in> set (concat (map ?row validPermissions))"
    unfolding set_concat set_map using assms(3,4,7) by (intro UN_I [of "?row permission"] imageI) auto
  then have "(permission, t') \<in> set (typeRow g expr)"
    using assms(6) by (simp only: typeRow_def prod.case) simp
  then have "(permission, t') \<in> set (concat (map (typeRow g) (gResources g)))"
    using assms(5) by auto
  then show ?thesis
    using assms(1,2) by (auto simp: TypeGrants_def)
qed

lemma grantResourceType_covers:
  assumes "matchResourceParts expr t n"
  shows "grantResourceType expr = (''*'', True) \<or> grantResourceType expr = (t, True)"
  using matchResourceParts_type [OF assms]
  by (auto simp: grantResourceType_def splitResource_def)

lemma TypeGrants_covers:
  assumes "evPolicy e = Some (a, p)" "permission \<in> set validPermissions"
    and "anyCovers (permitted e i p permission) t n" "t' = t \<or> t' \<in> set (impliedTypes t)"
  shows "TypeAccess_Can (TypeGrants (Some e) i) permission t'"
proof -
  from assms(3) obtain g expr where g: "g \<in> set (collectGrants e i p)" "hasPermission g permission"
    and x: "expr \<in> set (gResources g)" "matchResourceParts expr t n"
    by (auto simp: anyCovers_iff permitted_def)
  note mem = TypeGrants_mem [OF assms(1) g assms(2) x(1)]
  have "(permission, t') \<in> set (taGranted (TypeGrants (Some e) i)) \<or>
        (permission, ''*'') \<in> set (taGranted (TypeGrants (Some e) i))"
    using grantResourceType_covers [OF x(2)] mem [of t t'] mem [of "''*''" "''*''"] assms(4) by auto
  then show ?thesis using assms(1) by (auto simp: TypeAccess_Can_def TypeGrants_def)
qed

text \<open>
  What the evaluator relies on in the resolver behind it: only the five stack-scoped types have a
  stack. Under that contract the projection is no narrower than the decision.
\<close>

locale stack_resolver =
  fixes StackOf :: "string \<Rightarrow> string \<Rightarrow> string"
    and ServiceOfTask :: "string \<Rightarrow> string"
  assumes stack_types: "StackOf t n \<noteq> [] \<Longrightarrow> t \<in> {''service'', ''config'', ''secret'', ''network'', ''volume''}"
begin

lemma type_access_sound:
  assumes "evPolicy e = Some (a, p)"
    and "evResolver e = Some \<lparr>StackOf_of = StackOf, ServiceOfTask_of = ServiceOfTask\<rparr>"
    and "permission \<in> set validPermissions" "CHR '':'' \<notin> set t"
    and "Can (Some e) i permission (t @ '':'' @ n)"
  shows "TypeAccess_Can (TypeGrants (Some e) i) permission t"
proof -
  note covers = TypeGrants_covers [OF assms(1,3)]
  have "covered (permitted e i p permission) (evResolver e) t n"
    using assms(4,5) effectivePolicy_loaded [OF assms(1)]
    by (simp add: Can_policy matches_iff splitResource_typed [of t n, simplified])
  then show ?thesis
  proof (cases rule: covered.cases)
    case direct
    then show ?thesis using covers by blast
  next
    case (parent rs)
    then show ?thesis using covers [of i "''service''" _ "''task''"] by (auto simp: impliedTypes_def)
  next
    case (parent_stack rs)
    then show ?thesis using covers [of i "''stack''" _ "''task''"] by (auto simp: impliedTypes_def)
  next
    case (stack rs)
    then have "t \<in> {''service'', ''config'', ''secret'', ''network'', ''volume''}"
      using assms(2) stack_types [of t n] by auto
    with stack show ?thesis using covers [of i "''stack''" _ t] by (auto simp: impliedTypes_def)
  qed
qed

end

text \<open>
  Without a loaded policy the projection hides what the decision allows: an identity whose
  provider grants \<open>exec\<close> may open a shell, while its type-level projection answers that it may exec
  on no type at all, so a catalog filtered by the projection leaves the operation out.
\<close>

theorem TypeGrants_misses_provider_exec:
  "Can (Some ex_exec) (Some ex_identity) ''exec'' ''task:t1'' \<and>
   \<not> TypeAccess_Can (TypeGrants (Some ex_exec) (Some ex_identity)) ''exec'' ''task''"
  using ex_exec_can
  by (simp add: TypeGrants_def TypeAccess_Can_def ex_exec_def NewEvaluator_def PermissionExec_def)

text \<open>
  The expression \<open>type:*\<close> covers exactly the resources of the type whose name is not empty and
  holds no slash; a name with a slash, as every namespaced plugin has, is covered by no \<open>*\<close>.
\<close>

theorem type_star_covers:
  assumes "CHR '':'' \<notin> set t" "t \<noteq> ''*''"
  shows "matchResourceParts (t @ '':*'') resType n \<longleftrightarrow> resType = t \<and> n \<noteq> [] \<and> CHR ''/'' \<notin> set n"
proof -
  have "Cut (t @ '':*'') '':'' = (t, ''*'', True)" using Cut_char_found [OF assms(1), of "''*''"] by simp
  then show ?thesis using assms(2) by (auto simp: matchResourceParts_def Match_star)
qed

theorem type_star_covers_witness:
  "CHR '':'' \<notin> set ''plugin'' \<and> ''plugin'' \<noteq> ''*'' \<and> \<not> matchResourceParts ''plugin:*'' ''plugin'' ''vieux/sshfs:latest''"
  using type_star_covers [of "''plugin''" "''plugin''" "''vieux/sshfs:latest''"] by simp

end
