(* ===== verification/Swarm.thy ===== *)
theory Swarm
  imports Prelude
begin

text \<open>
  The Docker Swarm objects the sources read, with the fields they read. The types themselves belong
  to Docker's client library; a record here lists exactly the fields Cetacean's code touches, under
  the names the Go structs give them. Version indices and times are only compared and subtracted, so
  they are unbounded; a zero \<open>time.Time\<close> is \<open>0\<close>, times count nanoseconds.
\<close>

type_synonym labels = "string gomap"

section \<open>Nodes\<close>

datatype node_state = NodeStateReady | NodeStateDown | NodeStateUnknown | NodeStateDisconnected
datatype availability = NodeAvailabilityActive | NodeAvailabilityPause | NodeAvailabilityDrain
datatype reachability = ReachabilityUnknown | ReachabilityUnreachable | ReachabilityReachable

record node =
  nodeID :: string
  nodeVersion :: nat
  nodeRole :: string
  nodeHostname :: string
  nodeLabels :: labels
  nodeEngineLabels :: labels
  nodeOS :: string
  nodeArch :: string
  nodeAddr :: string
  nodeState :: node_state
  nodeAvailability :: availability
  nodeManager :: "reachability option"
  nodeNanoCPUs :: int
  nodeMemory :: int

section \<open>Services and tasks\<close>

text \<open>
  A field that is only compared or handed on as a whole is one value here, a string that stands for it; the empty string is Go's zero
  value. \<open>mountRest\<close>, \<open>vopRest\<close> and the like stand for the fields of a struct beyond those listed.
\<close>

record volumeOptions =
  vopDriverConfig :: "string option"
  vopRest :: string

record mount =
  mountType :: string
  mountSource :: string
  mountBindOptions :: "string option"
  mountVolumeOptions :: "volumeOptions option"
  mountRest :: string

record fileTarget =
  ftName :: string
  ftUID :: string
  ftGID :: string
  ftMode :: nat

record secretReference =
  rsID :: string
  rsName :: string
  rsFile :: "fileTarget option"

record configReference =
  rcID :: string
  rcName :: string
  rcFile :: "fileTarget option"

record healthConfig =
  hcTest :: "string list"
  hcRest :: string

record containerSpec =
  csConfigs :: "configReference list"
  csSecrets :: "secretReference list"
  csMounts :: "mount list"
  csLabels :: labels
  csImage :: string
  csCommand :: "string list"
  csArgs :: "string list"
  csDir :: string
  csUser :: string
  csGroups :: "string list"
  csHealthcheck :: "healthConfig option"
  csEnv :: "string list"
  csCapabilityAdd :: "string list"
  csRest :: string

definition zeroContainer :: containerSpec where
  "zeroContainer = \<lparr>csConfigs = [], csSecrets = [], csMounts = [], csLabels = [], csImage = [], csCommand = [], csArgs = [], csDir = [],
     csUser = [], csGroups = [], csHealthcheck = None, csEnv = [], csCapabilityAdd = [], csRest = []\<rparr>"

text \<open>
  A service mode: \<open>Replicated\<close> carries the replica count, absent where the spec leaves it nil.
\<close>

datatype mode = ModeNone | Replicated "nat option" | Global | GlobalJob
  | ReplicatedJob (maxConcurrent: "nat option") (totalCompletions: "nat option")

datatype platform = Platform (platOS: string) (platArch: string)

datatype update_state = UpdateStateUpdating | UpdateStatePaused | UpdateStateCompleted
  | UpdateStateRollbackStarted | UpdateStateRollbackPaused | UpdateStateRollbackCompleted

record placement =
  plConstraints :: "string list"
  plPlatforms :: "platform list"
  plMaxReplicas :: nat
  plRest :: string

record portConfig =
  pcName :: string
  pcProtocol :: string
  pcTargetPort :: nat
  pcPublishedPort :: nat
  pcPublishMode :: string

record endpointSpec =
  epMode :: string
  epPorts :: "portConfig list"

record networkAttachment =
  naTarget :: string
  naAliases :: "string list"
  naRest :: string

record serviceSpec =
  spName :: string
  spLabels :: labels
  spContainer :: "containerSpec option"
  spNetworks :: "networkAttachment list"
  spMode :: mode
  spPlacement :: "placement option"
  spEndpoint :: "endpointSpec option"
  spResources :: "string option"
  spLogDriver :: "string option"
  spUpdateConfig :: "string option"
  spRollbackConfig :: "string option"
  spForceUpdate :: "64 word"

definition zeroSpec :: serviceSpec where
  "zeroSpec = \<lparr>spName = [], spLabels = [], spContainer = None, spNetworks = [], spMode = ModeNone, spPlacement = None, spEndpoint = None,
     spResources = None, spLogDriver = None, spUpdateConfig = None, spRollbackConfig = None, spForceUpdate = 0\<rparr>"

text \<open>The sources read a service without a placement spec as one with no constraints, no platforms and no replica cap.\<close>

definition spConstraints :: "serviceSpec \<Rightarrow> string list" where
  "spConstraints sp = (case spPlacement sp of None \<Rightarrow> [] | Some p \<Rightarrow> plConstraints p)"

definition spPlatforms :: "serviceSpec \<Rightarrow> platform list" where
  "spPlatforms sp = (case spPlacement sp of None \<Rightarrow> [] | Some p \<Rightarrow> plPlatforms p)"

definition spMaxReplicas :: "serviceSpec \<Rightarrow> nat" where
  "spMaxReplicas sp = (case spPlacement sp of None \<Rightarrow> 0 | Some p \<Rightarrow> plMaxReplicas p)"

record service =
  svID :: string
  svVersion :: nat
  svSpec :: serviceSpec
  svPrevious :: "serviceSpec option"
  svJobIteration :: "nat option"
  svUpdateState :: "update_state option"
  svVIPs :: "(string \<times> string) list"

datatype task_state =
    TaskStateNew | TaskStateAllocated | TaskStatePending | TaskStateAssigned | TaskStateAccepted
  | TaskStatePreparing | TaskStateReady | TaskStateStarting | TaskStateRunning | TaskStateComplete
  | TaskStateShutdown | TaskStateFailed | TaskStateRejected | TaskStateRemove | TaskStateOrphaned

record task =
  tID :: string
  tVersion :: nat
  tServiceID :: string
  tNodeID :: string
  tSlot :: int
  tState :: task_state
  tDesiredState :: task_state
  tErr :: string
  tMessage :: string
  tTimestamp :: int
  tContainerLabels :: "labels option"
  tJobIteration :: "nat option"
  tAttachments :: "(string \<times> string list) list"

section \<open>Configs, secrets, networks and volumes\<close>

record config =
  cfID :: string
  cfVersion :: nat
  cfName :: string
  cfLabels :: labels
  cfCreated :: int

record secret =
  seID :: string
  seVersion :: nat
  seName :: string
  seLabels :: labels
  seData :: "string option"
  seCreated :: int

record ipamConfig =
  icSubnet :: string
  icIPRange :: string
  icGateway :: string

record network =
  neID :: string
  neName :: string
  neLabels :: labels
  neScope :: string
  neIPAMDriver :: string
  neIPAMConfig :: "ipamConfig list"
  neAttachable :: bool
  neIngress :: bool

record volume =
  voName :: string
  voLabels :: labels
  voDriver :: string
  voOptions :: labels

end
