(* ===== verification/Sort_By_Index.thy ===== *)
theory Sort_By_Index
  imports Prelude
begin

text \<open>
  \<open>sortByIndex\<close> of \<open>internal/cache/resourcemap.go\<close>: the positions of a slice are sorted and the values
  are then moved in place by following the cycles of that permutation, each value at most once. Both
  loops mutate the two slices exactly as the source does. The inner loop has no bound of its own, so
  it is a partial function that may fail to return; the theory shows that it returns whenever the
  positions are a permutation, and that the values end up gathered in the order of the positions.
\<close>

section \<open>The loops\<close>

partial_function (option) cycle ::
  "nat \<Rightarrow> 'a \<Rightarrow> nat \<Rightarrow> nat list \<Rightarrow> 'a list \<Rightarrow> (nat list \<times> 'a list) option" where
  "cycle start held at order vals =
     (let from = order ! at; order' = order[at := at] in
      if from = start then Some (order', vals[at := held])
      else cycle start held from order' (vals[at := vals ! from]))"

fun cycles :: "nat list \<Rightarrow> nat list \<Rightarrow> 'a list \<Rightarrow> (nat list \<times> 'a list) option" where
  "cycles [] order vals = Some (order, vals)"
| "cycles (start # starts) order vals =
     (if order ! start = start then cycles starts order vals
      else (case cycle start (vals ! start) start order vals of
        None \<Rightarrow> None | Some (order', vals') \<Rightarrow> cycles starts order' vals'))"

text \<open>
  The comparison of every caller orders positions by a key, \<open>cmp.Compare (key a) (key b)\<close>.
\<close>

definition sortByIndex :: "(nat \<Rightarrow> 'k :: linorder) \<Rightarrow> 'a list \<Rightarrow> 'a list option" where
  "sortByIndex key vals =
     (let order = sort_key key [0..<length vals] in
      map_option snd (cycles [0..<length vals] order vals))"

section \<open>One cycle\<close>

text \<open>
  \<open>gathering p vals0 R order vals\<close>: outside \<open>R\<close> a position is finished, marked as such and holds the
  value the permutation \<open>p\<close> sends there; inside \<open>R\<close> nothing has been touched yet.
\<close>

definition gathering :: "nat list \<Rightarrow> 'a list \<Rightarrow> nat set \<Rightarrow> nat list \<Rightarrow> 'a list \<Rightarrow> bool" where
  "gathering p vals0 R order vals \<longleftrightarrow>
     length order = length p \<and> length vals = length p \<and> R \<subseteq> {..<length p} \<and>
     (\<forall>i < length p. i \<notin> R \<longrightarrow> order ! i = i \<and> vals ! i = vals0 ! (p ! i)) \<and>
     (\<forall>i \<in> R. order ! i = p ! i \<and> vals ! i = vals0 ! i)"

lemma gathering_step:
  assumes "length order = length p" "length vals = length p" "R \<subseteq> {..<length p}" "at \<in> R"
    and "\<forall>i < length p. i \<notin> R \<longrightarrow> order ! i = i \<and> vals ! i = vals0 ! (p ! i)"
    and "\<forall>i \<in> R. order ! i = p ! i \<and> (i = start \<or> vals ! i = vals0 ! i)"
    and "v = vals0 ! (p ! at)"
  shows "\<forall>i < length p. i \<notin> R - {at} \<longrightarrow> order[at := at] ! i = i \<and> vals[at := v] ! i = vals0 ! (p ! i)"
    and "\<forall>i \<in> R - {at}. order[at := at] ! i = p ! i \<and> (i = start \<or> vals[at := v] ! i = vals0 ! i)"
  using assms by (auto simp: nth_list_update)

lemma cycle_returns:
  assumes "distinct p"
    and "length order = length p" "length vals = length p" "R \<subseteq> {..<length p}" "at \<in> R"
    and "at = start \<or> start \<notin> R"
    and "\<forall>i \<in> R. p ! i \<in> (R - {at}) \<union> {start}"
    and "\<forall>i < length p. i \<notin> R \<longrightarrow> order ! i = i \<and> vals ! i = vals0 ! (p ! i)"
    and "\<forall>i \<in> R. order ! i = p ! i \<and> (i = start \<or> vals ! i = vals0 ! i)"
    and "held = vals0 ! start"
  shows "\<exists>order' vals' R'. cycle start held at order vals = Some (order', vals') \<and>
     R' \<subseteq> R \<and> start \<notin> R' \<and> (\<forall>i \<in> R'. p ! i \<in> R') \<and> gathering p vals0 R' order' vals'"
  using assms
proof (induction "card R" arbitrary: R "at" order vals rule: less_induct)
  case less
  have fin: "finite R" using less.prems(4) finite_subset by blast
  let ?R = "R - {at}"
  have sub: "?R \<subseteq> {..<length p}" using less.prems(4) by blast
  have start: "start \<notin> ?R" using less.prems(6) by blast
  have oat: "order ! at = p ! at" using less.prems(5,9) by blast
  have len: "length (order[at := at]) = length p" "length (vals[at := v]) = length p" for v
    using less.prems(2,3) by simp_all
  have inj: "p ! i = p ! j \<Longrightarrow> i = j" if "i \<in> R" "j \<in> R" for i j
    using less.prems(1,4) that nth_eq_iff_index_eq by blast
  have moves: "p ! i \<in> ?R \<union> {start}" "p ! i \<noteq> p ! at" if "i \<in> ?R" for i
    using that less.prems(5,7) inj [of i "at"] by blast+
  note step = gathering_step [OF less.prems(2-5,8,9)]
  show ?case
  proof (cases "p ! at = start")
    case True
    have val: "held = vals0 ! (p ! at)" using True less.prems(10) by simp
    have "gathering p vals0 ?R (order[at := at]) (vals[at := held])"
      using step [OF val] len sub start unfolding gathering_def by (intro conjI) auto
    moreover have "\<forall>i \<in> ?R. p ! i \<in> ?R"
      using moves True by blast
    moreover have "cycle start held at order vals = Some (order[at := at], vals[at := held])"
      using True oat by (subst cycle.simps) simp
    ultimately show ?thesis
      using start by (intro exI [of _ "order[at := at]"] exI [of _ "vals[at := held]"] exI [of _ ?R]) simp
  next
    case False
    let ?from = "p ! at"
    have nxt: "?from \<in> ?R" using False less.prems(5,7) by blast
    then have val: "vals ! ?from = vals0 ! ?from" using False less.prems(9) by auto
    have closed: "\<forall>i \<in> ?R. p ! i \<in> (?R - {?from}) \<union> {start}"
      using moves by blast
    have "card ?R < card R" using fin less.prems(5) by (rule card_Diff1_less)
    note IH = less.hyps [OF this less.prems(1) len(1) len(2) sub nxt disjI2 [OF start] closed
        step(1) [OF val] step(2) [OF val] less.prems(10)]
    have "cycle start held at order vals =
        cycle start held ?from (order[at := at]) (vals[at := vals ! ?from])"
      using False oat by (subst cycle.simps) (simp add: Let_def)
    with IH show ?thesis by auto
  qed
qed

section \<open>All cycles\<close>

lemma cycles_gather:
  assumes "distinct p" "gathering p vals0 R order vals" "\<forall>i \<in> R. p ! i \<in> R"
    and "set starts \<subseteq> {..<length p}" "\<forall>i \<in> R. i \<notin> set starts \<longrightarrow> p ! i = i"
  shows "\<exists>order' vals'. cycles starts order vals = Some (order', vals') \<and>
     vals' = map (\<lambda>i. vals0 ! i) p"
  using assms
proof (induction starts arbitrary: R order vals)
  case Nil
  then have "\<forall>i < length p. vals ! i = vals0 ! (p ! i)"
    unfolding gathering_def by (metis empty_iff list.set(1))
  then have "vals = map (\<lambda>i. vals0 ! i) p"
    using Nil.prems(2) by (intro nth_equalityI) (auto simp: gathering_def)
  then show ?case by simp
next
  case (Cons start starts)
  note g = Cons.prems(2) [unfolded gathering_def]
  have s: "start < length p" using Cons.prems(4) by simp
  show ?case
  proof (cases "order ! start = start")
    case True
    then have "start \<in> R \<longrightarrow> p ! start = start" using g by metis
    then have "\<forall>i \<in> R. i \<notin> set starts \<longrightarrow> p ! i = i" using Cons.prems(5) by auto
    then show ?thesis using True Cons.IH [OF Cons.prems(1-3)] Cons.prems(4) by simp
  next
    case False
    then have R: "start \<in> R" using g s by blast
    have ne: "p ! start \<noteq> start" using False g R by metis
    have "\<forall>i \<in> R. p ! i \<in> (R - {start}) \<union> {start}" using Cons.prems(3) by blast
    moreover have "vals ! start = vals0 ! start" using g R by blast
    ultimately obtain order' vals' R' where c: "cycle start (vals ! start) start order vals = Some (order', vals')"
      and R': "R' \<subseteq> R" "start \<notin> R'" "\<forall>i \<in> R'. p ! i \<in> R'" and g': "gathering p vals0 R' order' vals'"
      using cycle_returns [of p order vals R start start vals0 "vals ! start"] Cons.prems(1) g R by blast
    have "\<forall>i \<in> R'. i \<notin> set starts \<longrightarrow> p ! i = i"
      using R'(1,2) Cons.prems(5) by (metis in_mono set_ConsD)
    then show ?thesis
      using Cons.IH [OF Cons.prems(1) g' R'(3)] Cons.prems(4) False c by auto
  qed
qed

lemma permutation_entries:
  assumes "mset p = mset [0..<n]"
  shows "distinct p" "length p = n" "\<forall>i < n. p ! i < n"
proof -
  show "distinct p" using assms by (metis distinct_upt mset_eq_imp_distinct_iff)
  show len: "length p = n" using assms by (metis length_upt minus_nat.diff_0 size_mset)
  have "set p = {0..<n}" using assms by (metis mset_eq_setD set_upt)
  then show "\<forall>i < n. p ! i < n" using len by (metis atLeastLessThan_iff nth_mem)
qed

lemma sortByIndex_gathers:
  "sortByIndex key vals = Some (map (\<lambda>i. vals ! i) (sort_key key [0..<length vals]))"
proof -
  let ?p = "sort_key key [0..<length vals]"
  have p: "distinct ?p" "length ?p = length vals" "\<forall>i < length vals. ?p ! i < length vals"
    using permutation_entries [of ?p "length vals"] by simp_all
  have "gathering ?p vals {..<length vals} ?p vals"
    using p(2) by (simp add: gathering_def)
  moreover have "\<forall>i \<in> {..<length vals}. ?p ! i \<in> {..<length vals}" using p(3) by blast
  moreover have "set [0..<length vals] \<subseteq> {..<length ?p}" using p(2) by auto
  moreover have "\<forall>i \<in> {..<length vals}. i \<notin> set [0..<length vals] \<longrightarrow> ?p ! i = i" by simp
  ultimately obtain order' where "cycles [0..<length vals] ?p vals = Some (order', map (\<lambda>i. vals ! i) ?p)"
    using cycles_gather [OF p(1), of vals "{..<length vals}" ?p vals "[0..<length vals]"] by blast
  then show ?thesis by (simp add: sortByIndex_def Let_def)
qed

end
