(* ===== verification/Resource_Map.thy ===== *)
theory Resource_Map
  imports Swarm Sort_By_Index
begin

text \<open>
  The generic resource map of \<open>internal/cache/resourcemap.go\<close>, the events its writes return and the
  name resolution of \<open>resolve.go\<close>. A map is described by its functions (name, version, hooks) and by
  where its items live in the state the hooks maintain; an operation takes that state and returns it.
  The locale \<open>resource_map\<close> states what the operations rely on in the hooks, and proves once for every
  map what reads see after writes, that a version never goes back, and that overtaken writes change
  nothing. The five maps of the cache are its instances.
\<close>

section \<open>Events\<close>

datatype event_type =
    EventNode | EventService | EventTask | EventConfig | EventSecret | EventNetwork | EventVolume
  | EventStack | EventSync | EventGap | EventAnnotation

datatype resource =
    RNode node | RService service | RTask task | RConfig config | RSecret secret
  | RNetwork network | RVolume volume

record event =
  eType :: event_type
  eAction :: string
  eID :: string
  eName :: string
  eResource :: "resource option"
  ePrevious :: "resource option"
  eService :: string
  eStack :: string

definition newEvent :: "event_type \<Rightarrow> string \<Rightarrow> string \<Rightarrow> string \<Rightarrow> event" where
  "newEvent typ action i name = \<lparr>eType = typ, eAction = action, eID = i, eName = name,
     eResource = None, ePrevious = None, eService = [], eStack = []\<rparr>"

definition setAction :: "bool \<Rightarrow> string" where
  "setAction existed = (if existed then ''update'' else ''create'')"

section \<open>The map and its operations\<close>

record ('v, 's) resourceMap =
  rmItems :: "'s \<Rightarrow> 'v gomap"
  rmPut :: "'v gomap \<Rightarrow> 's \<Rightarrow> 's"
  rmAny :: "'v \<Rightarrow> resource"
  rmName :: "('v \<Rightarrow> string) option"
  rmOnSet :: "(string \<Rightarrow> 'v option \<Rightarrow> 'v \<Rightarrow> 's \<Rightarrow> 'v \<times> 's) option"
  rmOnDelete :: "(string \<Rightarrow> 'v \<Rightarrow> 's \<Rightarrow> 's) option"
  rmVersion :: "('v \<Rightarrow> nat) option"

definition rm_set :: "('v, 's) resourceMap \<Rightarrow> string \<Rightarrow> 'v \<Rightarrow> 's \<Rightarrow> 'v \<times> 's" where
  "rm_set r key v s =
     (case (case rmOnSet r of None \<Rightarrow> (v, s) | Some onSet \<Rightarrow> onSet key (gget (rmItems r s) key) v s) of
        (v', s') \<Rightarrow> (v', rmPut r (gset (rmItems r s') key v') s'))"

definition rm_get :: "('v, 's) resourceMap \<Rightarrow> string \<Rightarrow> 's \<Rightarrow> 'v option" where
  "rm_get r key s = gget (rmItems r s) key"

definition nameOf :: "('v, 's) resourceMap \<Rightarrow> 'v \<Rightarrow> string" where
  "nameOf r v = (case rmName r of None \<Rightarrow> [] | Some f \<Rightarrow> f v)"

definition rm_del :: "('v, 's) resourceMap \<Rightarrow> string \<Rightarrow> 's \<Rightarrow> string \<times> 's" where
  "rm_del r key s =
     (case gget (rmItems r s) key of
        None \<Rightarrow> ([], rmPut r (gdel (rmItems r s) key) s)
      | Some old \<Rightarrow>
          (let s' = (case rmOnDelete r of None \<Rightarrow> s | Some onDelete \<Rightarrow> onDelete key old s)
           in (nameOf r old, rmPut r (gdel (rmItems r s') key) s')))"

definition Add :: "('v, 's) resourceMap \<Rightarrow> string \<Rightarrow> 'v \<Rightarrow> event_type \<Rightarrow> 's \<Rightarrow> event option \<times> 's" where
  "Add r key v eventType s =
     (if gget (rmItems r s) key \<noteq> None then (None, s)
      else (case rm_set r key v s of (v', s') \<Rightarrow>
        (Some ((newEvent eventType (setAction False) key (nameOf r v'))\<lparr>eResource := Some (rmAny r v')\<rparr>), s')))"

definition Set :: "('v, 's) resourceMap \<Rightarrow> string \<Rightarrow> 'v \<Rightarrow> event_type \<Rightarrow> 's \<Rightarrow> event option \<times> 's" where
  "Set r key v eventType s = (let old = gget (rmItems r s) key in
     if (case (old, rmVersion r) of (Some o', Some version) \<Rightarrow> version v < version o' | _ \<Rightarrow> False) then (None, s)
     else (case rm_set r key v s of (v', s') \<Rightarrow>
       (Some ((newEvent eventType (setAction (old \<noteq> None)) key (nameOf r v'))
          \<lparr>eResource := Some (rmAny r v'),
           ePrevious := if eventType = EventConfig \<or> eventType = EventSecret then map_option (rmAny r) old else None\<rparr>),
        s')))"

definition Get :: "('v, 's) resourceMap \<Rightarrow> string \<Rightarrow> 's \<Rightarrow> 'v option" where
  "Get r key s = rm_get r key s"

definition Delete :: "('v, 's) resourceMap \<Rightarrow> string \<Rightarrow> event_type \<Rightarrow> 's \<Rightarrow> event \<times> 's" where
  "Delete r key eventType s = (let old = gget (rmItems r s) key in
     case rm_del r key s of (name, s') \<Rightarrow>
       ((newEvent eventType ''remove'' key name)\<lparr>eResource := map_option (rmAny r) old\<rparr>, s'))"

text \<open>
  Ranging over a map visits its entries in the order of the association list; \<open>listSorted\<close> looks the
  keys up again, so a key that is not there would read Go's zero value \<open>z\<close>.
\<close>

definition listSorted :: "'v \<Rightarrow> 'v gomap \<Rightarrow> 'v list" where
  "listSorted z items = map (\<lambda>k. gor items k z) (sort (gkeys items))"

definition List :: "('v, 's) resourceMap \<Rightarrow> 's \<Rightarrow> 'v list option" where
  "List r s = (let keys = gkeys (rmItems r s); vals = map snd (rmItems r s)
     in sortByIndex (\<lambda>i. keys ! i) vals)"

fun eachLoop :: "('v \<Rightarrow> 'a \<Rightarrow> bool \<times> 'a) \<Rightarrow> 'v list \<Rightarrow> 'a \<Rightarrow> 'a" where
  "eachLoop yld [] acc = acc"
| "eachLoop yld (v # vs) acc = (case yld v acc of (go, acc') \<Rightarrow> if go then eachLoop yld vs acc' else acc')"

definition Each :: "'v \<Rightarrow> ('v, 's) resourceMap \<Rightarrow> ('v \<Rightarrow> 'a \<Rightarrow> bool \<times> 'a) \<Rightarrow> 's \<Rightarrow> 'a \<Rightarrow> 'a" where
  "Each z r yld s acc = eachLoop yld (listSorted z (rmItems r s)) acc"

definition Len :: "('v, 's) resourceMap \<Rightarrow> 's \<Rightarrow> nat" where
  "Len r s = length (rmItems r s)"

definition keepNewer :: "'v gomap \<Rightarrow> 'v gomap \<Rightarrow> ('v \<Rightarrow> nat) option \<Rightarrow> 'v gomap" where
  "keepNewer listed cached ver = (case ver of
     None \<Rightarrow> listed
   | Some version \<Rightarrow> map (\<lambda>(key, fresh). (key, case gget cached key of
         Some held \<Rightarrow> if version held > version fresh then held else fresh
       | None \<Rightarrow> fresh)) listed)"

definition Replace :: "('v, 's) resourceMap \<Rightarrow> 'v gomap \<Rightarrow> 's \<Rightarrow> 's" where
  "Replace r m s = rmPut r (keepNewer m (rmItems r s) (rmVersion r)) s"

section \<open>Resolving a name\<close>

datatype 'v resolved = Found 'v | NotFound | AmbiguousNameError string "string list"

definition resolveIn :: "'v gomap \<Rightarrow> string \<Rightarrow> ('v \<Rightarrow> string) \<Rightarrow> 'v resolved" where
  "resolveIn items identifier name = (case gget items identifier of
     Some found \<Rightarrow> Found found
   | None \<Rightarrow> (case filter (\<lambda>(_, item). name item = identifier) items of
       [] \<Rightarrow> NotFound
     | [(_, match)] \<Rightarrow> Found match
     | matched \<Rightarrow> AmbiguousNameError identifier (map fst matched)))"

definition resolve :: "('v, 's) resourceMap \<Rightarrow> string \<Rightarrow> 's \<Rightarrow> 'v resolved" where
  "resolve r identifier s = (case rmName r of
     None \<Rightarrow> (case rm_get r identifier s of None \<Rightarrow> NotFound | Some v \<Rightarrow> Found v)
   | Some name \<Rightarrow> resolveIn (rmItems r s) identifier name)"

section \<open>Listing\<close>

lemma gor_snd_nth:
  assumes "gwf m" "i < length m"
  shows "gor m (fst (m ! i)) z = snd (m ! i)"
proof -
  have "gget m (fst (m ! i)) = Some (snd (m ! i))"
    using assms nth_mem by (intro map_of_is_SomeI) simp_all
  then show ?thesis by (simp add: gor_def)
qed

lemma sort_positions:
  "map (\<lambda>i. keys ! i) (sort_key (\<lambda>i. keys ! i) [0..<length keys]) = sort keys"
proof (rule sym, rule properties_for_sort)
  show "sorted (map (\<lambda>i. keys ! i) (sort_key (\<lambda>i. keys ! i) [0..<length keys]))" by simp
  have "image_mset (\<lambda>i. keys ! i) (mset [0..<length keys]) = mset keys"
    unfolding mset_map [symmetric] map_nth ..
  then show "mset (map (\<lambda>i. keys ! i) (sort_key (\<lambda>i. keys ! i) [0..<length keys])) = mset keys" by simp
qed

lemma List_listSorted:
  assumes "gwf (rmItems r s)"
  shows "List r s = Some (listSorted z (rmItems r s))"
proof -
  let ?m = "rmItems r s" let ?keys = "gkeys ?m"
  let ?p = "sort_key (\<lambda>i. ?keys ! i) [0..<length ?m]"
  have keys: "sort ?keys = map (\<lambda>i. ?keys ! i) ?p"
    using sort_positions [of ?keys] by simp
  have "i < length ?m" if "i \<in> set ?p" for i using that by simp
  then have "map (\<lambda>i. map snd ?m ! i) ?p = listSorted z ?m"
    unfolding listSorted_def keys by (auto simp: gor_snd_nth [OF assms])
  then show ?thesis
    by (simp add: List_def sortByIndex_gathers)
qed

lemma listSorted_order_independent:
  assumes "gwf m" "gwf m'" "map_of m = map_of m'"
  shows "listSorted z m = listSorted z m'"
  unfolding listSorted_def sort_keys_eq [OF assms] gor_def assms(3) ..

lemma eachLoop_takes:
  "eachLoop (\<lambda>v acc. (go v, acc @ [v])) vs acc =
     acc @ takeWhile go vs @ (case dropWhile go vs of [] \<Rightarrow> [] | v # _ \<Rightarrow> [v])"
  by (induction vs arbitrary: acc) auto

section \<open>Resolution\<close>

lemma filter_one:
  assumes "gwf m" "\<forall>k v. gget m k = Some v \<longrightarrow> (name v = x \<longleftrightarrow> k = i)" "gget m i = Some w"
  shows "filter (\<lambda>(_, v). name v = x) m = [(i, w)]"
  using assms
proof (induction m)
  case (Cons kv m)
  obtain k v where kv: "kv = (k, v)" by (cases kv)
  have k: "k \<notin> set (gkeys m)" using Cons.prems(1) kv by simp
  have rest: "gget m k' = Some v' \<Longrightarrow> (name v' = x \<longleftrightarrow> k' = i)" for k' v'
    using Cons.prems(2) k kv gget_in_keys [of m k' v'] by (metis map_of_Cons_code(2))
  show ?case
  proof (cases "k = i")
    case True
    have "filter (\<lambda>(_, v). name v = x) m = []"
      using rest k True Cons.prems(1) kv by (force simp: filter_empty_conv)
    moreover have "name w = x" using Cons.prems(2,3) by blast
    ultimately show ?thesis using Cons.prems(3) kv True by simp
  next
    case False
    have "name v \<noteq> x" using Cons.prems(2) False kv by (metis map_of_Cons_code(2))
    then show ?thesis using Cons.IH rest Cons.prems(1,3) kv False by auto
  qed
qed simp

lemma resolveIn_unique_name:
  assumes "gwf m" "gget m i = Some v" "name v = x" "gget m x = None"
    and "\<forall>k w. gget m k = Some w \<and> name w = x \<longrightarrow> k = i"
  shows "resolveIn m x name = Found v"
proof -
  have "filter (\<lambda>(_, v). name v = x) m = [(i, v)]"
    using assms(2,3,5) by (intro filter_one [OF assms(1)]) (metis option.inject)+
  then show ?thesis using assms(4) by (simp add: resolveIn_def)
qed

lemma resolveIn_Found:
  assumes "gwf m" "resolveIn m x name = Found v"
  shows "gget m x = Some v \<or> gget m x = None \<and> (\<exists>!i. \<exists>w. gget m i = Some w \<and> name w = x) \<and> name v = x"
proof (cases "gget m x")
  case None
  then obtain i where f: "filter (\<lambda>(_, item). name item = x) m = [(i, v)]"
    using assms(2) by (auto simp: resolveIn_def split: list.splits prod.splits)
  have "(k, w) \<in> set m \<and> name w = x \<longleftrightarrow> k = i \<and> w = v" for k w
    using arg_cong [OF f, of set] by (auto simp: set_eq_iff)
  then show ?thesis using None gwf_mem_iff [OF assms(1)] by auto
qed (use assms(2) in \<open>auto simp: resolveIn_def\<close>)

section \<open>What every map promises\<close>

locale resource_map =
  fixes r :: "('v, 's) resourceMap" and ok :: "'s \<Rightarrow> bool"
  assumes items_put: "rmItems r (rmPut r m s) = m"
    and onSet_items: "rmOnSet r = Some onSet \<Longrightarrow> rmItems r (snd (onSet key old v s)) = rmItems r s"
    and onSet_version: "rmOnSet r = Some onSet \<Longrightarrow> rmVersion r = Some version \<Longrightarrow>
      version (fst (onSet key old v s)) = version v"
    and onDelete_items: "rmOnDelete r = Some onDelete \<Longrightarrow> rmItems r (onDelete key v' s) = rmItems r s"
    and ok_wf: "ok s \<Longrightarrow> gwf (rmItems r s)"
begin

definition stored :: "string \<Rightarrow> 'v \<Rightarrow> 's \<Rightarrow> 'v" where
  "stored key v s = fst (rm_set r key v s)"

definition fresh :: "string \<Rightarrow> 'v \<Rightarrow> 's \<Rightarrow> bool" where
  "fresh key v s \<longleftrightarrow> (\<forall>version old. rmVersion r = Some version \<and> Get r key s = Some old \<longrightarrow> version old \<le> version v)"

lemma rm_set_items: "rmItems r (snd (rm_set r key v s)) = gset (rmItems r s) key (stored key v s)"
proof (cases "rmOnSet r")
  case (Some onSet)
  then show ?thesis
    using onSet_items [OF Some, of key "gget (rmItems r s) key" v s]
    by (simp add: rm_set_def stored_def items_put case_prod_unfold)
qed (simp add: rm_set_def stored_def items_put)

lemma stored_version: "rmVersion r = Some version \<Longrightarrow> version (stored key v s) = version v"
  by (cases "rmOnSet r") (simp_all add: rm_set_def stored_def case_prod_unfold onSet_version)

lemma Set_accepted:
  "Set r key v t s = (None, s) \<and> \<not> fresh key v s \<or>
   fresh key v s \<and> (\<exists>e. Set r key v t s = (Some e, snd (rm_set r key v s)))"
  by (auto simp: Set_def fresh_def Get_def rm_get_def Let_def split: option.split prod.split)

lemma Set_Get:
  "Get r k (snd (Set r key v t s)) =
     (if k = key \<and> fresh key v s then Some (stored key v s) else Get r k s)"
  using Set_accepted [of key v t s] by (auto simp: Get_def rm_get_def rm_set_items)

lemma Set_wf: "gwf (rmItems r s) \<Longrightarrow> gwf (rmItems r (snd (Set r key v t s)))"
  using Set_accepted [of key v t s] by (auto simp: rm_set_items)

lemma Set_stale:
  assumes "rmVersion r = Some version" "Get r key s = Some old" "version v < version old"
  shows "Set r key v t s = (None, s)"
  using assms Set_accepted [of key v t s] by (auto simp: fresh_def)

lemma Set_version_mono:
  assumes "rmVersion r = Some version" "Get r k s = Some old"
  shows "\<exists>new. Get r k (snd (Set r key v t s)) = Some new \<and> version old \<le> version new"
  using assms stored_version [OF assms(1)] by (auto simp: Set_Get fresh_def)

text \<open>
  Two inspects of one resource can land in either order: whichever comes last, the newer is kept.
\<close>

lemma Set_newest_wins:
  assumes "rmVersion r = Some version" "version v < version w"
    and "\<forall>old. Get r key s = Some old \<longrightarrow> version old \<le> version v"
  shows "map_option version (Get r key (snd (Set r key v t (snd (Set r key w t' s))))) = Some (version w)"
    and "map_option version (Get r key (snd (Set r key w t' (snd (Set r key v t s))))) = Some (version w)"
proof -
  have w: "fresh key w s" and v: "fresh key v s" using assms by (auto simp: fresh_def)
  have "\<not> fresh key v (snd (Set r key w t' s))"
    using w assms stored_version [OF assms(1)] by (auto simp: Set_Get fresh_def)
  then show "map_option version (Get r key (snd (Set r key v t (snd (Set r key w t' s))))) = Some (version w)"
    using w stored_version [OF assms(1)] by (simp add: Set_Get)
  have "fresh key w (snd (Set r key v t s))"
    using v assms stored_version [OF assms(1)] by (auto simp: Set_Get fresh_def)
  then show "map_option version (Get r key (snd (Set r key w t' (snd (Set r key v t s))))) = Some (version w)"
    using stored_version [OF assms(1)] by (simp add: Set_Get)
qed

lemma Add_Get:
  "Get r k (snd (Add r key v t s)) =
     (if k = key \<and> Get r key s = None then Some (stored key v s) else Get r k s)"
  by (simp add: Add_def Get_def rm_get_def case_prod_unfold rm_set_items)

lemma Add_wf: "gwf (rmItems r s) \<Longrightarrow> gwf (rmItems r (snd (Add r key v t s)))"
  by (simp add: Add_def case_prod_unfold rm_set_items)

lemma Delete_items: "rmItems r (snd (Delete r key t s)) = gdel (rmItems r s) key"
  by (auto simp: Delete_def rm_del_def Let_def items_put onDelete_items split: option.split)

lemma Delete_Get: "Get r k (snd (Delete r key t s)) = (if k = key then None else Get r k s)"
  by (simp add: Get_def rm_get_def Delete_items)

lemma Delete_wf: "gwf (rmItems r s) \<Longrightarrow> gwf (rmItems r (snd (Delete r key t s)))"
  by (simp add: Delete_items)

lemma Replace_Get:
  "Get r k (Replace r m s) = (case gget m k of
     None \<Rightarrow> None
   | Some listed \<Rightarrow> Some (case (rmVersion r, Get r k s) of
       (Some version, Some held) \<Rightarrow> if version held > version listed then held else listed
     | _ \<Rightarrow> listed))"
  by (auto simp: Replace_def Get_def rm_get_def items_put keepNewer_def gget_map_snd split: option.split)

lemma Replace_wf: "gwf m \<Longrightarrow> gwf (rmItems r (Replace r m s))"
  by (auto simp: Replace_def items_put keepNewer_def comp_def case_prod_unfold split: option.split)

lemma Replace_version_mono:
  assumes "rmVersion r = Some version" "Get r k s = Some old" "Get r k (Replace r m s) = Some new"
  shows "version old \<le> version new"
  using assms by (auto simp: Replace_Get split: option.splits if_splits)

lemma List_sorted: "ok s \<Longrightarrow> List r s = Some (listSorted z (rmItems r s))"
  by (rule List_listSorted) (rule ok_wf)

end

end
