(* ===== verification/Binary_Search.thy ===== *)
theory Binary_Search
  imports Prelude
begin

text \<open>
  The loop of Go's \<open>slices.BinarySearch\<close> and \<open>BinarySearchFunc\<close>, on which the sorted membership lists
  of the stack index and the restart tracker's window rest: on a sorted list it returns the position
  before which everything is smaller, and whether the target is there.
\<close>

text \<open>The loop of \<open>slices.BinarySearch\<close> over \<open>[i, j)\<close>.\<close>

function searchLoop :: "'a :: linorder list \<Rightarrow> 'a \<Rightarrow> nat \<Rightarrow> nat \<Rightarrow> nat" where
  "searchLoop xs target i j =
     (if i < j then (let h = (i + j) div 2 in
        if xs ! h < target then searchLoop xs target (h + 1) j else searchLoop xs target i h)
      else i)"
  by pat_completeness auto
termination by (relation "measure (\<lambda>(_, _, i, j). j - i)") auto

declare searchLoop.simps [simp del]

definition BinarySearch :: "'a :: linorder list \<Rightarrow> 'a \<Rightarrow> nat \<times> bool" where
  "BinarySearch xs target = (let i = searchLoop xs target 0 (length xs)
     in (i, i < length xs \<and> xs ! i = target))"

lemma searchLoop_bounds:
  assumes "sorted xs" "i \<le> j" "j \<le> length xs"
    and "\<forall>k < i. xs ! k < target" "\<forall>k. j \<le> k \<and> k < length xs \<longrightarrow> target \<le> xs ! k"
  shows "searchLoop xs target i j \<le> length xs \<and> (\<forall>k < searchLoop xs target i j. xs ! k < target) \<and>
     (\<forall>k. searchLoop xs target i j \<le> k \<and> k < length xs \<longrightarrow> target \<le> xs ! k)"
  using assms
proof (induction xs target i j rule: searchLoop.induct)
  case (1 xs target i j)
  show ?case
  proof (cases "i < j")
    case True
    let ?h = "(i + j) div 2"
    have h: "i \<le> ?h" "?h < j" "?h < length xs" using True "1.prems"(3) by auto
    show ?thesis
    proof (cases "xs ! ?h < target")
      case less: True
      have "\<forall>k < ?h + 1. xs ! k < target"
        using less "1.prems"(1) h(3) by (metis Suc_eq_plus1 le_less_trans less_Suc_eq_le sorted_nth_mono)
      then show ?thesis
        using "1.IH"(1) [OF True refl less "1.prems"(1) _ "1.prems"(3) _ "1.prems"(5)] h True less
        by (subst (1 2 3) searchLoop.simps) (simp add: Let_def)
    next
      case False
      have "\<forall>k. ?h \<le> k \<and> k < length xs \<longrightarrow> target \<le> xs ! k"
        using False "1.prems"(1) by (metis leI order_trans sorted_nth_mono)
      then show ?thesis
        using "1.IH"(2) [OF True refl False "1.prems"(1) h(1) _ "1.prems"(4)] h True False
        by (subst (1 2 3) searchLoop.simps) (simp add: Let_def)
    qed
  next
    case False
    then have "searchLoop xs target i j = i" by (subst searchLoop.simps) simp
    then show ?thesis using False "1.prems" by auto
  qed
qed

lemma BinarySearch_sorted:
  assumes "sorted xs"
  shows "fst (BinarySearch xs v) \<le> length xs"
    and "\<forall>x \<in> set (take (fst (BinarySearch xs v)) xs). x < v"
    and "\<forall>x \<in> set (drop (fst (BinarySearch xs v)) xs). v \<le> x"
    and "snd (BinarySearch xs v) \<longleftrightarrow> v \<in> set xs"
proof -
  let ?i = "searchLoop xs v 0 (length xs)"
  have b: "?i \<le> length xs" "\<forall>k < ?i. xs ! k < v" "\<forall>k. ?i \<le> k \<and> k < length xs \<longrightarrow> v \<le> xs ! k"
    using searchLoop_bounds [OF assms, of 0 "length xs" v] by (simp_all del: not_less add: linorder_not_le [symmetric])
  have i: "BinarySearch xs v = (?i, ?i < length xs \<and> xs ! ?i = v)" by (simp add: BinarySearch_def Let_def)
  show "fst (BinarySearch xs v) \<le> length xs" using b(1) i by simp
  show "\<forall>x \<in> set (take (fst (BinarySearch xs v)) xs). x < v"
    using b(1,2) i by (auto simp: in_set_conv_nth)
  show "\<forall>x \<in> set (drop (fst (BinarySearch xs v)) xs). v \<le> x"
    using b(1,3) i by (auto simp: in_set_conv_nth)
  show "snd (BinarySearch xs v) \<longleftrightarrow> v \<in> set xs"
  proof
    assume "v \<in> set xs"
    then obtain k where k: "k < length xs" "xs ! k = v" by (auto simp: in_set_conv_nth)
    then have "?i \<le> k" using b(2) by (metis leI less_irrefl)
    then have "xs ! ?i \<le> v" using assms k by (metis sorted_nth_mono)
    then show "snd (BinarySearch xs v)" using \<open>?i \<le> k\<close> k b(3) i by (simp add: antisym)
  qed (use i in \<open>auto simp: in_set_conv_nth\<close>)
qed

text \<open>Insertion at the position the search returns keeps a list sorted.\<close>

lemma insert_sorted_at:
  assumes "sorted xs" "i = fst (BinarySearch xs v)"
  shows "sorted (take i xs @ v # drop i xs)"
proof -
  note b = BinarySearch_sorted [OF assms(1), of v, folded assms(2)]
  have "sorted (take i xs @ drop i xs)" using assms(1) by simp
  then show ?thesis using b(2,3) unfolding sorted_append sorted_simps by fastforce
qed

end
