(* ===== verification/Stacks.thy ===== *)
theory Stacks
  imports Resource_Map Binary_Search
begin

text \<open>
  The stack index of \<open>internal/cache/stacks.go\<close>: stacks are derived from a label on services, configs,
  secrets, networks and volumes, kept up to date one write at a time and rebuilt after a full sync.
  The membership function \<open>mem\<close> is the abstract content: \<open>represents\<close> relates a stack map to it, every
  incremental update keeps the relation, and a rebuild establishes it. The state here is the part of
  the cache that the index reads, extended by the cache theory.
\<close>

record stack =
  stName :: string
  stServices :: "string list"
  stConfigs :: "string list"
  stSecrets :: "string list"
  stNetworks :: "string list"
  stVolumes :: "string list"

record inventory =
  cNodes :: "node gomap"
  cServices :: "service gomap"
  cConfigs :: "config gomap"
  cSecrets :: "secret gomap"
  cNetworks :: "network gomap"
  cVolumes :: "volume gomap"
  cStacks :: "stack gomap"

definition StackLabel :: string where
  "StackLabel = ''com.docker.stack.namespace''"

section \<open>Sorted membership lists\<close>

definition appendUnique :: "string list \<Rightarrow> string \<Rightarrow> string list" where
  "appendUnique sl v = (case BinarySearch sl v of (i, found) \<Rightarrow>
     if found then sl else take i sl @ v # drop i sl)"

definition removeStr :: "string list \<Rightarrow> string \<Rightarrow> string list" where
  "removeStr sl v = filter (\<lambda>s. s \<noteq> v) sl"

section \<open>The index\<close>

text \<open>The five member lists by event type; the other types name no list.\<close>

fun memberUpdate :: "event_type \<Rightarrow> (string list \<Rightarrow> string list) \<Rightarrow> stack \<Rightarrow> stack" where
  "memberUpdate EventService f s = stServices_update f s"
| "memberUpdate EventConfig f s = stConfigs_update f s"
| "memberUpdate EventSecret f s = stSecrets_update f s"
| "memberUpdate EventNetwork f s = stNetworks_update f s"
| "memberUpdate EventVolume f s = stVolumes_update f s"
| "memberUpdate _ f s = s"

fun membersOf :: "event_type \<Rightarrow> stack \<Rightarrow> string list option" where
  "membersOf EventService s = Some (stServices s)"
| "membersOf EventConfig s = Some (stConfigs s)"
| "membersOf EventSecret s = Some (stSecrets s)"
| "membersOf EventNetwork s = Some (stNetworks s)"
| "membersOf EventVolume s = Some (stVolumes s)"
| "membersOf _ s = None"

definition newStack :: "string \<Rightarrow> stack" where
  "newStack ns = \<lparr>stName = ns, stServices = [], stConfigs = [], stSecrets = [], stNetworks = [], stVolumes = []\<rparr>"

definition labelled :: "('v \<Rightarrow> labels) \<Rightarrow> 'v gomap \<Rightarrow> string \<Rightarrow> string list" where
  "labelled labelsOf items ns = map fst (filter (\<lambda>(_, v). gor (labelsOf v) StackLabel [] = ns) items)"

definition seedStack :: "string \<Rightarrow> 'a inventory_scheme \<Rightarrow> stack" where
  "seedStack ns c = (newStack ns)
     \<lparr>stConfigs := sort (labelled cfLabels (cConfigs c) ns),
      stSecrets := sort (labelled seLabels (cSecrets c) ns),
      stNetworks := sort (labelled neLabels (cNetworks c) ns),
      stVolumes := sort (labelled voLabels (cVolumes c) ns)\<rparr>"

definition addToStack :: "event_type \<Rightarrow> string \<Rightarrow> labels \<Rightarrow> 'a inventory_scheme \<Rightarrow> 'a inventory_scheme" where
  "addToStack res i labels c = (case gget labels StackLabel of
     None \<Rightarrow> c
   | Some ns \<Rightarrow> (case gget (cStacks c) ns of
       None \<Rightarrow> if res \<noteq> EventService then c
         else c\<lparr>cStacks := gset (cStacks c) ns (memberUpdate res (\<lambda>sl. appendUnique sl i) (seedStack ns c))\<rparr>
     | Some s \<Rightarrow> c\<lparr>cStacks := gset (cStacks c) ns (memberUpdate res (\<lambda>sl. appendUnique sl i) s)\<rparr>))"

definition removeFromStack :: "event_type \<Rightarrow> string \<Rightarrow> labels \<Rightarrow> 'a inventory_scheme \<Rightarrow> 'a inventory_scheme" where
  "removeFromStack res i labels c = (case gget labels StackLabel of
     None \<Rightarrow> c
   | Some ns \<Rightarrow> (case gget (cStacks c) ns of
       None \<Rightarrow> c
     | Some s \<Rightarrow> (let s' = memberUpdate res (\<lambda>sl. removeStr sl i) s in
         if stServices s' = [] then c\<lparr>cStacks := gdel (cStacks c) ns\<rparr>
         else c\<lparr>cStacks := gset (cStacks c) ns s'\<rparr>)))"

definition StackContains :: "string \<Rightarrow> event_type \<Rightarrow> string \<Rightarrow> 'a inventory_scheme \<Rightarrow> bool" where
  "StackContains name res i c = (case gget (cStacks c) name of
     None \<Rightarrow> False
   | Some s \<Rightarrow> (case membersOf res s of
       None \<Rightarrow> False
     | Some members \<Rightarrow> snd (BinarySearch members i)))"

text \<open>One of the five collecting loops of \<open>rebuildStacks\<close>, with its \<open>ensure\<close>.\<close>

definition collectStack :: "event_type \<Rightarrow> ('v \<Rightarrow> labels) \<Rightarrow> string \<times> 'v \<Rightarrow> stack gomap \<Rightarrow> stack gomap" where
  "collectStack res labelsOf = (\<lambda>(i, v) m. case gget (labelsOf v) StackLabel of
     None \<Rightarrow> m
   | Some ns \<Rightarrow> gset m ns (memberUpdate res (\<lambda>sl. sl @ [i]) (gor m ns (newStack ns))))"

definition sortMembers :: "stack \<Rightarrow> stack" where
  "sortMembers s = s\<lparr>stServices := sort (stServices s), stConfigs := sort (stConfigs s),
     stSecrets := sort (stSecrets s), stNetworks := sort (stNetworks s), stVolumes := sort (stVolumes s)\<rparr>"

definition rebuildStacks :: "'a inventory_scheme \<Rightarrow> 'a inventory_scheme" where
  "rebuildStacks c = (let
      m1 = fold (collectStack EventService (\<lambda>v. spLabels (svSpec v))) (cServices c) [];
      m2 = fold (collectStack EventConfig cfLabels) (cConfigs c) m1;
      m3 = fold (collectStack EventSecret seLabels) (cSecrets c) m2;
      m4 = fold (collectStack EventNetwork neLabels) (cNetworks c) m3;
      m5 = fold (collectStack EventVolume voLabels) (cVolumes c) m4
    in c\<lparr>cStacks := map (\<lambda>(name, s). (name, sortMembers s)) (filter (\<lambda>(name, s). stServices s \<noteq> []) m5)\<rparr>)"

section \<open>Sorted insertion\<close>

lemma appendUnique_sorted:
  assumes "sorted sl" "distinct sl"
  shows "sorted (appendUnique sl v)" "distinct (appendUnique sl v)" "set (appendUnique sl v) = insert v (set sl)"
proof -
  obtain i found where bs: "BinarySearch sl v = (i, found)" by (cases "BinarySearch sl v")
  note b = BinarySearch_sorted [OF assms(1), of v, unfolded bs fst_conv snd_conv]
  have split: "sl = take i sl @ drop i sl" by simp
  have "sorted (take i sl @ v # drop i sl)"
    using insert_sorted_at [OF assms(1), of i v] bs by simp
  then show "sorted (appendUnique sl v)" using bs assms(1) by (simp add: appendUnique_def)
  have "v \<notin> set sl \<Longrightarrow> distinct (take i sl @ v # drop i sl)"
    using assms(2) split by (metis distinct.simps(2) distinct_append in_set_dropD in_set_takeD
        insert_iff disjoint_insert(1) list.set(2))
  then show "distinct (appendUnique sl v)" using bs b(4) assms(2) by (simp add: appendUnique_def)
  have "set (take i sl @ v # drop i sl) = insert v (set sl)"
    by (metis Un_insert_right list.set(2) set_append split)
  then show "set (appendUnique sl v) = insert v (set sl)" using bs b(4) by (auto simp: appendUnique_def)
qed

lemma removeStr_sorted:
  "sorted sl \<Longrightarrow> sorted (removeStr sl v)" "distinct sl \<Longrightarrow> distinct (removeStr sl v)"
  "set (removeStr sl v) = set sl - {v}"
  by (auto simp: removeStr_def sorted_filter [of "\<lambda>x. x", simplified])

lemma removeStr_notin: "v \<notin> set sl \<Longrightarrow> removeStr sl v = sl"
  by (induction sl) (auto simp: removeStr_def)

section \<open>Membership\<close>

text \<open>
  \<open>members\<close> is who carries the label with exactly this value, in ID order; \<open>mem\<close> collects the five
  kinds.
\<close>

definition members :: "('v \<Rightarrow> labels) \<Rightarrow> 'v gomap \<Rightarrow> string \<Rightarrow> string list" where
  "members labelsOf items ns = sort (map fst (filter (\<lambda>(_, v). gget (labelsOf v) StackLabel = Some ns) items))"

fun mem :: "'a inventory_scheme \<Rightarrow> event_type \<Rightarrow> string \<Rightarrow> string list" where
  "mem c EventService = members (\<lambda>v. spLabels (svSpec v)) (cServices c)"
| "mem c EventConfig = members cfLabels (cConfigs c)"
| "mem c EventSecret = members seLabels (cSecrets c)"
| "mem c EventNetwork = members neLabels (cNetworks c)"
| "mem c EventVolume = members voLabels (cVolumes c)"
| "mem c _ = (\<lambda>_. [])"

definition mkStack :: "(event_type \<Rightarrow> string \<Rightarrow> string list) \<Rightarrow> string \<Rightarrow> stack" where
  "mkStack M ns = \<lparr>stName = ns, stServices = M EventService ns, stConfigs = M EventConfig ns,
     stSecrets = M EventSecret ns, stNetworks = M EventNetwork ns, stVolumes = M EventVolume ns\<rparr>"

text \<open>A namespace label may be there with an empty value, and what the index holds under the empty name is left open.\<close>

definition represents :: "stack gomap \<Rightarrow> (event_type \<Rightarrow> string \<Rightarrow> string list) \<Rightarrow> bool" where
  "represents st M \<longleftrightarrow> (\<forall>ns. ns \<noteq> [] \<longrightarrow> gget st ns = (if M EventService ns = [] then None else Some (mkStack M ns)))"

definition stackKind :: "event_type \<Rightarrow> bool" where
  "stackKind t \<longleftrightarrow> t \<in> {EventService, EventConfig, EventSecret, EventNetwork, EventVolume}"

lemma mem_set:
  "gwf items \<Longrightarrow> i \<in> set (members labelsOf items ns) \<longleftrightarrow>
     (\<exists>v. gget items i = Some v \<and> gget (labelsOf v) StackLabel = Some ns)"
  by (force simp: members_def gwf_mem_iff [symmetric])

lemma members_sorted: "sorted (members labelsOf items ns)"
  by (simp add: members_def)

lemma members_distinct: "gwf items \<Longrightarrow> distinct (members labelsOf items ns)"
  by (simp add: members_def distinct_map_filter)

lemma members_gset:
  assumes "gwf items"
  shows "members labelsOf (gset items i v) ns =
     (if gget (labelsOf v) StackLabel = Some ns
      then appendUnique (removeStr (members labelsOf items ns) i) i
      else removeStr (members labelsOf items ns) i)" (is "_ = ?rhs")
proof (rule sorted_distinct_set_unique_list)
  let ?m = "members labelsOf items ns"
  have r: "sorted (removeStr ?m i)" "distinct (removeStr ?m i)"
    by (rule removeStr_sorted(1) [OF members_sorted], rule removeStr_sorted(2) [OF members_distinct [OF assms]])
  note a = appendUnique_sorted [OF r, of i]
  show "sorted ?rhs" "distinct ?rhs" using r a by simp_all
  show "set (members labelsOf (gset items i v) ns) = set ?rhs"
    unfolding set_eq_iff by (simp add: mem_set assms removeStr_sorted(3) a(3))
qed (simp_all add: members_sorted members_distinct assms)

lemma members_gdel:
  assumes "gwf items"
  shows "members labelsOf (gdel items i) ns = removeStr (members labelsOf items ns) i"
  by (rule sorted_distinct_set_unique_list)
    (auto simp: members_sorted members_distinct mem_set assms removeStr_sorted split: if_splits)

lemma removeStr_other:
  assumes "gwf items" "gget items i = Some v" "gget (labelsOf v) StackLabel \<noteq> Some ns"
  shows "removeStr (members labelsOf items ns) i = members labelsOf items ns"
  using assms by (intro removeStr_notin) (simp add: mem_set)

lemma removeStr_absent:
  assumes "gwf items" "gget items i = None"
  shows "removeStr (members labelsOf items ns) i = members labelsOf items ns"
  using assms by (intro removeStr_notin) (simp add: mem_set)

lemma labelled_members: "ns \<noteq> [] \<Longrightarrow> sort (labelled labelsOf items ns) = members labelsOf items ns"
  unfolding labelled_def members_def gor_def
  by (rule arg_cong [where f = sort], rule arg_cong [where f = "map fst"], rule filter_cong)
    (auto split: option.splits)

section \<open>Incremental updates keep the index exact\<close>

lemma represents_remove:
  assumes "represents (cStacks c) M" "stackKind t"
    and "M' = M(t := \<lambda>ns. if gget labels StackLabel = Some ns then removeStr (M t ns) i else M t ns)"
  shows "represents (cStacks (removeFromStack t i labels c)) M'"
proof (cases "gget labels StackLabel")
  case None
  then have "M' = M" using assms(3) by (auto simp: fun_eq_iff)
  then show ?thesis using None assms(1) by (simp add: removeFromStack_def)
next
  case (Some ns)
  have other: "mkStack M' ns' = mkStack M ns' \<and> M' EventService ns' = M EventService ns'" if "ns' \<noteq> ns" for ns'
    using assms(3) Some that by (auto simp: mkStack_def)
  have upd: "memberUpdate t (\<lambda>sl. removeStr sl i) (mkStack M ns) = mkStack M' ns"
    using assms(2,3) Some by (auto simp: mkStack_def stackKind_def)
  have gone: "M EventService ns = [] \<Longrightarrow> M' EventService ns = []"
    using assms(3) by (auto simp: removeStr_def)
  have at: "gget (cStacks c) ns' = (if M EventService ns' = [] then None else Some (mkStack M ns'))" if "ns' \<noteq> []" for ns'
    using assms(1) that by (simp add: represents_def)
  have "stServices (mkStack M' ns) = M' EventService ns" by (simp add: mkStack_def)
  then have "gget (cStacks (removeFromStack t i labels c)) ns' =
      (if M' EventService ns' = [] then None else Some (mkStack M' ns'))" if "ns' \<noteq> []" for ns'
    using that at [of ns] at [of ns'] Some upd gone other [of ns']
    by (cases "ns' = ns"; cases "gget (cStacks c) ns"; cases "M EventService ns = []") (simp_all add: removeFromStack_def Let_def)
  then show ?thesis by (simp add: represents_def)
qed

lemma represents_add:
  assumes "represents (cStacks c) M" "stackKind t"
    and "\<And>ns. ns \<noteq> [] \<Longrightarrow> gget labels StackLabel = Some ns \<Longrightarrow> t = EventService \<Longrightarrow> M EventService ns = [] \<Longrightarrow> seedStack ns c = mkStack M ns"
    and "M' = M(t := \<lambda>ns. if gget labels StackLabel = Some ns then appendUnique (M t ns) i else M t ns)"
  shows "represents (cStacks (addToStack t i labels c)) M'"
proof (cases "gget labels StackLabel")
  case None
  then have "M' = M" using assms(4) by (auto simp: fun_eq_iff)
  then show ?thesis using None assms(1) by (simp add: addToStack_def)
next
  case (Some ns)
  have other: "mkStack M' ns' = mkStack M ns' \<and> M' EventService ns' = M EventService ns'" if "ns' \<noteq> ns" for ns'
    using assms(4) Some that by (auto simp: mkStack_def)
  have upd: "memberUpdate t (\<lambda>sl. appendUnique sl i) (mkStack M ns) = mkStack M' ns"
    using assms(2,4) Some by (auto simp: mkStack_def stackKind_def)
  have ne: "appendUnique sl i \<noteq> []" for sl
    by (auto simp: appendUnique_def BinarySearch_def Let_def split: prod.split)
  have svc: "t \<noteq> EventService \<Longrightarrow> M' EventService ns = M EventService ns" "t = EventService \<Longrightarrow> M' EventService ns \<noteq> []"
    using assms(4) Some ne by auto
  have at: "gget (cStacks c) ns' = (if M EventService ns' = [] then None else Some (mkStack M ns'))" if "ns' \<noteq> []" for ns'
    using assms(1) that by (simp add: represents_def)
  have "gget (cStacks (addToStack t i labels c)) ns' =
      (if M' EventService ns' = [] then None else Some (mkStack M' ns'))" if "ns' \<noteq> []" for ns'
    using that at [of ns] at [of ns'] Some upd other [of ns'] svc assms(3) [OF _ Some]
    by (cases "ns' = ns"; cases "t = EventService"; cases "M EventService ns = []"; cases "gget (cStacks c) ns")
       (simp_all add: addToStack_def)
  then show ?thesis by (simp add: represents_def)
qed

section \<open>A rebuild is exact\<close>

definition rawIds :: "('v \<Rightarrow> labels) \<Rightarrow> 'v gomap \<Rightarrow> string \<Rightarrow> string list" where
  "rawIds labelsOf items ns = map fst (filter (\<lambda>(_, v). gget (labelsOf v) StackLabel = Some ns) items)"

lemma sort_rawIds: "sort (rawIds labelsOf items ns) = members labelsOf items ns"
  by (simp add: rawIds_def members_def)

text \<open>\<open>collected m R\<close>: the map under construction holds the raw lists \<open>R\<close>, absent where they are empty.\<close>

definition collected :: "stack gomap \<Rightarrow> (event_type \<Rightarrow> string \<Rightarrow> string list) \<Rightarrow> bool" where
  "collected m R \<longleftrightarrow> gwf m \<and> (\<forall>ns. gor m ns (newStack ns) = mkStack R ns)"

lemma collected_step:
  assumes "collected m R" "stackKind t"
  shows "collected (collectStack t labelsOf (i, v) m)
    (R(t := \<lambda>ns. R t ns @ (if gget (labelsOf v) StackLabel = Some ns then [i] else [])))"
proof (cases "gget (labelsOf v) StackLabel")
  case None
  then have "R(t := \<lambda>ns. R t ns @ (if gget (labelsOf v) StackLabel = Some ns then [i] else [])) = R"
    by (auto simp: fun_eq_iff)
  then show ?thesis using None assms(1) by (simp add: collectStack_def)
next
  case (Some ns)
  let ?R = "R(t := \<lambda>ns. R t ns @ (if gget (labelsOf v) StackLabel = Some ns then [i] else []))"
  have "memberUpdate t (\<lambda>sl. sl @ [i]) (mkStack R ns) = mkStack ?R ns"
    using assms(2) Some by (auto simp: mkStack_def stackKind_def)
  moreover have "mkStack ?R ns' = mkStack R ns'" if "ns' \<noteq> ns" for ns'
    using Some that by (simp add: mkStack_def)
  ultimately show ?thesis
    using assms(1) Some by (auto simp: collected_def collectStack_def)
qed

lemma collected_fold:
  assumes "collected m R" "stackKind t"
  shows "collected (fold (collectStack t labelsOf) items m) (R(t := \<lambda>ns. R t ns @ rawIds labelsOf items ns))"
  using assms
proof (induction items arbitrary: m R)
  case Nil
  then show ?case by (simp add: rawIds_def)
next
  case (Cons kv items)
  obtain i v where kv: "kv = (i, v)" by (cases kv)
  let ?R = "R(t := \<lambda>ns. R t ns @ (if gget (labelsOf v) StackLabel = Some ns then [i] else []))"
  have R: "?R(t := \<lambda>ns. ?R t ns @ rawIds labelsOf items ns) = R(t := \<lambda>ns. R t ns @ rawIds labelsOf (kv # items) ns)"
    by (rule ext, rule ext) (simp add: rawIds_def kv)
  show ?case
    using Cons.IH [OF collected_step [OF Cons.prems, of labelsOf i v] Cons.prems(2)]
    unfolding R by (simp only: fold.simps o_apply kv)
qed

lemma collected_result:
  assumes "collected m R"
  shows "gget (map (\<lambda>(name, s). (name, sortMembers s)) (filter (\<lambda>(name, s). stServices s \<noteq> []) m)) ns =
    (if R EventService ns = [] then None else Some (mkStack (\<lambda>t ns. sort (R t ns)) ns))"
proof -
  have gor: "gor m ns (newStack ns) = mkStack R ns" and wf: "gwf m" using assms by (auto simp: collected_def)
  have "gget m ns = None \<Longrightarrow> R EventService ns = []"
    using gor by (auto simp: gor_def newStack_def mkStack_def)
  moreover have "gget m ns = Some s \<Longrightarrow> s = mkStack R ns" for s using gor by (simp add: gor_def)
  ultimately show ?thesis
    unfolding gget_map_snd [of "\<lambda>_ s. sortMembers s"] gget_filter [OF wf, of "\<lambda>_ s. stServices s \<noteq> []"]
    by (cases "gget m ns") (simp_all add: sortMembers_def mkStack_def)
qed

lemma rebuildStacks_represents: "represents (cStacks (rebuildStacks c)) (mem c)"
proof -
  have "collected [] (\<lambda>_ _. [])" by (simp add: collected_def newStack_def mkStack_def)
  note m1 = collected_fold [OF this, of EventService "\<lambda>v. spLabels (svSpec v)" "cServices c"]
  note m2 = collected_fold [OF m1, of EventConfig cfLabels "cConfigs c"]
  note m3 = collected_fold [OF m2, of EventSecret seLabels "cSecrets c"]
  note m4 = collected_fold [OF m3, of EventNetwork neLabels "cNetworks c"]
  note m5 = collected_fold [OF m4, of EventVolume voLabels "cVolumes c"]
  have kinds: "stackKind EventService" "stackKind EventConfig" "stackKind EventSecret" "stackKind EventNetwork" "stackKind EventVolume"
    by (simp_all add: stackKind_def)
  have "sort xs = [] \<longleftrightarrow> xs = []" for xs :: "string list"
    by (metis length_0_conv length_sort)
  then show ?thesis
    unfolding represents_def
    by (simp add: rebuildStacks_def Let_def collected_result [OF m5 [OF kinds]] mkStack_def
        sort_rawIds [symmetric])
qed

lemma rebuildStacks_items [simp]:
  "cServices (rebuildStacks c) = cServices c" "cConfigs (rebuildStacks c) = cConfigs c"
  "cSecrets (rebuildStacks c) = cSecrets c" "cNetworks (rebuildStacks c) = cNetworks c"
  "cVolumes (rebuildStacks c) = cVolumes c" "cNodes (rebuildStacks c) = cNodes c"
  by (simp_all add: rebuildStacks_def Let_def)

lemma StackContains_mem:
  assumes "represents (cStacks c) (mem c)" "stackKind t" "ns \<noteq> []"
  shows "StackContains ns t i c \<longleftrightarrow> mem c EventService ns \<noteq> [] \<and> i \<in> set (mem c t ns)"
proof -
  have "sorted (mem c t ns)" by (cases t) (simp_all add: members_sorted)
  moreover have "membersOf t (mkStack (mem c) ns) = Some (mem c t ns)"
    using assms(2) by (auto simp: stackKind_def mkStack_def)
  ultimately show ?thesis
    using assms(1,3) by (simp add: StackContains_def represents_def BinarySearch_sorted(4))
qed

end
