(* ===== verification/Service_Refs.thy ===== *)
theory Service_Refs
  imports Swarm
begin

text \<open>
  The reverse index of \<open>internal/cache/service_refs.go\<close> (which services use a config, secret, network
  or volume) with \<open>serviceRefs\<close> of \<open>cache.go\<close>, which reads the references out of a service's current
  and previous specification. The index is nested maps that are edited one service at a time; the
  invariant \<open>refs_exact\<close> says it holds exactly the references of the services in the cache, which add,
  remove and rebuild each establish.
\<close>

section \<open>The references of a service\<close>

record refSet =
  rConfigs :: "bool gomap"
  rSecrets :: "bool gomap"
  rNetworks :: "bool gomap"
  rVolumes :: "bool gomap"

definition noRefs :: refSet where
  "noRefs = \<lparr>rConfigs = [], rSecrets = [], rNetworks = [], rVolumes = []\<rparr>"

definition mark :: "bool \<Rightarrow> string list \<Rightarrow> bool gomap \<Rightarrow> bool gomap" where
  "mark b ids m = fold (\<lambda>i m. gset m i b) ids m"

definition serviceRefs :: "service \<Rightarrow> refSet" where
  "serviceRefs s = (let
      prev = Option.bind (svPrevious s) spContainer;
      cur = spContainer (svSpec s);
      r1 = (case prev of
        None \<Rightarrow> noRefs
      | Some cs \<Rightarrow> noRefs\<lparr>rConfigs := mark False (map rcID (csConfigs cs)) [], rSecrets := mark False (map rsID (csSecrets cs)) []\<rparr>);
      r2 = (case cur of
        None \<Rightarrow> r1
      | Some cs \<Rightarrow> r1\<lparr>rConfigs := mark True (map rcID (csConfigs cs)) (rConfigs r1), rSecrets := mark True (map rsID (csSecrets cs)) (rSecrets r1),
          rVolumes := mark True (map mountSource (filter (\<lambda>m. mountType m = ''volume'' \<and> mountSource m \<noteq> []) (csMounts cs))) []\<rparr>)
    in r2\<lparr>rNetworks := mark True (map naTarget (spNetworks (svSpec s))) []\<rparr>)"

section \<open>The index\<close>

type_synonym refIndex = "bool gomap gomap"

record serviceRefIndex =
  byName :: "string gomap"
  byConfig :: refIndex
  bySecret :: refIndex
  byNetwork :: refIndex
  byVolume :: refIndex

definition newServiceRefIndex :: serviceRefIndex where
  "newServiceRefIndex = \<lparr>byName = [], byConfig = [], bySecret = [], byNetwork = [], byVolume = []\<rparr>"

definition setRef :: "bool gomap option \<Rightarrow> string \<Rightarrow> bool \<Rightarrow> bool gomap" where
  "setRef svcs svcID current = gset (case svcs of None \<Rightarrow> [] | Some m \<Rightarrow> m) svcID current"

definition removeRef :: "refIndex \<Rightarrow> string \<Rightarrow> string \<Rightarrow> refIndex" where
  "removeRef idx key svcID = (case gget idx key of
     None \<Rightarrow> idx
   | Some m \<Rightarrow> (let m' = gdel m svcID in if m' = [] then gdel idx key else gset idx key m'))"

text \<open>The loops of \<open>add\<close> and \<open>remove\<close> over one kind of reference.\<close>

definition addRefs :: "bool gomap \<Rightarrow> string \<Rightarrow> refIndex \<Rightarrow> refIndex" where
  "addRefs refs svcID idx = fold (\<lambda>(i, current) idx. gset idx i (setRef (gget idx i) svcID current)) refs idx"

definition removeRefs :: "bool gomap \<Rightarrow> string \<Rightarrow> refIndex \<Rightarrow> refIndex" where
  "removeRefs refs svcID idx = fold (\<lambda>(i, _) idx. removeRef idx i svcID) refs idx"

definition allTrue :: "bool gomap \<Rightarrow> bool gomap" where
  "allTrue refs = map (\<lambda>(i, _). (i, True)) refs"

definition idx_add :: "service \<Rightarrow> refSet \<Rightarrow> serviceRefIndex \<Rightarrow> serviceRefIndex" where
  "idx_add s refs idx = \<lparr>
     byName = gset (byName idx) (spName (svSpec s)) (svID s),
     byConfig = addRefs (rConfigs refs) (svID s) (byConfig idx),
     bySecret = addRefs (rSecrets refs) (svID s) (bySecret idx),
     byNetwork = addRefs (allTrue (rNetworks refs)) (svID s) (byNetwork idx),
     byVolume = addRefs (allTrue (rVolumes refs)) (svID s) (byVolume idx)\<rparr>"

definition idx_remove :: "service \<Rightarrow> refSet \<Rightarrow> serviceRefIndex \<Rightarrow> serviceRefIndex" where
  "idx_remove s refs idx = \<lparr>
     byName = (if gor (byName idx) (spName (svSpec s)) [] = svID s then gdel (byName idx) (spName (svSpec s)) else byName idx),
     byConfig = removeRefs (rConfigs refs) (svID s) (byConfig idx),
     bySecret = removeRefs (rSecrets refs) (svID s) (bySecret idx),
     byNetwork = removeRefs (rNetworks refs) (svID s) (byNetwork idx),
     byVolume = removeRefs (rVolumes refs) (svID s) (byVolume idx)\<rparr>"

definition idx_rebuild :: "service gomap \<Rightarrow> serviceRefIndex" where
  "idx_rebuild svcs = fold (\<lambda>(_, svc). idx_add svc (serviceRefs svc)) svcs newServiceRefIndex"

record serviceRef =
  srAtID :: string
  srID :: string
  srName :: string
  srRollback :: bool

definition refRow :: "service gomap \<Rightarrow> string \<times> bool \<Rightarrow> serviceRef list" where
  "refRow svcs = (\<lambda>(svcID, current). case gget svcs svcID of
     None \<Rightarrow> []
   | Some svc \<Rightarrow> [\<lparr>srAtID = ''/services/'' @ svID svc, srID = svID svc,
        srName = spName (svSpec svc), srRollback = \<not> current\<rparr>])"

definition lookup :: "refIndex \<Rightarrow> string \<Rightarrow> service gomap \<Rightarrow> serviceRef list" where
  "lookup index key svcs = (case gget index key of
     None \<Rightarrow> []
   | Some svcIDs \<Rightarrow> sort_key (\<lambda>r. (srName r, srID r)) (concat (map (refRow svcs) svcIDs)))"

section \<open>What a service references\<close>

lemma gget_mark: "gget (mark b ids m) i = (if i \<in> set ids then Some b else gget m i)"
  by (induction ids arbitrary: m) (auto simp: mark_def)

lemma gwf_mark [simp, wf_intros]: "gwf m \<Longrightarrow> gwf (mark b ids m)"
  by (induction ids arbitrary: m) (auto simp: mark_def)

lemma serviceRefs_wf [simp]:
  "gwf (rConfigs (serviceRefs s))" "gwf (rSecrets (serviceRefs s))"
  "gwf (rNetworks (serviceRefs s))" "gwf (rVolumes (serviceRefs s))"
  by (auto simp: serviceRefs_def noRefs_def Let_def split: option.split)

definition specConfigs :: "serviceSpec option \<Rightarrow> string list" where
  "specConfigs sp = (case Option.bind sp spContainer of None \<Rightarrow> [] | Some cs \<Rightarrow> map rcID (csConfigs cs))"

definition specSecrets :: "serviceSpec option \<Rightarrow> string list" where
  "specSecrets sp = (case Option.bind sp spContainer of None \<Rightarrow> [] | Some cs \<Rightarrow> map rsID (csSecrets cs))"

lemma serviceRefs_configs:
  "gget (rConfigs (serviceRefs s)) i =
     (if i \<in> set (specConfigs (Some (svSpec s))) then Some True
      else if i \<in> set (specConfigs (svPrevious s)) then Some False else None)"
  by (auto simp: serviceRefs_def specConfigs_def noRefs_def Let_def gget_mark split: option.splits)

lemma serviceRefs_secrets:
  "gget (rSecrets (serviceRefs s)) i =
     (if i \<in> set (specSecrets (Some (svSpec s))) then Some True
      else if i \<in> set (specSecrets (svPrevious s)) then Some False else None)"
  by (auto simp: serviceRefs_def specSecrets_def noRefs_def Let_def gget_mark split: option.splits)

section \<open>Edits of one index\<close>

definition ref :: "refIndex \<Rightarrow> string \<Rightarrow> string \<Rightarrow> bool option" where
  "ref idx key svcID = Option.bind (gget idx key) (\<lambda>m. gget m svcID)"

definition idx_wf :: "refIndex \<Rightarrow> bool" where
  "idx_wf idx \<longleftrightarrow> gwf idx \<and> (\<forall>key m. gget idx key = Some m \<longrightarrow> gwf m \<and> m \<noteq> [])"

lemma ref_Nil [simp]: "ref [] key svcID = None"
  by (simp add: ref_def)

lemma idx_wf_Nil [simp]: "idx_wf []"
  by (simp add: idx_wf_def)

lemma ref_setRef:
  "ref (gset idx i (setRef (gget idx i) svcID current)) key s =
     (if key = i \<and> s = svcID then Some current else ref idx key s)"
  by (auto simp: ref_def setRef_def split: option.split)

lemma gset_ne: "gset m k v \<noteq> []"
  by (cases m) auto

lemma idx_wf_setRef: "idx_wf idx \<Longrightarrow> idx_wf (gset idx i (setRef (gget idx i) svcID current))"
  by (auto simp: idx_wf_def setRef_def gset_ne split: option.split)

lemma ref_removeRef: "ref (removeRef idx i svcID) key s = (if key = i \<and> s = svcID then None else ref idx key s)"
proof (cases "gget idx i")
  case (Some m)
  have "gdel m svcID = [] \<Longrightarrow> s \<noteq> svcID \<Longrightarrow> gget m s = None"
    by (metis gget_gdel map_of.simps(1))
  then show ?thesis using Some by (auto simp: ref_def removeRef_def Let_def)
qed (auto simp: ref_def removeRef_def)

lemma idx_wf_removeRef: "idx_wf idx \<Longrightarrow> idx_wf (removeRef idx i svcID)"
  by (auto simp: idx_wf_def removeRef_def Let_def split: option.splits if_splits)

lemma ref_addRefs:
  "gwf refs \<Longrightarrow> ref (addRefs refs svcID idx) key s =
     (if s = svcID \<and> gget refs key \<noteq> None then gget refs key else ref idx key s)"
proof (induction refs arbitrary: idx)
  case (Cons kv refs)
  obtain i b where kv: "kv = (i, b)" by (cases kv)
  let ?idx = "gset idx i (setRef (gget idx i) svcID b)"
  have i: "gget refs i = None" using Cons.prems kv by (simp add: gget_None_iff)
  have "ref (addRefs (kv # refs) svcID idx) key s = ref (addRefs refs svcID ?idx) key s"
    by (simp add: addRefs_def kv)
  then show ?case
    using Cons.IH [of ?idx] Cons.prems kv i by (auto simp: ref_setRef)
qed (simp add: addRefs_def)

lemma idx_wf_addRefs: "idx_wf idx \<Longrightarrow> idx_wf (addRefs refs svcID idx)"
  unfolding addRefs_def by (induction refs arbitrary: idx) (auto simp: idx_wf_setRef)

lemma ref_removeRefs:
  "ref (removeRefs refs svcID idx) key s = (if s = svcID \<and> gget refs key \<noteq> None then None else ref idx key s)"
  unfolding removeRefs_def by (induction refs arbitrary: idx) (auto simp: ref_removeRef)

lemma idx_wf_removeRefs: "idx_wf idx \<Longrightarrow> idx_wf (removeRefs refs svcID idx)"
  unfolding removeRefs_def by (induction refs arbitrary: idx) (auto simp: idx_wf_removeRef)

lemma gget_allTrue: "gget (allTrue refs) k = map_option (\<lambda>_. True) (gget refs k)"
  unfolding allTrue_def by (rule gget_map_snd)

lemma gwf_allTrue [simp]: "gwf refs \<Longrightarrow> gwf (allTrue refs)"
  by (simp add: allTrue_def comp_def case_prod_unfold)

section \<open>The index is exact\<close>

definition refOf :: "(service \<Rightarrow> bool gomap) \<Rightarrow> service gomap \<Rightarrow> string \<Rightarrow> string \<Rightarrow> bool option" where
  "refOf refsOf svcs key svcID = Option.bind (gget svcs svcID) (\<lambda>svc. gget (refsOf svc) key)"

definition exact1 :: "(service \<Rightarrow> bool gomap) \<Rightarrow> refIndex \<Rightarrow> service gomap \<Rightarrow> bool" where
  "exact1 refsOf idx svcs \<longleftrightarrow> idx_wf idx \<and> (\<forall>key svcID. ref idx key svcID = refOf refsOf svcs key svcID)"

abbreviation "configRefs s \<equiv> rConfigs (serviceRefs s)"
abbreviation "secretRefs s \<equiv> rSecrets (serviceRefs s)"
abbreviation "networkRefs s \<equiv> allTrue (rNetworks (serviceRefs s))"
abbreviation "volumeRefs s \<equiv> allTrue (rVolumes (serviceRefs s))"

definition refs_exact :: "serviceRefIndex \<Rightarrow> service gomap \<Rightarrow> bool" where
  "refs_exact idx svcs \<longleftrightarrow> exact1 configRefs (byConfig idx) svcs \<and> exact1 secretRefs (bySecret idx) svcs \<and>
     exact1 networkRefs (byNetwork idx) svcs \<and> exact1 volumeRefs (byVolume idx) svcs"

text \<open>Editing one service: drop the old references if there was one, add the new ones.\<close>

lemma exact1_remove:
  assumes "exact1 refsOf idx svcs" "gget svcs i = Some old" "\<And>k. (gget rm k = None) = (gget (refsOf old) k = None)"
  shows "exact1 refsOf (removeRefs rm i idx) (gdel svcs i)"
  using assms by (auto simp: exact1_def refOf_def idx_wf_removeRefs ref_removeRefs)

lemma exact1_add:
  assumes "exact1 refsOf idx svcs" "gget svcs (svID s) = None" "gwf (refsOf s)"
  shows "exact1 refsOf (addRefs (refsOf s) (svID s) idx) (gset svcs (svID s) s)"
  using assms by (auto simp: exact1_def refOf_def idx_wf_addRefs ref_addRefs)

lemma refs_exact_remove:
  assumes "refs_exact idx svcs" "gget svcs (svID old) = Some old"
  shows "refs_exact (idx_remove old (serviceRefs old) idx) (gdel svcs (svID old))"
  using assms unfolding refs_exact_def idx_remove_def
  by (auto intro!: exact1_remove simp: gget_allTrue)

lemma refs_exact_add:
  assumes "refs_exact idx svcs" "gget svcs (svID s) = None"
  shows "refs_exact (idx_add s (serviceRefs s) idx) (gset svcs (svID s) s)"
  using assms unfolding refs_exact_def idx_add_def
  by (simp add: exact1_add [of configRefs] exact1_add [of secretRefs] exact1_add [of networkRefs] exact1_add [of volumeRefs])

lemma refs_exact_cong: "map_of svcs = map_of svcs' \<Longrightarrow> refs_exact idx svcs = refs_exact idx svcs'"
  by (simp add: refs_exact_def exact1_def refOf_def)

lemma refs_exact_rebuild:
  assumes "gwf svcs" "\<forall>k s. gget svcs k = Some s \<longrightarrow> svID s = k"
  shows "refs_exact (idx_rebuild svcs) svcs"
proof -
  have step: "refs_exact (fold (\<lambda>(_, svc). idx_add svc (serviceRefs svc)) todo idx) (todo @ seen)"
    if "refs_exact idx seen" "gwf (todo @ seen)" "\<forall>(k, s) \<in> set todo. svID s = k" for todo seen idx
    using that
  proof (induction todo arbitrary: idx seen)
    case (Cons kv todo)
    obtain k s where kv: "kv = (k, s)" by (cases kv)
    have k: "svID s = k" using Cons.prems(3) kv by simp
    have none: "gget seen k = None" using Cons.prems(2) kv by (auto simp: gget_None_iff)
    have "refs_exact (idx_add s (serviceRefs s) idx) (gset seen k s)"
      using refs_exact_add [OF Cons.prems(1), of s] none k by simp
    moreover have "map_of (gset seen k s) = map_of ((k, s) # seen)" by (simp add: update_conv' fun_eq_iff)
    ultimately have "refs_exact (idx_add s (serviceRefs s) idx) ((k, s) # seen)"
      using refs_exact_cong by blast
    from Cons.IH [OF this] Cons.prems(2,3) have "refs_exact
        (fold (\<lambda>(_, svc). idx_add svc (serviceRefs svc)) todo (idx_add s (serviceRefs s) idx)) (todo @ (k, s) # seen)"
      using kv by auto
    moreover have "map_of (todo @ (k, s) # seen) = map_of (kv # todo @ seen)"
    proof -
      have "k \<notin> dom (map_of todo)" using Cons.prems(2) kv by (simp add: dom_map_of_conv_image_fst)
      then show ?thesis by (simp add: kv map_add_upd_left)
    qed
    ultimately show ?case
      using refs_exact_cong [of "todo @ (k, s) # seen" "kv # todo @ seen"] by (simp add: kv)
  qed simp
  have "refs_exact newServiceRefIndex []"
    by (simp add: newServiceRefIndex_def refs_exact_def exact1_def refOf_def)
  moreover have "\<forall>(k, s) \<in> set svcs. svID s = k" using assms by (simp add: case_prod_unfold)
  ultimately show ?thesis
    using step [of newServiceRefIndex "[]" svcs] assms(1) by (simp add: idx_rebuild_def)
qed

section \<open>Lookups\<close>

lemma lookup_sorted: "sorted (map (\<lambda>r. (srName r, srID r)) (lookup index key svcs))"
  by (simp add: lookup_def split: option.split)

lemma lookup_mem:
  assumes "exact1 refsOf idx svcs"
  shows "r \<in> set (lookup idx key svcs) \<longleftrightarrow>
    (\<exists>svcID current. refOf refsOf svcs key svcID = Some current \<and> r \<in> set (refRow svcs (svcID, current)))"
proof (cases "gget idx key")
  case None
  then have "refOf refsOf svcs key svcID = None" for svcID using assms by (metis exact1_def ref_def bind.bind_lzero)
  then show ?thesis using None by (simp add: lookup_def)
next
  case (Some m)
  have wf: "gwf m" using assms Some by (auto simp: exact1_def idx_wf_def)
  have "gget m svcID = refOf refsOf svcs key svcID" for svcID
    using assms Some by (metis exact1_def ref_def bind.bind_lunit)
  then have "(svcID, b) \<in> set m \<longleftrightarrow> refOf refsOf svcs key svcID = Some b" for svcID b
    by (simp add: gwf_mem_iff [OF wf])
  then show ?thesis using Some by (auto simp: lookup_def)
qed

end
