(* ===== verification/Restarts.thy ===== *)
theory Restarts
  imports Swarm Binary_Search
begin

text \<open>
  The restart tracker of \<open>internal/cache/restarts.go\<close>. Times are nanoseconds since Go's zero time, so
  truncation is to multiples of the bucket width; the clock is an argument. Bucket counters are 32-bit
  and their sum 64-bit, as in the source. The short window that decides whether a service is flapping
  is characterised against all failures ever recorded, and the hourly counts against the recording
  of each failure.
\<close>

definition second :: int where "second = 1000000000"
definition hour :: int where "hour = 3600 * second"

text \<open>The seconds between Go's zero time and the Unix epoch.\<close>

definition unixEpoch :: int where "unixEpoch = 62135596800"

record restartTracker =
  rtHorizon :: int
  rtBucket :: int
  rtServices :: "(int, 32 word) kvs gomap"
  rtRecent :: "int list gomap"
  rtObserving :: int

definition NewRestartTracker :: "int \<Rightarrow> int \<Rightarrow> int \<Rightarrow> restartTracker" where
  "NewRestartTracker now horizon bucket = (let
      b = (if bucket \<le> 0 then hour else bucket);
      h = (if horizon < b then b else horizon)
    in \<lparr>rtHorizon = h, rtBucket = b, rtServices = [], rtRecent = [], rtObserving = now\<rparr>)"

definition flappingRestarts :: nat where "flappingRestarts = 3"
definition flappingWindow :: int where "flappingWindow = 600 * second"

definition isFlapping :: "int list \<Rightarrow> int \<Rightarrow> bool" where
  "isFlapping recent cutoff \<longleftrightarrow> length recent = flappingRestarts \<and> recent ! 0 > cutoff"

definition Flapping :: "int \<Rightarrow> restartTracker \<Rightarrow> bool gomap" where
  "Flapping now rt = map (\<lambda>(i, _). (i, True)) (filter (\<lambda>(_, times). isFlapping times (now - flappingWindow)) (rtRecent rt))"

definition IsFlapping :: "int \<Rightarrow> string \<Rightarrow> restartTracker \<Rightarrow> bool" where
  "IsFlapping now serviceID rt = isFlapping (gor (rtRecent rt) serviceID []) (now - flappingWindow)"

definition TrackingSince :: "int \<Rightarrow> restartTracker \<Rightarrow> int" where
  "TrackingSince now rt = (let cutoff = now - rtHorizon rt in
     if rtObserving rt > cutoff then rtObserving rt else cutoff)"

definition IsFailureState :: "task_state \<Rightarrow> bool" where
  "IsFailureState s \<longleftrightarrow> s = TaskStateFailed \<or> s = TaskStateRejected \<or> s = TaskStateOrphaned"

definition IsTerminalState :: "task_state \<Rightarrow> bool" where
  "IsTerminalState s \<longleftrightarrow> IsFailureState s \<or> s = TaskStateComplete \<or> s = TaskStateShutdown \<or> s = TaskStateRemove"

definition bucketKey :: "restartTracker \<Rightarrow> int \<Rightarrow> int" where
  "bucketKey rt t = (t - t mod rtBucket rt) div second - unixEpoch"

definition pruneLocked :: "restartTracker \<Rightarrow> int \<Rightarrow> (int, 32 word) kvs \<Rightarrow> (int, 32 word) kvs" where
  "pruneLocked rt now buckets = (let cutoff = bucketKey rt (now - rtHorizon rt) in
     filter (\<lambda>(k, _). \<not> k < cutoff) buckets)"

definition recordRecent :: "int \<Rightarrow> int list \<Rightarrow> int list" where
  "recordRecent time recent = (let
      at = fst (BinarySearch recent time);
      recent' = take at recent @ time # drop at recent
    in if length recent' > flappingRestarts then drop (length recent' - flappingRestarts) recent' else recent')"

definition recordRecentLocked :: "string \<Rightarrow> int \<Rightarrow> restartTracker \<Rightarrow> restartTracker" where
  "recordRecentLocked serviceID time rt =
     rt\<lparr>rtRecent := gset (rtRecent rt) serviceID (recordRecent time (gor (rtRecent rt) serviceID []))\<rparr>"

definition Record :: "int \<Rightarrow> string \<Rightarrow> int \<Rightarrow> restartTracker \<Rightarrow> restartTracker" where
  "Record now serviceID time rt =
     (if serviceID = [] then rt
      else (let
          w = (if time = 0 then now else time);
          buckets = gor (rtServices rt) serviceID [];
          key = bucketKey rt w;
          buckets' = gset buckets key (gor buckets key 0 + 1)
        in recordRecentLocked serviceID w
             (rt\<lparr>rtServices := gset (rtServices rt) serviceID (pruneLocked rt now buckets')\<rparr>)))"

definition Backfill :: "string \<Rightarrow> int \<Rightarrow> restartTracker \<Rightarrow> restartTracker" where
  "Backfill serviceID time rt =
     (if serviceID = [] \<or> time = 0 then rt else recordRecentLocked serviceID time rt)"

definition Count :: "int \<Rightarrow> string \<Rightarrow> int \<Rightarrow> restartTracker \<Rightarrow> 64 word" where
  "Count now serviceID lookback rt = (let
      l = (if lookback > rtHorizon rt then rtHorizon rt else lookback)
    in case gget (rtServices rt) serviceID of
         None \<Rightarrow> 0
       | Some buckets \<Rightarrow> (let cutoff = bucketKey rt (now - l) in
           sum_list (map (\<lambda>(_, v). ucast v) (filter (\<lambda>(k, _). k \<ge> cutoff) buckets))))"

definition Forget :: "string \<Rightarrow> restartTracker \<Rightarrow> restartTracker" where
  "Forget serviceID rt = rt\<lparr>rtServices := gdel (rtServices rt) serviceID, rtRecent := gdel (rtRecent rt) serviceID\<rparr>"

record restartTrackerSnapshot =
  rsHorizon :: int
  rsBucket :: int
  rsServices :: "(int, 32 word) kvs gomap"

definition rt_Snapshot :: "restartTracker \<Rightarrow> restartTrackerSnapshot" where
  "rt_Snapshot rt = \<lparr>rsHorizon = rtHorizon rt, rsBucket = rtBucket rt, rsServices = rtServices rt\<rparr>"

definition bucketStart :: "int \<Rightarrow> int" where
  "bucketStart k = (k + unixEpoch) * second"

text \<open>One service of the loop of \<open>Restore\<close>: its buckets are pruned and the start of observation moves back.\<close>

definition restoreService :: "int \<Rightarrow> string \<times> (int, 32 word) kvs \<Rightarrow> restartTracker \<Rightarrow> restartTracker" where
  "restoreService now = (\<lambda>(i, buckets) rt. (let kept = pruneLocked rt now buckets in
     rt\<lparr>rtServices := gset (rtServices rt) i kept,
        rtObserving := fold (\<lambda>(k, _) obs. if bucketStart k < obs then bucketStart k else obs) kept (rtObserving rt)\<rparr>))"

definition Restore :: "int \<Rightarrow> restartTrackerSnapshot \<Rightarrow> restartTracker \<Rightarrow> restartTracker" where
  "Restore now snap rt = fold (restoreService now) (rsServices snap) (rt\<lparr>rtServices := []\<rparr>)"

section \<open>The flapping window\<close>

text \<open>Recording keeps the newest three of everything recorded, whatever order it arrives in.\<close>

lemma lastn_insort:
  "sorted xs \<Longrightarrow> lastn n (insort v (lastn n xs)) = lastn n (insort v (xs :: 'a :: linorder list))"
proof (induction xs)
  case (Cons x xs)
  show ?case
  proof (cases "n \<le> length xs")
    case True
    then have l: "lastn n (x # xs) = lastn n xs" by (rule lastn_Cons)
    show ?thesis
    proof (cases "v \<le> x")
      case le: True
      then have "\<forall>y \<in> set (lastn n xs). v \<le> y" using Cons.prems set_lastn [of n xs] by fastforce
      then have "insort v (lastn n xs) = v # lastn n xs" by (simp add: insort_is_Cons)
      then show ?thesis
        using True le l by (simp add: lastn_Cons length_lastn lastn_short)
    next
      case False
      then show ?thesis using True l Cons by (simp add: lastn_Cons)
    qed
  next
    case False
    then show ?thesis by (simp add: lastn_short)
  qed
qed (simp add: lastn_def)

lemma insert_at_sort:
  assumes "sorted xs"
  shows "take (fst (BinarySearch xs v)) xs @ v # drop (fst (BinarySearch xs v)) xs = insort v xs"
proof -
  let ?i = "fst (BinarySearch xs v)"
  let ?ys = "take ?i xs @ v # drop ?i xs"
  have "mset (take ?i xs) + mset (drop ?i xs) = mset xs" by (metis append_take_drop_id mset_append)
  then have "mset ?ys = mset (insort v xs)" by simp
  then show ?thesis
    using insert_sorted_at [OF assms refl] assms
    by (metis properties_for_sort sorted_insort sort_key_id_if_sorted)
qed

lemma recordRecent_eq: "sorted recent \<Longrightarrow> recordRecent t recent = lastn flappingRestarts (insort t recent)"
  by (auto simp: recordRecent_def Let_def insert_at_sort lastn_def)

lemma recordRecent_newest:
  "recordRecent t (lastn flappingRestarts (sort ts)) = lastn flappingRestarts (sort (ts @ [t]))"
proof -
  have "sorted (lastn flappingRestarts (sort ts))" by (simp add: lastn_def sorted_wrt_drop)
  then have "recordRecent t (lastn flappingRestarts (sort ts)) = lastn flappingRestarts (insort t (sort ts))"
    by (simp add: recordRecent_eq lastn_insort)
  moreover have "sort (ts @ [t]) = insort t (sort ts)"
    by (rule properties_for_sort) (simp_all add: sorted_insort)
  ultimately show ?thesis by simp
qed

lemma fold_recordRecent: "fold recordRecent ts (lastn flappingRestarts (sort us)) = lastn flappingRestarts (sort (us @ ts))"
  by (induction ts arbitrary: us) (simp_all add: recordRecent_newest)

lemma lastn_first:
  assumes "sorted xs"
  shows "length (lastn n xs) = n \<and> 0 < n \<and> lastn n xs ! 0 > c \<longleftrightarrow> 0 < n \<and> n \<le> length (filter (\<lambda>t. t > c) (xs :: int list))"
proof -
  have split: "length (filter (\<lambda>t. t > c) xs) = length xs - length (takeWhile (\<lambda>t. \<not> t > c) xs)"
  proof -
    have "dropWhile (\<lambda>t. \<not> t > c) xs = filter (\<lambda>t. t > c) xs"
      using assms by (induction xs) (auto simp: filter_id_conv intro!: filter_id_conv [THEN iffD2, symmetric])
    then show ?thesis by (metis length_append takeWhile_dropWhile_id add_diff_cancel_left')
  qed
  show ?thesis
  proof (cases "0 < n \<and> n \<le> length xs")
    case True
    let ?k = "length xs - n"
    have k: "?k < length xs" using True by auto
    have "lastn n xs ! 0 = xs ! ?k" using k by (simp add: lastn_def)
    moreover have "xs ! ?k > c \<longleftrightarrow> length (takeWhile (\<lambda>t. \<not> t > c) xs) \<le> ?k"
    proof
      assume "xs ! ?k > c"
      then show "length (takeWhile (\<lambda>t. \<not> t > c) xs) \<le> ?k"
        using nth_length_takeWhile takeWhile_nth by (metis leI nth_mem set_takeWhileD)
    next
      assume le: "length (takeWhile (\<lambda>t. \<not> t > c) xs) \<le> ?k"
      then have "\<not> \<not> xs ! length (takeWhile (\<lambda>t. \<not> t > c) xs) > c" using k by (intro nth_length_takeWhile) linarith
      then show "xs ! ?k > c" using assms le k sorted_nth_mono by fastforce
    qed
    ultimately show ?thesis using True split by (auto simp: length_lastn)
  next
    case False
    then show ?thesis using split by (auto simp: length_lastn)
  qed
qed

lemma isFlapping_lastn:
  "isFlapping (lastn flappingRestarts (sort ts)) c \<longleftrightarrow> 3 \<le> length (filter (\<lambda>t. t > c) ts)"
proof -
  have "length (filter (\<lambda>t. t > c) (sort ts)) = length (filter (\<lambda>t. t > c) ts)"
    by (metis mset_filter mset_sort size_mset)
  then show ?thesis
    using lastn_first [of "sort ts" 3 c] by (simp add: isFlapping_def flappingRestarts_def)
qed

lemma recent_recordRecentLocked [simp]:
  "gor (rtRecent (recordRecentLocked i t rt)) j [] =
     (if j = i then recordRecent t (gor (rtRecent rt) i []) else gor (rtRecent rt) j [])"
  by (simp add: recordRecentLocked_def)

lemma recent_Record:
  "gor (rtRecent (Record now i t rt)) j [] =
     (if i \<noteq> [] \<and> j = i then recordRecent (if t = 0 then now else t) (gor (rtRecent rt) i []) else gor (rtRecent rt) j [])"
  by (simp add: Record_def recordRecentLocked_def Let_def)

lemma recent_Record_fold:
  assumes "i \<noteq> []" "\<forall>(now, t) \<in> set fs. t \<noteq> 0"
  shows "gor (rtRecent (fold (\<lambda>(now, t). Record now i t) fs rt)) i [] =
     fold recordRecent (map snd fs) (gor (rtRecent rt) i [])"
  using assms(2) by (induction fs arbitrary: rt) (auto simp: recent_Record assms(1))

text \<open>
  A service is reported as flapping exactly when at least three of the failures recorded for it,
  in whatever order they were recorded, happened within the last ten minutes; the tracker keeps no
  more than three times per service to decide this.
\<close>

theorem flapping_iff_three_recent_failures:
  assumes "gget (rtRecent rt) i = None" "i \<noteq> []" "\<forall>(recorded, t) \<in> set fs. t \<noteq> 0"
  shows "IsFlapping now i (fold (\<lambda>(recorded, t). Record recorded i t) fs rt) \<longleftrightarrow>
     3 \<le> length (filter (\<lambda>(_, t). t > now - flappingWindow) fs)"
proof -
  have "gor (rtRecent rt) i [] = lastn flappingRestarts (sort [])" using assms(1) by (simp add: gor_def lastn_def)
  then have "gor (rtRecent (fold (\<lambda>(recorded, t). Record recorded i t) fs rt)) i [] =
      lastn flappingRestarts (sort (map snd fs))"
    using recent_Record_fold [OF assms(2,3), of rt] fold_recordRecent [of "map snd fs" "[]"] by simp
  then show ?thesis
    by (simp add: IsFlapping_def isFlapping_lastn filter_map comp_def case_prod_unfold)
qed

theorem flapping_iff_three_recent_failures_witness:
  "IsFlapping (700 * second) ''s'' (fold (\<lambda>(recorded, t). Record recorded ''s'' t)
     [(0, 300 * second), (0, 200 * second), (0, 600 * second)] (NewRestartTracker 0 (168 * hour) hour))"
proof -
  have none: "gget (rtRecent (NewRestartTracker 0 (168 * hour) hour)) ''s'' = None"
    by (simp add: NewRestartTracker_def Let_def)
  show ?thesis
    by (subst flapping_iff_three_recent_failures [OF none]) (simp_all add: second_def flappingWindow_def)
qed

section \<open>The counts\<close>

lemma bucketKey_mono:
  assumes "0 < rtBucket rt" "s \<le> t"
  shows "bucketKey rt s \<le> bucketKey rt t"
proof -
  have "s - s mod rtBucket rt = rtBucket rt * (s div rtBucket rt)" "t - t mod rtBucket rt = rtBucket rt * (t div rtBucket rt)"
    by (simp_all add: minus_mod_eq_mult_div)
  moreover have "s div rtBucket rt \<le> t div rtBucket rt" using assms by (simp add: zdiv_mono1)
  ultimately have "s - s mod rtBucket rt \<le> t - t mod rtBucket rt" using assms(1) by simp
  then show ?thesis by (simp add: bucketKey_def second_def zdiv_mono1)
qed

definition countFrom :: "int \<Rightarrow> (int, 32 word) kvs \<Rightarrow> 64 word" where
  "countFrom cutoff buckets = sum_list (map (\<lambda>(_, v). ucast v) (filter (\<lambda>(k, _). k \<ge> cutoff) buckets))"

lemma countFrom_Cons:
  "countFrom cutoff ((k, v) # m) = (if k \<ge> cutoff then ucast v else 0) + countFrom cutoff m"
  by (simp add: countFrom_def)

lemma countFrom_gset:
  "countFrom cutoff (gset m k v) =
     countFrom cutoff m + (if k \<ge> cutoff then ucast v - ucast (gor m k 0) else 0)"
  by (induction m) (auto simp: countFrom_Cons gor_def countFrom_def [of _ "[]"])

lemma countFrom_prune:
  assumes "pcut \<le> cutoff"
  shows "countFrom cutoff (filter (\<lambda>(k, _). \<not> k < pcut) m) = countFrom cutoff m"
proof -
  have "filter (\<lambda>(k, _). k \<ge> cutoff) (filter (\<lambda>(k, _). \<not> k < pcut) m) = filter (\<lambda>(k, _). k \<ge> cutoff) m"
    using assms by (auto simp: filter_filter intro!: filter_cong)
  then show ?thesis by (simp only: countFrom_def)
qed

lemma Count_countFrom:
  "Count now i lookback rt = countFrom (bucketKey rt (now - min lookback (rtHorizon rt))) (gor (rtServices rt) i [])"
  by (auto simp: Count_def countFrom_def gor_def min_def Let_def split: option.split)

lemma ucast_Suc:
  assumes "v \<noteq> (- 1 :: 32 word)"
  shows "(ucast (v + 1) :: 64 word) = ucast v + 1"
proof (rule word_uint_eqI)
  have "uint v \<noteq> 2 ^ 32 - 1"
  proof
    assume "uint v = 2 ^ 32 - 1"
    then have "uint v = uint (- 1 :: 32 word)" by (simp add: unsigned_minus_1_eq_mask mask_eq_exp_minus_1)
    then show False using assms by (simp add: word_uint_eq_iff)
  qed
  moreover have "uint v < 2 ^ 32" using uint_lt2p [of v] by simp
  ultimately have "uint v + 1 < 2 ^ 32" by linarith
  then show "uint (ucast (v + 1) :: 64 word) = uint (ucast v + 1 :: 64 word)"
    by (simp add: uint_word_ariths unsigned_ucast_eq take_bit_eq_mod)
qed

text \<open>
  Recording a failure raises every count whose window includes it by exactly one and leaves the
  others alone, pruning included, as long as its bucket's 32-bit counter is not full.
\<close>

theorem Record_counts_once:
  assumes "0 < rtBucket rt" "i \<noteq> []" "t \<noteq> 0"
    and "gor (gor (rtServices rt) i []) (bucketKey rt t) 0 \<noteq> - 1"
  shows "Count now j lookback (Record now i t rt) = Count now j lookback rt +
    (if j = i \<and> bucketKey rt t \<ge> bucketKey rt (now - min lookback (rtHorizon rt)) then 1 else 0)"
proof -
  let ?b = "gor (rtServices rt) i []" let ?k = "bucketKey rt t"
  let ?rt = "Record now i t rt"
  have f: "rtHorizon ?rt = rtHorizon rt" "rtBucket ?rt = rtBucket rt"
    and s: "gor (rtServices ?rt) j [] = (if j = i then pruneLocked rt now (gset ?b ?k (gor ?b ?k 0 + 1)) else gor (rtServices rt) j [])"
    using assms(2,3) by (simp_all add: Record_def recordRecentLocked_def Let_def)
  have key: "bucketKey ?rt = bucketKey rt" using f by (simp add: bucketKey_def fun_eq_iff)
  have "bucketKey rt (now - rtHorizon rt) \<le> bucketKey rt (now - min lookback (rtHorizon rt))"
    by (rule bucketKey_mono [OF assms(1)]) simp
  then show ?thesis
    unfolding Count_countFrom f key s
    by (simp add: pruneLocked_def Let_def countFrom_prune countFrom_gset ucast_Suc [OF assms(4)])
qed

theorem Record_counts_once_witness:
  "Count (8 * hour) ''s'' hour (Record (8 * hour) ''s'' (8 * hour) (NewRestartTracker 0 (168 * hour) hour)) = 1"
proof -
  let ?rt = "NewRestartTracker 0 (168 * hour) hour"
  have b: "rtBucket ?rt = hour" "rtHorizon ?rt = 168 * hour" "rtServices ?rt = []"
    by (simp_all add: NewRestartTracker_def Let_def hour_def second_def)
  have "0 < rtBucket ?rt" "gor (gor (rtServices ?rt) ''s'' []) (bucketKey ?rt (8 * hour)) 0 \<noteq> (- 1 :: 32 word)"
    using b by (simp_all add: hour_def second_def)
  from Record_counts_once [OF this(1) _ _ this(2), of "8 * hour" "''s''" hour] b show ?thesis
    by (simp add: Count_def bucketKey_def hour_def second_def unixEpoch_def)
qed

section \<open>Surviving a restart of the process\<close>

lemma restoreService_fields [simp]:
  "rtHorizon (restoreService now kb rt) = rtHorizon rt" "rtBucket (restoreService now kb rt) = rtBucket rt"
  by (auto simp: restoreService_def Let_def split: prod.split)

lemma restore_fields [simp]:
  "rtHorizon (fold (restoreService now) m rt) = rtHorizon rt" "rtBucket (fold (restoreService now) m rt) = rtBucket rt"
  by (induction m arbitrary: rt) auto

lemma pruneLocked_cong:
  "rtHorizon rt = rtHorizon rt' \<Longrightarrow> rtBucket rt = rtBucket rt' \<Longrightarrow> pruneLocked rt now b = pruneLocked rt' now b"
  by (simp add: pruneLocked_def bucketKey_def Let_def)

lemma restore_services:
  assumes "gwf m"
  shows "gget (rtServices (fold (restoreService now) m rt)) i =
    (case gget m i of None \<Rightarrow> gget (rtServices rt) i | Some b \<Rightarrow> Some (pruneLocked rt now b))"
  using assms
proof (induction m arbitrary: rt)
  case (Cons kb m)
  obtain k b where kb: "kb = (k, b)" by (cases kb)
  have k: "gget m k = None" using Cons.prems kb by (simp add: gget_None_iff)
  show ?case
    using Cons.IH [of "restoreService now kb rt"] Cons.prems k pruneLocked_cong [of "restoreService now kb rt" rt]
    by (auto simp: kb restoreService_def Let_def split: option.split)
qed simp

text \<open>
  Restart counts survive a restart of the process: a tracker with the same settings that restores
  a snapshot answers every count as the tracker it was taken from.
\<close>

theorem restore_keeps_counts:
  assumes "0 < rtBucket rt" "gwf (rtServices rt)" "rtBucket rt' = rtBucket rt" "rtHorizon rt' = rtHorizon rt"
  shows "Count now i lookback (Restore now (rt_Snapshot rt) rt') = Count now i lookback rt"
proof -
  let ?rt = "Restore now (rt_Snapshot rt) rt'"
  have f: "rtHorizon ?rt = rtHorizon rt" "rtBucket ?rt = rtBucket rt"
    using assms(3,4) by (simp_all add: Restore_def)
  have key: "bucketKey ?rt = bucketKey rt" using f by (simp add: bucketKey_def fun_eq_iff)
  have p: "pruneLocked (rt'\<lparr>rtServices := []\<rparr>) now b = pruneLocked rt now b" for b
    using assms(3,4) by (intro pruneLocked_cong) simp_all
  have "gget (rtServices ?rt) i = map_option (pruneLocked rt now) (gget (rtServices rt) i)"
    using restore_services [OF assms(2), of now "rt'\<lparr>rtServices := []\<rparr>" i]
    by (simp add: Restore_def rt_Snapshot_def p split: option.split)
  then have s: "gor (rtServices ?rt) i [] = pruneLocked rt now (gor (rtServices rt) i [])"
    by (simp add: gor_def pruneLocked_def Let_def split: option.split)
  have "bucketKey rt (now - rtHorizon rt) \<le> bucketKey rt (now - min lookback (rtHorizon rt))"
    by (rule bucketKey_mono [OF assms(1)]) simp
  then show ?thesis
    unfolding Count_countFrom f key s by (simp add: pruneLocked_def Let_def countFrom_prune)
qed

theorem restore_keeps_counts_witness:
  "Count (8 * hour) ''s'' hour (Restore (8 * hour)
      (rt_Snapshot (Record (8 * hour) ''s'' (8 * hour) (NewRestartTracker 0 (168 * hour) hour)))
      (NewRestartTracker (8 * hour) (168 * hour) hour))
   = Count (8 * hour) ''s'' hour (Record (8 * hour) ''s'' (8 * hour) (NewRestartTracker 0 (168 * hour) hour))"
  by (rule restore_keeps_counts)
    (simp_all add: NewRestartTracker_def Record_def recordRecentLocked_def Let_def hour_def second_def)

end
