(* ===== verification/Attribution.thy ===== *)
theory Attribution
  imports Resource_Map
begin

text \<open>
  \<open>internal/cache/attribution.go\<close>: a write registers what event it is about to cause, and the event,
  when it arrives, is matched back to the actor. The clock is an argument of the operations. The
  invariant \<open>attr_wf\<close> (expiries in order, sequence numbers increasing, at most 1024 pending) is kept by
  every operation and makes the prefix scan of \<open>prune\<close> drop exactly what has expired.
\<close>

datatype transport = TransportDashboard | TransportREST | TransportMCP

record actor =
  aSubject :: string
  aName :: string
  aProvider :: string
  aClient :: string
  aTransport :: transport

definition DisplayName :: "actor \<Rightarrow> string" where
  "DisplayName a = (if aName a \<noteq> [] then aName a else aSubject a)"

record expectation =
  xType :: event_type
  xKey :: string
  xAction :: string
  xAfter :: nat

record pendingAttribution = expectation +
  pActor :: actor
  pExpires :: int
  pSeq :: nat

record attributions =
  atPending :: "pendingAttribution list"
  atSeq :: nat

definition attributionTTL :: int where "attributionTTL = 60 * 1000000000"
definition maxAttributions :: nat where "maxAttributions = 1024"
definition actionCreate :: string where "actionCreate = ''create''"
definition actionRemove :: string where "actionRemove = ''remove''"
definition actionRefChanged :: string where "actionRefChanged = ''ref_changed''"

definition newAttributions :: attributions where
  "newAttributions = \<lparr>atPending = [], atSeq = 0\<rparr>"

definition prune :: "int \<Rightarrow> attributions \<Rightarrow> attributions" where
  "prune now a = a\<lparr>atPending := dropWhile (\<lambda>p. \<not> now < pExpires p) (atPending a)\<rparr>"

text \<open>\<open>Expect\<close> returns the sequence number its withdraw function closes over.\<close>

definition Expect :: "expectation \<Rightarrow> actor \<Rightarrow> int \<Rightarrow> attributions \<Rightarrow> nat \<times> attributions" where
  "Expect x act now a0 = (let
      a = prune now a0;
      pending = (if length (atPending a) \<ge> maxAttributions then tl (atPending a) else atPending a);
      seq = atSeq a + 1
    in (seq, a\<lparr>atPending := pending @ [expectation.extend x \<lparr>pActor = act, pExpires = now + attributionTTL, pSeq = seq\<rparr>],
               atSeq := seq\<rparr>))"

fun removeSeq :: "nat \<Rightarrow> pendingAttribution list \<Rightarrow> pendingAttribution list" where
  "removeSeq seq [] = []"
| "removeSeq seq (p # ps) = (if pSeq p = seq then ps else p # removeSeq seq ps)"

definition withdraw :: "nat \<Rightarrow> attributions \<Rightarrow> attributions" where
  "withdraw seq a = a\<lparr>atPending := removeSeq seq (atPending a)\<rparr>"

definition attr_Len :: "int \<Rightarrow> attributions \<Rightarrow> nat \<times> attributions" where
  "attr_Len now a = (let a' = prune now a in (length (atPending a'), a'))"

definition resourceVersion :: "resource option \<Rightarrow> nat option" where
  "resourceVersion res = (case res of
     Some (RService r) \<Rightarrow> Some (svVersion r)
   | Some (RNode r) \<Rightarrow> Some (nodeVersion r)
   | Some (RTask r) \<Rightarrow> Some (tVersion r)
   | Some (RConfig r) \<Rightarrow> Some (cfVersion r)
   | Some (RSecret r) \<Rightarrow> Some (seVersion r)
   | _ \<Rightarrow> None)"

definition pendingMatches :: "event \<Rightarrow> nat option \<Rightarrow> pendingAttribution \<Rightarrow> bool" where
  "pendingMatches e ver p =
     (if xAction p = actionCreate then eAction e = actionCreate \<and> eName e = xKey p
      else if xAction p = actionRemove then eAction e = actionRemove \<and> eID e = xKey p
      else eAction e \<noteq> actionRemove \<and> eID e = xKey p \<and> (case ver of None \<Rightarrow> False | Some v \<Rightarrow> v > xAfter p))"

definition candidate :: "event \<Rightarrow> nat option \<Rightarrow> pendingAttribution \<Rightarrow> bool" where
  "candidate e ver p \<longleftrightarrow> xType p = eType e \<and> pendingMatches e ver p"

text \<open>The selection loop: the index of the best candidate so far, with the candidate.\<close>

fun chooseLoop :: "event \<Rightarrow> nat option \<Rightarrow> nat \<Rightarrow> pendingAttribution list \<Rightarrow>
    (nat \<times> pendingAttribution) option \<Rightarrow> (nat \<times> pendingAttribution) option" where
  "chooseLoop e ver i [] best = best"
| "chooseLoop e ver i (p # ps) best =
     (if \<not> candidate e ver p then chooseLoop e ver (i + 1) ps best
      else (case best of
        None \<Rightarrow> chooseLoop e ver (i + 1) ps (Some (i, p))
      | Some (j, b) \<Rightarrow>
          if xAction p = [] \<and> xAfter p > xAfter b then chooseLoop e ver (i + 1) ps (Some (i, p))
          else chooseLoop e ver (i + 1) ps best))"

definition matchEvent :: "event \<Rightarrow> int \<Rightarrow> attributions \<Rightarrow> actor option \<times> attributions" where
  "matchEvent e now a0 =
     (if eAction e = actionRefChanged then (None, a0)
      else (let a = prune now a0; ver = resourceVersion (eResource e) in
        case chooseLoop e ver 0 (atPending a) None of
          None \<Rightarrow> (None, a)
        | Some (best, chosen) \<Rightarrow>
            (Some (pActor chosen),
             a\<lparr>atPending := map snd (filter (\<lambda>(i, p). \<not> (i = best \<or> xAction chosen = [] \<and> candidate e ver p))
                (enumerate 0 (atPending a)))\<rparr>)))"

section \<open>The invariant\<close>

definition attr_wf :: "attributions \<Rightarrow> bool" where
  "attr_wf a \<longleftrightarrow> length (atPending a) \<le> maxAttributions \<and>
     sorted (map pExpires (atPending a)) \<and> sorted_wrt (<) (map pSeq (atPending a)) \<and>
     (\<forall>p \<in> set (atPending a). pSeq p \<le> atSeq a)"

text \<open>The clock has not gone back since the last registration.\<close>

definition clock_ok :: "int \<Rightarrow> attributions \<Rightarrow> bool" where
  "clock_ok now a \<longleftrightarrow> (\<forall>p \<in> set (atPending a). pExpires p \<le> now + attributionTTL)"

lemma dropWhile_sorted_filter:
  "sorted (map f xs) \<Longrightarrow> dropWhile (\<lambda>p. \<not> now < f p) xs = filter (\<lambda>p. now < f p) xs"
proof (induction xs)
  case (Cons x xs)
  show ?case
  proof (cases "now < f x")
    case True
    then have "filter (\<lambda>p. now < f p) xs = xs" using Cons.prems by (auto simp: filter_id_conv)
    then show ?thesis using True by simp
  qed (use Cons in simp)
qed simp

lemma prune_exact:
  "attr_wf a \<Longrightarrow> atPending (prune now a) = filter (\<lambda>p. now < pExpires p) (atPending a)"
  by (simp add: prune_def attr_wf_def dropWhile_sorted_filter)

lemma attr_wf_subseq:
  assumes "attr_wf a" "subseq ps (atPending a)"
  shows "attr_wf (a\<lparr>atPending := ps\<rparr>)"
  using assms(1) list_emb_length [OF assms(2)] subseq_set [OF assms(2)]
    subseq_sorted_wrt [OF subseq_map [OF assms(2), of pExpires], of "(\<le>)"]
    subseq_sorted_wrt [OF subseq_map [OF assms(2), of pSeq], of "(<)"]
  by (auto simp: attr_wf_def)

lemma attr_wf_prune [wf_intros]: "attr_wf a \<Longrightarrow> attr_wf (prune now a)"
  unfolding prune_def by (rule attr_wf_subseq) (auto simp: suffix_dropWhile suffix_imp_subseq)

lemma subseq_removeSeq: "subseq (removeSeq seq ps) ps"
  by (induction ps) auto

lemma attr_wf_withdraw [wf_intros]: "attr_wf a \<Longrightarrow> attr_wf (withdraw seq a)"
  unfolding withdraw_def by (rule attr_wf_subseq) (auto simp: subseq_removeSeq)

lemma attr_wf_match [wf_intros]: "attr_wf a \<Longrightarrow> attr_wf (snd (matchEvent e now a))"
  unfolding matchEvent_def Let_def
  by (auto intro!: attr_wf_prune attr_wf_subseq filter_enumerate_subseq split: option.split)

lemma sorted_wrt_tl: "sorted_wrt R xs \<Longrightarrow> sorted_wrt R (tl xs)"
  by (cases xs) auto

lemma attr_wf_Expect [wf_intros]:
  assumes "attr_wf a" "clock_ok now a"
  shows "attr_wf (snd (Expect x act now a))"
proof -
  let ?p = "atPending (prune now a)"
  let ?q = "if length ?p \<ge> maxAttributions then tl ?p else ?p"
  have wf: "attr_wf (prune now a)" using assms(1) by (rule attr_wf_prune)
  have q: "subseq ?q ?p" by (cases ?p) auto
  have "length ?q < maxAttributions" using wf by (auto simp: attr_wf_def maxAttributions_def)
  moreover have "\<forall>p \<in> set ?q. pExpires p \<le> now + attributionTTL"
    using subseq_set [OF q] assms(2) prune_exact [OF assms(1)] by (auto simp: clock_ok_def)
  moreover have "attr_wf ((prune now a)\<lparr>atPending := ?q\<rparr>)" using wf q by (rule attr_wf_subseq)
  ultimately show ?thesis
    unfolding Expect_def Let_def attr_wf_def snd_conv
    by (simp add: sorted_append sorted_wrt_append expectation.extend_def less_Suc_eq_le le_SucI)
qed

lemma attr_wf_new: "attr_wf newAttributions"
  by (simp add: attr_wf_def newAttributions_def)

section \<open>The selection\<close>

lemma chooseLoop_None: "chooseLoop e ver i ps best = None \<longleftrightarrow> best = None \<and> (\<forall>p \<in> set ps. \<not> candidate e ver p)"
  by (induction ps arbitrary: i best) (auto simp del: not_None_eq split: option.split)

lemma chooseLoop_Some:
  assumes "chooseLoop e ver i ps best = Some (k, c)"
  shows "(best = Some (k, c) \<or> i \<le> k \<and> k < i + length ps \<and> ps ! (k - i) = c \<and> candidate e ver c) \<and>
     (\<forall>p \<in> set ps. candidate e ver p \<and> xAction p = [] \<longrightarrow> xAfter p \<le> xAfter c) \<and>
     (\<forall>j b. best = Some (j, b) \<longrightarrow> xAfter b \<le> xAfter c)"
  using assms
proof (induction ps arbitrary: i best)
  case (Cons p ps)
  let ?best = "if \<not> candidate e ver p then best else (case best of None \<Rightarrow> Some (i, p)
      | Some (j, b) \<Rightarrow> if xAction p = [] \<and> xAfter p > xAfter b then Some (i, p) else best)"
  have step: "chooseLoop e ver i (p # ps) best = chooseLoop e ver (i + 1) ps ?best"
    by (auto split: option.split)
  have IH: "(?best = Some (k, c) \<or> i + 1 \<le> k \<and> k < i + 1 + length ps \<and> ps ! (k - (i + 1)) = c \<and> candidate e ver c)"
    "\<forall>q \<in> set ps. candidate e ver q \<and> xAction q = [] \<longrightarrow> xAfter q \<le> xAfter c"
    "\<forall>j b. ?best = Some (j, b) \<longrightarrow> xAfter b \<le> xAfter c"
    using Cons.IH Cons.prems unfolding step by blast+
  have "best = Some (k, c) \<or> i \<le> k \<and> k < i + length (p # ps) \<and> (p # ps) ! (k - i) = c \<and> candidate e ver c"
    using IH(1)
  proof
    assume "?best = Some (k, c)"
    then show ?thesis by (auto split: if_splits option.splits)
  next
    assume "i + 1 \<le> k \<and> k < i + 1 + length ps \<and> ps ! (k - (i + 1)) = c \<and> candidate e ver c"
    then show ?thesis by (auto simp: nth_Cons' Suc_diff_Suc)
  qed
  moreover have "candidate e ver p \<and> xAction p = [] \<Longrightarrow> xAfter p \<le> xAfter c"
    using IH(3) by (cases best) (fastforce split: if_splits)+
  moreover have "best = Some (j, b) \<Longrightarrow> xAfter b \<le> xAfter c" for j b
    using IH(3) by (fastforce split: if_splits)
  ultimately show ?case using IH(2) by auto
qed simp

section \<open>What a match means\<close>

lemma nth_filter_enumerate:
  assumes "distinct (map f xs)" "i < length xs" "\<not> P i (xs ! i)"
  shows "xs ! i \<notin> set (map snd (filter (\<lambda>(i, x). P i x) (enumerate 0 xs)))"
proof
  assume "xs ! i \<in> set (map snd (filter (\<lambda>(i, x). P i x) (enumerate 0 xs)))"
  then obtain j where j: "j < length xs" "xs ! j = xs ! i" "P j (xs ! j)"
    by (auto simp: in_set_enumerate_eq)
  have "map f xs ! j = map f xs ! i" using j assms(2) by simp
  then have "j = i" using assms(1,2) j(1) nth_eq_iff_index_eq by (metis length_map)
  then show False using j assms(3) by simp
qed

lemma matchEvent_cases:
  assumes "matchEvent e now a = (Some act, a')"
  obtains k p where "eAction e \<noteq> actionRefChanged"
    and "chooseLoop e (resourceVersion (eResource e)) 0 (atPending (prune now a)) None = Some (k, p)"
    and "act = pActor p"
    and "atPending a' = map snd (filter (\<lambda>(i, q). \<not> (i = k \<or> xAction p = [] \<and> candidate e (resourceVersion (eResource e)) q))
       (enumerate 0 (atPending (prune now a))))"
  using assms by (auto simp: matchEvent_def Let_def split: if_splits option.splits)

text \<open>
  C39. An event is attributed to a write that announced it: whenever matching returns an actor, that
  actor registered, within the last minute, an expectation the event fulfils; the registration is
  gone afterwards, so no second event can claim it; no newer version-based registration was passed
  over; and if it was a change, no other registration the event fulfils is left behind.
\<close>

theorem match_names_an_announced_write:
  assumes "attr_wf a" "matchEvent e now a = (Some act, a')"
  shows "\<exists>p \<in> set (atPending a). pActor p = act \<and> now < pExpires p \<and>
    candidate e (resourceVersion (eResource e)) p \<and> p \<notin> set (atPending a') \<and>
    (\<forall>q \<in> set (atPending a). now < pExpires q \<and> candidate e (resourceVersion (eResource e)) q \<and> xAction q = []
       \<longrightarrow> xAfter q \<le> xAfter p) \<and>
    (xAction p = [] \<longrightarrow> (\<forall>q \<in> set (atPending a'). \<not> candidate e (resourceVersion (eResource e)) q))"
proof -
  let ?ver = "resourceVersion (eResource e)" let ?ps = "atPending (prune now a)"
  obtain k p where c: "chooseLoop e ?ver 0 ?ps None = Some (k, p)" and act: "act = pActor p"
    and a': "atPending a' = map snd (filter (\<lambda>(i, q). \<not> (i = k \<or> xAction p = [] \<and> candidate e ?ver q)) (enumerate 0 ?ps))"
    using assms(2) by (rule matchEvent_cases)
  note s = chooseLoop_Some [OF c]
  have k: "k < length ?ps" "?ps ! k = p" "candidate e ?ver p" using s by auto
  have mem: "set ?ps = {q \<in> set (atPending a). now < pExpires q}" using prune_exact [OF assms(1)] by auto
  have "distinct (map pSeq ?ps)" using attr_wf_prune [OF assms(1)]
    by (auto simp: attr_wf_def strict_sorted_iff)
  then have "p \<notin> set (atPending a')"
    using nth_filter_enumerate [of pSeq ?ps k "\<lambda>i q. \<not> (i = k \<or> xAction p = [] \<and> candidate e ?ver q)"] k a' by simp
  moreover have "p \<in> set ?ps" using k nth_mem by blast
  moreover have "xAction p = [] \<Longrightarrow> \<forall>q \<in> set (atPending a'). \<not> candidate e ?ver q" using a' by auto
  ultimately show ?thesis using mem act k(3) s by (intro bexI [of _ p]) auto
qed

definition ex_actor :: actor where
  "ex_actor = \<lparr>aSubject = ''alice'', aName = [], aProvider = ''oidc'', aClient = [], aTransport = TransportREST\<rparr>"

definition ex_expectation :: expectation where
  "ex_expectation = \<lparr>xType = EventNode, xKey = ''n1'', xAction = ''remove'', xAfter = 0\<rparr>"

lemma ex_registered_wf: "attr_wf (snd (Expect ex_expectation ex_actor 0 newAttributions))"
  by (rule attr_wf_Expect [OF attr_wf_new]) (simp add: clock_ok_def newAttributions_def)

theorem match_names_an_announced_write_witness:
  "\<exists>p \<in> set (atPending (snd (Expect ex_expectation ex_actor 0 newAttributions))). pActor p = ex_actor"
proof -
  let ?a = "snd (Expect ex_expectation ex_actor 0 newAttributions)"
  let ?e = "newEvent EventNode ''remove'' ''n1'' []"
  have "matchEvent ?e 1 ?a = (Some ex_actor, ?a\<lparr>atPending := []\<rparr>)"
    by (simp add: matchEvent_def Expect_def Let_def prune_def newAttributions_def ex_expectation_def
        newEvent_def actionRefChanged_def actionCreate_def actionRemove_def attributionTTL_def maxAttributions_def
        candidate_def pendingMatches_def expectation.extend_def resourceVersion_def)
  from match_names_an_announced_write [OF ex_registered_wf this] show ?thesis by blast
qed

text \<open>
  C40. No announced write is lost: as long as an unexpired registration fits an event that is not a
  reference change, matching names some actor.
\<close>

theorem match_finds_an_announced_write:
  assumes "attr_wf a" "p \<in> set (atPending a)" "now < pExpires p"
    and "candidate e (resourceVersion (eResource e)) p" "eAction e \<noteq> actionRefChanged"
  shows "fst (matchEvent e now a) \<noteq> None"
proof -
  have "p \<in> set (atPending (prune now a))" using assms(2,3) prune_exact [OF assms(1)] by simp
  then have "chooseLoop e (resourceVersion (eResource e)) 0 (atPending (prune now a)) None \<noteq> None"
    using assms(4) chooseLoop_None by blast
  then show ?thesis using assms(5) by (auto simp: matchEvent_def Let_def)
qed

theorem match_finds_an_announced_write_witness:
  "fst (matchEvent (newEvent EventNode ''remove'' ''n1'' []) 1 (snd (Expect ex_expectation ex_actor 0 newAttributions))) \<noteq> None"
proof -
  let ?a = "snd (Expect ex_expectation ex_actor 0 newAttributions)"
  let ?p = "expectation.extend ex_expectation \<lparr>pActor = ex_actor, pExpires = attributionTTL, pSeq = 1\<rparr>"
  have p: "?p \<in> set (atPending ?a)"
    by (simp add: Expect_def prune_def newAttributions_def Let_def maxAttributions_def)
  show ?thesis
    by (rule match_finds_an_announced_write [OF ex_registered_wf p])
      (simp_all add: ex_expectation_def newEvent_def actionRefChanged_def actionCreate_def actionRemove_def
        attributionTTL_def candidate_def pendingMatches_def expectation.extend_def resourceVersion_def)
qed

end
