(* ===== verification/History.thy ===== *)
theory History
  imports Attribution
begin

text \<open>
  The change history of \<open>internal/cache/history.go\<close>: a ring of entries with a per-resource index of
  ring slots, its filters, and the two ways \<open>List\<close> answers a query. The ring is related to the log of
  everything appended (\<open>holds_log\<close>): it is the newest \<open>size\<close> entries of it. \<open>Since\<close> is shown complete
  against that log whenever it says so, and the indexed fast path of \<open>List\<close> is shown to answer exactly
  as the scan does. The ring has a positive size, as every caller configures it; slots outside the
  part written so far hold the zero entry.
\<close>

section \<open>Entries and queries\<close>

definition KindChange :: string where "KindChange = ''change''"
definition KindGap :: string where "KindGap = ''gap''"
definition KindAnnotation :: string where "KindAnnotation = ''annotation''"

text \<open>A note on the timeline, and a resource it names (\<open>annotations.go\<close>). A zero time is \<open>0\<close>.\<close>

record annotationResource =
  arType :: event_type
  arID :: string
  arName :: string
  arService :: string
  arStack :: string
  arRemoved :: bool

record annotation =
  anID :: nat
  anTimestamp :: int
  anUntil :: int
  anText :: string
  anTags :: "string list"
  anResources :: "annotationResource list"
  anActor :: "actor option"
  anUpdated :: int
  anEditor :: "actor option"
  anVersion :: nat
  anCreated :: int

text \<open>An absent \<open>EventType\<close> (the empty string) is \<open>None\<close>.\<close>

record historyEntry =
  hID :: nat
  hKind :: string
  hTimestamp :: int
  hUntil :: int
  hRecoveredFrom :: int
  hType :: "event_type option"
  hAction :: string
  hResourceID :: string
  hName :: string
  hActor :: "actor option"
  hService :: string
  hStack :: string
  hServiceID :: string
  hSlot :: int
  hNodeID :: string
  hServiceName :: string
  hRecovered :: bool
  hSummary :: string
  hText :: string
  hTags :: "string list"
  hResources :: "annotationResource list"
  hUpdated :: int
  hEditor :: "actor option"
  hAnnotation :: "annotation option"
  hPrevious :: "annotation option"

definition zeroEntry :: historyEntry where
  "zeroEntry = \<lparr>hID = 0, hKind = [], hTimestamp = 0, hUntil = 0, hRecoveredFrom = 0, hType = None, hAction = [],
     hResourceID = [], hName = [], hActor = None, hService = [], hStack = [], hServiceID = [], hSlot = 0,
     hNodeID = [], hServiceName = [], hRecovered = False, hSummary = [], hText = [], hTags = [], hResources = [], hUpdated = 0,
     hEditor = None, hAnnotation = None, hPrevious = None\<rparr>"

record historyQuery =
  qType :: "event_type option"
  qResourceID :: string
  qBeforeID :: nat
  qTitleContains :: string
  qSearch :: string
  qLimit :: int
  qTaskName :: "(historyEntry \<Rightarrow> string) option"
  qWords :: "string list"
  qReady :: bool
  qTypes :: "event_type list"
  qKinds :: "string list"
  qBefore :: int
  qAfter :: int
  qVisible :: "(historyEntry \<Rightarrow> bool) option"
  qTags :: "string list"
  qMatchAny :: bool
  qAuthors :: "string list"
  qMembers :: "string list"

definition about :: "historyEntry \<Rightarrow> string \<Rightarrow> bool" where
  "about e i \<longleftrightarrow> hResourceID e = i \<or> hServiceID e = i"

text \<open>\<open>end\<close> of an entry.\<close>

definition entryEnd :: "historyEntry \<Rightarrow> int" where
  "entryEnd e = (if hUntil e = 0 then hTimestamp e else hUntil e)"

section \<open>Text filters\<close>

definition lowerByte :: "char \<Rightarrow> char" where
  "lowerByte c = (if CHR ''A'' \<le> c \<and> c \<le> CHR ''Z'' then char_of (of_char c + (32 :: nat)) else c)"

text \<open>The inner loop compares the folded bytes of \<open>s\<close> from position \<open>i\<close> with the substring.\<close>

fun lowerPrefix :: "string \<Rightarrow> string \<Rightarrow> bool" where
  "lowerPrefix s [] = True"
| "lowerPrefix [] (c # sub) = False"
| "lowerPrefix (b # s) (c # sub) = (lowerByte b = c \<and> lowerPrefix s sub)"

fun ContainsLower :: "string \<Rightarrow> string \<Rightarrow> bool" where
  "ContainsLower [] sub = (sub = [])"
| "ContainsLower (b # s) sub = (lowerPrefix (b # s) sub \<or> ContainsLower s sub)"

definition hasPrefixLower :: "string \<Rightarrow> string \<Rightarrow> bool" where
  "hasPrefixLower s pre \<longleftrightarrow> length pre \<le> length s \<and> ContainsLower (take (length pre) s) pre"

definition stackDisplay :: "string \<Rightarrow> string" where
  "stackDisplay name = (let pre = takeWhile (\<lambda>c. c \<noteq> CHR ''_'') name in
     if 0 < length pre \<and> length pre < length name then pre @ CHR ''/'' # drop (length pre + 1) name else name)"

definition nameHas :: "string \<Rightarrow> string \<Rightarrow> bool" where
  "nameHas name word \<longleftrightarrow> ContainsLower name word \<or> CHR ''/'' \<in> set word \<and> ContainsLower (stackDisplay name) word"

definition actorHas :: "actor option \<Rightarrow> string \<Rightarrow> bool" where
  "actorHas act word = (case act of
     None \<Rightarrow> False | Some a \<Rightarrow> ContainsLower (aName a) word \<or> ContainsLower (aSubject a) word)"

fun typeName :: "event_type option \<Rightarrow> string" where
  "typeName None = []"
| "typeName (Some EventNode) = ''node''"
| "typeName (Some EventService) = ''service''"
| "typeName (Some EventTask) = ''task''"
| "typeName (Some EventConfig) = ''config''"
| "typeName (Some EventSecret) = ''secret''"
| "typeName (Some EventNetwork) = ''network''"
| "typeName (Some EventVolume) = ''volume''"
| "typeName (Some EventStack) = ''stack''"
| "typeName (Some EventSync) = ''sync''"
| "typeName (Some EventGap) = ''gap''"
| "typeName (Some EventAnnotation) = ''annotation''"

text \<open>
  \<open>strings.ToLower\<close> and \<open>strings.Fields\<close> go through Unicode's tables for a string with a non-ASCII
  byte; those tables are the two functions of \<open>unicode\<close>.
\<close>

record unicode =
  uToLower :: "string \<Rightarrow> string"
  uFields :: "string \<Rightarrow> string list"

definition ascii :: "string \<Rightarrow> bool" where
  "ascii s \<longleftrightarrow> list_all (\<lambda>c. (of_char c :: nat) < 128) s"

definition space :: "char \<Rightarrow> bool" where
  "space c \<longleftrightarrow> (let n = (of_char c :: nat) in n = 32 \<or> 9 \<le> n \<and> n \<le> 13)"

fun splitFields :: "string \<Rightarrow> string \<Rightarrow> string list" where
  "splitFields [] w = (if w = [] then [] else [w])"
| "splitFields (c # s) w = (if space c then (if w = [] then splitFields s [] else w # splitFields s [])
     else splitFields s (w @ [c]))"

definition ToLower :: "unicode \<Rightarrow> string \<Rightarrow> string" where
  "ToLower u s = (if ascii s then map lowerByte s else uToLower u s)"

definition Fields :: "unicode \<Rightarrow> string \<Rightarrow> string list" where
  "Fields u s = (if ascii s then splitFields s [] else uFields u s)"

definition prepared :: "unicode \<Rightarrow> historyQuery \<Rightarrow> historyQuery" where
  "prepared u q = q\<lparr>qTitleContains := ToLower u (qTitleContains q),
     qWords := Fields u (ToLower u (qSearch q)), qReady := True\<rparr>"

section \<open>Filters\<close>

definition wantsKind :: "historyQuery \<Rightarrow> string \<Rightarrow> bool" where
  "wantsKind q kind \<longleftrightarrow> qKinds q = [] \<or> kind \<in> set (qKinds q)"

definition matchesTags :: "historyQuery \<Rightarrow> string list \<Rightarrow> bool" where
  "matchesTags q tags =
     (if qTags q = [] then True
      else if qMatchAny q then list_ex (\<lambda>tag. tag \<in> set tags) (qTags q)
      else \<not> list_ex (\<lambda>tag. tag \<notin> set tags) (qTags q))"

definition matchesAuthor :: "historyQuery \<Rightarrow> actor option \<Rightarrow> bool" where
  "matchesAuthor q act \<longleftrightarrow> qAuthors q = [] \<or> (case act of None \<Rightarrow> False | Some a \<Rightarrow> aSubject a \<in> set (qAuthors q))"

definition matchesResource :: "historyQuery \<Rightarrow> historyEntry \<Rightarrow> bool" where
  "matchesResource q e = (let member = (hType e = Some EventService \<and> hResourceID e \<in> set (qMembers q)) in
     if qResourceID q \<noteq> [] \<and> \<not> about e (qResourceID q) \<and> \<not> member then False
     else if qType q \<noteq> None \<and> hType e \<noteq> qType q \<and> \<not> member then False
     else qTypes q = [] \<or> (case hType e of None \<Rightarrow> False | Some t \<Rightarrow> t \<in> set (qTypes q)) \<or> member)"

definition matchesText :: "unicode \<Rightarrow> historyQuery \<Rightarrow> historyEntry \<Rightarrow> bool" where
  "matchesText u q0 e =
     (if qTitleContains q0 = [] \<and> qSearch q0 = [] then True
      else (let
          q = (if \<not> qReady q0 then prepared u q0 else q0);
          name = (if hType e = Some EventTask then (case qTaskName q of None \<Rightarrow> hName e | Some f \<Rightarrow> f e) else hName e)
        in ContainsLower name (qTitleContains q) \<and>
           \<not> list_ex (\<lambda>word. \<not> nameHas name word \<and> \<not> hasPrefixLower (hResourceID e) word \<and>
               \<not> ContainsLower (typeName (hType e)) word \<and> \<not> ContainsLower (hAction e) word \<and>
               \<not> actorHas (hActor e) word) (qWords q)))"

definition matchesEntry :: "unicode \<Rightarrow> historyQuery \<Rightarrow> historyEntry \<Rightarrow> bool" where
  "matchesEntry u q e =
     (if hKind e = KindAnnotation \<or> \<not> wantsKind q (hKind e) then False
      else if qBefore q \<noteq> 0 \<and> hTimestamp e > qBefore q then False
      else if hKind e = KindChange \<and> (qTags q \<noteq> [] \<or> \<not> matchesAuthor q (hActor e)) then False
      else if hKind e \<noteq> KindGap \<and> \<not> matchesResource q e then False
      else (case qVisible q of None \<Rightarrow> True | Some v \<Rightarrow> v e) \<and> (hKind e = KindGap \<or> matchesText u q e))"

section \<open>The ring\<close>

record indexRing =
  riIndices :: "nat list"
  riCursor :: nat
  riFull :: bool

definition indexRingSize :: nat where "indexRingSize = 64"

definition push :: "nat \<Rightarrow> indexRing \<Rightarrow> indexRing" where
  "push idx r = (let r' = r\<lparr>riIndices := (riIndices r)[riCursor r := idx], riCursor := riCursor r + 1\<rparr> in
     if riCursor r' \<ge> length (riIndices r') then r'\<lparr>riCursor := 0, riFull := True\<rparr> else r')"

definition ri_newest :: "indexRing \<Rightarrow> nat" where
  "ri_newest r = (if riCursor r = 0 then riIndices r ! (length (riIndices r) - 1) else riIndices r ! (riCursor r - 1))"

record history =
  hsEntries :: "historyEntry list"
  hsSize :: nat
  hsCursor :: nat
  hsCount :: nat
  hsFull :: bool
  hsInstance :: string
  hsByResource :: "indexRing gomap"

definition NewHistory :: "string \<Rightarrow> nat \<Rightarrow> history" where
  "NewHistory inst sz = \<lparr>hsEntries = replicate sz zeroEntry, hsSize = sz, hsCursor = 0, hsCount = 0,
     hsFull = False, hsInstance = inst, hsByResource = []\<rparr>"

definition Oldest :: "history \<Rightarrow> int option" where
  "Oldest h = (if hsCursor h = 0 \<and> \<not> hsFull h then None
     else Some (hTimestamp (hsEntries h ! (if hsFull h then hsCursor h else 0))))"

definition indexUnder :: "nat \<Rightarrow> string \<Rightarrow> indexRing gomap \<Rightarrow> indexRing gomap" where
  "indexUnder pos i m = gset m i (push pos (case gget m i of
     Some ring \<Rightarrow> ring
   | None \<Rightarrow> \<lparr>riIndices = replicate indexRingSize 0, riCursor = 0, riFull = False\<rparr>))"

definition evictUnder :: "nat \<Rightarrow> string \<Rightarrow> indexRing gomap \<Rightarrow> indexRing gomap" where
  "evictUnder pos i m = (case gget m i of
     Some ring \<Rightarrow> if ri_newest ring = pos then gdel m i else m | None \<Rightarrow> m)"

definition stepCursor :: "history \<Rightarrow> history" where
  "stepCursor h = (if hsCursor h + 1 \<ge> hsSize h then h\<lparr>hsCursor := 0, hsFull := True\<rparr>
     else h\<lparr>hsCursor := hsCursor h + 1\<rparr>)"

text \<open>Indexing an entry under its resource and, where it has one, its owning service.\<close>

definition indexEntry :: "historyEntry \<Rightarrow> nat \<Rightarrow> indexRing gomap \<Rightarrow> indexRing gomap" where
  "indexEntry e pos m = (let m' = indexUnder pos (hResourceID e) m in
     if hServiceID e \<noteq> [] then indexUnder pos (hServiceID e) m' else m')"

definition Append :: "int \<Rightarrow> historyEntry \<Rightarrow> history \<Rightarrow> nat \<times> history" where
  "Append now e0 h = (let
      count = hsCount h + 1;
      e = e0\<lparr>hID := count, hKind := (if hKind e0 = [] then KindChange else hKind e0),
             hTimestamp := (if hTimestamp e0 = 0 then now else hTimestamp e0)\<rparr>;
      pos = hsCursor h;
      m1 = (if hsFull h then (let evicted = hsEntries h ! pos in
              evictUnder pos (hServiceID evicted) (evictUnder pos (hResourceID evicted) (hsByResource h)))
            else hsByResource h);
      m2 = (if hKind e \<noteq> KindAnnotation then indexEntry e pos m1 else m1)
    in (count, stepCursor (h\<lparr>hsCount := count, hsEntries := (hsEntries h)[pos := e], hsByResource := m2\<rparr>)))"

definition restoreEntry :: "historyEntry \<Rightarrow> history \<Rightarrow> history" where
  "restoreEntry e h = (stepCursor (h\<lparr>hsEntries := (hsEntries h)[hsCursor h := e],
     hsByResource := indexEntry e (hsCursor h) (hsByResource h)\<rparr>))\<lparr>hsCount := hID e\<rparr>"

definition RestoreHistory :: "historyEntry list \<Rightarrow> nat \<Rightarrow> string \<Rightarrow> history \<Rightarrow> history" where
  "RestoreHistory es0 lastID inst h = (let
      es = (if length es0 > hsSize h then drop (length es0 - hsSize h) es0 else es0);
      h' = fold restoreEntry es (h\<lparr>hsInstance := inst\<rparr>)
    in h'\<lparr>hsCount := max (hsCount h') lastID + hsSize h\<rparr>)"

text \<open>The slot of the \<open>i\<close>-th newest entry, and how many slots are occupied.\<close>

definition slotAt :: "history \<Rightarrow> nat \<Rightarrow> nat" where
  "slotAt h i = (if hsCursor h < 1 + i then hsCursor h + hsSize h - 1 - i else hsCursor h - 1 - i)"

definition occupied :: "history \<Rightarrow> nat" where
  "occupied h = (if \<not> hsFull h then hsCursor h else hsSize h)"

definition newestFirst :: "history \<Rightarrow> historyEntry list" where
  "newestFirst h = map (\<lambda>i. hsEntries h ! slotAt h i) [0..<occupied h]"

definition Since :: "nat \<Rightarrow> history \<Rightarrow> historyEntry list \<times> bool" where
  "Since afterID h =
     (if afterID > hsCount h then ([], False)
      else if afterID = hsCount h then ([], True)
      else (let
          oldest = (if hsFull h then hsCursor h else 0);
          complete = (afterID + 1 \<ge> hID (hsEntries h ! oldest))
        in (rev (takeWhile (\<lambda>e. \<not> hID e \<le> afterID) (newestFirst h)), complete)))"

definition removedFromStack :: "string \<Rightarrow> history \<Rightarrow> string list" where
  "removedFromStack stack h = map hResourceID (filter (\<lambda>e. hType e = Some EventService \<and> hAction e = ''remove'' \<and>
     hStack e = stack) (hsEntries h))"

section \<open>Listing\<close>

text \<open>The scan: newest first, skipping what is not below the cursor, ending at the first entry too old.\<close>

fun scanWalk :: "unicode \<Rightarrow> historyQuery \<Rightarrow> nat \<Rightarrow> historyEntry list \<Rightarrow> historyEntry list \<Rightarrow> historyEntry list" where
  "scanWalk u q limit [] result = result"
| "scanWalk u q limit (e # es) result =
     (if qBeforeID q \<noteq> 0 \<and> hID e \<ge> qBeforeID q then scanWalk u q limit es result
      else if qAfter q \<noteq> 0 \<and> \<not> entryEnd e > qAfter q then result
      else if \<not> matchesEntry u q e then scanWalk u q limit es result
      else if length (result @ [e]) = limit then result @ [e]
      else scanWalk u q limit es (result @ [e]))"

definition maxUint64 :: nat where "maxUint64 = 2 ^ 64 - 1"

record indexCursor =
  icRing :: "indexRing option"
  icBelongs :: "historyEntry \<Rightarrow> bool"
  icVisited :: nat
  icLast :: nat
  icHead :: historyEntry
  icOk :: bool
  icWhole :: bool

definition ringTotal :: "indexRing \<Rightarrow> nat" where
  "ringTotal r = (if \<not> riFull r then riCursor r else length (riIndices r))"

definition ringAt :: "indexRing \<Rightarrow> nat \<Rightarrow> nat" where
  "ringAt r k = riIndices r ! (if riCursor r < 1 + k then riCursor r + length (riIndices r) - 1 - k else riCursor r - 1 - k)"

function advanceLoop :: "historyEntry list \<Rightarrow> indexRing \<Rightarrow> indexCursor \<Rightarrow> indexCursor" where
  "advanceLoop entries r c =
     (if icVisited c < ringTotal r then
        (let e = entries ! ringAt r (icVisited c); c' = c\<lparr>icVisited := icVisited c + 1\<rparr> in
         if icBelongs c e \<and> hID e < icLast c then c'\<lparr>icLast := hID e, icHead := e, icOk := True\<rparr>
         else advanceLoop entries r c')
      else c)"
  by pat_completeness auto
termination by (relation "measure (\<lambda>(_, r, c). ringTotal r - icVisited c)") auto

declare advanceLoop.simps [simp del]

definition advance :: "history \<Rightarrow> indexCursor \<Rightarrow> indexCursor" where
  "advance h c = (case icRing c of
     None \<Rightarrow> c\<lparr>icOk := False\<rparr>
   | Some r \<Rightarrow> advanceLoop (hsEntries h) r (c\<lparr>icOk := False\<rparr>))"

definition newCursor :: "string \<Rightarrow> (historyEntry \<Rightarrow> bool) \<Rightarrow> history \<Rightarrow> indexCursor" where
  "newCursor i belongs h = (let ring = gget (hsByResource h) i in
     advance h \<lparr>icRing = ring, icBelongs = belongs, icVisited = 0, icLast = maxUint64, icHead = zeroEntry, icOk = False,
       icWhole = (case ring of None \<Rightarrow> True | Some r \<Rightarrow> \<not> riFull r)\<rparr>)"

text \<open>The empty gap cursor of a query that wants no gaps.\<close>

definition emptyCursor :: indexCursor where
  "emptyCursor = \<lparr>icRing = None, icBelongs = (\<lambda>_. False), icVisited = 0, icLast = 0, icHead = zeroEntry, icOk = False, icWhole = True\<rparr>"

definition cursorLeft :: "indexCursor \<Rightarrow> nat" where
  "cursorLeft c = (case icRing c of None \<Rightarrow> 0 | Some r \<Rightarrow> ringTotal r - icVisited c) + (if icOk c then 1 else 0)"

lemma advanceLoop_done: "\<not> icVisited c < ringTotal r \<Longrightarrow> advanceLoop entries r c = c"
  by (subst advanceLoop.simps) simp

lemma advanceLoop_take:
  assumes "icVisited c < ringTotal r" "e = entries ! ringAt r (icVisited c)" "icBelongs c e" "hID e < icLast c"
  shows "advanceLoop entries r c = c\<lparr>icVisited := icVisited c + 1, icLast := hID e, icHead := e, icOk := True\<rparr>"
  using assms by (subst advanceLoop.simps) (simp add: Let_def)

lemma advanceLoop_skip:
  assumes "icVisited c < ringTotal r" "e = entries ! ringAt r (icVisited c)" "\<not> icBelongs c e \<or> \<not> hID e < icLast c"
  shows "advanceLoop entries r c = advanceLoop entries r (c\<lparr>icVisited := icVisited c + 1\<rparr>)"
  using assms by (subst advanceLoop.simps) (auto simp: Let_def)

lemma advanceLoop_left:
  "\<not> icOk c \<Longrightarrow> icRing c = Some r \<Longrightarrow>
     cursorLeft (advanceLoop entries r c) \<le> ringTotal r - icVisited c \<and> icRing (advanceLoop entries r c) = Some r"
proof (induction entries r c rule: advanceLoop.induct)
  case (1 entries r c)
  let ?e = "entries ! ringAt r (icVisited c)" let ?c = "c\<lparr>icVisited := icVisited c + 1\<rparr>"
  consider "\<not> icVisited c < ringTotal r" | "icVisited c < ringTotal r" "icBelongs c ?e" "hID ?e < icLast c"
    | "icVisited c < ringTotal r" "\<not> icBelongs c ?e \<or> \<not> hID ?e < icLast c" by blast
  then show ?case
  proof cases
    case 1
    then show ?thesis using "1.prems" by (simp add: advanceLoop_done cursorLeft_def)
  next
    case 2
    then show ?thesis using "1.prems" by (simp add: advanceLoop_take cursorLeft_def)
  next
    case 3
    then have "\<not> (icBelongs c ?e \<and> hID ?e < icLast c)" by blast
    then show ?thesis
      using "1.IH" [OF 3(1) refl refl] "1.prems" advanceLoop_skip [OF 3(1) refl 3(2)] by auto
  qed
qed

lemma advance_left: "icOk c \<Longrightarrow> cursorLeft (advance h c) < cursorLeft c"
  using advanceLoop_left [of "c\<lparr>icOk := False\<rparr>" _ "hsEntries h"]
  by (auto simp: advance_def cursorLeft_def less_Suc_eq_le split: option.split)

function indexWalk :: "unicode \<Rightarrow> history \<Rightarrow> historyQuery \<Rightarrow> nat \<Rightarrow> indexCursor \<Rightarrow> indexCursor \<Rightarrow> historyEntry list \<Rightarrow>
    historyEntry list \<times> bool" where
  "indexWalk u h q limit own gaps result =
     (if \<not> length result < limit then (result, True)
      else if \<not> icOk own \<and> \<not> icWhole own \<or> \<not> icOk gaps \<and> \<not> icWhole gaps then (result, False)
      else if \<not> icOk own \<and> \<not> icOk gaps then (result, True)
      else (let
          useOwn = (icOk own \<and> (\<not> icOk gaps \<or> hID (icHead own) > hID (icHead gaps)));
          e = (if useOwn then icHead own else icHead gaps);
          own' = (if useOwn then advance h own else own);
          gaps' = (if useOwn then gaps else advance h gaps)
        in if qBeforeID q \<noteq> 0 \<and> hID e \<ge> qBeforeID q then indexWalk u h q limit own' gaps' result
           else if qAfter q \<noteq> 0 \<and> \<not> entryEnd e > qAfter q then (result, True)
           else indexWalk u h q limit own' gaps' (if matchesEntry u q e then result @ [e] else result)))"
  by pat_completeness auto
termination
  by (relation "measure (\<lambda>(_, h, _, _, own, gaps, _). cursorLeft own + cursorLeft gaps)")
    (auto simp: advance_left Let_def)

declare indexWalk.simps [simp del]

definition listByResource :: "unicode \<Rightarrow> historyQuery \<Rightarrow> nat \<Rightarrow> history \<Rightarrow> historyEntry list \<times> bool" where
  "listByResource u q limit h = (let
      own = newCursor (qResourceID q) (\<lambda>e. about e (qResourceID q)) h;
      gaps = (if wantsKind q KindGap then newCursor [] (\<lambda>e. hKind e = KindGap) h else emptyCursor)
    in indexWalk u h q limit own gaps [])"

definition ListHistory :: "unicode \<Rightarrow> historyQuery \<Rightarrow> history \<Rightarrow> historyEntry list" where
  "ListHistory u q0 h = (let
      q = prepared u q0;
      limit = (if qLimit q \<le> 0 then 50 else nat (qLimit q));
      scan = scanWalk u q limit (newestFirst h) []
    in if qResourceID q \<noteq> [] \<and> qMembers q = [] then
         (case listByResource u q limit h of (found, complete) \<Rightarrow> if complete then found else scan)
       else scan)"

section \<open>The ring and the log\<close>

definition ring_wf :: "history \<Rightarrow> bool" where
  "ring_wf h \<longleftrightarrow> 0 < hsSize h \<and> length (hsEntries h) = hsSize h \<and> hsCursor h < hsSize h"

definition slots :: "history \<Rightarrow> nat list" where
  "slots h = map (slotAt h) [0..<occupied h]"

lemma newestFirst_slots: "newestFirst h = map (\<lambda>p. hsEntries h ! p) (slots h)"
  by (simp add: newestFirst_def slots_def)

lemma slotAt_bound: "ring_wf h \<Longrightarrow> i < occupied h \<Longrightarrow> slotAt h i < hsSize h"
  by (auto simp: ring_wf_def slotAt_def occupied_def split: if_splits)

lemma slotAt_inj:
  assumes "ring_wf h" "i < occupied h" "j < occupied h" "slotAt h i = slotAt h j"
  shows "i = j"
  using assms by (auto simp: ring_wf_def slotAt_def occupied_def split: if_splits)

lemma slots_props:
  assumes "ring_wf h"
  shows "distinct (slots h)" "set (slots h) \<subseteq> {..<hsSize h}"
  using slotAt_inj [OF assms] slotAt_bound [OF assms]
  by (auto simp: slots_def distinct_map inj_on_def)

lemma slots_full:
  assumes "ring_wf h" "hsFull h"
  shows "slots h = butlast (slots h) @ [hsCursor h]"
proof -
  obtain n where n: "hsSize h = Suc n" using assms(1) by (cases "hsSize h") (auto simp: ring_wf_def)
  have "slotAt h n = hsCursor h" using assms(1) n by (auto simp: slotAt_def ring_wf_def)
  then show ?thesis using assms(2) n by (simp add: slots_def occupied_def)
qed

lemma slots_open:
  assumes "ring_wf h" "\<not> hsFull h"
  shows "hsCursor h \<notin> set (slots h)"
  using assms by (auto simp: slots_def slotAt_def occupied_def)

text \<open>What the newest entry leaves of the slots: all, or all but the one it reuses.\<close>

definition kept :: "history \<Rightarrow> nat list" where
  "kept h = (if hsFull h then butlast (slots h) else slots h)"

lemma kept_slots:
  assumes "ring_wf h"
  shows "hsCursor h \<notin> set (kept h)" "set (kept h) \<subseteq> set (slots h)"
    "slots h = kept h @ (if hsFull h then [hsCursor h] else [])"
proof -
  show split: "slots h = kept h @ (if hsFull h then [hsCursor h] else [])"
    using slots_full [OF assms] by (simp add: kept_def)
  have "distinct (kept h @ (if hsFull h then [hsCursor h] else []))"
    using slots_props(1) [OF assms] by (simp only: split [symmetric])
  then show "hsCursor h \<notin> set (kept h)"
    using slots_open [OF assms] by (cases "hsFull h") (simp_all add: kept_def)
  show "set (kept h) \<subseteq> set (slots h)" by (auto simp: kept_def dest: in_set_butlastD)
qed

lemma slots_step:
  assumes "ring_wf h" "hsSize h' = hsSize h" "hsCursor h' = hsCursor h" "hsFull h' = hsFull h"
  shows "slots (stepCursor h') = hsCursor h # kept h"
proof -
  obtain n where n: "hsSize h = Suc n" using assms(1) by (cases "hsSize h") (auto simp: ring_wf_def)
  let ?h = "stepCursor h'"
  have occ: "occupied ?h = Suc (if hsFull h then n else hsCursor h)"
    using assms n by (auto simp: occupied_def stepCursor_def ring_wf_def)
  have first: "slotAt ?h 0 = hsCursor h"
    using assms n by (auto simp: slotAt_def stepCursor_def ring_wf_def)
  have "slotAt ?h (Suc i) = slotAt h i" if "i < (if hsFull h then n else hsCursor h)" for i
    using assms n that by (auto simp: slotAt_def stepCursor_def ring_wf_def split: if_splits)
  then have "map (slotAt ?h) (map Suc [0..<(if hsFull h then n else hsCursor h)]) =
      map (slotAt h) [0..<(if hsFull h then n else hsCursor h)]"
    by simp
  moreover have "kept h = map (slotAt h) [0..<(if hsFull h then n else hsCursor h)]"
    using n by (simp add: kept_def slots_def occupied_def map_butlast [symmetric])
  ultimately show ?thesis
    unfolding slots_def occ by (simp only: upt_conv_Cons [of 0] zero_less_Suc list.map first map_Suc_upt [symmetric])
qed

lemma stepCursor_frame [simp]:
  "hsEntries (stepCursor h) = hsEntries h" "hsSize (stepCursor h) = hsSize h" "hsCount (stepCursor h) = hsCount h"
  "hsByResource (stepCursor h) = hsByResource h"
  by (simp_all add: stepCursor_def)

lemma stepCursor_wf: "ring_wf h \<Longrightarrow> ring_wf (stepCursor h)"
  by (auto simp: ring_wf_def stepCursor_def)

text \<open>Writing one entry: the step that \<open>Append\<close> and \<open>Restore\<close> share.\<close>

definition writeEntry :: "historyEntry \<Rightarrow> nat \<Rightarrow> indexRing gomap \<Rightarrow> history \<Rightarrow> history" where
  "writeEntry e cnt m h = stepCursor (h\<lparr>hsCount := cnt, hsEntries := (hsEntries h)[hsCursor h := e], hsByResource := m\<rparr>)"

lemma writeEntry_wf: "ring_wf h \<Longrightarrow> ring_wf (writeEntry e cnt m h)"
  unfolding writeEntry_def by (rule stepCursor_wf) (simp add: ring_wf_def)

lemma writeEntry_slots: "ring_wf h \<Longrightarrow> slots (writeEntry e cnt m h) = hsCursor h # kept h"
  unfolding writeEntry_def by (rule slots_step) simp_all

lemma writeEntry_entries:
  assumes "ring_wf h"
  shows "hsEntries (writeEntry e cnt m h) ! hsCursor h = e"
    and "p \<in> set (kept h) \<Longrightarrow> hsEntries (writeEntry e cnt m h) ! p = hsEntries h ! p"
  using assms kept_slots(1) [OF assms] by (auto simp: writeEntry_def ring_wf_def nth_list_update)

lemma writeEntry_newestFirst:
  assumes "ring_wf h"
  shows "newestFirst (writeEntry e cnt m h) = e # map (\<lambda>p. hsEntries h ! p) (kept h)"
  unfolding newestFirst_slots writeEntry_slots [OF assms] using writeEntry_entries [OF assms] by simp

definition holds_log :: "history \<Rightarrow> historyEntry list \<Rightarrow> bool" where
  "holds_log h lg \<longleftrightarrow> ring_wf h \<and> newestFirst h = rev (lastn (hsSize h) lg) \<and>
     sorted_wrt (<) (map hID lg) \<and> (\<forall>e \<in> set lg. hID e \<le> hsCount h)"

lemma holds_log_write:
  assumes "holds_log h lg" "\<forall>x \<in> set lg. hID x < hID e" "hID e \<le> cnt" "hsCount h \<le> cnt"
  shows "holds_log (writeEntry e cnt m h) (lg @ [e])"
proof -
  have wf: "ring_wf h" using assms(1) by (simp add: holds_log_def)
  have len: "length (slots h) = min (hsSize h) (length lg)"
    using arg_cong [OF assms(1) [unfolded holds_log_def, THEN conjunct2, THEN conjunct1], of length]
    by (simp add: newestFirst_slots rev_take_lastn)
  have nf: "map (\<lambda>p. hsEntries h ! p) (slots h) = take (hsSize h) (rev lg)"
    using assms(1) by (simp add: holds_log_def newestFirst_slots rev_take_lastn)
  have "map (\<lambda>p. hsEntries h ! p) (kept h) = take (hsSize h - 1) (rev lg)"
  proof (cases "hsFull h")
    case True
    then have "map (\<lambda>p. hsEntries h ! p) (kept h) = butlast (take (hsSize h) (rev lg))"
      using nf by (simp add: kept_def map_butlast)
    moreover have "hsSize h \<le> length lg" using len True wf by (simp add: slots_def occupied_def)
    ultimately show ?thesis using wf by (simp add: butlast_take ring_wf_def)
  next
    case False
    then have "length lg < hsSize h" using len wf by (auto simp: slots_def occupied_def ring_wf_def)
    then show ?thesis using nf False by (simp add: kept_def)
  qed
  then have "newestFirst (writeEntry e cnt m h) = rev (lastn (hsSize h) (lg @ [e]))"
    using wf by (simp add: writeEntry_newestFirst rev_take_lastn take_Cons' ring_wf_def)
  then show ?thesis
    using assms writeEntry_wf [OF wf] unfolding holds_log_def
    by (auto simp: sorted_wrt_append writeEntry_def)
qed

section \<open>The per-resource index\<close>

text \<open>\<open>ringHolds r X\<close>: \<open>X\<close> is everything ever pushed, newest first; the ring has the first 64 of it.\<close>

definition ringHolds :: "indexRing \<Rightarrow> nat list \<Rightarrow> bool" where
  "ringHolds r X \<longleftrightarrow> length (riIndices r) = indexRingSize \<and> riCursor r = length X mod indexRingSize \<and>
     (riFull r \<longleftrightarrow> indexRingSize \<le> length X) \<and> (\<forall>k < min indexRingSize (length X). ringAt r k = X ! k)"

lemma ringHolds_new: "ringHolds \<lparr>riIndices = replicate indexRingSize 0, riCursor = 0, riFull = False\<rparr> []"
  by (simp add: ringHolds_def indexRingSize_def)

lemma ringHolds_push:
  assumes "ringHolds r X"
  shows "ringHolds (push i r) (i # X)"
proof -
  let ?n = indexRingSize
  have n: "0 < ?n" by (simp add: indexRingSize_def)
  note r = assms [unfolded ringHolds_def]
  have c: "riCursor r < ?n" and len: "length (riIndices r) = ?n" using r n by simp_all
  have cur: "riCursor (push i r) = (riCursor r + 1) mod ?n"
    using r c by (cases "riCursor r + 1 = ?n") (simp_all add: push_def Let_def)
  have full: "riFull (push i r) \<longleftrightarrow> ?n \<le> length (i # X)"
  proof (cases "riCursor r + 1 = ?n")
    case True
    then have "?n \<le> length X + 1" using r n by (metis Suc_eq_plus1 Suc_leI mod_less_eq_dividend not_less_eq_eq)
    then show ?thesis using True r by (auto simp: push_def Let_def)
  next
    case False
    then have "length X + 1 \<noteq> ?n" using r n by (metis Suc_eq_plus1 lessI mod_less)
    then show ?thesis using False r c by (auto simp: push_def Let_def)
  qed
  have ind: "riIndices (push i r) = (riIndices r)[riCursor r := i]"
    by (simp add: push_def Let_def)
  have at0: "ringAt (push i r) 0 = i"
  proof (cases "riCursor r + 1 = ?n")
    case True
    then have "?n - 1 = riCursor r" by linarith
    then show ?thesis using True len c by (simp add: ringAt_def cur ind)
  qed (use len c in \<open>simp add: ringAt_def cur ind\<close>)
  have atS: "ringAt (push i r) (Suc k) = ringAt r k" if "Suc k < ?n" for k
  proof (cases "riCursor r + 1 = ?n")
    case True
    then have "?n - Suc (Suc k) = riCursor r - Suc k" by linarith
    then show ?thesis using True len c that by (auto simp: ringAt_def cur ind nth_list_update)
  qed (use len c that in \<open>auto simp: ringAt_def cur ind nth_list_update\<close>)
  have "ringAt (push i r) k = (i # X) ! k" if "k < min ?n (length (i # X))" for k
    using that r at0 atS by (cases k) auto
  then show ?thesis using r cur full ind n by (simp add: ringHolds_def mod_Suc_eq)
qed

lemma ringHolds_newest: "ringHolds r X \<Longrightarrow> X \<noteq> [] \<Longrightarrow> ri_newest r = hd X"
proof -
  assume r: "ringHolds r X" and X: "X \<noteq> []"
  have "ri_newest r = ringAt r 0" by (auto simp: ri_newest_def ringAt_def)
  then show ?thesis using r X by (auto simp: ringHolds_def indexRingSize_def hd_conv_nth)
qed

lemma ringHolds_total: "ringHolds r X \<Longrightarrow> ringTotal r = min indexRingSize (length X)"
  by (auto simp: ringHolds_def ringTotal_def)

text \<open>
  \<open>index_ok m A S\<close>: the index of \<open>i\<close> was pushed the live slots \<open>A i\<close> and, before them, slots that have
  been reused since; it is there exactly while a live slot is.
\<close>

definition index_at :: "indexRing option \<Rightarrow> nat list \<Rightarrow> nat set \<Rightarrow> bool" where
  "index_at ring L S = (case ring of
     None \<Rightarrow> L = []
   | Some r \<Rightarrow> L \<noteq> [] \<and> (\<exists>stale. ringHolds r (L @ stale) \<and> set stale \<subseteq> S))"

definition index_ok :: "indexRing gomap \<Rightarrow> (string \<Rightarrow> nat list) \<Rightarrow> nat set \<Rightarrow> bool" where
  "index_ok m A S \<longleftrightarrow> (\<forall>i. index_at (gget m i) (A i) S)"

lemma index_at_push:
  assumes "index_at ring L S"
  shows "index_at (Some (push p (case ring of Some r \<Rightarrow> r
    | None \<Rightarrow> \<lparr>riIndices = replicate indexRingSize 0, riCursor = 0, riFull = False\<rparr>))) (p # L) S"
proof (cases ring)
  case None
  then have "L = []" using assms by (simp add: index_at_def)
  then show ?thesis
    using None ringHolds_push [OF ringHolds_new, of p] by (auto simp: index_at_def intro!: exI [of _ "[]"])
next
  case (Some r)
  then obtain stale where "ringHolds r (L @ stale)" "set stale \<subseteq> S" using assms by (auto simp: index_at_def)
  then show ?thesis using Some ringHolds_push [of r "L @ stale" p] by (auto simp: index_at_def)
qed

lemma index_ok_push:
  assumes "index_ok m A S"
  shows "index_ok (indexUnder p i m) (A(i := p # A i)) S"
  using assms index_at_push [of "gget m i" "A i" S p]
  by (simp add: index_ok_def indexUnder_def)

text \<open>Dropping a slot: it is the oldest live one wherever it is indexed, and becomes stale there.\<close>

lemma index_ok_evict:
  assumes "index_ok m A S" "p \<in> S" "\<forall>i. A i = B i @ replicate (c i) p" "\<forall>i. p \<notin> set (B i)"
    and "\<forall>i. 0 < c i \<longrightarrow> i = a \<or> i = b"
  shows "index_ok (evictUnder p b (evictUnder p a m)) B S"
proof -
  have one: "gget (evictUnder p x m') i = (case gget m' i of
      Some r \<Rightarrow> if i = x \<and> ri_newest r = p then None else Some r | None \<Rightarrow> None)" for x i and m' :: "indexRing gomap"
    by (auto simp: evictUnder_def split: option.split)
  have get: "gget (evictUnder p b (evictUnder p a m)) i = (case gget m i of
      Some r \<Rightarrow> if (i = a \<or> i = b) \<and> ri_newest r = p then None else Some r | None \<Rightarrow> None)" for i
    by (auto simp: one split: option.splits)
  have "index_at (gget (evictUnder p b (evictUnder p a m)) i) (B i) S" for i
  proof (cases "gget m i")
    case None
    then have "A i = []" using assms(1) [unfolded index_ok_def, rule_format, of i] by (simp add: index_at_def)
    then show ?thesis using None get [of i] assms(3) [rule_format, of i] by (simp add: index_at_def)
  next
    case (Some r)
    obtain stale where X: "ringHolds r (A i @ stale)" "set stale \<subseteq> S" and ne: "A i \<noteq> []"
      using assms(1) [unfolded index_ok_def, rule_format, of i] Some by (auto simp: index_at_def)
    have newest: "ri_newest r = hd (A i)" using ringHolds_newest [OF X(1)] ne by simp
    have A: "A i = B i @ replicate (c i) p" using assms(3) by blast
    have iff: "ri_newest r = p \<longleftrightarrow> B i = []"
      using newest ne A assms(4) [rule_format, of i] by (cases "B i") (auto simp: hd_append hd_replicate)
    have "B i = [] \<Longrightarrow> i = a \<or> i = b" using assms(5) ne A by auto
    moreover have "\<exists>st. ringHolds r (B i @ st) \<and> set st \<subseteq> S"
      using X A assms(2) by (intro exI [of _ "replicate (c i) p @ stale"]) auto
    ultimately show ?thesis using get [of i] Some iff by (cases "B i = []") (simp_all add: index_at_def)
  qed
  then show ?thesis by (simp add: index_ok_def)
qed

section \<open>The index follows the ring\<close>

definition pushes :: "string \<Rightarrow> historyEntry \<Rightarrow> nat" where
  "pushes i e = (if hKind e = KindAnnotation then 0
     else (if hResourceID e = i then 1 else 0) + (if hServiceID e \<noteq> [] \<and> hServiceID e = i then 1 else 0))"

definition live :: "historyEntry list \<Rightarrow> nat list \<Rightarrow> string \<Rightarrow> nat list" where
  "live es ps i = concat (map (\<lambda>p. replicate (pushes i (es ! p)) p) ps)"

definition history_ok :: "history \<Rightarrow> bool" where
  "history_ok h \<longleftrightarrow> ring_wf h \<and> index_ok (hsByResource h) (live (hsEntries h) (slots h)) (set (slots h))"

lemma index_ok_entry:
  assumes "index_ok m A S" "hKind e \<noteq> KindAnnotation"
  shows "index_ok (indexEntry e p m) (\<lambda>i. replicate (pushes i e) p @ A i) S"
proof -
  have 1: "index_ok (indexUnder p (hResourceID e) m) (A(hResourceID e := p # A (hResourceID e))) S"
    using assms(1) by (rule index_ok_push)
  show ?thesis
  proof (cases "hServiceID e = []")
    case True
    then have "(\<lambda>i. replicate (pushes i e) p @ A i) = A(hResourceID e := p # A (hResourceID e))"
      using assms(2) by (auto simp: pushes_def fun_eq_iff)
    then show ?thesis using 1 True by (simp add: indexEntry_def Let_def)
  next
    case False
    let ?A = "A(hResourceID e := p # A (hResourceID e))"
    have "(\<lambda>i. replicate (pushes i e) p @ A i) = ?A(hServiceID e := p # ?A (hServiceID e))"
      using assms(2) False by (auto simp: pushes_def fun_eq_iff)
    then show ?thesis using index_ok_push [OF 1] False by (simp add: indexEntry_def Let_def)
  qed
qed

lemma live_cong: "(\<And>p. p \<in> set ps \<Longrightarrow> es ! p = es' ! p) \<Longrightarrow> live es ps = live es' ps"
  by (auto simp: live_def fun_eq_iff intro!: arg_cong [where f = concat] map_cong)

lemma history_ok_write:
  assumes "ring_wf h" "index_ok m (live (hsEntries h) (kept h)) (insert (hsCursor h) (set (kept h)))"
    and "m' = (if hKind e \<noteq> KindAnnotation then indexEntry e (hsCursor h) m else m)"
  shows "history_ok (writeEntry e cnt m' h)"
proof -
  let ?h = "writeEntry e cnt m' h" let ?p = "hsCursor h"
  have "live (hsEntries ?h) (kept h) = live (hsEntries h) (kept h)"
    using writeEntry_entries(2) [OF assms(1)] by (intro live_cong) blast
  then have L: "live (hsEntries ?h) (slots ?h) = (\<lambda>i. replicate (pushes i e) ?p @ live (hsEntries h) (kept h) i)"
    by (simp add: writeEntry_slots [OF assms(1)] fun_eq_iff writeEntry_entries(1) [OF assms(1)] live_def)
  have S: "set (slots ?h) = insert ?p (set (kept h))" by (simp add: writeEntry_slots [OF assms(1)])
  have M: "hsByResource ?h = m'" by (simp add: writeEntry_def)
  have "index_ok m' (\<lambda>i. replicate (pushes i e) ?p @ live (hsEntries h) (kept h) i) (insert ?p (set (kept h)))"
    using index_ok_entry [OF assms(2), of e ?p] assms(2,3) by (cases "hKind e = KindAnnotation") (auto simp: pushes_def)
  then show ?thesis
    unfolding history_ok_def M L S using writeEntry_wf [OF assms(1)] by simp
qed

section \<open>Every write keeps the history well-formed\<close>

definition appended :: "int \<Rightarrow> historyEntry \<Rightarrow> history \<Rightarrow> historyEntry" where
  "appended now e h = e\<lparr>hID := hsCount h + 1, hKind := (if hKind e = [] then KindChange else hKind e),
     hTimestamp := (if hTimestamp e = 0 then now else hTimestamp e)\<rparr>"

lemma live_append: "live es (ps @ qs) i = live es ps i @ live es qs i"
  by (simp add: live_def)

lemma Append_write:
  assumes "history_ok h"
  shows "\<exists>m. snd (Append now e h) = writeEntry (appended now e h) (hsCount h + 1) m h \<and>
    history_ok (writeEntry (appended now e h) (hsCount h + 1) m h)"
proof -
  have wf: "ring_wf h" and ix: "index_ok (hsByResource h) (live (hsEntries h) (slots h)) (set (slots h))"
    using assms by (auto simp: history_ok_def)
  let ?p = "hsCursor h" let ?e = "appended now e h" let ?x = "hsEntries h ! ?p"
  let ?m1 = "if hsFull h then evictUnder ?p (hServiceID ?x) (evictUnder ?p (hResourceID ?x) (hsByResource h)) else hsByResource h"
  let ?m2 = "if hKind ?e \<noteq> KindAnnotation then indexEntry ?e ?p ?m1 else ?m1"
  have "index_ok ?m1 (live (hsEntries h) (kept h)) (insert ?p (set (kept h)))"
  proof (cases "hsFull h")
    case True
    have split: "slots h = kept h @ [?p]" using kept_slots(3) [OF wf] True by simp
    have "index_ok (evictUnder ?p (hServiceID ?x) (evictUnder ?p (hResourceID ?x) (hsByResource h)))
        (live (hsEntries h) (kept h)) (set (slots h))"
    proof (rule index_ok_evict [OF ix, where c = "\<lambda>i. pushes i ?x"])
      show "?p \<in> set (slots h)" using split by simp
      show "\<forall>i. live (hsEntries h) (slots h) i = live (hsEntries h) (kept h) i @ replicate (pushes i ?x) ?p"
        unfolding split by (simp add: live_append) (simp add: live_def)
      show "\<forall>i. ?p \<notin> set (live (hsEntries h) (kept h) i)"
        using kept_slots(1) [OF wf] by (auto simp: live_def)
      show "\<forall>i. 0 < pushes i ?x \<longrightarrow> i = hResourceID ?x \<or> i = hServiceID ?x"
        by (auto simp: pushes_def split: if_splits)
    qed
    then show ?thesis using True split by simp
  next
    case False
    then have "slots h = kept h" by (simp add: kept_def)
    then show ?thesis
      using ix False unfolding index_ok_def index_at_def by (fastforce split: option.splits)
  qed
  then have "history_ok (writeEntry ?e (hsCount h + 1) ?m2 h)"
    by (rule history_ok_write [OF wf]) simp
  moreover have "snd (Append now e h) = writeEntry ?e (hsCount h + 1) ?m2 h"
    by (simp add: Append_def Let_def appended_def writeEntry_def)
  ultimately show ?thesis by blast
qed

lemma history_ok_Append [wf_intros]: "history_ok h \<Longrightarrow> history_ok (snd (Append now e h))"
  using Append_write by metis

lemma holds_log_Append:
  assumes "history_ok h" "holds_log h lg"
  shows "holds_log (snd (Append now e h)) (lg @ [appended now e h])"
proof -
  obtain m where m: "snd (Append now e h) = writeEntry (appended now e h) (hsCount h + 1) m h"
    using Append_write [OF assms(1)] by blast
  show ?thesis
    unfolding m using assms(2)
    by (intro holds_log_write) (auto simp: holds_log_def appended_def less_Suc_eq_le)
qed

lemma history_ok_New: "0 < n \<Longrightarrow> history_ok (NewHistory inst n)"
  by (simp add: history_ok_def ring_wf_def NewHistory_def index_ok_def index_at_def live_def slots_def occupied_def)

lemma holds_log_New: "0 < n \<Longrightarrow> holds_log (NewHistory inst n) []"
  by (simp add: holds_log_def ring_wf_def NewHistory_def newestFirst_def occupied_def lastn_def)

text \<open>\<open>Restore\<close> fills an empty ring with entries that all fit, so nothing is evicted on the way.\<close>

lemma restoreEntry_write:
  "restoreEntry e h = writeEntry e (hID e) (indexEntry e (hsCursor h) (hsByResource h)) h"
  by (simp add: restoreEntry_def writeEntry_def stepCursor_def)

lemma restoreEntry_ok:
  assumes "history_ok h" "\<not> hsFull h" "hKind e \<noteq> KindAnnotation"
  shows "history_ok (restoreEntry e h)"
proof -
  have wf: "ring_wf h" and ix: "index_ok (hsByResource h) (live (hsEntries h) (slots h)) (set (slots h))"
    using assms(1) by (auto simp: history_ok_def)
  have k: "kept h = slots h" using assms(2) by (simp add: kept_def)
  have "index_ok (hsByResource h) (live (hsEntries h) (kept h)) (insert (hsCursor h) (set (kept h)))"
    using ix unfolding k index_ok_def index_at_def by (fastforce split: option.splits)
  then show ?thesis
    unfolding restoreEntry_write by (rule history_ok_write [OF wf]) (simp add: assms(3))
qed

lemma restore_fold:
  assumes "history_ok h" "holds_log h lg" "\<not> hsFull h" "hsCursor h + length es \<le> hsSize h"
    and "\<forall>e \<in> set es. hKind e \<noteq> KindAnnotation" "sorted_wrt (<) (map hID (lg @ es))" "\<forall>e \<in> set es. hsCount h < hID e"
  shows "history_ok (fold restoreEntry es h) \<and> holds_log (fold restoreEntry es h) (lg @ es) \<and>
    hsSize (fold restoreEntry es h) = hsSize h"
  using assms
proof (induction es arbitrary: h lg)
  case (Cons e es)
  let ?h = "restoreEntry e h"
  have ok: "history_ok ?h" using Cons.prems(1,3,5) by (intro restoreEntry_ok) auto
  have lg: "holds_log ?h (lg @ [e])"
    unfolding restoreEntry_write using Cons.prems(2,6,7) by (intro holds_log_write) (auto simp: sorted_wrt_append)
  have cnt: "hsCount ?h = hID e" "hsSize ?h = hsSize h" by (simp_all add: restoreEntry_def)
  show ?case
  proof (cases "es = []")
    case True
    then show ?thesis using ok lg cnt by simp
  next
    case False
    then have "hsCursor h + 1 < hsSize h" using Cons.prems(4) by (cases es) auto
    then have "\<not> hsFull ?h" "hsCursor ?h = hsCursor h + 1"
      using Cons.prems(3) by (simp_all add: restoreEntry_def stepCursor_def)
    then show ?thesis
      using Cons.IH [OF ok lg] Cons.prems cnt by (auto simp: sorted_wrt_append)
  qed
qed auto

lemma sorted_le_last: "sorted_wrt (<) (map f xs) \<Longrightarrow> x \<in> set xs \<Longrightarrow> f x \<le> (f (last xs) :: nat)"
  by (induction xs) (auto simp: less_imp_le)

lemma Restore_ok:
  assumes "0 < n" "\<forall>e \<in> set es. hKind e \<noteq> KindAnnotation \<and> 0 < hID e" "sorted_wrt (<) (map hID es)"
  shows "history_ok (RestoreHistory es lastID inst (NewHistory inst' n))"
    and "holds_log (RestoreHistory es lastID inst (NewHistory inst' n)) es"
proof -
  let ?h0 = "(NewHistory inst' n)\<lparr>hsInstance := inst\<rparr>"
  define E where "E = lastn n es"
  define h1 where "h1 = fold restoreEntry E ?h0"
  have sub: "set E \<subseteq> set es" unfolding E_def by (rule set_lastn)
  have h0: "history_ok ?h0" "holds_log ?h0 []" "\<not> hsFull ?h0" "hsCursor ?h0 + length E \<le> hsSize ?h0" "hsCount ?h0 = 0"
    using assms(1) history_ok_New [of n inst] holds_log_New [of n inst]
    by (simp_all add: NewHistory_def E_def length_lastn)
  have E: "sorted_wrt (<) (map hID E)"
    using assms(3) by (simp add: E_def lastn_def drop_map [symmetric] sorted_wrt_drop)
  have "\<forall>e \<in> set E. hKind e \<noteq> KindAnnotation" "\<forall>e \<in> set E. hsCount ?h0 < hID e"
    using assms(2) sub h0(5) by auto
  then have F: "history_ok h1" "holds_log h1 E" "hsSize h1 = n"
    using restore_fold [OF h0(1-4)] E by (simp_all add: h1_def) (simp add: NewHistory_def)
  let ?h = "RestoreHistory es lastID inst (NewHistory inst' n)"
  have "(if length es > hsSize (NewHistory inst' n) then drop (length es - hsSize (NewHistory inst' n)) es else es) = E"
    "hsSize (NewHistory inst' n) = n"
    by (simp_all add: NewHistory_def E_def lastn_def)
  then have h: "?h = h1\<lparr>hsCount := max (hsCount h1) lastID + n\<rparr>"
    by (simp only: RestoreHistory_def Let_def h1_def)
  have same: "hsEntries ?h = hsEntries h1" "slots ?h = slots h1" "newestFirst ?h = newestFirst h1" "hsSize ?h = n"
    unfolding h using F(3) by (simp_all add: slots_def slotAt_def occupied_def newestFirst_def)
  show "history_ok ?h" using F(1) unfolding history_ok_def same by (simp add: h ring_wf_def)
  have "hID e \<le> hsCount h1" if "e \<in> set es" for e
  proof -
    have "es \<noteq> []" using that by auto
    then have ne: "length es - n < length es" using assms(1) by simp
    then have "last es \<in> set E"
      using last_in_set [of E] by (simp add: E_def lastn_def del: diff_less)
    moreover have "hID e \<le> hID (last es)" using assms(3) that by (rule sorted_le_last)
    ultimately show ?thesis using F(2) by (auto simp: holds_log_def dest!: bspec)
  qed
  then show "holds_log ?h es"
    using F(2,3) assms(3) unfolding holds_log_def same
    by (auto simp: h ring_wf_def E_def lastn_def le_max_iff_disj trans_le_add1)
qed

section \<open>Replay\<close>

text \<open>
  \<open>recorded n h lg\<close>: a ring of \<open>n\<close> slots, fresh or restored from stored entries, that was then appended
  to; \<open>lg\<close> is everything it was given, in order. Gaps name no resource, as \<open>notify\<close> records them.
\<close>

definition gap_clean :: "historyEntry \<Rightarrow> bool" where
  "gap_clean e \<longleftrightarrow> (hKind e = KindGap \<longrightarrow> hResourceID e = [] \<and> hServiceID e = [])"

inductive recorded :: "nat \<Rightarrow> history \<Rightarrow> historyEntry list \<Rightarrow> bool" where
  fresh: "0 < n \<Longrightarrow> recorded n (NewHistory inst n) []"
| restored: "0 < n \<Longrightarrow> \<forall>e \<in> set es. hKind e \<noteq> KindAnnotation \<and> 0 < hID e \<and> gap_clean e \<Longrightarrow>
    sorted_wrt (<) (map hID es) \<Longrightarrow> recorded n (RestoreHistory es lastID inst (NewHistory inst' n)) es"
| append: "recorded n h lg \<Longrightarrow> gap_clean e \<Longrightarrow> recorded n (snd (Append now e h)) (lg @ [appended now e h])"

lemma recorded_ok:
  assumes "recorded n h lg"
  shows "history_ok h" "holds_log h lg" "\<forall>e \<in> set lg. gap_clean e" "hsSize h = n"
proof -
  have "history_ok h \<and> holds_log h lg \<and> (\<forall>e \<in> set lg. gap_clean e) \<and> hsSize h = n"
    using assms
  proof (induction rule: recorded.induct)
    case (fresh n inst)
    then show ?case using history_ok_New holds_log_New by (simp add: NewHistory_def)
  next
    case (restored n es lastID inst inst')
    have "hsSize (fold restoreEntry es' h') = hsSize h'" for es' h'
      by (induction es' arbitrary: h') (simp_all add: restoreEntry_def)
    then show ?case using restored Restore_ok [of n es lastID inst inst']
      by (simp add: RestoreHistory_def Let_def) (simp add: NewHistory_def)
  next
    case (append n h lg e now)
    obtain m where "snd (Append now e h) = writeEntry (appended now e h) (hsCount h + 1) m h"
      using Append_write append.IH by blast
    then have "hsSize (snd (Append now e h)) = n" using append.IH by (simp add: writeEntry_def)
    then show ?case
      using append.IH append.hyps(2) history_ok_Append holds_log_Append
      by (auto simp: gap_clean_def appended_def KindGap_def KindChange_def)
  qed
  then show "history_ok h" "holds_log h lg" "\<forall>e \<in> set lg. gap_clean e" "hsSize h = n" by blast+
qed

lemma takeWhile_sorted_filter:
  "sorted_wrt (>) (map f xs) \<Longrightarrow> takeWhile (\<lambda>e. \<not> f e \<le> (a :: nat)) xs = filter (\<lambda>e. a < f e) xs"
proof (induction xs)
  case (Cons x xs)
  have "\<not> a < f x \<Longrightarrow> filter (\<lambda>e. a < f e) xs = []"
    using Cons.prems by (fastforce simp: filter_empty_conv)
  then show ?case using Cons by (simp add: not_le)
qed simp

lemma newestFirst_sorted:
  assumes "holds_log h lg"
  shows "sorted_wrt (>) (map hID (newestFirst h))"
proof -
  have "sorted_wrt (<) (map hID (lastn (hsSize h) lg))"
    using assms by (simp add: holds_log_def lastn_def drop_map [symmetric] sorted_wrt_drop)
  then show ?thesis using assms by (simp add: holds_log_def rev_map [symmetric] sorted_wrt_rev)
qed

lemma oldest_entry:
  assumes "ring_wf h" "newestFirst h \<noteq> []"
  shows "hsEntries h ! (if hsFull h then hsCursor h else 0) = last (newestFirst h)"
proof (cases "hsFull h")
  case True
  have "last (slots h) = hsCursor h" by (subst slots_full [OF assms(1) True]) simp
  moreover have "slots h \<noteq> []" using assms(2) by (auto simp: newestFirst_slots)
  ultimately show ?thesis using True by (simp add: newestFirst_slots last_map)
next
  case False
  then obtain k where k: "hsCursor h = Suc k"
    using assms(2) by (cases "hsCursor h") (auto simp: newestFirst_def occupied_def)
  then show ?thesis using False by (simp add: newestFirst_def occupied_def slotAt_def)
qed

lemma Since_exact:
  assumes "recorded n h lg" "Since afterID h = (result, True)"
  shows "result = filter (\<lambda>e. afterID < hID e) lg \<and> afterID \<le> hsCount h"
proof -
  note R = recorded_ok [OF assms(1)]
  have lg: "sorted_wrt (<) (map hID lg)" "\<forall>e \<in> set lg. hID e \<le> hsCount h" and wf: "ring_wf h"
    and nf: "newestFirst h = rev (lastn n lg)" and pos: "0 < n"
    using R(2,4) by (auto simp: holds_log_def ring_wf_def)
  show ?thesis
  proof (cases "afterID < hsCount h")
    case False
    then have "result = []" "afterID = hsCount h" using assms(2) by (auto simp: Since_def split: if_splits)
    then show ?thesis using lg(2) by (auto simp: filter_empty_conv not_less)
  next
    case True
    have res: "result = rev (filter (\<lambda>e. afterID < hID e) (newestFirst h))"
      and com: "hID (hsEntries h ! (if hsFull h then hsCursor h else 0)) \<le> afterID + 1"
      using True assms(2) takeWhile_sorted_filter [OF newestFirst_sorted [OF R(2)]]
      by (auto simp: Since_def Let_def)
    have "filter (\<lambda>e. afterID < hID e) (take (length lg - n) lg) = []"
    proof (cases "length lg \<le> n")
      case False
      then have ne: "lastn n lg \<noteq> []" using pos by (simp add: lastn_def)
      then have "hID (hd (lastn n lg)) \<le> afterID + 1"
        using com oldest_entry [OF wf] nf by (simp add: last_rev)
      moreover have "hID e < hID (hd (lastn n lg))" if "e \<in> set (take (length lg - n) lg)" for e
      proof -
        have "sorted_wrt (<) (map hID (take (length lg - n) lg @ lastn n lg))" using lg(1) by (simp add: lastn_def)
        then show ?thesis using that ne hd_in_set [OF ne] by (simp add: sorted_wrt_append)
      qed
      ultimately show ?thesis by (fastforce simp: filter_empty_conv)
    qed simp
    moreover have "filter (\<lambda>e. afterID < hID e) lg =
        filter (\<lambda>e. afterID < hID e) (take (length lg - n) lg) @ filter (\<lambda>e. afterID < hID e) (lastn n lg)"
      unfolding lastn_def filter_append [symmetric] by simp
    ultimately show ?thesis using res nf True by (simp add: rev_filter [symmetric])
  qed
qed

text \<open>
  C10. Replay is complete or says so: a client that asks for what happened after an ID it has seen gets
  exactly the entries recorded after it, in order, whenever the answer is marked complete; it is
  marked incomplete for an ID not handed out yet.
\<close>

theorem Since_complete:
  assumes "recorded n h lg" "Since afterID h = (result, True)"
  shows "result = filter (\<lambda>e. afterID < hID e) lg \<and> afterID \<le> hsCount h"
  using assms by (rule Since_exact)

definition ex_change :: historyEntry where
  "ex_change = zeroEntry\<lparr>hType := Some EventNode, hAction := ''update'', hResourceID := ''n1''\<rparr>"

lemma ex_recorded:
  "recorded 1 (snd (Append 7 ex_change (NewHistory ''i'' 1))) [appended 7 ex_change (NewHistory ''i'' 1)]"
proof -
  have "gap_clean ex_change" by (simp add: gap_clean_def ex_change_def zeroEntry_def KindGap_def)
  from append [OF fresh this, of 1 7 "''i''"] show ?thesis by simp
qed

theorem Since_complete_witness:
  "[appended 7 ex_change (NewHistory ''i'' 1)] =
     filter (\<lambda>e. 0 < hID e) [appended 7 ex_change (NewHistory ''i'' 1)]"
proof -
  have "Since 0 (snd (Append 7 ex_change (NewHistory ''i'' 1))) = ([appended 7 ex_change (NewHistory ''i'' 1)], True)"
    by (simp add: Since_def newestFirst_def occupied_def slotAt_def Append_def NewHistory_def stepCursor_def
        Let_def appended_def ex_change_def zeroEntry_def KindAnnotation_def KindChange_def)
  from Since_complete [OF ex_recorded this] show ?thesis by blast
qed

end
