(* ===== verification/History_List.thy ===== *)
theory History_List
  imports History
begin

text \<open>
  The two paths of \<open>History.List\<close> agree. The cursors over the per-resource index are shown to yield the
  entries of a resource newest first, all of them or (once the index has wrapped) a prefix; the merge
  of two such sequences is shown to answer as the scan of the whole ring whenever it reports that it
  answered the whole question.
\<close>

section \<open>What a cursor yields\<close>

fun yields :: "historyEntry list \<Rightarrow> (historyEntry \<Rightarrow> bool) \<Rightarrow> nat list \<Rightarrow> nat \<Rightarrow> historyEntry list" where
  "yields es B [] lst = []"
| "yields es B (p # ps) lst =
     (if B (es ! p) \<and> hID (es ! p) < lst then es ! p # yields es B ps (hID (es ! p)) else yields es B ps lst)"

definition ringList :: "indexRing \<Rightarrow> nat list" where
  "ringList r = map (ringAt r) [0..<ringTotal r]"

text \<open>What is left of a cursor, its head included.\<close>

definition cursorRest :: "historyEntry list \<Rightarrow> indexCursor \<Rightarrow> historyEntry list" where
  "cursorRest es c = (if icOk c then icHead c # (case icRing c of
     None \<Rightarrow> [] | Some r \<Rightarrow> yields es (icBelongs c) (drop (icVisited c) (ringList r)) (icLast c)) else [])"

lemma drop_ringList:
  "k < ringTotal r \<Longrightarrow> drop k (ringList r) = ringAt r k # drop (Suc k) (ringList r)"
  by (simp add: ringList_def Cons_nth_drop_Suc [symmetric])

lemma advanceLoop_rest:
  "\<not> icOk c \<Longrightarrow> icRing c = Some r \<Longrightarrow>
     cursorRest es (advanceLoop es r c) = yields es (icBelongs c) (drop (icVisited c) (ringList r)) (icLast c) \<and>
     icRing (advanceLoop es r c) = Some r \<and> icWhole (advanceLoop es r c) = icWhole c"
proof (induction es r c rule: advanceLoop.induct)
  case (1 es r c)
  let ?e = "es ! ringAt r (icVisited c)" let ?c = "c\<lparr>icVisited := icVisited c + 1\<rparr>"
  consider "\<not> icVisited c < ringTotal r" | "icVisited c < ringTotal r" "icBelongs c ?e" "hID ?e < icLast c"
    | "icVisited c < ringTotal r" "\<not> icBelongs c ?e \<or> \<not> hID ?e < icLast c" by blast
  then show ?case
  proof cases
    case 1
    then show ?thesis using "1.prems" by (simp add: advanceLoop_done cursorRest_def ringList_def)
  next
    case 2
    then show ?thesis using "1.prems" by (simp add: advanceLoop_take cursorRest_def drop_ringList)
  next
    case 3
    then have "\<not> (icBelongs c ?e \<and> hID ?e < icLast c)" by blast
    then show ?thesis
      using "1.IH" [OF 3(1) refl refl] "1.prems" advanceLoop_skip [OF 3(1) refl 3(2)] 3(1)
      by (auto simp: drop_ringList)
  qed
qed

lemma advance_rest:
  "icRing c = None \<longrightarrow> \<not> icOk c \<Longrightarrow> icOk c \<Longrightarrow>
     cursorRest (hsEntries h) (advance h c) = tl (cursorRest (hsEntries h) c) \<and>
     icWhole (advance h c) = icWhole c \<and> (icRing (advance h c) = None \<longrightarrow> \<not> icOk (advance h c))"
  using advanceLoop_rest [of "c\<lparr>icOk := False\<rparr>" _ "hsEntries h"]
  by (auto simp: advance_def cursorRest_def [of _ c] split: option.split)

lemma newCursor_rest:
  "cursorRest (hsEntries h) (newCursor i B h) = (case gget (hsByResource h) i of
     None \<Rightarrow> [] | Some r \<Rightarrow> yields (hsEntries h) B (ringList r) maxUint64)"
  "icWhole (newCursor i B h) = (case gget (hsByResource h) i of None \<Rightarrow> True | Some r \<Rightarrow> \<not> riFull r)"
  "icRing (newCursor i B h) = None \<longrightarrow> \<not> icOk (newCursor i B h)"
proof -
  let ?c = "\<lambda>ring w. \<lparr>icRing = ring, icBelongs = B, icVisited = 0, icLast = maxUint64, icHead = zeroEntry, icOk = False, icWhole = w\<rparr>"
  have "cursorRest (hsEntries h) (newCursor i B h) = (case gget (hsByResource h) i of
      None \<Rightarrow> [] | Some r \<Rightarrow> yields (hsEntries h) B (ringList r) maxUint64) \<and>
    icWhole (newCursor i B h) = (case gget (hsByResource h) i of None \<Rightarrow> True | Some r \<Rightarrow> \<not> riFull r) \<and>
    (icRing (newCursor i B h) = None \<longrightarrow> \<not> icOk (newCursor i B h))"
  proof (cases "gget (hsByResource h) i")
    case None
    then show ?thesis by (simp add: newCursor_def advance_def cursorRest_def)
  next
    case (Some r)
    then show ?thesis
      using advanceLoop_rest [of "?c (Some r) (\<not> riFull r)" r "hsEntries h"] by (simp add: newCursor_def advance_def Let_def)
  qed
  then show "cursorRest (hsEntries h) (newCursor i B h) = (case gget (hsByResource h) i of
     None \<Rightarrow> [] | Some r \<Rightarrow> yields (hsEntries h) B (ringList r) maxUint64)"
    "icWhole (newCursor i B h) = (case gget (hsByResource h) i of None \<Rightarrow> True | Some r \<Rightarrow> \<not> riFull r)"
    "icRing (newCursor i B h) = None \<longrightarrow> \<not> icOk (newCursor i B h)" by blast+
qed

lemma yields_prefix: "prefix (yields es B ps lst) (yields es B (ps @ qs) lst)"
  by (induction ps arbitrary: lst) auto

lemma yields_take: "prefix (yields es B (take n X) lst) (yields es B X lst)"
  using yields_prefix [of es B "take n X" lst "drop n X"] by (simp only: append_take_drop_id)

lemma yields_skip:
  "\<forall>p \<in> set ps. \<not> B (es ! p) \<or> \<not> hID (es ! p) < lst \<Longrightarrow> yields es B (ps @ qs) lst = yields es B qs lst"
  by (induction ps) auto

text \<open>Walking the live slots and then the stale ones yields every entry that belongs, once.\<close>

lemma yields_live:
  assumes "sorted_wrt (>) (map (\<lambda>p. hID (es ! p)) ps)" "\<forall>p \<in> set ps. hID (es ! p) < lst"
    and "\<forall>p \<in> set ps. B (es ! p) \<longrightarrow> 0 < pushes i (es ! p)"
    and "\<forall>p \<in> set stale. B (es ! p) \<longrightarrow> p \<in> set ps \<or> \<not> hID (es ! p) < lst"
  shows "yields es B (live es ps i @ stale) lst = filter B (map (\<lambda>p. es ! p) ps)"
  using assms
proof (induction ps arbitrary: lst)
  case Nil
  then show ?case using yields_skip [of stale B es lst "[]"] by (auto simp: live_def)
next
  case (Cons p ps)
  let ?e = "es ! p"
  have live: "live es (p # ps) i = replicate (pushes i ?e) p @ live es ps i" by (simp add: live_def)
  have below: "\<forall>q \<in> set ps. hID (es ! q) < hID ?e" using Cons.prems(1) by simp
  show ?case
  proof (cases "B ?e")
    case True
    then obtain k where k: "pushes i ?e = Suc k" using Cons.prems(3) by (cases "pushes i ?e") auto
    have "\<forall>q \<in> set stale. B (es ! q) \<longrightarrow> q \<in> set ps \<or> \<not> hID (es ! q) < hID ?e"
      using Cons.prems(2,4) by fastforce
    then have "yields es B (live es ps i @ stale) (hID ?e) = filter B (map (\<lambda>p. es ! p) ps)"
      using Cons.IH [of "hID ?e"] Cons.prems below by simp
    moreover have "yields es B (replicate k p @ live es ps i @ stale) (hID ?e) = yields es B (live es ps i @ stale) (hID ?e)"
      by (rule yields_skip) simp
    ultimately show ?thesis using True Cons.prems(2) k by (simp add: live)
  next
    case False
    have "\<forall>q \<in> set stale. B (es ! q) \<longrightarrow> q \<in> set ps \<or> \<not> hID (es ! q) < lst"
      using Cons.prems(4) False by auto
    then have "yields es B (live es ps i @ stale) lst = filter B (map (\<lambda>p. es ! p) ps)"
      using Cons.IH [of lst] Cons.prems by simp
    moreover have "yields es B (replicate (pushes i ?e) p @ live es ps i @ stale) lst = yields es B (live es ps i @ stale) lst"
      using False by (intro yields_skip) simp
    ultimately show ?thesis using False by (simp add: live)
  qed
qed

lemma ringList_holds:
  assumes "ringHolds r X"
  shows "ringList r = take indexRingSize X" "\<not> riFull r \<Longrightarrow> ringList r = X"
proof -
  show *: "ringList r = take indexRingSize X"
    using assms ringHolds_total [OF assms] unfolding ringList_def
    by (intro nth_equalityI) (auto simp: ringHolds_def)
  show "\<not> riFull r \<Longrightarrow> ringList r = X" using assms * by (simp add: ringHolds_def)
qed

lemma cursor_yields:
  assumes "history_ok h" "holds_log h lg" "hsCount h < maxUint64"
    and "\<forall>e \<in> set (newestFirst h). B e \<longrightarrow> 0 < pushes i e"
  shows "prefix (cursorRest (hsEntries h) (newCursor i B h)) (filter B (newestFirst h))"
    and "icWhole (newCursor i B h) \<Longrightarrow> cursorRest (hsEntries h) (newCursor i B h) = filter B (newestFirst h)"
proof -
  let ?es = "hsEntries h" let ?ps = "slots h"
  have nf: "newestFirst h = map (\<lambda>p. ?es ! p) ?ps" by (rule newestFirst_slots)
  have sorted: "sorted_wrt (>) (map (\<lambda>p. hID (?es ! p)) ?ps)"
    using newestFirst_sorted [OF assms(2)] by (simp add: nf comp_def)
  have "set (newestFirst h) \<subseteq> set lg"
    using assms(2) set_lastn [of "hsSize h" lg] by (auto simp: holds_log_def)
  then have bound: "\<forall>p \<in> set ?ps. hID (?es ! p) < maxUint64"
    using assms(2,3) nf by (fastforce simp: holds_log_def)
  have pushed: "\<forall>p \<in> set ?ps. B (?es ! p) \<longrightarrow> 0 < pushes i (?es ! p)" using assms(4) nf by auto
  have ix: "index_at (gget (hsByResource h) i) (live ?es ?ps i) (set ?ps)"
    using assms(1) by (auto simp: history_ok_def index_ok_def)
  have "prefix (cursorRest ?es (newCursor i B h)) (filter B (newestFirst h)) \<and>
    (icWhole (newCursor i B h) \<longrightarrow> cursorRest ?es (newCursor i B h) = filter B (newestFirst h))"
  proof (cases "gget (hsByResource h) i")
    case None
    then have "live ?es ?ps i = []" using ix by (simp add: index_at_def)
    then have "filter B (newestFirst h) = []"
      using yields_live [OF sorted bound pushed, of "[]"] nf by simp
    then show ?thesis using None newCursor_rest [where h = h and i = i and B = B] by simp
  next
    case (Some r)
    then obtain stale where X: "ringHolds r (live ?es ?ps i @ stale)" "set stale \<subseteq> set ?ps"
      using ix by (auto simp: index_at_def)
    have all: "yields ?es B (live ?es ?ps i @ stale) maxUint64 = filter B (newestFirst h)"
      using yields_live [OF sorted bound pushed, of stale] X(2) nf by auto
    let ?X = "live ?es ?ps i @ stale"
    have "prefix (yields ?es B (take indexRingSize ?X) maxUint64) (yields ?es B ?X maxUint64)"
      by (rule yields_take)
    then show ?thesis
      using Some newCursor_rest [where h = h and i = i and B = B] ringList_holds [OF X(1)] all by simp
  qed
  then show "prefix (cursorRest (hsEntries h) (newCursor i B h)) (filter B (newestFirst h))"
    "icWhole (newCursor i B h) \<Longrightarrow> cursorRest (hsEntries h) (newCursor i B h) = filter B (newestFirst h)" by blast+
qed

section \<open>The merge answers as the scan\<close>

text \<open>The loop of \<open>listByResource\<close> over what the two cursors yield.\<close>

function mergeWalk :: "unicode \<Rightarrow> historyQuery \<Rightarrow> nat \<Rightarrow> historyEntry list \<Rightarrow> bool \<Rightarrow> historyEntry list \<Rightarrow> bool \<Rightarrow>
    historyEntry list \<Rightarrow> historyEntry list \<times> bool" where
  "mergeWalk u q limit own ow gaps gw result =
     (if \<not> length result < limit then (result, True)
      else if own = [] \<and> \<not> ow \<or> gaps = [] \<and> \<not> gw then (result, False)
      else if own = [] \<and> gaps = [] then (result, True)
      else (let
          useOwn = (own \<noteq> [] \<and> (gaps = [] \<or> hID (hd own) > hID (hd gaps)));
          e = (if useOwn then hd own else hd gaps);
          own' = (if useOwn then tl own else own);
          gaps' = (if useOwn then gaps else tl gaps)
        in if qBeforeID q \<noteq> 0 \<and> hID e \<ge> qBeforeID q then mergeWalk u q limit own' ow gaps' gw result
           else if qAfter q \<noteq> 0 \<and> \<not> entryEnd e > qAfter q then (result, True)
           else mergeWalk u q limit own' ow gaps' gw (if matchesEntry u q e then result @ [e] else result)))"
  by pat_completeness auto
termination
  by (relation "measure (\<lambda>(_, _, _, own, _, gaps, _, _). length own + length gaps)") (auto simp: Let_def)

declare mergeWalk.simps [simp del]

definition cursor_ok :: "indexCursor \<Rightarrow> bool" where
  "cursor_ok c \<longleftrightarrow> (icRing c = None \<longrightarrow> \<not> icOk c)"

lemma cursorRest_ok: "icOk c \<longleftrightarrow> cursorRest es c \<noteq> []" "icOk c \<Longrightarrow> hd (cursorRest es c) = icHead c"
  by (auto simp: cursorRest_def)

lemma indexWalk_merge:
  "cursor_ok own \<Longrightarrow> cursor_ok gaps \<Longrightarrow> indexWalk u h q limit own gaps result =
     mergeWalk u q limit (cursorRest (hsEntries h) own) (icWhole own) (cursorRest (hsEntries h) gaps) (icWhole gaps) result"
proof (induction u h q limit own gaps result rule: indexWalk.induct)
  case (1 u h q limit own gaps result)
  let ?o = "cursorRest (hsEntries h) own" let ?g = "cursorRest (hsEntries h) gaps"
  have ok: "icOk own \<longleftrightarrow> ?o \<noteq> []" "icOk gaps \<longleftrightarrow> ?g \<noteq> []" by (rule cursorRest_ok)+
  show ?case
  proof (cases "length result < limit \<and> (icOk own \<or> icWhole own) \<and> (icOk gaps \<or> icWhole gaps) \<and> (icOk own \<or> icOk gaps)")
    case False
    then show ?thesis using ok by (subst indexWalk.simps, subst mergeWalk.simps) auto
  next
    case True
    have pre: "length result < limit" "\<not> (\<not> icOk own \<and> \<not> icWhole own \<or> \<not> icOk gaps \<and> \<not> icWhole gaps)" "\<not> (\<not> icOk own \<and> \<not> icOk gaps)"
      using True by auto
    define useOwn where "useOwn \<longleftrightarrow> icOk own \<and> (\<not> icOk gaps \<or> hID (icHead own) > hID (icHead gaps))"
    have use: "(?o \<noteq> [] \<and> (?g = [] \<or> hID (hd ?o) > hID (hd ?g))) = useOwn"
      using ok cursorRest_ok(2) by (auto simp: useOwn_def)
    define e where "e = (if useOwn then icHead own else icHead gaps)"
    have okg: "\<not> useOwn \<Longrightarrow> icOk gaps" "useOwn \<Longrightarrow> icOk own" using pre(3) by (auto simp: useOwn_def)
    have e: "(if useOwn then hd ?o else hd ?g) = e" using okg cursorRest_ok(2) by (auto simp: e_def)
    define own' where "own' = (if useOwn then advance h own else own)"
    define gaps' where "gaps' = (if useOwn then gaps else advance h gaps)"
    have own': "cursorRest (hsEntries h) own' = (if useOwn then tl ?o else ?o)" "icWhole own' = icWhole own" "cursor_ok own'"
      using advance_rest [of own h] "1.prems"(1) okg by (auto simp: own'_def cursor_ok_def)
    have gaps': "cursorRest (hsEntries h) gaps' = (if useOwn then ?g else tl ?g)" "icWhole gaps' = icWhole gaps" "cursor_ok gaps'"
      using advance_rest [of gaps h] "1.prems"(2) okg by (auto simp: gaps'_def cursor_ok_def)
    note IH = "1.IH" [OF _ pre(2,3) useOwn_def [THEN eq_reflection, THEN meta_eq_to_obj_eq] e_def own'_def gaps'_def]
    have W: "indexWalk u h q limit own gaps result =
       (if qBeforeID q \<noteq> 0 \<and> hID e \<ge> qBeforeID q then indexWalk u h q limit own' gaps' result
        else if qAfter q \<noteq> 0 \<and> \<not> entryEnd e > qAfter q then (result, True)
        else indexWalk u h q limit own' gaps' (if matchesEntry u q e then result @ [e] else result))"
      by (subst indexWalk.simps)
        (simp only: pre simp_thms if_True if_False Let_def useOwn_def e_def own'_def gaps'_def)
    have pm: "\<not> (?o = [] \<and> \<not> icWhole own \<or> ?g = [] \<and> \<not> icWhole gaps)" "\<not> (?o = [] \<and> ?g = [])"
      using pre(2,3) ok by blast+
    have M: "mergeWalk u q limit ?o (icWhole own) ?g (icWhole gaps) result =
       (let r = \<lambda>res. mergeWalk u q limit (cursorRest (hsEntries h) own') (icWhole own') (cursorRest (hsEntries h) gaps') (icWhole gaps') res in
        if qBeforeID q \<noteq> 0 \<and> hID e \<ge> qBeforeID q then r result
        else if qAfter q \<noteq> 0 \<and> \<not> entryEnd e > qAfter q then (result, True)
        else r (if matchesEntry u q e then result @ [e] else result))"
      by (subst mergeWalk.simps) (simp only: pre(1) pm simp_thms if_True if_False Let_def use e own'(1,2) gaps'(1,2))
    show ?thesis
      unfolding W M Let_def using IH own'(3) gaps'(3) pre(1) by simp
  qed
qed

lemma mergeWalk_step:
  assumes "length result < limit" "own \<noteq> [] \<or> ow" "gaps \<noteq> [] \<or> gw" "own \<noteq> [] \<or> gaps \<noteq> []"
    and "useOwn \<longleftrightarrow> own \<noteq> [] \<and> (gaps = [] \<or> hID (hd own) > hID (hd gaps))"
    and "e = (if useOwn then hd own else hd gaps)"
    and "own' = (if useOwn then tl own else own)" "gaps' = (if useOwn then gaps else tl gaps)"
  shows "mergeWalk u q limit own ow gaps gw result =
     (if qBeforeID q \<noteq> 0 \<and> hID e \<ge> qBeforeID q then mergeWalk u q limit own' ow gaps' gw result
      else if qAfter q \<noteq> 0 \<and> \<not> entryEnd e > qAfter q then (result, True)
      else mergeWalk u q limit own' ow gaps' gw (if matchesEntry u q e then result @ [e] else result))"
proof -
  have "\<not> (own = [] \<and> \<not> ow \<or> gaps = [] \<and> \<not> gw)" "\<not> (own = [] \<and> gaps = [])" using assms(2-4) by blast+
  then show ?thesis
    by (subst mergeWalk.simps) (simp only: assms(1,5-8) simp_thms if_True if_False Let_def)
qed

lemma mergeWalk_complete:
  assumes "mergeWalk u q limit own ow gaps gw result = (res, True)" "length result < limit"
  shows "own \<noteq> [] \<or> ow" "gaps \<noteq> [] \<or> gw" "own = [] \<Longrightarrow> gaps = [] \<Longrightarrow> res = result"
proof -
  show "own \<noteq> [] \<or> ow" "gaps \<noteq> [] \<or> gw"
    using assms by (auto simp: mergeWalk.simps [of u q limit own ow gaps gw result] split: if_splits)
  show "own = [] \<Longrightarrow> gaps = [] \<Longrightarrow> res = result"
    using assms by (simp add: mergeWalk.simps [of u q limit "[]" ow "[]" gw result] split: if_splits)
qed

lemma mergeWalk_full: "\<not> length result < limit \<Longrightarrow> mergeWalk u q limit own ow gaps gw result = (result, True)"
  by (subst mergeWalk.simps) simp

lemma mergeWalk_too_old:
  assumes "mergeWalk u q limit own ow gaps gw result = (res, True)" "length result < limit"
    and "qAfter q \<noteq> 0" "\<forall>x \<in> set own \<union> set gaps. \<not> entryEnd x > qAfter q \<and> \<not> (qBeforeID q \<noteq> 0 \<and> hID x \<ge> qBeforeID q)"
  shows "res = result"
proof (cases "own = [] \<and> gaps = []")
  case False
  let ?use = "own \<noteq> [] \<and> (gaps = [] \<or> hID (hd own) > hID (hd gaps))"
  let ?e = "if ?use then hd own else hd gaps"
  have "?e \<in> set own \<union> set gaps" using False by auto
  then have "\<not> entryEnd ?e > qAfter q \<and> \<not> (qBeforeID q \<noteq> 0 \<and> hID ?e \<ge> qBeforeID q)" using assms(4) by blast
  then show ?thesis
    using mergeWalk_step [OF assms(2) mergeWalk_complete(1,2) [OF assms(1,2)] _ refl refl refl refl, of u q] False assms(1,3)
    by auto
qed (use mergeWalk_complete(3) [OF assms(1,2)] in blast)

lemma prefix_filter_Cons:
  assumes "prefix xs (filter P (e # es))" "w \<longrightarrow> xs = filter P (e # es)"
  shows "P e \<Longrightarrow> xs \<noteq> [] \<Longrightarrow> hd xs = e \<and> prefix (tl xs) (filter P es) \<and> (w \<longrightarrow> tl xs = filter P es)"
    and "P e \<Longrightarrow> xs = [] \<Longrightarrow> \<not> w"
    and "\<not> P e \<Longrightarrow> prefix xs (filter P es) \<and> (w \<longrightarrow> xs = filter P es)"
  using assms by (cases xs; auto)+

lemma prefix_filter_mem: "prefix xs (filter P es) \<Longrightarrow> x \<in> set xs \<Longrightarrow> x \<in> set es"
  by (meson filter_is_subset set_mono_prefix subsetD)

lemma merge_scan:
  assumes "sorted_wrt (>) (map hID es)" "qAfter q \<noteq> 0 \<longrightarrow> sorted_wrt (\<lambda>a b. entryEnd b \<le> entryEnd a) es"
    and "prefix own (filter P es)" "ow \<longrightarrow> own = filter P es" "prefix gaps (filter G es)" "gw \<longrightarrow> gaps = filter G es"
    and "\<forall>e \<in> set es. matchesEntry u q e \<longrightarrow> P e \<or> G e" "\<forall>e \<in> set es. \<not> (P e \<and> G e)"
    and "mergeWalk u q limit own ow gaps gw result = (res, True)" "length result < limit"
  shows "scanWalk u q limit es result = res"
  using assms
proof (induction es arbitrary: own gaps result)
  case Nil
  then show ?case using mergeWalk_complete(3) [OF Nil.prems(9,10)] by simp
next
  case (Cons e es)
  note O = prefix_filter_Cons [OF Cons.prems(3,4)] and Gp = prefix_filter_Cons [OF Cons.prems(5,6)]
  note comp = mergeWalk_complete [OF Cons.prems(9,10)]
  have below: "x \<in> set es \<Longrightarrow> hID x < hID e" for x using Cons.prems(1) by simp
  have IH: "scanWalk u q limit es r = res"
    if "prefix own' (filter P es) \<and> (ow \<longrightarrow> own' = filter P es)" "prefix gaps' (filter G es) \<and> (gw \<longrightarrow> gaps' = filter G es)"
      "mergeWalk u q limit own' ow gaps' gw r = (res, True)" "length r < limit" for own' gaps' r
    using Cons.IH [of own' gaps' r] that Cons.prems(1,2,7,8) by simp
  have same: "scanWalk u q limit (e # es) result = res"
    if W: "mergeWalk u q limit own ow gaps gw result =
       (if qBeforeID q \<noteq> 0 \<and> hID e \<ge> qBeforeID q then mergeWalk u q limit own' ow gaps' gw result
        else if qAfter q \<noteq> 0 \<and> \<not> entryEnd e > qAfter q then (result, True)
        else mergeWalk u q limit own' ow gaps' gw (if matchesEntry u q e then result @ [e] else result))"
      and o: "prefix own' (filter P es) \<and> (ow \<longrightarrow> own' = filter P es)"
      and g: "prefix gaps' (filter G es) \<and> (gw \<longrightarrow> gaps' = filter G es)" for own' gaps'
  proof -
    have next': "length (result @ [e]) \<noteq> limit \<Longrightarrow> length (result @ [e]) < limit" using Cons.prems(10) by simp
    show ?thesis
      using W Cons.prems(9,10) IH [OF o g, of result] IH [OF o g, of "result @ [e]"] next'
        mergeWalk_full [of "result @ [e]" limit u q own' ow gaps' gw]
      by (auto split: if_splits)
  qed
  consider "P e" | "G e" "\<not> P e" | "\<not> P e" "\<not> G e" by blast
  then show ?case
  proof cases
    case 1
    then have G': "\<not> G e" using Cons.prems(8) by auto
    have ne: "own \<noteq> []" using O(2) [OF 1] comp(1) by blast
    note o = O(1) [OF 1 ne] and g = Gp(3) [OF G']
    have "gaps = [] \<or> hID (hd own) > hID (hd gaps)"
      using o below prefix_filter_mem [of gaps G es "hd gaps"] g by (cases "gaps = []") auto
    then have "True \<longleftrightarrow> own \<noteq> [] \<and> (gaps = [] \<or> hID (hd own) > hID (hd gaps))" using ne by blast
    from mergeWalk_step [OF Cons.prems(10) comp(1,2) _ this refl refl refl, of u q] ne o g
    show ?thesis by (intro same [of "tl own" gaps]) auto
  next
    case 2
    have ne: "gaps \<noteq> []" using Gp(2) [OF 2(1)] comp(2) by blast
    note g = Gp(1) [OF 2(1) ne] and o = O(3) [OF 2(2)]
    have "\<not> (hID (hd own) > hID (hd gaps))" if "own \<noteq> []"
      using g below [of "hd own"] prefix_filter_mem [of own P es "hd own"] o that by simp
    then have "False \<longleftrightarrow> own \<noteq> [] \<and> (gaps = [] \<or> hID (hd own) > hID (hd gaps))" using ne by blast
    from mergeWalk_step [OF Cons.prems(10) comp(1,2) _ this refl refl refl, of u q] ne o g
    show ?thesis by (intro same [of own "tl gaps"]) auto
  next
    case 3
    note o = O(3) [OF 3(1)] and g = Gp(3) [OF 3(2)]
    have nm: "\<not> matchesEntry u q e" using 3 Cons.prems(7) by auto
    note rest = IH [OF o g Cons.prems(9,10)]
    show ?thesis
    proof (cases "qAfter q \<noteq> 0 \<and> \<not> entryEnd e > qAfter q \<and> \<not> (qBeforeID q \<noteq> 0 \<and> hID e \<ge> qBeforeID q)")
      case True
      have "\<not> entryEnd x > qAfter q \<and> \<not> (qBeforeID q \<noteq> 0 \<and> hID x \<ge> qBeforeID q)" if "x \<in> set own \<union> set gaps" for x
      proof -
        have "x \<in> set es" using that prefix_filter_mem [OF conjunct1 [OF o], of x] prefix_filter_mem [OF conjunct1 [OF g], of x] by auto
        then show ?thesis using below [of x] Cons.prems(2) True by auto
      qed
      then have "res = result" by (intro mergeWalk_too_old [OF Cons.prems(9,10)]) (use True in simp_all)
      then show ?thesis using True by auto
    next
      case False
      then show ?thesis using nm rest by auto
    qed
  qed
qed

section \<open>List answers from the log\<close>

lemma ListHistory_scan:
  assumes "recorded n h lg" "hsCount h < maxUint64"
    and "sorted (map entryEnd lg)" "\<forall>e \<in> set lg. hKind e = KindAnnotation \<longrightarrow> \<not> about e (qResourceID q)"
  shows "ListHistory u q h =
    scanWalk u (prepared u q) (if qLimit q \<le> 0 then 50 else nat (qLimit q)) (rev (lastn n lg)) []"
proof -
  note R = recorded_ok [OF assms(1)]
  have nf: "newestFirst h = rev (lastn n lg)" using R(2,4) by (simp add: holds_log_def)
  have sub: "set (newestFirst h) \<subseteq> set lg" using nf set_lastn [of n lg] by simp
  let ?q = "prepared u q" let ?id = "qResourceID q" let ?es = "newestFirst h"
  let ?limit = "if qLimit q \<le> 0 then 50 else nat (qLimit q)"
  have q: "qResourceID ?q = ?id" "qMembers ?q = qMembers q" "qLimit ?q = qLimit q" by (simp_all add: prepared_def)
  have "sorted (map entryEnd (lastn n lg))" using assms(3) by (simp add: lastn_def drop_map [symmetric] sorted_wrt_drop)
  then have ends: "sorted_wrt (\<lambda>a b. entryEnd b \<le> entryEnd a) ?es"
    unfolding nf by (simp add: sorted_wrt_rev sorted_wrt_map)
  have fast: "found = scanWalk u ?q ?limit ?es []"
    if id: "?id \<noteq> []" "qMembers q = []" and "listByResource u ?q ?limit h = (found, True)" for found
  proof -
    let ?P = "\<lambda>e. about e ?id"
    let ?own = "newCursor ?id ?P h"
    let ?G = "\<lambda>e. wantsKind ?q KindGap \<and> hKind e = KindGap"
    let ?gaps = "if wantsKind ?q KindGap then newCursor [] (\<lambda>e. hKind e = KindGap) h else emptyCursor"
    have gapid: "hKind e = KindGap \<Longrightarrow> hResourceID e = [] \<and> hServiceID e = []" if "e \<in> set ?es" for e
      using R(3) sub that by (auto simp: gap_clean_def)
    have "\<forall>e \<in> set ?es. ?P e \<longrightarrow> 0 < pushes ?id e"
      using assms(4) sub id(1) by (auto simp: pushes_def about_def)
    note O = cursor_yields [OF R(1,2) assms(2) this]
    have "\<forall>e \<in> set ?es. hKind e = KindGap \<longrightarrow> 0 < pushes [] e"
      using gapid by (auto simp: pushes_def KindGap_def KindAnnotation_def)
    note Gc = cursor_yields [OF R(1,2) assms(2) this]
    have G: "prefix (cursorRest (hsEntries h) ?gaps) (filter ?G ?es)"
      "icWhole ?gaps \<longrightarrow> cursorRest (hsEntries h) ?gaps = filter ?G ?es" "cursor_ok ?gaps"
      using Gc newCursor_rest(3) [of "[]" "\<lambda>e. hKind e = KindGap" h]
      by (auto simp: emptyCursor_def cursorRest_def cursor_ok_def)
    have ok: "cursor_ok ?own" using newCursor_rest(3) by (simp add: cursor_ok_def)
    have lim: "length ([] :: historyEntry list) < ?limit" by simp
    have M: "mergeWalk u ?q ?limit (cursorRest (hsEntries h) ?own) (icWhole ?own) (cursorRest (hsEntries h) ?gaps) (icWhole ?gaps) []
        = (found, True)"
      using that(3) indexWalk_merge [OF ok G(3), of u h ?q ?limit "[]"] by (simp add: listByResource_def q(1) Let_def)
    have "\<forall>e \<in> set ?es. matchesEntry u ?q e \<longrightarrow> ?P e \<or> ?G e"
      using id by (auto simp: matchesEntry_def matchesResource_def Let_def q split: if_splits)
    moreover have "\<forall>e \<in> set ?es. \<not> (?P e \<and> ?G e)" using gapid id(1) by (auto simp: about_def)
    ultimately show ?thesis
      using merge_scan [OF newestFirst_sorted [OF R(2)] _ O(1) _ G(1,2) _ _ M lim] ends O(2) by blast
  qed
  show ?thesis
    using fast unfolding ListHistory_def Let_def q nf [symmetric]
    by (auto split: prod.split)
qed

text \<open>
  C21. The indexed fast path and the scan agree, so listing a history is one function of what was
  recorded: the filters applied newest first to the entries the ring retains, up to the limit. Ends
  of entries do not decrease from one to the next, and annotations carry IDs of their own.
\<close>

theorem ListHistory_is_scan:
  assumes "recorded n h lg" "hsCount h < maxUint64"
    and "sorted (map entryEnd lg)" "\<forall>e \<in> set lg. hKind e = KindAnnotation \<longrightarrow> \<not> about e (qResourceID q)"
  shows "ListHistory u q h =
    scanWalk u (prepared u q) (if qLimit q \<le> 0 then 50 else nat (qLimit q)) (rev (lastn n lg)) []"
  using assms by (rule ListHistory_scan)

definition ex_unicode :: unicode where
  "ex_unicode = \<lparr>uToLower = (\<lambda>s. s), uFields = (\<lambda>s. [s])\<rparr>"

definition ex_query :: historyQuery where
  "ex_query = \<lparr>qType = None, qResourceID = ''n1'', qBeforeID = 0, qTitleContains = [], qSearch = [], qLimit = 5,
     qTaskName = None, qWords = [], qReady = False, qTypes = [EventNode], qKinds = [], qBefore = 0, qAfter = 3,
     qVisible = None, qTags = [], qMatchAny = False, qAuthors = [], qMembers = []\<rparr>"

theorem ListHistory_is_scan_witness:
  "ListHistory ex_unicode ex_query (snd (Append 7 ex_change (NewHistory ''i'' 1))) =
     [appended 7 ex_change (NewHistory ''i'' 1)]"
proof -
  let ?h = "snd (Append 7 ex_change (NewHistory ''i'' 1))" let ?e = "appended 7 ex_change (NewHistory ''i'' 1)"
  have e: "hKind ?e = KindChange" "entryEnd ?e = 7" "hID ?e = 1" "hType ?e = Some EventNode" "hResourceID ?e = ''n1''" "hTimestamp ?e = 7"
    by (simp_all add: appended_def ex_change_def zeroEntry_def entryEnd_def NewHistory_def)
  have c: "hsCount ?h < maxUint64" by (simp add: Append_def NewHistory_def Let_def maxUint64_def)
  have L: "ListHistory ex_unicode ex_query ?h = scanWalk ex_unicode (prepared ex_unicode ex_query)
      (if qLimit ex_query \<le> 0 then 50 else nat (qLimit ex_query)) (rev (lastn 1 [?e])) []"
    by (rule ListHistory_is_scan [OF ex_recorded c]) (use e in \<open>simp_all add: KindChange_def KindAnnotation_def\<close>)
  have "matchesEntry ex_unicode (prepared ex_unicode ex_query) ?e"
    using e by (simp add: matchesEntry_def wantsKind_def matchesAuthor_def matchesResource_def matchesText_def about_def
        KindChange_def KindAnnotation_def KindGap_def ex_query_def prepared_def ToLower_def ascii_def)
  then show ?thesis unfolding L
    using e by (simp add: lastn_def ex_query_def prepared_def)
qed

text \<open>Without a window the scan is a filter and a limit.\<close>

lemma scanWalk_filter:
  assumes "qBeforeID q = 0" "qAfter q = 0"
  shows "length result < limit \<Longrightarrow> scanWalk u q limit es result = take limit (result @ filter (matchesEntry u q) es)"
proof (induction es arbitrary: result)
  case (Cons e es)
  have "length (result @ [e]) = limit \<Longrightarrow> take limit (result @ e # xs) = result @ [e]" for xs
    by auto
  then show ?case using Cons.IH [of result] Cons.IH [of "result @ [e]"] Cons.prems assms by auto
qed simp

end
