(* ===== verification/Cache.thy ===== *)
theory Cache
  imports Stacks Service_Refs Restarts History_List
begin

text \<open>
  The cache of \<open>internal/cache/cache.go\<close> and \<open>resolver.go\<close>: the state behind its lock, the operations of
  the Docker watcher on it (set and delete of every resource, the full sync), the notification of each
  change through history, attribution and listeners. The clock and Unicode's tables are in \<open>env\<close>; an
  operation reads one instant. What listeners are handed is the log \<open>cDispatched\<close>. Metrics and the
  snapshot file are not part of the state.
\<close>

record env =
  envNow :: int
  envUnicode :: unicode

record cache = inventory +
  cTasks :: "task gomap"
  cTasksByService :: "string list gomap"
  cTasksByNode :: "string list gomap"
  cGoneServices :: "service gomap"
  cServiceRef :: serviceRefIndex
  cLastSync :: int
  cTasksSynced :: bool
  cHistory :: history
  cAttributions :: attributions
  cRestarts :: restartTracker
  cGeneration :: "64 word"
  cVersionGeneration :: "64 word"
  cListeners :: "nat list"
  cNextListenerID :: nat
  cDispatched :: "(nat \<times> event \<times> nat) list"

definition New :: "int \<Rightarrow> string \<Rightarrow> nat \<Rightarrow> cache" where
  "New now inst historySize = \<lparr>cNodes = [], cServices = [], cConfigs = [], cSecrets = [], cNetworks = [], cVolumes = [], cStacks = [],
     cTasks = [], cTasksByService = [], cTasksByNode = [], cGoneServices = [], cServiceRef = newServiceRefIndex,
     cLastSync = 0, cTasksSynced = False, cHistory = NewHistory inst historySize, cAttributions = newAttributions,
     cRestarts = NewRestartTracker now (7 * 24 * hour) hour, cGeneration = 0, cVersionGeneration = 0,
     cListeners = [], cNextListenerID = 0, cDispatched = []\<rparr>"

definition Populated :: "cache \<Rightarrow> bool" where
  "Populated c \<longleftrightarrow> cLastSync c \<noteq> 0"

definition AddOnChangeListener :: "cache \<Rightarrow> nat \<times> cache" where
  "AddOnChangeListener c = (cNextListenerID c,
     c\<lparr>cListeners := cListeners c @ [cNextListenerID c], cNextListenerID := cNextListenerID c + 1\<rparr>)"

definition cancelListener :: "nat \<Rightarrow> cache \<Rightarrow> cache" where
  "cancelListener i c = c\<lparr>cListeners := remove1 i (cListeners c)\<rparr>"

section \<open>Resolving owners\<close>

definition StackOf :: "cache \<Rightarrow> string \<Rightarrow> string \<Rightarrow> string" where
  "StackOf c resourceType name =
      (if resourceType = ''service'' then
         (case gget (cServices c) (gor (byName (cServiceRef c)) name []) of
            None \<Rightarrow> [] | Some s \<Rightarrow> gor (spLabels (svSpec s)) StackLabel [])
       else if resourceType = ''config'' then
         (case find (\<lambda>(_, v). cfName v = name) (cConfigs c) of None \<Rightarrow> [] | Some (_, v) \<Rightarrow> gor (cfLabels v) StackLabel [])
       else if resourceType = ''secret'' then
         (case find (\<lambda>(_, v). seName v = name) (cSecrets c) of None \<Rightarrow> [] | Some (_, v) \<Rightarrow> gor (seLabels v) StackLabel [])
       else if resourceType = ''network'' then
         (case find (\<lambda>(_, v). neName v = name) (cNetworks c) of None \<Rightarrow> [] | Some (_, v) \<Rightarrow> gor (neLabels v) StackLabel [])
       else if resourceType = ''volume'' then
         (case find (\<lambda>(_, v). voName v = name) (cVolumes c) of None \<Rightarrow> [] | Some (_, v) \<Rightarrow> gor (voLabels v) StackLabel [])
       else [])"

definition ServiceOfTask :: "cache \<Rightarrow> string \<Rightarrow> string" where
  "ServiceOfTask c taskID = (case gget (cTasks c) taskID of
     None \<Rightarrow> []
   | Some t \<Rightarrow> (case gget (cServices c) (tServiceID t) of None \<Rightarrow> [] | Some svc \<Rightarrow> spName (svSpec svc)))"

definition removedTaskFromLocked :: "cache \<Rightarrow> task \<Rightarrow> string \<times> string" where
  "removedTaskFromLocked c t =
     (case (case gget (cServices c) (tServiceID t) of Some svc \<Rightarrow> Some svc | None \<Rightarrow> gget (cGoneServices c) (tServiceID t)) of
        Some svc \<Rightarrow> (spName (svSpec svc), gor (spLabels (svSpec svc)) StackLabel [])
      | None \<Rightarrow> (case tContainerLabels t of Some labels \<Rightarrow> ([], gor labels StackLabel []) | None \<Rightarrow> ([], [])))"

definition removedFrom :: "cache \<Rightarrow> resource option \<Rightarrow> string \<times> string" where
  "removedFrom c res = (case res of
     Some (RService r) \<Rightarrow> ([], gor (spLabels (svSpec r)) StackLabel [])
   | Some (RConfig r) \<Rightarrow> ([], gor (cfLabels r) StackLabel [])
   | Some (RSecret r) \<Rightarrow> ([], gor (seLabels r) StackLabel [])
   | Some (RNetwork r) \<Rightarrow> ([], gor (neLabels r) StackLabel [])
   | Some (RVolume r) \<Rightarrow> ([], gor (voLabels r) StackLabel [])
   | Some (RTask r) \<Rightarrow> removedTaskFromLocked c r
   | _ \<Rightarrow> ([], []))"

definition ServiceStacks :: "cache \<Rightarrow> string gomap" where
  "ServiceStacks c = map (\<lambda>(i, svc). (i, gor (spLabels (svSpec svc)) StackLabel [])) (cServices c)"

section \<open>Notification\<close>

definition ExtractName :: "event \<Rightarrow> string" where
  "ExtractName e = (case eResource e of
     Some (RNode r) \<Rightarrow> nodeHostname r
   | Some (RService r) \<Rightarrow> spName (svSpec r)
   | Some (RTask r) \<Rightarrow> tID r
   | Some (RConfig r) \<Rightarrow> cfName r
   | Some (RSecret r) \<Rightarrow> seName r
   | Some (RNetwork r) \<Rightarrow> neName r
   | Some (RVolume r) \<Rightarrow> voName r
   | None \<Rightarrow> [])"

definition dispatch :: "event \<Rightarrow> nat \<Rightarrow> cache \<Rightarrow> cache" where
  "dispatch e hid c = c\<lparr>cDispatched := cDispatched c @ map (\<lambda>l. (l, e, hid)) (cListeners c)\<rparr>"

definition lastTaskQuery :: "string \<Rightarrow> historyQuery" where
  "lastTaskQuery i = \<lparr>qType = None, qResourceID = i, qBeforeID = 0, qTitleContains = [], qSearch = [], qLimit = 1,
     qTaskName = None, qWords = [], qReady = False, qTypes = [EventTask], qKinds = [KindChange], qBefore = 0, qAfter = 0,
     qVisible = None, qTags = [], qMatchAny = False, qAuthors = [], qMembers = []\<rparr>"

definition recordReplica :: "unicode \<Rightarrow> cache \<Rightarrow> event \<Rightarrow> historyEntry \<Rightarrow> historyEntry" where
  "recordReplica u c e entry = (case eResource e of
     Some (RTask task) \<Rightarrow>
       (let name = (case gget (cServices c) (tServiceID task) of Some svc \<Rightarrow> spName (svSpec svc) | None \<Rightarrow> eService e)
        in entry\<lparr>hServiceID := tServiceID task, hSlot := tSlot task, hNodeID := tNodeID task, hServiceName := name\<rparr>)
   | _ \<Rightarrow> (case ListHistory u (lastTaskQuery (eID e)) (cHistory c) of
       [] \<Rightarrow> entry
     | l # _ \<Rightarrow> entry\<lparr>hServiceID := hServiceID l, hSlot := hSlot l, hNodeID := hNodeID l, hServiceName := hServiceName l\<rparr>))"

definition countsVersion :: "event \<Rightarrow> bool" where
  "countsVersion e \<longleftrightarrow> (eType e = EventConfig \<or> eType e = EventSecret) \<and> eAction e \<noteq> ''ref_changed'' \<or> eType e = EventSync"

text \<open>\<open>notify\<close> for every event but a gap, which \<open>RecordRecoveredGap\<close> below records.\<close>

definition notify :: "env \<Rightarrow> event \<Rightarrow> cache \<Rightarrow> cache" where
  "notify E e0 c0 = (let
      e1 = (if eName e0 = [] then e0\<lparr>eName := ExtractName e0\<rparr> else e0);
      c1 = c0\<lparr>cGeneration := cGeneration c0 + 1,
              cVersionGeneration := cVersionGeneration c0 + (if countsVersion e1 then 1 else 0)\<rparr>;
      e2 = (if eAction e1 = ''remove'' \<and> eService e1 = [] \<and> eStack e1 = [] then
              (case removedFrom c1 (eResource e1) of (service, stack) \<Rightarrow> e1\<lparr>eService := service, eStack := stack\<rparr>)
            else e1)
    in if eType e2 = EventSync then dispatch e2 (hsCount (cHistory c1)) c1
       else (let
           entry0 = zeroEntry\<lparr>hType := Some (eType e2), hAction := eAction e2, hResourceID := eID e2, hName := eName e2,
                      hService := eService e2, hStack := eStack e2\<rparr>;
           entry1 = (if eType e2 = EventTask then recordReplica (envUnicode E) c1 e2 entry0 else entry0)
         in case matchEvent e2 (envNow E) (cAttributions c1) of (act, attrs) \<Rightarrow>
              (case Append (envNow E) (entry1\<lparr>hActor := act\<rparr>) (cHistory c1) of (hid, hist) \<Rightarrow>
                 dispatch e2 hid (c1\<lparr>cAttributions := attrs, cHistory := hist\<rparr>))))"

definition RecordRecoveredGap :: "env \<Rightarrow> int \<Rightarrow> historyEntry list \<Rightarrow> int \<Rightarrow> cache \<Rightarrow> cache" where
  "RecordRecoveredGap E start recovered recoveredFrom c0 = (let
      c1 = c0\<lparr>cGeneration := cGeneration c0 + 1\<rparr>;
      hist = fold (\<lambda>entry h. snd (Append (envNow E) entry h)) recovered (cHistory c1);
      gap = zeroEntry\<lparr>hKind := KindGap, hTimestamp := start, hUntil := envNow E, hRecoveredFrom := recoveredFrom\<rparr>
    in case Append (envNow E) gap hist of (hid, hist') \<Rightarrow>
         dispatch (newEvent EventGap [] [] []) hid (c1\<lparr>cHistory := hist'\<rparr>))"

definition RecordGap :: "env \<Rightarrow> int \<Rightarrow> cache \<Rightarrow> cache" where
  "RecordGap E start c = RecordRecoveredGap E start [] 0 c"

text \<open>\<open>diffNotify\<close> of \<open>notifyRefChanges\<close>: the events for one kind of reference, in the order they are sent.\<close>

definition diffNotify :: "event_type \<Rightarrow> bool gomap \<Rightarrow> bool gomap \<Rightarrow> (string \<Rightarrow> string) \<Rightarrow> event list" where
  "diffNotify typ oldSet newSet name =
     map (\<lambda>i. newEvent typ ''ref_changed'' i (name i))
       (map fst (filter (\<lambda>(i, was). gget newSet i \<noteq> Some was) oldSet) @
        map fst (filter (\<lambda>(i, _). gget oldSet i = None) newSet))"

definition notifyRefChanges :: "env \<Rightarrow> refSet \<Rightarrow> refSet \<Rightarrow> cache \<Rightarrow> cache" where
  "notifyRefChanges E old new c = fold (notify E)
     (diffNotify EventConfig (rConfigs old) (rConfigs new) (\<lambda>i. case gget (cConfigs c) i of None \<Rightarrow> [] | Some v \<Rightarrow> cfName v) @
      diffNotify EventSecret (rSecrets old) (rSecrets new) (\<lambda>i. case gget (cSecrets c) i of None \<Rightarrow> [] | Some v \<Rightarrow> seName v) @
      diffNotify EventNetwork (rNetworks old) (rNetworks new) (\<lambda>i. case gget (cNetworks c) i of None \<Rightarrow> [] | Some v \<Rightarrow> neName v) @
      diffNotify EventVolume (rVolumes old) (rVolumes new) (\<lambda>i. i)) c"

section \<open>The five resource maps\<close>

definition nodesMap :: "(node, cache) resourceMap" where
  "nodesMap = \<lparr>rmItems = cNodes, rmPut = (\<lambda>m c. c\<lparr>cNodes := m\<rparr>), rmAny = RNode, rmName = Some nodeHostname,
     rmOnSet = None, rmOnDelete = None, rmVersion = Some nodeVersion\<rparr>"

definition configOnSet :: "string \<Rightarrow> config option \<Rightarrow> config \<Rightarrow> cache \<Rightarrow> config \<times> cache" where
  "configOnSet key old new c = (let
      c' = (case old of None \<Rightarrow> c | Some v \<Rightarrow> removeFromStack EventConfig (cfID v) (cfLabels v) c)
    in (new, addToStack EventConfig (cfID new) (cfLabels new) c'))"

definition configsMap :: "(config, cache) resourceMap" where
  "configsMap = \<lparr>rmItems = cConfigs, rmPut = (\<lambda>m c. c\<lparr>cConfigs := m\<rparr>), rmAny = RConfig, rmName = Some cfName,
     rmOnSet = Some configOnSet, rmOnDelete = Some (\<lambda>_ old c. removeFromStack EventConfig (cfID old) (cfLabels old) c),
     rmVersion = Some cfVersion\<rparr>"

definition secretOnSet :: "string \<Rightarrow> secret option \<Rightarrow> secret \<Rightarrow> cache \<Rightarrow> secret \<times> cache" where
  "secretOnSet key old new c = (let
      c' = (case old of None \<Rightarrow> c | Some v \<Rightarrow> removeFromStack EventSecret (seID v) (seLabels v) c);
      new' = new\<lparr>seData := None\<rparr>
    in (new', addToStack EventSecret (seID new') (seLabels new') c'))"

definition secretsMap :: "(secret, cache) resourceMap" where
  "secretsMap = \<lparr>rmItems = cSecrets, rmPut = (\<lambda>m c. c\<lparr>cSecrets := m\<rparr>), rmAny = RSecret, rmName = Some seName,
     rmOnSet = Some secretOnSet, rmOnDelete = Some (\<lambda>_ old c. removeFromStack EventSecret (seID old) (seLabels old) c),
     rmVersion = Some seVersion\<rparr>"

definition networkOnSet :: "string \<Rightarrow> network option \<Rightarrow> network \<Rightarrow> cache \<Rightarrow> network \<times> cache" where
  "networkOnSet key old new c = (let
      c' = (case old of None \<Rightarrow> c | Some v \<Rightarrow> removeFromStack EventNetwork (neID v) (neLabels v) c)
    in (new, addToStack EventNetwork (neID new) (neLabels new) c'))"

definition networksMap :: "(network, cache) resourceMap" where
  "networksMap = \<lparr>rmItems = cNetworks, rmPut = (\<lambda>m c. c\<lparr>cNetworks := m\<rparr>), rmAny = RNetwork, rmName = Some neName,
     rmOnSet = Some networkOnSet, rmOnDelete = Some (\<lambda>_ old c. removeFromStack EventNetwork (neID old) (neLabels old) c),
     rmVersion = None\<rparr>"

definition volumeOnSet :: "string \<Rightarrow> volume option \<Rightarrow> volume \<Rightarrow> cache \<Rightarrow> volume \<times> cache" where
  "volumeOnSet key old new c = (let
      c' = (case old of None \<Rightarrow> c | Some v \<Rightarrow> removeFromStack EventVolume (voName v) (voLabels v) c)
    in (new, addToStack EventVolume (voName new) (voLabels new) c'))"

definition volumesMap :: "(volume, cache) resourceMap" where
  "volumesMap = \<lparr>rmItems = cVolumes, rmPut = (\<lambda>m c. c\<lparr>cVolumes := m\<rparr>), rmAny = RVolume, rmName = Some voName,
     rmOnSet = Some volumeOnSet, rmOnDelete = Some (\<lambda>_ old c. removeFromStack EventVolume (voName old) (voLabels old) c),
     rmVersion = None\<rparr>"

text \<open>Every setter and deleter of a resource map notifies the event the map returns.\<close>

definition notifySet :: "env \<Rightarrow> event option \<times> cache \<Rightarrow> cache" where
  "notifySet E r = (case r of (None, c) \<Rightarrow> c | (Some e, c) \<Rightarrow> notify E e c)"

definition notifyDelete :: "env \<Rightarrow> event \<times> cache \<Rightarrow> cache" where
  "notifyDelete E r = (case r of (e, c) \<Rightarrow> notify E e c)"

definition SetNode :: "env \<Rightarrow> node \<Rightarrow> cache \<Rightarrow> cache" where
  "SetNode E n c = notifySet E (Set nodesMap (nodeID n) n EventNode c)"

definition DeleteNode :: "env \<Rightarrow> string \<Rightarrow> cache \<Rightarrow> cache" where
  "DeleteNode E i c = notifyDelete E (Delete nodesMap i EventNode c)"

definition SetConfig :: "env \<Rightarrow> config \<Rightarrow> cache \<Rightarrow> cache" where
  "SetConfig E v c = notifySet E (Set configsMap (cfID v) v EventConfig c)"

definition AddConfig :: "env \<Rightarrow> config \<Rightarrow> cache \<Rightarrow> cache" where
  "AddConfig E v c = notifySet E (Add configsMap (cfID v) v EventConfig c)"

definition DeleteConfig :: "env \<Rightarrow> string \<Rightarrow> cache \<Rightarrow> cache" where
  "DeleteConfig E i c = notifyDelete E (Delete configsMap i EventConfig c)"

definition SetSecret :: "env \<Rightarrow> secret \<Rightarrow> cache \<Rightarrow> cache" where
  "SetSecret E v c = notifySet E (Set secretsMap (seID v) v EventSecret c)"

definition AddSecret :: "env \<Rightarrow> secret \<Rightarrow> cache \<Rightarrow> cache" where
  "AddSecret E v c = notifySet E (Add secretsMap (seID v) v EventSecret c)"

definition DeleteSecret :: "env \<Rightarrow> string \<Rightarrow> cache \<Rightarrow> cache" where
  "DeleteSecret E i c = notifyDelete E (Delete secretsMap i EventSecret c)"

definition SetNetwork :: "env \<Rightarrow> network \<Rightarrow> cache \<Rightarrow> cache" where
  "SetNetwork E v c = notifySet E (Set networksMap (neID v) v EventNetwork c)"

definition DeleteNetwork :: "env \<Rightarrow> string \<Rightarrow> cache \<Rightarrow> cache" where
  "DeleteNetwork E i c = notifyDelete E (Delete networksMap i EventNetwork c)"

definition SetVolume :: "env \<Rightarrow> volume \<Rightarrow> cache \<Rightarrow> cache" where
  "SetVolume E v c = notifySet E (Set volumesMap (voName v) v EventVolume c)"

definition DeleteVolume :: "env \<Rightarrow> string \<Rightarrow> cache \<Rightarrow> cache" where
  "DeleteVolume E i c = notifyDelete E (Delete volumesMap i EventVolume c)"

section \<open>Services and tasks\<close>

text \<open>\<open>SetService\<close> under the lock: \<open>None\<close> for a service older than the cached one.\<close>

definition storeService :: "service \<Rightarrow> cache \<Rightarrow> cache" where
  "storeService s c = (let
      c1 = (case gget (cServices c) (svID s) of
        None \<Rightarrow> c
      | Some old \<Rightarrow> (let c' = removeFromStack EventService (svID old) (spLabels (svSpec old)) c
          in c'\<lparr>cServiceRef := idx_remove old (serviceRefs old) (cServiceRef c')\<rparr>));
      c2 = c1\<lparr>cServices := gset (cServices c1) (svID s) s\<rparr>;
      c3 = addToStack EventService (svID s) (spLabels (svSpec s)) c2
    in c3\<lparr>cServiceRef := idx_add s (serviceRefs s) (cServiceRef c3)\<rparr>)"

definition SetService :: "env \<Rightarrow> service \<Rightarrow> cache \<Rightarrow> cache" where
  "SetService E s c = (let old = gget (cServices c) (svID s) in
     if (case old of None \<Rightarrow> False | Some o' \<Rightarrow> svVersion s < svVersion o') then c
     else (let
         oldRefs = (case old of None \<Rightarrow> noRefs | Some o' \<Rightarrow> serviceRefs o');
         c1 = storeService s c;
         c2 = notify E ((newEvent EventService (setAction (old \<noteq> None)) (svID s) [])\<lparr>eResource := Some (RService s)\<rparr>) c1
       in notifyRefChanges E oldRefs (serviceRefs s) c2))"

definition dropService :: "string \<Rightarrow> cache \<Rightarrow> cache" where
  "dropService i c = (let
      c1 = (case gget (cServices c) i of
        None \<Rightarrow> c
      | Some old \<Rightarrow> (let
            c' = removeFromStack EventService i (spLabels (svSpec old)) c;
            c'' = c'\<lparr>cServiceRef := idx_remove old (serviceRefs old) (cServiceRef c')\<rparr>
          in if gor (cTasksByService c'') i [] \<noteq> [] then c''\<lparr>cGoneServices := gset (cGoneServices c'') i old\<rparr> else c''))
    in c1\<lparr>cServices := gdel (cServices c1) i, cRestarts := Forget i (cRestarts c1)\<rparr>)"

definition DeleteService :: "env \<Rightarrow> string \<Rightarrow> cache \<Rightarrow> cache" where
  "DeleteService E i c = (let
      old = gget (cServices c) i;
      oldRefs = (case old of None \<Rightarrow> noRefs | Some o' \<Rightarrow> serviceRefs o');
      name = (case old of None \<Rightarrow> [] | Some o' \<Rightarrow> spName (svSpec o'));
      c1 = dropService i c;
      c2 = notify E ((newEvent EventService ''remove'' i name)\<lparr>eResource := map_option RService old\<rparr>) c1
    in notifyRefChanges E oldRefs noRefs c2)"

definition addIndexed :: "string \<Rightarrow> string \<Rightarrow> string list gomap \<Rightarrow> string list gomap" where
  "addIndexed par i by = (if par = [] then by else gset by par (List.insert i (gor by par [])))"

definition removeIndexed :: "string \<Rightarrow> string \<Rightarrow> string list gomap \<Rightarrow> string list gomap" where
  "removeIndexed par i by = (let m = removeAll i (gor by par []) in
     if m = [] then gdel by par else gset by par m)"

definition addTaskIndex :: "task \<Rightarrow> cache \<Rightarrow> cache" where
  "addTaskIndex t c = c\<lparr>cTasksByService := addIndexed (tServiceID t) (tID t) (cTasksByService c),
     cTasksByNode := addIndexed (tNodeID t) (tID t) (cTasksByNode c)\<rparr>"

text \<open>One of the two halves of \<open>removeTaskIndex\<close>.\<close>

definition dropIndexed :: "string \<Rightarrow> string \<Rightarrow> string list gomap \<Rightarrow> string list gomap" where
  "dropIndexed par i by = (if par = [] then by else (case gget by par of
     None \<Rightarrow> by
   | Some m \<Rightarrow> (let m' = removeAll i m in if m' = [] then gdel by par else gset by par m')))"

definition removeTaskIndex :: "task \<Rightarrow> cache \<Rightarrow> cache" where
  "removeTaskIndex t c = c\<lparr>cTasksByService := dropIndexed (tServiceID t) (tID t) (cTasksByService c),
     cTasksByNode := dropIndexed (tNodeID t) (tID t) (cTasksByNode c)\<rparr>"

definition pruneGoneServices :: "cache \<Rightarrow> cache" where
  "pruneGoneServices c = c\<lparr>cGoneServices := filter (\<lambda>(i, _). gget (cTasksByService c) i \<noteq> None) (cGoneServices c)\<rparr>"

definition taskChanged :: "task \<Rightarrow> task \<Rightarrow> bool" where
  "taskChanged old t \<longleftrightarrow> tState old \<noteq> tState t \<or> tDesiredState old \<noteq> tDesiredState t \<or> tErr old \<noteq> tErr t \<or>
     tMessage old \<noteq> tMessage t \<or> tNodeID old \<noteq> tNodeID t \<or> tVersion old \<noteq> tVersion t"

definition storeTask :: "task \<Rightarrow> cache \<Rightarrow> cache" where
  "storeTask t c = (let
      c1 = (case gget (cTasks c) (tID t) of None \<Rightarrow> c | Some old \<Rightarrow> removeTaskIndex old c)
    in addTaskIndex t (c1\<lparr>cTasks := gset (cTasks c1) (tID t) t\<rparr>))"

definition SetTask :: "env \<Rightarrow> task \<Rightarrow> cache \<Rightarrow> cache" where
  "SetTask E t c = (let old = gget (cTasks c) (tID t) in
     if (case old of None \<Rightarrow> False | Some o' \<Rightarrow> tVersion t < tVersion o') then c
     else (let
         changed = (case old of None \<Rightarrow> True | Some o' \<Rightarrow> taskChanged o' t);
         wasFailure = (case old of None \<Rightarrow> False | Some o' \<Rightarrow> IsFailureState (tState o'));
         c1 = storeTask t c;
         c2 = (if IsFailureState (tState t) \<and> \<not> wasFailure \<and> tServiceID t \<noteq> []
               then c1\<lparr>cRestarts := Record (envNow E) (tServiceID t) (tTimestamp t) (cRestarts c1)\<rparr> else c1)
       in if changed
          then notify E ((newEvent EventTask (setAction (old \<noteq> None)) (tID t) [])\<lparr>eResource := Some (RTask t)\<rparr>) c2
          else c2))"

definition DeleteTask :: "env \<Rightarrow> string \<Rightarrow> cache \<Rightarrow> cache" where
  "DeleteTask E i c = (let old = gget (cTasks c) i in
     case (case old of
         None \<Rightarrow> (([], []), c)
       | Some o' \<Rightarrow> (let
             c1 = removeTaskIndex o' c;
             owner = removedTaskFromLocked c1 o';
             c2 = (if gget (cTasksByService c1) (tServiceID o') = None
                   then c1\<lparr>cGoneServices := gdel (cGoneServices c1) (tServiceID o')\<rparr> else c1)
           in (owner, c2))) of
       ((service, stack), c2) \<Rightarrow>
         notify E ((newEvent EventTask ''remove'' i i)\<lparr>eService := service, eStack := stack, eResource := map_option RTask old\<rparr>)
           (c2\<lparr>cTasks := gdel (cTasks c2) i\<rparr>))"

section \<open>The full sync\<close>

text \<open>A list is absent where its \<open>Has\<close> flag is false.\<close>

record fullSyncData =
  fsNodes :: "node list option"
  fsServices :: "service list option"
  fsTasks :: "task list option"
  fsConfigs :: "config list option"
  fsSecrets :: "secret list option"
  fsNetworks :: "network list option"
  fsVolumes :: "volume list option"

definition byKey :: "('v \<Rightarrow> string) \<Rightarrow> 'v list \<Rightarrow> 'v gomap" where
  "byKey key vs = fold (\<lambda>v m. gset m (key v) v) vs []"

definition replaceServices :: "service gomap \<Rightarrow> (string \<Rightarrow> string list) \<Rightarrow> cache \<Rightarrow> cache" where
  "replaceServices svcs remaining c = (let
      gone = filter (\<lambda>(i, _). gget svcs i = None) (cServices c);
      c1 = fold (\<lambda>(i, old) c. (let c' = c\<lparr>cRestarts := Forget i (cRestarts c)\<rparr> in
             if remaining i \<noteq> [] then c'\<lparr>cGoneServices := gset (cGoneServices c') i old\<rparr> else c')) gone c
    in c1\<lparr>cServices := keepNewer svcs (cServices c) (Some svVersion)\<rparr>)"

record taskSync =
  tsTasks :: "task gomap"
  tsByService :: "string list gomap"
  tsByNode :: "string list gomap"

definition listTasks :: "task list \<Rightarrow> taskSync" where
  "listTasks ts = \<lparr>tsTasks = byKey tID ts,
     tsByService = fold (\<lambda>t. addIndexed (tServiceID t) (tID t)) ts [],
     tsByNode = fold (\<lambda>t. addIndexed (tNodeID t) (tID t)) ts []\<rparr>"

definition keepNewerTask :: "task gomap \<Rightarrow> string \<times> task \<Rightarrow> taskSync \<Rightarrow> taskSync" where
  "keepNewerTask cached = (\<lambda>(i, listed) ts. case gget cached i of
     None \<Rightarrow> ts
   | Some held \<Rightarrow> if tVersion held \<le> tVersion listed then ts
       else \<lparr>tsTasks = gset (tsTasks ts) i held,
             tsByService = addIndexed (tServiceID held) i (removeIndexed (tServiceID listed) i (tsByService ts)),
             tsByNode = addIndexed (tNodeID held) i (removeIndexed (tNodeID listed) i (tsByNode ts))\<rparr>)"

text \<open>Failures the event stream missed: new ones are counted, ones found by the first sync only backfilled.\<close>

definition syncFailures :: "task gomap \<Rightarrow> cache \<Rightarrow> task list \<times> task list" where
  "syncFailures tasks c = (let
      failed = filter (\<lambda>(i, t). IsFailureState (tState t) \<and>
         \<not> (case gget (cTasks c) i of None \<Rightarrow> False | Some old \<Rightarrow> IsFailureState (tState old))) tasks;
      backfill = (\<lambda>(i, _). gget (cTasks c) i = None \<and> \<not> cTasksSynced c)
    in (map snd (filter (\<lambda>x. \<not> backfill x) failed), map snd (filter backfill failed)))"

definition replaceTasks :: "taskSync \<Rightarrow> cache \<Rightarrow> (task list \<times> task list) \<times> cache" where
  "replaceTasks ts0 c = (let
      ts = fold (keepNewerTask (cTasks c)) (tsTasks ts0) ts0;
      failures = syncFailures (tsTasks ts) c
    in (failures, pruneGoneServices (c\<lparr>cTasksSynced := True, cTasks := tsTasks ts,
          cTasksByService := tsByService ts, cTasksByNode := tsByNode ts\<rparr>)))"

definition whenSome :: "('b \<Rightarrow> cache \<Rightarrow> cache) \<Rightarrow> 'b option \<Rightarrow> cache \<Rightarrow> cache" where
  "whenSome f x c = (case x of None \<Rightarrow> c | Some v \<Rightarrow> f v c)"

definition ReplaceAll :: "env \<Rightarrow> fullSyncData \<Rightarrow> cache \<Rightarrow> cache" where
  "ReplaceAll E d c0 = (let
      tasks = map_option listTasks (fsTasks d);
      remaining = (\<lambda>i. case tasks of None \<Rightarrow> gor (cTasksByService c0) i [] | Some ts \<Rightarrow> gor (tsByService ts) i []);
      c1 = whenSome (\<lambda>ns. Replace nodesMap (byKey nodeID ns)) (fsNodes d) c0;
      c2 = whenSome (\<lambda>ss. replaceServices (byKey svID ss) remaining) (fsServices d) c1;
      (failures, c3) = (case tasks of None \<Rightarrow> (([], []), c2) | Some ts \<Rightarrow> replaceTasks ts c2);
      c4 = whenSome (\<lambda>vs. Replace configsMap (byKey cfID vs)) (fsConfigs d) c3;
      c5 = whenSome (\<lambda>vs. Replace secretsMap (byKey seID (map (\<lambda>s. s\<lparr>seData := None\<rparr>) vs))) (fsSecrets d) c4;
      c6 = whenSome (\<lambda>vs. Replace networksMap (byKey neID vs)) (fsNetworks d) c5;
      c7 = whenSome (\<lambda>vs. Replace volumesMap (byKey voName vs)) (fsVolumes d) c6;
      c8 = rebuildStacks c7;
      c9 = c8\<lparr>cServiceRef := idx_rebuild (cServices c8), cLastSync := envNow E\<rparr>;
      rt1 = fold (\<lambda>t. Record (envNow E) (tServiceID t) (tTimestamp t)) (fst failures) (cRestarts c9);
      rt2 = fold (\<lambda>t. Backfill (tServiceID t) (tTimestamp t)) (snd failures) rt1
    in notify E (newEvent EventSync ''full_sync'' [] []) (c9\<lparr>cRestarts := rt2\<rparr>))"

end
