(* ===== verification/Cache_Inv.thy ===== *)
theory Cache_Inv
  imports Cache
begin

text \<open>
  The invariant of the cache and its preservation: keys are the IDs of what they hold, the stack
  index and the reference index are exact, the task indexes are exact, and no secret data is held.
  One lemma per operation, then the invariant of every reachable cache.
\<close>

section \<open>The invariant\<close>

definition keyed :: "('v \<Rightarrow> string) \<Rightarrow> 'v gomap \<Rightarrow> bool" where
  "keyed key m \<longleftrightarrow> gwf m \<and> (\<forall>k v. gget m k = Some v \<longrightarrow> key v = k)"

definition index_exact :: "string list gomap \<Rightarrow> (task \<Rightarrow> string) \<Rightarrow> task gomap \<Rightarrow> bool" where
  "index_exact by f tasks \<longleftrightarrow> (\<forall>p. gget by p \<noteq> Some [] \<and> distinct (gor by p []) \<and>
     set (gor by p []) = {i. p \<noteq> [] \<and> (\<exists>t. gget tasks i = Some t \<and> f t = p)})"

definition redacted :: "secret gomap \<Rightarrow> bool" where
  "redacted m \<longleftrightarrow> (\<forall>k v. gget m k = Some v \<longrightarrow> seData v = None)"

definition maps_ok :: "cache \<Rightarrow> bool" where
  "maps_ok c \<longleftrightarrow> keyed nodeID (cNodes c) \<and> keyed svID (cServices c) \<and> keyed tID (cTasks c) \<and> keyed cfID (cConfigs c) \<and>
     keyed seID (cSecrets c) \<and> keyed neID (cNetworks c) \<and> keyed voName (cVolumes c) \<and> redacted (cSecrets c)"

definition cache_ok :: "cache \<Rightarrow> bool" where
  "cache_ok c \<longleftrightarrow> maps_ok c \<and> represents (cStacks c) (mem c) \<and> refs_exact (cServiceRef c) (cServices c) \<and>
     index_exact (cTasksByService c) tServiceID (cTasks c) \<and> index_exact (cTasksByNode c) tNodeID (cTasks c)"

lemma keyed_gset [intro]: "keyed key m \<Longrightarrow> key v = k \<Longrightarrow> keyed key (gset m k v)"
  by (auto simp: keyed_def)

lemma keyed_gdel [intro]: "keyed key m \<Longrightarrow> keyed key (gdel m k)"
  by (auto simp: keyed_def)

lemma keyed_byKey: "keyed key (byKey key vs)"
proof -
  have "keyed key (fold (\<lambda>v m. gset m (key v) v) vs m)" if "keyed key m" for m
    using that by (induction vs arbitrary: m) (simp_all add: keyed_gset)
  moreover have "keyed key []" by (simp add: keyed_def)
  ultimately show ?thesis unfolding byKey_def by blast
qed

lemma keyed_keepNewer: "keyed key m \<Longrightarrow> keyed key cached \<Longrightarrow> keyed key (keepNewer m cached ver)"
  unfolding keyed_def keepNewer_def by (auto simp: gget_map_snd split: option.splits if_splits)

section \<open>Frames\<close>

text \<open>Stack updates change the stack map alone, notification changes none of what the invariant reads.\<close>

lemma addToStack_frame: "\<exists>st. addToStack t i l c = c\<lparr>cStacks := st\<rparr>"
  unfolding addToStack_def by (auto split: option.split intro: exI [of _ "cStacks c"])

lemma removeFromStack_frame: "\<exists>st. removeFromStack t i l c = c\<lparr>cStacks := st\<rparr>"
  unfolding removeFromStack_def Let_def by (auto split: option.split intro: exI [of _ "cStacks c"])

lemma stack_fields [simp]:
  fixes c :: cache
  shows "cNodes (addToStack t i l c) = cNodes c" "cServices (addToStack t i l c) = cServices c"
    "cConfigs (addToStack t i l c) = cConfigs c" "cSecrets (addToStack t i l c) = cSecrets c"
    "cNetworks (addToStack t i l c) = cNetworks c" "cVolumes (addToStack t i l c) = cVolumes c"
    "cTasks (addToStack t i l c) = cTasks c" "cTasksByService (addToStack t i l c) = cTasksByService c"
    "cTasksByNode (addToStack t i l c) = cTasksByNode c" "cServiceRef (addToStack t i l c) = cServiceRef c"
    "cNodes (removeFromStack t i l c) = cNodes c" "cServices (removeFromStack t i l c) = cServices c"
    "cConfigs (removeFromStack t i l c) = cConfigs c" "cSecrets (removeFromStack t i l c) = cSecrets c"
    "cNetworks (removeFromStack t i l c) = cNetworks c" "cVolumes (removeFromStack t i l c) = cVolumes c"
    "cTasks (removeFromStack t i l c) = cTasks c" "cTasksByService (removeFromStack t i l c) = cTasksByService c"
    "cTasksByNode (removeFromStack t i l c) = cTasksByNode c" "cServiceRef (removeFromStack t i l c) = cServiceRef c"
  using addToStack_frame [of t i l c] removeFromStack_frame [of t i l c] by auto

definition same_contents :: "cache \<Rightarrow> cache \<Rightarrow> bool" where
  "same_contents c c' \<longleftrightarrow> cNodes c' = cNodes c \<and> cServices c' = cServices c \<and> cConfigs c' = cConfigs c \<and>
     cSecrets c' = cSecrets c \<and> cNetworks c' = cNetworks c \<and> cVolumes c' = cVolumes c \<and> cStacks c' = cStacks c \<and>
     cTasks c' = cTasks c \<and> cTasksByService c' = cTasksByService c \<and> cTasksByNode c' = cTasksByNode c \<and>
     cServiceRef c' = cServiceRef c"

lemma mem_cong:
  assumes "cServices c' = cServices c" "cConfigs c' = cConfigs c" "cSecrets c' = cSecrets c"
    "cNetworks c' = cNetworks c" "cVolumes c' = cVolumes c"
  shows "mem c' = mem c"
proof
  fix t show "mem c' t = mem c t" using assms by (cases t) simp_all
qed

lemma same_contents_ok: "same_contents c c' \<Longrightarrow> cache_ok c \<Longrightarrow> cache_ok c'"
  using mem_cong [of c' c] by (simp add: same_contents_def cache_ok_def maps_ok_def)

lemma same_contents_trans: "same_contents c c' \<Longrightarrow> same_contents c' c'' \<Longrightarrow> same_contents c c''"
  by (simp add: same_contents_def)

lemma same_contents_refl [simp]: "same_contents c c"
  by (simp add: same_contents_def)

lemma same_updates:
  "same_contents c c' \<Longrightarrow> same_contents c (dispatch e hid c')"
  "same_contents c c' \<Longrightarrow> same_contents c (c'\<lparr>cAttributions := a, cHistory := h\<rparr>)"
  "same_contents c c' \<Longrightarrow> same_contents c (c'\<lparr>cGeneration := g, cVersionGeneration := v\<rparr>)"
  "same_contents c c' \<Longrightarrow> same_contents c (c'\<lparr>cRestarts := rt\<rparr>)"
  by (simp_all add: same_contents_def dispatch_def)

lemma same_if: "same_contents c x \<Longrightarrow> same_contents c y \<Longrightarrow> same_contents c (if b then x else y)"
  by simp

lemma notify_same: "same_contents c (notify E e c)"
  unfolding notify_def Let_def case_prod_unfold by (intro same_if same_updates same_contents_refl)

lemma notify_fold_same: "same_contents c (fold (notify E) es c)"
proof (induction es arbitrary: c)
  case (Cons e es)
  show ?case using same_contents_trans [OF notify_same Cons.IH] by simp
qed simp

lemma notifyRefChanges_same: "same_contents c (notifyRefChanges E old new c)"
  unfolding notifyRefChanges_def by (rule notify_fold_same)

lemma RecordRecoveredGap_same: "same_contents c (RecordRecoveredGap E start es rf c)"
  by (simp add: RecordRecoveredGap_def Let_def dispatch_def same_contents_def split: prod.split)

lemma cache_ok_notify [wf_intros]: "cache_ok c \<Longrightarrow> cache_ok (notify E e c)"
  using notify_same by (rule same_contents_ok)

lemma cache_ok_notifySet [wf_intros]: "cache_ok (snd r) \<Longrightarrow> cache_ok (notifySet E r)"
  by (auto simp: notifySet_def cache_ok_notify split: prod.split option.split)

lemma cache_ok_notifyDelete [wf_intros]: "cache_ok (snd r) \<Longrightarrow> cache_ok (notifyDelete E r)"
  by (auto simp: notifyDelete_def cache_ok_notify split: prod.split)

section \<open>The stack index under a write\<close>

lemma seed_exact:
  assumes "ns \<noteq> []" "M EventService ns = []" "\<And>t. t \<noteq> EventService \<Longrightarrow> M t = mem c t"
  shows "seedStack ns c = mkStack M ns"
  using assms by (simp add: seedStack_def mkStack_def newStack_def labelled_members)

lemma stacks_set:
  assumes "represents (cStacks c) (mem c)" "stackKind t" "mem c t = members labelsOf items" "gwf items"
    and "cStacks c1 = cStacks (case gget items i of None \<Rightarrow> c | Some old \<Rightarrow> removeFromStack t i (labelsOf old) c)"
    and "\<And>ns. seedStack ns c1 = seedStack ns c"
  shows "represents (cStacks (addToStack t i (labelsOf v) c1)) ((mem c)(t := members labelsOf (gset items i v)))"
proof -
  let ?M = "(mem c)(t := \<lambda>ns. removeStr (mem c t ns) i)"
  have M: "represents (cStacks c1) ?M"
  proof (cases "gget items i")
    case None
    then have "?M = mem c" using removeStr_absent [OF assms(4) None] assms(3) by auto
    then show ?thesis using assms(1,5) None by simp
  next
    case (Some old)
    have "(\<lambda>ns. if gget (labelsOf old) StackLabel = Some ns then removeStr (mem c t ns) i else mem c t ns)
        = (\<lambda>ns. removeStr (mem c t ns) i)"
      using removeStr_other [OF assms(4) Some] assms(3) by auto
    then show ?thesis
      using represents_remove [OF assms(1,2) refl, where labels = "labelsOf old" and i = i] assms(5) Some by simp
  qed
  have seed: "seedStack ns c1 = mkStack ?M ns"
    if "ns \<noteq> []" "gget (labelsOf v) StackLabel = Some ns" "t = EventService" "?M EventService ns = []" for ns
    using seed_exact [of ns ?M c] assms(6) that by auto
  have eq: "(mem c)(t := members labelsOf (gset items i v)) =
      ?M(t := \<lambda>ns. if gget (labelsOf v) StackLabel = Some ns then appendUnique (?M t ns) i else ?M t ns)"
    using members_gset [OF assms(4), of labelsOf i v] assms(3) by (intro ext) simp
  show ?thesis
    by (rule represents_add [OF M assms(2) _ eq]) (rule seed)
qed

lemma stacks_delete:
  assumes "represents (cStacks c) (mem c)" "stackKind t" "mem c t = members labelsOf items" "gwf items" "gget items i = Some old"
  shows "represents (cStacks (removeFromStack t i (labelsOf old) c)) ((mem c)(t := members labelsOf (gdel items i)))"
proof -
  have "(mem c)(t := members labelsOf (gdel items i)) = (mem c)(t := \<lambda>ns.
      if gget (labelsOf old) StackLabel = Some ns then removeStr (mem c t ns) i else mem c t ns)"
    using removeStr_other [OF assms(4,5)] members_gdel [OF assms(4)] assms(3) by (intro ext) simp
  then show ?thesis by (rule represents_remove [OF assms(1,2)])
qed

section \<open>The maps of labelled resources\<close>

text \<open>
  Configs, secrets, networks and volumes are resource maps whose hooks maintain the stack index in the
  same way; \<open>rest\<close> is everything of the cache such a map leaves alone.
\<close>

locale labelled_map = resource_map r ok
  for r :: "('v, cache) resourceMap" and ok :: "cache \<Rightarrow> bool" +
  fixes t :: event_type and labelsOf :: "'v \<Rightarrow> labels" and idOf :: "'v \<Rightarrow> string" and clean :: "'v \<Rightarrow> 'v"
    and rest :: "cache \<Rightarrow> 'r"
  assumes kind: "stackKind t" "t \<noteq> EventService"
    and onSet_eq: "rmOnSet r = Some (\<lambda>key old new c. (clean new, addToStack t (idOf new) (labelsOf new)
       (case old of None \<Rightarrow> c | Some v \<Rightarrow> removeFromStack t (idOf v) (labelsOf v) c)))"
    and onDelete_eq: "rmOnDelete r = Some (\<lambda>_ old c. removeFromStack t (idOf old) (labelsOf old) c)"
    and clean: "labelsOf (clean v) = labelsOf v" "idOf (clean v) = idOf v"
    and mem_items: "mem c t = members labelsOf (rmItems r c)"
    and mem_put: "mem (rmPut r m c) = (mem c)(t := members labelsOf m)"
    and stacks_put: "cStacks (rmPut r m c) = cStacks c"
    and rest_put: "rest (rmPut r m c) = rest c"
    and rest_stacks: "rest (c\<lparr>cStacks := st\<rparr>) = rest c"
    and items_stacks: "rmItems r (c\<lparr>cStacks := st\<rparr>) = rmItems r c"
begin

lemma hook_frames:
  "rest (addToStack t' i l c) = rest c" "rest (removeFromStack t' i l c) = rest c"
  "rmItems r (addToStack t' i l c) = rmItems r c" "rmItems r (removeFromStack t' i l c) = rmItems r c"
  using addToStack_frame [of t' i l c] removeFromStack_frame [of t' i l c] by (auto simp: rest_stacks items_stacks)

lemma stack_mem: "mem (addToStack t' i l c) = mem c" "mem (removeFromStack t' i l c) = mem c" for c :: cache
  by (rule mem_cong; simp)+

lemma hook_seed: "seedStack ns (removeFromStack t' i l c) = seedStack ns c" for c :: cache
  by (simp add: seedStack_def)

definition hooked :: "'v \<Rightarrow> cache \<Rightarrow> cache" where
  "hooked v c = (case gget (rmItems r c) (idOf v) of None \<Rightarrow> c | Some old \<Rightarrow> removeFromStack t (idOf old) (labelsOf old) c)"

lemma rm_set_eq: "rm_set r (idOf v) v c = (clean v,
    rmPut r (gset (rmItems r c) (idOf v) (clean v)) (addToStack t (idOf v) (labelsOf v) (hooked v c)))"
  by (simp add: rm_set_def onSet_eq hooked_def hook_frames split: option.split)

lemma set_items: "rmItems r (snd (rm_set r (idOf v) v c)) = gset (rmItems r c) (idOf v) (clean v)"
  by (simp add: rm_set_eq items_put)

lemma set_rest: "rest (snd (rm_set r (idOf v) v c)) = rest c"
  by (simp add: rm_set_eq rest_put hook_frames hooked_def split: option.split)

lemma set_represents:
  assumes "represents (cStacks c) (mem c)" "keyed idOf (rmItems r c)"
  shows "represents (cStacks (snd (rm_set r (idOf v) v c))) (mem (snd (rm_set r (idOf v) v c)))"
proof -
  let ?i = "idOf v" let ?items = "rmItems r c"
  have key: "gget ?items ?i = Some old \<Longrightarrow> idOf old = ?i" for old using assms(2) by (simp add: keyed_def)
  have c1: "cStacks (hooked v c) = cStacks (case gget ?items ?i of None \<Rightarrow> c | Some old \<Rightarrow> removeFromStack t ?i (labelsOf old) c)"
    using key by (auto simp: hooked_def split: option.split)
  have seed: "seedStack ns (hooked v c) = seedStack ns c" for ns
    by (simp add: hooked_def hook_seed split: option.split)
  have "represents (cStacks (addToStack t ?i (labelsOf (clean v)) (hooked v c))) ((mem c)(t := members labelsOf (gset ?items ?i (clean v))))"
    by (rule stacks_set [OF assms(1) kind(1) mem_items _ c1 seed]) (use assms(2) kind(2) in \<open>auto simp: keyed_def\<close>)
  moreover have "mem (hooked v c) = mem c" by (simp add: hooked_def stack_mem split: option.split)
  ultimately show ?thesis by (simp add: rm_set_eq clean stacks_put mem_put stack_mem)
qed

lemma delete_eq: "snd (Delete r i t' c) = rmPut r (gdel (rmItems r c) i)
    (case gget (rmItems r c) i of None \<Rightarrow> c | Some old \<Rightarrow> removeFromStack t (idOf old) (labelsOf old) c)"
  by (simp add: Delete_def rm_del_def onDelete_eq Let_def hook_frames split: option.split)

lemma delete_rest: "rest (snd (Delete r i t' c)) = rest c"
  by (simp add: delete_eq rest_put hook_frames split: option.split)

lemma delete_represents:
  assumes "represents (cStacks c) (mem c)" "keyed idOf (rmItems r c)"
  shows "represents (cStacks (snd (Delete r i t' c))) (mem (snd (Delete r i t' c)))"
proof (cases "gget (rmItems r c) i")
  case None
  then have "members labelsOf (gdel (rmItems r c) i) = mem c t"
    using assms(2) by (auto simp: mem_items members_gdel removeStr_absent keyed_def)
  then show ?thesis using None assms(1) by (simp add: delete_eq stacks_put mem_put)
next
  case (Some old)
  then have "idOf old = i" using assms(2) by (simp add: keyed_def)
  moreover have "represents (cStacks (removeFromStack t i (labelsOf old) c)) ((mem c)(t := members labelsOf (gdel (rmItems r c) i)))"
    using assms(2) by (intro stacks_delete [OF assms(1) kind(1) mem_items _ Some]) (simp add: keyed_def)
  ultimately show ?thesis using Some by (simp add: delete_eq stacks_put mem_put stack_mem)
qed

end

section \<open>The maps of the cache keep the contracts\<close>

lemma map_items [simp]:
  "rmItems nodesMap = cNodes" "rmItems configsMap = cConfigs" "rmItems secretsMap = cSecrets"
  "rmItems networksMap = cNetworks" "rmItems volumesMap = cVolumes"
  by (simp_all add: nodesMap_def configsMap_def secretsMap_def networksMap_def volumesMap_def)

lemma put_mem:
  "mem (c\<lparr>cConfigs := cs\<rparr>) = (mem c)(EventConfig := members cfLabels cs)"
  "mem (c\<lparr>cSecrets := ss\<rparr>) = (mem c)(EventSecret := members seLabels ss)"
  "mem (c\<lparr>cNetworks := ns\<rparr>) = (mem c)(EventNetwork := members neLabels ns)"
  "mem (c\<lparr>cVolumes := vs\<rparr>) = (mem c)(EventVolume := members voLabels vs)"
  "mem (c\<lparr>cServices := svs\<rparr>) = (mem c)(EventService := members (\<lambda>v. spLabels (svSpec v)) svs)" for c :: cache
  by (rule ext, case_tac x; simp)+

interpretation nodes: resource_map nodesMap maps_ok
  by unfold_locales (simp_all add: nodesMap_def maps_ok_def keyed_def)

interpretation configs: labelled_map configsMap maps_ok EventConfig cfLabels cfID "\<lambda>v. v"
  "\<lambda>c. (cNodes c, cServices c, cTasks c, cSecrets c, cNetworks c, cVolumes c, cServiceRef c, cTasksByService c, cTasksByNode c)"
  by unfold_locales
    (auto simp: configsMap_def configOnSet_def maps_ok_def keyed_def stackKind_def put_mem fun_eq_iff Let_def split: option.split)

lemma clean_version: "seVersion (v\<lparr>seData := None\<rparr>) = seVersion v"
  by simp

interpretation secrets: labelled_map secretsMap maps_ok EventSecret seLabels seID "\<lambda>v. v\<lparr>seData := None\<rparr>"
  "\<lambda>c. (cNodes c, cServices c, cTasks c, cConfigs c, cNetworks c, cVolumes c, cServiceRef c, cTasksByService c, cTasksByNode c)"
  by unfold_locales
    (auto simp: secretsMap_def secretOnSet_def maps_ok_def keyed_def stackKind_def put_mem fun_eq_iff Let_def split: option.split,
     metis clean_version)

interpretation networks: labelled_map networksMap maps_ok EventNetwork neLabels neID "\<lambda>v. v"
  "\<lambda>c. (cNodes c, cServices c, cTasks c, cConfigs c, cSecrets c, cVolumes c, cServiceRef c, cTasksByService c, cTasksByNode c)"
  by unfold_locales
    (auto simp: networksMap_def networkOnSet_def maps_ok_def keyed_def stackKind_def put_mem fun_eq_iff Let_def split: option.split)

interpretation volumes: labelled_map volumesMap maps_ok EventVolume voLabels voName "\<lambda>v. v"
  "\<lambda>c. (cNodes c, cServices c, cTasks c, cConfigs c, cSecrets c, cNetworks c, cServiceRef c, cTasksByService c, cTasksByNode c)"
  by unfold_locales
    (auto simp: volumesMap_def volumeOnSet_def maps_ok_def keyed_def stackKind_def put_mem fun_eq_iff Let_def split: option.split)

section \<open>Writes to one resource\<close>

lemma keyed_clean:
  "keyed seID m \<Longrightarrow> redacted m \<Longrightarrow> keyed seID (gset m (seID v) (v\<lparr>seData := None\<rparr>)) \<and> redacted (gset m (seID v) (v\<lparr>seData := None\<rparr>))"
  by (auto simp: keyed_def redacted_def)

lemma cache_ok_config: "cache_ok c \<Longrightarrow> cache_ok (snd (rm_set configsMap (cfID v) v c))"
  using configs.set_represents [of c v] configs.set_rest [of v c] configs.set_items [of v c]
  by (simp add: cache_ok_def maps_ok_def keyed_gset)

lemma cache_ok_secret: "cache_ok c \<Longrightarrow> cache_ok (snd (rm_set secretsMap (seID v) v c))"
  using secrets.set_represents [of c v] secrets.set_rest [of v c] secrets.set_items [of v c]
    keyed_clean [of "cSecrets c" v]
  by (simp add: cache_ok_def maps_ok_def)

lemma cache_ok_network: "cache_ok c \<Longrightarrow> cache_ok (snd (rm_set networksMap (neID v) v c))"
  using networks.set_represents [of c v] networks.set_rest [of v c] networks.set_items [of v c]
  by (simp add: cache_ok_def maps_ok_def keyed_gset)

lemma cache_ok_volume: "cache_ok c \<Longrightarrow> cache_ok (snd (rm_set volumesMap (voName v) v c))"
  using volumes.set_represents [of c v] volumes.set_rest [of v c] volumes.set_items [of v c]
  by (simp add: cache_ok_def maps_ok_def keyed_gset)

lemma cache_ok_node: "cache_ok c \<Longrightarrow> cache_ok (snd (rm_set nodesMap (nodeID v) v c))"
  using mem_cong [of "c\<lparr>cNodes := m\<rparr>" c for m]
  by (simp add: rm_set_def nodesMap_def cache_ok_def maps_ok_def keyed_gset)

lemma Set_result: "snd (Set r key v t s) = s \<or> snd (Set r key v t s) = snd (rm_set r key v s)"
  by (auto simp: Set_def Let_def split: prod.split)

lemma Add_result: "snd (Add r key v t s) = s \<or> snd (Add r key v t s) = snd (rm_set r key v s)"
  by (auto simp: Add_def split: prod.split)

lemma cache_ok_delete:
  "cache_ok c \<Longrightarrow> cache_ok (snd (Delete configsMap i t c))"
  "cache_ok c \<Longrightarrow> cache_ok (snd (Delete secretsMap i t c))"
  "cache_ok c \<Longrightarrow> cache_ok (snd (Delete networksMap i t c))"
  "cache_ok c \<Longrightarrow> cache_ok (snd (Delete volumesMap i t c))"
  "cache_ok c \<Longrightarrow> cache_ok (snd (Delete nodesMap i t c))"
  using configs.delete_represents [of c i t] configs.delete_rest [of i t c] configs.Delete_items [of i t c]
    secrets.delete_represents [of c i t] secrets.delete_rest [of i t c] secrets.Delete_items [of i t c]
    networks.delete_represents [of c i t] networks.delete_rest [of i t c] networks.Delete_items [of i t c]
    volumes.delete_represents [of c i t] volumes.delete_rest [of i t c] volumes.Delete_items [of i t c]
    mem_cong [of "c\<lparr>cNodes := m\<rparr>" c for m]
    nodes.Delete_items [of i t c]
  by (simp_all add: cache_ok_def maps_ok_def keyed_gdel redacted_def)
    (simp_all add: Delete_def rm_del_def nodesMap_def split: option.splits)

lemmas cache_ok_maps = cache_ok_config cache_ok_secret cache_ok_network cache_ok_volume cache_ok_node

lemma cache_ok_setters [wf_intros]:
  assumes "cache_ok c"
  shows "cache_ok (SetNode E n c)" "cache_ok (SetConfig E cf c)" "cache_ok (AddConfig E cf c)" "cache_ok (SetSecret E se c)"
    "cache_ok (AddSecret E se c)" "cache_ok (SetNetwork E ne c)" "cache_ok (SetVolume E vo c)"
  using cache_ok_maps [OF assms] Set_result Add_result assms
  unfolding SetNode_def SetConfig_def AddConfig_def SetSecret_def AddSecret_def SetNetwork_def SetVolume_def
  by (metis cache_ok_notifySet)+

lemma cache_ok_deleters [wf_intros]:
  assumes "cache_ok c"
  shows "cache_ok (DeleteNode E i c)" "cache_ok (DeleteConfig E i c)" "cache_ok (DeleteSecret E i c)"
    "cache_ok (DeleteNetwork E i c)" "cache_ok (DeleteVolume E i c)"
  unfolding DeleteNode_def DeleteConfig_def DeleteSecret_def DeleteNetwork_def DeleteVolume_def
  using assms by (simp_all add: cache_ok_notifyDelete cache_ok_delete)

section \<open>Services\<close>

abbreviation "svLabels v \<equiv> spLabels (svSpec v)"

lemma cache_ok_storeService:
  assumes "cache_ok c"
  shows "cache_ok (storeService s c)"
proof -
  let ?i = "svID s" let ?svcs = "cServices c"
  define c1 where "c1 = (case gget ?svcs ?i of None \<Rightarrow> c
    | Some old \<Rightarrow> (let c' = removeFromStack EventService (svID old) (svLabels old) c
        in c'\<lparr>cServiceRef := idx_remove old (serviceRefs old) (cServiceRef c')\<rparr>))"
  define c2 where "c2 = c1\<lparr>cServices := gset (cServices c1) ?i s\<rparr>"
  define c3 where "c3 = addToStack EventService ?i (svLabels s) c2"
  have S: "storeService s c = c3\<lparr>cServiceRef := idx_add s (serviceRefs s) (cServiceRef c3)\<rparr>"
    by (simp add: storeService_def Let_def c3_def c2_def c1_def)
  have wf: "gwf ?svcs" and key: "gget ?svcs k = Some v \<Longrightarrow> svID v = k" for k v
    using assms(1) by (auto simp: cache_ok_def maps_ok_def keyed_def)
  have f1: "cServices c1 = ?svcs" "cConfigs c1 = cConfigs c" "cSecrets c1 = cSecrets c" "cNetworks c1 = cNetworks c"
    "cVolumes c1 = cVolumes c" "cNodes c1 = cNodes c" "cTasks c1 = cTasks c" "cTasksByService c1 = cTasksByService c"
    "cTasksByNode c1 = cTasksByNode c"
    by (simp_all add: c1_def Let_def split: option.split)
  have st: "cStacks c2 = cStacks (case gget ?svcs ?i of None \<Rightarrow> c | Some old \<Rightarrow> removeFromStack EventService ?i (svLabels old) c)"
    using key by (auto simp: c2_def c1_def Let_def split: option.split)
  have seed: "seedStack ns c2 = seedStack ns c" for ns by (simp add: seedStack_def c2_def f1)
  have "represents (cStacks c3) ((mem c)(EventService := members (\<lambda>v. svLabels v) (gset ?svcs ?i s)))"
    unfolding c3_def using assms
    by (intro stacks_set [OF _ _ _ wf st seed]) (simp_all add: cache_ok_def stackKind_def)
  moreover have "mem (storeService s c) = (mem c)(EventService := members (\<lambda>v. svLabels v) (gset ?svcs ?i s))"
    using mem_cong [of "storeService s c" "c\<lparr>cServices := gset ?svcs ?i s\<rparr>"]
    by (simp add: S c3_def c2_def f1 put_mem)
  ultimately have stacks: "represents (cStacks (storeService s c)) (mem (storeService s c))" by (simp add: S)
  have refs: "refs_exact (cServiceRef c1) (gdel ?svcs ?i)"
  proof (cases "gget ?svcs ?i")
    case None
    then have "map_of (gdel ?svcs ?i) = map_of ?svcs" by (auto simp: fun_eq_iff)
    then show ?thesis
      using None assms(1) refs_exact_cong [of "gdel ?svcs ?i" ?svcs] by (simp add: c1_def cache_ok_def)
  next
    case (Some old)
    then show ?thesis
      using refs_exact_remove [of "cServiceRef c" ?svcs old] key [OF Some] assms(1)
      by (simp add: c1_def Let_def cache_ok_def)
  qed
  have "refs_exact (idx_add s (serviceRefs s) (cServiceRef c1)) (gset (gdel ?svcs ?i) ?i s)"
    using refs by (rule refs_exact_add) simp
  moreover have "map_of (gset (gdel ?svcs ?i) ?i s) = map_of (gset ?svcs ?i s)" by (auto simp: fun_eq_iff)
  ultimately have "refs_exact (idx_add s (serviceRefs s) (cServiceRef c1)) (gset ?svcs ?i s)"
    using refs_exact_cong by blast
  then show ?thesis
    using assms(1) stacks by (simp add: cache_ok_def maps_ok_def S c3_def c2_def f1 keyed_gset)
qed

lemma cache_ok_dropService:
  assumes "cache_ok c"
  shows "cache_ok (dropService i c)"
proof -
  let ?svcs = "cServices c"
  have wf: "gwf ?svcs" and key: "gget ?svcs k = Some v \<Longrightarrow> svID v = k" for k v
    using assms by (auto simp: cache_ok_def maps_ok_def keyed_def)
  have f: "cServices (dropService i c) = gdel ?svcs i" "cConfigs (dropService i c) = cConfigs c"
    "cSecrets (dropService i c) = cSecrets c" "cNetworks (dropService i c) = cNetworks c" "cVolumes (dropService i c) = cVolumes c"
    "cNodes (dropService i c) = cNodes c" "cTasks (dropService i c) = cTasks c"
    "cTasksByService (dropService i c) = cTasksByService c" "cTasksByNode (dropService i c) = cTasksByNode c"
    by (auto simp: dropService_def Let_def split: option.split)
  have mem: "mem (dropService i c) = (mem c)(EventService := members (\<lambda>v. svLabels v) (gdel ?svcs i))"
    using mem_cong [of "dropService i c" "c\<lparr>cServices := gdel ?svcs i\<rparr>"] f by (simp add: put_mem)
  have "represents (cStacks (dropService i c)) (mem (dropService i c)) \<and> refs_exact (cServiceRef (dropService i c)) (gdel ?svcs i)"
  proof (cases "gget ?svcs i")
    case None
    have "members (\<lambda>v. svLabels v) (gdel ?svcs i) = mem c EventService"
      using members_gdel [OF wf] removeStr_absent [OF wf None] by auto
    then have "mem (dropService i c) = mem c" unfolding mem by (simp only: fun_upd_triv)
    moreover have "map_of (gdel ?svcs i) = map_of ?svcs" using None by (auto simp: fun_eq_iff)
    ultimately show ?thesis
      using None assms refs_exact_cong [of "gdel ?svcs i" ?svcs] by (simp add: dropService_def cache_ok_def)
  next
    case (Some old)
    have "represents (cStacks (removeFromStack EventService i (svLabels old) c)) (mem (dropService i c))"
      unfolding mem using assms by (intro stacks_delete [OF _ _ _ wf Some]) (simp_all add: cache_ok_def stackKind_def)
    moreover have "cStacks (dropService i c) = cStacks (removeFromStack EventService i (svLabels old) c)"
      "cServiceRef (dropService i c) = idx_remove old (serviceRefs old) (cServiceRef c)"
      using Some by (simp_all add: dropService_def Let_def)
    ultimately show ?thesis
      using refs_exact_remove [of "cServiceRef c" ?svcs old] key [OF Some] Some assms by (simp add: cache_ok_def)
  qed
  then show ?thesis using assms by (simp add: cache_ok_def maps_ok_def f keyed_gdel)
qed

lemma cache_ok_SetService [wf_intros]:
  assumes "cache_ok c"
  shows "cache_ok (SetService E s c)"
  using assms same_contents_ok [OF notifyRefChanges_same] cache_ok_notify [OF cache_ok_storeService [OF assms]]
  by (simp add: SetService_def Let_def)

lemma cache_ok_DeleteService [wf_intros]: "cache_ok c \<Longrightarrow> cache_ok (DeleteService E i c)"
  using same_contents_ok [OF notifyRefChanges_same] cache_ok_notify [OF cache_ok_dropService]
  by (simp add: DeleteService_def Let_def)

section \<open>Tasks\<close>

lemma index_exact_cong: "map_of tasks = map_of tasks' \<Longrightarrow> index_exact by f tasks = index_exact by f tasks'"
  by (simp add: index_exact_def)

lemma index_exact_drop:
  assumes "index_exact by f tasks" "gget tasks i = Some old"
    and "\<And>p. gget by' p = (if p = f old then (let m = removeAll i (gor by p []) in if m = [] then None else Some m) else gget by p)"
  shows "index_exact by' f (gdel tasks i)"
proof -
  have "gget by' p \<noteq> Some [] \<and> distinct (gor by' p []) \<and> set (gor by' p []) = {j. p \<noteq> [] \<and> (\<exists>t. gget (gdel tasks i) j = Some t \<and> f t = p)}" for p
  proof (cases "p = f old")
    case True
    have "gor by' p [] = removeAll i (gor by p [])" using assms(3) [of p] True by (simp add: gor_def Let_def)
    then show ?thesis using assms(1) [unfolded index_exact_def, rule_format, of p] assms(3) [of p] True
      by (auto simp: distinct_removeAll Let_def)
  next
    case False
    have "gget by' p = gget by p" "gor by' p [] = gor by p []" using assms(3) [of p] False by (simp_all add: gor_def)
    moreover have "{j. p \<noteq> [] \<and> (\<exists>t. gget (gdel tasks i) j = Some t \<and> f t = p)} = {j. p \<noteq> [] \<and> (\<exists>t. gget tasks j = Some t \<and> f t = p)}"
      using False assms(2) by auto
    ultimately show ?thesis using assms(1) [unfolded index_exact_def, rule_format, of p] by simp
  qed
  then show ?thesis by (simp add: index_exact_def)
qed

lemma gor_empty_key: "index_exact by f tasks \<Longrightarrow> gor by [] [] = [] \<and> gget by [] = None"
proof -
  assume "index_exact by f tasks"
  then have "set (gor by [] []) = {}" "gget by [] \<noteq> Some []" by (auto simp: index_exact_def)
  then show ?thesis by (cases "gget by []") (auto simp: gor_def)
qed

lemma index_exact_dropIndexed:
  assumes "index_exact by f tasks" "gget tasks i = Some old"
  shows "index_exact (dropIndexed (f old) i by) f (gdel tasks i)"
  using gor_empty_key [OF assms(1)]
  by (intro index_exact_drop [OF assms]) (auto simp: dropIndexed_def Let_def gor_def split: option.split)

lemma index_exact_removeIndexed:
  assumes "index_exact by f tasks" "gget tasks i = Some old"
  shows "index_exact (removeIndexed (f old) i by) f (gdel tasks i)"
  by (intro index_exact_drop [OF assms]) (auto simp: removeIndexed_def Let_def)

lemma index_exact_add:
  assumes "index_exact by f tasks" "gget tasks i = None"
  shows "index_exact (addIndexed (f t) i by) f (gset tasks i t)"
proof -
  let ?by = "addIndexed (f t) i by"
  have "gget ?by p \<noteq> Some [] \<and> distinct (gor ?by p []) \<and> set (gor ?by p []) = {j. p \<noteq> [] \<and> (\<exists>x. gget (gset tasks i t) j = Some x \<and> f x = p)}" for p
    using assms(1) [unfolded index_exact_def, rule_format, of p] assms(2)
    by (cases "p = f t") (auto simp: addIndexed_def distinct_insert List.insert_def gor_def)
  then show ?thesis by (simp add: index_exact_def)
qed

definition task_ok :: "cache \<Rightarrow> bool" where
  "task_ok c \<longleftrightarrow> index_exact (cTasksByService c) tServiceID (cTasks c) \<and> index_exact (cTasksByNode c) tNodeID (cTasks c)"

text \<open>What the tasks do not touch.\<close>

definition same_inventory :: "cache \<Rightarrow> cache \<Rightarrow> bool" where
  "same_inventory c c' \<longleftrightarrow> cNodes c' = cNodes c \<and> cServices c' = cServices c \<and> cConfigs c' = cConfigs c \<and>
     cSecrets c' = cSecrets c \<and> cNetworks c' = cNetworks c \<and> cVolumes c' = cVolumes c \<and> cStacks c' = cStacks c \<and>
     cServiceRef c' = cServiceRef c"

lemma cache_ok_tasks:
  assumes "cache_ok c" "same_inventory c c'" "keyed tID (cTasks c')" "task_ok c'"
  shows "cache_ok c'"
  using assms mem_cong [of c' c] by (simp add: cache_ok_def maps_ok_def same_inventory_def task_ok_def)

lemma cache_ok_storeTask:
  assumes "cache_ok c"
  shows "cache_ok (storeTask t c)"
proof -
  let ?i = "tID t" let ?ts = "cTasks c"
  have key: "keyed tID ?ts" and ix: "task_ok c" using assms by (auto simp: cache_ok_def maps_ok_def task_ok_def)
  define c1 where "c1 = (case gget ?ts ?i of None \<Rightarrow> c | Some old \<Rightarrow> removeTaskIndex old c)"
  have f: "cTasks c1 = ?ts" "same_inventory c c1"
    by (auto simp: c1_def removeTaskIndex_def same_inventory_def split: option.split)
  have ix1: "index_exact (cTasksByService c1) tServiceID (gdel ?ts ?i) \<and> index_exact (cTasksByNode c1) tNodeID (gdel ?ts ?i)"
  proof (cases "gget ?ts ?i")
    case None
    then have "map_of (gdel ?ts ?i) = map_of ?ts" by (auto simp: fun_eq_iff)
    then show ?thesis
      using None ix index_exact_cong [of "gdel ?ts ?i" ?ts] by (simp add: c1_def task_ok_def)
  next
    case (Some old)
    then have "tID old = ?i" using key by (simp add: keyed_def)
    then show ?thesis
      using Some ix index_exact_dropIndexed [of "cTasksByService c" tServiceID ?ts ?i old]
        index_exact_dropIndexed [of "cTasksByNode c" tNodeID ?ts ?i old]
      by (simp add: c1_def removeTaskIndex_def task_ok_def)
  qed
  have eq: "map_of (gset (gdel ?ts ?i) ?i t) = map_of (gset ?ts ?i t)" by (auto simp: fun_eq_iff)
  have S: "storeTask t c = addTaskIndex t (c1\<lparr>cTasks := gset ?ts ?i t\<rparr>)"
    by (simp add: storeTask_def c1_def [symmetric] f)
  have "task_ok (storeTask t c)"
    unfolding task_ok_def S using ix1 index_exact_cong [OF eq]
      index_exact_add [of "cTasksByService c1" tServiceID "gdel ?ts ?i" ?i t]
      index_exact_add [of "cTasksByNode c1" tNodeID "gdel ?ts ?i" ?i t]
    by (simp add: addTaskIndex_def)
  moreover have "same_inventory c (storeTask t c)" "keyed tID (cTasks (storeTask t c))"
    using f key by (simp_all add: S addTaskIndex_def same_inventory_def keyed_gset)
  ultimately show ?thesis using cache_ok_tasks [OF assms] by blast
qed

lemma cache_ok_restarts: "cache_ok c \<Longrightarrow> cache_ok (c\<lparr>cRestarts := rt\<rparr>)"
  by (rule same_contents_ok) (simp_all add: same_contents_def)

lemma cache_ok_SetTask [wf_intros]: "cache_ok c \<Longrightarrow> cache_ok (SetTask E t c)"
  by (simp add: SetTask_def Let_def cache_ok_storeTask cache_ok_restarts cache_ok_notify)

lemma cache_ok_dropTask:
  assumes "cache_ok c" "gget (cTasks c) i = Some old" "same_inventory c c'" "cTasks c' = gdel (cTasks c) i"
    and "cTasksByService c' = dropIndexed (tServiceID old) i (cTasksByService c)"
    and "cTasksByNode c' = dropIndexed (tNodeID old) i (cTasksByNode c)"
  shows "cache_ok c'"
proof -
  have "task_ok c'"
    using assms index_exact_dropIndexed [of "cTasksByService c" tServiceID "cTasks c" i old]
      index_exact_dropIndexed [of "cTasksByNode c" tNodeID "cTasks c" i old]
    by (simp add: task_ok_def cache_ok_def)
  moreover have "keyed tID (cTasks c')" using assms(1,4) by (simp add: cache_ok_def maps_ok_def keyed_gdel)
  ultimately show ?thesis using cache_ok_tasks [OF assms(1,3)] by blast
qed

lemma cache_ok_DeleteTask [wf_intros]:
  assumes "cache_ok c"
  shows "cache_ok (DeleteTask E i c)"
proof (cases "gget (cTasks c) i")
  case None
  then have "map_of (gdel (cTasks c) i) = map_of (cTasks c)" by (auto simp: fun_eq_iff)
  then have "cache_ok (c\<lparr>cTasks := gdel (cTasks c) i\<rparr>)"
    using assms index_exact_cong [of "gdel (cTasks c) i" "cTasks c"]
    by (intro cache_ok_tasks [OF assms]) (auto simp: same_inventory_def task_ok_def cache_ok_def maps_ok_def keyed_gdel)
  then show ?thesis using None by (simp add: DeleteTask_def cache_ok_notify)
next
  case (Some old)
  then have i: "tID old = i" using assms by (simp add: cache_ok_def maps_ok_def keyed_def)
  let ?c1 = "removeTaskIndex old c"
  let ?c2 = "if gget (cTasksByService ?c1) (tServiceID old) = None
    then ?c1\<lparr>cGoneServices := gdel (cGoneServices ?c1) (tServiceID old)\<rparr> else ?c1"
  have "cache_ok (?c2\<lparr>cTasks := gdel (cTasks ?c2) i\<rparr>)"
    using i by (intro cache_ok_dropTask [OF assms Some]) (simp_all add: same_inventory_def removeTaskIndex_def)
  then show ?thesis using Some by (simp add: DeleteTask_def Let_def cache_ok_notify case_prod_unfold)
qed

section \<open>The full sync\<close>

definition base_ok :: "cache \<Rightarrow> bool" where
  "base_ok c \<longleftrightarrow> maps_ok c \<and> task_ok c"

lemma listTasks_exact:
  assumes "distinct (map tID ts)"
  shows "index_exact (tsByService (listTasks ts)) tServiceID (tsTasks (listTasks ts))"
    and "index_exact (tsByNode (listTasks ts)) tNodeID (tsTasks (listTasks ts))"
    and "keyed tID (tsTasks (listTasks ts))"
proof -
  have fold: "index_exact (fold (\<lambda>t. addIndexed (f t) (tID t)) ts b) f (fold (\<lambda>v m. gset m (tID v) v) ts m)"
    if "index_exact b f m" "distinct (map tID ts)" "\<forall>t \<in> set ts. gget m (tID t) = None" for b f m ts
    using that
  proof (induction ts arbitrary: b m)
    case (Cons t ts)
    have "index_exact (addIndexed (f t) (tID t) b) f (gset m (tID t) t)"
      using Cons.prems by (intro index_exact_add) auto
    moreover have "\<forall>x \<in> set ts. gget (gset m (tID t) t) (tID x) = None"
    proof
      fix x assume x: "x \<in> set ts"
      then have "tID x \<in> tID ` set ts" by (rule imageI)
      moreover have "tID t \<notin> tID ` set ts" using Cons.prems(2) by simp
      ultimately have "tID x \<noteq> tID t" by metis
      then show "gget (gset m (tID t) t) (tID x) = None" using Cons.prems(3) x by simp
    qed
    ultimately show ?case
      using Cons.IH [of "addIndexed (f t) (tID t) b" "gset m (tID t) t"] Cons.prems(2) by simp
  qed simp
  have "index_exact [] f []" for f by (simp add: index_exact_def)
  then show "index_exact (tsByService (listTasks ts)) tServiceID (tsTasks (listTasks ts))"
    "index_exact (tsByNode (listTasks ts)) tNodeID (tsTasks (listTasks ts))"
    using fold [of "[]" tServiceID "[]" ts] fold [of "[]" tNodeID "[]" ts] assms by (simp_all add: listTasks_def byKey_def)
  show "keyed tID (tsTasks (listTasks ts))" by (simp add: listTasks_def keyed_byKey)
qed

definition sync_ok :: "taskSync \<Rightarrow> bool" where
  "sync_ok ts \<longleftrightarrow> keyed tID (tsTasks ts) \<and> index_exact (tsByService ts) tServiceID (tsTasks ts) \<and>
     index_exact (tsByNode ts) tNodeID (tsTasks ts)"

lemma keepNewerTask_ok:
  assumes "sync_ok ts" "gget (tsTasks ts) i = Some listed" "keyed tID cached"
  shows "sync_ok (keepNewerTask cached (i, listed) ts)"
proof (cases "\<exists>held. gget cached i = Some held \<and> tVersion held > tVersion listed")
  case True
  then obtain held where held: "gget cached i = Some held" "tVersion held > tVersion listed" by blast
  have "tID held = i" using held(1) assms(3) by (simp add: keyed_def)
  moreover have eq: "map_of (gset (gdel (tsTasks ts) i) i held) = map_of (gset (tsTasks ts) i held)" by (auto simp: fun_eq_iff)
  ultimately show ?thesis
    using held assms index_exact_cong [OF eq, of _ tServiceID] index_exact_cong [OF eq, of _ tNodeID]
      index_exact_add [OF index_exact_removeIndexed [of "tsByService ts" tServiceID "tsTasks ts" i listed], of i held]
      index_exact_add [OF index_exact_removeIndexed [of "tsByNode ts" tNodeID "tsTasks ts" i listed], of i held]
    by (simp add: sync_ok_def keepNewerTask_def keyed_gset)
next
  case False
  then show ?thesis using assms(1) by (auto simp: keepNewerTask_def split: option.split)
qed

lemma keepNewerTask_other:
  "j \<noteq> i \<Longrightarrow> gget (tsTasks (keepNewerTask cached (i, listed) ts)) j = gget (tsTasks ts) j"
  by (simp add: keepNewerTask_def split: option.split)

lemma keepNewerTasks_ok:
  assumes "sync_ok ts" "gwf todo" "\<forall>(i, listed) \<in> set todo. gget (tsTasks ts) i = Some listed" "keyed tID cached"
  shows "sync_ok (fold (keepNewerTask cached) todo ts)"
  using assms
proof (induction todo arbitrary: ts)
  case (Cons x todo)
  obtain i listed where x: "x = (i, listed)" by (cases x)
  have "sync_ok (keepNewerTask cached x ts)" using keepNewerTask_ok Cons.prems(1,3,4) x by auto
  moreover have "\<forall>(j, l) \<in> set todo. gget (tsTasks (keepNewerTask cached x ts)) j = Some l"
  proof clarify
    fix j l assume j: "(j, l) \<in> set todo"
    then have "j \<in> fst ` set todo" by (rule image_eqI [rotated]) simp
    moreover have "i \<notin> fst ` set todo" using Cons.prems(2) x by simp
    ultimately have "j \<noteq> i" by metis
    then show "gget (tsTasks (keepNewerTask cached x ts)) j = Some l"
      using Cons.prems(3) j x by (auto simp: keepNewerTask_other)
  qed
  ultimately show ?case using Cons.IH Cons.prems(2,4) by simp
qed simp

lemma replaceTasks_ok:
  assumes "base_ok c" "sync_ok ts"
  shows "base_ok (snd (replaceTasks ts c))"
proof -
  have wf: "gwf (tsTasks ts)" using assms(2) by (simp add: sync_ok_def keyed_def)
  have "sync_ok (fold (keepNewerTask (cTasks c)) (tsTasks ts) ts)"
    using assms gwf_mem_iff [OF wf]
    by (intro keepNewerTasks_ok [OF assms(2) wf]) (auto simp: base_ok_def maps_ok_def)
  then show ?thesis
    using assms(1) by (simp add: replaceTasks_def Let_def pruneGoneServices_def base_ok_def maps_ok_def task_ok_def sync_ok_def)
qed

lemma replaceServices_ok:
  assumes "base_ok c" "keyed svID svcs"
  shows "base_ok (replaceServices svcs remaining c)"
proof -
  define step :: "string \<times> service \<Rightarrow> cache \<Rightarrow> cache" where "step = (\<lambda>(i, old) c. (let c' = c\<lparr>cRestarts := Forget i (cRestarts c)\<rparr> in
     if remaining i \<noteq> [] then c'\<lparr>cGoneServices := gset (cGoneServices c') i old\<rparr> else c'))"
  have "same_contents c (fold step gone c)" for gone and c :: cache
  proof (induction gone arbitrary: c)
    case (Cons x gone)
    have "same_contents c (step x c)" by (simp add: step_def Let_def same_contents_def split: prod.split)
    then show ?case using same_contents_trans [OF _ Cons.IH] by simp
  qed simp
  then have "same_contents c (fold step (filter (\<lambda>(i, _). gget svcs i = None) (cServices c)) c)" .
  moreover have "keyed svID (keepNewer svcs (cServices c) (Some svVersion))"
    using assms by (intro keyed_keepNewer) (auto simp: base_ok_def maps_ok_def)
  ultimately show ?thesis
    using assms(1) unfolding replaceServices_def Let_def step_def [unfolded Let_def, symmetric]
    by (simp add: base_ok_def maps_ok_def task_ok_def same_contents_def)
qed

end
