(* ===== verification/Cache_Reach.thy ===== *)
theory Cache_Reach
  imports Cache_Inv
begin

text \<open>
  The full sync keeps the invariant of \<open>Cache_Inv\<close>, and with it every sequence of operations from
  the empty cache does: the step relation \<open>step\<close>, the states it reaches, and what the invariant says about
  the answers of the cache in each of them.
\<close>

section \<open>The full sync keeps the invariant\<close>

lemma put_eq [simp]:
  "rmPut nodesMap m c = c\<lparr>cNodes := m\<rparr>" "rmPut configsMap ms c = c\<lparr>cConfigs := ms\<rparr>"
  "rmPut secretsMap ss c = c\<lparr>cSecrets := ss\<rparr>" "rmPut networksMap ns c = c\<lparr>cNetworks := ns\<rparr>"
  "rmPut volumesMap vs c = c\<lparr>cVolumes := vs\<rparr>"
  by (simp_all add: nodesMap_def configsMap_def secretsMap_def networksMap_def volumesMap_def)

lemma redacted_keepNewer: "redacted m \<Longrightarrow> redacted cached \<Longrightarrow> redacted (keepNewer m cached ver)"
  unfolding redacted_def keepNewer_def by (auto simp: gget_map_snd split: option.splits if_splits)

lemma redacted_byKey: "redacted (byKey seID (map (\<lambda>s. s\<lparr>seData := None\<rparr>) vs))"
proof -
  have "redacted (fold (\<lambda>v m. gset m (seID v) v) (map (\<lambda>s. s\<lparr>seData := None\<rparr>) vs) m)" if "redacted m" for m
    using that
  proof (induction vs arbitrary: m)
    case (Cons a vs)
    then have "redacted (gset m (seID a) (a\<lparr>seData := None\<rparr>))" by (simp add: redacted_def)
    then show ?case using Cons.IH by simp
  qed simp
  moreover have "redacted []" by (simp add: redacted_def)
  ultimately show ?thesis unfolding byKey_def by blast
qed

lemma base_ok_whenSome: "base_ok c \<Longrightarrow> (\<And>v. base_ok (f v c)) \<Longrightarrow> base_ok (whenSome f x c)"
  by (simp add: whenSome_def split: option.split)

lemma base_ok_Replace:
  assumes "base_ok c"
  shows "base_ok (Replace nodesMap (byKey nodeID nds) c)" "base_ok (Replace configsMap (byKey cfID cfs) c)"
    "base_ok (Replace secretsMap (byKey seID (map (\<lambda>s. s\<lparr>seData := None\<rparr>) ses)) c)"
    "base_ok (Replace networksMap (byKey neID nes) c)" "base_ok (Replace volumesMap (byKey voName vos) c)"
  using assms by (simp_all add: Replace_def base_ok_def maps_ok_def task_ok_def keyed_keepNewer keyed_byKey
      redacted_keepNewer redacted_byKey)

lemma rebuildStacks_frame: "\<exists>st. rebuildStacks c = c\<lparr>cStacks := st\<rparr>"
  by (simp add: rebuildStacks_def Let_def) blast

lemma cache_ok_rebuilt:
  assumes "base_ok c"
  shows "cache_ok ((rebuildStacks c)\<lparr>cServiceRef := idx_rebuild (cServices (rebuildStacks c)), cLastSync := l, cRestarts := rt\<rparr>)"
proof -
  obtain st where st: "rebuildStacks c = c\<lparr>cStacks := st\<rparr>" using rebuildStacks_frame by blast
  have "mem (c\<lparr>cStacks := st, cServiceRef := i, cLastSync := l, cRestarts := rt\<rparr>) = mem c" for i
    by (rule mem_cong) simp_all
  moreover have "represents st (mem c)" using rebuildStacks_represents [of c] st by simp
  moreover have "refs_exact (idx_rebuild (cServices c)) (cServices c)"
    using assms by (intro refs_exact_rebuild) (auto simp: base_ok_def maps_ok_def keyed_def)
  ultimately show ?thesis using assms st by (simp add: cache_ok_def base_ok_def maps_ok_def task_ok_def)
qed

lemma cache_ok_base: "cache_ok c \<Longrightarrow> base_ok c"
  by (simp add: cache_ok_def base_ok_def task_ok_def)

text \<open>Docker lists a task once, so the IDs of a listing differ.\<close>

definition listing_ok :: "fullSyncData \<Rightarrow> bool" where
  "listing_ok d \<longleftrightarrow> (case fsTasks d of None \<Rightarrow> True | Some ts \<Rightarrow> distinct (map tID ts))"

lemma sync_ok_listing: "distinct (map tID ts) \<Longrightarrow> sync_ok (listTasks ts)"
  using listTasks_exact by (simp add: sync_ok_def)

lemma cache_ok_ReplaceAll [wf_intros]:
  assumes "cache_ok c" "listing_ok d"
  shows "cache_ok (ReplaceAll E d c)"
proof -
  have tasks: "base_ok (snd (case map_option listTasks (fsTasks d) of None \<Rightarrow> (([], []), c') | Some ts \<Rightarrow> replaceTasks ts c'))"
    if "base_ok c'" for c'
    using that assms(2) by (auto simp: listing_ok_def replaceTasks_ok sync_ok_listing split: option.split option.splits)
  show ?thesis unfolding ReplaceAll_def Let_def case_prod_unfold
    by (rule cache_ok_notify, rule cache_ok_rebuilt)
      (intro base_ok_whenSome base_ok_Replace tasks replaceServices_ok keyed_byKey cache_ok_base [OF assms(1)])
qed

section \<open>Reachable caches\<close>

text \<open>
  Announcing and withdrawing a write change the attributions alone, so
  \<open>Expecting\<close> lets them become anything. Resolvers and queries read without a step.
\<close>

inductive cacheStep :: "cache \<Rightarrow> cache \<Rightarrow> bool" where
  SetNode: "cacheStep c (SetNode E n c)"
| DeleteNode: "cacheStep c (DeleteNode E i c)"
| SetService: "cacheStep c (SetService E s c)"
| DeleteService: "cacheStep c (DeleteService E i c)"
| SetTask: "cacheStep c (SetTask E t c)"
| DeleteTask: "cacheStep c (DeleteTask E i c)"
| SetConfig: "cacheStep c (SetConfig E cf c)"
| AddConfig: "cacheStep c (AddConfig E cf c)"
| DeleteConfig: "cacheStep c (DeleteConfig E i c)"
| SetSecret: "cacheStep c (SetSecret E se c)"
| AddSecret: "cacheStep c (AddSecret E se c)"
| DeleteSecret: "cacheStep c (DeleteSecret E i c)"
| SetNetwork: "cacheStep c (SetNetwork E ne c)"
| DeleteNetwork: "cacheStep c (DeleteNetwork E i c)"
| SetVolume: "cacheStep c (SetVolume E vo c)"
| DeleteVolume: "cacheStep c (DeleteVolume E i c)"
| ReplaceAll: "listing_ok d \<Longrightarrow> cacheStep c (ReplaceAll E d c)"
| RecordGap: "cacheStep c (RecordRecoveredGap E start es rf c)"
| Listen: "cacheStep c (snd (AddOnChangeListener c))"
| Cancel: "cacheStep c (cancelListener l c)"
| Expecting: "cacheStep c (c\<lparr>cAttributions := as\<rparr>)"

inductive reachable :: "cache \<Rightarrow> bool" where
  start: "reachable (New now inst n)"
| more: "reachable c \<Longrightarrow> cacheStep c c' \<Longrightarrow> reachable c'"

lemma same_contents_others:
  "same_contents c (snd (AddOnChangeListener c))" "same_contents c (cancelListener l c)"
  "same_contents c (c\<lparr>cAttributions := as\<rparr>)"
  by (simp_all add: same_contents_def AddOnChangeListener_def cancelListener_def)

lemma cache_ok_step: "cacheStep c c' \<Longrightarrow> cache_ok c \<Longrightarrow> cache_ok c'"
proof (induction rule: cacheStep.induct)
  case (SetService c E s)
  then show ?case by (simp add: cache_ok_SetService)
qed (auto intro: wf_intros intro!: same_contents_ok [OF same_contents_others(1)] same_contents_ok [OF same_contents_others(2)]
    same_contents_ok [OF same_contents_others(3)] same_contents_ok [OF RecordRecoveredGap_same])

lemma cache_ok_New: "cache_ok (New now inst n)"
proof -
  have "mem (New now inst n) t = (\<lambda>_. [])" for t by (cases t) (simp_all add: New_def members_def fun_eq_iff)
  then show ?thesis
    using refs_exact_rebuild [of "[]"]
    by (simp add: cache_ok_def maps_ok_def represents_def New_def keyed_def redacted_def index_exact_def idx_rebuild_def members_def)
qed

lemma reachable_ok: "reachable c \<Longrightarrow> cache_ok c"
  by (induction rule: reachable.induct) (auto intro: cache_ok_New cache_ok_step)

section \<open>What listeners are handed\<close>

definition clean_res :: "resource option \<Rightarrow> bool" where
  "clean_res x \<longleftrightarrow> (case x of Some (RSecret s) \<Rightarrow> seData s = None | _ \<Rightarrow> True)"

definition clean_event :: "event \<Rightarrow> bool" where
  "clean_event e \<longleftrightarrow> clean_res (eResource e) \<and> clean_res (ePrevious e)"

text \<open>
  \<open>sends c c'\<close>: from \<open>c\<close> to \<open>c'\<close> only clean events are handed out, under history IDs that never fall.
\<close>

definition sends :: "cache \<Rightarrow> cache \<Rightarrow> bool" where
  "sends c c' \<longleftrightarrow> hsCount (cHistory c) \<le> hsCount (cHistory c') \<and>
     (\<exists>new. cDispatched c' = cDispatched c @ new \<and> sorted (map (\<lambda>(_, _, h). h) new) \<and>
        (\<forall>(l, e, h) \<in> set new. clean_event e \<and> hsCount (cHistory c) \<le> h \<and> h \<le> hsCount (cHistory c')))"

lemma sends_quiet: "cDispatched c' = cDispatched c \<Longrightarrow> cHistory c' = cHistory c \<Longrightarrow> sends c c'"
  by (simp add: sends_def)

lemma sends_trans:
  assumes "sends c1 c2" "sends c2 c3"
  shows "sends c1 c3"
proof -
  let ?n = "\<lambda>c. hsCount (cHistory c)"
  from assms(1) obtain n1 where n1: "?n c1 \<le> ?n c2" "cDispatched c2 = cDispatched c1 @ n1" "sorted (map (\<lambda>(_, _, h). h) n1)"
    "\<forall>(l, e, h) \<in> set n1. clean_event e \<and> ?n c1 \<le> h \<and> h \<le> ?n c2" unfolding sends_def by blast
  from assms(2) obtain n2 where n2: "?n c2 \<le> ?n c3" "cDispatched c3 = cDispatched c2 @ n2" "sorted (map (\<lambda>(_, _, h). h) n2)"
    "\<forall>(l, e, h) \<in> set n2. clean_event e \<and> ?n c2 \<le> h \<and> h \<le> ?n c3" unfolding sends_def by blast
  have "sorted (map (\<lambda>(_, _, h). h) (n1 @ n2))"
    using n1(3,4) n2(3,4) by (fastforce simp: sorted_append)
  moreover have "\<forall>(l, e, h) \<in> set (n1 @ n2). clean_event e \<and> ?n c1 \<le> h \<and> h \<le> ?n c3"
    using n1(1,4) n2(1,4) by fastforce
  ultimately show ?thesis using n1(1,2) n2(1,2) unfolding sends_def by (intro conjI exI [of _ "n1 @ n2"]) simp_all
qed

lemma sends_dispatch:
  assumes "sends c c'" "clean_event e" "h = hsCount (cHistory c')"
  shows "sends c (dispatch e h c')"
proof -
  have "sends c' (dispatch e h c')"
    unfolding sends_def dispatch_def
    by (intro conjI exI [of _ "map (\<lambda>l. (l, e, h)) (cListeners c')"])
      (use assms in \<open>auto simp: o_def sorted_map sorted_wrt_iff_nth_less\<close>)
  then show ?thesis by (rule sends_trans [OF assms(1)])
qed

lemma Append_count: "fst (Append now e h) = hsCount h + 1" "hsCount (snd (Append now e h)) = hsCount h + 1"
  by (simp_all add: Append_def Let_def stepCursor_def)

lemma Append_fold_count: "hsCount h \<le> hsCount (fold (\<lambda>e h. snd (Append now e h)) es h)"
proof (induction es arbitrary: h)
  case (Cons e es)
  show ?case using Cons.IH [of "snd (Append now e h)"] Append_count(2) [of now e h] by simp
qed simp

lemma sends_counts: "cDispatched c' = cDispatched c \<Longrightarrow> hsCount (cHistory c) \<le> hsCount (cHistory c') \<Longrightarrow> sends c c'"
  by (simp add: sends_def)

lemma sends_notify:
  assumes "clean_event e"
  shows "sends c (notify E e c)"
proof -
  let ?e1 = "if eName e = [] then e\<lparr>eName := ExtractName e\<rparr> else e"
  have e1: "clean_event ?e1" using assms by (simp add: clean_event_def)
  then have e2: "clean_event (if b then ?e1\<lparr>eService := s, eStack := st\<rparr> else ?e1)" for b s st
    by (simp add: clean_event_def)
  show ?thesis
    unfolding notify_def Let_def case_prod_unfold
    by (rule if_split [THEN iffD2], intro conjI impI sends_dispatch sends_counts e2)
      (simp_all add: Append_count)
qed

lemma sends_notifySet: "sends c (snd r) \<Longrightarrow> (\<And>e. fst r = Some e \<Longrightarrow> clean_event e) \<Longrightarrow> sends c (notifySet E r)"
  by (cases r; cases "fst r") (auto simp: notifySet_def intro: sends_trans sends_notify)

lemma sends_notifyDelete: "sends c (snd r) \<Longrightarrow> clean_event (fst r) \<Longrightarrow> sends c (notifyDelete E r)"
  by (cases r) (auto simp: notifyDelete_def intro: sends_trans sends_notify)

lemma sends_fold: "\<forall>e \<in> set es. clean_event e \<Longrightarrow> sends c (fold (notify E) es c)"
proof (induction es arbitrary: c)
  case (Cons e es)
  then show ?case using sends_trans [OF sends_notify Cons.IH] by simp
qed (simp add: sends_quiet)

lemma sends_refChanges: "sends c (notifyRefChanges E old new c)"
  unfolding notifyRefChanges_def
  by (rule sends_fold) (auto simp: diffNotify_def newEvent_def clean_event_def clean_res_def)

lemma sends_RecordRecoveredGap: "sends c (RecordRecoveredGap E start es rf c)"
  unfolding RecordRecoveredGap_def Let_def case_prod_unfold
  using Append_fold_count [of "cHistory c" "envNow E" es]
  by (intro sends_dispatch sends_counts) (simp_all add: Append_count clean_event_def newEvent_def clean_res_def)

text \<open>Below the notifications, an operation leaves the log and the history alone.\<close>

definition quiet :: "cache \<Rightarrow> cache \<Rightarrow> bool" where
  "quiet c c' \<longleftrightarrow> cDispatched c' = cDispatched c \<and> cHistory c' = cHistory c"

lemma quiet_sends: "quiet c c' \<Longrightarrow> sends c c'"
  by (simp add: quiet_def sends_quiet)

lemma quiet_stack [simp]:
  "quiet c (addToStack t i l c') = quiet c c'" "quiet c (removeFromStack t i l c') = quiet c c'"
  using addToStack_frame [of t i l c'] removeFromStack_frame [of t i l c'] by (auto simp: quiet_def)

lemma quiet_stack_field [simp]:
  fixes c :: cache
  shows "cGoneServices (removeFromStack t i l c) = cGoneServices c" "cDispatched (removeFromStack t i l c) = cDispatched c"
    "cHistory (removeFromStack t i l c) = cHistory c" "cDispatched (addToStack t i l c) = cDispatched c"
    "cHistory (addToStack t i l c) = cHistory c"
  using removeFromStack_frame [of t i l c] addToStack_frame [of t i l c] by auto

lemma quiet_rm_set:
  "quiet c (snd (rm_set nodesMap k1 n c))" "quiet c (snd (rm_set configsMap k2 cf c))"
  "quiet c (snd (rm_set secretsMap k3 se c))" "quiet c (snd (rm_set networksMap k4 ne c))"
  "quiet c (snd (rm_set volumesMap k5 vo c))"
  by (simp_all add: rm_set_def nodesMap_def configsMap_def configOnSet_def secretsMap_def secretOnSet_def networksMap_def
      networkOnSet_def volumesMap_def volumeOnSet_def Let_def quiet_def split: option.split)

lemma quiet_rm_del:
  "quiet c (snd (rm_del nodesMap k c))" "quiet c (snd (rm_del configsMap k c))"
  "quiet c (snd (rm_del secretsMap k c))" "quiet c (snd (rm_del networksMap k c))"
  "quiet c (snd (rm_del volumesMap k c))"
  by (simp_all add: rm_del_def nodesMap_def configsMap_def secretsMap_def networksMap_def volumesMap_def Let_def quiet_def
      split: option.split)

lemma map_any [simp]:
  "rmAny nodesMap = RNode" "rmAny configsMap = RConfig" "rmAny secretsMap = RSecret"
  "rmAny networksMap = RNetwork" "rmAny volumesMap = RVolume"
  by (simp_all add: nodesMap_def configsMap_def secretsMap_def networksMap_def volumesMap_def)

lemma clean_simps [simp]:
  "clean_res None" "clean_res (Some (RNode n))" "clean_res (Some (RService s))" "clean_res (Some (RTask t))"
  "clean_res (Some (RConfig cf))" "clean_res (Some (RNetwork ne))" "clean_res (Some (RVolume vo))"
  "clean_res (Some (RSecret se)) = (seData se = None)"
  by (simp_all add: clean_res_def)

lemma sends_Set:
  assumes "quiet c (snd (rm_set r key v c))" "clean_res (Some (rmAny r (fst (rm_set r key v c))))"
    and "\<And>old. gget (rmItems r c) key = Some old \<Longrightarrow> clean_res (Some (rmAny r old))"
  shows "sends c (notifySet E (Set r key v t c))" "sends c (notifySet E (Add r key v t c))"
proof -
  have "quiet c c" by (simp add: quiet_def)
  then show "sends c (notifySet E (Set r key v t c))"
    using assms by (intro sends_notifySet quiet_sends)
      (auto simp: Set_def Let_def clean_event_def newEvent_def case_prod_unfold split: if_splits option.splits)
  show "sends c (notifySet E (Add r key v t c))"
    using assms \<open>quiet c c\<close> by (intro sends_notifySet quiet_sends)
      (auto simp: Add_def Let_def clean_event_def newEvent_def case_prod_unfold split: if_splits)
qed

lemma sends_Delete:
  assumes "quiet c (snd (rm_del r key c))" "\<And>old. gget (rmItems r c) key = Some old \<Longrightarrow> clean_res (Some (rmAny r old))"
  shows "sends c (notifyDelete E (Delete r key t c))"
  using assms by (intro sends_notifyDelete quiet_sends; cases "gget (rmItems r c) key")
    (auto simp: Delete_def Let_def clean_event_def newEvent_def case_prod_unfold)

lemma fst_rm_set_secret: "seData (fst (rm_set secretsMap key v c)) = None"
  by (simp add: rm_set_def secretsMap_def secretOnSet_def Let_def)

lemma sends_maps:
  "sends c (SetNode E n c)" "sends c (SetConfig E cf c)" "sends c (AddConfig E cf c)"
  "sends c (SetNetwork E ne c)" "sends c (SetVolume E vo c)"
  "sends c (DeleteNode E i c)" "sends c (DeleteConfig E i c)" "sends c (DeleteNetwork E i c)" "sends c (DeleteVolume E i c)"
  by (simp_all add: SetNode_def SetConfig_def AddConfig_def SetNetwork_def SetVolume_def DeleteNode_def DeleteConfig_def
      DeleteNetwork_def DeleteVolume_def sends_Set sends_Delete quiet_rm_set quiet_rm_del)

lemma sends_secrets:
  assumes "redacted (cSecrets c)"
  shows "sends c (SetSecret E se c)" "sends c (AddSecret E se c)" "sends c (DeleteSecret E i c)"
proof -
  have "\<And>k old. gget (cSecrets c) k = Some old \<Longrightarrow> seData old = None" using assms by (simp add: redacted_def)
  then show "sends c (SetSecret E se c)" "sends c (AddSecret E se c)" "sends c (DeleteSecret E i c)"
    by (auto simp: SetSecret_def AddSecret_def DeleteSecret_def fst_rm_set_secret
        intro!: sends_Set sends_Delete quiet_rm_set quiet_rm_del)
qed

lemma quiet_store:
  "quiet c (storeService s c)" "quiet c (dropService i c)" "quiet c (storeTask t c)"
  by (simp_all add: quiet_def storeService_def dropService_def storeTask_def addTaskIndex_def removeTaskIndex_def Let_def
      split: option.split)

lemma sends_services: "sends c (SetService E s c)" "sends c (DeleteService E i c)"
proof -
  have "clean_event ((newEvent t a j n)\<lparr>eResource := map_option RService x\<rparr>)" for t a j n x
    by (cases x) (simp_all add: clean_event_def newEvent_def)
  from sends_notify [OF this] have note_: "sends c' (notify E ((newEvent t a j n)\<lparr>eResource := map_option RService x\<rparr>) c')" for c' t a j n x .
  show "sends c (SetService E s c)"
    using sends_trans [OF sends_trans [OF quiet_sends [OF quiet_store(1)] note_ [where x = "Some s"]] sends_refChanges]
    by (simp add: SetService_def Let_def sends_quiet)
  show "sends c (DeleteService E i c)"
    unfolding DeleteService_def Let_def
    by (rule sends_trans [OF sends_trans [OF quiet_sends [OF quiet_store(2)] note_] sends_refChanges])
qed

lemma sends_tasks: "sends c (SetTask E t c)" "sends c (DeleteTask E i c)"
proof -
  have note_: "sends c' (notify E ((newEvent ty a j n)\<lparr>eService := sv, eStack := st, eResource := map_option RTask x\<rparr>) c')"
    for c' ty a j n sv st x
    by (rule sends_notify, cases x) (simp_all add: clean_event_def newEvent_def)
  have q: "quiet c c2 \<Longrightarrow> sends c (notify E ((newEvent ty a j n)\<lparr>eResource := Some (RTask t)\<rparr>) c2)" for c2 ty a j n
    by (rule sends_trans [OF quiet_sends sends_notify]) (simp_all add: clean_event_def newEvent_def)
  have "quiet c (c1\<lparr>cRestarts := rt\<rparr>)" if "quiet c c1" for c1 rt using that by (simp add: quiet_def)
  then show "sends c (SetTask E t c)"
    using quiet_store(3) [of c t] q
    by (simp add: SetTask_def Let_def sends_quiet quiet_sends)
  show "sends c (DeleteTask E i c)"
    unfolding DeleteTask_def Let_def case_prod_unfold
    by (rule sends_trans [OF quiet_sends note_]) (simp add: quiet_def removeTaskIndex_def split: option.split)
qed

lemma quiet_whenSome: "quiet c c' \<Longrightarrow> (\<And>v. quiet c (f v c')) \<Longrightarrow> quiet c (whenSome f x c')"
  by (simp add: whenSome_def split: option.split)

lemma quiet_Replace:
  assumes "quiet c c'"
  shows "quiet c (Replace nodesMap m1 c')" "quiet c (Replace configsMap m2 c')" "quiet c (Replace secretsMap m3 c')"
    "quiet c (Replace networksMap m4 c')" "quiet c (Replace volumesMap m5 c')"
  using assms by (simp_all add: Replace_def quiet_def)

lemma quiet_replaceServices:
  assumes "quiet c c'"
  shows "quiet c (replaceServices svcs remaining c')"
proof -
  define step :: "string \<times> service \<Rightarrow> cache \<Rightarrow> cache" where "step = (\<lambda>(i, old) c. (let c' = c\<lparr>cRestarts := Forget i (cRestarts c)\<rparr> in
     if remaining i \<noteq> [] then c'\<lparr>cGoneServices := gset (cGoneServices c') i old\<rparr> else c'))"
  have step: "quiet c (step x c')" if "quiet c c'" for c' x
    using that by (simp add: step_def Let_def quiet_def split: prod.split)
  have "quiet c (fold step gone c')" if "quiet c c'" for gone c'
    using that by (induction gone arbitrary: c') (simp_all add: step)
  from this [OF assms] show ?thesis
    unfolding replaceServices_def Let_def step_def [unfolded Let_def, symmetric] by (simp add: quiet_def)
qed

lemma quiet_replaceTasks:
  "quiet c c' \<Longrightarrow> quiet c (snd (case x of None \<Rightarrow> (([], []), c') | Some ts \<Rightarrow> replaceTasks ts c'))"
  by (simp add: replaceTasks_def Let_def pruneGoneServices_def quiet_def split: option.split)

lemma quiet_rebuilt: "quiet c c' \<Longrightarrow>
    quiet c ((rebuildStacks c')\<lparr>cServiceRef := idx, cLastSync := l, cRestarts := rt\<rparr>)"
  using rebuildStacks_frame [of c'] by (auto simp: quiet_def)

lemma sends_ReplaceAll: "sends c (ReplaceAll E d c)"
proof -
  have e: "clean_event (newEvent EventSync ''full_sync'' [] [])" by (simp add: clean_event_def newEvent_def)
  have "quiet c c" by (simp add: quiet_def)
  then show ?thesis
    unfolding ReplaceAll_def Let_def case_prod_unfold
    by (intro sends_trans [OF quiet_sends sends_notify [OF e]] quiet_rebuilt quiet_whenSome quiet_Replace
        quiet_replaceTasks quiet_replaceServices)
qed

lemma sends_step: "cacheStep c c' \<Longrightarrow> redacted (cSecrets c) \<Longrightarrow> sends c c'"
  by (induction rule: cacheStep.induct)
    (auto intro: sends_maps sends_secrets sends_services sends_tasks sends_ReplaceAll sends_RecordRecoveredGap
      simp: AddOnChangeListener_def cancelListener_def sends_quiet)

lemma reachable_sends: "reachable c \<Longrightarrow> \<exists>now inst n. sends (New now inst n) c"
proof (induction rule: reachable.induct)
  case (more c c')
  moreover have "redacted (cSecrets c)" using reachable_ok [OF more(1)] by (simp add: cache_ok_def maps_ok_def)
  ultimately show ?case using sends_trans sends_step by blast
qed (auto intro: sends_quiet)

end
