(* ===== verification/Cache_Query.thy ===== *)
theory Cache_Query
  imports Cache_Reach
begin

text \<open>
  The read operations of \<open>internal/cache/cache.go\<close>: lists, filtered task lists, replica and job counters,
  cross references and stacks, and what they answer in a reachable cache. A list is returned in
  an order that does not depend on Go's map iteration; \<open>slices.SortFunc\<close> leaves the order of items its
  comparison calls equal open, and \<open>sort_key\<close> keeps them as they were.
\<close>

section \<open>Lists\<close>

definition ListServices :: "cache \<Rightarrow> service list option" where
  "ListServices c = (let out = map snd (cServices c) in sortByIndex (\<lambda>i. svID (out ! i)) out)"

definition EachService :: "service \<Rightarrow> (service \<Rightarrow> 'a \<Rightarrow> bool \<times> 'a) \<Rightarrow> cache \<Rightarrow> 'a \<Rightarrow> 'a" where
  "EachService z yld c acc = eachLoop yld (map (\<lambda>i. gor (cServices c) i z) (sort (gkeys (cServices c)))) acc"

text \<open>\<open>compareTasks\<close> compares these pairs.\<close>

definition taskKey :: "task \<Rightarrow> int \<times> string" where
  "taskKey t = (tSlot t, tID t)"

definition ListTasks :: "cache \<Rightarrow> task list option" where
  "ListTasks c = (let out = map snd (cTasks c) in sortByIndex (\<lambda>i. taskKey (out ! i)) out)"

definition EachTask :: "task \<Rightarrow> (task \<Rightarrow> 'a \<Rightarrow> bool \<times> 'a) \<Rightarrow> cache \<Rightarrow> 'a \<Rightarrow> 'a" where
  "EachTask z yld c acc = (let keys = sort (map (\<lambda>(i, t). (tSlot t, i)) (cTasks c))
     in eachLoop yld (map (\<lambda>(_, i). gor (cTasks c) i z) keys) acc)"

definition eachTaskUnordered :: "(task \<Rightarrow> 'a \<Rightarrow> bool \<times> 'a) \<Rightarrow> cache \<Rightarrow> 'a \<Rightarrow> 'a" where
  "eachTaskUnordered yld c acc = eachLoop yld (map snd (cTasks c)) acc"

definition indexedTasks :: "string list \<Rightarrow> cache \<Rightarrow> task list" where
  "indexedTasks ids c = List.map_filter (gget (cTasks c)) ids"

definition ListTasksByService :: "string \<Rightarrow> cache \<Rightarrow> task list" where
  "ListTasksByService serviceID c = sort_key taskKey (indexedTasks (gor (cTasksByService c) serviceID []) c)"

definition ListTasksByNode :: "string \<Rightarrow> cache \<Rightarrow> task list" where
  "ListTasksByNode nodeID' c = sort_key taskKey (indexedTasks (gor (cTasksByNode c) nodeID' []) c)"

section \<open>Counters\<close>

definition TaskIsLive :: "task \<Rightarrow> bool" where
  "TaskIsLive t \<longleftrightarrow> tDesiredState t \<noteq> TaskStateShutdown \<and> tDesiredState t \<noteq> TaskStateRemove"

definition CountsAsRunningReplica :: "task \<Rightarrow> bool" where
  "CountsAsRunningReplica t \<longleftrightarrow> tState t = TaskStateRunning \<and> TaskIsLive t"

definition RunningTaskCount :: "string \<Rightarrow> cache \<Rightarrow> nat" where
  "RunningTaskCount serviceID c =
     length (filter CountsAsRunningReplica (indexedTasks (gor (cTasksByService c) serviceID []) c))"

definition increment :: "string \<Rightarrow> nat gomap \<Rightarrow> nat gomap" where
  "increment i m = gset m i (gor m i 0 + 1)"

definition RunningTaskCounts :: "cache \<Rightarrow> nat gomap" where
  "RunningTaskCounts c = fold (\<lambda>(_, t) counts. if CountsAsRunningReplica t then increment (tServiceID t) counts else counts)
     (cTasks c) []"

definition IsJobService :: "service \<Rightarrow> bool" where
  "IsJobService svc \<longleftrightarrow> is_ReplicatedJob (spMode (svSpec svc)) \<or> spMode (svSpec svc) = GlobalJob"

definition inCurrentJobRun :: "service \<Rightarrow> task \<Rightarrow> bool" where
  "inCurrentJobRun svc t = (case (svJobIteration svc, tJobIteration t) of
     (Some current, Some iteration) \<Rightarrow> iteration = current | _ \<Rightarrow> True)"

definition CountsAsJobCompletion :: "service \<Rightarrow> task \<Rightarrow> bool" where
  "CountsAsJobCompletion svc t = (if \<not> IsJobService svc \<or> tState t \<noteq> TaskStateComplete then False else inCurrentJobRun svc t)"

definition countsAsJobFailure :: "service \<Rightarrow> task \<Rightarrow> bool" where
  "countsAsJobFailure svc t \<longleftrightarrow> IsJobService svc \<and> (tState t = TaskStateFailed \<or> tState t = TaskStateRejected) \<and>
     inCurrentJobRun svc t"

record taskTally =
  tlRunning :: nat
  tlCompleted :: nat
  tlFailed :: nat

definition tallyTask :: "service \<Rightarrow> task \<Rightarrow> taskTally \<Rightarrow> taskTally" where
  "tallyTask svc t ta =
     (if CountsAsRunningReplica t then ta\<lparr>tlRunning := tlRunning ta + 1\<rparr>
      else if CountsAsJobCompletion svc t then ta\<lparr>tlCompleted := tlCompleted ta + 1\<rparr>
      else if countsAsJobFailure svc t then ta\<lparr>tlFailed := tlFailed ta + 1\<rparr> else ta)"

definition TaskTallies :: "service list \<Rightarrow> cache \<Rightarrow> taskTally gomap" where
  "TaskTallies services c = fold (\<lambda>given tallies. case gget (cServices c) (svID given) of
       None \<Rightarrow> tallies
     | Some svc \<Rightarrow> gset tallies (svID svc)
         (fold (tallyTask svc) (indexedTasks (gor (cTasksByService c) (svID svc) []) c)
            \<lparr>tlRunning = 0, tlCompleted = 0, tlFailed = 0\<rparr>)) services []"

definition CompletedJobTaskCount :: "string \<Rightarrow> cache \<Rightarrow> nat" where
  "CompletedJobTaskCount serviceID c = (case gget (cServices c) serviceID of
     None \<Rightarrow> 0
   | Some svc \<Rightarrow> length (filter (CountsAsJobCompletion svc) (indexedTasks (gor (cTasksByService c) serviceID []) c)))"

definition CompletedJobTaskCounts :: "cache \<Rightarrow> nat gomap" where
  "CompletedJobTaskCounts c = fold (\<lambda>(_, t) counts. case gget (cServices c) (tServiceID t) of
       Some svc \<Rightarrow> if CountsAsJobCompletion svc t then increment (tServiceID t) counts else counts
     | None \<Rightarrow> counts) (cTasks c) []"

section \<open>Cross references and stacks\<close>

definition ServicesUsingConfig :: "string \<Rightarrow> cache \<Rightarrow> serviceRef list" where
  "ServicesUsingConfig i c = lookup (byConfig (cServiceRef c)) i (cServices c)"

definition ServicesUsingSecret :: "string \<Rightarrow> cache \<Rightarrow> serviceRef list" where
  "ServicesUsingSecret i c = lookup (bySecret (cServiceRef c)) i (cServices c)"

definition ServicesUsingNetwork :: "string \<Rightarrow> cache \<Rightarrow> serviceRef list" where
  "ServicesUsingNetwork i c = lookup (byNetwork (cServiceRef c)) i (cServices c)"

definition ServicesUsingVolume :: "string \<Rightarrow> cache \<Rightarrow> serviceRef list" where
  "ServicesUsingVolume i c = lookup (byVolume (cServiceRef c)) i (cServices c)"

definition GetStack :: "string \<Rightarrow> cache \<Rightarrow> stack option" where
  "GetStack name c = gget (cStacks c) name"

definition ListStacks :: "cache \<Rightarrow> stack list" where
  "ListStacks c = sort_key stName (map snd (cStacks c))"

record stackDetail =
  sdName :: string
  sdServices :: "service list"
  sdConfigs :: "config list"
  sdSecrets :: "secret list"
  sdNetworks :: "network list"
  sdVolumes :: "volume list"

definition GetStackDetail :: "string \<Rightarrow> cache \<Rightarrow> stackDetail option" where
  "GetStackDetail name c = (case gget (cStacks c) name of
     None \<Rightarrow> None
   | Some s \<Rightarrow> Some \<lparr>sdName = stName s,
       sdServices = sort_key (\<lambda>v. spName (svSpec v)) (List.map_filter (gget (cServices c)) (stServices s)),
       sdConfigs = sort_key cfName (List.map_filter (gget (cConfigs c)) (stConfigs s)),
       sdSecrets = sort_key seName (List.map_filter (gget (cSecrets c)) (stSecrets s)),
       sdNetworks = sort_key neName (List.map_filter (gget (cNetworks c)) (stNetworks s)),
       sdVolumes = sort_key voName (List.map_filter (gget (cVolumes c)) (stVolumes s))\<rparr>)"

section \<open>Sorting through positions\<close>

lemma map_insort_key: "map g (insort_key (\<lambda>x. f (g x)) x xs) = insort_key f (g x) (map g xs)"
  by (induction xs) auto

lemma map_sort_key: "map g (sort_key (\<lambda>x. f (g x)) xs) = sort_key f (map g xs)"
  by (induction xs) (simp_all add: map_insort_key)

lemma sortByIndex_sort: "sortByIndex (\<lambda>i. f (xs ! i)) xs = Some (sort_key f xs)"
  using map_sort_key [of "\<lambda>i. xs ! i" f "[0..<length xs]"] by (simp add: sortByIndex_gathers map_nth)

lemma ListTasks_eq: "ListTasks c = Some (sort_key taskKey (map snd (cTasks c)))"
  by (simp add: ListTasks_def Let_def sortByIndex_sort)

lemma ListServices_eq: "ListServices c = Some (sort_key svID (map snd (cServices c)))"
  by (simp add: ListServices_def Let_def sortByIndex_sort)

section \<open>The task indexes answer for the task table\<close>

lemma keyed_values:
  assumes "keyed key m"
  shows "distinct (map snd m)" "v \<in> set (map snd m) \<longleftrightarrow> gget m (key v) = Some v"
proof -
  have wf: "gwf m" and k: "\<And>i v. gget m i = Some v \<Longrightarrow> key v = i" using assms by (auto simp: keyed_def)
  have fst_of: "fst p = key (snd p)" if "p \<in> set m" for p using that k gwf_mem_iff [OF wf, of "fst p" "snd p"] by simp
  have "map key (map snd m) = map fst m" using fst_of by simp
  then show "distinct (map snd m)" using wf distinct_map by metis
  show "v \<in> set (map snd m) \<longleftrightarrow> gget m (key v) = Some v"
  proof
    assume "v \<in> set (map snd m)"
    then obtain i where i: "(i, v) \<in> set m" by auto
    then show "gget m (key v) = Some v" using fst_of [of "(i, v)"] gwf_mem_iff [OF wf, of i v] by simp
  next
    assume "gget m (key v) = Some v"
    then have "(key v, v) \<in> set m" using gwf_mem_iff [OF wf] by simp
    then show "v \<in> set (map snd m)" by force
  qed
qed

lemma map_filter_distinct:
  assumes "keyed key m" "distinct ids"
  shows "distinct (List.map_filter (gget m) ids)"
  using assms(2)
proof (induction ids)
  case (Cons i ids)
  have "v \<in> set (List.map_filter (gget m) ids) \<Longrightarrow> key v \<in> set ids" for v
    using assms(1) by (auto simp: map_filter_def keyed_def)
  then show ?case using Cons assms(1) by (auto simp: keyed_def split: option.split)
qed simp

lemma set_map_filter_gget: "v \<in> set (List.map_filter (gget m) ids) \<longleftrightarrow> (\<exists>i \<in> set ids. gget m i = Some v)"
  by (force simp: map_filter_def)

lemma indexedTasks_mset:
  assumes "keyed tID (cTasks c)" "index_exact by f (cTasks c)" "p \<noteq> []"
  shows "mset (indexedTasks (gor by p []) c) = mset (filter (\<lambda>t. f t = p) (map snd (cTasks c)))"
proof -
  have ids: "distinct (gor by p [])" "set (gor by p []) = {i. \<exists>t. gget (cTasks c) i = Some t \<and> f t = p}"
    using assms(2,3) by (simp_all add: index_exact_def)
  have k: "\<And>i t. gget (cTasks c) i = Some t \<Longrightarrow> tID t = i" using assms(1) by (simp add: keyed_def)
  have "distinct (indexedTasks (gor by p []) c)"
    unfolding indexedTasks_def by (rule map_filter_distinct [OF assms(1) ids(1)])
  moreover have "distinct (filter (\<lambda>t. f t = p) (map snd (cTasks c)))"
    using keyed_values(1) [OF assms(1)] by simp
  moreover have "set (indexedTasks (gor by p []) c) = set (filter (\<lambda>t. f t = p) (map snd (cTasks c)))"
  proof (rule set_eqI)
    fix t
    have "t \<in> set (indexedTasks (gor by p []) c) \<longleftrightarrow> (\<exists>i. (\<exists>t. gget (cTasks c) i = Some t \<and> f t = p) \<and> gget (cTasks c) i = Some t)"
      unfolding indexedTasks_def set_map_filter_gget ids(2) by blast
    also have "\<dots> \<longleftrightarrow> gget (cTasks c) (tID t) = Some t \<and> f t = p" using k by auto
    also have "\<dots> \<longleftrightarrow> t \<in> set (filter (\<lambda>t. f t = p) (map snd (cTasks c)))"
      unfolding set_filter mem_Collect_eq keyed_values(2) [OF assms(1)] ..
    finally show "t \<in> set (indexedTasks (gor by p []) c) \<longleftrightarrow> t \<in> set (filter (\<lambda>t. f t = p) (map snd (cTasks c)))" .
  qed
  ultimately show ?thesis by (simp only: set_eq_iff_mset_eq_distinct)
qed

lemma sort_key_tasks_unique:
  assumes "keyed tID m" "mset xs = mset (filter P (map snd m))"
  shows "sort_key taskKey xs = filter P (sort_key taskKey (map snd m))"
proof (rule sort_key_inj_key_eq)
  show "mset xs = mset (filter P (sort_key taskKey (map snd m)))" using assms(2) by simp
  have "inj_on taskKey (set (map snd m))"
  proof (rule inj_onI)
    fix t u assume tu: "t \<in> set (map snd m)" "u \<in> set (map snd m)" "taskKey t = taskKey u"
    have "gget m (tID t) = Some t" "gget m (tID u) = Some u"
      using tu(1,2) keyed_values(2) [OF assms(1)] by blast+
    moreover have "tID t = tID u" using tu(3) by (simp add: taskKey_def)
    ultimately show "t = u" by (metis option.inject)
  qed
  moreover have "set xs \<subseteq> set (map snd m)" unfolding mset_eq_setD [OF assms(2)] by (rule filter_is_subset)
  ultimately show "inj_on taskKey (set xs)" by (rule inj_on_subset)
  show "sorted (map taskKey (filter P (sort_key taskKey (map snd m))))"
    by (rule sorted_filter) simp
qed

lemma reachable_keyed: "reachable c \<Longrightarrow> keyed tID (cTasks c)"
  using reachable_ok by (simp add: cache_ok_def maps_ok_def)

text \<open>
  In every cache the watcher's operations reach, \<open>ListTasksByService\<close> and \<open>ListTasksByNode\<close>, which read the
  secondary indexes, return exactly the tasks of \<open>ListTasks\<close> that carry the service or node ID, in the same order.
\<close>

theorem indexed_task_lists_exact:
  assumes "reachable c" "p \<noteq> []"
  shows "\<exists>all. ListTasks c = Some all \<and> ListTasksByService p c = filter (\<lambda>t. tServiceID t = p) all \<and>
    ListTasksByNode p c = filter (\<lambda>t. tNodeID t = p) all"
proof -
  have ok: "index_exact (cTasksByService c) tServiceID (cTasks c)" "index_exact (cTasksByNode c) tNodeID (cTasks c)"
    using reachable_ok [OF assms(1)] by (simp_all add: cache_ok_def)
  note k = reachable_keyed [OF assms(1)]
  show ?thesis
    unfolding ListTasks_eq ListTasksByService_def ListTasksByNode_def
    using sort_key_tasks_unique [OF k indexedTasks_mset [OF k ok(1) assms(2)]]
      sort_key_tasks_unique [OF k indexedTasks_mset [OF k ok(2) assms(2)]] by blast
qed

section \<open>Counters read the same table\<close>

lemma gor_increment: "gor (increment i m) j 0 = gor m j 0 + (if j = i then 1 else 0)"
  by (simp add: increment_def)

lemma gor_count_fold:
  "gor (fold (\<lambda>(k, t) counts. if P t then increment (f t) counts else counts) m counts) i 0 =
     gor counts i 0 + length (filter (\<lambda>t. P t \<and> f t = i) (map snd m))"
  by (induction m arbitrary: counts) (auto simp: gor_increment)

lemma length_filter_mset: "mset xs = mset ys \<Longrightarrow> length (filter P xs) = length (filter P ys)"
  by (metis mset_filter size_mset)

lemma indexed_count:
  assumes "reachable c" "p \<noteq> []"
  shows "length (filter P (indexedTasks (gor (cTasksByService c) p []) c)) =
    length (filter (\<lambda>t. P t \<and> tServiceID t = p) (map snd (cTasks c)))"
proof -
  have "index_exact (cTasksByService c) tServiceID (cTasks c)" using reachable_ok [OF assms(1)] by (simp add: cache_ok_def)
  from length_filter_mset [OF indexedTasks_mset [OF reachable_keyed [OF assms(1)] this assms(2)]]
  show ?thesis by (simp add: conj_commute)
qed

text \<open>
  The replica counter of one service, which walks its task index, agrees with the counters of all services,
  which walk the task table once; the same for the completed tasks of a job's current run.
\<close>

theorem task_counters_agree:
  assumes "reachable c" "serviceID \<noteq> []"
  shows "RunningTaskCount serviceID c = gor (RunningTaskCounts c) serviceID 0 \<and>
    CompletedJobTaskCount serviceID c = gor (CompletedJobTaskCounts c) serviceID 0"
proof
  show "RunningTaskCount serviceID c = gor (RunningTaskCounts c) serviceID 0"
    unfolding RunningTaskCount_def RunningTaskCounts_def gor_count_fold indexed_count [OF assms] by simp
  let ?P = "\<lambda>t. case gget (cServices c) (tServiceID t) of Some svc \<Rightarrow> CountsAsJobCompletion svc t | None \<Rightarrow> False"
  have "(\<lambda>(_, t) counts. case gget (cServices c) (tServiceID t) of
        Some svc \<Rightarrow> if CountsAsJobCompletion svc t then increment (tServiceID t) counts else counts | None \<Rightarrow> counts)
      = (\<lambda>(k :: string, t) counts. if ?P t then increment (tServiceID t) counts else counts)"
    by (auto simp: fun_eq_iff split: option.split)
  then have counts: "gor (CompletedJobTaskCounts c) serviceID 0 =
      length (filter (\<lambda>t. ?P t \<and> tServiceID t = serviceID) (map snd (cTasks c)))"
    unfolding CompletedJobTaskCounts_def by (simp only: gor_count_fold gor_Nil add_0)
  show "CompletedJobTaskCount serviceID c = gor (CompletedJobTaskCounts c) serviceID 0"
  proof (cases "gget (cServices c) serviceID")
    case None
    then have "filter (\<lambda>t. ?P t \<and> tServiceID t = serviceID) ts = []" for ts by (auto simp: filter_empty_conv)
    then show ?thesis unfolding counts using None by (simp add: CompletedJobTaskCount_def)
  next
    case (Some svc)
    then have "filter (\<lambda>t. ?P t \<and> tServiceID t = serviceID) ts = filter (\<lambda>t. CountsAsJobCompletion svc t \<and> tServiceID t = serviceID) ts" for ts
      by (intro filter_cong) auto
    then show ?thesis unfolding counts using Some indexed_count [OF assms, of "CountsAsJobCompletion svc"]
      by (simp add: CompletedJobTaskCount_def)
  qed
qed

lemma users_row:
  assumes "reachable c"
  shows "(\<exists>r. (\<exists>s b. refOf refsOf (cServices c) i s = Some b \<and> r \<in> set (refRow (cServices c) (s, b))) \<and>
        srID r = svcID \<and> srRollback r = rollback) \<longleftrightarrow> refOf refsOf (cServices c) i svcID = Some (\<not> rollback)"
    (is "?lhs \<longleftrightarrow> _")
proof -
  have key: "\<And>k v. gget (cServices c) k = Some v \<Longrightarrow> svID v = k"
    using reachable_ok [OF assms] by (simp add: cache_ok_def maps_ok_def keyed_def)
  show ?thesis
  proof
    assume ?lhs
    then obtain r s b where r: "refOf refsOf (cServices c) i s = Some b" "r \<in> set (refRow (cServices c) (s, b))"
      "srID r = svcID" "srRollback r = rollback" by blast
    then obtain svc where svc: "gget (cServices c) s = Some svc" by (auto simp: refOf_def bind_eq_Some_conv)
    then have "s = svcID" "b = (\<not> rollback)" using r(2-4) key [OF svc] by (auto simp: refRow_def svc)
    then show "refOf refsOf (cServices c) i svcID = Some (\<not> rollback)" using r(1) by simp
  next
    assume a: "refOf refsOf (cServices c) i svcID = Some (\<not> rollback)"
    then obtain svc where svc: "gget (cServices c) svcID = Some svc" by (auto simp: refOf_def bind_eq_Some_conv)
    let ?r = "\<lparr>srAtID = ''/services/'' @ svID svc, srID = svID svc, srName = spName (svSpec svc), srRollback = rollback\<rparr>"
    have "?r \<in> set (refRow (cServices c) (svcID, \<not> rollback))" "srID ?r = svcID" "srRollback ?r = rollback"
      using svc key [OF svc] by (simp_all add: refRow_def)
    then show ?lhs using a by blast
  qed
qed

text \<open>The service references \<open>i\<close> in its current spec, or only in the one it would roll back to.\<close>

definition uses :: "(serviceSpec option \<Rightarrow> string list) \<Rightarrow> string \<Rightarrow> bool \<Rightarrow> service \<Rightarrow> bool" where
  "uses refs i rollback svc \<longleftrightarrow>
     (if rollback then i \<in> set (refs (svPrevious svc)) \<and> i \<notin> set (refs (Some (svSpec svc)))
      else i \<in> set (refs (Some (svSpec svc))))"

text \<open>
  C24.
  In every reachable cache a config's or secret's list of users names exactly the services whose current or
  previous spec references it, in name order; \<open>Rollback\<close> marks one that only the previous spec references.
\<close>

theorem services_using_exact:
  assumes "reachable c"
  shows "((\<exists>r. r \<in> set (ServicesUsingConfig i c) \<and> srID r = svcID \<and> srRollback r = rollback) \<longleftrightarrow>
      (\<exists>svc. gget (cServices c) svcID = Some svc \<and> uses specConfigs i rollback svc)) \<and>
    ((\<exists>r. r \<in> set (ServicesUsingSecret i c) \<and> srID r = svcID \<and> srRollback r = rollback) \<longleftrightarrow>
      (\<exists>svc. gget (cServices c) svcID = Some svc \<and> uses specSecrets i rollback svc)) \<and>
    sorted (map (\<lambda>r. (srName r, srID r)) (ServicesUsingConfig i c))"
proof (intro conjI)
  have ok: "exact1 configRefs (byConfig (cServiceRef c)) (cServices c)" "exact1 secretRefs (bySecret (cServiceRef c)) (cServices c)"
    using reachable_ok [OF assms] by (auto simp: cache_ok_def refs_exact_def)
  show "(\<exists>r. r \<in> set (ServicesUsingConfig i c) \<and> srID r = svcID \<and> srRollback r = rollback) \<longleftrightarrow>
      (\<exists>svc. gget (cServices c) svcID = Some svc \<and> uses specConfigs i rollback svc)"
    unfolding ServicesUsingConfig_def lookup_mem [OF ok(1)] users_row [OF assms]
    by (auto simp: refOf_def bind_eq_Some_conv serviceRefs_configs uses_def split: if_splits)
  show "(\<exists>r. r \<in> set (ServicesUsingSecret i c) \<and> srID r = svcID \<and> srRollback r = rollback) \<longleftrightarrow>
      (\<exists>svc. gget (cServices c) svcID = Some svc \<and> uses specSecrets i rollback svc)"
    unfolding ServicesUsingSecret_def lookup_mem [OF ok(2)] users_row [OF assms]
    by (auto simp: refOf_def bind_eq_Some_conv serviceRefs_secrets uses_def split: if_splits)
  show "sorted (map (\<lambda>r. (srName r, srID r)) (ServicesUsingConfig i c))"
    by (simp add: ServicesUsingConfig_def lookup_sorted)
qed

fun labelsAt :: "event_type \<Rightarrow> cache \<Rightarrow> string \<Rightarrow> labels option" where
  "labelsAt EventService c i = map_option (\<lambda>v. spLabels (svSpec v)) (gget (cServices c) i)"
| "labelsAt EventConfig c i = map_option cfLabels (gget (cConfigs c) i)"
| "labelsAt EventSecret c i = map_option seLabels (gget (cSecrets c) i)"
| "labelsAt EventNetwork c i = map_option neLabels (gget (cNetworks c) i)"
| "labelsAt EventVolume c i = map_option voLabels (gget (cVolumes c) i)"
| "labelsAt _ c i = None"

definition inNamespace :: "event_type \<Rightarrow> cache \<Rightarrow> string \<Rightarrow> string \<Rightarrow> bool" where
  "inNamespace t c ns i \<longleftrightarrow> (\<exists>l. labelsAt t c i = Some l \<and> gget l StackLabel = Some ns)"

lemma mem_inNamespace: "cache_ok c \<Longrightarrow> i \<in> set (mem c t ns) \<longleftrightarrow> inNamespace t c ns i"
  by (cases t) (auto simp: inNamespace_def cache_ok_def maps_ok_def keyed_def mem_set)

text \<open>
  C2.
  A stack of a reachable cache, whatever labels the resources carry, is exactly what they say: under every name but the empty one the
  incrementally maintained index equals the one a rebuild from the maps computes, and \<open>StackContains\<close> holds of a service, config,
  secret, network or volume iff some service and the resource itself carry the stack's name as their namespace label. Under the empty
  name the two differ, since \<open>seedStack\<close> reads a missing label as an empty one (\<open>empty_label_diverges\<close>).
\<close>

theorem stacks_follow_labels:
  assumes "reachable c" "stackKind t" "ns \<noteq> []"
  shows "GetStack ns c = GetStack ns (rebuildStacks c) \<and>
    (StackContains ns t i c \<longleftrightarrow> (\<exists>k. inNamespace EventService c ns k) \<and> inNamespace t c ns i)"
proof
  note ok = reachable_ok [OF assms(1)]
  then have r: "represents (cStacks c) (mem c)" by (simp add: cache_ok_def)
  then show "GetStack ns c = GetStack ns (rebuildStacks c)"
    using rebuildStacks_represents [of c] assms(3) by (simp add: GetStack_def represents_def)
  have "mem c EventService ns \<noteq> [] \<longleftrightarrow> (\<exists>k. inNamespace EventService c ns k)"
    unfolding mem_inNamespace [OF ok, symmetric] using last_in_set by fastforce
  then show "StackContains ns t i c \<longleftrightarrow> (\<exists>k. inNamespace EventService c ns k) \<and> inNamespace t c ns i"
    using StackContains_mem [OF r assms(2,3)] mem_inNamespace [OF ok] by simp
qed

text \<open>
  C12.
  No secret payload is held or handed out: in every reachable cache the stored secrets, and every secret in an event given
  to a listener, the previous value included, have no data.
\<close>

theorem secrets_redacted:
  assumes "reachable c"
  shows "(\<forall>k s. gget (cSecrets c) k = Some s \<longrightarrow> seData s = None) \<and> list_all (\<lambda>(l, e, h). clean_event e) (cDispatched c)"
proof -
  obtain now inst n where "sends (New now inst n) c" using reachable_sends [OF assms] by blast
  then have "list_all (\<lambda>(l, e, h). clean_event e) (cDispatched c)"
    by (auto simp: sends_def New_def list_all_iff)
  moreover have "redacted (cSecrets c)" using reachable_ok [OF assms] by (simp add: cache_ok_def maps_ok_def)
  ultimately show ?thesis by (simp add: redacted_def)
qed

text \<open>
  Listeners see the changes in history order: the history IDs of the events handed out never decrease, and none lies
  beyond the newest entry.
\<close>

theorem events_in_history_order:
  assumes "reachable c"
  shows "sorted (map (\<lambda>(l, e, h). h) (cDispatched c)) \<and> list_all (\<lambda>(l, e, h). h \<le> hsCount (cHistory c)) (cDispatched c)"
proof -
  obtain now inst n where "sends (New now inst n) c" using reachable_sends [OF assms] by blast
  then show ?thesis by (auto simp: sends_def New_def list_all_iff)
qed

section \<open>A small cluster\<close>

text \<open>A service of a stack with one running task and a secret, reached by the watcher's operations.\<close>

definition ex_env :: env where
  "ex_env = \<lparr>envNow = 5, envUnicode = ex_unicode\<rparr>"

definition ex_service :: service where
  "ex_service = \<lparr>svID = ''s1'', svVersion = 3, svSpec = zeroSpec\<lparr>spName := ''web'', spLabels := [(StackLabel, ''shop'')],
     spContainer := Some (zeroContainer\<lparr>csConfigs := [\<lparr>rcID = ''c1'', rcName = ''conf'', rcFile = None\<rparr>],
       csSecrets := [\<lparr>rsID = ''x1'', rsName = ''key'', rsFile = None\<rparr>]\<rparr>), spMode := Replicated (Some 1)\<rparr>, svPrevious = None,
     svJobIteration = None, svUpdateState = None, svVIPs = []\<rparr>"

definition ex_task :: task where
  "ex_task = \<lparr>tID = ''t1'', tVersion = 4, tServiceID = ''s1'', tNodeID = ''n1'', tSlot = 1, tState = TaskStateRunning,
     tDesiredState = TaskStateRunning, tErr = [], tMessage = [], tTimestamp = 2, tContainerLabels = None, tJobIteration = None,
     tAttachments = []\<rparr>"

definition ex_secret :: secret where
  "ex_secret = \<lparr>seID = ''x1'', seVersion = 1, seName = ''key'', seLabels = [(StackLabel, ''shop'')], seData = Some ''hunter2'', seCreated = 0\<rparr>"

definition ex_cache :: cache where
  "ex_cache = SetTask ex_env ex_task (SetSecret ex_env ex_secret (SetService ex_env ex_service (snd (AddOnChangeListener (New 0 [] 8)))))"

lemma ex_cache_reachable: "reachable ex_cache"
proof -
  show ?thesis
    unfolding ex_cache_def by (intro reachable.more [OF _ cacheStep.SetTask] reachable.more [OF _ cacheStep.SetSecret]
        reachable.more [OF _ cacheStep.SetService] reachable.more [OF _ cacheStep.Listen] reachable.start)
qed

theorem indexed_task_lists_exact_witness:
  "\<exists>all. ListTasks ex_cache = Some all \<and> ListTasksByService ''s1'' ex_cache = filter (\<lambda>t. tServiceID t = ''s1'') all \<and>
    ListTasksByNode ''s1'' ex_cache = filter (\<lambda>t. tNodeID t = ''s1'') all"
  using indexed_task_lists_exact [OF ex_cache_reachable, of "''s1''"] by simp

theorem task_counters_agree_witness:
  "RunningTaskCount ''s1'' ex_cache = gor (RunningTaskCounts ex_cache) ''s1'' 0 \<and>
    CompletedJobTaskCount ''s1'' ex_cache = gor (CompletedJobTaskCounts ex_cache) ''s1'' 0"
  using task_counters_agree [OF ex_cache_reachable, of "''s1''"] by simp

theorem services_using_exact_witness:
  "(\<exists>r. r \<in> set (ServicesUsingSecret ''x1'' ex_cache) \<and> srID r = ''s1'' \<and> srRollback r = False) \<longleftrightarrow>
      (\<exists>svc. gget (cServices ex_cache) ''s1'' = Some svc \<and> uses specSecrets ''x1'' False svc)"
  using services_using_exact [OF ex_cache_reachable, of "''x1''" "''s1''" False] by blast

theorem stacks_follow_labels_witness:
  "StackContains ''shop'' EventSecret ''x1'' ex_cache \<longleftrightarrow>
     (\<exists>k. inNamespace EventService ex_cache ''shop'' k) \<and> inNamespace EventSecret ex_cache ''shop'' ''x1''"
  using stacks_follow_labels [OF ex_cache_reachable, of EventSecret] by (simp add: stackKind_def)

theorem secrets_redacted_witness: "list_all (\<lambda>(l, e, h). clean_event e) (cDispatched ex_cache)"
  using secrets_redacted [OF ex_cache_reachable] by blast

theorem events_in_history_order_witness: "sorted (map (\<lambda>(l, e, h). h) (cDispatched ex_cache))"
  using events_in_history_order [OF ex_cache_reachable] by blast

end
