(* ===== verification/Cache_Versions.thy ===== *)
theory Cache_Versions
  imports Cache_Query
begin

text \<open>
  Two inspects of one resource, or an inspect and a listing, can reach the cache in either order. What this
  theory shows of \<open>internal/cache/cache.go\<close>: no operation replaces a held object by an older version of
  it, over the event stream and the full sync alike.
\<close>

definition no_older :: "('v \<Rightarrow> nat) \<Rightarrow> 'v gomap \<Rightarrow> 'v gomap \<Rightarrow> bool" where
  "no_older ver m m' \<longleftrightarrow> (\<forall>i old new. gget m i = Some old \<longrightarrow> gget m' i = Some new \<longrightarrow> ver old \<le> ver new)"

definition versions_kept :: "cache \<Rightarrow> cache \<Rightarrow> bool" where
  "versions_kept c c' \<longleftrightarrow> no_older nodeVersion (cNodes c) (cNodes c') \<and> no_older svVersion (cServices c) (cServices c') \<and>
     no_older tVersion (cTasks c) (cTasks c') \<and> no_older cfVersion (cConfigs c) (cConfigs c') \<and>
     no_older seVersion (cSecrets c) (cSecrets c')"

lemma no_older_refl [simp]: "no_older ver m m"
  by (simp add: no_older_def)

lemma no_older_gdel [simp]: "no_older ver m (gdel m i)"
  by (simp add: no_older_def)

lemma no_older_gset: "(\<And>old. gget m i = Some old \<Longrightarrow> ver old \<le> ver v) \<Longrightarrow> no_older ver m (gset m i v)"
  by (simp add: no_older_def)

lemma no_older_keepNewer: "no_older ver m (keepNewer listed m (Some ver))"
  by (auto simp: no_older_def keepNewer_def gget_map_snd split: option.splits if_splits)

lemma versions_kept_refl [simp]: "versions_kept c c"
  by (simp add: versions_kept_def)

lemma versions_kept_same: "versions_kept c c1 \<Longrightarrow> same_contents c1 c2 \<Longrightarrow> versions_kept c c2"
  by (simp add: versions_kept_def same_contents_def)

lemma versions_kept_notifySet: "versions_kept c (snd r) \<Longrightarrow> versions_kept c (notifySet E r)"
  by (auto simp: notifySet_def versions_kept_same [OF _ notify_same] split: prod.split option.split)

lemma versions_kept_notifyDelete: "versions_kept c (snd r) \<Longrightarrow> versions_kept c (notifyDelete E r)"
  by (auto simp: notifyDelete_def versions_kept_same [OF _ notify_same] split: prod.split)

section \<open>The resource maps\<close>

text \<open>A map whose write changes nothing of the others; \<open>ver\<close> is the version its \<open>Set\<close> compares.\<close>

lemma set_accepts: "snd (Set r key v t c) = c \<or>
    snd (Set r key v t c) = snd (rm_set r key v c) \<and>
    (\<forall>old ver. rmVersion r = Some ver \<longrightarrow> gget (rmItems r c) key = Some old \<longrightarrow> ver old \<le> ver v)"
  by (auto simp: Set_def Let_def case_prod_unfold split: if_splits option.splits)

lemma add_accepts: "snd (Add r key v t c) = c \<or>
    snd (Add r key v t c) = snd (rm_set r key v c) \<and> gget (rmItems r c) key = None"
  by (auto simp: Add_def case_prod_unfold)

lemma map_versions [simp]:
  "rmVersion nodesMap = Some nodeVersion" "rmVersion configsMap = Some cfVersion" "rmVersion secretsMap = Some seVersion"
  by (simp_all add: nodesMap_def configsMap_def secretsMap_def)

lemma nodes_set: "snd (rm_set nodesMap i n c) = c\<lparr>cNodes := gset (cNodes c) i n\<rparr>"
  by (simp add: rm_set_def nodesMap_def)

lemma versions_set:
  "(\<And>old. gget (cNodes c) (nodeID n) = Some old \<Longrightarrow> nodeVersion old \<le> nodeVersion n) \<Longrightarrow>
     versions_kept c (snd (rm_set nodesMap (nodeID n) n c))"
  "(\<And>old. gget (cConfigs c) (cfID cf) = Some old \<Longrightarrow> cfVersion old \<le> cfVersion cf) \<Longrightarrow>
     versions_kept c (snd (rm_set configsMap (cfID cf) cf c))"
  "(\<And>old. gget (cSecrets c) (seID se) = Some old \<Longrightarrow> seVersion old \<le> seVersion se) \<Longrightarrow>
     versions_kept c (snd (rm_set secretsMap (seID se) se c))"
  "versions_kept c (snd (rm_set networksMap (neID ne) ne c))"
  "versions_kept c (snd (rm_set volumesMap (voName vo) vo c))"
  using configs.set_rest [of cf c] configs.set_items [of cf c] secrets.set_rest [of se c] secrets.set_items [of se c]
    networks.set_rest [of ne c] volumes.set_rest [of vo c]
  by (simp_all add: versions_kept_def nodes_set no_older_gset)

lemma versions_delete:
  "versions_kept c (snd (Delete nodesMap i t c))" "versions_kept c (snd (Delete configsMap i t c))"
  "versions_kept c (snd (Delete secretsMap i t c))" "versions_kept c (snd (Delete networksMap i t c))"
  "versions_kept c (snd (Delete volumesMap i t c))"
  using configs.delete_rest [of i t c] secrets.delete_rest [of i t c] networks.delete_rest [of i t c]
    volumes.delete_rest [of i t c] configs.Delete_items [of i t c] secrets.Delete_items [of i t c]
    nodes.Delete_items [of i t c]
  by (simp_all add: versions_kept_def Delete_def rm_del_def nodesMap_def Let_def split: option.split)

definition accepted :: "('v, cache) resourceMap \<Rightarrow> string \<Rightarrow> 'v \<Rightarrow> cache \<Rightarrow> bool" where
  "accepted r key v c \<longleftrightarrow> (\<forall>old ver. rmVersion r = Some ver \<longrightarrow> gget (rmItems r c) key = Some old \<longrightarrow> ver old \<le> ver v)"

lemma versions_kept_Set:
  assumes "accepted r key v c \<Longrightarrow> versions_kept c (snd (rm_set r key v c))"
  shows "versions_kept c (notifySet E (Set r key v t c))" "versions_kept c (notifySet E (Add r key v t c))"
proof -
  show "versions_kept c (notifySet E (Set r key v t c))"
    using set_accepts [of r key v t c] assms
    by (intro versions_kept_notifySet) (auto simp: accepted_def)
  show "versions_kept c (notifySet E (Add r key v t c))"
    using add_accepts [of r key v t c] assms
    by (intro versions_kept_notifySet) (auto simp: accepted_def)
qed

lemma versions_kept_maps:
  "versions_kept c (SetNode E n c)" "versions_kept c (SetConfig E cf c)" "versions_kept c (SetSecret E se c)"
  "versions_kept c (AddConfig E cf c)" "versions_kept c (AddSecret E se c)"
  "versions_kept c (SetNetwork E ne c)" "versions_kept c (SetVolume E vo c)"
  unfolding SetNode_def SetConfig_def SetSecret_def AddConfig_def AddSecret_def SetNetwork_def SetVolume_def
  by (rule versions_kept_Set; simp add: accepted_def versions_set)+

lemma versions_kept_deleters:
  "versions_kept c (DeleteNode E i c)" "versions_kept c (DeleteConfig E i c)" "versions_kept c (DeleteSecret E i c)"
  "versions_kept c (DeleteNetwork E i c)" "versions_kept c (DeleteVolume E i c)"
  unfolding DeleteNode_def DeleteConfig_def DeleteSecret_def DeleteNetwork_def DeleteVolume_def
  by (rule versions_kept_notifyDelete, rule versions_delete)+

section \<open>Services, tasks and the full sync\<close>

lemma store_maps:
  "cNodes (storeService s c) = cNodes c" "cTasks (storeService s c) = cTasks c" "cConfigs (storeService s c) = cConfigs c"
  "cSecrets (storeService s c) = cSecrets c" "cServices (storeService s c) = gset (cServices c) (svID s) s"
  "cNodes (dropService i c) = cNodes c" "cTasks (dropService i c) = cTasks c" "cConfigs (dropService i c) = cConfigs c"
  "cSecrets (dropService i c) = cSecrets c" "cServices (dropService i c) = gdel (cServices c) i"
  "cNodes (storeTask t c) = cNodes c" "cServices (storeTask t c) = cServices c" "cConfigs (storeTask t c) = cConfigs c"
  "cSecrets (storeTask t c) = cSecrets c" "cTasks (storeTask t c) = gset (cTasks c) (tID t) t"
  by (simp_all add: storeService_def dropService_def storeTask_def addTaskIndex_def removeTaskIndex_def Let_def
      split: option.split)

lemma versions_kept_services: "versions_kept c (SetService E s c)" "versions_kept c (DeleteService E i c)"
proof -
  have "versions_kept c (storeService s c)" if "\<And>old. gget (cServices c) (svID s) = Some old \<Longrightarrow> svVersion old \<le> svVersion s"
    using that by (simp add: versions_kept_def store_maps no_older_gset)
  note stored = versions_kept_same [OF this same_contents_trans [OF notify_same notifyRefChanges_same]]
  show "versions_kept c (SetService E s c)"
  proof (cases "case gget (cServices c) (svID s) of None \<Rightarrow> False | Some o' \<Rightarrow> svVersion s < svVersion o'")
    case False
    then have "gget (cServices c) (svID s) = Some old \<Longrightarrow> svVersion old \<le> svVersion s" for old by simp
    from stored [OF this] show ?thesis unfolding SetService_def Let_def if_not_P [OF False] .
  qed (simp add: SetService_def)
  have "versions_kept c (dropService i c)" by (simp add: versions_kept_def store_maps)
  from versions_kept_same [OF this same_contents_trans [OF notify_same notifyRefChanges_same]]
  show "versions_kept c (DeleteService E i c)" by (simp add: DeleteService_def Let_def)
qed

lemma versions_kept_tasks: "versions_kept c (SetTask E t c)" "versions_kept c (DeleteTask E i c)"
proof -
  have s: "versions_kept c (storeTask t c)" if "\<And>old. gget (cTasks c) (tID t) = Some old \<Longrightarrow> tVersion old \<le> tVersion t"
    using that by (simp add: versions_kept_def store_maps no_older_gset)
  have r: "versions_kept c (c1\<lparr>cRestarts := rt\<rparr>)" if "versions_kept c c1" for c1 rt
    using that by (simp add: versions_kept_def)
  show "versions_kept c (SetTask E t c)"
  proof (cases "case gget (cTasks c) (tID t) of None \<Rightarrow> False | Some o' \<Rightarrow> tVersion t < tVersion o'")
    case False
    then have "gget (cTasks c) (tID t) = Some old \<Longrightarrow> tVersion old \<le> tVersion t" for old by simp
    note stored = s [OF this]
    show ?thesis unfolding SetTask_def Let_def if_not_P [OF False]
      using stored r [OF stored] versions_kept_same [OF stored notify_same] versions_kept_same [OF r [OF stored] notify_same]
      by simp
  qed (simp add: SetTask_def)
  show "versions_kept c (DeleteTask E i c)"
    unfolding DeleteTask_def Let_def case_prod_unfold
    by (rule versions_kept_same [OF _ notify_same]) (simp add: versions_kept_def removeTaskIndex_def split: option.split)
qed

lemma keepNewerTask_versions:
  assumes "\<And>i old t. gget cached i = Some old \<Longrightarrow> gget (tsTasks ts) i = Some t \<Longrightarrow> i \<in> fst ` set todo \<or> tVersion old \<le> tVersion t"
    and "\<And>i t. (i, t) \<in> set todo \<Longrightarrow> gget (tsTasks ts) i = Some t" "gwf todo"
  shows "no_older tVersion cached (tsTasks (fold (keepNewerTask cached) todo ts))"
  using assms
proof (induction todo arbitrary: ts)
  case (Cons x todo)
  obtain i listed where x: "x = (i, listed)" by (cases x)
  have i: "i \<notin> fst ` set todo" "gget (tsTasks ts) i = Some listed" using Cons.prems(2,3) x by auto
  let ?ts = "keepNewerTask cached x ts"
  have at_i: "tVersion old \<le> tVersion t" if "gget cached i = Some old" "gget (tsTasks ?ts) i = Some t" for old t
    using that i(2) by (auto simp: x keepNewerTask_def split: if_splits)
  have "no_older tVersion cached (tsTasks (fold (keepNewerTask cached) todo ?ts))"
  proof (rule Cons.IH)
    fix j old t assume j: "gget cached j = Some old" "gget (tsTasks ?ts) j = Some t"
    show "j \<in> fst ` set todo \<or> tVersion old \<le> tVersion t"
    proof (cases "j = i")
      case True
      then show ?thesis using at_i j by simp
    next
      case False
      then show ?thesis using Cons.prems(1) [OF j(1)] j(2) x by (auto simp: keepNewerTask_other)
    qed
  next
    fix j t assume j: "(j, t) \<in> set todo"
    then have "j \<in> fst ` set todo" by (rule image_eqI [rotated]) simp
    then have "j \<noteq> i" using i(1) by metis
    then show "gget (tsTasks ?ts) j = Some t" using Cons.prems(2) j x by (simp add: keepNewerTask_other)
  qed (use Cons.prems(3) in simp)
  then show ?case by simp
qed (auto simp: no_older_def)

lemma replaceTasks_versions:
  assumes "gwf (tsTasks ts)"
  shows "no_older tVersion (cTasks c) (cTasks (snd (replaceTasks ts c)))"
proof -
  have "no_older tVersion (cTasks c) (tsTasks (fold (keepNewerTask (cTasks c)) (tsTasks ts) ts))"
  proof (rule keepNewerTask_versions)
    fix i old t assume "gget (tsTasks ts) i = Some t"
    then have "i \<in> set (gkeys (tsTasks ts))" by (rule gget_in_keys)
    then show "i \<in> fst ` set (tsTasks ts) \<or> tVersion old \<le> tVersion t" by simp
  next
    fix i t assume "(i, t) \<in> set (tsTasks ts)"
    then show "gget (tsTasks ts) i = Some t" by (simp only: gwf_mem_iff [OF assms])
  qed (rule assms)
  then show ?thesis by (simp add: replaceTasks_def Let_def pruneGoneServices_def)
qed

lemma replace_fields:
  "cServices (Replace nodesMap m1 c) = cServices c" "cTasks (Replace nodesMap m1 c) = cTasks c"
  "cConfigs (Replace nodesMap m1 c) = cConfigs c" "cSecrets (Replace nodesMap m1 c) = cSecrets c"
  "cNodes (Replace configsMap m2 c) = cNodes c" "cServices (Replace configsMap m2 c) = cServices c"
  "cTasks (Replace configsMap m2 c) = cTasks c" "cSecrets (Replace configsMap m2 c) = cSecrets c"
  "cNodes (Replace secretsMap m3 c) = cNodes c" "cServices (Replace secretsMap m3 c) = cServices c"
  "cTasks (Replace secretsMap m3 c) = cTasks c" "cConfigs (Replace secretsMap m3 c) = cConfigs c"
  "cNodes (Replace networksMap m4 c) = cNodes c" "cServices (Replace networksMap m4 c) = cServices c"
  "cTasks (Replace networksMap m4 c) = cTasks c" "cConfigs (Replace networksMap m4 c) = cConfigs c"
  "cSecrets (Replace networksMap m4 c) = cSecrets c"
  "cNodes (Replace volumesMap m5 c) = cNodes c" "cServices (Replace volumesMap m5 c) = cServices c"
  "cTasks (Replace volumesMap m5 c) = cTasks c" "cConfigs (Replace volumesMap m5 c) = cConfigs c"
  "cSecrets (Replace volumesMap m5 c) = cSecrets c"
  by (simp_all add: Replace_def)

definition same_rest :: "cache \<Rightarrow> cache \<Rightarrow> bool" where
  "same_rest c c' \<longleftrightarrow> cNodes c' = cNodes c \<and> cTasks c' = cTasks c \<and> cConfigs c' = cConfigs c \<and> cSecrets c' = cSecrets c"

lemma replaceServices_fields:
  "same_rest c (replaceServices svcs remaining c)"
  "no_older svVersion (cServices c) (cServices (replaceServices svcs remaining c))"
proof -
  define step :: "string \<times> service \<Rightarrow> cache \<Rightarrow> cache" where "step = (\<lambda>(i, old) c. (let c' = c\<lparr>cRestarts := Forget i (cRestarts c)\<rparr> in
     if remaining i \<noteq> [] then c'\<lparr>cGoneServices := gset (cGoneServices c') i old\<rparr> else c'))"
  have "same_rest c (fold step gone c')" if "same_rest c c'" for gone c'
    using that
  proof (induction gone arbitrary: c')
    case (Cons x gone)
    then have "same_rest c (step x c')" by (simp add: step_def Let_def same_rest_def split: prod.split)
    then show ?case using Cons.IH by simp
  qed simp
  from this [of c "filter (\<lambda>(i, _). gget svcs i = None) (cServices c)"]
  show "same_rest c (replaceServices svcs remaining c)"
    unfolding replaceServices_def Let_def step_def [unfolded Let_def, symmetric] by (simp add: same_rest_def)
  show "no_older svVersion (cServices c) (cServices (replaceServices svcs remaining c))"
    by (simp add: replaceServices_def Let_def no_older_keepNewer)
qed

lemma no_older_whenSome:
  "(\<And>v. no_older ver m (F (f v c))) \<Longrightarrow> no_older ver m (F c) \<Longrightarrow> no_older ver m (F (whenSome f x c))"
  by (simp add: whenSome_def split: option.split)

lemma versions_kept_ReplaceAll: "versions_kept c0 (ReplaceAll E d c0)"
proof -
  define tasks where "tasks = map_option listTasks (fsTasks d)"
  define remaining where "remaining = (\<lambda>i. case tasks of None \<Rightarrow> gor (cTasksByService c0) i [] | Some ts \<Rightarrow> gor (tsByService ts) i [])"
  define c1 where "c1 = whenSome (\<lambda>ns. Replace nodesMap (byKey nodeID ns)) (fsNodes d) c0"
  define c2 where "c2 = whenSome (\<lambda>ss. replaceServices (byKey svID ss) remaining) (fsServices d) c1"
  define c3 where "c3 = (case tasks of None \<Rightarrow> (([], []), c2) | Some ts \<Rightarrow> replaceTasks ts c2)"
  define c4 where "c4 = whenSome (\<lambda>vs. Replace configsMap (byKey cfID vs)) (fsConfigs d) (snd c3)"
  define c5 where "c5 = whenSome (\<lambda>vs. Replace secretsMap (byKey seID (map (\<lambda>s. s\<lparr>seData := None\<rparr>) vs))) (fsSecrets d) c4"
  define c6 where "c6 = whenSome (\<lambda>vs. Replace networksMap (byKey neID vs)) (fsNetworks d) c5"
  define c7 where "c7 = whenSome (\<lambda>vs. Replace volumesMap (byKey voName vs)) (fsVolumes d) c6"
  define c9 where "c9 = (rebuildStacks c7)\<lparr>cServiceRef := idx_rebuild (cServices (rebuildStacks c7)), cLastSync := envNow E\<rparr>"
  have eq: "\<exists>rt. ReplaceAll E d c0 = notify E (newEvent EventSync ''full_sync'' [] []) (c9\<lparr>cRestarts := rt\<rparr>)"
    unfolding ReplaceAll_def Let_def case_prod_unfold c9_def c7_def c6_def c5_def c4_def c3_def c2_def c1_def remaining_def tasks_def
    by (rule exI) (rule refl)
  have rest2: "same_rest c1 c2"
    unfolding c2_def whenSome_def using replaceServices_fields(1) [of c1] by (simp add: same_rest_def split: option.split)
  have rest3: "cNodes (snd c3) = cNodes c2 \<and> cServices (snd c3) = cServices c2 \<and> cConfigs (snd c3) = cConfigs c2 \<and> cSecrets (snd c3) = cSecrets c2"
    by (simp add: c3_def replaceTasks_def Let_def pruneGoneServices_def split: option.split)
  have rest1: "cServices c1 = cServices c0 \<and> cTasks c1 = cTasks c0 \<and> cConfigs c1 = cConfigs c0 \<and> cSecrets c1 = cSecrets c0"
    by (simp add: c1_def whenSome_def replace_fields split: option.split)
  have rest4: "cNodes c4 = cNodes (snd c3) \<and> cServices c4 = cServices (snd c3) \<and> cTasks c4 = cTasks (snd c3) \<and> cSecrets c4 = cSecrets (snd c3)"
    by (simp add: c4_def whenSome_def replace_fields split: option.split)
  have rest5: "cNodes c5 = cNodes c4 \<and> cServices c5 = cServices c4 \<and> cTasks c5 = cTasks c4 \<and> cConfigs c5 = cConfigs c4"
    by (simp add: c5_def whenSome_def replace_fields split: option.split)
  have rest7: "cNodes c7 = cNodes c5 \<and> cServices c7 = cServices c5 \<and> cTasks c7 = cTasks c5 \<and> cConfigs c7 = cConfigs c5 \<and> cSecrets c7 = cSecrets c5"
    by (simp add: c7_def c6_def whenSome_def replace_fields split: option.split)
  have rest9: "cNodes c9 = cNodes c7 \<and> cServices c9 = cServices c7 \<and> cTasks c9 = cTasks c7 \<and> cConfigs c9 = cConfigs c7 \<and> cSecrets c9 = cSecrets c7"
    using rebuildStacks_frame [of c7] by (auto simp: c9_def)
  have rest: "cNodes c9 = cNodes c1" "cServices c9 = cServices c2" "cTasks c9 = cTasks (snd c3)"
    "cConfigs c9 = cConfigs c4" "cSecrets c9 = cSecrets c5" "cTasks c2 = cTasks c0" "cServices c1 = cServices c0"
    "cConfigs (snd c3) = cConfigs c0" "cSecrets c4 = cSecrets c0"
    using rest1 rest2 rest3 rest4 rest5 rest7 rest9 by (simp_all add: same_rest_def)
  have "no_older nodeVersion (cNodes c0) (cNodes c1)" "no_older cfVersion (cConfigs (snd c3)) (cConfigs c4)"
    "no_older seVersion (cSecrets c4) (cSecrets c5)"
    unfolding c1_def c4_def c5_def by (rule no_older_whenSome; simp add: Replace_def no_older_keepNewer)+
  moreover have "no_older svVersion (cServices c1) (cServices c2)"
    unfolding c2_def by (rule no_older_whenSome; simp add: replaceServices_fields(2))
  moreover have "no_older tVersion (cTasks c2) (cTasks (snd c3))"
  proof (cases "fsTasks d")
    case (Some ts)
    have "gwf (tsTasks (listTasks ts))" using keyed_byKey [of tID ts] by (simp add: listTasks_def keyed_def)
    then show ?thesis using Some replaceTasks_versions by (simp add: c3_def tasks_def)
  qed (simp add: c3_def tasks_def)
  ultimately have "versions_kept c0 (c9\<lparr>cRestarts := rt\<rparr>)" for rt using rest by (simp add: versions_kept_def)
  then show ?thesis using eq versions_kept_same [OF _ notify_same] by metis
qed

lemma versions_kept_quiet:
  "versions_kept c (RecordRecoveredGap E start es rf c)" "versions_kept c (snd (AddOnChangeListener c))"
  "versions_kept c (cancelListener l c)" "versions_kept c (c\<lparr>cAttributions := as\<rparr>)"
  by (rule versions_kept_same [OF versions_kept_refl], rule RecordRecoveredGap_same same_contents_others)+

text \<open>
  C7.
  No operation of the cache, the full sync included, replaces a node, service, task, config or secret by an older
  version of it, in whichever order inspects and listings land.
\<close>

theorem versions_never_go_back: "cacheStep c c' \<Longrightarrow> versions_kept c c'"
  by (induction rule: cacheStep.induct)
    (rule versions_kept_maps versions_kept_deleters versions_kept_services versions_kept_tasks versions_kept_ReplaceAll
      versions_kept_quiet)+

theorem versions_never_go_back_witness: "versions_kept ex_cache (SetTask ex_env (ex_task\<lparr>tVersion := 1\<rparr>) ex_cache)"
  by (rule versions_never_go_back [OF cacheStep.SetTask])

section \<open>An empty namespace label\<close>

text \<open>A service and a config that carry no namespace, and a service whose namespace label is there but empty.\<close>

definition ex_config :: config where
  "ex_config = \<lparr>cfID = ''c1'', cfVersion = 1, cfName = ''conf'', cfLabels = [], cfCreated = 0\<rparr>"

definition ex_nameless :: service where
  "ex_nameless = ex_service\<lparr>svSpec := (svSpec ex_service)\<lparr>spLabels := [(StackLabel, [])]\<rparr>\<rparr>"

text \<open>
  The namespace label with an empty value is where the two ways of computing stacks differ: \<open>seedStack\<close> reads a missing
  label as the empty one, so a config without any label joins the stack named by the empty string, and the next
  \<open>rebuildStacks\<close> drops it again.
\<close>

lemma empty_label_diverges:
  "(let c = SetService ex_env ex_nameless (SetConfig ex_env ex_config (New 0 [] 8))
    in map_option stConfigs (GetStack [] c) = Some [''c1''] \<and> map_option stConfigs (GetStack [] (rebuildStacks c)) = Some [])"
  by code_simp

end
