(* ===== verification/Acl_Cache.thy ===== *)
theory Acl_Cache
  imports Acl_Evaluator Cache_Versions
begin

text \<open>
  Where the access control of \<open>internal/acl\<close> meets the cache: \<open>main.go\<close> hands the cache to the evaluator as its
  \<open>ResourceResolver\<close>. The cache keeps the contract the evaluator relies on, and what it answers about a stack is what
  a cached resource's label says.
\<close>

section \<open>The cache as the evaluator's resolver\<close>

definition cacheResolver :: "cache \<Rightarrow> resolver" where
  "cacheResolver c = \<lparr>StackOf_of = StackOf c, ServiceOfTask_of = ServiceOfTask c\<rparr>"

interpretation cached: stack_resolver "StackOf c" "ServiceOfTask c" for c
  by unfold_locales (auto simp: StackOf_def split: if_splits)

text \<open>
  C23.
  With a policy loaded and the cache as its resolver, the evaluator's type-level projection is no narrower than its decisions: whatever valid
  permission \<open>Can\<close> allows on some resource, \<open>TypeGrants\<close> allows on the resource's type, inherited grants on stacks and services included.
\<close>

theorem type_access_sound_on_cache:
  assumes "evPolicy e = Some (a, p)" "evResolver e = Some (cacheResolver c)"
    and "permission \<in> set validPermissions" "CHR '':'' \<notin> set t"
    and "Can (Some e) i permission (t @ '':'' @ n)"
  shows "TypeAccess_Can (TypeGrants (Some e) i) permission t"
  using assms by (intro cached.type_access_sound [of e a p c]) (simp_all add: cacheResolver_def)

section \<open>Services by name\<close>

definition names_sound :: "cache \<Rightarrow> bool" where
  "names_sound c \<longleftrightarrow> (\<forall>n i. gget (byName (cServiceRef c)) n = Some i \<longrightarrow>
     (\<exists>s. gget (cServices c) i = Some s \<and> spName (svSpec s) = n))"

lemma names_sound_cong:
  "cServices c' = cServices c \<Longrightarrow> cServiceRef c' = cServiceRef c \<Longrightarrow> names_sound c \<Longrightarrow> names_sound c'"
  by (simp add: names_sound_def)

lemma names_sound_same: "same_contents c c' \<Longrightarrow> names_sound c \<Longrightarrow> names_sound c'"
  by (rule names_sound_cong) (simp_all add: same_contents_def)

lemma names_sound_notifySet: "names_sound (snd r) \<Longrightarrow> names_sound (notifySet E r)"
  by (auto simp: notifySet_def names_sound_same [OF notify_same] split: prod.split option.split)

lemma names_sound_notifyDelete: "names_sound (snd r) \<Longrightarrow> names_sound (notifyDelete E r)"
  by (auto simp: notifyDelete_def names_sound_same [OF notify_same] split: prod.split)

lemma names_sound_rm_set:
  assumes "names_sound c"
  shows "names_sound (snd (rm_set nodesMap (nodeID n) n c))" "names_sound (snd (rm_set configsMap (cfID cf) cf c))"
    "names_sound (snd (rm_set secretsMap (seID se) se c))" "names_sound (snd (rm_set networksMap (neID ne) ne c))"
    "names_sound (snd (rm_set volumesMap (voName vo) vo c))"
  using configs.set_rest [of cf c] secrets.set_rest [of se c] networks.set_rest [of ne c] volumes.set_rest [of vo c] assms
  by (simp_all add: names_sound_def nodes_set)

lemma names_sound_Set:
  assumes "names_sound c" "names_sound (snd (rm_set r key v c))"
  shows "names_sound (notifySet E (Set r key v t c))" "names_sound (notifySet E (Add r key v t c))"
  using set_accepts [of r key v t c] add_accepts [of r key v t c] assms
  by (auto intro!: names_sound_notifySet)

lemma names_sound_setters:
  assumes "names_sound c"
  shows "names_sound (SetNode E n c)" "names_sound (SetConfig E cf c)" "names_sound (SetSecret E se c)"
    "names_sound (AddConfig E cf c)" "names_sound (AddSecret E se c)"
    "names_sound (SetNetwork E ne c)" "names_sound (SetVolume E vo c)"
  unfolding SetNode_def SetConfig_def SetSecret_def AddConfig_def AddSecret_def SetNetwork_def SetVolume_def
  by (intro names_sound_Set assms names_sound_rm_set)+

lemma nodes_delete: "snd (Delete nodesMap i t c) = c\<lparr>cNodes := gdel (cNodes c) i\<rparr>"
  by (simp add: Delete_def rm_del_def nodesMap_def Let_def split: option.split)

lemma names_sound_deleters:
  assumes "names_sound c"
  shows "names_sound (DeleteNode E i c)" "names_sound (DeleteConfig E i c)" "names_sound (DeleteSecret E i c)"
    "names_sound (DeleteNetwork E i c)" "names_sound (DeleteVolume E i c)"
  using configs.delete_rest [of i EventConfig c] secrets.delete_rest [of i EventSecret c]
    networks.delete_rest [of i EventNetwork c] volumes.delete_rest [of i EventVolume c] assms
  unfolding DeleteNode_def DeleteConfig_def DeleteSecret_def DeleteNetwork_def DeleteVolume_def
  by (intro names_sound_notifyDelete; simp add: names_sound_def nodes_delete)+

lemma names_sound_tasks:
  assumes "names_sound c"
  shows "names_sound (SetTask E t c)" "names_sound (DeleteTask E i c)"
proof -
  have s: "names_sound (storeTask t c)" "names_sound ((storeTask t c)\<lparr>cRestarts := rt\<rparr>)" for rt
    using assms by (simp_all add: names_sound_def storeTask_def addTaskIndex_def removeTaskIndex_def split: option.split)
  show "names_sound (SetTask E t c)"
    using assms s names_sound_same [OF notify_same s(1)] names_sound_same [OF notify_same s(2)]
    by (simp add: SetTask_def Let_def)
  show "names_sound (DeleteTask E i c)"
    unfolding DeleteTask_def Let_def case_prod_unfold
    by (rule names_sound_same [OF notify_same])
      (use assms in \<open>simp add: names_sound_def removeTaskIndex_def split: option.split\<close>)
qed

lemma names_remove:
  assumes "names_sound c" "\<forall>k v. gget (cServices c) k = Some v \<longrightarrow> svID v = k" "gget (cServices c) i = Some old"
    and "gget (byName (idx_remove old (serviceRefs old) (cServiceRef c))) n = Some j"
  shows "j \<noteq> i \<and> (\<exists>s. gget (cServices c) j = Some s \<and> spName (svSpec s) = n)"
proof -
  let ?n = "spName (svSpec old)"
  have id: "svID old = i" using assms(2,3) by blast
  have held: "gget (byName (cServiceRef c)) n = Some j" "n = ?n \<Longrightarrow> j \<noteq> i"
    using assms(4) id by (auto simp: idx_remove_def gor_def split: if_splits)
  then obtain s where s: "gget (cServices c) j = Some s" "spName (svSpec s) = n" using assms(1) by (auto simp: names_sound_def)
  have "j \<noteq> i" using held(2) s assms(3) by auto
  then show ?thesis using s by blast
qed

lemma names_sound_services:
  assumes "cache_ok c" "names_sound c"
  shows "names_sound (SetService E s c)" "names_sound (DeleteService E i c)"
proof -
  have key: "\<forall>k v. gget (cServices c) k = Some v \<longrightarrow> svID v = k"
    using assms(1) by (simp add: cache_ok_def maps_ok_def keyed_def)
  note rem = names_remove [OF assms(2) key]
  have "names_sound (storeService s c)"
  proof (cases "gget (cServices c) (svID s)")
    case None
    then show ?thesis using assms(2)
      by (fastforce simp: names_sound_def storeService_def idx_add_def Let_def)
  next
    case (Some old)
    then show ?thesis using rem [OF Some]
      by (auto simp: names_sound_def storeService_def idx_add_def Let_def)
  qed
  from names_sound_same [OF same_contents_trans [OF notify_same notifyRefChanges_same] this]
  show "names_sound (SetService E s c)" using assms(2) by (simp add: SetService_def Let_def)
  have "names_sound (dropService i c)"
  proof (cases "gget (cServices c) i")
    case None
    then show ?thesis using assms(2)
      by (fastforce simp: names_sound_def dropService_def)
  next
    case (Some old)
    then show ?thesis using rem [OF Some]
      by (auto simp: names_sound_def dropService_def Let_def)
  qed
  from names_sound_same [OF same_contents_trans [OF notify_same notifyRefChanges_same] this]
  show "names_sound (DeleteService E i c)" by (simp add: DeleteService_def Let_def)
qed

lemma names_rebuild:
  assumes "gget (byName (idx_rebuild svcs)) n = Some i" "gwf svcs" "\<And>k v. gget svcs k = Some v \<Longrightarrow> svID v = k"
  shows "\<exists>s. gget svcs i = Some s \<and> spName (svSpec s) = n"
proof -
  have "gget (byName (fold (\<lambda>(_, svc). idx_add svc (serviceRefs svc)) todo idx)) n = Some i \<Longrightarrow>
    gget (byName idx) n = Some i \<or> (\<exists>k s. (k, s) \<in> set todo \<and> svID s = i \<and> spName (svSpec s) = n)" for todo idx
  proof (induction todo arbitrary: idx)
    case (Cons x todo)
    obtain k v where x: "x = (k, v)" by (cases x)
    show ?case using Cons.IH [of "idx_add v (serviceRefs v) idx"] Cons.prems x
      by (auto simp: idx_add_def split: if_splits)
  qed simp
  from this [of svcs newServiceRefIndex] obtain k s where s: "(k, s) \<in> set svcs" "svID s = i" "spName (svSpec s) = n"
    using assms(1) by (auto simp: idx_rebuild_def newServiceRefIndex_def)
  then have "gget svcs k = Some s" using gwf_mem_iff [OF assms(2)] by simp
  then show ?thesis using s assms(3) by blast
qed

lemma ReplaceAll_index: "cServiceRef (ReplaceAll E d c) = idx_rebuild (cServices (ReplaceAll E d c))"
proof -
  obtain c9 where "ReplaceAll E d c = notify E (newEvent EventSync ''full_sync'' [] []) c9"
    "cServiceRef c9 = idx_rebuild (cServices c9)"
    by (simp add: ReplaceAll_def Let_def case_prod_unfold)
  then show ?thesis using notify_same [of c9 E "newEvent EventSync ''full_sync'' [] []"] by (simp add: same_contents_def)
qed

lemma names_sound_step:
  assumes "cacheStep c c'" "cache_ok c" "names_sound c"
  shows "names_sound c'"
  using assms
proof (induction rule: cacheStep.induct)
  case (ReplaceAll d c E)
  then have ok: "cache_ok (ReplaceAll E d c)" by (simp add: cache_ok_ReplaceAll)
  then show ?case unfolding names_sound_def ReplaceAll_index
    by (auto intro!: names_rebuild simp: cache_ok_def maps_ok_def keyed_def)
qed (auto intro: names_sound_setters names_sound_deleters names_sound_services names_sound_tasks
    names_sound_same [OF RecordRecoveredGap_same] names_sound_same [OF same_contents_others(1)]
    names_sound_same [OF same_contents_others(2)] names_sound_same [OF same_contents_others(3)])

lemma reachable_names: "reachable c \<Longrightarrow> names_sound c"
proof (induction rule: reachable.induct)
  case (start now inst n)
  then show ?case by (simp add: names_sound_def New_def newServiceRefIndex_def)
next
  case (more c c')
  then show ?case using names_sound_step reachable_ok by blast
qed

fun typeNamed :: "string \<Rightarrow> cache \<Rightarrow> (string \<times> labels) list" where
  "typeNamed t c =
     (if t = ''service'' then map (\<lambda>(_, v). (spName (svSpec v), spLabels (svSpec v))) (cServices c)
      else if t = ''config'' then map (\<lambda>(_, v). (cfName v, cfLabels v)) (cConfigs c)
      else if t = ''secret'' then map (\<lambda>(_, v). (seName v, seLabels v)) (cSecrets c)
      else if t = ''network'' then map (\<lambda>(_, v). (neName v, neLabels v)) (cNetworks c)
      else if t = ''volume'' then map (\<lambda>(_, v). (voName v, voLabels v)) (cVolumes c)
      else [])"

text \<open>
  The cache never invents an owner: in every reachable cache, the stack \<open>StackOf\<close> reports for a type and name is the
  namespace label of a cached resource of that type and name, so a grant on the stack reaches only what is labelled with it.
  No service has the empty ID, which the lookup of an unknown name reads.
\<close>

theorem StackOf_is_a_label:
  assumes "reachable c" "StackOf c t n \<noteq> []" "gget (cServices c) [] = None"
  shows "\<exists>l. (n, l) \<in> set (typeNamed t c) \<and> gor l StackLabel [] = StackOf c t n"
proof -
  have svc: "\<exists>l. (n, l) \<in> set (typeNamed ''service'' c) \<and> gor l StackLabel [] = gor (spLabels (svSpec s)) StackLabel []"
    if "gget (cServices c) (gor (byName (cServiceRef c)) n []) = Some s" "gor (spLabels (svSpec s)) StackLabel [] \<noteq> []" for s
  proof -
    have "gget (byName (cServiceRef c)) n = Some (gor (byName (cServiceRef c)) n [])"
      using that(1) assms(3) by (cases "gget (byName (cServiceRef c)) n") (simp_all add: gor_def)
    then have n: "spName (svSpec s) = n" using reachable_names [OF assms(1)] that(1) by (fastforce simp: names_sound_def)
    have "gwf (cServices c)" using reachable_ok [OF assms(1)] by (simp add: cache_ok_def maps_ok_def keyed_def)
    then have "(gor (byName (cServiceRef c)) n [], s) \<in> set (cServices c)" using that(1) by (simp only: gwf_mem_iff)
    then have "(n, spLabels (svSpec s)) \<in> set (typeNamed ''service'' c)" using n by force
    then show ?thesis by blast
  qed
  have found: "find P m = Some (k, v) \<Longrightarrow> (k, v) \<in> set m \<and> P (k, v)" for P and m :: "'v gomap" and k v
    by (auto simp: find_Some_iff)
  show ?thesis using assms(2) svc
    by (force simp: StackOf_def dest!: found split: if_splits option.splits prod.splits)
qed

section \<open>A policy over the small cluster\<close>

definition ex_stack_policy :: policy where
  "ex_stack_policy = \<lparr>pGrants = [\<lparr>gResources = [''stack:shop''], gAudience = [''*''], gPermissions = [''write'']\<rparr>]\<rparr>"

definition ex_cluster_evaluator :: evaluator where
  "ex_cluster_evaluator = NewEvaluator\<lparr>evPolicy := Some (0, ex_stack_policy), evResolver := Some (cacheResolver ex_cache)\<rparr>"

theorem type_access_sound_on_cache_witness:
  "Can (Some ex_cluster_evaluator) (Some ex_identity) ''write'' ''service:web'' \<and>
   TypeAccess_Can (TypeGrants (Some ex_cluster_evaluator) (Some ex_identity)) ''write'' ''service''"
proof -
  have can: "Can (Some ex_cluster_evaluator) (Some ex_identity) ''write'' (''service'' @ '':'' @ ''web'')" by code_simp
  have "evPolicy ex_cluster_evaluator = Some (0, ex_stack_policy)" "evResolver ex_cluster_evaluator = Some (cacheResolver ex_cache)"
    by (simp_all add: ex_cluster_evaluator_def)
  from type_access_sound_on_cache [OF this _ _ can] can show ?thesis by (simp add: validPermissions_def)
qed

theorem StackOf_is_a_label_witness:
  "\<exists>l. (''web'', l) \<in> set (typeNamed ''service'' ex_cache) \<and> gor l StackLabel [] = StackOf ex_cache ''service'' ''web''"
proof (rule StackOf_is_a_label [OF ex_cache_reachable])
  show "StackOf ex_cache ''service'' ''web'' \<noteq> []" by code_simp
  show "gget (cServices ex_cache) [] = None" by code_simp
qed

end
