(* ===== verification/Oauth_Tokens.thy ===== *)
theory Oauth_Tokens
  imports Prelude
begin

text \<open>
  The two token stores of \<open>internal/oauth/store.go\<close> and their snapshot in \<open>persist.go\<close>: single-use authorization codes,
  and refresh tokens with rotation, theft detection and an absolute lifetime per grant family. \<open>H\<close> is \<open>hashToken\<close>
  (SHA-256 in base64url), a token \<open>generateOpaqueToken\<close> draws is an argument, as is the clock; an operation that reads the
  clock twice reads one instant here. \<open>append\<close> copies that only protect against aliasing are the identity.
\<close>

section \<open>Authorization codes\<close>

record authCodeData =
  acClientID :: string
  acRedirectURI :: string
  acCodeChallenge :: string
  acResource :: string
  acSubject :: string
  acEmail :: string
  acDisplayName :: string
  acGroups :: "string list"
  acGrants :: string

record authCodeEntry =
  ceData :: authCodeData
  ceExpiresAt :: int

type_synonym authCodeStore = "authCodeEntry gomap"

definition NewAuthCodeStore :: authCodeStore where
  "NewAuthCodeStore = []"

definition IssueCode :: "(string \<Rightarrow> string) \<Rightarrow> int \<Rightarrow> string \<Rightarrow> authCodeData \<Rightarrow> int \<Rightarrow> authCodeStore \<Rightarrow> string \<times> authCodeStore" where
  "IssueCode H now raw data ttl s = (raw,
     gset (filter (\<lambda>(_, entry). \<not> now > ceExpiresAt entry) s) (H raw) \<lparr>ceData = data, ceExpiresAt = now + ttl\<rparr>)"

definition Redeem :: "(string \<Rightarrow> string) \<Rightarrow> int \<Rightarrow> string \<Rightarrow> authCodeStore \<Rightarrow> authCodeData option \<times> authCodeStore" where
  "Redeem H now code s = (let h = H code; s' = gdel s h in
     case gget s h of
       None \<Rightarrow> (None, s')
     | Some entry \<Rightarrow> if now > ceExpiresAt entry then (None, s') else (Some (ceData entry), s'))"

section \<open>Refresh tokens\<close>

record refreshTokenData =
  rdSubject :: string
  rdEmail :: string
  rdDisplayName :: string
  rdGroups :: "string list"
  rdGrants :: string
  rdClientID :: string
  rdResource :: string
  rdGrantID :: string

definition zeroData :: refreshTokenData where
  "zeroData = \<lparr>rdSubject = [], rdEmail = [], rdDisplayName = [], rdGroups = [], rdGrants = [], rdClientID = [],
     rdResource = [], rdGrantID = []\<rparr>"

record rotateResult =
  rrNewToken :: string
  rrData :: refreshTokenData
  rrOK :: bool
  rrTheft :: bool

definition zeroResult :: rotateResult where
  "zeroResult = \<lparr>rrNewToken = [], rrData = zeroData, rrOK = False, rrTheft = False\<rparr>"

record refreshTokenEntry =
  reData :: refreshTokenData
  reExpiresAt :: int
  reGrantExpiresAt :: int

definition maxGrantHistorySize :: nat where "maxGrantHistorySize = 32"

text \<open>\<open>rsWrites\<close> counts the calls of \<open>writeThrough\<close>, each of which writes the state file.\<close>

record refreshTokenStore =
  rsTokens :: "refreshTokenEntry gomap"
  rsConsumed :: "string gomap"
  rsGrants :: "string list gomap"
  rsWrites :: nat

definition NewRefreshTokenStore :: refreshTokenStore where
  "NewRefreshTokenStore = \<lparr>rsTokens = [], rsConsumed = [], rsGrants = [], rsWrites = 0\<rparr>"

definition writeThrough :: "refreshTokenStore \<Rightarrow> refreshTokenStore" where
  "writeThrough s = s\<lparr>rsWrites := rsWrites s + 1\<rparr>"

definition IssueRefresh :: "(string \<Rightarrow> string) \<Rightarrow> int \<Rightarrow> string \<Rightarrow> string \<Rightarrow> refreshTokenData \<Rightarrow> int \<Rightarrow> refreshTokenStore \<Rightarrow>
    string \<times> refreshTokenStore" where
  "IssueRefresh H now raw grantID data ttl s = (raw, writeThrough
     (s\<lparr>rsTokens := gset (rsTokens s) (H raw)
          \<lparr>reData = data\<lparr>rdGrantID := grantID\<rparr>, reExpiresAt = now + ttl, reGrantExpiresAt = now + ttl\<rparr>,
        rsGrants := gset (rsGrants s) grantID [H raw]\<rparr>))"

definition ValidateRefresh :: "(string \<Rightarrow> string) \<Rightarrow> int \<Rightarrow> string \<Rightarrow> refreshTokenStore \<Rightarrow> refreshTokenData option" where
  "ValidateRefresh H now token s = (case gget (rsTokens s) (H token) of
     None \<Rightarrow> None
   | Some entry \<Rightarrow> if now > reExpiresAt entry then None else Some (reData entry))"

definition revokeHash :: "string \<Rightarrow> refreshTokenData \<times> refreshTokenStore \<Rightarrow> refreshTokenData \<times> refreshTokenStore" where
  "revokeHash h = (\<lambda>(owner, s).
     ((case gget (rsTokens s) h of None \<Rightarrow> owner | Some entry \<Rightarrow> reData entry),
      s\<lparr>rsTokens := gdel (rsTokens s) h, rsConsumed := gdel (rsConsumed s) h\<rparr>))"

definition revokeGrantLocked :: "string \<Rightarrow> refreshTokenStore \<Rightarrow> refreshTokenData \<times> refreshTokenStore" where
  "revokeGrantLocked grantID s = (case fold revokeHash (gor (rsGrants s) grantID []) (zeroData, s) of
     (owner, s') \<Rightarrow> (owner, s'\<lparr>rsGrants := gdel (rsGrants s') grantID\<rparr>))"

definition evictHistory :: "string \<Rightarrow> refreshTokenStore \<Rightarrow> refreshTokenStore" where
  "evictHistory grantID s = (let hashes = gor (rsGrants s) grantID []; overflow = length hashes - maxGrantHistorySize in
     if overflow > 0
     then s\<lparr>rsConsumed := fold (\<lambda>h m. gdel m h) (take overflow hashes) (rsConsumed s),
            rsGrants := gset (rsGrants s) grantID (drop overflow hashes)\<rparr>
     else s)"

definition rotate_tok :: "(string \<Rightarrow> string) \<Rightarrow> int \<Rightarrow> string \<Rightarrow> string \<Rightarrow> int \<Rightarrow> refreshTokenStore \<Rightarrow>
    (rotateResult \<times> bool) \<times> refreshTokenStore" where
  "rotate_tok H now newRaw oldToken ttl s = (let oldHash = H oldToken in
     case gget (rsConsumed s) oldHash of
       Some grantID \<Rightarrow> (case revokeGrantLocked grantID s of
           (owner, s') \<Rightarrow> ((zeroResult\<lparr>rrTheft := True, rrData := owner\<rparr>, True), s'))
     | None \<Rightarrow> (case gget (rsTokens s) oldHash of
           None \<Rightarrow> ((zeroResult, False), s)
         | Some entry \<Rightarrow>
             if now > reExpiresAt entry
             then ((zeroResult, True), snd (revokeGrantLocked (rdGrantID (reData entry)) s))
             else (let
                 grantID = rdGrantID (reData entry);
                 newExpiry = (if reGrantExpiresAt entry < now + ttl then reGrantExpiresAt entry else now + ttl);
                 s1 = s\<lparr>rsTokens := gset (gdel (rsTokens s) oldHash) (H newRaw)
                          \<lparr>reData = reData entry, reExpiresAt = newExpiry, reGrantExpiresAt = reGrantExpiresAt entry\<rparr>,
                        rsConsumed := gset (rsConsumed s) oldHash grantID,
                        rsGrants := gset (rsGrants s) grantID (gor (rsGrants s) grantID [] @ [H newRaw])\<rparr>
               in ((zeroResult\<lparr>rrNewToken := newRaw, rrData := reData entry, rrOK := True\<rparr>, True), evictHistory grantID s1))))"

definition Rotate :: "(string \<Rightarrow> string) \<Rightarrow> int \<Rightarrow> string \<Rightarrow> string \<Rightarrow> int \<Rightarrow> refreshTokenStore \<Rightarrow> rotateResult \<times> refreshTokenStore" where
  "Rotate H now newRaw oldToken ttl s = (case rotate_tok H now newRaw oldToken ttl s of
     ((result, mutated), s') \<Rightarrow> (result, if mutated then writeThrough s' else s'))"

definition revokeGrant :: "(string \<Rightarrow> string) \<Rightarrow> string \<Rightarrow> refreshTokenStore \<Rightarrow> (refreshTokenData \<times> bool) \<times> refreshTokenStore" where
  "revokeGrant H token s = (let
      grantID = (case gget (rsTokens s) (H token) of
          Some entry \<Rightarrow> rdGrantID (reData entry)
        | None \<Rightarrow> gor (rsConsumed s) (H token) [])
    in if grantID = [] then ((zeroData, False), s)
       else (case revokeGrantLocked grantID s of (owner, s') \<Rightarrow> ((owner, True), s')))"

definition RevokeGrant :: "(string \<Rightarrow> string) \<Rightarrow> string \<Rightarrow> refreshTokenStore \<Rightarrow> (refreshTokenData \<times> bool) \<times> refreshTokenStore" where
  "RevokeGrant H token s = (case revokeGrant H token s of
     ((owner, revoked), s') \<Rightarrow> ((owner, revoked), if revoked then writeThrough s' else s'))"

definition RevokeSubject_tokens :: "string \<Rightarrow> refreshTokenStore \<Rightarrow> nat \<times> refreshTokenStore" where
  "RevokeSubject_tokens subject s = (let
      families = map (\<lambda>(_, entry). rdGrantID (reData entry)) (filter (\<lambda>(_, entry). rdSubject (reData entry) = subject) (rsTokens s));
      s' = fold (\<lambda>grantID s. snd (revokeGrantLocked grantID s)) families s
    in (length families, if families \<noteq> [] then writeThrough s' else s'))"

section \<open>The snapshot\<close>

record refreshTokenSnapEntry =
  seSubject :: string
  seEmail :: string
  seDisplayName :: string
  seGroups :: "string list"
  seGrants :: string
  seClientID :: string
  seResource :: string
  seGrantID :: string
  seExpiresAt :: int
  seGrantExpiresAt :: int
  seEmailChecked :: bool

record refreshTokenSnapshot =
  snTokens :: "refreshTokenSnapEntry gomap"
  snConsumed :: "string gomap"
  snGrants :: "string list gomap"

definition snapEntry :: "refreshTokenEntry \<Rightarrow> refreshTokenSnapEntry" where
  "snapEntry entry = (let d = reData entry in
     \<lparr>seSubject = rdSubject d, seEmail = rdEmail d, seDisplayName = rdDisplayName d, seGroups = rdGroups d, seGrants = rdGrants d,
      seClientID = rdClientID d, seResource = rdResource d, seGrantID = rdGrantID d,
      seExpiresAt = reExpiresAt entry, seGrantExpiresAt = reGrantExpiresAt entry, seEmailChecked = True\<rparr>)"

definition SnapshotTokens :: "refreshTokenStore \<Rightarrow> refreshTokenSnapshot" where
  "SnapshotTokens s = \<lparr>snTokens = map (\<lambda>(h, entry). (h, snapEntry entry)) (rsTokens s), snConsumed = rsConsumed s, snGrants = rsGrants s\<rparr>"

definition restoredEntry :: "refreshTokenSnapEntry \<Rightarrow> refreshTokenEntry" where
  "restoredEntry e = \<lparr>reData = \<lparr>rdSubject = seSubject e, rdEmail = (if \<not> seEmailChecked e then [] else seEmail e),
       rdDisplayName = seDisplayName e, rdGroups = seGroups e, rdGrants = seGrants e, rdClientID = seClientID e,
       rdResource = seResource e, rdGrantID = seGrantID e\<rparr>,
     reExpiresAt = seExpiresAt e, reGrantExpiresAt = seGrantExpiresAt e\<rparr>"

definition RestoreTokens :: "int \<Rightarrow> refreshTokenSnapshot \<Rightarrow> refreshTokenStore \<Rightarrow> refreshTokenStore" where
  "RestoreTokens now snap s = (let
      kept = filter (\<lambda>(_, e). \<not> (now > seExpiresAt e \<or> now > seGrantExpiresAt e)) (snTokens snap);
      live = map (\<lambda>(_, e). seGrantID e) kept
    in s\<lparr>rsTokens := map (\<lambda>(h, e). (h, restoredEntry e)) kept,
         rsConsumed := filter (\<lambda>(_, grantID). grantID \<in> set live) (snConsumed snap),
         rsGrants := filter (\<lambda>(grantID, _). grantID \<in> set live) (snGrants snap)\<rparr>)"

section \<open>Dropping a family\<close>

definition dropAll :: "string list \<Rightarrow> 'v gomap \<Rightarrow> 'v gomap" where
  "dropAll hs m = fold (\<lambda>h m. gdel m h) hs m"

lemma gget_dropAll [simp]: "gget (dropAll hs m) h = (if h \<in> set hs then None else gget m h)"
  unfolding dropAll_def by (induction hs arbitrary: m) auto

lemma gwf_dropAll [simp]: "gwf m \<Longrightarrow> gwf (dropAll hs m)"
  unfolding dropAll_def by (induction hs arbitrary: m) auto

lemma revokeHash_fold:
  "snd (fold revokeHash hs (owner, s)) = s\<lparr>rsTokens := dropAll hs (rsTokens s), rsConsumed := dropAll hs (rsConsumed s)\<rparr>"
proof (induction hs arbitrary: owner s)
  case (Cons h hs)
  then show ?case by (simp add: revokeHash_def dropAll_def)
qed (simp add: dropAll_def)

lemma revoked_store:
  "snd (revokeGrantLocked g s) = (let hs = gor (rsGrants s) g [] in
     s\<lparr>rsTokens := dropAll hs (rsTokens s), rsConsumed := dropAll hs (rsConsumed s), rsGrants := gdel (rsGrants s) g\<rparr>)"
  by (simp add: revokeGrantLocked_def case_prod_unfold revokeHash_fold Let_def)

lemma revokeHash_dead:
  "\<forall>h \<in> set hs. gget (rsTokens s) h = None \<Longrightarrow> fst (fold revokeHash hs (owner, s)) = owner"
  by (induction hs arbitrary: s) (auto simp: revokeHash_def)

lemma revoke_owner:
  assumes "gor (rsGrants s) g [] = hs @ [h]" "\<forall>h \<in> set hs. gget (rsTokens s) h = None" "gget (rsTokens s) h = Some entry" "h \<notin> set hs"
  shows "fst (revokeGrantLocked g s) = reData entry"
proof -
  obtain owner s' where f: "fold revokeHash hs (zeroData, s) = (owner, s')" by (cases "fold revokeHash hs (zeroData, s)")
  then have "gget (rsTokens s') h = Some entry" using revokeHash_fold [of hs zeroData s] assms(3,4) by simp
  then show ?thesis using assms(1) f by (simp add: revokeGrantLocked_def revokeHash_def case_prod_unfold)
qed

section \<open>The invariant of the store\<close>

text \<open>
  A family is its recent hashes, oldest first: the last is its one live token, the others are consumed. Every hash of
  the store belongs to the family it names.
\<close>

definition family_ok :: "refreshTokenStore \<Rightarrow> string \<Rightarrow> string list \<Rightarrow> bool" where
  "family_ok s g hs \<longleftrightarrow> hs \<noteq> [] \<and> distinct hs \<and> length hs \<le> maxGrantHistorySize \<and>
     (\<exists>entry. gget (rsTokens s) (last hs) = Some entry \<and> rdGrantID (reData entry) = g) \<and>
     (\<forall>h \<in> set (butlast hs). gget (rsConsumed s) h = Some g \<and> gget (rsTokens s) h = None)"

definition store_ok :: "refreshTokenStore \<Rightarrow> bool" where
  "store_ok s \<longleftrightarrow> gwf (rsTokens s) \<and> gwf (rsConsumed s) \<and> gwf (rsGrants s) \<and>
     (\<forall>g hs. gget (rsGrants s) g = Some hs \<longrightarrow> family_ok s g hs) \<and>
     (\<forall>h entry. gget (rsTokens s) h = Some entry \<longrightarrow>
        rdGrantID (reData entry) \<noteq> [] \<and> reExpiresAt entry \<le> reGrantExpiresAt entry \<and> gget (rsConsumed s) h = None \<and>
        (\<exists>hs. gget (rsGrants s) (rdGrantID (reData entry)) = Some hs \<and> last hs = h)) \<and>
     (\<forall>h g. gget (rsConsumed s) h = Some g \<longrightarrow> (\<exists>hs. gget (rsGrants s) g = Some hs \<and> h \<in> set (butlast hs)))"

lemma store_okD:
  assumes "store_ok s"
  shows "gwf (rsTokens s)" "gwf (rsConsumed s)" "gwf (rsGrants s)"
    and "\<And>g hs. gget (rsGrants s) g = Some hs \<Longrightarrow> family_ok s g hs"
    and "\<And>h entry. gget (rsTokens s) h = Some entry \<Longrightarrow> rdGrantID (reData entry) \<noteq> []"
    and "\<And>h entry. gget (rsTokens s) h = Some entry \<Longrightarrow> reExpiresAt entry \<le> reGrantExpiresAt entry"
    and "\<And>h entry. gget (rsTokens s) h = Some entry \<Longrightarrow> gget (rsConsumed s) h = None"
    and "\<And>h entry. gget (rsTokens s) h = Some entry \<Longrightarrow>
      \<exists>hs. gget (rsGrants s) (rdGrantID (reData entry)) = Some hs \<and> last hs = h"
    and "\<And>h g. gget (rsConsumed s) h = Some g \<Longrightarrow> \<exists>hs. gget (rsGrants s) g = Some hs \<and> h \<in> set (butlast hs)"
  using assms unfolding store_ok_def by blast+

lemma last_butlast: "hs \<noteq> [] \<Longrightarrow> set hs = insert (last hs) (set (butlast hs))"
  by (metis append_butlast_last_id list.simps(15) rotate1.simps(2) set_rotate1)

text \<open>No hash belongs to two families.\<close>

lemma families_disjoint:
  assumes "store_ok s" "gget (rsGrants s) g = Some hs" "gget (rsGrants s) g' = Some hs'" "h \<in> set hs" "h \<in> set hs'"
  shows "g = g'"
proof -
  have f: "family_ok s g hs" "family_ok s g' hs'" using store_okD(4) [OF assms(1)] assms(2,3) by blast+
  have owner: "(\<exists>entry. gget (rsTokens s) h = Some entry \<and> rdGrantID (reData entry) = k) \<or>
      gget (rsConsumed s) h = Some k \<and> gget (rsTokens s) h = None"
    if "family_ok s k ks" "h \<in> set ks" for k ks
    using that last_butlast [of ks] by (auto simp: family_ok_def)
  show ?thesis using owner [OF f(1) assms(4)] owner [OF f(2) assms(5)] by auto
qed

lemma store_ok_cong:
  "map_of gs = map_of (rsGrants s) \<Longrightarrow> gwf gs \<Longrightarrow> store_ok s \<Longrightarrow> store_ok (s\<lparr>rsGrants := gs\<rparr>)"
  unfolding store_ok_def family_ok_def by simp

lemma store_ok_writes [simp]: "store_ok (writeThrough s) = store_ok s"
  by (simp add: store_ok_def family_ok_def writeThrough_def)

lemma store_ok_revoke:
  assumes "store_ok s"
  shows "store_ok (snd (revokeGrantLocked g s))"
proof (cases "gget (rsGrants s) g")
  case None
  then have e: "map_of (gdel (rsGrants s) g) = map_of (rsGrants s)" by (auto simp: fun_eq_iff)
  have "snd (revokeGrantLocked g s) = s\<lparr>rsGrants := gdel (rsGrants s) g\<rparr>"
    using None by (simp add: revoked_store gor_def dropAll_def)
  then show ?thesis using store_ok_cong [OF e _ assms] store_okD(3) [OF assms] by simp
next
  case (Some hs)
  note D = store_okD [OF assms]
  have g: "gor (rsGrants s) g [] = hs" using Some by (simp add: gor_def)
  have keep: "h \<notin> set hs" if "gget (rsGrants s) k = Some ks" "k \<noteq> g" "h \<in> set ks" for k ks h
    using families_disjoint [OF assms Some that(1)] that(2,3) by blast
  have F: "family_ok (snd (revokeGrantLocked g s)) k ks" if "gget (rsGrants s) k = Some ks" "k \<noteq> g" for k ks
  proof -
    have "family_ok s k ks" using D(4) that(1) .
    moreover have "last ks \<notin> set hs" "\<forall>h \<in> set (butlast ks). h \<notin> set hs"
      using keep [OF that] \<open>family_ok s k ks\<close> by (auto simp: family_ok_def dest: in_set_butlastD)
    ultimately show ?thesis by (simp add: family_ok_def revoked_store g Let_def)
  qed
  have T: "rdGrantID (reData entry) \<noteq> g" if live: "gget (rsTokens s) h = Some entry" "h \<notin> set hs" for h entry
  proof
    assume "rdGrantID (reData entry) = g"
    then obtain ks where "gget (rsGrants s) g = Some ks" "last ks = h" using D(8) [OF live(1)] by blast
    then show False using Some live(2) D(4) [OF Some] by (auto simp: family_ok_def)
  qed
  have C: "k \<noteq> g" if "gget (rsConsumed s) h = Some k" "h \<notin> set hs" for h k
    using D(9) [OF that(1)] Some that(2) by (auto dest: in_set_butlastD)
  show ?thesis unfolding store_ok_def
  proof (intro conjI allI impI)
    fix k ks assume "gget (rsGrants (snd (revokeGrantLocked g s))) k = Some ks"
    then show "family_ok (snd (revokeGrantLocked g s)) k ks" using F by (simp add: revoked_store Let_def split: if_splits)
  next
    fix h k assume "gget (rsConsumed (snd (revokeGrantLocked g s))) h = Some k"
    then show "\<exists>hs. gget (rsGrants (snd (revokeGrantLocked g s))) k = Some hs \<and> h \<in> set (butlast hs)"
      using D(9) C by (auto simp: revoked_store Let_def g split: if_splits)
  qed (use D T in \<open>auto simp: revoked_store Let_def g split: if_splits\<close>)
qed

section \<open>Issuing and rotating\<close>

definition fresh_hash :: "string \<Rightarrow> refreshTokenStore \<Rightarrow> bool" where
  "fresh_hash h s \<longleftrightarrow> gget (rsTokens s) h = None \<and> gget (rsConsumed s) h = None"

lemma fresh_no_family:
  assumes "store_ok s" "fresh_hash h s" "gget (rsGrants s) g = Some hs"
  shows "h \<notin> set hs"
  using assms store_okD(4) [OF assms(1,3)] last_butlast [of hs] by (auto simp: family_ok_def fresh_hash_def)

lemma store_ok_Issue:
  assumes "store_ok s" "fresh_hash (H raw) s" "gget (rsGrants s) g = None" "g \<noteq> []"
  shows "store_ok (snd (IssueRefresh H now raw g data ttl s))"
proof -
  let ?s = "s\<lparr>rsTokens := gset (rsTokens s) (H raw) \<lparr>reData = data\<lparr>rdGrantID := g\<rparr>, reExpiresAt = now + ttl, reGrantExpiresAt = now + ttl\<rparr>,
     rsGrants := gset (rsGrants s) g [H raw]\<rparr>"
  note D = store_okD [OF assms(1)]
  have F: "family_ok ?s k ks" if "gget (rsGrants s) k = Some ks" "k \<noteq> g" for k ks
  proof -
    have "H raw \<notin> set ks" by (rule fresh_no_family [OF assms(1,2) that(1)])
    moreover have ks: "family_ok s k ks" by (rule D(4) [OF that(1)])
    moreover have "last ks \<in> set ks" using ks by (simp add: family_ok_def)
    ultimately have "last ks \<noteq> H raw" by metis
    then show ?thesis using ks \<open>H raw \<notin> set ks\<close> by (auto simp: family_ok_def dest: in_set_butlastD)
  qed
  have N: "family_ok ?s g [H raw]" by (simp add: family_ok_def maxGrantHistorySize_def)
  have G: "\<exists>hs. gget (gset (rsGrants s) g [H raw]) k = Some hs \<and> P hs" if "\<exists>hs. gget (rsGrants s) k = Some hs \<and> P hs" for k P
    using that assms(3) by auto
  have T: "rdGrantID (reData e) \<noteq> g" if "gget (rsTokens s) h = Some e" for h e using D(8) [OF that] assms(3) by auto
  have "store_ok ?s" unfolding store_ok_def
  proof (intro conjI allI impI)
    fix k ks assume "gget (rsGrants ?s) k = Some ks"
    then show "family_ok ?s k ks" using F N by (auto split: if_splits)
  qed (use T D assms(2,4) G in \<open>auto simp: fresh_hash_def split: if_splits\<close>)
  then show ?thesis by (simp add: IssueRefresh_def)
qed

text \<open>The store right after a rotation, before the history is cut.\<close>

definition rotated :: "(string \<Rightarrow> string) \<Rightarrow> int \<Rightarrow> string \<Rightarrow> string \<Rightarrow> int \<Rightarrow> refreshTokenEntry \<Rightarrow> refreshTokenStore \<Rightarrow> refreshTokenStore" where
  "rotated H now newRaw oldToken ttl entry s = (let grantID = rdGrantID (reData entry) in
     s\<lparr>rsTokens := gset (gdel (rsTokens s) (H oldToken)) (H newRaw)
          \<lparr>reData = reData entry, reExpiresAt = (if reGrantExpiresAt entry < now + ttl then reGrantExpiresAt entry else now + ttl),
           reGrantExpiresAt = reGrantExpiresAt entry\<rparr>,
        rsConsumed := gset (rsConsumed s) (H oldToken) grantID,
        rsGrants := gset (rsGrants s) grantID (gor (rsGrants s) grantID [] @ [H newRaw])\<rparr>)"

lemma rotate_cases:
  obtains g where "gget (rsConsumed s) (H old) = Some g"
      "rotate_tok H now new old ttl s = ((zeroResult\<lparr>rrTheft := True, rrData := fst (revokeGrantLocked g s)\<rparr>, True), snd (revokeGrantLocked g s))"
  | "gget (rsConsumed s) (H old) = None" "gget (rsTokens s) (H old) = None" "rotate_tok H now new old ttl s = ((zeroResult, False), s)"
  | entry where "gget (rsConsumed s) (H old) = None" "gget (rsTokens s) (H old) = Some entry" "now > reExpiresAt entry"
      "rotate_tok H now new old ttl s = ((zeroResult, True), snd (revokeGrantLocked (rdGrantID (reData entry)) s))"
  | entry where "gget (rsConsumed s) (H old) = None" "gget (rsTokens s) (H old) = Some entry" "now \<le> reExpiresAt entry"
      "rotate_tok H now new old ttl s = ((zeroResult\<lparr>rrNewToken := new, rrData := reData entry, rrOK := True\<rparr>, True),
         evictHistory (rdGrantID (reData entry)) (rotated H now new old ttl entry s))"
proof -
  consider "\<exists>g. gget (rsConsumed s) (H old) = Some g" | "gget (rsConsumed s) (H old) = None" "gget (rsTokens s) (H old) = None"
    | entry where "gget (rsConsumed s) (H old) = None" "gget (rsTokens s) (H old) = Some entry"
    by (cases "gget (rsConsumed s) (H old)"; cases "gget (rsTokens s) (H old)") auto
  then show thesis
  proof cases
    case 1
    then show ?thesis using that(1) by (auto simp: rotate_tok_def Let_def case_prod_unfold)
  next
    case 2
    then show ?thesis using that(2) by (simp add: rotate_tok_def)
  next
    case (3 entry)
    then show ?thesis using that(3,4) [of entry] by (cases "now > reExpiresAt entry") (simp_all add: rotate_tok_def Let_def rotated_def)
  qed
qed

text \<open>Cutting the history to the newest hashes drops only consumed ones.\<close>

lemma evict_fields:
  "evictHistory g s = (let hs = gor (rsGrants s) g []; n = length hs - maxGrantHistorySize in
     s\<lparr>rsConsumed := dropAll (take n hs) (rsConsumed s), rsGrants := (if n > 0 then gset (rsGrants s) g (drop n hs) else rsGrants s)\<rparr>)"
  by (simp add: evictHistory_def Let_def dropAll_def)

lemma set_drop_rest:
  assumes "distinct hs"
  shows "set (drop n hs) = set hs - set (take n hs)"
proof -
  have "set hs = set (take n hs) \<union> set (drop n hs)" by (metis append_take_drop_id set_append)
  moreover have "set (take n hs) \<inter> set (drop n hs) = {}" using assms by (rule set_take_disj_set_drop_if_distinct) simp
  ultimately show ?thesis by blast
qed

text \<open>What a rotation of the live token of a family leaves behind, \<open>hs\<close> being the hashes before.\<close>

lemma rotated_lookups:
  fixes H :: "string \<Rightarrow> string" and now ttl :: int and new old :: string
  assumes "gget (rsGrants s) (rdGrantID (reData entry)) = Some hs" "length hs \<le> maxGrantHistorySize" "hs \<noteq> []"
  defines "g \<equiv> rdGrantID (reData entry)" and "n \<equiv> Suc (length hs) - maxGrantHistorySize"
    and "s' \<equiv> evictHistory (rdGrantID (reData entry)) (rotated H now new old ttl entry s)"
  shows "n < length hs"
    and "gget (rsGrants s') k = (if k = g then Some (drop n hs @ [H new]) else gget (rsGrants s) k)"
    and "gget (rsTokens s') h = (if h = H new then Some \<lparr>reData = reData entry,
        reExpiresAt = (if reGrantExpiresAt entry < now + ttl then reGrantExpiresAt entry else now + ttl),
        reGrantExpiresAt = reGrantExpiresAt entry\<rparr> else if h = H old then None else gget (rsTokens s) h)"
    and "gget (rsConsumed s') h = (if h \<in> set (take n hs) then None else if h = H old then Some g else gget (rsConsumed s) h)"
proof -
  show n: "n < length hs" using assms(2,3) by (auto simp: n_def maxGrantHistorySize_def)
  have f: "gor (rsGrants (rotated H now new old ttl entry s)) g [] = hs @ [H new]"
    using assms(1) by (simp add: rotated_def Let_def g_def gor_def)
  show "gget (rsGrants s') k = (if k = g then Some (drop n hs @ [H new]) else gget (rsGrants s) k)"
    using n f assms(1) by (auto simp: s'_def g_def [symmetric] evict_fields n_def rotated_def Let_def gor_def)
  show "gget (rsTokens s') h = (if h = H new then Some \<lparr>reData = reData entry,
        reExpiresAt = (if reGrantExpiresAt entry < now + ttl then reGrantExpiresAt entry else now + ttl),
        reGrantExpiresAt = reGrantExpiresAt entry\<rparr> else if h = H old then None else gget (rsTokens s) h)"
    by (simp add: s'_def evict_fields rotated_def Let_def)
  show "gget (rsConsumed s') h = (if h \<in> set (take n hs) then None else if h = H old then Some g else gget (rsConsumed s) h)"
    using n f by (simp add: s'_def g_def [symmetric] evict_fields n_def Let_def) (simp add: rotated_def Let_def g_def)
qed

lemma rotated_wf:
  assumes "gwf (rsTokens s)" "gwf (rsConsumed s)" "gwf (rsGrants s)"
  shows "gwf (rsTokens (evictHistory g (rotated H now new old ttl entry s)))"
    "gwf (rsConsumed (evictHistory g (rotated H now new old ttl entry s)))"
    "gwf (rsGrants (evictHistory g (rotated H now new old ttl entry s)))"
  using assms by (simp_all add: evict_fields rotated_def Let_def)

lemma store_ok_rotated:
  assumes "store_ok s" "fresh_hash (H new) s" "gget (rsTokens s) (H old) = Some entry"
  shows "store_ok (evictHistory (rdGrantID (reData entry)) (rotated H now new old ttl entry s))" (is "store_ok ?s")
proof -
  note D = store_okD [OF assms(1)]
  let ?g = "rdGrantID (reData entry)"
  obtain hs where hs: "gget (rsGrants s) ?g = Some hs" "last hs = H old" using D(8) [OF assms(3)] by blast
  have fam: "hs \<noteq> []" "distinct hs" "length hs \<le> maxGrantHistorySize"
    "\<forall>h \<in> set (butlast hs). gget (rsConsumed s) h = Some ?g \<and> gget (rsTokens s) h = None"
    using D(4) [OF hs(1)] by (auto simp: family_ok_def)
  let ?n = "Suc (length hs) - maxGrantHistorySize"
  note n = rotated_lookups(1) [OF hs(1) fam(3,1)]
  note L = rotated_lookups(2-4) [OF hs(1) fam(3,1), where H = H and now = now and new = new and old = old and ttl = ttl]
  have drop_set: "set (drop ?n hs) = set hs - set (take ?n hs)" by (rule set_drop_rest [OF fam(2)])
  have new: "H new \<notin> set ks" if "gget (rsGrants s) k = Some ks" for k ks by (rule fresh_no_family [OF assms(1,2) that])
  have old: "H old \<in> set hs" "H old \<noteq> H new" using hs(2) fam(1) last_in_set [of hs] new [OF hs(1)] by auto
  have bl: "h \<in> set (butlast hs)" if "h \<in> set hs" "h \<noteq> H old" for h using that last_butlast [OF fam(1)] hs(2) by auto
  have old_kept: "H old \<notin> set (take ?n hs)"
  proof -
    have "last (drop ?n hs) = H old" using hs(2) n by (simp add: last_drop)
    then have "H old \<in> set (drop ?n hs)" using n last_in_set [of "drop ?n hs"] by auto
    then show ?thesis using drop_set by auto
  qed
  show ?thesis unfolding store_ok_def
  proof (intro conjI allI impI rotated_wf D(1,2,3))
    fix k ks assume k: "gget (rsGrants ?s) k = Some ks"
    show "family_ok ?s k ks"
    proof (cases "k = ?g")
      case True
      then have ks: "ks = drop ?n hs @ [H new]" using k L(1) by simp
      have "H new \<notin> set (drop ?n hs)" using new [OF hs(1)] in_set_dropD by fast
      then show ?thesis using ks True fam old old_kept bl drop_set n new [OF hs(1)]
        by (auto simp: family_ok_def L(2,3))
    next
      case False
      then have k': "gget (rsGrants s) k = Some ks" using k L(1) by simp
      have out: "h \<notin> set hs" "h \<noteq> H new" if "h \<in> set ks" for h
        using families_disjoint [OF assms(1) hs(1) k'] False new [OF k'] that by auto
      have "family_ok s k ks" by (rule D(4) [OF k'])
      moreover have "last ks \<in> set ks" "\<forall>h \<in> set (butlast ks). h \<in> set ks"
        using calculation by (auto simp: family_ok_def dest: in_set_butlastD)
      moreover have "h \<noteq> H old \<and> h \<notin> set (take ?n hs)" if "h \<in> set ks" for h
        using out(1) [OF that] old(1) in_set_takeD by fast
      ultimately show ?thesis using out(2) by (auto simp: family_ok_def L(2,3))
    qed
  next
    fix h e assume h: "gget (rsTokens ?s) h = Some e"
    have other: "rdGrantID (reData e) \<noteq> ?g" if "gget (rsTokens s) h = Some e" "h \<noteq> H old"
      using D(8) [OF that(1)] hs that(2) by auto
    show "rdGrantID (reData e) \<noteq> []" "reExpiresAt e \<le> reGrantExpiresAt e"
      using h L(2) D(5,6) D(5) [OF assms(3)] by (auto split: if_splits)
    show "gget (rsConsumed ?s) h = None"
      using h assms(2) D(7) old by (auto simp: L(2,3) fresh_hash_def split: if_splits)
    show "\<exists>hs. gget (rsGrants ?s) (rdGrantID (reData e)) = Some hs \<and> last hs = h"
      using h D(8) other by (auto simp: L(1,2) split: if_splits)
  next
    fix h k assume h: "gget (rsConsumed ?s) h = Some k"
    show "\<exists>hs. gget (rsGrants ?s) k = Some hs \<and> h \<in> set (butlast hs)"
    proof (cases "h = H old")
      case True
      then show ?thesis using h old old_kept drop_set by (auto simp: L(1,3) split: if_splits)
    next
      case False
      then have h': "gget (rsConsumed s) h = Some k" "h \<notin> set (take ?n hs)" using h by (auto simp: L(3) split: if_splits)
      obtain ks where ks: "gget (rsGrants s) k = Some ks" "h \<in> set (butlast ks)" using D(9) [OF h'(1)] by blast
      show ?thesis
      proof (cases "k = ?g")
        case True
        then have "h \<in> set (drop ?n hs)" using ks hs(1) h'(2) drop_set by (auto dest: in_set_butlastD)
        then show ?thesis using True by (simp add: L(1))
      qed (use ks in \<open>simp add: L(1)\<close>)
    qed
  qed
qed

section \<open>Restarting from the snapshot\<close>

lemma restored_snap [simp]: "restoredEntry (snapEntry e) = e"
  by (simp add: restoredEntry_def snapEntry_def Let_def)

lemma snap_fields [simp]: "seExpiresAt (snapEntry e) = reExpiresAt e" "seGrantExpiresAt (snapEntry e) = reGrantExpiresAt e"
    "seGrantID (snapEntry e) = rdGrantID (reData e)"
  by (simp_all add: snapEntry_def Let_def)

abbreviation restarted :: "int \<Rightarrow> refreshTokenStore \<Rightarrow> refreshTokenStore" where
  "restarted now s \<equiv> RestoreTokens now (SnapshotTokens s) NewRefreshTokenStore"

definition unexpired :: "int \<Rightarrow> refreshTokenEntry \<Rightarrow> bool" where
  "unexpired now e \<longleftrightarrow> now \<le> reExpiresAt e \<and> now \<le> reGrantExpiresAt e"

definition live_families :: "int \<Rightarrow> refreshTokenStore \<Rightarrow> string set" where
  "live_families now s = {g. \<exists>h e. gget (rsTokens s) h = Some e \<and> unexpired now e \<and> rdGrantID (reData e) = g}"

lemma restarted_tokens:
  "rsTokens (restarted now s) = filter (\<lambda>(_, e). unexpired now e) (rsTokens s)"
proof -
  have "map (\<lambda>(h, e). (h, restoredEntry e)) (filter (\<lambda>(_, e). \<not> (now > seExpiresAt e \<or> now > seGrantExpiresAt e))
      (map (\<lambda>(h, entry). (h, snapEntry entry)) ts)) = filter (\<lambda>(_, e). unexpired now e) ts" for ts
    by (induction ts) (auto simp: unexpired_def)
  then show ?thesis by (simp add: RestoreTokens_def SnapshotTokens_def Let_def)
qed

lemma restarted_lookups:
  assumes "gwf (rsTokens s)" "gwf (rsConsumed s)" "gwf (rsGrants s)"
  shows "gget (rsTokens (restarted now s)) h = (case gget (rsTokens s) h of None \<Rightarrow> None | Some e \<Rightarrow> if unexpired now e then Some e else None)"
    and "gget (rsConsumed (restarted now s)) h = (case gget (rsConsumed s) h of None \<Rightarrow> None | Some g \<Rightarrow> if g \<in> live_families now s then Some g else None)"
    and "gget (rsGrants (restarted now s)) g = (if g \<in> live_families now s then gget (rsGrants s) g else None)"
proof -
  show "gget (rsTokens (restarted now s)) h = (case gget (rsTokens s) h of None \<Rightarrow> None | Some e \<Rightarrow> if unexpired now e then Some e else None)"
    unfolding restarted_tokens by (rule gget_filter [OF assms(1)])
  let ?live = "set (map (\<lambda>(_, e). seGrantID e) (filter (\<lambda>(_, e). \<not> (now > seExpiresAt e \<or> now > seGrantExpiresAt e))
      (map (\<lambda>(h, entry). (h, snapEntry entry)) (rsTokens s))))"
  have "g \<in> ?live \<longleftrightarrow> (\<exists>h e. (h, e) \<in> set (rsTokens s) \<and> unexpired now e \<and> rdGrantID (reData e) = g)" for g
    by (force simp: unexpired_def)
  then have live: "?live = live_families now s" unfolding live_families_def gwf_mem_iff [OF assms(1)] by blast
  show "gget (rsConsumed (restarted now s)) h = (case gget (rsConsumed s) h of None \<Rightarrow> None | Some g \<Rightarrow> if g \<in> live_families now s then Some g else None)"
    using gget_filter [OF assms(2), of "\<lambda>_ g. g \<in> live_families now s" h] unfolding live [symmetric]
    by (simp add: RestoreTokens_def SnapshotTokens_def Let_def)
  show "gget (rsGrants (restarted now s)) g = (if g \<in> live_families now s then gget (rsGrants s) g else None)"
    using gget_filter [OF assms(3), of "\<lambda>g _. g \<in> live_families now s" g] unfolding live [symmetric]
    by (auto simp: RestoreTokens_def SnapshotTokens_def Let_def split: option.split)
qed

lemma restarted_wf:
  assumes "gwf (rsTokens s)" "gwf (rsConsumed s)" "gwf (rsGrants s)"
  shows "gwf (rsTokens (restarted now s))" "gwf (rsConsumed (restarted now s))" "gwf (rsGrants (restarted now s))"
  using assms unfolding restarted_tokens by (simp_all add: RestoreTokens_def SnapshotTokens_def Let_def)

lemma store_ok_restarted:
  assumes "store_ok s"
  shows "store_ok (restarted now s)"
proof -
  note D = store_okD [OF assms]
  note L = restarted_lookups [OF D(1-3), of now]
  have fam: "family_ok (restarted now s) g hs" if "gget (rsGrants s) g = Some hs" "g \<in> live_families now s" for g hs
  proof -
    from that(2) obtain h e where e: "gget (rsTokens s) h = Some e" "unexpired now e" "rdGrantID (reData e) = g"
      by (auto simp: live_families_def)
    then have "last hs = h" using D(8) [OF e(1)] that(1) by auto
    then show ?thesis using D(4) [OF that(1)] e that(2) by (auto simp: family_ok_def L)
  qed
  have tok: "rdGrantID (reData e) \<in> live_families now s" if "gget (rsTokens s) h = Some e" "unexpired now e" for h e
    using that by (auto simp: live_families_def)
  show ?thesis unfolding store_ok_def
  proof (intro conjI allI impI restarted_wf D(1-3))
    fix g hs assume "gget (rsGrants (restarted now s)) g = Some hs"
    then show "family_ok (restarted now s) g hs" using fam by (auto simp: L split: if_splits)
  next
    fix h g assume "gget (rsConsumed (restarted now s)) h = Some g"
    then show "\<exists>hs. gget (rsGrants (restarted now s)) g = Some hs \<and> h \<in> set (butlast hs)"
      using D(9) by (auto simp: L split: if_splits option.splits)
  next
    fix h e assume h: "gget (rsTokens (restarted now s)) h = Some e"
    then have e: "gget (rsTokens s) h = Some e" "unexpired now e" by (auto simp: L split: option.splits if_splits)
    show "rdGrantID (reData e) \<noteq> []" "reExpiresAt e \<le> reGrantExpiresAt e" "gget (rsConsumed (restarted now s)) h = None"
      using D(5-7) [OF e(1)] by (simp_all add: L)
    show "\<exists>hs. gget (rsGrants (restarted now s)) (rdGrantID (reData e)) = Some hs \<and> last hs = h"
      using D(8) [OF e(1)] tok [OF e] by (simp add: L)
  qed
qed

section \<open>Every history of the store\<close>

text \<open>
  \<open>token_run H s D\<close>: the operations lead to \<open>s\<close>, and \<open>D\<close> is the deadline each grant family was issued with. Drawn tokens
  do not collide with what the store holds, and no grant ID is drawn twice.
\<close>

inductive token_run :: "(string \<Rightarrow> string) \<Rightarrow> refreshTokenStore \<Rightarrow> (string \<rightharpoonup> int) \<Rightarrow> bool" for H where
  start: "token_run H NewRefreshTokenStore Map.empty"
| issue: "token_run H s D \<Longrightarrow> fresh_hash (H raw) s \<Longrightarrow> D g = None \<Longrightarrow> g \<noteq> [] \<Longrightarrow>
    token_run H (snd (IssueRefresh H now raw g data ttl s)) (D(g \<mapsto> now + ttl))"
| rotate_tok: "token_run H s D \<Longrightarrow> fresh_hash (H new) s \<Longrightarrow> token_run H (snd (Rotate H now new old ttl s)) D"
| revoke: "token_run H s D \<Longrightarrow> token_run H (snd (RevokeGrant H token s)) D"
| subject: "token_run H s D \<Longrightarrow> token_run H (snd (RevokeSubject_tokens subj s)) D"
| restart: "token_run H s D \<Longrightarrow> token_run H (restarted now s) D"

definition deadlines :: "refreshTokenStore \<Rightarrow> (string \<rightharpoonup> int) \<Rightarrow> bool" where
  "deadlines s D \<longleftrightarrow> (\<forall>g. gget (rsGrants s) g \<noteq> None \<longrightarrow> D g \<noteq> None) \<and>
     (\<forall>h e. gget (rsTokens s) h = Some e \<longrightarrow> D (rdGrantID (reData e)) = Some (reGrantExpiresAt e))"

lemma deadlines_revoke: "deadlines s D \<Longrightarrow> deadlines (snd (revokeGrantLocked g s)) D"
  by (auto simp: deadlines_def revoked_store Let_def split: if_splits)

lemma deadlines_writes [simp]: "deadlines (writeThrough s) D = deadlines s D"
  by (simp add: deadlines_def writeThrough_def)

lemma revokeFold_ok:
  "store_ok s \<Longrightarrow> deadlines s D \<Longrightarrow>
     store_ok (fold (\<lambda>g s. snd (revokeGrantLocked g s)) gs s) \<and> deadlines (fold (\<lambda>g s. snd (revokeGrantLocked g s)) gs s) D"
  by (induction gs arbitrary: s) (simp_all add: store_ok_revoke deadlines_revoke)

lemma rotate_ok:
  assumes "store_ok s" "deadlines s D" "fresh_hash (H new) s"
  shows "store_ok (snd (rotate_tok H now new old ttl s)) \<and> deadlines (snd (rotate_tok H now new old ttl s)) D"
proof (cases rule: rotate_cases [of s H old now new ttl])
  case (4 entry)
  note D = store_okD [OF assms(1)]
  obtain hs where hs: "gget (rsGrants s) (rdGrantID (reData entry)) = Some hs" "last hs = H old" using D(8) [OF 4(2)] by blast
  then have "hs \<noteq> []" "length hs \<le> maxGrantHistorySize" using D(4) [OF hs(1)] by (auto simp: family_ok_def)
  note L = rotated_lookups(2,3) [OF hs(1) this(2,1)]
  have "deadlines (evictHistory (rdGrantID (reData entry)) (rotated H now new old ttl entry s)) D"
    using assms(2) 4(2) hs(1) unfolding deadlines_def by (simp add: L)
  then show ?thesis using store_ok_rotated [of s H new old entry now ttl] assms(1,3) 4(2,4) by simp
qed (use assms store_ok_revoke deadlines_revoke in auto)

lemma revokeGrant_ok:
  "store_ok s \<Longrightarrow> deadlines s D \<Longrightarrow> store_ok (snd (revokeGrant H token s)) \<and> deadlines (snd (revokeGrant H token s)) D"
  by (simp add: revokeGrant_def Let_def case_prod_unfold store_ok_revoke deadlines_revoke)

lemma token_run_ok: "token_run H s D \<Longrightarrow> store_ok s \<and> deadlines s D"
proof (induction rule: token_run.induct)
  case start
  show ?case by (simp add: store_ok_def deadlines_def NewRefreshTokenStore_def)
next
  case (issue s D raw g now data ttl)
  then have "gget (rsGrants s) g = None" by (auto simp: deadlines_def)
  moreover have "D (rdGrantID (reData e)) \<noteq> None" if "gget (rsTokens s) h = Some e" for h e
    using issue.IH that by (auto simp: deadlines_def)
  ultimately show ?case using issue store_ok_Issue [of s H raw g now data ttl]
    by (auto simp: deadlines_def IssueRefresh_def writeThrough_def split: if_splits)
next
  case (rotate_tok s D new now old ttl)
  then show ?case using rotate_ok [of s D H new now old ttl] by (simp add: Rotate_def case_prod_unfold)
next
  case (revoke s D token)
  then show ?case using revokeGrant_ok [of s D H token] by (simp add: RevokeGrant_def case_prod_unfold)
next
  case (subject s D subj)
  then have "store_ok (fold (\<lambda>g s. snd (revokeGrantLocked g s)) gs s)" "deadlines (fold (\<lambda>g s. snd (revokeGrantLocked g s)) gs s) D" for gs
    using revokeFold_ok by blast+
  then show ?case using subject.IH by (simp add: RevokeSubject_tokens_def Let_def)
next
  case (restart s D now)
  then have "deadlines (restarted now s) D"
    using restarted_lookups [OF store_okD(1-3)] by (auto simp: deadlines_def split: option.splits if_splits)
  then show ?case using restart store_ok_restarted by blast
qed


section \<open>Rotation, theft and lifetime\<close>

text \<open>A client that keeps rotating: each step presents the token the last one returned.\<close>

fun rotations :: "(string \<Rightarrow> string) \<Rightarrow> int \<Rightarrow> string \<Rightarrow> (int \<times> string) list \<Rightarrow> refreshTokenStore \<Rightarrow> (string \<times> refreshTokenStore) option" where
  "rotations H ttl tok [] s = Some (tok, s)"
| "rotations H ttl tok ((now, new) # steps) s = (case Rotate H now new tok ttl s of (r, s') \<Rightarrow>
     if rrOK r then rotations H ttl (rrNewToken r) steps s' else None)"

lemma Rotate_ok_step:
  assumes "store_ok s" "fresh_hash (H new) s" "rrOK (fst (Rotate H now new old ttl s))"
  obtains entry hs where "gget (rsTokens s) (H old) = Some entry" "now \<le> reExpiresAt entry"
    "gget (rsGrants s) (rdGrantID (reData entry)) = Some hs" "last hs = H old"
    "rrNewToken (fst (Rotate H now new old ttl s)) = new"
    "snd (Rotate H now new old ttl s) = writeThrough (evictHistory (rdGrantID (reData entry)) (rotated H now new old ttl entry s))"
proof (cases rule: rotate_cases [of s H old now new ttl])
  case (4 entry)
  then show ?thesis using store_okD(8) [OF assms(1) 4(2)] that [of entry] by (auto simp: Rotate_def)
qed (use assms(3) in \<open>auto simp: Rotate_def zeroResult_def\<close>)

lemma fresh_writes [simp]: "fresh_hash h (writeThrough s) = fresh_hash h s"
  by (simp add: fresh_hash_def writeThrough_def)

text \<open>The live token of a family whose newest hashes are \<open>suf\<close>.\<close>

definition newest :: "(string \<Rightarrow> string) \<Rightarrow> string \<Rightarrow> string \<Rightarrow> string list \<Rightarrow> refreshTokenStore \<Rightarrow> bool" where
  "newest H g tok suf s \<longleftrightarrow> store_ok s \<and> (\<exists>pre. gget (rsGrants s) g = Some (pre @ suf)) \<and> suf \<noteq> [] \<and> last suf = H tok"

lemma newest_step:
  assumes "newest H g tok suf s" "length suf < maxGrantHistorySize" "fresh_hash (H new) s" "rrOK (fst (Rotate H now new tok ttl s))"
  shows "newest H g new (suf @ [H new]) (snd (Rotate H now new tok ttl s))"
    and "fresh_hash h s \<Longrightarrow> h \<noteq> H new \<Longrightarrow> fresh_hash h (snd (Rotate H now new tok ttl s))"
proof -
  have ok: "store_ok s" using assms(1) by (simp add: newest_def)
  obtain pre where pre: "gget (rsGrants s) g = Some (pre @ suf)" "last (pre @ suf) = H tok"
    using assms(1) by (auto simp: newest_def)
  from Rotate_ok_step [OF ok assms(3,4)] obtain entry hs where r: "gget (rsTokens s) (H tok) = Some entry"
    "gget (rsGrants s) (rdGrantID (reData entry)) = Some hs" "last hs = H tok"
    "snd (Rotate H now new tok ttl s) = writeThrough (evictHistory (rdGrantID (reData entry)) (rotated H now new tok ttl entry s))"
    by metis
  have g: "rdGrantID (reData entry) = g" using store_okD(4) [OF ok pre(1)] pre(2) r(1) by (auto simp: family_ok_def)
  then have hs: "hs = pre @ suf" using r(2) pre(1) by simp
  have fam: "length hs \<le> maxGrantHistorySize" "hs \<noteq> []" using store_okD(4) [OF ok r(2)] by (auto simp: family_ok_def)
  note L = rotated_lookups(2-4) [OF r(2) fam, where H = H and now = now and new = new and old = tok and ttl = ttl]
  let ?n = "Suc (length hs) - maxGrantHistorySize"
  have d: "drop ?n hs = drop ?n pre @ suf" using assms(2) by (simp add: hs)
  have "gget (rsGrants (snd (Rotate H now new tok ttl s))) g = Some (drop ?n pre @ suf @ [H new])"
    unfolding r(4) writeThrough_def using L(1) [of g] g by (simp add: d)
  moreover have "store_ok (snd (Rotate H now new tok ttl s))"
    unfolding r(4) store_ok_writes using store_ok_rotated [of s H new tok entry now ttl] ok assms(3) r(1) by simp
  ultimately show "newest H g new (suf @ [H new]) (snd (Rotate H now new tok ttl s))"
    by (simp add: newest_def)
  show "fresh_hash h (snd (Rotate H now new tok ttl s))" if "fresh_hash h s" "h \<noteq> H new"
    using that r(1) by (auto simp: r(4) fresh_hash_def writeThrough_def L(2,3))
qed

lemma newest_rotations:
  "newest H g tok suf s \<Longrightarrow> rotations H ttl tok steps s = Some (tok', s') \<Longrightarrow> length suf + length steps \<le> maxGrantHistorySize \<Longrightarrow>
   distinct (map (H \<circ> snd) steps) \<Longrightarrow> \<forall>(_, new) \<in> set steps. fresh_hash (H new) s \<Longrightarrow>
   newest H g tok' (suf @ map (H \<circ> snd) steps) s'"
proof (induction steps arbitrary: tok suf s)
  case (Cons step steps)
  obtain now new where step: "step = (now, new)" by (cases step)
  let ?r = "fst (Rotate H now new tok ttl s)" and ?s = "snd (Rotate H now new tok ttl s)"
  have run: "rrOK ?r" "rotations H ttl (rrNewToken ?r) steps ?s = Some (tok', s')"
    using Cons.prems(2) by (auto simp: step case_prod_unfold split: if_splits)
  have fresh: "fresh_hash (H new) s" using Cons.prems(5) by (simp add: step)
  have "rrNewToken ?r = new" using Rotate_ok_step [OF _ fresh run(1)] Cons.prems(1) by (auto simp: newest_def)
  moreover have "\<forall>(t, k) \<in> set steps. fresh_hash (H k) ?s"
  proof (intro ballI, clarify)
    fix t k assume k: "(t, k) \<in> set steps"
    then have "H k \<noteq> H new" using Cons.prems(4) by (force simp: step)
    moreover have "fresh_hash (H k) s" using Cons.prems(5) k by auto
    ultimately show "fresh_hash (H k) ?s"
      using newest_step(2) [OF Cons.prems(1) _ fresh run(1)] Cons.prems(3) by simp
  qed
  moreover have "newest H g new (suf @ [H new]) ?s"
    using newest_step(1) [OF Cons.prems(1) _ fresh run(1)] Cons.prems(3) by simp
  ultimately show ?case using Cons.IH [of new "suf @ [H new]" ?s] run(2) Cons.prems(3,4) by (simp add: step)
qed simp

text \<open>Revoking a family names the identity its live token belongs to.\<close>

lemma family_owner:
  assumes "store_ok s" "gget (rsGrants s) g = Some hs"
  obtains entry :: refreshTokenEntry where "fst (revokeGrantLocked g s) = reData entry" "rdGrantID (reData entry) = g"
    "gget (rsTokens s) (last hs) = Some entry"
proof -
  have fam: "family_ok s g hs" by (rule store_okD(4) [OF assms])
  then obtain entry where e: "gget (rsTokens s) (last hs) = Some entry" "rdGrantID (reData entry) = g" and ne: "hs \<noteq> []"
    by (auto simp: family_ok_def)
  have "last hs \<notin> set (butlast hs)" using fam e(1) by (auto simp: family_ok_def)
  then have "fst (revokeGrantLocked g s) = reData entry"
    using fam e ne assms(2) by (intro revoke_owner [of s g "butlast hs" "last hs"]) (auto simp: gor_def family_ok_def)
  then show thesis using that e by blast
qed

text \<open>A family has one live record.\<close>

definition live_record :: "refreshTokenStore \<Rightarrow> string \<Rightarrow> refreshTokenEntry \<Rightarrow> bool" where
  "live_record s g e \<longleftrightarrow> (\<exists>h. gget (rsTokens s) h = Some e) \<and> rdGrantID (reData e) = g"

lemma live_record_unique:
  assumes "store_ok s" "gget (rsGrants s) g = Some hs" "gget (rsTokens s) (last hs) = Some entry" "rdGrantID (reData entry) = g"
  shows "live_record s g e \<longleftrightarrow> e = entry"
  using assms(2-4) store_okD(8) [OF assms(1)] by (fastforce simp: live_record_def)

text \<open>A consumed token: presenting it again revokes its family.\<close>

lemma replay_burns:
  assumes "store_ok s" "gget (rsConsumed s) (H old) = Some g"
  obtains entry :: refreshTokenEntry where "Rotate H now new old ttl s =
      (zeroResult\<lparr>rrTheft := True, rrData := reData entry\<rparr>, writeThrough (snd (revokeGrantLocked g s)))"
    "rdGrantID (reData entry) = g" "\<forall>e. live_record s g e \<longleftrightarrow> e = entry"
proof -
  obtain hs where hs: "gget (rsGrants s) g = Some hs" using store_okD(9) [OF assms] by blast
  obtain entry :: refreshTokenEntry where "fst (revokeGrantLocked g s) = reData entry" "rdGrantID (reData entry) = g"
    "gget (rsTokens s) (last hs) = Some entry"
    by (rule family_owner [OF assms(1) hs])
  then show thesis using that [of entry] live_record_unique [OF assms(1) hs] assms(2) by (simp add: Rotate_def rotate_tok_def Let_def case_prod_unfold)
qed

text \<open>So does revoking by any token of the family, live or consumed.\<close>

definition family_of :: "string \<Rightarrow> refreshTokenStore \<Rightarrow> string option" where
  "family_of h s = (case gget (rsTokens s) h of Some e \<Rightarrow> Some (rdGrantID (reData e)) | None \<Rightarrow> gget (rsConsumed s) h)"

lemma family_known:
  assumes "store_ok s" "family_of h s = Some g"
  obtains hs where "gget (rsGrants s) g = Some hs" "g \<noteq> []"
proof -
  have "\<exists>hs. gget (rsGrants s) g = Some hs"
    using assms(2) store_okD(8,9) [OF assms(1)] by (fastforce simp: family_of_def split: option.splits)
  then obtain hs where hs: "gget (rsGrants s) g = Some hs" by blast
  then show thesis using that family_owner [OF assms(1) hs] store_okD(5) [OF assms(1)] by metis
qed

lemma revoke_burns:
  assumes "store_ok s" "family_of (H token) s = Some g"
  obtains entry :: refreshTokenEntry where "RevokeGrant H token s = ((reData entry, True), writeThrough (snd (revokeGrantLocked g s)))"
    "rdGrantID (reData entry) = g" "\<forall>e. live_record s g e \<longleftrightarrow> e = entry"
proof -
  obtain hs where hs: "gget (rsGrants s) g = Some hs" "g \<noteq> []" by (rule family_known [OF assms])
  obtain entry :: refreshTokenEntry where "fst (revokeGrantLocked g s) = reData entry" "rdGrantID (reData entry) = g"
    "gget (rsTokens s) (last hs) = Some entry"
    by (rule family_owner [OF assms(1) hs(1)])
  then show thesis using that [of entry] live_record_unique [OF assms(1) hs(1)] assms(2) hs(2)
    by (auto simp: RevokeGrant_def revokeGrant_def family_of_def gor_def case_prod_unfold Let_def split: option.splits)
qed

lemma revoked_family_dead:
  assumes "store_ok s"
  shows "\<forall>d. ValidateRefresh H now t (writeThrough (snd (revokeGrantLocked g s))) = Some d \<longrightarrow> rdGrantID d \<noteq> g"
proof (intro allI impI)
  fix d assume "ValidateRefresh H now t (writeThrough (snd (revokeGrantLocked g s))) = Some d"
  then obtain e where e: "gget (rsTokens (snd (revokeGrantLocked g s))) (H t) = Some e" "d = reData e"
    by (auto simp: ValidateRefresh_def writeThrough_def split: option.splits if_splits)
  from store_okD(8) [OF store_ok_revoke [OF assms] e(1)] show "rdGrantID d \<noteq> g"
    using e(2) by (auto simp: revoked_store Let_def)
qed


section \<open>What the stores promise\<close>

text \<open>C6.
  Theft detection. Let an honest client rotate_tok its refresh token up to 31 times, each time presenting the token it was
  given last. Whoever then presents the first token again, at any time, is reported as a thief and gets no token; the result
  carries the identity of the family, and from then on no token of that family is accepted.
\<close>

theorem replay_revokes_family:
  assumes "token_run H s D" "gget (rsTokens s) (H tok) = Some entry"
    and "rotations H ttl tok steps s = Some (tok', s')" "steps \<noteq> []" "length steps < maxGrantHistorySize"
    and "distinct (map (H \<circ> snd) steps)" "\<forall>(_, new) \<in> set steps. fresh_hash (H new) s"
  shows "(let (r, burned) = Rotate H now new tok ttl' s' in
     rrTheft r \<and> \<not> rrOK r \<and> rdGrantID (rrData r) = rdGrantID (reData entry) \<and>
     (\<forall>t later d. ValidateRefresh H later t burned = Some d \<longrightarrow> rdGrantID d \<noteq> rdGrantID (reData entry)))"
proof -
  let ?g = "rdGrantID (reData entry)"
  have ok: "store_ok s" using token_run_ok [OF assms(1)] by blast
  obtain hs where hs: "gget (rsGrants s) ?g = Some hs" "last hs = H tok" using store_okD(8) [OF ok assms(2)] by blast
  then have "hs = butlast hs @ [H tok]" using store_okD(4) [OF ok hs(1)] append_butlast_last_id [of hs] by (auto simp: family_ok_def)
  then have "newest H ?g tok [H tok] s" using ok hs by (auto simp: newest_def)
  from newest_rotations [OF this assms(3) _ assms(6,7)]
  have n: "newest H ?g tok' ([H tok] @ map (H \<circ> snd) steps) s'" using assms(5) by simp
  then obtain pre where pre: "store_ok s'" "gget (rsGrants s') ?g = Some (pre @ H tok # map (H \<circ> snd) steps)"
    by (auto simp: newest_def)
  then have "gget (rsConsumed s') (H tok) = Some ?g"
    using store_okD(4) [OF pre(1,2)] assms(4) by (auto simp: family_ok_def butlast_append)
  then obtain e :: refreshTokenEntry where "Rotate H now new tok ttl' s' =
      (zeroResult\<lparr>rrTheft := True, rrData := reData e\<rparr>, writeThrough (snd (revokeGrantLocked ?g s')))" "rdGrantID (reData e) = ?g"
    by (rule replay_burns [OF pre(1)])
  then show ?thesis using revoked_family_dead [OF pre(1)] by (auto simp: zeroResult_def)
qed

text \<open>C17.
  The lifetime of a session is absolute. Whatever sequence of issues, rotations, revocations and restarts led to the
  store, a refresh token validates only until the deadline its grant family was given when it was first issued:
  rotating never extends it.
\<close>

theorem rotation_never_extends_a_grant:
  assumes "token_run H s D" "ValidateRefresh H now token s = Some d"
  shows "\<exists>deadline. D (rdGrantID d) = Some deadline \<and> now \<le> deadline"
proof -
  have ok: "store_ok s" "deadlines s D" using token_run_ok [OF assms(1)] by auto
  obtain e where e: "gget (rsTokens s) (H token) = Some e" "now \<le> reExpiresAt e" "d = reData e"
    using assms(2) by (auto simp: ValidateRefresh_def split: option.splits if_splits)
  then have "D (rdGrantID d) = Some (reGrantExpiresAt e)" using ok(2) by (auto simp: deadlines_def)
  then show ?thesis using store_okD(6) [OF ok(1) e(1)] e(2) by auto
qed

text \<open>One live token per family: in every reachable store, two tokens that validate for the same grant have the same hash.
\<close>

theorem one_live_token_per_grant:
  assumes "token_run H s D" "ValidateRefresh H now t s = Some d" "ValidateRefresh H now' u s = Some d'" "rdGrantID d = rdGrantID d'"
  shows "H t = H u \<and> d = d'"
proof -
  have ok: "store_ok s" using token_run_ok [OF assms(1)] by auto
  obtain e where e: "gget (rsTokens s) (H t) = Some e" "d = reData e"
    using assms(2) by (auto simp: ValidateRefresh_def split: option.splits if_splits)
  obtain e' where e': "gget (rsTokens s) (H u) = Some e'" "d' = reData e'"
    using assms(3) by (auto simp: ValidateRefresh_def split: option.splits if_splits)
  have "H t = H u" using store_okD(8) [OF ok e(1)] store_okD(8) [OF ok e'(1)] assms(4) e(2) e'(2) by auto
  then show ?thesis using e e' by simp
qed

text \<open>A restart loses no session and revives none: the store restored from the snapshot accepts a token, at the restart or
  later, exactly when the old store would have, and it still recognises as stolen every rotated token of a surviving family.
\<close>

theorem restart_keeps_sessions:
  assumes "token_run H s D" "now \<le> later"
  shows "ValidateRefresh H later t (restarted now s) = ValidateRefresh H later t s \<and>
     (\<forall>u d. ValidateRefresh H now u s = Some d \<longrightarrow>
        (gget (rsConsumed (restarted now s)) (H t) = Some (rdGrantID d)) = (gget (rsConsumed s) (H t) = Some (rdGrantID d)))"
proof -
  have ok: "store_ok s" using token_run_ok [OF assms(1)] by auto
  note L = restarted_lookups [OF store_okD(1-3) [OF ok], of now]
  have exp: "unexpired now e = (now \<le> reExpiresAt e)" if "gget (rsTokens s) h = Some e" for h e
    using store_okD(6) [OF ok that] by (auto simp: unexpired_def)
  have "ValidateRefresh H later t (restarted now s) = ValidateRefresh H later t s"
    using assms(2) exp by (auto simp: ValidateRefresh_def L split: option.split)
  moreover have "rdGrantID d \<in> live_families now s" if v: "ValidateRefresh H now u s = Some d" for u d
  proof -
    obtain e where "gget (rsTokens s) (H u) = Some e" "now \<le> reExpiresAt e" "d = reData e"
      using v by (auto simp: ValidateRefresh_def split: option.splits if_splits)
    then show ?thesis using exp unfolding live_families_def by blast
  qed
  ultimately show ?thesis by (auto simp: L split: option.splits)
qed

text \<open>Issues (with data) and redemptions (without) of other codes.\<close>

fun codeOps :: "(string \<Rightarrow> string) \<Rightarrow> (int \<times> string \<times> authCodeData option \<times> int) list \<Rightarrow> authCodeStore \<Rightarrow> authCodeStore" where
  "codeOps H [] s = s"
| "codeOps H ((now, c, Some d, ttl) # ops) s = codeOps H ops (snd (IssueCode H now c d ttl s))"
| "codeOps H ((now, c, None, ttl) # ops) s = codeOps H ops (snd (Redeem H now c s))"

lemma gget_filter_None: "gget s h = None \<Longrightarrow> gget (filter P s) h = None"
  by (induction s) (auto split: if_splits)

lemma codeOps_absent:
  "gget s (H c) = None \<Longrightarrow> \<forall>(_, c', d, _) \<in> set ops. d \<noteq> None \<longrightarrow> H c' \<noteq> H c \<Longrightarrow> gget (codeOps H ops s) (H c) = None"
  by (induction H ops s rule: codeOps.induct)
    (auto simp: IssueCode_def Redeem_def Let_def gget_filter_None split: option.split)

text \<open>An authorization code works once. Whatever the first redemption answered, no later one succeeds, however many other codes
  (that do not collide with it) were issued and redeemed in between.
\<close>

theorem code_redeemed_once:
  assumes "\<forall>(_, c', d, _) \<in> set ops. d \<noteq> None \<longrightarrow> H c' \<noteq> H c"
  shows "fst (Redeem H later c (codeOps H ops (snd (Redeem H now c s)))) = None"
proof -
  have "gget (snd (Redeem H now c s)) (H c) = None" by (simp add: Redeem_def Let_def split: option.split)
  then show ?thesis using codeOps_absent [OF _ assms] by (simp add: Redeem_def [of H later] Let_def)
qed


section \<open>The properties on a concrete session\<close>

definition ex_user :: refreshTokenData where
  "ex_user = zeroData\<lparr>rdSubject := ''alice'', rdClientID := ''cli''\<rparr>"

definition ex_session :: refreshTokenStore where
  "ex_session = snd (IssueRefresh id 0 ''t0'' ''g1'' ex_user 100 NewRefreshTokenStore)"

lemma ex_session_run: "token_run id ex_session [''g1'' \<mapsto> 100]"
  unfolding ex_session_def
  using token_run.issue [OF token_run.start [of id], of "''t0''" "''g1''" 0 ex_user 100]
  by (simp add: fresh_hash_def NewRefreshTokenStore_def)

lemma ex_session_token: "gget (rsTokens ex_session) (id ''t0'') =
    Some \<lparr>reData = ex_user\<lparr>rdGrantID := ''g1''\<rparr>, reExpiresAt = 100, reGrantExpiresAt = 100\<rparr>"
  by (simp add: ex_session_def IssueRefresh_def NewRefreshTokenStore_def writeThrough_def)

definition ex_rotated :: "string \<times> refreshTokenStore" where
  "ex_rotated = the (rotations id 60 ''t0'' [(10, ''t1''), (20, ''t2'')] ex_session)"

lemma ex_rotations: "rotations id 60 ''t0'' [(10, ''t1''), (20, ''t2'')] ex_session = Some (''t2'', snd ex_rotated)"
proof -
  have "(case rotations id 60 ''t0'' [(10, ''t1''), (20, ''t2'')] ex_session of None \<Rightarrow> False | Some (t, _) \<Rightarrow> t = ''t2'')"
    by code_simp
  then show ?thesis by (auto simp: ex_rotated_def split: option.splits)
qed

theorem replay_revokes_family_witness:
  "rrTheft (fst (Rotate id 30 ''x'' ''t0'' 60 (snd ex_rotated))) \<and> \<not> rrOK (fst (Rotate id 30 ''x'' ''t0'' 60 (snd ex_rotated))) \<and>
   rdGrantID (rrData (fst (Rotate id 30 ''x'' ''t0'' 60 (snd ex_rotated)))) = ''g1''"
proof -
  have "length [(10 :: int, ''t1''), (20, ''t2'')] < maxGrantHistorySize" by (simp add: maxGrantHistorySize_def)
  moreover have "\<forall>(_, new) \<in> set [(10 :: int, ''t1''), (20, ''t2'')]. fresh_hash (id new) ex_session"
    by (simp add: fresh_hash_def ex_session_def IssueRefresh_def NewRefreshTokenStore_def writeThrough_def)
  ultimately show ?thesis
    using replay_revokes_family [OF ex_session_run ex_session_token ex_rotations, of 30 "''x''" 60]
    by (simp add: case_prod_unfold Let_def)
qed

theorem rotation_never_extends_a_grant_witness:
  "\<exists>deadline. [''g1'' \<mapsto> 100 :: int] (rdGrantID (ex_user\<lparr>rdGrantID := ''g1''\<rparr>)) = Some deadline \<and> 50 \<le> deadline"
  by (rule rotation_never_extends_a_grant [OF ex_session_run, of 50 "''t0''"])
    (use ex_session_token in \<open>simp add: ValidateRefresh_def\<close>)

theorem one_live_token_per_grant_witness:
  "(id ''t0'' :: string) = id ''t0'' \<and> ex_user\<lparr>rdGrantID := ''g1''\<rparr> = ex_user\<lparr>rdGrantID := ''g1''\<rparr>"
  by (rule one_live_token_per_grant [OF ex_session_run, of 50 "''t0''" _ 60 "''t0''"])
    (use ex_session_token in \<open>simp_all add: ValidateRefresh_def\<close>)

theorem restart_keeps_sessions_witness:
  "ValidateRefresh id 50 ''t0'' (restarted 40 ex_session) = Some (ex_user\<lparr>rdGrantID := ''g1''\<rparr>)"
  using restart_keeps_sessions [OF ex_session_run, of 40 50 "''t0''"] ex_session_token by (simp add: ValidateRefresh_def)

definition ex_code :: authCodeData where
  "ex_code = \<lparr>acClientID = ''cli'', acRedirectURI = ''http://127.0.0.1/cb'', acCodeChallenge = ''x'', acResource = [],
     acSubject = ''alice'', acEmail = [], acDisplayName = [], acGroups = [], acGrants = []\<rparr>"

theorem code_redeemed_once_witness:
  "fst (Redeem id 5 ''c'' (snd (IssueCode id 0 ''c'' ex_code 60 NewAuthCodeStore))) = Some ex_code \<and>
   fst (Redeem id 7 ''c'' (codeOps id [(6, ''d'', Some ex_code, 60)] (snd (Redeem id 5 ''c'' (snd (IssueCode id 0 ''c'' ex_code 60 NewAuthCodeStore)))))) = None"
proof
  show "fst (Redeem id 5 ''c'' (snd (IssueCode id 0 ''c'' ex_code 60 NewAuthCodeStore))) = Some ex_code"
    by (simp add: Redeem_def IssueCode_def NewAuthCodeStore_def)
  show "fst (Redeem id 7 ''c'' (codeOps id [(6, ''d'', Some ex_code, 60)] (snd (Redeem id 5 ''c'' (snd (IssueCode id 0 ''c'' ex_code 60 NewAuthCodeStore)))))) = None"
    by (rule code_redeemed_once) simp
qed

end
