(* ===== verification/Oauth_Consent.thy ===== *)
theory Oauth_Consent
  imports Oauth_Tokens
begin

text \<open>
  Remembered approvals, \<open>internal/oauth/consent_store.go\<close>, and the CSRF token of the consent page, \<open>consent.go\<close>.
  \<open>H\<close> is SHA-256 followed by base64url, \<open>mac\<close> the same for HMAC-SHA-256 under a key; both take the bytes written to them.
\<close>

section \<open>Unambiguous encodings\<close>

text \<open>\<open>binary.BigEndian.PutUint64\<close> of \<open>uint64(n)\<close>, eight bytes, most significant first.\<close>

definition PutUint64 :: "nat \<Rightarrow> string" where
  "PutUint64 n = map (\<lambda>i. char_of (n div 256 ^ i mod 256)) [7, 6, 5, 4, 3, 2, 1, 0]"

text \<open>\<open>hashField\<close> on the bytes the hash has been given so far.\<close>

definition hashField :: "string \<Rightarrow> string \<Rightarrow> string" where
  "hashField buf field = buf @ PutUint64 (length field) @ field"

definition hashFields :: "(string \<Rightarrow> string) \<Rightarrow> string \<Rightarrow> string list \<Rightarrow> string" where
  "hashFields H domain flds = H (foldl hashField (hashField [] domain) flds)"

record clientMetadata =
  cmClientID :: string
  cmClientName :: string
  cmLogoURI :: string
  cmRedirectURIs :: "string list"
  cmTokenEndpointAuthMethod :: string

definition HasRedirectURI :: "clientMetadata \<Rightarrow> string \<Rightarrow> bool" where
  "HasRedirectURI m uri \<longleftrightarrow> uri \<in> set (cmRedirectURIs m)"

definition consentFingerprintDomain :: string where "consentFingerprintDomain = ''cetacean-consent-v1''"
definition consentKeyDomain :: string where "consentKeyDomain = ''cetacean-consent-key-v1''"

definition consentFingerprint :: "(string \<Rightarrow> string) \<Rightarrow> clientMetadata \<Rightarrow> string" where
  "consentFingerprint H meta = hashFields H consentFingerprintDomain (cmClientName meta # sort (cmRedirectURIs meta))"

record consentKey =
  ckSubject :: string
  ckClientID :: string
  ckResource :: string

definition hash_key :: "(string \<Rightarrow> string) \<Rightarrow> consentKey \<Rightarrow> string" where
  "hash_key H k = hashFields H consentKeyDomain [ckSubject k, ckClientID k, ckResource k]"

definition ConsentKey_of :: "refreshTokenData \<Rightarrow> consentKey" where
  "ConsentKey_of d = \<lparr>ckSubject = rdSubject d, ckClientID = rdClientID d, ckResource = rdResource d\<rparr>"

section \<open>The store\<close>

record consentRecord =
  crKey :: consentKey
  crFingerprint :: string
  crGrantedAt :: int

record consentStore =
  csTTL :: int
  csRecords :: "consentRecord gomap"
  csWrites :: nat

definition NewConsentStore :: "int \<Rightarrow> consentStore" where
  "NewConsentStore ttl = \<lparr>csTTL = ttl, csRecords = [], csWrites = 0\<rparr>"

definition Enabled :: "consentStore \<Rightarrow> bool" where
  "Enabled s \<longleftrightarrow> csTTL s > 0"

definition expired :: "consentStore \<Rightarrow> int \<Rightarrow> int \<Rightarrow> bool" where
  "expired s grantedAt now \<longleftrightarrow> now - grantedAt \<ge> csTTL s"

definition writeConsent :: "consentStore \<Rightarrow> consentStore" where
  "writeConsent s = s\<lparr>csWrites := csWrites s + 1\<rparr>"

definition Allows :: "(string \<Rightarrow> string) \<Rightarrow> int \<Rightarrow> consentKey \<Rightarrow> string \<Rightarrow> consentStore \<Rightarrow> bool" where
  "Allows H now key fingerprint s \<longleftrightarrow> Enabled s \<and> (case gget (csRecords s) (hash_key H key) of
     None \<Rightarrow> False
   | Some record \<Rightarrow> crFingerprint record = fingerprint \<and> \<not> expired s (crGrantedAt record) now)"

definition Remember :: "(string \<Rightarrow> string) \<Rightarrow> int \<Rightarrow> consentKey \<Rightarrow> string \<Rightarrow> consentStore \<Rightarrow> consentStore" where
  "Remember H now key fingerprint s = (if \<not> Enabled s then s
     else if (case gget (csRecords s) (hash_key H key) of
         None \<Rightarrow> False
       | Some existing \<Rightarrow> crFingerprint existing = fingerprint \<and> \<not> expired s (crGrantedAt existing) now) then s
     else writeConsent (s\<lparr>csRecords := gset (csRecords s) (hash_key H key)
       \<lparr>crKey = key, crFingerprint = fingerprint, crGrantedAt = now\<rparr>\<rparr>))"

definition ForgetConsent :: "(string \<Rightarrow> string) \<Rightarrow> consentKey \<Rightarrow> consentStore \<Rightarrow> consentStore" where
  "ForgetConsent H key s = (let existed = gget (csRecords s) (hash_key H key) \<noteq> None;
       s' = s\<lparr>csRecords := gdel (csRecords s) (hash_key H key)\<rparr>
     in if \<not> existed then s' else writeConsent s')"

definition ForgetSubject :: "string \<Rightarrow> consentStore \<Rightarrow> consentStore" where
  "ForgetSubject subject s = (let forgot = list_ex (\<lambda>(_, r). ckSubject (crKey r) = subject) (csRecords s);
       s' = s\<lparr>csRecords := filter (\<lambda>(_, r). ckSubject (crKey r) \<noteq> subject) (csRecords s)\<rparr>
     in if forgot then writeConsent s' else s')"

definition SnapshotConsent :: "consentStore \<Rightarrow> consentRecord list" where
  "SnapshotConsent s = sort_key (\<lambda>r. (ckSubject (crKey r), ckClientID (crKey r), ckResource (crKey r))) (map snd (csRecords s))"

definition RestoreConsent :: "(string \<Rightarrow> string) \<Rightarrow> int \<Rightarrow> consentRecord list \<Rightarrow> consentStore \<Rightarrow> consentStore" where
  "RestoreConsent H now records s = s\<lparr>csRecords := (if \<not> Enabled s then []
     else fold (\<lambda>r m. if expired s (crGrantedAt r) now then m else gset m (hash_key H (crKey r)) r) records [])\<rparr>"

section \<open>The CSRF token\<close>

record consentBinding =
  cbState :: string
  cbFingerprint :: string
  cbClientID :: string
  cbRedirectURI :: string
  cbCodeChallenge :: string
  cbCodeChallengeMethod :: string
  cbResponseType :: string
  cbResource :: string

definition csrfMAC :: "(string \<Rightarrow> string \<Rightarrow> string) \<Rightarrow> string \<Rightarrow> string \<Rightarrow> consentBinding \<Rightarrow> string" where
  "csrfMAC mac signingKey nonce b = mac signingKey (foldl hashField []
     [nonce, cbState b, cbFingerprint b, cbClientID b, cbRedirectURI b, cbCodeChallenge b, cbCodeChallengeMethod b,
      cbResponseType b, cbResource b])"

section \<open>Fields are recovered from their encoding\<close>

lemma length_PutUint64 [simp]: "length (PutUint64 n) = 8"
  by (simp add: PutUint64_def)

lemma byte_digits:
  fixes n :: nat
  assumes "n < 256 ^ Suc k"
  shows "n = (n div 256 ^ k mod 256) * 256 ^ k + n mod 256 ^ k"
proof -
  have "n div 256 ^ k < 256" using assms by (simp add: less_mult_imp_div_less mult.commute)
  then show ?thesis by (simp add: div_mult_mod_eq)
qed

lemma byte_digits_inj:
  fixes m n :: nat
  shows "m < 256 ^ k \<Longrightarrow> n < 256 ^ k \<Longrightarrow> \<forall>i < k. m div 256 ^ i mod 256 = n div 256 ^ i mod 256 \<Longrightarrow> m = n"
proof (induction k arbitrary: m n)
  case (Suc k)
  have low: "x mod 256 ^ k div 256 ^ i mod 256 = x div 256 ^ i mod 256" if "i < k" for x i :: nat
  proof -
    have "(256 :: nat) ^ k = 256 ^ i * 256 ^ (k - i)" using that by (simp flip: power_add)
    then have "x mod 256 ^ k div 256 ^ i = x div 256 ^ i mod 256 ^ (k - i)" by (simp add: mod_mult2_eq)
    moreover have "256 dvd (256 :: nat) ^ (k - i)" using that by (simp add: dvd_power)
    ultimately show ?thesis by (simp add: mod_mod_cancel)
  qed
  have "m mod 256 ^ k = n mod 256 ^ k"
  proof (rule Suc.IH)
    show "\<forall>i<k. m mod 256 ^ k div 256 ^ i mod 256 = n mod 256 ^ k div 256 ^ i mod 256"
      using Suc.prems(3) low by simp
  qed simp_all
  moreover have "m div 256 ^ k mod 256 = n div 256 ^ k mod 256" using Suc.prems(3) by simp
  ultimately show ?case using byte_digits [OF Suc.prems(1)] byte_digits [OF Suc.prems(2)] by metis
qed simp

lemma PutUint64_inj:
  assumes "PutUint64 m = PutUint64 n" "m < 2 ^ 64" "n < 2 ^ 64"
  shows "m = n"
proof (rule byte_digits_inj [of _ 8])
  have "m div 256 ^ i mod 256 = n div 256 ^ i mod 256" if "i \<in> set [7, 6, 5, 4, 3, 2, 1, 0]" for i
  proof -
    have "(char_of (m div 256 ^ i mod 256) :: char) = char_of (n div 256 ^ i mod 256)"
      using assms(1) that unfolding PutUint64_def map_eq_conv by blast
    then have "of_char (char_of (m div 256 ^ i mod 256) :: char) = (of_char (char_of (n div 256 ^ i mod 256) :: char) :: nat)"
      by simp
    then show ?thesis by simp
  qed
  moreover have "i \<in> set [7, 6, 5, 4, 3, 2, 1, 0]" if "i < 8" for i :: nat
  proof -
    have "set [7, 6, 5, 4, 3, 2, 1, 0] = {..<8 :: nat}" by (simp add: lessThan_nat_numeral lessThan_Suc)
    then show ?thesis using that by simp
  qed
  ultimately show "\<forall>i < 8. m div 256 ^ i mod 256 = n div 256 ^ i mod 256" by metis
qed (use assms in simp_all)

definition small :: "string \<Rightarrow> bool" where
  "small s \<longleftrightarrow> length s < 2 ^ 64"

lemma fields_concat: "foldl hashField buf flds = buf @ concat (map (\<lambda>f. PutUint64 (length f) @ f) flds)"
  by (induction flds arbitrary: buf) (simp_all add: hashField_def)

lemma field_cut:
  assumes "PutUint64 (length f) @ f @ r = PutUint64 (length g) @ g @ r'" "small f" "small g"
  shows "f = g \<and> r = r'"
proof -
  have "PutUint64 (length f) = PutUint64 (length g)" "f @ r = g @ r'" using assms(1) by (simp_all add: append_eq_append_conv)
  moreover have "length f = length g" using PutUint64_inj calculation(1) assms(2,3) unfolding small_def by blast
  ultimately show ?thesis by simp
qed

lemma fields_unambiguous:
  "foldl hashField [] fs = foldl hashField [] gs \<Longrightarrow> \<forall>f \<in> set fs \<union> set gs. small f \<Longrightarrow> fs = gs"
proof (induction fs arbitrary: gs)
  case Nil
  have "PutUint64 (length g) \<noteq> []" for g :: string using length_PutUint64 [of "length g"] by (metis list.size(3) zero_neq_numeral)
  then show ?case using Nil.prems(1) unfolding fields_concat by (cases gs) simp_all
next
  case (Cons f fs)
  have "PutUint64 (length f) \<noteq> []" using length_PutUint64 [of "length f"] by (metis list.size(3) zero_neq_numeral)
  then obtain g gs' where gs: "gs = g # gs'"
    using Cons.prems(1) unfolding fields_concat by (cases gs) simp_all
  have "f = g \<and> concat (map (\<lambda>f. PutUint64 (length f) @ f) fs) = concat (map (\<lambda>f. PutUint64 (length f) @ f) gs')"
    using Cons.prems unfolding gs fields_concat by (intro field_cut) simp_all
  then show ?case using Cons.IH [of gs'] Cons.prems(2) unfolding gs fields_concat by simp
qed

text \<open>The bytes \<open>hashFields\<close> hashes.\<close>

definition preimage :: "string \<Rightarrow> string list \<Rightarrow> string" where
  "preimage domain flds = foldl hashField (hashField [] domain) flds"

lemma hashFields_preimage: "hashFields H d fs = H (preimage d fs)"
  by (simp add: hashFields_def preimage_def)

lemma preimage_inj:
  assumes "preimage d fs = preimage d' gs" "\<forall>f \<in> {d, d'} \<union> set fs \<union> set gs. small f"
  shows "d = d' \<and> fs = gs"
proof -
  have "foldl hashField [] (d # fs) = foldl hashField [] (d' # gs)" using assms(1) by (simp add: preimage_def)
  then have "d # fs = d' # gs" by (rule fields_unambiguous) (use assms(2) in auto)
  then show ?thesis by simp
qed


section \<open>Every history of the store\<close>

datatype consentOp = OpRemember int consentKey string | OpForget consentKey | OpForgetSubject string | OpRestart int

fun consentStep :: "(string \<Rightarrow> string) \<Rightarrow> consentOp \<Rightarrow> consentStore \<Rightarrow> consentStore" where
  "consentStep H (OpRemember now key fp) s = Remember H now key fp s"
| "consentStep H (OpForget key) s = ForgetConsent H key s"
| "consentStep H (OpForgetSubject subject) s = ForgetSubject subject s"
| "consentStep H (OpRestart now) s = RestoreConsent H now (SnapshotConsent s) (NewConsentStore (csTTL s))"

definition consentRun :: "(string \<Rightarrow> string) \<Rightarrow> int \<Rightarrow> consentOp list \<Rightarrow> consentStore" where
  "consentRun H ttl ops = fold (consentStep H) ops (NewConsentStore ttl)"

text \<open>\<open>approved ops key fp t\<close>: the user approved at \<open>t\<close>, and nothing withdrew it since.\<close>

definition approved :: "consentOp list \<Rightarrow> consentKey \<Rightarrow> string \<Rightarrow> int \<Rightarrow> bool" where
  "approved ops key fp t \<longleftrightarrow> (\<exists>pre post. ops = pre @ OpRemember t key fp # post \<and>
     OpForget key \<notin> set post \<and> OpForgetSubject (ckSubject key) \<notin> set post)"

lemma approved_snoc:
  "approved ops key fp t \<Longrightarrow> opn \<noteq> OpForget key \<Longrightarrow> opn \<noteq> OpForgetSubject (ckSubject key) \<Longrightarrow> approved (ops @ [opn]) key fp t"
  unfolding approved_def
proof (elim exE conjE)
  fix pre post assume "ops = pre @ OpRemember t key fp # post" "OpForget key \<notin> set post"
    "OpForgetSubject (ckSubject key) \<notin> set post" "opn \<noteq> OpForget key" "opn \<noteq> OpForgetSubject (ckSubject key)"
  then show "\<exists>pre post'. ops @ [opn] = pre @ OpRemember t key fp # post' \<and> OpForget key \<notin> set post' \<and>
      OpForgetSubject (ckSubject key) \<notin> set post'"
    by (intro exI [of _ pre] exI [of _ "post @ [opn]"]) auto
qed

lemma approved_now: "approved (ops @ [OpRemember t key fp]) key fp t"
  unfolding approved_def by (rule exI [of _ ops]) auto

text \<open>The records of a store, each under the hash of its own key.\<close>

definition keyed :: "(string \<Rightarrow> string) \<Rightarrow> consentStore \<Rightarrow> bool" where
  "keyed H s \<longleftrightarrow> gwf (csRecords s) \<and> (\<forall>h r. gget (csRecords s) h = Some r \<longrightarrow> h = hash_key H (crKey r))"

definition keep_records :: "(string \<Rightarrow> string) \<Rightarrow> (consentRecord \<Rightarrow> bool) \<Rightarrow> consentRecord list \<Rightarrow> consentRecord gomap \<Rightarrow> consentRecord gomap" where
  "keep_records H P rs m = fold (\<lambda>r m. if P r then m else gset m (hash_key H (crKey r)) r) rs m"

lemma keep_records_simps [simp]:
  "keep_records H P [] m = m"
  "keep_records H P (r # rs) m = keep_records H P rs (if P r then m else gset m (hash_key H (crKey r)) r)"
  by (simp_all add: keep_records_def)

lemma keep_records_wf: "gwf m \<Longrightarrow> gwf (keep_records H P rs m)"
  by (induction rs arbitrary: m) simp_all

lemma keep_records_from:
  "gget (keep_records H P rs m) h = Some r \<Longrightarrow> gget m h = Some r \<or> (r \<in> set rs \<and> h = hash_key H (crKey r))"
proof (induction rs arbitrary: m)
  case (Cons a rs)
  from Cons.IH [OF Cons.prems [simplified]] show ?case by (auto split: if_splits)
qed simp

lemma RestoreConsent_records:
  "csRecords (RestoreConsent H now rs s) = (if Enabled s then keep_records H (\<lambda>r. expired s (crGrantedAt r) now) rs [] else [])"
  by (simp add: RestoreConsent_def keep_records_def)

lemma restored_records:
  assumes "gget (csRecords (RestoreConsent H now (SnapshotConsent s) (NewConsentStore ttl))) h = Some r" "gwf (csRecords s)"
  shows "h = hash_key H (crKey r) \<and> (\<exists>h'. gget (csRecords s) h' = Some r)"
proof -
  have "r \<in> set (SnapshotConsent s) \<and> h = hash_key H (crKey r)"
    using assms(1) by (auto simp: RestoreConsent_records split: if_splits dest: keep_records_from)
  then show ?thesis using gwf_mem_iff [OF assms(2)] by (auto simp: SnapshotConsent_def)
qed

lemma keyed_step:
  assumes "keyed H s"
  shows "keyed H (consentStep H opn s)"
proof (cases opn)
  case (OpRemember now key fp)
  then show ?thesis using assms by (auto simp: keyed_def Remember_def writeConsent_def split: if_splits)
next
  case (OpForget key)
  then show ?thesis using assms by (auto simp: keyed_def ForgetConsent_def writeConsent_def Let_def split: if_splits)
next
  case (OpForgetSubject subject)
  then show ?thesis using assms
    by (auto simp: keyed_def ForgetSubject_def writeConsent_def Let_def gget_filter split: if_splits option.splits)
next
  case (OpRestart now)
  have "gwf (csRecords (RestoreConsent H now (SnapshotConsent s) (NewConsentStore (csTTL s))))"
    by (simp add: RestoreConsent_records keep_records_wf)
  then show ?thesis using restored_records assms OpRestart by (auto simp: keyed_def)
qed

lemma keyed_run: "keyed H (consentRun H ttl ops)"
proof (induction ops rule: rev_induct)
  case Nil
  show ?case by (simp add: consentRun_def NewConsentStore_def keyed_def)
next
  case (snoc opn ops)
  then show ?case using keyed_step by (simp add: consentRun_def)
qed

lemma ttl_run: "csTTL (consentRun H ttl ops) = ttl"
proof (induction ops rule: rev_induct)
  case (snoc opn ops)
  then show ?case by (cases opn)
      (simp_all add: consentRun_def Remember_def ForgetConsent_def ForgetSubject_def RestoreConsent_def writeConsent_def NewConsentStore_def Let_def)
qed (simp add: consentRun_def NewConsentStore_def)

lemma records_approved:
  "gget (csRecords (consentRun H ttl ops)) h = Some r \<Longrightarrow> approved ops (crKey r) (crFingerprint r) (crGrantedAt r)"
proof (induction ops arbitrary: h r rule: rev_induct)
  case (snoc opn ops)
  let ?s = "consentRun H ttl ops"
  have step: "gget (csRecords (consentStep H opn ?s)) h = Some r" using snoc.prems by (simp add: consentRun_def)
  have key: "h = hash_key H (crKey r)" if "gget (csRecords ?s) h = Some r" for h r
    using keyed_run [of H ttl ops] that by (auto simp: keyed_def)
  show ?case
  proof (cases opn)
    case (OpRemember now key fp)
    from step have "gget (csRecords ?s) h = Some r \<or> r = \<lparr>crKey = key, crFingerprint = fp, crGrantedAt = now\<rparr>"
      unfolding OpRemember by (auto simp: Remember_def writeConsent_def split: if_splits)
    then show ?thesis using snoc.IH [of h r] approved_now [of ops now key fp] approved_snoc [of ops] OpRemember by auto
  next
    case (OpForget key)
    then have "gget (csRecords ?s) h = Some r" "h \<noteq> hash_key H key"
      using step by (auto simp: ForgetConsent_def writeConsent_def Let_def split: if_splits)
    moreover have "opn \<noteq> OpForget (crKey r)" using key [OF calculation(1)] calculation(2) OpForget by auto
    ultimately show ?thesis using approved_snoc [OF snoc.IH] OpForget by simp
  next
    case (OpForgetSubject subject)
    then have "gget (csRecords ?s) h = Some r" "ckSubject (crKey r) \<noteq> subject"
      using step keyed_run [of H ttl ops]
      by (auto simp: ForgetSubject_def writeConsent_def Let_def keyed_def gget_filter split: if_splits option.splits)
    then show ?thesis using approved_snoc [OF snoc.IH] OpForgetSubject by simp
  next
    case (OpRestart now)
    then obtain h' where "gget (csRecords ?s) h' = Some r"
      using step restored_records keyed_run [of H ttl ops] unfolding keyed_def by fastforce
    then show ?thesis using approved_snoc [OF snoc.IH] OpRestart by simp
  qed
qed (simp add: consentRun_def NewConsentStore_def)


section \<open>What the consent store promises\<close>

text \<open>C15.
  An approval is honoured only where it was given. Whatever the user approved and withdrew before, restarts included, the
  store lets a client pass without asking only when this user approved this client, for this resource, with this
  fingerprint, less than one lifetime ago, and neither the approval nor the user was revoked since. (The keys involved do
  not collide under the hash.)
\<close>

theorem consent_only_where_given:
  assumes "Allows H now key fp (consentRun H ttl ops)"
    and "inj_on (hash_key H) (insert key {k. \<exists>t f. OpRemember t k f \<in> set ops})"
  shows "\<exists>t. approved ops key fp t \<and> now - t < ttl"
proof -
  obtain r where r: "gget (csRecords (consentRun H ttl ops)) (hash_key H key) = Some r" "crFingerprint r = fp" "now - crGrantedAt r < ttl"
    using assms(1) ttl_run [of H ttl ops] by (auto simp: Allows_def expired_def split: option.splits)
  have a: "approved ops (crKey r) (crFingerprint r) (crGrantedAt r)" by (rule records_approved [OF r(1)])
  then have "OpRemember (crGrantedAt r) (crKey r) (crFingerprint r) \<in> set ops" by (auto simp: approved_def)
  then have "crKey r \<in> {k. \<exists>t f. OpRemember t k f \<in> set ops}" by blast
  moreover have "hash_key H key = hash_key H (crKey r)" using keyed_run [of H ttl ops] r(1) by (auto simp: keyed_def)
  ultimately have "crKey r = key" using assms(2) by (auto dest: inj_onD)
  then show ?thesis using a r(2,3) by auto
qed

text \<open>The bytes behind every keyed hash are unambiguous: two lists of fields under two domains give the same bytes to hash
  only when the domains and all the fields agree, whatever bytes the fields contain. So two approvals can share a key,
  and two clients a fingerprint, only through a collision of SHA-256 itself.
\<close>

theorem hashed_bytes_unambiguous:
  assumes "hashFields id d fs = hashFields id d' gs" "\<forall>f \<in> {d, d'} \<union> set fs \<union> set gs. small f"
  shows "d = d' \<and> fs = gs"
  using preimage_inj [of d fs d' gs] assms by (simp add: hashFields_preimage)

text \<open>A consent form cannot be altered between the page and the decision: a CSRF token issued under a nonce verifies for
  another nonce or for any other value of a bound field only through a collision of the MAC.
\<close>

theorem csrf_token_binds_the_form:
  assumes "csrfMAC mac k nonce b = csrfMAC mac k nonce' b'"
    and "\<And>x y. mac k x = mac k y \<Longrightarrow> x = y"
    and "\<forall>f \<in> {nonce, nonce', cbState b, cbFingerprint b, cbClientID b, cbRedirectURI b, cbCodeChallenge b,
        cbCodeChallengeMethod b, cbResponseType b, cbResource b, cbState b', cbFingerprint b', cbClientID b', cbRedirectURI b',
        cbCodeChallenge b', cbCodeChallengeMethod b', cbResponseType b', cbResource b'}. small f"
  shows "nonce = nonce' \<and> b = b'"
proof -
  have "[nonce, cbState b, cbFingerprint b, cbClientID b, cbRedirectURI b, cbCodeChallenge b, cbCodeChallengeMethod b, cbResponseType b, cbResource b]
      = [nonce', cbState b', cbFingerprint b', cbClientID b', cbRedirectURI b', cbCodeChallenge b', cbCodeChallengeMethod b', cbResponseType b', cbResource b']"
    by (rule fields_unambiguous [OF assms(2)]) (use assms(1,3) in \<open>auto simp: csrfMAC_def\<close>)
  then show ?thesis by (simp add: consentBinding.equality)
qed

text \<open>The same sequences of operations, on a concrete store.\<close>

definition ex_key :: consentKey where
  "ex_key = \<lparr>ckSubject = ''alice'', ckClientID = ''https://app'', ckResource = ''https://c''\<rparr>"

theorem consent_only_where_given_witness:
  "\<exists>t. approved [OpRemember 5 ex_key ''fp'', OpForget (ex_key\<lparr>ckSubject := ''bob''\<rparr>), OpRestart 7] ex_key ''fp'' t \<and> 9 - t < 10"
proof (rule consent_only_where_given)
  have "hash_key id ex_key \<noteq> hash_key id (ex_key\<lparr>ckSubject := ''bob''\<rparr>)"
    using preimage_inj [of consentKeyDomain "[''alice'', ''https://app'', ''https://c'']" consentKeyDomain "[''bob'', ''https://app'', ''https://c'']"]
    by (auto simp: hash_key_def hashFields_preimage ex_key_def small_def consentKeyDomain_def)
  then show "Allows id 9 ex_key ''fp'' (consentRun id 10 [OpRemember 5 ex_key ''fp'', OpForget (ex_key\<lparr>ckSubject := ''bob''\<rparr>), OpRestart 7])"
    by (simp add: consentRun_def NewConsentStore_def Remember_def Enabled_def ForgetConsent_def writeConsent_def Let_def
        RestoreConsent_def SnapshotConsent_def expired_def Allows_def)
  show "inj_on (hash_key id) (insert ex_key {k. \<exists>t f. OpRemember t k f \<in>
      set [OpRemember 5 ex_key ''fp'', OpForget (ex_key\<lparr>ckSubject := ''bob''\<rparr>), OpRestart 7]})"
    by (auto simp: inj_on_def)
qed

theorem hashed_bytes_unambiguous_witness: "hashFields id ''d'' [''ab'', ''c''] \<noteq> hashFields id ''d'' [''a'', ''bc'']"
proof
  assume "hashFields id ''d'' [''ab'', ''c''] = hashFields id ''d'' [''a'', ''bc'']"
  then have "''d'' = ''d'' \<and> [''ab'', ''c''] = [''a'', ''bc'']"
    by (rule hashed_bytes_unambiguous) (simp add: small_def)
  then show False by simp
qed

definition ex_binding :: consentBinding where
  "ex_binding = \<lparr>cbState = ''s'', cbFingerprint = ''f'', cbClientID = ''c'', cbRedirectURI = ''r'', cbCodeChallenge = ''x'',
     cbCodeChallengeMethod = ''S256'', cbResponseType = ''code'', cbResource = []\<rparr>"

theorem csrf_token_binds_the_form_witness:
  "csrfMAC (\<lambda>k x. k @ x) ''k'' ''n'' ex_binding \<noteq> csrfMAC (\<lambda>k x. k @ x) ''k'' ''n'' (ex_binding\<lparr>cbRedirectURI := ''q''\<rparr>)"
proof
  assume "csrfMAC (\<lambda>k x. k @ x) ''k'' ''n'' ex_binding = csrfMAC (\<lambda>k x. k @ x) ''k'' ''n'' (ex_binding\<lparr>cbRedirectURI := ''q''\<rparr>)"
  then have "''n'' = ''n'' \<and> ex_binding = ex_binding\<lparr>cbRedirectURI := ''q''\<rparr>"
    by (rule csrf_token_binds_the_form) (simp_all add: small_def ex_binding_def)
  then show False by (simp add: ex_binding_def)
qed

end
