(* ===== verification/Oauth_Clients.thy ===== *)
theory Oauth_Clients
  imports Oauth_Consent Go_Strings
begin

text \<open>
  Dynamic client registration, \<open>internal/oauth/dcr.go\<close>: the bounded registry with its eviction order and its snapshot,
  the registration rate limit, and the checks of \<open>HandleRegister\<close>. \<open>P\<close> is \<open>url.Parse\<close> (None where it fails), \<open>LB\<close> says whether
  a host name is a loopback address to \<open>net.ParseIP\<close>; the decoded request body, the peer's address, the drawn client ID and the clock are
  arguments.
\<close>

section \<open>Registrations\<close>

record clientRegistration =
  rgClientID :: string
  rgClientName :: string
  rgRedirectURIs :: "string list"
  rgGrantTypes :: "string list"
  rgResponseTypes :: "string list"
  rgTokenEndpointAuthMethod :: string
  rgClientIDIssuedAt :: int
  rgApplicationType :: string

record dcrRequest =
  dqClientName :: string
  dqRedirectURIs :: "string list"
  dqGrantTypes :: "string list"
  dqResponseTypes :: "string list"
  dqTokenEndpointAuthMethod :: string
  dqApplicationType :: string

record ipBucket =
  ibTokens :: int
  ibResetAt :: int

record clientRegistry =
  rgyClients :: "clientRegistration gomap"
  rgyOrder :: "string list"
  rgyMax :: int
  rgyBuckets :: "ipBucket gomap"
  rgyRateLimit :: int
  rgyWrites :: nat

definition newClientRegistry :: "int \<Rightarrow> int \<Rightarrow> clientRegistry" where
  "newClientRegistry maxClients rateLimit = \<lparr>rgyClients = [], rgyOrder = [], rgyMax = maxClients, rgyBuckets = [],
     rgyRateLimit = rateLimit, rgyWrites = 0\<rparr>"

definition GetClient :: "string \<Rightarrow> clientRegistry \<Rightarrow> clientRegistration option" where
  "GetClient clientID r = gget (rgyClients r) clientID"

definition evictOldest :: "clientRegistry \<Rightarrow> clientRegistry" where
  "evictOldest r = (if int (length (rgyClients r)) \<ge> rgyMax r \<and> rgyMax r > 0
     then (case rgyOrder r of
         [] \<Rightarrow> r
       | oldest # rest \<Rightarrow> r\<lparr>rgyOrder := rest, rgyClients := gdel (rgyClients r) oldest\<rparr>)
     else r)"

definition register :: "clientRegistration \<Rightarrow> clientRegistry \<Rightarrow> clientRegistry" where
  "register reg r = (let r' = evictOldest r in
     r'\<lparr>rgyClients := gset (rgyClients r') (rgClientID reg) reg, rgyOrder := rgyOrder r' @ [rgClientID reg],
        rgyWrites := rgyWrites r' + 1\<rparr>)"

definition SnapshotClients :: "clientRegistry \<Rightarrow> clientRegistration list" where
  "SnapshotClients r = List.map_filter (\<lambda>clientID. gget (rgyClients r) clientID) (rgyOrder r)"

definition restoreClient :: "clientRegistration \<Rightarrow> clientRegistry \<Rightarrow> clientRegistry" where
  "restoreClient reg r = (if gget (rgyClients r) (rgClientID reg) \<noteq> None then r
     else r\<lparr>rgyClients := gset (rgyClients r) (rgClientID reg) reg, rgyOrder := rgyOrder r @ [rgClientID reg]\<rparr>)"

definition RestoreClients :: "clientRegistration list \<Rightarrow> clientRegistry \<Rightarrow> clientRegistry" where
  "RestoreClients registrations r = (let
      kept = (if rgyMax r > 0 \<and> int (length registrations) > rgyMax r
              then drop (length registrations - nat (rgyMax r)) registrations else registrations)
    in fold restoreClient kept (r\<lparr>rgyClients := [], rgyOrder := []\<rparr>))"

section \<open>The rate limit\<close>

text \<open>Instants and durations count nanoseconds, as Go's do.\<close>

definition second :: int where "second = 1000000000"
definition Hour :: int where "Hour = 3600 * second"

definition checkRateLimit :: "int \<Rightarrow> string \<Rightarrow> clientRegistry \<Rightarrow> bool \<times> clientRegistry" where
  "checkRateLimit now ip r = (let buckets = filter (\<lambda>(_, b). \<not> now > ibResetAt b) (rgyBuckets r) in
     case gget buckets ip of
       None \<Rightarrow> (True, r\<lparr>rgyBuckets := gset buckets ip \<lparr>ibTokens = rgyRateLimit r - 1, ibResetAt = now + Hour\<rparr>\<rparr>)
     | Some bucket \<Rightarrow> if ibTokens bucket \<le> 0 then (False, r\<lparr>rgyBuckets := buckets\<rparr>)
         else (True, r\<lparr>rgyBuckets := gset buckets ip (bucket\<lparr>ibTokens := ibTokens bucket - 1\<rparr>)\<rparr>))"

section \<open>Registering\<close>

record parsedURL =
  puScheme :: string
  puHostname :: string

type_synonym url_parse = "string \<Rightarrow> parsedURL option"

definition isLoopbackURI :: "url_parse \<Rightarrow> (string \<Rightarrow> bool) \<Rightarrow> string \<Rightarrow> bool" where
  "isLoopbackURI P LB rawURI = (case P rawURI of
     None \<Rightarrow> False
   | Some u \<Rightarrow> if puScheme u \<noteq> ''http'' then False
       else if puHostname u = ''localhost'' then True
       else LB (puHostname u))"

definition isValidRedirectURI :: "url_parse \<Rightarrow> (string \<Rightarrow> bool) \<Rightarrow> string \<Rightarrow> bool" where
  "isValidRedirectURI P LB rawURI = (case P rawURI of
     None \<Rightarrow> False
   | Some u \<Rightarrow> if Contains rawURI ''#'' then False
       else if puScheme u = ''https'' then True
       else isLoopbackURI P LB rawURI)"

definition dcrMaxClientNameLen :: nat where "dcrMaxClientNameLen = 256"
definition dcrMaxRedirectURIs :: nat where "dcrMaxRedirectURIs = 10"
definition dcrMaxRedirectURILen :: nat where "dcrMaxRedirectURILen = 2048"

datatype dcrCode = InvalidClientMetadata | InvalidRedirectURI | TooManyRequests

datatype dcrResponse = DcrNotEnabled | DcrError nat dcrCode | DcrCreated clientRegistration

text \<open>The loop over \<open>redirect_uris\<close>: the first offending URI decides the error.\<close>

fun checkURIs :: "url_parse \<Rightarrow> (string \<Rightarrow> bool) \<Rightarrow> string list \<Rightarrow> dcrResponse option" where
  "checkURIs P LB [] = None"
| "checkURIs P LB (uri # uris) =
     (if length uri > dcrMaxRedirectURILen then Some (DcrError 400 InvalidRedirectURI)
      else if \<not> isValidRedirectURI P LB uri then Some (DcrError 400 InvalidClientMetadata)
      else checkURIs P LB uris)"

text \<open>The loops over \<open>grant_types\<close> and \<open>response_types\<close>: every value known, none repeated.\<close>

fun knownOnce :: "string list \<Rightarrow> string list \<Rightarrow> string list \<Rightarrow> bool" where
  "knownOnce known seen [] = True"
| "knownOnce known seen (x # xs) = (if x \<notin> set known \<or> x \<in> set seen then False else knownOnce known (seen @ [x]) xs)"

definition validateRegistration :: "url_parse \<Rightarrow> (string \<Rightarrow> bool) \<Rightarrow> int \<Rightarrow> string \<Rightarrow> dcrRequest \<Rightarrow> dcrResponse" where
  "validateRegistration P LB now token req =
     (if length (dqClientName req) > dcrMaxClientNameLen then DcrError 400 InvalidClientMetadata
      else if dqRedirectURIs req = [] then DcrError 400 InvalidClientMetadata
      else if length (dqRedirectURIs req) > dcrMaxRedirectURIs then DcrError 400 InvalidClientMetadata
      else case checkURIs P LB (dqRedirectURIs req) of Some e \<Rightarrow> e | None \<Rightarrow>
        (let authMethod = (if dqTokenEndpointAuthMethod req = [] then ''none'' else dqTokenEndpointAuthMethod req);
             applicationType = (if dqApplicationType req = [] then ''native'' else dqApplicationType req);
             grantTypes = (if dqGrantTypes req = [] then [''authorization_code'', ''refresh_token''] else dqGrantTypes req);
             responseTypes = (if dqResponseTypes req = [] then [''code''] else dqResponseTypes req)
         in if authMethod \<noteq> ''none'' then DcrError 400 InvalidClientMetadata
            else if applicationType \<noteq> ''native'' \<and> applicationType \<noteq> ''web'' then DcrError 400 InvalidClientMetadata
            else if applicationType = ''web'' \<and> list_ex (isLoopbackURI P LB) (dqRedirectURIs req) then DcrError 400 InvalidRedirectURI
            else if \<not> knownOnce [''authorization_code'', ''refresh_token''] [] grantTypes then DcrError 400 InvalidClientMetadata
            else if \<not> knownOnce [''code''] [] responseTypes then DcrError 400 InvalidClientMetadata
            else DcrCreated \<lparr>rgClientID = ''cetacean-'' @ token, rgClientName = dqClientName req, rgRedirectURIs = dqRedirectURIs req,
              rgGrantTypes = grantTypes, rgResponseTypes = responseTypes, rgTokenEndpointAuthMethod = authMethod,
              rgClientIDIssuedAt = now div second, rgApplicationType = applicationType\<rparr>))"

text \<open>\<open>HandleRegister\<close>; \<open>body\<close> is None when the body is too large or is no JSON object of the request's shape.\<close>

definition HandleRegister :: "url_parse \<Rightarrow> (string \<Rightarrow> bool) \<Rightarrow> int \<Rightarrow> string \<Rightarrow> string \<Rightarrow> dcrRequest option \<Rightarrow>
    clientRegistry option \<Rightarrow> dcrResponse \<times> clientRegistry option" where
  "HandleRegister P LB now token ip body clients = (case clients of
     None \<Rightarrow> (DcrNotEnabled, None)
   | Some r \<Rightarrow> (case checkRateLimit now ip r of (allowed, r') \<Rightarrow>
       if \<not> allowed then (DcrError 429 TooManyRequests, Some r')
       else (case body of
           None \<Rightarrow> (DcrError 400 InvalidClientMetadata, Some r')
         | Some req \<Rightarrow> (case validateRegistration P LB now token req of
               DcrCreated reg \<Rightarrow> (DcrCreated reg, Some (register reg r'))
             | resp \<Rightarrow> (resp, Some r')))))"

section \<open>The registry is a bounded queue\<close>

text \<open>The order lists each client once, and no more clients than the cap.\<close>

definition registry_ok :: "clientRegistry \<Rightarrow> bool" where
  "registry_ok r \<longleftrightarrow> gwf (rgyClients r) \<and> distinct (rgyOrder r) \<and> set (rgyOrder r) = set (gkeys (rgyClients r)) \<and>
     (\<forall>k reg. gget (rgyClients r) k = Some reg \<longrightarrow> rgClientID reg = k) \<and>
     (rgyMax r > 0 \<longrightarrow> int (length (rgyOrder r)) \<le> rgyMax r)"

lemma order_length: "registry_ok r \<Longrightarrow> length (rgyOrder r) = length (rgyClients r)"
  unfolding registry_ok_def by (metis distinct_card length_map)

lemma map_filter_total:
  "\<forall>x \<in> set xs. f x \<noteq> None \<Longrightarrow> List.map_filter f xs = map (the \<circ> f) xs"
  by (induction xs) (auto simp: List.map_filter_def)

lemma map_filter_cong: "(\<And>x. x \<in> set xs \<Longrightarrow> f x = g x) \<Longrightarrow> List.map_filter f xs = List.map_filter g xs"
  by (induction xs) (auto simp: List.map_filter_def)

lemma map_filter_append: "List.map_filter f (xs @ ys) = List.map_filter f xs @ List.map_filter f ys"
  by (simp add: List.map_filter_def)

lemma order_present:
  assumes "registry_ok r" "k \<in> set (rgyOrder r)"
  obtains reg where "gget (rgyClients r) k = Some reg" "rgClientID reg = k"
  using assms gget_None_iff [of "rgyClients r" k] unfolding registry_ok_def by (metis not_None_eq)

lemma Snapshot_ids:
  assumes "registry_ok r"
  shows "map rgClientID (SnapshotClients r) = rgyOrder r"
proof -
  have "\<forall>k \<in> set (rgyOrder r). gget (rgyClients r) k \<noteq> None" using order_present [OF assms] by blast
  then have "map rgClientID (SnapshotClients r) = map (rgClientID \<circ> the \<circ> gget (rgyClients r)) (rgyOrder r)"
    by (simp add: SnapshotClients_def map_filter_total)
  also have "\<dots> = rgyOrder r" by (rule map_idI) (metis assms comp_apply option.sel order_present)
  finally show ?thesis .
qed

lemma evictOldest_effect:
  assumes "registry_ok r"
  shows "evictOldest r = (if rgyMax r > 0 \<and> int (length (rgyOrder r)) = rgyMax r
     then r\<lparr>rgyOrder := tl (rgyOrder r), rgyClients := gdel (rgyClients r) (hd (rgyOrder r))\<rparr> else r)"
proof -
  have "int (length (rgyClients r)) \<ge> rgyMax r \<and> rgyMax r > 0 \<longleftrightarrow> rgyMax r > 0 \<and> int (length (rgyOrder r)) = rgyMax r"
    using assms order_length [OF assms] by (auto simp: registry_ok_def)
  then show ?thesis by (cases "rgyOrder r") (auto simp: evictOldest_def)
qed

lemma evictOldest_ok:
  assumes "registry_ok r"
  shows "registry_ok (evictOldest r)"
    and "rgyMax r > 0 \<Longrightarrow> int (length (rgyOrder (evictOldest r))) < rgyMax r"
proof -
  have "set (tl (rgyOrder r)) = set (rgyOrder r) - {hd (rgyOrder r)}" if "rgyOrder r \<noteq> []"
    using assms that by (cases "rgyOrder r") (auto simp: registry_ok_def)
  then show "registry_ok (evictOldest r)" using assms
    unfolding evictOldest_effect [OF assms]
    by (cases "rgyOrder r = []") (auto simp: registry_ok_def distinct_tl simp del: set_map split: if_splits)
  show "rgyMax r > 0 \<Longrightarrow> int (length (rgyOrder (evictOldest r))) < rgyMax r"
    using assms unfolding evictOldest_effect [OF assms] by (auto simp: registry_ok_def)
qed

lemma register_ok:
  assumes "registry_ok r" "gget (rgyClients r) (rgClientID reg) = None"
  shows "registry_ok (register reg r)"
proof -
  note E = evictOldest_ok [OF assms(1)]
  have "gget (rgyClients (evictOldest r)) (rgClientID reg) = None"
    using assms(2) unfolding evictOldest_effect [OF assms(1)] by simp
  moreover have "rgyMax (evictOldest r) = rgyMax r" unfolding evictOldest_effect [OF assms(1)] by simp
  ultimately show ?thesis using E unfolding registry_ok_def register_def Let_def
    by (auto simp: gget_None_iff simp del: set_map)
qed

lemma Snapshot_evict:
  assumes "registry_ok r"
  shows "SnapshotClients (evictOldest r) =
     (if rgyMax r > 0 \<and> int (length (SnapshotClients r)) = rgyMax r then tl (SnapshotClients r) else SnapshotClients r)"
proof -
  have len: "length (SnapshotClients r) = length (rgyOrder r)" using Snapshot_ids [OF assms] by (metis length_map)
  have "List.map_filter (gget (gdel (rgyClients r) (hd (rgyOrder r)))) (tl (rgyOrder r)) = tl (SnapshotClients r)"
    if ne: "rgyOrder r \<noteq> []"
  proof -
    obtain k ks where k: "rgyOrder r = k # ks" using ne by (cases "rgyOrder r") auto
    then have "k \<notin> set ks" using assms by (auto simp: registry_ok_def)
    moreover obtain reg where "gget (rgyClients r) k = Some reg" using order_present [OF assms, of k] k by auto
    moreover have "List.map_filter (gget (gdel (rgyClients r) k)) ks = List.map_filter (gget (rgyClients r)) ks"
      by (rule map_filter_cong) (use calculation(1) in auto)
    ultimately show ?thesis by (simp add: SnapshotClients_def k map_filter_simps)
  qed
  then have "SnapshotClients (r\<lparr>rgyOrder := tl (rgyOrder r), rgyClients := gdel (rgyClients r) (hd (rgyOrder r))\<rparr>) = tl (SnapshotClients r)"
    if "rgyOrder r \<noteq> []" using that by (simp add: SnapshotClients_def)
  then show ?thesis unfolding evictOldest_effect [OF assms] len by (cases "rgyOrder r = []") auto
qed

lemma Snapshot_register:
  assumes "registry_ok r" "gget (rgyClients r) (rgClientID reg) = None"
  shows "SnapshotClients (register reg r) = SnapshotClients (evictOldest r) @ [reg]"
proof -
  have "rgClientID reg \<notin> set (rgyOrder (evictOldest r))"
    using assms gget_None_iff [of "rgyClients r" "rgClientID reg"] unfolding evictOldest_effect [OF assms(1)]
    by (cases "rgyOrder r") (auto simp: registry_ok_def simp del: set_map)
  then show ?thesis unfolding register_def Let_def SnapshotClients_def
    by (auto simp: map_filter_append map_filter_simps intro!: map_filter_cong)
qed


lemma Restore_fold:
  assumes "registry_ok (r\<lparr>rgyMax := 0\<rparr>)"
  shows "registry_ok (fold restoreClient regs r\<lparr>rgyMax := 0\<rparr>) \<and>
    length (rgyOrder (fold restoreClient regs r)) \<le> length (rgyOrder r) + length regs \<and> rgyMax (fold restoreClient regs r) = rgyMax r"
  using assms
proof (induction regs arbitrary: r)
  case (Cons reg regs)
  have "registry_ok (restoreClient reg r\<lparr>rgyMax := 0\<rparr>)"
    using Cons.prems by (auto simp: restoreClient_def registry_ok_def gget_None_iff simp del: set_map)
  from Cons.IH [OF this] show ?case by (auto simp: restoreClient_def)
qed simp

lemma RestoreClients_ok: "registry_ok (RestoreClients regs r)"
proof -
  let ?kept = "if rgyMax r > 0 \<and> int (length regs) > rgyMax r then drop (length regs - nat (rgyMax r)) regs else regs"
  have "registry_ok (r\<lparr>rgyClients := [], rgyOrder := []\<rparr>\<lparr>rgyMax := 0\<rparr>)" by (simp add: registry_ok_def)
  from Restore_fold [OF this, of ?kept]
  have R: "registry_ok (RestoreClients regs r\<lparr>rgyMax := 0\<rparr>)" "length (rgyOrder (RestoreClients regs r)) \<le> length ?kept"
    "rgyMax (RestoreClients regs r) = rgyMax r"
    by (simp_all add: RestoreClients_def Let_def)
  have "rgyMax r > 0 \<Longrightarrow> int (length ?kept) \<le> rgyMax r" by auto
  then show ?thesis using R by (auto simp: registry_ok_def)
qed

lemma Restore_fold_fresh:
  assumes "distinct (map rgClientID regs)" "\<forall>reg \<in> set regs. gget (rgyClients r) (rgClientID reg) = None"
    "registry_ok (r\<lparr>rgyMax := 0\<rparr>)"
  shows "SnapshotClients (fold restoreClient regs r) = SnapshotClients r @ regs"
  using assms
proof (induction regs arbitrary: r)
  case (Cons reg regs)
  have fresh: "rgClientID reg \<notin> set (rgyOrder r)"
    using Cons.prems(2,3) gget_None_iff [of "rgyClients r" "rgClientID reg"] by (auto simp: registry_ok_def simp del: set_map)
  have "registry_ok (restoreClient reg r\<lparr>rgyMax := 0\<rparr>)"
    using Cons.prems(3) by (auto simp: restoreClient_def registry_ok_def gget_None_iff simp del: set_map)
  moreover have "\<forall>x \<in> set regs. gget (rgyClients (restoreClient reg r)) (rgClientID x) = None"
  proof
    fix x assume x: "x \<in> set regs"
    then have "rgClientID x \<noteq> rgClientID reg" using Cons.prems(1) imageI [OF x, of rgClientID]
      by (metis distinct.simps(2) list.set_map list.simps(9))
    then show "gget (rgyClients (restoreClient reg r)) (rgClientID x) = None" using Cons.prems(2) x by (simp add: restoreClient_def)
  qed
  moreover have "SnapshotClients (restoreClient reg r) = SnapshotClients r @ [reg]"
    using fresh Cons.prems(2) unfolding restoreClient_def SnapshotClients_def
    by (auto simp: map_filter_append map_filter_simps intro!: map_filter_cong)
  ultimately show ?case using Cons.IH [of "restoreClient reg r"] Cons.prems(1) by simp
qed simp

text \<open>Every registry the server reaches: registrations under fresh client IDs, rate-limit checks, restarts under any cap.\<close>

inductive registry_run :: "clientRegistry \<Rightarrow> bool" where
  start: "registry_run (newClientRegistry m l)"
| register: "registry_run r \<Longrightarrow> gget (rgyClients r) (rgClientID reg) = None \<Longrightarrow> registry_run (register reg r)"
| limit: "registry_run r \<Longrightarrow> registry_run (snd (checkRateLimit now ip r))"
| restart: "registry_run r \<Longrightarrow> registry_run (RestoreClients (SnapshotClients r) (newClientRegistry m l))"

lemma rate_keeps_clients:
  "rgyClients (snd (checkRateLimit now ip r)) = rgyClients r" "rgyOrder (snd (checkRateLimit now ip r)) = rgyOrder r"
  "rgyMax (snd (checkRateLimit now ip r)) = rgyMax r" "rgyRateLimit (snd (checkRateLimit now ip r)) = rgyRateLimit r"
  by (simp_all add: checkRateLimit_def Let_def split: option.split)

lemma registry_run_ok: "registry_run r \<Longrightarrow> registry_ok r"
proof (induction rule: registry_run.induct)
  case (limit r now ip)
  then show ?case by (simp add: registry_ok_def rate_keeps_clients)
qed (auto simp: newClientRegistry_def registry_ok_def [of "newClientRegistry _ _"] register_ok RestoreClients_ok registry_ok_def [of "\<lparr>rgyClients = _, rgyOrder = _, rgyMax = _, rgyBuckets = _, rgyRateLimit = _, rgyWrites = _\<rparr>"])

section \<open>What the registry promises\<close>

text \<open>C34.
  The registry is a bounded queue: registering a client appends it to what a snapshot shows, dropping the oldest
  registration when that would pass the cap, so a snapshot holds the newest registrations and never more than the cap;
  and a restart with the same cap restores the same list.
\<close>

theorem registry_is_bounded_queue:
  assumes "registry_run r" "gget (rgyClients r) (rgClientID reg) = None" "rgyMax r > 0"
  shows "SnapshotClients (register reg r) = lastn (nat (rgyMax r)) (SnapshotClients r @ [reg]) \<and>
     int (length (SnapshotClients (register reg r))) \<le> rgyMax r \<and>
     SnapshotClients (RestoreClients (SnapshotClients r) (newClientRegistry (rgyMax r) l)) = SnapshotClients r"
proof -
  have ok: "registry_ok r" by (rule registry_run_ok [OF assms(1)])
  have len: "length (SnapshotClients r) = length (rgyOrder r)" using Snapshot_ids [OF ok] by (metis length_map)
  then have le: "int (length (SnapshotClients r)) \<le> rgyMax r" using ok assms(3) by (simp add: registry_ok_def)
  have reg: "SnapshotClients (register reg r) = lastn (nat (rgyMax r)) (SnapshotClients r @ [reg])"
    using le assms(3) unfolding Snapshot_register [OF ok assms(2)] Snapshot_evict [OF ok] lastn_def
    by (cases "SnapshotClients r") (auto simp: nat_eq_iff Suc_diff_le dest: sym)
  have "distinct (map rgClientID (SnapshotClients r))" using Snapshot_ids [OF ok] ok by (simp add: registry_ok_def)
  then have "SnapshotClients (fold restoreClient (SnapshotClients r) (newClientRegistry (rgyMax r) l)) = SnapshotClients r"
    by (subst Restore_fold_fresh) (simp_all add: newClientRegistry_def registry_ok_def SnapshotClients_def map_filter_simps)
  moreover have "RestoreClients (SnapshotClients r) (newClientRegistry (rgyMax r) l) =
      fold restoreClient (SnapshotClients r) (newClientRegistry (rgyMax r) l)"
    using le by (simp add: RestoreClients_def newClientRegistry_def)
  ultimately show ?thesis using reg le assms(3) by (simp add: length_lastn)
qed


lemma buckets_wf: "registry_run r \<Longrightarrow> gwf (rgyBuckets r)"
proof (induction rule: registry_run.induct)
  case (register r reg)
  then show ?case by (simp add: register_def Let_def evictOldest_def split: list.split)
next
  case (limit r now ip)
  then show ?case by (auto simp: checkRateLimit_def Let_def split: option.split)
next
  case (restart r m l)
  have "rgyBuckets (fold restoreClient regs s) = rgyBuckets s" for regs s
    by (induction regs arbitrary: s) (simp_all add: restoreClient_def)
  then show ?case by (simp add: RestoreClients_def newClientRegistry_def)
qed (simp add: newClientRegistry_def)

text \<open>How many of the calls of one address are let through.\<close>

fun allowedCalls :: "string \<Rightarrow> (int \<times> string) list \<Rightarrow> clientRegistry \<Rightarrow> int" where
  "allowedCalls ip [] r = 0"
| "allowedCalls ip ((now, peer) # calls) r = (case checkRateLimit now peer r of (ok, r') \<Rightarrow>
     (if ok \<and> peer = ip then 1 else 0) + allowedCalls ip calls r')"

lemma rate_bucket:
  assumes "gwf (rgyBuckets r)"
  shows "gwf (rgyBuckets (snd (checkRateLimit now peer r)))"
    and "peer \<noteq> ip \<Longrightarrow> gget (rgyBuckets (snd (checkRateLimit now peer r))) ip =
      (case gget (rgyBuckets r) ip of None \<Rightarrow> None | Some b \<Rightarrow> if now \<le> ibResetAt b then Some b else None)"
    and "gget (rgyBuckets r) ip = Some b \<Longrightarrow> now \<le> ibResetAt b \<Longrightarrow> fst (checkRateLimit now ip r) = (ibTokens b > 0) \<and>
      gget (rgyBuckets (snd (checkRateLimit now ip r))) ip = Some (if ibTokens b \<le> 0 then b else b\<lparr>ibTokens := ibTokens b - 1\<rparr>)"
    and "gget (rgyBuckets r) ip = None \<Longrightarrow> fst (checkRateLimit now ip r) \<and>
      gget (rgyBuckets (snd (checkRateLimit now ip r))) ip = Some \<lparr>ibTokens = rgyRateLimit r - 1, ibResetAt = now + Hour\<rparr>"
  using gget_filter [OF assms, of "\<lambda>_ b. \<not> now > ibResetAt b"] assms
  by (auto simp: checkRateLimit_def Let_def split: option.splits)

lemma allowed_from_bucket:
  "gwf (rgyBuckets r) \<Longrightarrow> gget (rgyBuckets r) ip = Some b \<Longrightarrow> \<forall>(now, _) \<in> set calls. now \<le> ibResetAt b \<Longrightarrow>
   allowedCalls ip calls r \<le> max 0 (ibTokens b)"
proof (induction calls arbitrary: r b)
  case (Cons call calls)
  obtain now peer where call: "call = (now, peer)" by (cases call)
  note R = rate_bucket [OF Cons.prems(1), where now = now]
  show ?case
  proof (cases "peer = ip")
    case True
    then show ?thesis using R(3) [OF Cons.prems(2)] Cons.prems(3) R(1) [of ip]
        Cons.IH [of "snd (checkRateLimit now ip r)" "if ibTokens b \<le> 0 then b else b\<lparr>ibTokens := ibTokens b - 1\<rparr>"]
      by (auto simp: call case_prod_unfold split: if_splits)
  next
    case False
    then show ?thesis using R(2) [of peer ip] R(1) [of peer] Cons.prems(2,3) Cons.IH [of "snd (checkRateLimit now peer r)" b]
      by (auto simp: call case_prod_unfold)
  qed
qed simp

text \<open>The registration limit holds: from an address with no bucket yet, at most \<open>rateLimit\<close> registration requests get
  through within an hour, whatever other addresses send in between. (The configuration admits no limit below one.)
\<close>

theorem registrations_per_hour_bounded:
  assumes "registry_run r" "gget (rgyBuckets r) ip = None" "rgyRateLimit r \<ge> 1"
    and "\<forall>(now, _) \<in> set calls. t0 \<le> now \<and> now \<le> t0 + Hour"
  shows "allowedCalls ip calls r \<le> rgyRateLimit r"
proof -
  have "gwf (rgyBuckets r)" by (rule buckets_wf [OF assms(1)])
  then show ?thesis using assms(2-4)
  proof (induction calls arbitrary: r)
    case (Cons call calls)
    obtain now peer where call: "call = (now, peer)" by (cases call)
    note R = rate_bucket [OF Cons.prems(1), where now = now]
    show ?case
    proof (cases "peer = ip")
      case True
      have "allowedCalls ip calls (snd (checkRateLimit now ip r)) \<le> max 0 (rgyRateLimit r - 1)"
        using allowed_from_bucket [OF R(1) conjunct2 [OF R(4) [OF Cons.prems(2)]], of calls] Cons.prems(4)
        by (fastforce simp: call)
      then show ?thesis using True R(4) [OF Cons.prems(2)] Cons.prems(3) by (simp add: call case_prod_unfold)
    next
      case False
      then show ?thesis using R(1,2) [of peer] Cons.prems Cons.IH [of "snd (checkRateLimit now peer r)"]
        by (simp add: call case_prod_unfold rate_keeps_clients)
    qed
  qed simp
qed

section \<open>What a registration may hold\<close>

definition valid_registration :: "url_parse \<Rightarrow> (string \<Rightarrow> bool) \<Rightarrow> clientRegistration \<Rightarrow> bool" where
  "valid_registration P LB reg \<longleftrightarrow> length (rgClientName reg) \<le> 256 \<and>
     rgRedirectURIs reg \<noteq> [] \<and> length (rgRedirectURIs reg) \<le> 10 \<and>
     (\<forall>uri \<in> set (rgRedirectURIs reg). length uri \<le> 2048 \<and> CHR ''#'' \<notin> set uri \<and>
        (\<exists>u. P uri = Some u \<and> (puScheme u = ''https'' \<or>
           (rgApplicationType reg = ''native'' \<and> puScheme u = ''http'' \<and> (puHostname u = ''localhost'' \<or> LB (puHostname u)))))) \<and>
     rgTokenEndpointAuthMethod reg = ''none'' \<and> rgApplicationType reg \<in> {''native'', ''web''} \<and>
     distinct (rgGrantTypes reg) \<and> set (rgGrantTypes reg) \<subseteq> {''authorization_code'', ''refresh_token''} \<and>
     rgResponseTypes reg = [''code'']"

lemma checkURIs_None: "checkURIs P LB uris = None \<longleftrightarrow> (\<forall>uri \<in> set uris. length uri \<le> 2048 \<and> isValidRedirectURI P LB uri)"
  by (induction uris) (auto simp: dcrMaxRedirectURILen_def)

lemma knownOnce_iff: "knownOnce known seen xs \<longleftrightarrow> distinct xs \<and> set xs \<subseteq> set known \<and> set xs \<inter> set seen = {}"
  by (induction known seen xs rule: knownOnce.induct) auto

lemma singleton_list: "xs \<noteq> [] \<Longrightarrow> distinct xs \<Longrightarrow> set xs \<subseteq> {x} \<Longrightarrow> xs = [x]"
  by (cases xs; cases "tl xs") auto

lemma Contains_char: "Contains s [c] \<longleftrightarrow> c \<in> set s"
  by (induction s) auto


lemma checkURIs_error: "checkURIs P LB uris \<noteq> Some (DcrCreated reg)"
  by (induction uris) auto

lemma validated:
  assumes "validateRegistration P LB now token req = DcrCreated reg"
  shows "valid_registration P LB reg \<and> rgClientID reg = ''cetacean-'' @ token"
proof -
  let ?app = "if dqApplicationType req = [] then ''native'' else dqApplicationType req"
  let ?grants = "if dqGrantTypes req = [] then [''authorization_code'', ''refresh_token''] else dqGrantTypes req"
  let ?resps = "if dqResponseTypes req = [] then [''code''] else dqResponseTypes req"
  have uris: "checkURIs P LB (dqRedirectURIs req) = None"
    using assms checkURIs_error [of P LB "dqRedirectURIs req" reg]
    by (cases "checkURIs P LB (dqRedirectURIs req)") (auto simp: validateRegistration_def split: if_splits)
  then have reg: "reg = \<lparr>rgClientID = ''cetacean-'' @ token, rgClientName = dqClientName req, rgRedirectURIs = dqRedirectURIs req,
      rgGrantTypes = ?grants, rgResponseTypes = ?resps, rgTokenEndpointAuthMethod = ''none'', rgClientIDIssuedAt = now div second, rgApplicationType = ?app\<rparr>"
    and ok: "length (dqClientName req) \<le> 256" "dqRedirectURIs req \<noteq> []" "length (dqRedirectURIs req) \<le> 10" "?app \<in> {''native'', ''web''}"
      "?app = ''web'' \<Longrightarrow> \<not> list_ex (isLoopbackURI P LB) (dqRedirectURIs req)"
      "knownOnce [''authorization_code'', ''refresh_token''] [] ?grants" "knownOnce [''code''] [] ?resps"
    using assms unfolding validateRegistration_def Let_def dcrMaxClientNameLen_def dcrMaxRedirectURIs_def
    by (auto split: if_splits)
  have "?resps = [''code'']" using ok(7) by (intro singleton_list) (auto simp: knownOnce_iff)
  moreover have "CHR ''#'' \<notin> set uri \<and> (\<exists>u. P uri = Some u \<and> (puScheme u = ''https'' \<or>
      (?app = ''native'' \<and> puScheme u = ''http'' \<and> (puHostname u = ''localhost'' \<or> LB (puHostname u)))))"
    if "uri \<in> set (dqRedirectURIs req)" for uri
    using uris that ok(4,5) unfolding checkURIs_None isValidRedirectURI_def isLoopbackURI_def list_ex_iff
    by (fastforce simp: Contains_char split: option.splits if_splits)
  ultimately show ?thesis using ok(1-3,4,6) uris unfolding reg valid_registration_def checkURIs_None knownOnce_iff by auto
qed

text \<open>C37.
  Only valid clients are registered. The registration endpoint answers 201 only with a client whose metadata is within
  the bounds, whose redirect URIs carry no fragment and are https (or loopback http for a native client), that does not authenticate,
  and whose grant and response types are supported ones; that client and nothing else enters the registry, and every other answer leaves
  the registered clients as they were.
\<close>

theorem only_valid_clients_registered:
  assumes "HandleRegister P LB now token ip body (Some r) = (resp, Some r')"
  shows "(case resp of
     DcrCreated reg \<Rightarrow> valid_registration P LB reg \<and> SnapshotClients r' = SnapshotClients (register reg r)
   | _ \<Rightarrow> rgyClients r' = rgyClients r \<and> rgyOrder r' = rgyOrder r)"
proof -
  have ev: "rgyClients (evictOldest x) = rgyClients (evictOldest y) \<and> rgyOrder (evictOldest x) = rgyOrder (evictOldest y)"
    if "rgyClients x = rgyClients y" "rgyOrder x = rgyOrder y" "rgyMax x = rgyMax y" for x y
    using that by (auto simp: evictOldest_def split: list.split)
  have "SnapshotClients (register reg (snd (checkRateLimit now ip r))) = SnapshotClients (register reg r)" for reg
    using ev [of "snd (checkRateLimit now ip r)" r] by (simp add: SnapshotClients_def register_def Let_def rate_keeps_clients)
  then show ?thesis using assms
    by (auto simp: HandleRegister_def case_prod_unfold rate_keeps_clients dest: validated split: if_splits option.splits dcrResponse.splits)
qed

section \<open>The properties on concrete registries\<close>

definition ex_reg :: "string \<Rightarrow> clientRegistration" where
  "ex_reg i = \<lparr>rgClientID = i, rgClientName = ''cli'', rgRedirectURIs = [''https://a/cb''], rgGrantTypes = [''authorization_code''],
     rgResponseTypes = [''code''], rgTokenEndpointAuthMethod = ''none'', rgClientIDIssuedAt = 0, rgApplicationType = ''native''\<rparr>"

definition ex_registry :: clientRegistry where
  "ex_registry = register (ex_reg ''b'') (register (ex_reg ''a'') (newClientRegistry 2 1))"

lemma ex_registry_run: "registry_run ex_registry"
  unfolding ex_registry_def
  by (intro registry_run.register registry_run.start) (simp_all add: newClientRegistry_def register_def evictOldest_def ex_reg_def Let_def)

theorem registry_is_bounded_queue_witness:
  "map rgClientID (SnapshotClients (register (ex_reg ''c'') ex_registry)) = [''b'', ''c'']"
proof -
  have "gget (rgyClients ex_registry) (rgClientID (ex_reg ''c'')) = None" "rgyMax ex_registry = 2" by code_simp+
  moreover have "map rgClientID (lastn (nat 2) (SnapshotClients ex_registry @ [ex_reg ''c''])) = [''b'', ''c'']" by code_simp
  ultimately show ?thesis using registry_is_bounded_queue [OF ex_registry_run, of "ex_reg ''c''"] by simp
qed

theorem registrations_per_hour_bounded_witness:
  "allowedCalls ''1.2.3.4'' [(5, ''1.2.3.4''), (6, ''9.9.9.9''), (7, ''1.2.3.4'')] ex_registry \<le> rgyRateLimit ex_registry"
proof (rule registrations_per_hour_bounded [OF ex_registry_run])
  show "gget (rgyBuckets ex_registry) ''1.2.3.4'' = None" "1 \<le> rgyRateLimit ex_registry" by code_simp+
  show "\<forall>(now, _) \<in> set [(5 :: int, ''1.2.3.4''), (6, ''9.9.9.9''), (7, ''1.2.3.4'')]. 5 \<le> now \<and> now \<le> 5 + Hour" by (simp add: Hour_def second_def)
qed

definition ex_request :: dcrRequest where
  "ex_request = \<lparr>dqClientName = ''cli'', dqRedirectURIs = [''https://a/cb''], dqGrantTypes = [], dqResponseTypes = [],
     dqTokenEndpointAuthMethod = [], dqApplicationType = []\<rparr>"

definition ex_parse :: url_parse where
  "ex_parse uri = (if prefix ''https://'' uri then Some \<lparr>puScheme = ''https'', puHostname = drop 8 uri\<rparr> else None)"

theorem only_valid_clients_registered_witness:
  "valid_registration ex_parse (\<lambda>_. False) ((ex_reg ''cetacean-t'')\<lparr>rgGrantTypes := [''authorization_code'', ''refresh_token'']\<rparr>)"
proof -
  have "fst (HandleRegister ex_parse (\<lambda>_. False) 0 ''t'' ''1.2.3.4'' (Some ex_request) (Some ex_registry)) =
      DcrCreated ((ex_reg ''cetacean-t'')\<lparr>rgGrantTypes := [''authorization_code'', ''refresh_token'']\<rparr>)" by code_simp
  moreover have "\<exists>r'. snd (HandleRegister ex_parse (\<lambda>_. False) 0 ''t'' ''1.2.3.4'' (Some ex_request) (Some ex_registry)) = Some r'"
    by (auto simp: HandleRegister_def case_prod_unfold split: option.split dcrResponse.split)
  ultimately show ?thesis
    using only_valid_clients_registered [of ex_parse "\<lambda>_. False" 0 "''t''" "''1.2.3.4''" "Some ex_request" ex_registry
      "DcrCreated ((ex_reg ''cetacean-t'')\<lparr>rgGrantTypes := [''authorization_code'', ''refresh_token'']\<rparr>)"]
    by (auto simp: prod_eq_iff)
qed

end
