(* ===== verification/Oauth_Jwt.thy ===== *)
theory Oauth_Jwt
  imports Oauth_Clients
begin

text \<open>
  Access tokens, \<open>internal/oauth/jwt.go\<close>: minting and verifying the RFC 9068 JWT, its ES256 signature at fixed width, and the
  checks in the order the code makes them. The codecs and primitives of Go's standard library (base64url, JSON, SHA-256, ECDSA) are the
  fields of a record \<open>jwtLib\<close>; what the proofs use of them is \<open>codec_laws\<close>.
\<close>

section \<open>Tokens\<close>

record accessTokenClaims =
  atSubject :: string
  atEmail :: string
  atDisplayName :: string
  atGroups :: "string list"
  atGrants :: string
  atClientID :: string
  atExpiresAt :: int

record jwtHeaderClaims =
  jhAlg :: string
  jhTyp :: string

record jwtPayload =
  jpIssuer :: string
  jpAudience :: "string list"
  jpExpiresAt :: int
  jpIssuedAt :: int
  jpJTI :: string
  jpNotBefore :: int
  jpSubject :: string
  jpEmail :: string
  jpName :: string
  jpGroups :: "string list"
  jpGrants :: string
  jpClientID :: string

datatype jwtError = ErrMalformedToken | ErrInvalidSig | ErrTokenExpired | ErrIssuerMismatch | ErrAudienceMismatch
  | ErrMissingKey | ErrIncompleteClaims | ErrMarshal | ErrSign

text \<open>\<open>'k\<close> is the signing key; \<open>jlSign\<close> may fail and depends on the random source only through its result.\<close>

record 'k jwtLib =
  jlEnc :: "string \<Rightarrow> string"
  jlDec :: "string \<Rightarrow> string option"
  jlMarshal :: "jwtPayload \<Rightarrow> string option"
  jlPayload :: "string \<Rightarrow> jwtPayload option"
  jlHeader :: "string \<Rightarrow> jwtHeaderClaims option"
  jlCompact :: "string \<Rightarrow> string"
  jlSha :: "string \<Rightarrow> string"
  jlSign :: "'k \<Rightarrow> string \<Rightarrow> (nat \<times> nat) option"
  jlVerify :: "'k \<Rightarrow> string \<Rightarrow> nat \<Rightarrow> nat \<Rightarrow> bool"

record 'k tokenIssuer =
  tiSigner :: "'k option"
  tiHeader :: string
  tiIssuer :: string

definition headerJSON :: "string \<Rightarrow> string" where
  "headerJSON kid = ''{\"alg\":\"ES256\",\"kid\":\"'' @ kid @ ''\",\"typ\":\"at+jwt\"}''"

definition newTokenIssuer :: "'k jwtLib \<Rightarrow> 'k \<Rightarrow> string \<Rightarrow> string \<Rightarrow> 'k tokenIssuer" where
  "newTokenIssuer L key kid issuer = \<lparr>tiSigner = Some key, tiHeader = jlEnc L (headerJSON kid), tiIssuer = issuer\<rparr>"

section \<open>The signature\<close>

text \<open>\<open>big.Int.FillBytes\<close> into \<open>n\<close> bytes, and \<open>SetBytes\<close>; both big-endian.\<close>

definition FillBytes :: "nat \<Rightarrow> nat \<Rightarrow> string" where
  "FillBytes n x = map (\<lambda>i. char_of (x div 256 ^ i mod 256)) (rev [0..<n])"

definition SetBytes :: "string \<Rightarrow> nat" where
  "SetBytes bs = foldl (\<lambda>acc b. acc * 256 + of_char b) 0 bs"

definition es256SigBytes :: nat where "es256SigBytes = 64"

definition signES256 :: "'k jwtLib \<Rightarrow> 'k \<Rightarrow> string \<Rightarrow> string option" where
  "signES256 L key input = (case jlSign L key (jlSha L input) of
     None \<Rightarrow> None
   | Some (r, s) \<Rightarrow> Some (jlEnc L (FillBytes (es256SigBytes div 2) r @ FillBytes (es256SigBytes div 2) s)))"

definition verifyES256 :: "'k jwtLib \<Rightarrow> 'k \<Rightarrow> string \<Rightarrow> string \<Rightarrow> bool" where
  "verifyES256 L key input sig = (case jlDec L sig of
     None \<Rightarrow> False
   | Some raw \<Rightarrow> if length raw \<noteq> es256SigBytes then False
       else jlVerify L key (jlSha L input) (SetBytes (take (es256SigBytes div 2) raw)) (SetBytes (drop (es256SigBytes div 2) raw)))"

section \<open>Minting\<close>

definition IssueAccessToken :: "'k jwtLib \<Rightarrow> int \<Rightarrow> string \<Rightarrow> accessTokenClaims \<Rightarrow> string \<Rightarrow> int \<Rightarrow> 'k tokenIssuer \<Rightarrow> jwtError + string" where
  "IssueAccessToken L now jti claims aud ttl t = (case tiSigner t of
     None \<Rightarrow> Inl ErrMissingKey
   | Some key \<Rightarrow>
      if atSubject claims = [] then Inl ErrIncompleteClaims
      else if atClientID claims = [] then Inl ErrIncompleteClaims
      else if aud = [] then Inl ErrIncompleteClaims
      else (let payload = \<lparr>jpIssuer = tiIssuer t, jpAudience = [aud], jpExpiresAt = (now + ttl) div second, jpIssuedAt = now div second,
            jpJTI = jti, jpNotBefore = 0, jpSubject = atSubject claims, jpEmail = atEmail claims, jpName = atDisplayName claims,
            jpGroups = atGroups claims, jpGrants = atGrants claims, jpClientID = atClientID claims\<rparr>
        in case jlMarshal L payload of
             None \<Rightarrow> Inl ErrMarshal
           | Some payloadJSON \<Rightarrow> (let signingInput = tiHeader t @ ''.'' @ jlEnc L payloadJSON in
               case signES256 L key signingInput of
                 None \<Rightarrow> Inl ErrSign
               | Some sig \<Rightarrow> Inr (signingInput @ ''.'' @ sig))))"

section \<open>Verifying\<close>

text \<open>\<open>strings.Split\<close> at a one-byte separator.\<close>

fun Split :: "char \<Rightarrow> string \<Rightarrow> string list" where
  "Split c [] = [[]]"
| "Split c (x # xs) = (if x = c then [] # Split c xs
     else (case Split c xs of p # ps \<Rightarrow> (x # p) # ps | [] \<Rightarrow> [[x]]))"

text \<open>
  \<open>strings.EqualFold\<close> against the media types of access tokens. They hold neither \<open>k\<close> nor \<open>s\<close>, the only ASCII letters to which a
  non-ASCII character folds, so folding ASCII letters decides it.
\<close>

definition lowerASCII :: "char \<Rightarrow> char" where
  "lowerASCII c = (if 65 \<le> (of_char c :: nat) \<and> (of_char c :: nat) \<le> 90 then char_of ((of_char c :: nat) + 32) else c)"

definition isAccessTokenType :: "string \<Rightarrow> bool" where
  "isAccessTokenType typ \<longleftrightarrow> map lowerASCII typ = ''at+jwt'' \<or> map lowerASCII typ = ''application/at+jwt''"

definition checkPayload :: "int \<Rightarrow> string \<Rightarrow> jwtPayload \<Rightarrow> jwtError + accessTokenClaims" where
  "checkPayload now aud payload =
     (if aud \<notin> set (jpAudience payload) then Inl ErrAudienceMismatch
      else if jpNotBefore payload \<noteq> 0 \<and> now < jpNotBefore payload * second then Inl ErrTokenExpired
      else if jpSubject payload = [] \<or> jpClientID payload = [] then Inl ErrIncompleteClaims
      else if jpExpiresAt payload * second < now then Inl ErrTokenExpired
      else Inr \<lparr>atSubject = jpSubject payload, atEmail = jpEmail payload, atDisplayName = jpName payload, atGroups = jpGroups payload,
        atGrants = jpGrants payload, atClientID = jpClientID payload, atExpiresAt = jpExpiresAt payload * second\<rparr>)"

definition VerifyAccessToken :: "'k jwtLib \<Rightarrow> int \<Rightarrow> string \<Rightarrow> string \<Rightarrow> 'k tokenIssuer \<Rightarrow> jwtError + accessTokenClaims" where
  "VerifyAccessToken L now token aud t = (case tiSigner t of
     None \<Rightarrow> Inl ErrMissingKey
   | Some key \<Rightarrow> (case Split CHR ''.'' token of
       [p0, p1, p2] \<Rightarrow>
         (case Option.bind (jlDec L p0) (jlHeader L) of
            None \<Rightarrow> Inl ErrMalformedToken
          | Some hdr \<Rightarrow>
             if jhAlg hdr \<noteq> ''ES256'' then Inl ErrMalformedToken
             else if \<not> isAccessTokenType (jhTyp hdr) then Inl ErrMalformedToken
             else (case Option.bind (jlDec L p1) (jlPayload L) of
                 None \<Rightarrow> Inl ErrMalformedToken
               | Some payload \<Rightarrow>
                  if jpIssuer payload \<noteq> tiIssuer t then Inl ErrIssuerMismatch
                  else if \<not> verifyES256 L key (p0 @ ''.'' @ p1) p2 then Inl ErrInvalidSig
                  else checkPayload now aud payload))
     | _ \<Rightarrow> Inl ErrMalformedToken))"

section \<open>Fixed-width numbers\<close>

lemma length_FillBytes [simp]: "length (FillBytes n x) = n"
  by (simp add: FillBytes_def)

lemma FillBytes_Suc: "FillBytes (Suc n) x = char_of (x div 256 ^ n mod 256) # FillBytes n x"
  by (simp add: FillBytes_def)

lemma FillBytes_mod: "FillBytes n (x mod 256 ^ n) = FillBytes n x"
proof -
  have "x mod 256 ^ n div 256 ^ i mod 256 = x div 256 ^ i mod 256" if "i < n" for i
  proof -
    have "(256 :: nat) ^ n = 256 ^ i * 256 ^ (n - i)" using that by (simp flip: power_add)
    then have "x mod 256 ^ n div 256 ^ i = x div 256 ^ i mod 256 ^ (n - i)" by (simp add: mod_mult2_eq)
    moreover have "256 dvd (256 :: nat) ^ (n - i)" using that by (simp add: dvd_power)
    ultimately show ?thesis by (simp add: mod_mod_cancel)
  qed
  then show ?thesis by (simp add: FillBytes_def)
qed

lemma SetBytes_acc: "foldl (\<lambda>acc b. acc * 256 + of_char b) a bs = a * 256 ^ length bs + SetBytes bs"
proof (induction bs arbitrary: a)
  case (Cons b bs)
  then show ?case by (simp add: SetBytes_def [of "b # bs"] algebra_simps)
qed (simp add: SetBytes_def)

lemma SetBytes_FillBytes: "x < 256 ^ n \<Longrightarrow> SetBytes (FillBytes n x) = x"
proof (induction n arbitrary: x)
  case (Suc n)
  have "SetBytes (FillBytes (Suc n) x) = (x div 256 ^ n mod 256) * 256 ^ n + SetBytes (FillBytes n x)"
    using SetBytes_acc [of "x div 256 ^ n mod 256" "FillBytes n x"] by (simp add: FillBytes_Suc SetBytes_def)
  also have "SetBytes (FillBytes n x) = x mod 256 ^ n" using Suc.IH [of "x mod 256 ^ n"] by (simp add: FillBytes_mod)
  finally show ?case using byte_digits [OF Suc.prems] by simp
qed (simp add: FillBytes_def SetBytes_def)

section \<open>Splitting\<close>

lemma Split_nonempty: "Split c xs \<noteq> []"
  by (induction xs) (auto split: list.split)

lemma Split_plain: "c \<notin> set p \<Longrightarrow> Split c p = [p]"
  by (induction p) auto

lemma Split_cons: "c \<notin> set p \<Longrightarrow> Split c (p @ c # rest) = p # Split c rest"
  by (induction p) auto

section \<open>What JSON carries\<close>

text \<open>
  \<open>json.Marshal\<close> writes a string coerced to valid UTF-8, with the replacement character for every invalid byte, and reading it back gives
  the coerced string. A \<open>RawMessage\<close> is written compacted, \<open>jlCompact\<close>, and left out when it is empty.
\<close>

function coerceUTF8 :: "string \<Rightarrow> string" where
  "coerceUTF8 [] = []"
| "coerceUTF8 (c # s) = (case decodeRune (c # s) of (r, n) \<Rightarrow>
     (if r = RuneError \<and> n = 1 then map char_of [239, 191, 189 :: nat] else take n (c # s)) @ coerceUTF8 (drop n (c # s)))"
  by pat_completeness auto
termination
proof (relation "measure length")
  show "(drop n (c # s), c # s) \<in> measure length" if "(r, n) = decodeRune (c # s)" for c s r n
  proof -
    have "n = snd (decodeRune (c # s))" using that by (metis snd_conv)
    then have "1 \<le> n" using decodeRune_width [of "c # s"] by simp
    then show ?thesis by simp
  qed
qed simp

declare coerceUTF8.simps(2) [simp del]

definition carriedPayload :: "'k jwtLib \<Rightarrow> jwtPayload \<Rightarrow> jwtPayload" where
  "carriedPayload L p = \<lparr>jpIssuer = coerceUTF8 (jpIssuer p), jpAudience = map coerceUTF8 (jpAudience p), jpExpiresAt = jpExpiresAt p,
     jpIssuedAt = jpIssuedAt p, jpJTI = coerceUTF8 (jpJTI p), jpNotBefore = jpNotBefore p, jpSubject = coerceUTF8 (jpSubject p),
     jpEmail = coerceUTF8 (jpEmail p), jpName = coerceUTF8 (jpName p), jpGroups = map coerceUTF8 (jpGroups p),
     jpGrants = (if jpGrants p = [] then [] else jlCompact L (jpGrants p)), jpClientID = coerceUTF8 (jpClientID p)\<rparr>"

definition carriedClaims :: "'k jwtLib \<Rightarrow> accessTokenClaims \<Rightarrow> accessTokenClaims" where
  "carriedClaims L c = \<lparr>atSubject = coerceUTF8 (atSubject c), atEmail = coerceUTF8 (atEmail c), atDisplayName = coerceUTF8 (atDisplayName c),
     atGroups = map coerceUTF8 (atGroups c), atGrants = (if atGrants c = [] then [] else jlCompact L (atGrants c)),
     atClientID = coerceUTF8 (atClientID c), atExpiresAt = atExpiresAt c\<rparr>"

definition int64 :: "int \<Rightarrow> bool" where
  "int64 n \<longleftrightarrow> - (2 ^ 63) \<le> n \<and> n < 2 ^ 63"

text \<open>The alphabet of base64url, in which the key's identifier is written: no character of it is escaped in JSON.\<close>

definition base64url :: "char \<Rightarrow> bool" where
  "base64url c \<longleftrightarrow> (let n = (of_char c :: nat) in 65 \<le> n \<and> n \<le> 90 \<or> 97 \<le> n \<and> n \<le> 122 \<or> 48 \<le> n \<and> n \<le> 57 \<or> c \<in> set ''-_'')"

lemma coerceUTF8_ascii: "\<forall>c \<in> set s. byte c < 128 \<Longrightarrow> coerceUTF8 s = s"
  by (induction s) (simp_all add: coerceUTF8.simps(2) decodeRune_ascii RuneError_def)

lemma coerceUTF8_Nil [simp]: "coerceUTF8 s = [] \<longleftrightarrow> s = []"
proof (cases s)
  case (Cons c s')
  then have "snd (decodeRune (c # s')) \<noteq> 0" using decodeRune_width [of "c # s'"] by simp
  then show ?thesis using Cons by (simp add: coerceUTF8.simps(2) case_prod_unfold)
qed simp

text \<open>What the code relies on of the standard library.\<close>

definition codec_laws :: "'k jwtLib \<Rightarrow> 'k \<Rightarrow> bool" where
  "codec_laws L key \<longleftrightarrow>
     (\<forall>b. jlDec L (jlEnc L b) = Some b \<and> CHR ''.'' \<notin> set (jlEnc L b)) \<and>
     (\<forall>p j. jlMarshal L p = Some j \<longrightarrow> int64 (jpExpiresAt p) \<and> int64 (jpIssuedAt p) \<and> int64 (jpNotBefore p) \<longrightarrow>
        jlPayload L j = Some (carriedPayload L p)) \<and>
     (\<forall>kid. (\<forall>c \<in> set kid. base64url c) \<longrightarrow> jlHeader L (headerJSON kid) = Some \<lparr>jhAlg = ''ES256'', jhTyp = ''at+jwt''\<rparr>) \<and>
     (\<forall>d r s. jlSign L key d = Some (r, s) \<longrightarrow> r < 2 ^ 256 \<and> s < 2 ^ 256 \<and> jlVerify L key d r s)"

lemma verify_signed:
  assumes "codec_laws L key" "signES256 L key input = Some sig"
  shows "verifyES256 L key input sig" "CHR ''.'' \<notin> set sig"
proof -
  obtain r s where rs: "jlSign L key (jlSha L input) = Some (r, s)" "sig = jlEnc L (FillBytes 32 r @ FillBytes 32 s)"
    using assms(2) by (auto simp: signES256_def es256SigBytes_def split: option.splits)
  then have "r < 256 ^ 32" "s < 256 ^ 32" "jlVerify L key (jlSha L input) r s" using assms(1) by (auto simp: codec_laws_def)
  then show "verifyES256 L key input sig" "CHR ''.'' \<notin> set sig" using assms(1) rs(2)
    by (auto simp: codec_laws_def verifyES256_def es256SigBytes_def SetBytes_FillBytes)
qed

lemma verify_minted:
  assumes "codec_laws L key" "IssueAccessToken L now jti claims aud ttl (newTokenIssuer L key kid issuer) = Inr token"
    and "\<forall>c \<in> set kid. base64url c" "coerceUTF8 issuer = issuer" "coerceUTF8 aud = aud" "int64 (now div second)" "int64 ((now + ttl) div second)"
  shows "VerifyAccessToken L later token res (newTokenIssuer L key kid issuer) =
     (if res \<noteq> aud then Inl ErrAudienceMismatch
      else if (now + ttl) div second * second < later then Inl ErrTokenExpired
      else Inr ((carriedClaims L claims)\<lparr>atExpiresAt := (now + ttl) div second * second\<rparr>))"
proof -
  let ?p = "\<lparr>jpIssuer = issuer, jpAudience = [aud], jpExpiresAt = (now + ttl) div second, jpIssuedAt = now div second,
            jpJTI = jti, jpNotBefore = 0, jpSubject = atSubject claims, jpEmail = atEmail claims, jpName = atDisplayName claims,
            jpGroups = atGroups claims, jpGrants = atGrants claims, jpClientID = atClientID claims\<rparr>"
  let ?h = "jlEnc L (headerJSON kid)"
  have ne: "atSubject claims \<noteq> []" "atClientID claims \<noteq> []"
    and m: "\<exists>j sig. jlMarshal L ?p = Some j \<and> signES256 L key (?h @ ''.'' @ jlEnc L j) = Some sig \<and> token = ?h @ ''.'' @ jlEnc L j @ ''.'' @ sig"
    using assms(2) by (auto simp: IssueAccessToken_def newTokenIssuer_def Let_def split: if_splits option.splits)
  from m obtain j sig where j: "jlMarshal L ?p = Some j" "signES256 L key (?h @ ''.'' @ jlEnc L j) = Some sig"
    "token = ?h @ ''.'' @ jlEnc L j @ ''.'' @ sig" by blast
  note V = verify_signed [OF assms(1) j(2)]
  have C: "CHR ''.'' \<notin> set (jlEnc L b)" "jlDec L (jlEnc L b) = Some b" for b using assms(1) by (simp_all add: codec_laws_def)
  have "Split CHR ''.'' token = [?h, jlEnc L j, sig]" by (simp add: j(3) Split_cons Split_plain C V)
  moreover have "int64 (jpExpiresAt ?p)" "int64 (jpIssuedAt ?p)" "int64 (jpNotBefore ?p)" using assms(6,7) by (simp_all add: int64_def)
  then have "jlPayload L j = Some (carriedPayload L ?p)" using assms(1) j(1) unfolding codec_laws_def by blast
  moreover have "jlHeader L (headerJSON kid) = Some \<lparr>jhAlg = ''ES256'', jhTyp = ''at+jwt''\<rparr>"
    using assms(1,3) unfolding codec_laws_def by blast
  moreover have "isAccessTokenType ''at+jwt''" by code_simp
  ultimately have "VerifyAccessToken L later token res (newTokenIssuer L key kid issuer) = checkPayload later res (carriedPayload L ?p)"
    using V(1) assms(4) by (simp add: VerifyAccessToken_def newTokenIssuer_def C carriedPayload_def)
  also have "\<dots> = (if res \<noteq> aud then Inl ErrAudienceMismatch else if (now + ttl) div second * second < later then Inl ErrTokenExpired
      else Inr ((carriedClaims L claims)\<lparr>atExpiresAt := (now + ttl) div second * second\<rparr>))"
    using ne assms(5) by (simp add: checkPayload_def carriedPayload_def carriedClaims_def)
  finally show ?thesis .
qed

section \<open>What access tokens promise\<close>


text \<open>C18.
  Nothing else is accepted: a token that verifies has exactly three segments, an ES256 access-token header, the issuer of
  this server, a valid signature over its first two segments under the server's key, names the resource in its audience, carries a subject and a
  client, is not before its time and has not expired; the claims returned are those of the signed payload.
\<close>

theorem verified_token_is_signed:
  assumes "VerifyAccessToken L now token aud t = Inr claims"
  shows "\<exists>key p0 p1 p2 payload hdr. tiSigner t = Some key \<and> Split CHR ''.'' token = [p0, p1, p2] \<and>
     Option.bind (jlDec L p0) (jlHeader L) = Some hdr \<and> jhAlg hdr = ''ES256'' \<and> isAccessTokenType (jhTyp hdr) \<and>
     Option.bind (jlDec L p1) (jlPayload L) = Some payload \<and> verifyES256 L key (p0 @ ''.'' @ p1) p2 \<and>
     jpIssuer payload = tiIssuer t \<and> aud \<in> set (jpAudience payload) \<and> now \<le> jpExpiresAt payload * second \<and>
     (jpNotBefore payload = 0 \<or> jpNotBefore payload * second \<le> now) \<and>
     atSubject claims = jpSubject payload \<and> atSubject claims \<noteq> [] \<and> atClientID claims = jpClientID payload \<and> atClientID claims \<noteq> [] \<and>
     atEmail claims = jpEmail payload \<and> atDisplayName claims = jpName payload \<and> atGroups claims = jpGroups payload \<and>
     atGrants claims = jpGrants payload \<and> atExpiresAt claims = jpExpiresAt payload * second"
proof -
  from assms obtain key where key: "tiSigner t = Some key" by (auto simp: VerifyAccessToken_def split: option.splits)
  have "\<exists>p0 p1 p2. Split CHR ''.'' token = [p0, p1, p2]"
    using assms key by (auto simp: VerifyAccessToken_def split: list.splits)
  then obtain p0 p1 p2 where p: "Split CHR ''.'' token = [p0, p1, p2]" by blast
  obtain hdr where h: "Option.bind (jlDec L p0) (jlHeader L) = Some hdr" "jhAlg hdr = ''ES256''" "isAccessTokenType (jhTyp hdr)"
    using assms key p by (auto simp: VerifyAccessToken_def split: if_splits option.splits)
  obtain payload where q: "Option.bind (jlDec L p1) (jlPayload L) = Some payload"
    using assms key p by (auto simp: VerifyAccessToken_def split: if_splits option.splits)
  have "jpIssuer payload = tiIssuer t" "verifyES256 L key (p0 @ ''.'' @ p1) p2" "checkPayload now aud payload = Inr claims"
    using assms unfolding VerifyAccessToken_def key p by (simp_all add: q split: if_splits option.splits)
  then show ?thesis using key p q h by (auto simp: checkPayload_def split: if_splits)
qed

section \<open>A token on a concrete library\<close>

definition ex_claims :: accessTokenClaims where
  "ex_claims = \<lparr>atSubject = ''alice'', atEmail = [], atDisplayName = [], atGroups = [''ops''], atGrants = [], atClientID = ''cli'', atExpiresAt = 0\<rparr>"

definition ex_payload :: jwtPayload where
  "ex_payload = \<lparr>jpIssuer = ''https://c'', jpAudience = [''https://c''], jpExpiresAt = 60, jpIssuedAt = 0, jpJTI = ''j'', jpNotBefore = 0,
     jpSubject = ''alice'', jpEmail = [], jpName = [], jpGroups = [''ops''], jpGrants = [], jpClientID = ''cli''\<rparr>"

fun ex_enc :: "string \<Rightarrow> string" where
  "ex_enc [] = []"
| "ex_enc (c # cs) = (if c = CHR ''.'' then ''xd'' else if c = CHR ''x'' then ''xx'' else [c]) @ ex_enc cs"

fun ex_dec :: "string \<Rightarrow> string" where
  "ex_dec [] = []"
| "ex_dec [c] = [c]"
| "ex_dec (c # d # cs) = (if c = CHR ''x'' then (if d = CHR ''d'' then CHR ''.'' else d) # ex_dec cs else c # ex_dec (d # cs))"

lemma ex_dec_cons: "c \<noteq> CHR ''x'' \<Longrightarrow> ex_dec (c # cs) = c # ex_dec cs"
  by (cases cs) auto

lemma ex_codec: "ex_dec (ex_enc b) = b \<and> CHR ''.'' \<notin> set (ex_enc b)"
  by (induction b) (auto simp: ex_dec_cons)

definition ex_lib :: "unit jwtLib" where
  "ex_lib = \<lparr>jlEnc = ex_enc, jlDec = Some \<circ> ex_dec, jlMarshal = (\<lambda>p. if p = ex_payload then Some ''P'' else None),
     jlPayload = (\<lambda>j. if j = ''P'' then Some ex_payload else None), jlHeader = (\<lambda>_. Some \<lparr>jhAlg = ''ES256'', jhTyp = ''at+jwt''\<rparr>), jlCompact = id,
     jlSha = id, jlSign = (\<lambda>_ _. Some (1, 2)), jlVerify = (\<lambda>_ _ r s. r = 1 \<and> s = 2)\<rparr>"

lemma ex_carried: "carriedPayload ex_lib ex_payload = ex_payload" "carriedClaims ex_lib ex_claims = ex_claims"
  by (simp_all add: carriedPayload_def carriedClaims_def ex_payload_def ex_claims_def coerceUTF8_ascii)

lemma ex_laws: "codec_laws ex_lib ()"
  using ex_carried(1) by (simp add: codec_laws_def ex_codec) (simp add: ex_lib_def ex_codec)

definition ex_issuer :: "unit tokenIssuer" where
  "ex_issuer = newTokenIssuer ex_lib () ''k'' ''https://c''"

definition ex_token :: string where
  "ex_token = projr (IssueAccessToken ex_lib 0 ''j'' ex_claims ''https://c'' (60 * second) ex_issuer)"

lemma ex_issued: "IssueAccessToken ex_lib 0 ''j'' ex_claims ''https://c'' (60 * second) (newTokenIssuer ex_lib () ''k'' ''https://c'') = Inr ex_token"
  by (simp add: ex_token_def ex_issuer_def IssueAccessToken_def newTokenIssuer_def ex_claims_def ex_lib_def ex_payload_def second_def
      signES256_def Let_def)


theorem verified_token_is_signed_witness:
  "\<exists>key p0 p1 p2 payload hdr. tiSigner ex_issuer = Some key \<and> Split CHR ''.'' ex_token = [p0, p1, p2] \<and>
     Option.bind (jlDec ex_lib p0) (jlHeader ex_lib) = Some hdr \<and> jhAlg hdr = ''ES256'' \<and> isAccessTokenType (jhTyp hdr) \<and>
     Option.bind (jlDec ex_lib p1) (jlPayload ex_lib) = Some payload \<and> verifyES256 ex_lib key (p0 @ ''.'' @ p1) p2 \<and>
     jpIssuer payload = tiIssuer ex_issuer \<and> ''https://c'' \<in> set (jpAudience payload) \<and> 30 * second \<le> jpExpiresAt payload * second \<and>
     (jpNotBefore payload = 0 \<or> jpNotBefore payload * second \<le> 30 * second) \<and>
     atSubject (ex_claims\<lparr>atExpiresAt := 60 * second\<rparr>) = jpSubject payload \<and> atSubject (ex_claims\<lparr>atExpiresAt := 60 * second\<rparr>) \<noteq> [] \<and>
     atClientID (ex_claims\<lparr>atExpiresAt := 60 * second\<rparr>) = jpClientID payload \<and> atClientID (ex_claims\<lparr>atExpiresAt := 60 * second\<rparr>) \<noteq> [] \<and>
     atEmail (ex_claims\<lparr>atExpiresAt := 60 * second\<rparr>) = jpEmail payload \<and> atDisplayName (ex_claims\<lparr>atExpiresAt := 60 * second\<rparr>) = jpName payload \<and>
     atGroups (ex_claims\<lparr>atExpiresAt := 60 * second\<rparr>) = jpGroups payload \<and> atGrants (ex_claims\<lparr>atExpiresAt := 60 * second\<rparr>) = jpGrants payload \<and>
     atExpiresAt (ex_claims\<lparr>atExpiresAt := 60 * second\<rparr>) = jpExpiresAt payload * second"
proof (rule verified_token_is_signed)
  show "VerifyAccessToken ex_lib (30 * second) ex_token ''https://c'' ex_issuer = Inr (ex_claims\<lparr>atExpiresAt := 60 * second\<rparr>)"
    using verify_minted [OF ex_laws ex_issued, of "30 * second" "''https://c''"]
    by (simp add: ex_issuer_def second_def ex_carried base64url_def coerceUTF8_ascii int64_def)
qed

end
