(* ===== verification/Oauth_Server.thy ===== *)
theory Oauth_Server
  imports Oauth_Jwt Acl_Policy
begin

text \<open>
  The endpoints of the OAuth server: resource indicators (\<open>internal/oauth/resource.go\<close>), the token, revocation and authorization
  endpoints (\<open>server.go\<close>) and the identity behind a bearer token (\<open>identity.go\<close>), over the stores, the registry and the token issuer of the
  other OAuth theories. A handler takes the request and the server's state and returns the response and the new state. What a
  handler draws or reads from outside is in the record \<open>world\<close>.
\<close>

section \<open>Resources\<close>

record resource =
  rsPath :: string
  rsRealm :: string
  rsName :: string

record serverConfig =
  cfIssuer :: string
  cfBasePath :: string
  cfResources :: "resource list"
  cfRequireResourceIndicator :: bool
  cfAccessTokenTTL :: int
  cfRefreshTokenTTL :: int
  cfCIMDEnabled :: bool

definition wellKnownPRM :: string where "wellKnownPRM = ''/.well-known/oauth-protected-resource''"

definition metadataPath :: "string \<Rightarrow> resource \<Rightarrow> string" where
  "metadataPath basePath r = wellKnownPRM @ basePath @ rsPath r"

definition mountedMetadataPath :: "string \<Rightarrow> resource \<Rightarrow> string" where
  "mountedMetadataPath basePath r = basePath @ wellKnownPRM @ rsPath r"

definition issuerID :: "serverConfig \<Rightarrow> string" where
  "issuerID c = cfIssuer c @ cfBasePath c"

definition identifierOf :: "serverConfig \<Rightarrow> resource \<Rightarrow> string" where
  "identifierOf c r = issuerID c @ rsPath r"

definition metadataURL :: "serverConfig \<Rightarrow> resource \<Rightarrow> string" where
  "metadataURL c r = cfIssuer c @ mountedMetadataPath (cfBasePath c) r"

record resourceSet =
  rzIdentifiers :: "string list"
  rzByID :: "resource gomap"
  rzCanonical :: "string gomap"
  rzDef :: resource
  rzFallback :: string

definition addResource :: "serverConfig \<Rightarrow> resource \<Rightarrow> resourceSet \<Rightarrow> resourceSet" where
  "addResource cfg r z = (let i = identifierOf cfg r;
       z1 = z\<lparr>rzIdentifiers := rzIdentifiers z @ [i], rzByID := gset (rzByID z) i r, rzCanonical := gset (rzCanonical z) i i\<rparr>
     in if rsPath r = [] then z1\<lparr>rzByID := gset (rzByID z1) (i @ ''/'') r, rzCanonical := gset (rzCanonical z1) (i @ ''/'') i\<rparr>
        else z1)"

text \<open>\<open>NewServer\<close> never passes an empty list of resources.\<close>

definition newResourceSet :: "serverConfig \<Rightarrow> resourceSet" where
  "newResourceSet cfg = (let s = fold (addResource cfg) (cfResources cfg)
       \<lparr>rzIdentifiers = [], rzByID = [], rzCanonical = [], rzDef = hd (cfResources cfg), rzFallback = []\<rparr>
     in s\<lparr>rzFallback := hd (rzIdentifiers s)\<rparr>)"

definition resourceFor :: "string \<Rightarrow> resourceSet \<Rightarrow> resource" where
  "resourceFor i s = gor (rzByID s) i (rzDef s)"

definition effectiveResource :: "string list \<Rightarrow> bool \<Rightarrow> resourceSet \<Rightarrow> string option" where
  "effectiveResource raw required s = (case raw of
     [] \<Rightarrow> if required then None else Some (rzFallback s)
   | [x] \<Rightarrow> if x = [] then (if required then None else Some (rzFallback s)) else gget (rzCanonical s) x
   | _ \<Rightarrow> None)"

definition canonicalSpelling :: "string \<Rightarrow> resourceSet \<Rightarrow> string" where
  "canonicalSpelling i s = gor (rzCanonical s) i i"

section \<open>Requests, the world and the server\<close>

text \<open>
  \<open>rqPost\<close> and \<open>rqQuery\<close> are the parsed body and query, a list of values per key; \<open>rqParseOK\<close> says whether \<open>ParseForm\<close> succeeded within the
  size limit; \<open>rqNonce\<close> is the CSRF cookie.
\<close>

record request =
  rqPost :: "string list gomap"
  rqQuery :: "string list gomap"
  rqParseOK :: bool
  rqNonce :: "string option"
  rqIdentity :: "identity option"

definition firstValue :: "string list \<Rightarrow> string" where
  "firstValue vs = (case vs of [] \<Rightarrow> [] | v # _ \<Rightarrow> v)"

definition FormValue :: "string \<Rightarrow> request \<Rightarrow> string" where
  "FormValue k rq = firstValue (gor (rqPost rq) k [] @ gor (rqQuery rq) k [])"

definition PostFormValue :: "string \<Rightarrow> request \<Rightarrow> string" where
  "PostFormValue k rq = firstValue (gor (rqPost rq) k [])"

definition QueryValue :: "string \<Rightarrow> request \<Rightarrow> string" where
  "QueryValue k rq = firstValue (gor (rqQuery rq) k [])"

text \<open>
  \<open>wH\<close> and \<open>wMac\<close> are the hashes of the other theories, \<open>wLib\<close> the codecs, \<open>wParse\<close> says whether \<open>url.Parse\<close> accepts a string, \<open>wFetch\<close> fetches a client's metadata
  document, \<open>wGrants\<close> is \<open>GrantSnapshot\<close> (nil gives the empty message). \<open>wFresh\<close> draws the token, code or nonce a handler needs, \<open>wGrantID\<close> and \<open>wJTI\<close> the other
  random strings.
\<close>

record 'k world =
  wNow :: int
  wFresh :: string
  wGrantID :: string
  wJTI :: string
  wH :: "string \<Rightarrow> string"
  wMac :: "string \<Rightarrow> string \<Rightarrow> string"
  wLib :: "'k jwtLib"
  wParse :: "string \<Rightarrow> bool"
  wFetch :: "string \<Rightarrow> clientMetadata option"
  wGrants :: "identity \<Rightarrow> string"

record 'k server =
  svCfg :: serverConfig
  svIssuer :: "'k tokenIssuer"
  svCodes :: authCodeStore
  svRefresh :: refreshTokenStore
  svConsent :: consentStore
  svClients :: "clientRegistry option"
  svResources :: resourceSet
  svCsrfKey :: string

record consentPage =
  cpVerified :: bool
  cpBinding :: consentBinding
  cpToken :: string
  cpNonce :: string
  cpResourceID :: string
  cpSubject :: string

datatype response =
    TokenError nat string
  | TokenResponse string int string
  | StatusOK
  | ErrorPage nat
  | RedirectError string string string
  | RedirectCode string string string
  | ConsentForm consentPage
  | Panics

section \<open>The token endpoint\<close>

definition respondWithTokens :: "'k world \<Rightarrow> accessTokenClaims \<Rightarrow> string \<Rightarrow> string \<times> 'k server \<Rightarrow> 'k server \<Rightarrow> response \<times> 'k server" where
  "respondWithTokens W claims resource refresh s =
     (case IssueAccessToken (wLib W) (wNow W) (wJTI W) claims resource (cfAccessTokenTTL (svCfg s)) (svIssuer s) of
        Inl _ \<Rightarrow> (TokenError 500 ''server_error'', s)
      | Inr accessToken \<Rightarrow> (case refresh of (refreshToken, s') \<Rightarrow>
          (TokenResponse accessToken (cfAccessTokenTTL (svCfg s) div second) refreshToken, s')))"

definition verifySHA256Challenge :: "(string \<Rightarrow> string) \<Rightarrow> string \<Rightarrow> string \<Rightarrow> bool" where
  "verifySHA256Challenge H verifier challenge \<longleftrightarrow> verifier \<noteq> [] \<and> challenge \<noteq> [] \<and> H verifier = challenge"

definition unreserved :: "char \<Rightarrow> bool" where
  "unreserved c \<longleftrightarrow> (let n = (of_char c :: nat) in
     65 \<le> n \<and> n \<le> 90 \<or> 97 \<le> n \<and> n \<le> 122 \<or> 48 \<le> n \<and> n \<le> 57 \<or> c \<in> set ''-._~'')"

definition validateCodeVerifier :: "string \<Rightarrow> bool" where
  "validateCodeVerifier v \<longleftrightarrow> 43 \<le> length v \<and> length v \<le> 128 \<and> list_all unreserved v"

definition handleAuthorizationCodeGrant :: "'k world \<Rightarrow> request \<Rightarrow> 'k server \<Rightarrow> response \<times> 'k server" where
  "handleAuthorizationCodeGrant W rq s = (let
      code = FormValue ''code'' rq; redirectURI = FormValue ''redirect_uri'' rq; clientID = FormValue ''client_id'' rq;
      codeVerifier = FormValue ''code_verifier'' rq; resourceForm = PostFormValue ''resource'' rq; resourceAll = gor (rqPost rq) ''resource'' []
    in if effectiveResource resourceAll (cfRequireResourceIndicator (svCfg s)) (svResources s) = None then (TokenError 400 ''invalid_target'', s)
       else if code = [] then (TokenError 400 ''invalid_request'', s)
       else (case Redeem (wH W) (wNow W) code (svCodes s) of (redeemed, codes') \<Rightarrow> (let s1 = s\<lparr>svCodes := codes'\<rparr> in
         case redeemed of
           None \<Rightarrow> (TokenError 400 ''invalid_grant'', s1)
         | Some d \<Rightarrow>
            if clientID \<noteq> acClientID d then (TokenError 400 ''invalid_grant'', s1)
            else if redirectURI \<noteq> acRedirectURI d then (TokenError 400 ''invalid_grant'', s1)
            else if resourceForm \<noteq> [] \<and> canonicalSpelling resourceForm (svResources s) \<noteq> canonicalSpelling (acResource d) (svResources s)
              then (TokenError 400 ''invalid_target'', s1)
            else if \<not> validateCodeVerifier codeVerifier then (TokenError 400 ''invalid_grant'', s1)
            else if \<not> verifySHA256Challenge (wH W) codeVerifier (acCodeChallenge d) then (TokenError 400 ''invalid_grant'', s1)
            else respondWithTokens W
              \<lparr>atSubject = acSubject d, atEmail = acEmail d, atDisplayName = acDisplayName d, atGroups = acGroups d, atGrants = acGrants d,
               atClientID = acClientID d, atExpiresAt = 0\<rparr>
              (acResource d)
              (case IssueRefresh (wH W) (wNow W) (wFresh W) (wGrantID W)
                  \<lparr>rdSubject = acSubject d, rdEmail = acEmail d, rdDisplayName = acDisplayName d, rdGroups = acGroups d, rdGrants = acGrants d,
                   rdClientID = acClientID d, rdResource = acResource d, rdGrantID = []\<rparr> (cfRefreshTokenTTL (svCfg s)) (svRefresh s)
               of (raw, store) \<Rightarrow> (raw, s1\<lparr>svRefresh := store\<rparr>))
              s1)))"

definition handleRefreshTokenGrant :: "'k world \<Rightarrow> request \<Rightarrow> 'k server \<Rightarrow> response \<times> 'k server" where
  "handleRefreshTokenGrant W rq s = (let
      token = FormValue ''refresh_token'' rq; resourceForm = PostFormValue ''resource'' rq; resourceAll = gor (rqPost rq) ''resource'' [];
      clientID = FormValue ''client_id'' rq;
      bound = ValidateRefresh (wH W) (wNow W) token (svRefresh s)
    in if clientID = [] then (TokenError 400 ''invalid_request'', s)
       else if effectiveResource resourceAll (cfRequireResourceIndicator (svCfg s)) (svResources s) = None then (TokenError 400 ''invalid_target'', s)
       else if token = [] then (TokenError 400 ''invalid_request'', s)
       else if (case bound of None \<Rightarrow> False | Some b \<Rightarrow> resourceForm \<noteq> [] \<and>
             canonicalSpelling resourceForm (svResources s) \<noteq> canonicalSpelling (rdResource b) (svResources s)) then (TokenError 400 ''invalid_target'', s)
       else if (case bound of None \<Rightarrow> False | Some b \<Rightarrow> clientID \<noteq> rdClientID b) then (TokenError 400 ''invalid_grant'', s)
       else (case Rotate (wH W) (wNow W) (wFresh W) token (cfRefreshTokenTTL (svCfg s)) (svRefresh s) of (result, store) \<Rightarrow>
         (let s1 = s\<lparr>svRefresh := store\<rparr> in
          if rrTheft result then (TokenError 400 ''invalid_grant'',
            s1\<lparr>svConsent := ForgetConsent (wH W) (ConsentKey_of (rrData result)) (svConsent s1)\<rparr>)
          else if \<not> rrOK result then (TokenError 400 ''invalid_grant'', s1)
          else respondWithTokens W
            \<lparr>atSubject = rdSubject (rrData result), atEmail = rdEmail (rrData result), atDisplayName = rdDisplayName (rrData result),
             atGroups = rdGroups (rrData result), atGrants = rdGrants (rrData result), atClientID = rdClientID (rrData result), atExpiresAt = 0\<rparr>
            (rdResource (rrData result)) (rrNewToken result, s1) s1)))"

definition HandleToken :: "'k world \<Rightarrow> request \<Rightarrow> 'k server \<Rightarrow> response \<times> 'k server" where
  "HandleToken W rq s = (if \<not> rqParseOK rq then (TokenError 400 ''invalid_request'', s)
     else (let grantType = FormValue ''grant_type'' rq in
       if grantType = ''authorization_code'' then handleAuthorizationCodeGrant W rq s
       else if grantType = ''refresh_token'' then handleRefreshTokenGrant W rq s
       else if grantType = [] then (TokenError 400 ''invalid_request'', s)
       else (TokenError 400 ''unsupported_grant_type'', s)))"

section \<open>Revocation\<close>


definition RevokeSubject :: "string \<Rightarrow> 'k server \<Rightarrow> nat \<times> 'k server" where
  "RevokeSubject subject s = (case RevokeSubject_tokens subject (svRefresh s) of (n, store) \<Rightarrow>
     (n, s\<lparr>svRefresh := store, svConsent := ForgetSubject subject (svConsent s)\<rparr>))"


section \<open>The authorization endpoint\<close>

text \<open>\<open>consentRefusal\<close>: the status an identity is refused with, 0 when it may found a grant.\<close>

definition consentRefusal :: "identity option \<Rightarrow> nat" where
  "consentRefusal i = (case i of None \<Rightarrow> 401 | Some x \<Rightarrow> if idProvider x = ProviderToken then 403 else 0)"

definition resolveClientMeta :: "'k world \<Rightarrow> string \<Rightarrow> 'k server \<Rightarrow> (clientMetadata \<times> bool) option" where
  "resolveClientMeta W clientID s =
     (if prefix ''https://'' clientID then
        (if \<not> cfCIMDEnabled (svCfg s) then None else map_option (\<lambda>m. (m, True)) (wFetch W clientID))
      else (case svClients s of
          None \<Rightarrow> None
        | Some registry \<Rightarrow> (case GetClient clientID registry of
            None \<Rightarrow> None
          | Some reg \<Rightarrow> Some (\<lparr>cmClientID = rgClientID reg, cmClientName = rgClientName reg, cmLogoURI = [],
              cmRedirectURIs = rgRedirectURIs reg, cmTokenEndpointAuthMethod = rgTokenEndpointAuthMethod reg\<rparr>, False))))"

definition redirectWithError :: "'k world \<Rightarrow> string \<Rightarrow> string \<Rightarrow> string \<Rightarrow> response" where
  "redirectWithError W uri state code = (if \<not> wParse W uri then ErrorPage 400 else RedirectError uri state code)"

definition issueCodeAndRedirect :: "'k world \<Rightarrow> clientMetadata \<Rightarrow> authCodeData \<Rightarrow> string \<Rightarrow> 'k server \<Rightarrow> response \<times> 'k server" where
  "issueCodeAndRedirect W meta code state s = (if \<not> HasRedirectURI meta (acRedirectURI code) then (ErrorPage 400, s)
     else (case IssueCode (wH W) (wNow W) (wFresh W) code (60 * second) (svCodes s) of (rawCode, codes') \<Rightarrow>
       (if wParse W (acRedirectURI code) then RedirectCode (acRedirectURI code) rawCode state else Panics, s\<lparr>svCodes := codes'\<rparr>)))"

text \<open>The page with its CSRF token, bound to the nonce the cookie gets.\<close>

definition renderConsentPage :: "'k world \<Rightarrow> bool \<Rightarrow> consentBinding \<Rightarrow> string \<Rightarrow> string \<Rightarrow> 'k server \<Rightarrow> response" where
  "renderConsentPage W verified b resourceID subject s = ConsentForm \<lparr>cpVerified = verified, cpBinding = b,
     cpToken = csrfMAC (wMac W) (svCsrfKey s) (wFresh W) b, cpNonce = wFresh W, cpResourceID = resourceID, cpSubject = subject\<rparr>"

definition formBinding :: "request \<Rightarrow> consentBinding" where
  "formBinding rq = \<lparr>cbState = FormValue ''state'' rq, cbFingerprint = FormValue ''consent_fingerprint'' rq, cbClientID = FormValue ''client_id'' rq,
     cbRedirectURI = FormValue ''redirect_uri'' rq, cbCodeChallenge = FormValue ''code_challenge'' rq,
     cbCodeChallengeMethod = FormValue ''code_challenge_method'' rq, cbResponseType = FormValue ''response_type'' rq,
     cbResource = FormValue ''resource'' rq\<rparr>"

definition verifyCSRFToken :: "'k world \<Rightarrow> request \<Rightarrow> string \<Rightarrow> bool" where
  "verifyCSRFToken W rq key = (case rqNonce rq of
     None \<Rightarrow> False
   | Some nonce \<Rightarrow> FormValue ''csrf_token'' rq = csrfMAC (wMac W) key nonce (formBinding rq))"

definition codeFor :: "'k world \<Rightarrow> string \<Rightarrow> string \<Rightarrow> string \<Rightarrow> string \<Rightarrow> identity \<Rightarrow> authCodeData" where
  "codeFor W clientID redirectURI codeChallenge resource i = \<lparr>acClientID = clientID, acRedirectURI = redirectURI, acCodeChallenge = codeChallenge,
     acResource = resource, acSubject = idSubject i, acEmail = idEmail i, acDisplayName = idDisplayName i, acGroups = idGroups i,
     acGrants = wGrants W i\<rparr>"

definition handleAuthorizeGET :: "'k world \<Rightarrow> request \<Rightarrow> 'k server \<Rightarrow> response \<times> 'k server" where
  "handleAuthorizeGET W rq s = (let
      responseType = QueryValue ''response_type'' rq; clientID = QueryValue ''client_id'' rq; redirectURI = QueryValue ''redirect_uri'' rq;
      codeChallenge = QueryValue ''code_challenge'' rq; codeChallengeMethod = QueryValue ''code_challenge_method'' rq;
      state = QueryValue ''state'' rq; resourceParam = QueryValue ''resource'' rq; resourceAll = gor (rqQuery rq) ''resource'' []
    in case resolveClientMeta W clientID s of
         None \<Rightarrow> (ErrorPage 400, s)
       | Some (meta, verified) \<Rightarrow>
          if \<not> HasRedirectURI meta redirectURI then (ErrorPage 400, s)
          else if responseType \<noteq> ''code'' then (redirectWithError W redirectURI state ''unsupported_response_type'', s)
          else if codeChallenge = [] then (redirectWithError W redirectURI state ''invalid_request'', s)
          else if codeChallengeMethod \<noteq> ''S256'' then (redirectWithError W redirectURI state ''invalid_request'', s)
          else (case effectiveResource resourceAll (cfRequireResourceIndicator (svCfg s)) (svResources s) of
              None \<Rightarrow> (redirectWithError W redirectURI state ''invalid_target'', s)
            | Some effective \<Rightarrow>
               if consentRefusal (rqIdentity rq) \<noteq> 0 then (ErrorPage (consentRefusal (rqIdentity rq)), s)
               else (let i = the (rqIdentity rq); fingerprint = consentFingerprint (wH W) meta;
                   key = \<lparr>ckSubject = idSubject i, ckClientID = clientID, ckResource = effective\<rparr>
                 in if verified \<and> Allows (wH W) (wNow W) key fingerprint (svConsent s)
                    then issueCodeAndRedirect W meta (codeFor W clientID redirectURI codeChallenge effective i) state s
                    else (renderConsentPage W verified \<lparr>cbState = state, cbFingerprint = fingerprint, cbClientID = clientID,
                        cbRedirectURI = redirectURI, cbCodeChallenge = codeChallenge, cbCodeChallengeMethod = codeChallengeMethod,
                        cbResponseType = responseType, cbResource = resourceParam\<rparr> effective (idSubject i) s, s))))"

definition handleAuthorizePOST :: "'k world \<Rightarrow> request \<Rightarrow> 'k server \<Rightarrow> response \<times> 'k server" where
  "handleAuthorizePOST W rq s = (if \<not> rqParseOK rq then (ErrorPage 400, s) else (let
      redirectURI = FormValue ''redirect_uri'' rq; clientID = FormValue ''client_id'' rq; state = FormValue ''state'' rq;
      codeChallenge = FormValue ''code_challenge'' rq; codeChallengeMethod = FormValue ''code_challenge_method'' rq;
      resourceParam = PostFormValue ''resource'' rq; resourceAll = gor (rqPost rq) ''resource'' [];
      decision = FormValue ''decision'' rq; responseType = FormValue ''response_type'' rq; shown = FormValue ''consent_fingerprint'' rq
    in case resolveClientMeta W clientID s of
         None \<Rightarrow> (ErrorPage 400, s)
       | Some (meta, verified) \<Rightarrow>
          if \<not> HasRedirectURI meta redirectURI then (ErrorPage 400, s)
          else if \<not> verifyCSRFToken W rq (svCsrfKey s) then (ErrorPage 400, s)
          else if decision = ''deny'' then (redirectWithError W redirectURI state ''access_denied'', s)
          else if consentRefusal (rqIdentity rq) \<noteq> 0 then (ErrorPage (consentRefusal (rqIdentity rq)), s)
          else if responseType \<noteq> ''code'' then (redirectWithError W redirectURI state ''unsupported_response_type'', s)
          else if codeChallenge = [] then (redirectWithError W redirectURI state ''invalid_request'', s)
          else if codeChallengeMethod \<noteq> ''S256'' then (redirectWithError W redirectURI state ''invalid_request'', s)
          else (case effectiveResource resourceAll (cfRequireResourceIndicator (svCfg s)) (svResources s) of
              None \<Rightarrow> (redirectWithError W redirectURI state ''invalid_target'', s)
            | Some effective \<Rightarrow> (let i = the (rqIdentity rq); fingerprint = consentFingerprint (wH W) meta in
               if fingerprint \<noteq> shown
               then (renderConsentPage W verified \<lparr>cbState = state, cbFingerprint = fingerprint, cbClientID = clientID,
                        cbRedirectURI = redirectURI, cbCodeChallenge = codeChallenge, cbCodeChallengeMethod = codeChallengeMethod,
                        cbResponseType = responseType, cbResource = resourceParam\<rparr> effective (idSubject i) s, s)
               else (let s1 = (if verified
                       then s\<lparr>svConsent := Remember (wH W) (wNow W) \<lparr>ckSubject = idSubject i, ckClientID = clientID, ckResource = effective\<rparr> shown (svConsent s)\<rparr>
                       else s)
                 in issueCodeAndRedirect W meta (codeFor W clientID redirectURI codeChallenge effective i) state s1)))))"

section \<open>The identity behind a token\<close>

datatype identifyError = ErrForeignToken | ErrFinal jwtError

text \<open>\<open>Identify\<close>; \<open>anyJSON\<close> is \<open>json.Unmarshal\<close> into an empty interface.\<close>

definition Identify :: "'k world \<Rightarrow> (string \<Rightarrow> any option) \<Rightarrow> string \<Rightarrow> string \<Rightarrow> 'k server \<Rightarrow> identifyError + identity" where
  "Identify W anyJSON token resource s = (case VerifyAccessToken (wLib W) (wNow W) token resource (svIssuer s) of
     Inl ErrIssuerMismatch \<Rightarrow> Inl ErrForeignToken
   | Inl ErrMalformedToken \<Rightarrow> Inl ErrForeignToken
   | Inl e \<Rightarrow> Inl (ErrFinal e)
   | Inr claims \<Rightarrow> Inr \<lparr>idSubject = atSubject claims, idDisplayName = atDisplayName claims, idEmail = atEmail claims, idGroups = atGroups claims,
       idProvider = ProviderToken,
       idRaw = (if atGrants claims = [] then [] else (case anyJSON (atGrants claims) of None \<Rightarrow> [] | Some grants \<Rightarrow> [(RawTokenGrants, grants)])),
       idExpiresAt = Some (atExpiresAt claims), idClientID = atClientID claims\<rparr>)"

text \<open>A header value as an RFC 9110 quoted string.\<close>

fun quotedBytes :: "string \<Rightarrow> string" where
  "quotedBytes [] = []"
| "quotedBytes (c # cs) = (let n = (of_char c :: nat) in
     if n = 34 \<or> n = 92 then char_of (92 :: nat) # c # quotedBytes cs
     else if n = 9 \<or> n = 32 \<or> (33 \<le> n \<and> n \<le> 126) \<or> 128 \<le> n then c # quotedBytes cs
     else quotedBytes cs)"

definition httpQuotedString :: "string \<Rightarrow> string" where
  "httpQuotedString s = char_of (34 :: nat) # quotedBytes s @ [char_of (34 :: nat)]"

definition UnauthorizedHeader :: "string \<Rightarrow> string \<Rightarrow> 'k server \<Rightarrow> string" where
  "UnauthorizedHeader resource errorCode s = (let target = resourceFor resource (svResources s);
      challenge = ''Bearer realm='' @ httpQuotedString (rsRealm target) @ '', resource_metadata='' @ httpQuotedString (metadataURL (svCfg s) target)
    in if errorCode = [] then challenge else challenge @ '', error='' @ httpQuotedString errorCode)"


section \<open>Facts about the steps\<close>

lemma respond_cases:
  "respondWithTokens W claims resource refresh s = (TokenResponse a e r, s') \<Longrightarrow>
     IssueAccessToken (wLib W) (wNow W) (wJTI W) claims resource (cfAccessTokenTTL (svCfg s)) (svIssuer s) = Inr a \<and> refresh = (r, s')"
  by (auto simp: respondWithTokens_def split: sum.splits prod.splits)

lemma respond_state: "snd (respondWithTokens W claims resource refresh s) \<in> {snd refresh, s}"
  by (auto simp: respondWithTokens_def split: sum.split prod.split)

lemma Redeem_Some:
  "Redeem H now code s = (Some d, s') \<Longrightarrow> \<exists>entry. gget s (H code) = Some entry \<and> ceData entry = d \<and> now \<le> ceExpiresAt entry \<and> s' = gdel s (H code)"
  by (auto simp: Redeem_def Let_def split: option.splits if_splits)

lemma Redeem_gone: "gget (snd (Redeem H now code s)) (H code) = None"
  by (simp add: Redeem_def Let_def split: option.split)


text \<open>\<open>issuedFor\<close>: what the token endpoint must have checked before it answers a code with tokens.\<close>

definition issuedFor :: "'k world \<Rightarrow> request \<Rightarrow> 'k server \<Rightarrow> string \<Rightarrow> authCodeData \<Rightarrow> bool" where
  "issuedFor W rq s accessToken d \<longleftrightarrow>
     (\<exists>entry. gget (svCodes s) (wH W (FormValue ''code'' rq)) = Some entry \<and> ceData entry = d \<and> wNow W \<le> ceExpiresAt entry) \<and>
     FormValue ''client_id'' rq = acClientID d \<and> FormValue ''redirect_uri'' rq = acRedirectURI d \<and>
     wH W (FormValue ''code_verifier'' rq) = acCodeChallenge d \<and> validateCodeVerifier (FormValue ''code_verifier'' rq) \<and>
     IssueAccessToken (wLib W) (wNow W) (wJTI W) \<lparr>atSubject = acSubject d, atEmail = acEmail d, atDisplayName = acDisplayName d,
         atGroups = acGroups d, atGrants = acGrants d, atClientID = acClientID d, atExpiresAt = 0\<rparr>
       (acResource d) (cfAccessTokenTTL (svCfg s)) (svIssuer s) = Inr accessToken"

section \<open>What the endpoints promise\<close>

text \<open>C8.
  A code is exchanged only by the client it was issued to, with proof. When the token endpoint answers an authorization code with
  tokens, the code was live, the request named the client and the redirect URI the code is bound to, and its well-formed verifier
  hashes to the code's challenge; the access token speaks for the user who consented and names the resource the code is bound to. And a
  code is good for one attempt: a request that names a code and a resource the server serves leaves no such code behind, whatever the
  answer, and any other request is an error that changes nothing.
\<close>

theorem code_exchange_is_bound:
  assumes "HandleToken W rq s = (resp, s')" "FormValue ''grant_type'' rq = ''authorization_code''"
  shows "(\<forall>a e r. resp = TokenResponse a e r \<longrightarrow> (\<exists>d. issuedFor W rq s a d)) \<and>
     (if \<not> rqParseOK rq \<or> effectiveResource (gor (rqPost rq) ''resource'' []) (cfRequireResourceIndicator (svCfg s)) (svResources s) = None \<or>
        FormValue ''code'' rq = []
      then s' = s \<and> (\<exists>n c. resp = TokenError n c) else gget (svCodes s') (wH W (FormValue ''code'' rq)) = None)"
proof (cases "\<not> rqParseOK rq \<or> effectiveResource (gor (rqPost rq) ''resource'' []) (cfRequireResourceIndicator (svCfg s)) (svResources s) = None \<or>
    FormValue ''code'' rq = []")
  case True
  then have "s' = s \<and> (\<exists>n c. resp = TokenError n c)"
    using assms unfolding HandleToken_def handleAuthorizationCodeGrant_def Let_def by (auto split: if_splits)
  then show ?thesis using True by auto
next
  case False
  let ?h = "wH W (FormValue ''code'' rq)"
  obtain redeemed codes' where R: "Redeem (wH W) (wNow W) (FormValue ''code'' rq) (svCodes s) = (redeemed, codes')"
    by (cases "Redeem (wH W) (wNow W) (FormValue ''code'' rq) (svCodes s)")
  then have gone: "gget codes' ?h = None" using Redeem_gone by (metis snd_conv)
  have H: "handleAuthorizationCodeGrant W rq s = (resp, s')" using assms False by (simp add: HandleToken_def)
  show ?thesis
  proof (cases redeemed)
    case None
    then show ?thesis using H False R gone by (auto simp: handleAuthorizationCodeGrant_def Let_def)
  next
    case (Some d)
    from Redeem_Some [OF R [unfolded Some]] obtain entry where entry: "gget (svCodes s) ?h = Some entry" "ceData entry = d" "wNow W \<le> ceExpiresAt entry"
      by blast
    show ?thesis
    proof (cases "FormValue ''client_id'' rq = acClientID d \<and> FormValue ''redirect_uri'' rq = acRedirectURI d \<and>
        \<not> (PostFormValue ''resource'' rq \<noteq> [] \<and> canonicalSpelling (PostFormValue ''resource'' rq) (svResources s) \<noteq> canonicalSpelling (acResource d) (svResources s)) \<and>
        validateCodeVerifier (FormValue ''code_verifier'' rq) \<and> verifySHA256Challenge (wH W) (FormValue ''code_verifier'' rq) (acCodeChallenge d)")
      case False
      then show ?thesis using H R Some gone \<open>\<not> (_ \<or> _ \<or> _)\<close> unfolding handleAuthorizationCodeGrant_def Let_def
        by (auto split: if_splits)
    next
      case True
      let ?claims = "\<lparr>atSubject = acSubject d, atEmail = acEmail d, atDisplayName = acDisplayName d, atGroups = acGroups d, atGrants = acGrants d,
               atClientID = acClientID d, atExpiresAt = 0\<rparr>"
      have "\<exists>refresh. respondWithTokens W ?claims (acResource d) refresh (s\<lparr>svCodes := codes'\<rparr>) = (resp, s') \<and> svCodes (snd refresh) = codes'"
        using H R Some True \<open>\<not> (_ \<or> _ \<or> _)\<close> unfolding handleAuthorizationCodeGrant_def Let_def
        by (intro exI conjI) (auto simp: IssueRefresh_def)
      then obtain refresh where eq: "respondWithTokens W ?claims (acResource d) refresh (s\<lparr>svCodes := codes'\<rparr>) = (resp, s')"
        and codes: "svCodes (snd refresh) = codes'" by blast
      have "gget (svCodes s') ?h = None"
        using respond_state [of W ?claims "acResource d" refresh "s\<lparr>svCodes := codes'\<rparr>"] gone codes unfolding eq by auto
      moreover have "issuedFor W rq s a d" if "resp = TokenResponse a e r" for a e r
        using respond_cases [OF eq [unfolded that]] True entry by (simp add: issuedFor_def verifySHA256Challenge_def)
      ultimately show ?thesis unfolding if_not_P [OF \<open>\<not> (_ \<or> _ \<or> _)\<close>] by blast
    qed
  qed
qed






section \<open>The authorization endpoint\<close>

text \<open>The answers that leave the user's browser at the client.\<close>

definition redirectTarget :: "response \<Rightarrow> string option" where
  "redirectTarget r = (case r of RedirectError uri _ _ \<Rightarrow> Some uri | RedirectCode uri _ _ \<Rightarrow> Some uri | _ \<Rightarrow> None)"

lemma redirectWithError_cases: "redirectWithError W uri state code \<in> {ErrorPage 400, RedirectError uri state code}"
  by (simp add: redirectWithError_def)

lemma consentRefusal_0: "consentRefusal i = 0 \<longleftrightarrow> (\<exists>x. i = Some x \<and> \<not> FromToken i)"
  by (auto simp: consentRefusal_def FromToken_def split: option.splits if_splits)

lemma issue_cases:
  "issueCodeAndRedirect W meta code state s = (resp, s') \<Longrightarrow> redirectTarget resp = Some uri \<Longrightarrow>
     uri = acRedirectURI code \<and> HasRedirectURI meta uri"
  by (auto simp: issueCodeAndRedirect_def IssueCode_def redirectTarget_def split: if_splits)

lemma no_target [simp]: "redirectTarget (ErrorPage n) = None" "redirectTarget (ConsentForm p) = None" "redirectTarget Panics = None"
  "redirectTarget (RedirectError u st c) = Some u" "redirectTarget (RedirectCode u c st) = Some u"
  by (simp_all add: redirectTarget_def)

lemma error_target: "redirectTarget (redirectWithError W u st c) = Some uri \<Longrightarrow> uri = u"
  by (auto simp: redirectWithError_def split: if_splits)

lemma GET_step:
  assumes "handleAuthorizeGET W rq s = (resp, s')"
  shows "redirectTarget resp = Some uri \<Longrightarrow> \<exists>meta v. resolveClientMeta W (QueryValue ''client_id'' rq) s = Some (meta, v) \<and> HasRedirectURI meta uri"
    and "s' \<noteq> s \<or> (\<exists>u c st. resp = RedirectCode u c st) \<Longrightarrow>
      \<exists>i meta effective. rqIdentity rq = Some i \<and> \<not> FromToken (Some i) \<and> resolveClientMeta W (QueryValue ''client_id'' rq) s = Some (meta, True) \<and>
        effectiveResource (gor (rqQuery rq) ''resource'' []) (cfRequireResourceIndicator (svCfg s)) (svResources s) = Some effective \<and>
        Allows (wH W) (wNow W) \<lparr>ckSubject = idSubject i, ckClientID = QueryValue ''client_id'' rq, ckResource = effective\<rparr>
          (consentFingerprint (wH W) meta) (svConsent s)"
proof -
  show "\<exists>meta v. resolveClientMeta W (QueryValue ''client_id'' rq) s = Some (meta, v) \<and> HasRedirectURI meta uri" if "redirectTarget resp = Some uri"
  proof (cases "resolveClientMeta W (QueryValue ''client_id'' rq) s")
    case None
    then show ?thesis using assms that by (auto simp: handleAuthorizeGET_def Let_def)
  next
    case (Some mv)
    obtain meta v where mv: "mv = (meta, v)" by (cases mv)
    have "HasRedirectURI meta uri"
      using assms that unfolding handleAuthorizeGET_def Let_def Some mv renderConsentPage_def
      by (auto simp: codeFor_def dest: error_target issue_cases split: if_splits option.splits)
    then show ?thesis using Some mv by blast
  qed
qed (use assms in \<open>auto simp: handleAuthorizeGET_def Let_def renderConsentPage_def redirectWithError_def consentRefusal_0 split: if_splits option.splits prod.splits\<close>)


lemma POST_step:
  assumes "handleAuthorizePOST W rq s = (resp, s')"
  shows "redirectTarget resp = Some uri \<Longrightarrow> \<exists>meta v. resolveClientMeta W (FormValue ''client_id'' rq) s = Some (meta, v) \<and> HasRedirectURI meta uri"
    and "s' \<noteq> s \<or> (\<exists>u c st. resp = RedirectCode u c st) \<Longrightarrow>
      \<exists>i meta v. rqIdentity rq = Some i \<and> \<not> FromToken (Some i) \<and> resolveClientMeta W (FormValue ''client_id'' rq) s = Some (meta, v) \<and>
        verifyCSRFToken W rq (svCsrfKey s) \<and> FormValue ''decision'' rq \<noteq> ''deny'' \<and>
        consentFingerprint (wH W) meta = FormValue ''consent_fingerprint'' rq"
proof -
  show "\<exists>meta v. resolveClientMeta W (FormValue ''client_id'' rq) s = Some (meta, v) \<and> HasRedirectURI meta uri" if "redirectTarget resp = Some uri"
  proof (cases "resolveClientMeta W (FormValue ''client_id'' rq) s")
    case None
    then show ?thesis using assms that by (auto simp: handleAuthorizePOST_def Let_def split: if_splits)
  next
    case (Some mv)
    obtain meta v where mv: "mv = (meta, v)" by (cases mv)
    have "HasRedirectURI meta uri"
      using assms that unfolding handleAuthorizePOST_def Let_def Some mv renderConsentPage_def
      by (auto simp: codeFor_def dest: error_target issue_cases split: if_splits option.splits)
    then show ?thesis using Some mv by blast
  qed
  show "\<exists>i meta v. rqIdentity rq = Some i \<and> \<not> FromToken (Some i) \<and> resolveClientMeta W (FormValue ''client_id'' rq) s = Some (meta, v) \<and>
        verifyCSRFToken W rq (svCsrfKey s) \<and> FormValue ''decision'' rq \<noteq> ''deny'' \<and>
        consentFingerprint (wH W) meta = FormValue ''consent_fingerprint'' rq" if ch: "s' \<noteq> s \<or> (\<exists>u c st. resp = RedirectCode u c st)"
  proof (cases "resolveClientMeta W (FormValue ''client_id'' rq) s")
    case None
    then show ?thesis using assms ch by (auto simp: handleAuthorizePOST_def Let_def split: if_splits)
  next
    case (Some mv)
    obtain meta v where mv: "mv = (meta, v)" by (cases mv)
    have "consentRefusal (rqIdentity rq) = 0 \<and> verifyCSRFToken W rq (svCsrfKey s) \<and> FormValue ''decision'' rq \<noteq> ''deny'' \<and>
        consentFingerprint (wH W) meta = FormValue ''consent_fingerprint'' rq"
      using assms ch unfolding handleAuthorizePOST_def Let_def Some mv renderConsentPage_def redirectWithError_def
      by (auto split: if_splits option.splits)
    then show ?thesis using Some mv by (auto simp: consentRefusal_0)
  qed
qed

text \<open>C9.
  No code without consent, no redirect to a stranger. Whatever a request to the authorization endpoint carries: every redirect it is
  answered with goes to a URI registered for the client it names; and an authorization code is issued (or an approval recorded) only for a user the upstream
  provider established, never for one known through a token of this server, and only when that user had approved this
  client for this resource with its current metadata (GET), or submitted the form of the consent page without denying, with the metadata unchanged
  since it was shown (POST).
\<close>

theorem codes_need_consent:
  "(\<forall>resp s' uri. (handleAuthorizeGET W rq s = (resp, s') \<and> redirectTarget resp = Some uri \<longrightarrow>
        (\<exists>meta v. resolveClientMeta W (QueryValue ''client_id'' rq) s = Some (meta, v) \<and> HasRedirectURI meta uri)) \<and>
      (handleAuthorizePOST W rq s = (resp, s') \<and> redirectTarget resp = Some uri \<longrightarrow>
        (\<exists>meta v. resolveClientMeta W (FormValue ''client_id'' rq) s = Some (meta, v) \<and> HasRedirectURI meta uri))) \<and>
   (\<forall>resp s'. handleAuthorizeGET W rq s = (resp, s') \<and> (s' \<noteq> s \<or> (\<exists>u c st. resp = RedirectCode u c st)) \<longrightarrow>
      (\<exists>i meta effective. rqIdentity rq = Some i \<and> \<not> FromToken (Some i) \<and> resolveClientMeta W (QueryValue ''client_id'' rq) s = Some (meta, True) \<and>
        effectiveResource (gor (rqQuery rq) ''resource'' []) (cfRequireResourceIndicator (svCfg s)) (svResources s) = Some effective \<and>
        Allows (wH W) (wNow W) \<lparr>ckSubject = idSubject i, ckClientID = QueryValue ''client_id'' rq, ckResource = effective\<rparr>
          (consentFingerprint (wH W) meta) (svConsent s))) \<and>
   (\<forall>resp s'. handleAuthorizePOST W rq s = (resp, s') \<and> (s' \<noteq> s \<or> (\<exists>u c st. resp = RedirectCode u c st)) \<longrightarrow>
      (\<exists>i meta v. rqIdentity rq = Some i \<and> \<not> FromToken (Some i) \<and> resolveClientMeta W (FormValue ''client_id'' rq) s = Some (meta, v) \<and>
        verifyCSRFToken W rq (svCsrfKey s) \<and> FormValue ''decision'' rq \<noteq> ''deny'' \<and>
        consentFingerprint (wH W) meta = FormValue ''consent_fingerprint'' rq))"
  by (intro conjI allI impI; elim conjE) (rule GET_step POST_step; assumption)+

text \<open>
  The consent form's token covers the first value of \<open>resource\<close> in body or query, while the grant is bound to the values in the body
  alone: with the field moved from the body to the query, the token verifies for the resource on the page and the code is bound to the default.
\<close>

lemma csrf_resource_may_differ:
  assumes "gget (rqPost rq) ''resource'' = None" "gget (rqQuery rq) ''resource'' = Some [x]"
  shows "cbResource (formBinding rq) = x \<and> effectiveResource (gor (rqPost rq) ''resource'' []) False z = Some (rzFallback z)"
  using assms by (simp add: formBinding_def FormValue_def gor_def firstValue_def effectiveResource_def)


section \<open>The endpoints on concrete requests\<close>

definition ex_config :: serverConfig where
  "ex_config = \<lparr>cfIssuer = ''https://c'', cfBasePath = [], cfResources = [\<lparr>rsPath = [], rsRealm = ''cetacean'', rsName = ''Cetacean''\<rparr>],
     cfRequireResourceIndicator = False, cfAccessTokenTTL = 60 * second, cfRefreshTokenTTL = 3600 * second, cfCIMDEnabled = True\<rparr>"

definition ex_verifier :: string where
  "ex_verifier = replicate 43 CHR ''v''"

definition ex_code_data :: authCodeData where
  "ex_code_data = \<lparr>acClientID = ''cli'', acRedirectURI = ''https://a/cb'', acCodeChallenge = ex_verifier, acResource = ''https://c'',
     acSubject = ''alice'', acEmail = [], acDisplayName = [], acGroups = [''ops''], acGrants = []\<rparr>"

definition ex_world :: "unit world" where
  "ex_world = \<lparr>wNow = 0, wFresh = ''t1'', wGrantID = ''g2'', wJTI = ''j'', wH = id, wMac = (\<lambda>k x. k @ x), wLib = ex_lib, wParse = (\<lambda>_. True),
     wFetch = (\<lambda>i. Some \<lparr>cmClientID = i, cmClientName = ''app'', cmLogoURI = [], cmRedirectURIs = [''https://a/cb''], cmTokenEndpointAuthMethod = ''none''\<rparr>),
     wGrants = (\<lambda>_. [])\<rparr>"

definition ex_server :: "unit server" where
  "ex_server = \<lparr>svCfg = ex_config, svIssuer = ex_issuer, svCodes = [(''c0'', \<lparr>ceData = ex_code_data, ceExpiresAt = 60\<rparr>)],
     svRefresh = ex_session, svConsent = NewConsentStore 100, svClients = None, svResources = newResourceSet ex_config, svCsrfKey = ''k''\<rparr>"

definition ex_post :: "(string \<times> string list) list \<Rightarrow> request" where
  "ex_post vs = \<lparr>rqPost = vs, rqQuery = [], rqParseOK = True, rqNonce = None, rqIdentity = None\<rparr>"

lemma ex_effective: "effectiveResource [] False (newResourceSet ex_config) = Some ''https://c''"
  by (simp add: effectiveResource_def newResourceSet_def addResource_def ex_config_def identifierOf_def issuerID_def Let_def)

definition ex_exchange :: request where
  "ex_exchange = ex_post [(''grant_type'', [''authorization_code'']), (''code'', [''c0'']), (''redirect_uri'', [''https://a/cb'']),
     (''client_id'', [''cli'']), (''code_verifier'', [ex_verifier])]"

lemma ex_exchange_form:
  "FormValue ''grant_type'' ex_exchange = ''authorization_code''" "FormValue ''code'' ex_exchange = ''c0''"
  "FormValue ''redirect_uri'' ex_exchange = ''https://a/cb''" "FormValue ''client_id'' ex_exchange = ''cli''"
  "FormValue ''code_verifier'' ex_exchange = ex_verifier" "PostFormValue ''resource'' ex_exchange = []" "gor (rqPost ex_exchange) ''resource'' [] = []"
  "rqParseOK ex_exchange"
  by (simp_all add: ex_exchange_def ex_post_def FormValue_def PostFormValue_def gor_def firstValue_def)

lemma ex_exchanged:
  "\<exists>s'. HandleToken ex_world ex_exchange ex_server = (TokenResponse ex_token 60 ''t1'', s') \<and> s' \<noteq> ex_server"
proof -
  have v: "validateCodeVerifier ex_verifier" "verifySHA256Challenge id ex_verifier ex_verifier"
    by (simp_all add: validateCodeVerifier_def ex_verifier_def list_all_iff unreserved_def verifySHA256Challenge_def)
  have cfg: "cfRequireResourceIndicator ex_config = False" "cfAccessTokenTTL ex_config = 60 * second" by (simp_all add: ex_config_def)
  have w: "wH ex_world = id" "wNow ex_world = 0" "wLib ex_world = ex_lib" "wJTI ex_world = ''j''" "wFresh ex_world = ''t1''" by (simp_all add: ex_world_def)
  have i: "IssueAccessToken ex_lib 0 ''j'' ex_claims ''https://c'' (60 * second) ex_issuer = Inr ex_token" using ex_issued by (simp add: ex_issuer_def)
  have sec: "60 * second div second = 60" by (simp add: second_def)
  have c: "\<lparr>atSubject = ''alice'', atEmail = [], atDisplayName = [], atGroups = [''ops''], atGrants = [], atClientID = ''cli'', atExpiresAt = 0\<rparr> = ex_claims"
    by (simp add: ex_claims_def)
  show ?thesis
    by (simp add: HandleToken_def handleAuthorizationCodeGrant_def ex_exchange_form ex_server_def cfg w ex_effective Redeem_def Let_def
        ex_code_data_def v respondWithTokens_def c i IssueRefresh_def sec)
qed

theorem code_exchange_is_bound_witness: "\<exists>d. issuedFor ex_world ex_exchange ex_server ex_token d"
proof -
  obtain s' where "HandleToken ex_world ex_exchange ex_server = (TokenResponse ex_token 60 ''t1'', s')" using ex_exchanged by blast
  from code_exchange_is_bound [OF this ex_exchange_form(1)] show ?thesis by simp
qed




definition ex_user_identity :: identity where
  "ex_user_identity = \<lparr>idSubject = ''alice'', idDisplayName = [], idEmail = [], idGroups = [''ops''], idProvider = ''oidc'', idRaw = [],
     idExpiresAt = None, idClientID = []\<rparr>"

definition ex_authorize :: request where
  "ex_authorize = \<lparr>rqPost = [], rqQuery = [(''response_type'', [''code'']), (''client_id'', [''https://a'']), (''redirect_uri'', [''https://a/cb'']),
     (''code_challenge'', [ex_verifier]), (''code_challenge_method'', [''plain''])], rqParseOK = True, rqNonce = None, rqIdentity = Some ex_user_identity\<rparr>"

theorem codes_need_consent_witness:
  "redirectTarget (fst (handleAuthorizeGET ex_world ex_authorize ex_server)) = Some ''https://a/cb'' \<and>
   (\<exists>meta v. resolveClientMeta ex_world (QueryValue ''client_id'' ex_authorize) ex_server = Some (meta, v) \<and> HasRedirectURI meta ''https://a/cb'')"
proof -
  have "redirectTarget (fst (handleAuthorizeGET ex_world ex_authorize ex_server)) = Some ''https://a/cb''" by code_simp
  moreover have "handleAuthorizeGET ex_world ex_authorize ex_server =
      (fst (handleAuthorizeGET ex_world ex_authorize ex_server), snd (handleAuthorizeGET ex_world ex_authorize ex_server))" by simp
  ultimately show ?thesis using codes_need_consent [of ex_world ex_authorize ex_server] by blast
qed

end
