(* ===== verification/Sse.thy ===== *)
theory Sse
  imports History Go_Strings
begin

text \<open>
  The event stream, \<open>internal/api/sse/broadcaster.go\<close>: the broadcaster with its inbox and its clients, the loop that
  serves one client, and the replay of history to a client that reconnects. Each goroutine is a set of steps: \<open>Broadcast\<close>
  runs in the notifier, \<open>fanOut\<close> takes one event from the inbox, and a client's loop receives one queued event, ticks or leaves.
  The payload is not encoded: a frame is its id and its events. Deadlines, keepalives and metrics are left out.
\<close>

section \<open>Events and who hears them\<close>

datatype payload = PResource resource | PAnnotation annotation

record sseEvent =
  evType :: event_type
  evAction :: string
  evID :: string
  evName :: string
  evHistoryID :: nat
  evService :: string
  evStack :: string
  evResource :: "payload option"
  evPrevious :: "payload option"
  evTimestamp :: int
  evUntil :: int

definition zeroEvent :: sseEvent where
  "zeroEvent = \<lparr>evType = EventSync, evAction = [], evID = [], evName = [], evHistoryID = 0, evService = [], evStack = [],
     evResource = None, evPrevious = None, evTimestamp = 0, evUntil = 0\<rparr>"

definition asRemoval :: "sseEvent \<Rightarrow> sseEvent option" where
  "asRemoval e = (case evPrevious e of
     Some (PAnnotation previous) \<Rightarrow> if evType e \<noteq> EventAnnotation \<or> evAction e \<noteq> ''update'' then None
       else Some (e\<lparr>evAction := ''remove'', evResource := Some (PAnnotation previous), evPrevious := None\<rparr>)
   | _ \<Rightarrow> None)"

type_synonym event_match = "(sseEvent \<Rightarrow> bool) option"

definition admitted :: "event_match \<Rightarrow> sseEvent \<Rightarrow> sseEvent option" where
  "admitted m e = (case m of
     None \<Rightarrow> Some e
   | Some f \<Rightarrow> if f e then Some e
       else (case asRemoval e of None \<Rightarrow> None | Some removal \<Rightarrow> if f removal then Some removal else None))"

definition accepts :: "event_match \<Rightarrow> sseEvent \<Rightarrow> bool" where
  "accepts m e \<longleftrightarrow> admitted m e \<noteq> None"

record frameEvent =
  feEvent :: sseEvent
  feSync :: nat

section \<open>State\<close>

text \<open>A frame is the cursor in its id, and its events.\<close>

record sseFrame =
  sfID :: "nat \<times> nat"
  sfEvents :: "frameEvent list"

text \<open>A client, with the local variables of the loop that serves it and the frames it has been written.\<close>

record sseClient =
  scQueue :: "frameEvent list"
  scMatch :: event_match
  scOwner :: string
  scLagged :: bool
  scBatch :: "frameEvent list"
  scSkipBelow :: nat
  scSyncedThrough :: nat
  scFrames :: "sseFrame list"

definition MaxClients :: nat where "MaxClients = 256"
definition MaxClientsPerOwner :: nat where "MaxClientsPerOwner = MaxClients div 4"
definition inboxSize :: nat where "inboxSize = 256"
definition queueSize :: nat where "queueSize = 64"

record broadcaster =
  brClients :: "(nat, sseClient) kvs"
  brOwners :: "nat gomap"
  brClosed :: bool
  brInbox :: "frameEvent list"
  brReplay :: "history option"
  brEpoch :: string
  brLastSync :: "(nat \<times> nat) option"

definition NewBroadcaster :: "history option \<Rightarrow> string \<Rightarrow> broadcaster" where
  "NewBroadcaster replay epoch = \<lparr>brClients = [], brOwners = [], brClosed = False, brInbox = [], brReplay = replay,
     brEpoch = epoch, brLastSync = None\<rparr>"

section \<open>Broadcasting\<close>

definition mapClients :: "(sseClient \<Rightarrow> sseClient) \<Rightarrow> broadcaster \<Rightarrow> broadcaster" where
  "mapClients f b = b\<lparr>brClients := map (\<lambda>(k, c). (k, f c)) (brClients b)\<rparr>"

definition recordSync :: "nat \<Rightarrow> broadcaster \<Rightarrow> nat \<times> broadcaster" where
  "recordSync pos b = (let n = (case brLastSync b of None \<Rightarrow> 1 | Some (_, k) \<Rightarrow> k + 1) in (n, b\<lparr>brLastSync := Some (pos, n)\<rparr>))"

definition Broadcast :: "sseEvent \<Rightarrow> broadcaster \<Rightarrow> broadcaster" where
  "Broadcast e b = (case (if evType e = EventSync then recordSync (evHistoryID e) b else (0, b)) of (n, b') \<Rightarrow>
     if length (brInbox b') < inboxSize then b'\<lparr>brInbox := brInbox b' @ [\<lparr>feEvent = e, feSync = n\<rparr>]\<rparr>
     else mapClients (\<lambda>c. if accepts (scMatch c) e then c\<lparr>scLagged := True\<rparr> else c) b')"

definition deliver :: "frameEvent \<Rightarrow> sseClient \<Rightarrow> sseClient" where
  "deliver fe c = (case admitted (scMatch c) (feEvent fe) of
     None \<Rightarrow> c
   | Some heard \<Rightarrow> if length (scQueue c) < queueSize then c\<lparr>scQueue := scQueue c @ [fe\<lparr>feEvent := heard\<rparr>]\<rparr>
       else c\<lparr>scLagged := True\<rparr>)"

definition fanOut :: "broadcaster \<Rightarrow> broadcaster" where
  "fanOut b = (case brInbox b of [] \<Rightarrow> b | e # rest \<Rightarrow> mapClients (deliver e) (b\<lparr>brInbox := rest\<rparr>))"

definition replayPosition :: "broadcaster \<Rightarrow> nat" where
  "replayPosition b = (case brReplay b of None \<Rightarrow> 0 | Some h \<Rightarrow> hsCount h)"

definition syncEvent :: "nat \<Rightarrow> sseEvent" where
  "syncEvent i = zeroEvent\<lparr>evType := EventSync, evAction := ''full_sync'', evHistoryID := i\<rparr>"

definition syncFrame :: "broadcaster \<Rightarrow> frameEvent" where
  "syncFrame b = \<lparr>feEvent = syncEvent (replayPosition b), feSync = (case brLastSync b of None \<Rightarrow> 0 | Some (_, k) \<Rightarrow> k)\<rparr>"

text \<open>\<open>mark\<close> is \<open>lastSync\<close> as it was when \<open>needsSync\<close> loaded it.\<close>

definition needsSync :: "nat \<Rightarrow> nat \<Rightarrow> (nat \<times> nat) option \<Rightarrow> bool \<times> nat" where
  "needsSync afterID seen mark = (case mark of
     None \<Rightarrow> (False, 0)
   | Some (pos, k) \<Rightarrow> if seen > 0 then (seen \<noteq> k, k) else (pos \<ge> afterID, k))"

section \<open>Frames and cursors\<close>

text \<open>The id of a frame: the newest history position in it, and the number of the sync at that position, if there is one.\<close>

fun frameCursor :: "frameEvent list \<Rightarrow> nat \<times> nat \<Rightarrow> nat \<times> nat" where
  "frameCursor [] (maxID, synced) = (maxID, synced)"
| "frameCursor (e # es) (maxID, synced) = (let
      (m, s) = (if evHistoryID (feEvent e) > maxID then (evHistoryID (feEvent e), 0) else (maxID, synced));
      s' = (if evType (feEvent e) = EventSync \<and> evHistoryID (feEvent e) = m then feSync e else s)
    in frameCursor es (m, s'))"

definition writeFrame :: "frameEvent list \<Rightarrow> sseClient \<Rightarrow> sseClient" where
  "writeFrame es c = c\<lparr>scFrames := scFrames c @ [\<lparr>sfID = frameCursor es (0, 0), sfEvents = es\<rparr>]\<rparr>"

definition frameID :: "string \<Rightarrow> nat \<times> nat \<Rightarrow> string" where
  "frameID epoch cur = epoch @ ''-'' @ FormatUint (fst cur) @ (if snd cur > 0 then ''.'' @ FormatUint (snd cur) else [])"

definition EventID :: "nat \<Rightarrow> broadcaster \<Rightarrow> string" where
  "EventID historyID b = brEpoch b @ ''-'' @ FormatUint historyID"

definition cursor :: "string \<Rightarrow> broadcaster \<Rightarrow> (nat \<times> nat) option" where
  "cursor lastID b = (case CutPrefix lastID (brEpoch b @ ''-'') of (n, ok) \<Rightarrow>
     if \<not> ok then None
     else (case Cut n ''.'' of (n', sq, synced) \<Rightarrow>
       (case ParseUint n' of
          None \<Rightarrow> None
        | Some i \<Rightarrow> if \<not> synced then Some (i, 0)
            else (case ParseUint sq of None \<Rightarrow> None | Some seen \<Rightarrow> if seen = 0 then None else Some (i, seen)))))"

section \<open>Replay\<close>

definition replayEvent :: "historyEntry \<Rightarrow> sseEvent" where
  "replayEvent e = (case hAnnotation e of
     Some a \<Rightarrow> if hKind e = KindAnnotation
       then zeroEvent\<lparr>evType := EventAnnotation, evAction := hAction e, evID := hResourceID e, evResource := Some (PAnnotation a),
              evHistoryID := hID e, evPrevious := map_option PAnnotation (hPrevious e)\<rparr>
       else if hKind e = KindGap then zeroEvent\<lparr>evType := EventGap, evHistoryID := hID e, evTimestamp := hTimestamp e, evUntil := hUntil e\<rparr>
       else zeroEvent\<lparr>evType := the (hType e), evAction := hAction e, evID := hResourceID e, evName := hName e, evHistoryID := hID e,
              evService := hService e, evStack := hStack e\<rparr>
   | None \<Rightarrow> if hKind e = KindGap then zeroEvent\<lparr>evType := EventGap, evHistoryID := hID e, evTimestamp := hTimestamp e, evUntil := hUntil e\<rparr>
       else zeroEvent\<lparr>evType := the (hType e), evAction := hAction e, evID := hResourceID e, evName := hName e, evHistoryID := hID e,
              evService := hService e, evStack := hStack e\<rparr>)"

text \<open>\<open>ReplayAll\<close>, a single type, or no replay (\<open>\"\"\<close>).\<close>

datatype replay_type = ReplayNone | ReplayAll | ReplayType event_type

definition replayable :: "historyEntry \<Rightarrow> bool" where
  "replayable e \<longleftrightarrow> \<not> ((hKind e = KindAnnotation \<and> hAnnotation e = None) \<or> hRecovered e)"

definition replayed :: "replay_type \<Rightarrow> event_match \<Rightarrow> historyEntry \<Rightarrow> frameEvent option" where
  "replayed rt m e = (if \<not> replayable e then None
     else (let ev = replayEvent e in
       if (case rt of ReplayType t \<Rightarrow> evType ev \<noteq> t | _ \<Rightarrow> False) then None
       else map_option (\<lambda>ev'. \<lparr>feEvent = ev', feSync = 0\<rparr>) (admitted m ev)))"

definition writeSync :: "broadcaster \<Rightarrow> sseClient \<Rightarrow> sseClient" where
  "writeSync b c = (let f = syncFrame b in
     (writeFrame [f] c)\<lparr>scSkipBelow := evHistoryID (feEvent f), scSyncedThrough := feSync f\<rparr>)"

text \<open>
  The replay reads \<open>lastSync\<close> first and the history afterwards, without a lock across both: \<open>mark\<close> is the former as it was read, \<open>h\<close> and \<open>b\<close>
  are what the history and the broadcaster have become by then.
\<close>

definition replayEvents :: "string \<Rightarrow> replay_type \<Rightarrow> (nat \<times> nat) option \<Rightarrow> history \<Rightarrow> broadcaster \<Rightarrow> sseClient \<Rightarrow> sseClient" where
  "replayEvents lastID rt mark h b c = (if rt = ReplayNone then writeSync b c
     else (case cursor lastID b of
         None \<Rightarrow> writeSync b c
       | Some (afterID, seen) \<Rightarrow> (case needsSync afterID seen mark of (need, covered) \<Rightarrow>
           if need then writeSync b c
           else (case Since afterID h of (entries, complete) \<Rightarrow>
             if \<not> complete then writeSync b c
             else (let replay = List.map_filter (replayed rt (scMatch c)) entries in
               if replay = [] then c\<lparr>scSkipBelow := afterID, scSyncedThrough := covered\<rparr>
               else (writeFrame replay c)\<lparr>scSkipBelow := evHistoryID (feEvent (last replay)), scSyncedThrough := covered\<rparr>)))))"

section \<open>Serving a client\<close>

datatype serveResult = BroadcasterClosed | TooManyConnections | TooManyFromClient | HeadAnswered | Serving nat

definition newClient :: "event_match \<Rightarrow> string \<Rightarrow> sseClient" where
  "newClient m owner = \<lparr>scQueue = [], scMatch = m, scOwner = owner, scLagged = False, scBatch = [], scSkipBelow = 0,
     scSyncedThrough = 0, scFrames = []\<rparr>"

text \<open>The part of \<open>ServeSSE\<close> under the lock: the caps, and the registration of connection \<open>k\<close>.\<close>

definition admitClient :: "nat \<Rightarrow> bool \<Rightarrow> event_match \<Rightarrow> string \<Rightarrow> broadcaster \<Rightarrow> serveResult \<times> broadcaster" where
  "admitClient k head m owner b = (if brClosed b then (BroadcasterClosed, b)
     else if length (brClients b) \<ge> MaxClients then (TooManyConnections, b)
     else if gor (brOwners b) owner 0 \<ge> MaxClientsPerOwner then (TooManyFromClient, b)
     else if head then (HeadAnswered, b)
     else (Serving k, b\<lparr>brClients := gset (brClients b) k (newClient m owner),
       brOwners := gset (brOwners b) owner (gor (brOwners b) owner 0 + 1)\<rparr>))"

text \<open>The replay at the start of the stream.\<close>

definition openStream :: "string \<Rightarrow> replay_type \<Rightarrow> (nat \<times> nat) option \<Rightarrow> broadcaster \<Rightarrow> sseClient \<Rightarrow> sseClient" where
  "openStream lastID rt mark b c = (case brReplay b of
     None \<Rightarrow> c
   | Some h \<Rightarrow> if lastID = [] then c else replayEvents lastID rt mark h b c)"

text \<open>One event from the client's queue.\<close>

definition receive :: "sseClient \<Rightarrow> sseClient" where
  "receive c = (case scQueue c of
     [] \<Rightarrow> c
   | e # rest \<Rightarrow> (let c1 = c\<lparr>scQueue := rest\<rparr>;
        windowed = (scSkipBelow c > 0 \<and> evHistoryID (feEvent e) > 0 \<and> evType (feEvent e) \<noteq> EventSync)
      in if windowed \<and> evHistoryID (feEvent e) \<le> scSkipBelow c then c1
         else (let c2 = (if windowed then c1\<lparr>scSkipBelow := 0\<rparr> else c1) in
           if evType (feEvent e) = EventSync \<and> feSync e \<le> scSyncedThrough c then c2
           else c2\<lparr>scBatch := scBatch c @ [e]\<rparr>)))"

definition tick :: "broadcaster \<Rightarrow> sseClient \<Rightarrow> sseClient" where
  "tick b c = (if scLagged c
     then (let f = syncFrame b in
       (writeFrame [f] c)\<lparr>scLagged := False, scBatch := [], scSkipBelow := evHistoryID (feEvent f),
          scSyncedThrough := max (scSyncedThrough c) (feSync f)\<rparr>)
     else if scBatch c \<noteq> [] then (writeFrame (scBatch c) c)\<lparr>scBatch := []\<rparr>
     else c)"

definition finish :: "sseClient \<Rightarrow> sseClient" where
  "finish c = (if scBatch c \<noteq> [] \<and> \<not> scLagged c then writeFrame (scBatch c) c else c)"

text \<open>One slot less for an owner; the entry goes with the last one.\<close>

definition dropOwner :: "nat gomap \<Rightarrow> string \<Rightarrow> nat gomap" where
  "dropOwner m owner = (let n = gor m owner 0 - 1 in if n = 0 then gdel m owner else gset m owner n)"

definition leave :: "nat \<Rightarrow> broadcaster \<Rightarrow> broadcaster" where
  "leave k b = (case gget (brClients b) k of
     None \<Rightarrow> b
   | Some c \<Rightarrow> b\<lparr>brClients := gdel (brClients b) k, brOwners := dropOwner (brOwners b) (scOwner c)\<rparr>)"

definition CloseBroadcaster :: "broadcaster \<Rightarrow> broadcaster" where
  "CloseBroadcaster b = b\<lparr>brClosed := True\<rparr>"

end
