(* ===== verification/Sse_Run.thy ===== *)
theory Sse_Run
  imports Sse
begin

text \<open>
  Every interleaving of the notifier, the broadcaster's goroutine and the clients' loops, and what a client can rely on:
  its cursor never passes an event it should have heard unless that event, or a sync covering it, was written to it.
  The notifier records a change in the history and then broadcasts it, one change at a time, and a client may read the history in between; a
  resync is broadcast in one step.
\<close>

section \<open>The order of events\<close>

text \<open>
  The place of an event in the order of notification: changes are numbered by the history, and a sync comes after the change it was
  broadcast behind and after every earlier sync. Frame ids are such places, compared lexicographically.
\<close>

definition key :: "frameEvent \<Rightarrow> nat \<times> nat" where
  "key e = (evHistoryID (feEvent e), feSync e)"

definition isSync :: "frameEvent \<Rightarrow> bool" where
  "isSync e \<longleftrightarrow> evType (feEvent e) = EventSync"

lemma frameCursor_last:
  assumes "sorted_wrt (<) (map key es)" "\<forall>e \<in> set es. \<not> isSync e \<longrightarrow> feSync e = 0" "\<forall>e \<in> set es. (m, n) \<le> key e"
  shows "frameCursor es (m, n) = (if es = [] then (m, n) else key (last es))"
  using assms
proof (induction es arbitrary: m n)
  case (Cons e es)
  obtain i q where e: "evHistoryID (feEvent e) = i" "feSync e = q" by blast
  have k: "key e = (i, q)" by (simp add: key_def e)
  have "frameCursor (e # es) (m, n) = frameCursor es (i, q)"
  proof (cases "i > m")
    case True
    then show ?thesis using Cons.prems(2) by (auto simp: e isSync_def)
  next
    case False
    then have "i = m" "n \<le> q" using Cons.prems(3) k by (auto simp: less_eq_prod_def less_prod_def)
    then show ?thesis using Cons.prems(2) by (auto simp: e isSync_def)
  qed
  also have "\<dots> = (if es = [] then (i, q) else key (last es))"
    using Cons.prems k by (intro Cons.IH) (auto simp: less_imp_le)
  finally show ?case using k by simp
qed simp

section \<open>What a client was told\<close>

definition told :: "sseClient \<Rightarrow> nat \<times> nat \<Rightarrow> bool" where
  "told c p \<longleftrightarrow> (\<exists>f \<in> set (scFrames c). \<exists>e \<in> set (sfEvents f). key e = p \<or> isSync e \<and> p \<le> key e)"

definition position :: "sseClient \<Rightarrow> nat \<times> nat \<Rightarrow> nat \<times> nat" where
  "position c base = (if scFrames c = [] then base else sfID (last (scFrames c)))"

abbreviation hears :: "sseClient \<Rightarrow> frameEvent \<Rightarrow> bool" where
  "hears c x \<equiv> accepts (scMatch c) (feEvent x)"

lemma told_writeFrame:
  "told (writeFrame es c) p \<longleftrightarrow> told c p \<or> (\<exists>e \<in> set es. key e = p \<or> isSync e \<and> p \<le> key e)"
  by (auto simp: told_def writeFrame_def)

lemma told_frames: "scFrames c' = scFrames c \<Longrightarrow> told c' = told c"
  by (simp add: told_def fun_eq_iff)

section \<open>What the history keeps of an event\<close>

text \<open>
  Of an event the history keeps everything but the resource, and what the resource replaced; of an annotation's it keeps both.
\<close>

definition keptEvent :: "sseEvent \<Rightarrow> sseEvent" where
  "keptEvent e = (if evType e = EventAnnotation then e else e\<lparr>evResource := None, evPrevious := None\<rparr>)"

text \<open>
  A stream whose filter admits of what the history keeps of an event all it admits of the event, and whose replay has the types its filter
  admits. The streams that are replayed are like that (\<open>TypeMatcher\<close>, \<open>ServiceListMatcher\<close>, \<open>TypesFilter\<close>, and the access control on top
  of them: \<open>replayed_streams_fit\<close> in \<open>Sse_Wire\<close>); the others are served without replay, and a client that reconnects to them gets a sync.
\<close>

definition replay_fits :: "replay_type \<Rightarrow> event_match \<Rightarrow> bool" where
  "replay_fits rt m \<longleftrightarrow> rt = ReplayNone \<or> ((\<forall>e. accepts m e \<longrightarrow> accepts m (keptEvent e)) \<and>
     (\<forall>t e. rt = ReplayType t \<longrightarrow> accepts m e \<longrightarrow> evType e = t \<or> evType e = EventSync))"

section \<open>Runs\<close>

text \<open>
  \<open>stDue\<close> is the change recorded but not yet broadcast, \<open>stLog\<close> everything notified, \<open>stEntries\<close> the history's entries, \<open>stIssued\<close> the
  frame ids written, \<open>stBase\<close> where each connection starts, \<open>stOpen\<close> the connections past their replay. A replay takes two steps:
  \<open>peek\<close> reads the newest sync into \<open>stMark\<close>, \<open>resume\<close> reads the history and writes; \<open>stMissed\<close> has the numbers of the syncs that were broadcast
  between the two. A tick of a client's loop is one step, and so is the making of a sync's frame.
\<close>

record stream =
  stB :: broadcaster
  stDue :: "frameEvent list"
  stLog :: "frameEvent list"
  stEntries :: "historyEntry list"
  stIssued :: "(nat \<times> nat) set"
  stBase :: "nat \<Rightarrow> nat \<times> nat"
  stOpen :: "nat set"
  stMark :: "nat \<Rightarrow> (nat \<times> nat) option option"
  stMissed :: "nat \<Rightarrow> nat set"

definition setClient :: "nat \<Rightarrow> sseClient \<Rightarrow> stream \<Rightarrow> stream" where
  "setClient k c s = s\<lparr>stB := (stB s)\<lparr>brClients := gset (brClients (stB s)) k c\<rparr>, stIssued := stIssued s \<union> sfID ` set (scFrames c)\<rparr>"

definition markNo :: "(nat \<times> nat) option \<Rightarrow> nat" where
  "markNo mark = (case mark of None \<Rightarrow> 0 | Some (_, n) \<Rightarrow> n)"

inductive sse_run :: "stream \<Rightarrow> bool" where
  start: "recorded n h lg \<Longrightarrow> sse_run \<lparr>stB = NewBroadcaster (Some h) epoch, stDue = [], stLog = [], stEntries = lg, stIssued = {},
     stBase = (\<lambda>_. (0, 0)), stOpen = {}, stMark = (\<lambda>_. None), stMissed = (\<lambda>_. {})\<rparr>"
| change: "sse_run s \<Longrightarrow> brReplay (stB s) = Some h \<Longrightarrow> stDue s = [] \<Longrightarrow> gap_clean e \<Longrightarrow>
     evType ev \<noteq> EventSync \<Longrightarrow> keptEvent ev = replayEvent (appended now e h) \<Longrightarrow> replayable (appended now e h) \<Longrightarrow>
     sse_run (s\<lparr>stB := (stB s)\<lparr>brReplay := Some (snd (Append now e h))\<rparr>, stDue := [\<lparr>feEvent = ev, feSync = 0\<rparr>],
       stLog := stLog s @ [\<lparr>feEvent = ev, feSync = 0\<rparr>], stEntries := stEntries s @ [appended now e h]\<rparr>)"
| recover: "sse_run s \<Longrightarrow> brReplay (stB s) = Some h \<Longrightarrow> stDue s = [] \<Longrightarrow> gap_clean e \<Longrightarrow>
     sse_run (s\<lparr>stB := (stB s)\<lparr>brReplay := Some (snd (Append now e h))\<rparr>, stEntries := stEntries s @ [appended now e h]\<rparr>)"
| dispatch: "sse_run s \<Longrightarrow> stDue s = [x] \<Longrightarrow> sse_run (s\<lparr>stB := Broadcast (feEvent x) (stB s), stDue := []\<rparr>)"
| resync: "sse_run s \<Longrightarrow> stDue s = [] \<Longrightarrow> evType ev = EventSync \<Longrightarrow> evHistoryID ev = replayPosition (stB s) \<Longrightarrow>
     sse_run (s\<lparr>stB := Broadcast ev (stB s), stLog := stLog s @ [\<lparr>feEvent = ev, feSync = fst (recordSync (evHistoryID ev) (stB s))\<rparr>]\<rparr>)"
| fan: "sse_run s \<Longrightarrow> sse_run (s\<lparr>stB := fanOut (stB s)\<rparr>)"
| connect: "sse_run s \<Longrightarrow> gget (brClients (stB s)) k = None \<Longrightarrow> admitClient k False m owner (stB s) = (Serving k, b') \<Longrightarrow>
     sse_run (s\<lparr>stB := b', stBase := (stBase s)(k := key (syncFrame (stB s))), stOpen := stOpen s - {k}, stMark := (stMark s)(k := None),
       stMissed := (stMissed s)(k := {})\<rparr>)"
| fresh: "sse_run s \<Longrightarrow> sse_run (s\<lparr>stOpen := insert k (stOpen s)\<rparr>)"
| peek: "sse_run s \<Longrightarrow> k \<notin> stOpen s \<Longrightarrow> sse_run (s\<lparr>stMark := (stMark s)(k := Some (brLastSync (stB s)))\<rparr>)"
| resume: "sse_run s \<Longrightarrow> gget (brClients (stB s)) k = Some c \<Longrightarrow> k \<notin> stOpen s \<Longrightarrow> stMark s k = Some mark \<Longrightarrow> lastID \<noteq> [] \<Longrightarrow>
     \<forall>p. cursor lastID (stB s) = Some p \<longrightarrow> p \<in> stIssued s \<Longrightarrow> replay_fits rt (scMatch c) \<Longrightarrow>
     sse_run (setClient k (openStream lastID rt mark (stB s) c) (s\<lparr>stOpen := insert k (stOpen s),
       stBase := (stBase s)(k := (case cursor lastID (stB s) of None \<Rightarrow> stBase s k | Some p \<Rightarrow> p)),
       stMissed := (stMissed s)(k := {n. markNo mark < n \<and> n \<le> snd (key (syncFrame (stB s)))})\<rparr>))"
| receive: "sse_run s \<Longrightarrow> gget (brClients (stB s)) k = Some c \<Longrightarrow> k \<in> stOpen s \<Longrightarrow> sse_run (setClient k (receive c) s)"
| tick: "sse_run s \<Longrightarrow> gget (brClients (stB s)) k = Some c \<Longrightarrow> k \<in> stOpen s \<Longrightarrow> sse_run (setClient k (tick (stB s) c) s)"
| leave: "sse_run s \<Longrightarrow> gget (brClients (stB s)) k = Some c \<Longrightarrow>
     sse_run (s\<lparr>stB := leave k (stB s), stIssued := stIssued s \<union> sfID ` set (scFrames (finish c)), stOpen := stOpen s - {k}\<rparr>)"
| close: "sse_run s \<Longrightarrow> sse_run (s\<lparr>stB := CloseBroadcaster (stB s)\<rparr>)"

section \<open>The invariant\<close>

definition top :: "broadcaster \<Rightarrow> nat \<times> nat" where
  "top b = key (syncFrame b)"

definition pipeline :: "stream \<Rightarrow> sseClient \<Rightarrow> frameEvent list" where
  "pipeline s c = scBatch c @ scQueue c @ brInbox (stB s) @ stDue s"

text \<open>Events in transit: in order, none twice, each one notified.\<close>

definition in_order :: "frameEvent list \<Rightarrow> frameEvent list \<Rightarrow> bool" where
  "in_order L es \<longleftrightarrow> sorted_wrt (<) (map key es) \<and> key ` set es \<subseteq> key ` set L \<and> (\<forall>e \<in> set es. isSync e = (feSync e > 0))"

definition client_ok :: "stream \<Rightarrow> nat set \<Rightarrow> nat \<times> nat \<Rightarrow> sseClient \<Rightarrow> bool" where
  "client_ok s mi base c \<longleftrightarrow> in_order (stLog s) (pipeline s c) \<and> position c base \<le> top (stB s) \<and>
     scSkipBelow c \<le> fst (top (stB s)) \<and> scSyncedThrough c \<le> snd (top (stB s)) \<and>
     sfID ` set (scFrames c) \<subseteq> stIssued s \<and>
     (\<forall>x \<in> set (stLog s). hears c x \<and> base < key x \<longrightarrow>
        (\<not> scLagged c \<longrightarrow> told c (key x) \<or> key x \<in> key ` set (pipeline s c)) \<and>
        (key x \<le> position c base \<longrightarrow> feSync x \<notin> mi \<longrightarrow> told c (key x)) \<and>
        ((if isSync x then feSync x \<le> scSyncedThrough c else evHistoryID (feEvent x) \<le> scSkipBelow c) \<longrightarrow> told c (key x)))"

definition honest :: "stream \<Rightarrow> nat \<times> nat \<Rightarrow> bool" where
  "honest s p \<longleftrightarrow> fst p \<le> fst (top (stB s)) \<and> snd p \<le> snd (top (stB s)) \<and>
     (snd p > 0 \<longrightarrow> (\<forall>x \<in> set (stLog s). isSync x \<and> feSync x \<le> snd p \<longrightarrow> key x \<le> p))"

definition inHistory :: "historyEntry list \<Rightarrow> frameEvent \<Rightarrow> bool" where
  "inHistory lg x \<longleftrightarrow> (\<exists>e \<in> set lg. hID e = evHistoryID (feEvent x) \<and> keptEvent (feEvent x) = replayEvent e \<and> replayable e)"

lemma inHistory_append: "inHistory lg x \<Longrightarrow> inHistory (lg @ lg') x"
  by (auto simp: inHistory_def)

definition log_ok :: "stream \<Rightarrow> bool" where
  "log_ok s \<longleftrightarrow> (\<exists>n h. brReplay (stB s) = Some h \<and> recorded n h (stEntries s)) \<and>
     in_order (stLog s) (stLog s) \<and>
     (\<forall>x \<in> set (stLog s). evHistoryID (feEvent x) \<le> fst (top (stB s)) \<and> feSync x \<le> snd (top (stB s)) \<and>
        (\<not> isSync x \<longrightarrow> inHistory (stEntries s) x) \<and>
        (isSync x \<longrightarrow> (\<exists>q k. brLastSync (stB s) = Some (q, k) \<and> evHistoryID (feEvent x) \<le> q))) \<and>
     (\<forall>x \<in> set (stLog s). \<forall>y \<in> set (stLog s). isSync x \<and> isSync y \<and> feSync x \<le> feSync y \<longrightarrow> key x \<le> key y) \<and>
     (\<forall>q k. brLastSync (stB s) = Some (q, k) \<longrightarrow> q \<le> fst (top (stB s)) \<and> k > 0) \<and>
     (stDue s = [] \<or> (\<exists>x. stDue s = [x] \<and> \<not> isSync x \<and> feSync x = 0))"

definition stream_ok :: "stream \<Rightarrow> bool" where
  "stream_ok s \<longleftrightarrow> log_ok s \<and> in_order (stLog s) (brInbox (stB s) @ stDue s) \<and>
     set (brInbox (stB s) @ stDue s) \<subseteq> set (stLog s) \<and> (\<forall>p \<in> stIssued s. honest s p) \<and>
     (\<forall>k c. gget (brClients (stB s)) k = Some c \<longrightarrow> client_ok s (stMissed s k) (stBase s k) c)"

lemma top_eq: "top b = (replayPosition b, case brLastSync b of None \<Rightarrow> 0 | Some (_, k) \<Rightarrow> k)"
  by (simp add: top_def key_def syncFrame_def syncEvent_def)

lemma log_okD:
  assumes "log_ok s"
  shows "\<exists>n h. brReplay (stB s) = Some h \<and> recorded n h (stEntries s)" "in_order (stLog s) (stLog s)"
    "\<And>x. x \<in> set (stLog s) \<Longrightarrow> evHistoryID (feEvent x) \<le> fst (top (stB s)) \<and> feSync x \<le> snd (top (stB s)) \<and>
        (\<not> isSync x \<longrightarrow> inHistory (stEntries s) x) \<and>
        (isSync x \<longrightarrow> (\<exists>q k. brLastSync (stB s) = Some (q, k) \<and> evHistoryID (feEvent x) \<le> q))"
    "\<And>x y. x \<in> set (stLog s) \<Longrightarrow> y \<in> set (stLog s) \<Longrightarrow> isSync x \<Longrightarrow> isSync y \<Longrightarrow> feSync x \<le> feSync y \<Longrightarrow> key x \<le> key y"
    "\<And>q k. brLastSync (stB s) = Some (q, k) \<Longrightarrow> q \<le> fst (top (stB s)) \<and> k > 0"
  using assms unfolding log_ok_def by blast+

lemma log_top: "log_ok s \<Longrightarrow> x \<in> set (stLog s) \<Longrightarrow> key x \<le> top (stB s)"
  unfolding log_ok_def key_def by (auto simp: less_eq_prod_def less_prod_def)


section \<open>Lemmas for the steps\<close>

definition top_grows :: "broadcaster \<Rightarrow> broadcaster \<Rightarrow> bool" where
  "top_grows b b' \<longleftrightarrow> fst (top b) \<le> fst (top b') \<and> snd (top b) \<le> snd (top b')"

lemma top_grows_refl [simp]: "top_grows b b"
  by (simp add: top_grows_def)

lemma top_grows_le: "top_grows b b' \<Longrightarrow> p \<le> top b \<Longrightarrow> p \<le> top b'"
  unfolding top_grows_def by (cases p; cases "top b"; cases "top b'") (auto simp: less_eq_prod_def less_prod_def)

lemma pair_le: "fst p \<le> fst q \<Longrightarrow> snd p \<le> snd q \<Longrightarrow> p \<le> (q :: nat \<times> nat)"
  by (cases p; cases q) (auto simp: less_eq_prod_def less_prod_def)

lemma client_okD:
  assumes "client_ok s mi base c"
  shows "in_order (stLog s) (pipeline s c)" "position c base \<le> top (stB s)" "scSkipBelow c \<le> fst (top (stB s))"
    "scSyncedThrough c \<le> snd (top (stB s))"
    and "\<And>x. x \<in> set (stLog s) \<Longrightarrow> hears c x \<Longrightarrow> base < key x \<Longrightarrow> \<not> scLagged c \<Longrightarrow> told c (key x) \<or> key x \<in> key ` set (pipeline s c)"
    and "\<And>x. x \<in> set (stLog s) \<Longrightarrow> hears c x \<Longrightarrow> base < key x \<Longrightarrow> key x \<le> position c base \<Longrightarrow> feSync x \<notin> mi \<Longrightarrow> told c (key x)"
    and "\<And>x. x \<in> set (stLog s) \<Longrightarrow> hears c x \<Longrightarrow> base < key x \<Longrightarrow>
      (if isSync x then feSync x \<le> scSyncedThrough c else evHistoryID (feEvent x) \<le> scSkipBelow c) \<Longrightarrow> told c (key x)"
    and "sfID ` set (scFrames c) \<subseteq> stIssued s"
  using assms unfolding client_ok_def by blast+

text \<open>A client that has been told everything so far.\<close>

lemma client_all_told:
  assumes "in_order (stLog s) (pipeline s c)" "position c base \<le> top (stB s)" "scSkipBelow c \<le> fst (top (stB s))"
    "scSyncedThrough c \<le> snd (top (stB s))" "\<And>x. x \<in> set (stLog s) \<Longrightarrow> hears c x \<Longrightarrow> base < key x \<Longrightarrow> told c (key x)"
    "sfID ` set (scFrames c) \<subseteq> stIssued s"
  shows "client_ok s mi base c"
  using assms unfolding client_ok_def by blast

text \<open>A step that notifies nothing new, and takes nothing out of the pipeline that the client still has to be told.\<close>

lemma client_shrink:
  assumes "client_ok s mi base c" "stLog s' = stLog s" "top_grows (stB s) (stB s')" "in_order (stLog s) (pipeline s' c')"
    "scFrames c' = scFrames c" "scMatch c' = scMatch c" "scSkipBelow c' \<le> scSkipBelow c" "scSyncedThrough c' = scSyncedThrough c"
    "\<not> scLagged c' \<Longrightarrow> \<not> scLagged c"
    "\<And>x. x \<in> set (stLog s) \<Longrightarrow> hears c x \<Longrightarrow> base < key x \<Longrightarrow> \<not> scLagged c' \<Longrightarrow> key x \<in> key ` set (pipeline s c) \<Longrightarrow>
       told c (key x) \<or> key x \<in> key ` set (pipeline s' c')"
    "stIssued s \<subseteq> stIssued s'"
  shows "client_ok s' mi base c'"
proof -
  note D = client_okD [OF assms(1)]
  have t: "told c' = told c" "position c' = position c" using told_frames [OF assms(5)] assms(5) by (simp_all add: position_def fun_eq_iff)
  show ?thesis unfolding client_ok_def
  proof (intro conjI ballI impI)
    show "in_order (stLog s') (pipeline s' c')" using assms(2,4) by simp
    show "position c' base \<le> top (stB s')" using top_grows_le [OF assms(3) D(2)] t by simp
    show "scSkipBelow c' \<le> fst (top (stB s'))" "scSyncedThrough c' \<le> snd (top (stB s'))"
      using D(3,4) assms(3,7,8) by (auto simp: top_grows_def)
    show "sfID ` set (scFrames c') \<subseteq> stIssued s'" using D(8) assms(5,11) by auto
  next
    fix x assume x: "x \<in> set (stLog s')" "hears c' x \<and> base < key x"
    then have x': "x \<in> set (stLog s)" "hears c x" "base < key x" using assms(2,6) by auto
    show "told c' (key x) \<or> key x \<in> key ` set (pipeline s' c')" if "\<not> scLagged c'"
      using D(5) [OF x' assms(9) [OF that]] assms(10) [OF x' that] t by auto
    show "told c' (key x)" if "key x \<le> position c' base" "feSync x \<notin> mi" using D(6) [OF x'] that t by simp
    show "told c' (key x)" if "if isSync x then feSync x \<le> scSyncedThrough c' else evHistoryID (feEvent x) \<le> scSkipBelow c'"
      using D(7) [OF x'] that assms(7,8) t by (auto split: if_splits)
  qed
qed

text \<open>A step that notifies one more event, behind everything else, and keeps it in the pipeline or marks the client.\<close>

lemma client_extend:
  assumes "client_ok s mi base c" "stLog s' = stLog s @ [x]" "top_grows (stB s) (stB s')" "in_order (stLog s') (pipeline s' c')"
    "scFrames c' = scFrames c" "scMatch c' = scMatch c" "scSkipBelow c' = scSkipBelow c" "scSyncedThrough c' = scSyncedThrough c"
    "\<not> scLagged c' \<Longrightarrow> \<not> scLagged c" "key ` set (pipeline s c) \<subseteq> key ` set (pipeline s' c')"
    "hears c x \<Longrightarrow> \<not> scLagged c' \<Longrightarrow> key x \<in> key ` set (pipeline s' c')"
    "top (stB s) < key x" "if isSync x then snd (top (stB s)) < feSync x else fst (top (stB s)) < evHistoryID (feEvent x)"
    "stIssued s \<subseteq> stIssued s'"
  shows "client_ok s' mi base c'"
proof -
  note D = client_okD [OF assms(1)]
  have t: "told c' = told c" "position c' = position c" using told_frames [OF assms(5)] assms(5) by (simp_all add: position_def fun_eq_iff)
  show ?thesis unfolding client_ok_def
  proof (intro conjI ballI impI)
    show "in_order (stLog s') (pipeline s' c')" by (rule assms(4))
    show "position c' base \<le> top (stB s')" using top_grows_le [OF assms(3) D(2)] t by simp
    show "scSkipBelow c' \<le> fst (top (stB s'))" "scSyncedThrough c' \<le> snd (top (stB s'))"
      using D(3,4) assms(3,7,8) by (auto simp: top_grows_def)
    show "sfID ` set (scFrames c') \<subseteq> stIssued s'" using D(8) assms(5,14) by auto
  next
    fix y assume y: "y \<in> set (stLog s')" "hears c' y \<and> base < key y"
    then have hy: "hears c y" "base < key y" using assms(6) by auto
    have new: "\<not> key x \<le> position c base" using D(2) assms(12) by (meson leD le_less_trans)
    show "told c' (key y) \<or> key y \<in> key ` set (pipeline s' c')" if l: "\<not> scLagged c'"
      using y(1) assms(2) D(5) [OF _ hy assms(9) [OF l]] assms(10) assms(11) [OF _ l] hy t by auto
    show "told c' (key y)" if "key y \<le> position c' base" "feSync y \<notin> mi"
      using y(1) assms(2) D(6) [OF _ hy] new that t by auto
    show "told c' (key y)" if "if isSync y then feSync y \<le> scSyncedThrough c' else evHistoryID (feEvent y) \<le> scSkipBelow c'"
      using y(1) assms(2,7,8,13) D(3,4) D(7) [OF _ hy] that t by (auto split: if_splits)
  qed
qed

lemma subseq_before [simp]: "subseq es (es @ fs)"
  using list_emb_append_mono [of "(=)" es es "[]" fs] by simp

lemma in_order_sub: "in_order L es \<Longrightarrow> subseq es' es \<Longrightarrow> in_order L es'"
  unfolding in_order_def
  using subseq_sorted_wrt [of "map key es'" "map key es"] subseq_set [of es' es] subseq_map [of es' es key] by fastforce

lemma in_order_grow: "in_order L es \<Longrightarrow> set L \<subseteq> set L' \<Longrightarrow> in_order L' es"
  unfolding in_order_def by blast

lemma in_order_snoc:
  assumes "in_order L es" "\<forall>y \<in> set L. key y < key x" "isSync x = (feSync x > 0)"
  shows "in_order (L @ [x]) (es @ [x])"
proof -
  have "key e < key x" if "e \<in> set es" for e
  proof -
    have "key e \<in> key ` set L" using assms(1) that by (auto simp: in_order_def)
    then obtain y where "y \<in> set L" "key e = key y" by blast
    then show ?thesis using assms(2) by simp
  qed
  then show ?thesis using assms unfolding in_order_def by (auto simp: sorted_wrt_append)
qed

text \<open>An event whose key is not beyond the end of a prefix of an ordered list lies in that prefix.\<close>

lemma in_order_prefix:
  assumes "in_order L (es @ fs)" "es \<noteq> []" "p \<in> key ` set (es @ fs)" "p \<le> key (last es)"
  shows "p \<in> key ` set es"
proof (rule ccontr)
  assume n: "p \<notin> key ` set es"
  then obtain e where e: "e \<in> set fs" "p = key e" using assms(3) by auto
  have "key (last es) < key e" using assms(1,2) e(1) unfolding in_order_def by (auto simp: sorted_wrt_append)
  then show False using assms(4) e(2) by (simp add: leD)
qed

lemma frame_position:
  assumes "in_order L es" "es \<noteq> []"
  shows "frameCursor es (0, 0) = key (last es)"
  using frameCursor_last [of es 0 0] assms by (auto simp: in_order_def less_eq_prod_def less_prod_def)

lemma sync_position: "frameCursor [syncFrame b] (0, 0) = top b"
  using frameCursor_last [of "[syncFrame b]" 0 0]
  by (auto simp: top_def isSync_def syncFrame_def syncEvent_def less_eq_prod_def less_prod_def)

lemma isSync_syncFrame [simp]: "isSync (syncFrame b)"
  by (simp add: isSync_def syncFrame_def syncEvent_def)


section \<open>Each step keeps the invariant\<close>

lemma stream_okD:
  assumes "stream_ok s"
  shows "log_ok s" "in_order (stLog s) (brInbox (stB s) @ stDue s)" "set (brInbox (stB s) @ stDue s) \<subseteq> set (stLog s)" "\<And>p. p \<in> stIssued s \<Longrightarrow> honest s p"
    and "\<And>k c. gget (brClients (stB s)) k = Some c \<Longrightarrow> client_ok s (stMissed s k) (stBase s k) c"
  using assms unfolding stream_ok_def by blast+

lemma top_cong: "brReplay b' = brReplay b \<Longrightarrow> brLastSync b' = brLastSync b \<Longrightarrow> top b' = top b"
  by (simp add: top_eq replayPosition_def)

lemma log_ok_frame:
  assumes "log_ok s" "brReplay (stB s') = brReplay (stB s)" "brLastSync (stB s') = brLastSync (stB s)" "stLog s' = stLog s"
    "stEntries s' = stEntries s" "stDue s' = stDue s \<or> stDue s' = []"
  shows "log_ok s'"
  using assms top_cong [OF assms(2,3)] unfolding log_ok_def by auto

lemma honest_frame:
  assumes "honest s p" "top (stB s') = top (stB s)" "stLog s' = stLog s"
  shows "honest s' p"
  using assms by (simp add: honest_def)

lemma honest_grow:
  assumes "honest s p" "top_grows (stB s) (stB s')" "\<forall>x \<in> set (stLog s') - set (stLog s). isSync x \<longrightarrow> snd (top (stB s)) < feSync x"
  shows "honest s' p"
proof -
  have "key x \<le> p" if "x \<in> set (stLog s')" "isSync x" "feSync x \<le> snd p" "snd p > 0" for x
  proof (cases "x \<in> set (stLog s)")
    case False
    then show ?thesis using assms that by (auto simp: honest_def)
  qed (use assms(1) that in \<open>auto simp: honest_def\<close>)
  then show ?thesis using assms(1,2) by (auto simp: honest_def top_grows_def)
qed

text \<open>Steps of the server's side, which change no client's frames: what they do to each client.\<close>

lemma gget_mapClients: "gget (brClients (mapClients f b)) k = map_option f (gget (brClients b) k)"
  by (simp add: mapClients_def gget_map_snd)

lemma mapClients_fields [simp]:
  "brInbox (mapClients f b) = brInbox b" "brReplay (mapClients f b) = brReplay b" "brLastSync (mapClients f b) = brLastSync b"
  by (simp_all add: mapClients_def)

lemma log_key_inj:
  assumes "log_ok s" "x \<in> set (stLog s)" "y \<in> set (stLog s)" "key x = key y"
  shows "x = y"
proof -
  have "distinct (map key (stLog s))"
    using assms(1) unfolding log_ok_def in_order_def by (metis strict_sorted_iff)
  then show ?thesis using assms(2-4) by (simp add: distinct_map inj_on_def)
qed

lemma admitted_key:
  assumes "admitted m e = Some e'"
  shows "evHistoryID e' = evHistoryID e" "evType e' = evType e"
  using assms by (auto simp: admitted_def asRemoval_def split: option.splits if_splits payload.splits)

lemma deliver_keeps [simp]:
  "scFrames (deliver e c) = scFrames c" "scMatch (deliver e c) = scMatch c" "scSkipBelow (deliver e c) = scSkipBelow c"
  "scSyncedThrough (deliver e c) = scSyncedThrough c" "scBatch (deliver e c) = scBatch c"
  by (simp_all add: deliver_def split: option.split)

text \<open>The keys in the queue after a delivery: unchanged, or the event's behind the others.\<close>

lemma deliver_queue:
  obtains "\<not> accepts (scMatch c) (feEvent e)" "deliver e c = c"
  | q where "deliver e c = c\<lparr>scQueue := scQueue c @ [q]\<rparr>" "key q = key e" "isSync q = isSync e" "feSync q = feSync e"
  | "deliver e c = c\<lparr>scLagged := True\<rparr>"
proof (cases "admitted (scMatch c) (feEvent e)")
  case (Some h)
  then show ?thesis using that(2) [of "e\<lparr>feEvent := h\<rparr>"] that(3) admitted_key [OF Some]
    by (cases "length (scQueue c) < queueSize") (auto simp: deliver_def key_def isSync_def)
qed (use that(1) in \<open>simp add: deliver_def accepts_def\<close>)

lemma in_order_keys:
  assumes "in_order L es" "map key es' = map key es" "map isSync es' = map isSync es"
  shows "in_order L es'"
proof -
  have "\<exists>e \<in> set es. key e' = key e \<and> isSync e' = isSync e" if e': "e' \<in> set es'" for e'
  proof -
    obtain i where i: "i < length es'" "e' = es' ! i" using e' unfolding in_set_conv_nth by blast
    have l: "length es = length es'" using assms(2) by (metis length_map)
    have "key (es' ! i) = key (es ! i)" using arg_cong [OF assms(2), of "\<lambda>l. l ! i"] i(1) l by simp
    moreover have "isSync (es' ! i) = isSync (es ! i)" using arg_cong [OF assms(3), of "\<lambda>l. l ! i"] i(1) l by simp
    moreover have "es ! i \<in> set es" using i(1) l by simp
    ultimately show ?thesis using i(2) by blast
  qed
  moreover have "key ` set es' = key ` set es" using assms(2) by (metis set_map)
  moreover have "isSync e' = (feSync e' > 0)" if e': "e' \<in> set es'" for e'
  proof -
    obtain e where "e \<in> set es" "key e' = key e" "isSync e' = isSync e" using calculation(1) [OF e'] by blast
    then show ?thesis using assms(1) by (auto simp: in_order_def key_def)
  qed
  ultimately show ?thesis using assms(1,2) unfolding in_order_def by simp
qed


lemma client_ok_deliver:
  assumes s: "stream_ok s" and I: "brInbox (stB s) = e # rest" and c: "client_ok s mi base c"
    and s': "stLog s' = stLog s" "top_grows (stB s) (stB s')" "brInbox (stB s') = rest" "stDue s' = stDue s" "stIssued s' = stIssued s"
  shows "client_ok s' mi base (deliver e c)"
proof -
  note S = stream_okD [OF s]
  have e: "e \<in> set (stLog s)" using S(3) I by simp
  note ord = client_okD(1) [OF c]
  have P: "pipeline s c = scBatch c @ scQueue c @ e # rest @ stDue s" by (simp add: pipeline_def I)
  have shorter: "in_order (stLog s) (scBatch c @ scQueue c @ rest @ stDue s)"
    using in_order_sub [OF ord [unfolded P]] by (simp add: list_emb_append_mono subseq_Cons')
  show ?thesis
  proof (cases e c rule: deliver_queue)
    case 1
    have "key x \<noteq> key e" if "x \<in> set (stLog s)" "hears c x" for x
      using log_key_inj [OF S(1) that(1) e] that(2) 1(1) by auto
    then show ?thesis using shorter 1(2) s' by (intro client_shrink [OF c]) (auto simp: pipeline_def I)
  next
    case (2 q)
    have m: "pipeline s' (deliver e c) = scBatch c @ scQueue c @ q # rest @ stDue s" using 2(1) s' by (simp add: pipeline_def)
    have "in_order (stLog s) (pipeline s' (deliver e c))"
      by (rule in_order_keys [OF ord]) (simp_all add: m P 2(2,3))
    then show ?thesis using s' 2 by (intro client_shrink [OF c]) (auto simp: m [unfolded 2(1)] P)
  next
    case 3
    then show ?thesis using shorter s' by (intro client_shrink [OF c]) (auto simp: pipeline_def)
  qed
qed

lemma stream_ok_fan:
  assumes "stream_ok s"
  shows "stream_ok (s\<lparr>stB := fanOut (stB s)\<rparr>)" (is "stream_ok ?s")
proof (cases "brInbox (stB s)")
  case Nil
  then show ?thesis using assms by (simp add: fanOut_def)
next
  case (Cons e rest)
  note S = stream_okD [OF assms]
  let ?b = "mapClients (deliver e) ((stB s)\<lparr>brInbox := rest\<rparr>)"
  have b: "fanOut (stB s) = ?b" by (simp add: fanOut_def Cons)
  have top: "top ?b = top (stB s)" by (rule top_cong) simp_all
  show ?thesis unfolding stream_ok_def
  proof (intro conjI ballI allI impI)
    show "log_ok ?s" by (rule log_ok_frame [OF S(1)]) (simp_all add: b)
    show "in_order (stLog ?s) (brInbox (stB ?s) @ stDue ?s)"
      using in_order_sub [OF S(2), of "rest @ stDue s"] by (simp add: b Cons subseq_Cons')
    show "set (brInbox (stB ?s) @ stDue ?s) \<subseteq> set (stLog ?s)" using S(3) by (simp add: b Cons)
    show "honest ?s p" if "p \<in> stIssued ?s" for p using S(4) that honest_frame [of s p ?s] by (simp add: b top)
    fix k c' assume "gget (brClients (stB ?s)) k = Some c'"
    then obtain c where c: "gget (brClients (stB s)) k = Some c" "c' = deliver e c" by (auto simp: b gget_mapClients)
    have "client_ok ?s (stMissed s k) (stBase s k) (deliver e c)"
      by (rule client_ok_deliver [OF assms Cons S(5) [OF c(1)]]) (simp_all add: b top_grows_def top)
    then show "client_ok ?s (stMissed ?s k) (stBase ?s k) c'" using c(2) by simp
  qed
qed


lemma Append_hsCount [simp]: "hsCount (snd (Append now e h)) = hsCount h + 1"
  by (simp add: Append_def Let_def)

lemma appended_id [simp]: "hID (appended now e h) = hsCount h + 1"
  by (simp add: appended_def Let_def)

lemma honestI_frame:
  assumes "stream_ok s" "top (stB s') = top (stB s)" "stLog s' = stLog s" "stIssued s' = stIssued s" "p \<in> stIssued s'"
  shows "honest s' p"
  by (rule honest_frame [OF stream_okD(4) [OF assms(1)] assms(2,3)]) (use assms(4,5) in simp)

text \<open>The notifier sends the recorded change: into the inbox, or not at all, and then every client it was meant for is marked.\<close>

lemma stream_ok_dispatch:
  assumes "stream_ok s" "stDue s = [x]"
  shows "stream_ok (s\<lparr>stB := Broadcast (feEvent x) (stB s), stDue := []\<rparr>)" (is "stream_ok ?s")
proof -
  note S = stream_okD [OF assms(1)]
  have x: "\<not> isSync x" "feSync x = 0" "x \<in> set (stLog s)" using S(1,3) assms(2) by (auto simp: log_ok_def)
  have xx: "\<lparr>feEvent = feEvent x, feSync = 0\<rparr> = x" using x(2) by simp
  let ?mark = "\<lambda>c. if accepts (scMatch c) (feEvent x) then c\<lparr>scLagged := True\<rparr> else c"
  have b: "Broadcast (feEvent x) (stB s) = (if length (brInbox (stB s)) < inboxSize then (stB s)\<lparr>brInbox := brInbox (stB s) @ [x]\<rparr>
      else mapClients ?mark (stB s))"
    using x(1) xx by (simp add: Broadcast_def isSync_def)
  have top: "top (stB ?s) = top (stB s)" by (rule top_cong) (simp_all add: b)
  have grows: "top_grows (stB s) (stB ?s)" using top by (simp add: top_grows_def)
  show ?thesis unfolding stream_ok_def
  proof (intro conjI ballI allI impI)
    show "log_ok ?s" by (rule log_ok_frame [OF S(1)]) (simp_all add: b)
    show "in_order (stLog ?s) (brInbox (stB ?s) @ stDue ?s)"
      using S(2) assms(2) in_order_sub [OF S(2), of "brInbox (stB s)"] by (simp add: b)
    show "set (brInbox (stB ?s) @ stDue ?s) \<subseteq> set (stLog ?s)" using S(3) assms(2) by (auto simp: b)
    show "honest ?s p" if "p \<in> stIssued ?s" for p using that honestI_frame [OF assms(1) top] by simp
    fix k c' assume k: "gget (brClients (stB ?s)) k = Some c'"
    have "client_ok ?s (stMissed s k) (stBase s k) c'"
    proof (cases "length (brInbox (stB s)) < inboxSize")
      case True
      then have "gget (brClients (stB s)) k = Some c'" using k by (simp add: b)
      note C = S(5) [OF this]
      have "pipeline ?s c' = pipeline s c'" using True assms(2) by (simp add: pipeline_def b)
      then show ?thesis using grows client_okD(1) [OF C] by (intro client_shrink [OF C]) simp_all
    next
      case False
      then obtain c where c: "gget (brClients (stB s)) k = Some c" "c' = ?mark c" using k by (auto simp: b gget_mapClients)
      note C = S(5) [OF c(1)]
      have P: "pipeline s c = scBatch c @ scQueue c @ brInbox (stB s) @ [x]" using assms(2) by (simp add: pipeline_def)
      have P': "pipeline ?s c' = scBatch c @ scQueue c @ brInbox (stB s)" using False c(2) by (simp add: pipeline_def b)
      have "in_order (stLog s) (pipeline ?s c')"
        by (rule in_order_sub [OF client_okD(1) [OF C]]) (simp add: P P' list_emb_append_mono)
      moreover have "hears c y \<Longrightarrow> \<not> scLagged c' \<Longrightarrow> key y \<noteq> key x" if "y \<in> set (stLog s)" for y
        using log_key_inj [OF S(1) that x(3)] c(2) by auto
      moreover have "scFrames c' = scFrames c" "scMatch c' = scMatch c" "scSkipBelow c' = scSkipBelow c"
        "scSyncedThrough c' = scSyncedThrough c" "\<not> scLagged c' \<Longrightarrow> \<not> scLagged c" using c(2) by (auto split: if_splits)
      ultimately show ?thesis using grows by (intro client_shrink [OF C]) (auto simp: P P')
    qed
    then show "client_ok ?s (stMissed ?s k) (stBase ?s k) c'" by simp
  qed
qed


text \<open>The notifier records a change or a recovered entry.\<close>

lemma replayPosition_Some: "brReplay b = Some h \<Longrightarrow> replayPosition b = hsCount h"
  by (simp add: replayPosition_def)

lemma top_recorded:
  assumes "brReplay b = Some h" "brReplay b' = Some (snd (Append now e h))" "brLastSync b' = brLastSync b"
  shows "fst (top b) = hsCount h" "top b' = (hsCount h + 1, snd (top b))" "top_grows b b'"
  using assms by (simp_all add: top_eq top_grows_def replayPosition_Some)

lemma log_ok_change:
  assumes "log_ok s" "brReplay (stB s) = Some h" "gap_clean e" "brReplay (stB s') = Some (snd (Append now e h))"
    "brLastSync (stB s') = brLastSync (stB s)" "stEntries s' = stEntries s @ [appended now e h]"
    "stLog s' = stLog s \<and> stDue s' = [] \<or> stLog s' = stLog s @ [x] \<and> stDue s' = [x]"
    "\<not> isSync x" "feSync x = 0" "evHistoryID (feEvent x) = hsCount h + 1" "stLog s' = stLog s @ [x] \<Longrightarrow> inHistory (stEntries s') x"
  shows "log_ok s'"
proof -
  note t = top_recorded [OF assms(2,4,5)]
  obtain n where n: "recorded n h (stEntries s)" using assms(1,2) by (auto simp: log_ok_def)
  have below: "key y < key x" if "y \<in> set (stLog s)" for y
    using log_okD(3) [OF assms(1) that] assms(10) t(1) by (simp add: key_def less_prod_def)
  have L: "in_order (stLog s) (stLog s)" using assms(1) by (simp add: log_ok_def)
  have "in_order (stLog s') (stLog s')" using assms(7-9) L in_order_snoc [OF L, of x] below by auto
  moreover have "recorded n (snd (Append now e h)) (stEntries s')" using recorded.append [OF n assms(3)] assms(6) by simp
  moreover have "evHistoryID (feEvent y) \<le> fst (top (stB s')) \<and> feSync y \<le> snd (top (stB s')) \<and>
        (\<not> isSync y \<longrightarrow> inHistory (stEntries s') y) \<and>
        (isSync y \<longrightarrow> (\<exists>q k. brLastSync (stB s') = Some (q, k) \<and> evHistoryID (feEvent y) \<le> q))" if "y \<in> set (stLog s')" for y
  proof (cases "y \<in> set (stLog s)")
    case True
    then show ?thesis using log_okD(3) [OF assms(1) True] assms(5,6) t(1,2) by (auto intro: inHistory_append)
  next
    case False
    then have "y = x" "stLog s' = stLog s @ [x]" using that assms(7) by auto
    then show ?thesis using assms(8-11) t by simp
  qed
  moreover have "key y \<le> key z" if "y \<in> set (stLog s')" "z \<in> set (stLog s')" "isSync y" "isSync z" "feSync y \<le> feSync z" for y z
    using log_okD(4) [OF assms(1)] that assms(7,8) by auto
  moreover have "q \<le> fst (top (stB s')) \<and> k > 0" if "brLastSync (stB s') = Some (q, k)" for q k
    using log_okD(5) [OF assms(1)] that assms(5) t(1,2) by fastforce
  moreover have "stDue s' = [] \<or> (\<exists>x. stDue s' = [x] \<and> \<not> isSync x \<and> feSync x = 0)" using assms(7-9) by blast
  ultimately show ?thesis using assms(4) unfolding log_ok_def by blast
qed


lemma stream_ok_recover:
  assumes "stream_ok s" "brReplay (stB s) = Some h" "stDue s = []" "gap_clean e"
  shows "stream_ok (s\<lparr>stB := (stB s)\<lparr>brReplay := Some (snd (Append now e h))\<rparr>, stEntries := stEntries s @ [appended now e h]\<rparr>)"
    (is "stream_ok ?s")
proof -
  note S = stream_okD [OF assms(1)]
  have t: "top_grows (stB s) (stB ?s)" by (rule top_recorded(3) [OF assms(2)]) simp_all
  show ?thesis unfolding stream_ok_def
  proof (intro conjI ballI allI impI)
    show "log_ok ?s"
      by (rule log_ok_change [OF S(1) assms(2,4), where x = "\<lparr>feEvent = zeroEvent\<lparr>evType := EventGap, evHistoryID := hsCount h + 1\<rparr>, feSync = 0\<rparr>"])
         (simp_all add: assms(3) isSync_def)
    show "in_order (stLog ?s) (brInbox (stB ?s) @ stDue ?s)" "set (brInbox (stB ?s) @ stDue ?s) \<subseteq> set (stLog ?s)"
      using S(2,3) by simp_all
    show "honest ?s p" if "p \<in> stIssued ?s" for p
      by (rule honest_grow [OF S(4) t]) (use that in simp_all)
    fix k c assume "gget (brClients (stB ?s)) k = Some c"
    then have C: "client_ok s (stMissed s k) (stBase s k) c" using S(5) by simp
    have "pipeline ?s c = pipeline s c" by (simp add: pipeline_def)
    then have "client_ok ?s (stMissed s k) (stBase s k) c" using t client_okD(1) [OF C] by (intro client_shrink [OF C]) simp_all
    then show "client_ok ?s (stMissed ?s k) (stBase ?s k) c" by simp
  qed
qed

lemma kept_id: "evHistoryID (keptEvent e) = evHistoryID e" "evType (keptEvent e) = evType e"
  by (simp_all add: keptEvent_def)

lemma replayEvent_id: "evHistoryID (replayEvent e) = hID e"
  by (simp add: replayEvent_def zeroEvent_def split: option.split)

lemma stream_ok_change:
  assumes "stream_ok s" "brReplay (stB s) = Some h" "stDue s = []" "gap_clean e" "evType ev \<noteq> EventSync"
    "keptEvent ev = replayEvent (appended now e h)" "replayable (appended now e h)"
  shows "stream_ok (s\<lparr>stB := (stB s)\<lparr>brReplay := Some (snd (Append now e h))\<rparr>, stDue := [\<lparr>feEvent = ev, feSync = 0\<rparr>],
       stLog := stLog s @ [\<lparr>feEvent = ev, feSync = 0\<rparr>], stEntries := stEntries s @ [appended now e h]\<rparr>)"
    (is "stream_ok ?s")
proof -
  note S = stream_okD [OF assms(1)]
  let ?x = "\<lparr>feEvent = ev, feSync = 0\<rparr>"
  have ev: "evHistoryID ev = hsCount h + 1" using arg_cong [OF assms(6), of evHistoryID] by (simp add: kept_id replayEvent_id)
  have t: "fst (top (stB s)) = hsCount h" "top_grows (stB s) (stB ?s)"
    by (rule top_recorded(1,3) [OF assms(2), where b' = "stB ?s" and now = now and e = e]; simp)+
  have x: "\<not> isSync ?x" using assms(5) by (simp add: isSync_def)
  have new: "top (stB s) < key ?x" using t(1) ev by (cases "top (stB s)") (simp add: key_def less_prod_def)
  have below: "\<forall>y \<in> set (stLog s). key y < key ?x" using log_top [OF S(1)] new by (meson le_less_trans)
  show ?thesis unfolding stream_ok_def
  proof (intro conjI ballI allI impI)
    show "log_ok ?s" by (rule log_ok_change [OF S(1) assms(2,4), where x = ?x]) (use x ev assms(6,7) in \<open>simp_all add: inHistory_def\<close>)
    show "in_order (stLog ?s) (brInbox (stB ?s) @ stDue ?s)"
      using in_order_snoc [OF S(2) below] x assms(3) by simp
    show "set (brInbox (stB ?s) @ stDue ?s) \<subseteq> set (stLog ?s)" using S(3) assms(3) by auto
    show "honest ?s p" if "p \<in> stIssued ?s" for p
      by (rule honest_grow [OF S(4) t(2)]) (use that x in \<open>auto simp: isSync_def\<close>)
    fix k c assume "gget (brClients (stB ?s)) k = Some c"
    then have C: "client_ok s (stMissed s k) (stBase s k) c" using S(5) by simp
    have P: "pipeline ?s c = pipeline s c @ [?x]" using assms(3) by (simp add: pipeline_def)
    have "client_ok ?s (stMissed s k) (stBase s k) c"
      using t x new ev in_order_snoc [OF client_okD(1) [OF C] below] by (intro client_extend [OF C, where x = ?x]) (auto simp: P)
    then show "client_ok ?s (stMissed ?s k) (stBase ?s k) c" by simp
  qed
qed


text \<open>A resync: the number of the new sync is one more than the last one's, and its key is the broadcaster's new position.\<close>

lemma Broadcast_sync:
  assumes "evType ev = EventSync" "evHistoryID ev = replayPosition b" "y = \<lparr>feEvent = ev, feSync = fst (recordSync (evHistoryID ev) b)\<rparr>"
  shows "brReplay (Broadcast ev b) = brReplay b" "brLastSync (Broadcast ev b) = Some (evHistoryID ev, feSync y)"
    "top (Broadcast ev b) = key y" "feSync y = snd (top b) + 1" "fst (top b) = evHistoryID ev" "isSync y"
    and "length (brInbox b) < inboxSize \<Longrightarrow> brInbox (Broadcast ev b) = brInbox b @ [y] \<and> brClients (Broadcast ev b) = brClients b"
    and "\<not> length (brInbox b) < inboxSize \<Longrightarrow> brInbox (Broadcast ev b) = brInbox b \<and>
      brClients (Broadcast ev b) = brClients (mapClients (\<lambda>c. if accepts (scMatch c) ev then c\<lparr>scLagged := True\<rparr> else c) b)"
  using assms by (auto simp: Broadcast_def recordSync_def Let_def top_eq key_def replayPosition_def isSync_def mapClients_def split: option.split)

lemma log_ok_sync:
  assumes "log_ok s" "brReplay (stB s') = brReplay (stB s)" "brLastSync (stB s') = Some (evHistoryID (feEvent y), feSync y)"
    "top (stB s') = key y" "feSync y = snd (top (stB s)) + 1" "fst (top (stB s)) = evHistoryID (feEvent y)" "isSync y"
    "stLog s' = stLog s @ [y]" "stEntries s' = stEntries s" "stDue s' = []"
  shows "log_ok s'"
proof -
  have le: "evHistoryID (feEvent x) \<le> evHistoryID (feEvent y)" "feSync x < feSync y" if "x \<in> set (stLog s)" for x
    using log_okD(3) [OF assms(1) that] assms(5,6) by auto
  have below: "\<forall>x \<in> set (stLog s). key x < key y" using le by (auto simp: key_def less_prod_def)
  have "in_order (stLog s') (stLog s')" using in_order_snoc [OF log_okD(2) [OF assms(1)] below] assms(5,7,8) by simp
  moreover have "evHistoryID (feEvent x) \<le> fst (top (stB s')) \<and> feSync x \<le> snd (top (stB s')) \<and>
        (\<not> isSync x \<longrightarrow> inHistory (stEntries s') x) \<and>
        (isSync x \<longrightarrow> (\<exists>q k. brLastSync (stB s') = Some (q, k) \<and> evHistoryID (feEvent x) \<le> q))" if "x \<in> set (stLog s')" for x
  proof (cases "x \<in> set (stLog s)")
    case True
    then show ?thesis using log_okD(3) [OF assms(1) True] le [OF True] assms(3,4,9) by (auto simp: key_def)
  next
    case False
    then have "x = y" using that assms(8) by auto
    then show ?thesis using assms(3,4,7) by (simp add: key_def)
  qed
  moreover have "key x \<le> key z" if "x \<in> set (stLog s')" "z \<in> set (stLog s')" "isSync x" "isSync z" "feSync x \<le> feSync z" for x z
    using log_okD(4) [OF assms(1)] that assms(8) below le by (fastforce simp: less_imp_le)
  moreover have "q \<le> fst (top (stB s')) \<and> k > 0" if "brLastSync (stB s') = Some (q, k)" for q k
    using that assms(3-5) by (simp add: key_def)
  ultimately show ?thesis using log_okD(1) [OF assms(1)] assms(2,9,10) unfolding log_ok_def by auto
qed


lemma stream_ok_resync:
  assumes "stream_ok s" "stDue s = []" "evType ev = EventSync" "evHistoryID ev = replayPosition (stB s)"
    "y = \<lparr>feEvent = ev, feSync = fst (recordSync (evHistoryID ev) (stB s))\<rparr>"
  shows "stream_ok (s\<lparr>stB := Broadcast ev (stB s), stLog := stLog s @ [y]\<rparr>)" (is "stream_ok ?s")
proof -
  note S = stream_okD [OF assms(1)]
  note B = Broadcast_sync [OF assms(3-5)]
  have ev: "feEvent y = ev" by (simp add: assms(5))
  have y: "top (stB s) < key y" using B(4,5) ev by (cases "top (stB s)") (simp add: key_def less_prod_def)
  have below: "\<forall>x \<in> set (stLog s). key x < key y" using log_top [OF S(1)] y by (meson le_less_trans)
  have t: "top_grows (stB s) (stB ?s)" using B(3-5) ev by (simp add: top_grows_def key_def)
  show ?thesis unfolding stream_ok_def
  proof (intro conjI ballI allI impI)
    show "log_ok ?s" by (rule log_ok_sync [OF S(1), where y = y]) (use B ev assms(2) in simp_all)
    show "in_order (stLog ?s) (brInbox (stB ?s) @ stDue ?s)"
      using in_order_snoc [OF S(2) below] in_order_grow [OF S(2), of "stLog s @ [y]"] B(4,6-8) assms(2)
      by (cases "length (brInbox (stB s)) < inboxSize") auto
    show "set (brInbox (stB ?s) @ stDue ?s) \<subseteq> set (stLog ?s)"
      using S(3) B(7,8) assms(2) by (cases "length (brInbox (stB s)) < inboxSize") auto
    show "honest ?s p" if "p \<in> stIssued ?s" for p
      by (rule honest_grow [OF S(4) t]) (use that B(4) in auto)
    fix k c' assume k: "gget (brClients (stB ?s)) k = Some c'"
    obtain c where c: "gget (brClients (stB s)) k = Some c" "c' = c \<and> length (brInbox (stB s)) < inboxSize \<or>
        c' = (if hears c y then c\<lparr>scLagged := True\<rparr> else c) \<and> \<not> length (brInbox (stB s)) < inboxSize"
      using k B(7,8) by (cases "length (brInbox (stB s)) < inboxSize") (auto simp: gget_mapClients ev)
    note C = S(5) [OF c(1)]
    have P: "pipeline ?s c' = (if length (brInbox (stB s)) < inboxSize then pipeline s c @ [y] else pipeline s c)"
      using c(2) B(7,8) assms(2) by (auto simp: pipeline_def)
    have f: "scFrames c' = scFrames c" "scMatch c' = scMatch c" "scSkipBelow c' = scSkipBelow c" "scSyncedThrough c' = scSyncedThrough c"
        "\<not> scLagged c' \<Longrightarrow> \<not> scLagged c" "hears c y \<Longrightarrow> \<not> scLagged c' \<Longrightarrow> length (brInbox (stB s)) < inboxSize"
      using c(2) by (auto split: if_splits)
    have "in_order (stLog ?s) (pipeline ?s c')"
      using in_order_snoc [OF client_okD(1) [OF C] below] in_order_grow [OF client_okD(1) [OF C], of "stLog s @ [y]"] B(4,6)
      by (auto simp: P)
    then have "client_ok ?s (stMissed s k) (stBase s k) c'"
      using t y f B(4,6) by (intro client_extend [OF C, where x = y]) (auto simp: P)
    then show "client_ok ?s (stMissed ?s k) (stBase ?s k) c'" by simp
  qed
qed

text \<open>A new connection starts at the broadcaster's position.\<close>

lemma stream_ok_connect:
  assumes "stream_ok s" "admitClient k False m owner (stB s) = (Serving k, b')"
  shows "stream_ok (s\<lparr>stB := b', stBase := (stBase s)(k := key (syncFrame (stB s))), stOpen := stOpen s - {k}, stMark := (stMark s)(k := None),
    stMissed := (stMissed s)(k := {})\<rparr>)" (is "stream_ok ?s")
proof -
  note S = stream_okD [OF assms(1)]
  have b: "brReplay b' = brReplay (stB s)" "brLastSync b' = brLastSync (stB s)" "brInbox b' = brInbox (stB s)"
      "brClients b' = gset (brClients (stB s)) k (newClient m owner)"
    using assms(2) by (auto simp: admitClient_def split: if_splits)
  have top: "top (stB ?s) = top (stB s)" by (rule top_cong) (simp_all add: b)
  show ?thesis unfolding stream_ok_def
  proof (intro conjI ballI allI impI)
    show "log_ok ?s" by (rule log_ok_frame [OF S(1)]) (simp_all add: b)
    show "in_order (stLog ?s) (brInbox (stB ?s) @ stDue ?s)" "set (brInbox (stB ?s) @ stDue ?s) \<subseteq> set (stLog ?s)"
      using S(2,3) by (simp_all add: b)
    show "honest ?s p" if "p \<in> stIssued ?s" for p using that honestI_frame [OF assms(1) top] by simp
    fix j c assume j: "gget (brClients (stB ?s)) j = Some c"
    show "client_ok ?s (stMissed ?s j) (stBase ?s j) c"
    proof (cases "j = k")
      case True
      then have c: "c = newClient m owner" using j by (simp add: b)
      have "\<not> top (stB s) < key x" if "x \<in> set (stLog s)" for x using log_top [OF S(1) that] by (simp add: leD)
      then show ?thesis using True c S(2) top
        by (intro client_all_told) (auto simp: pipeline_def newClient_def position_def b top_def)
    next
      case False
      then have C: "client_ok s (stMissed s j) (stBase s j) c" using j S(5) by (simp add: b)
      have "pipeline ?s c = pipeline s c" by (simp add: pipeline_def b)
      then have "client_ok ?s (stMissed s j) (stBase s j) c"
        using top client_okD(1) [OF C] by (intro client_shrink [OF C]) (simp_all add: top_grows_def)
      then show ?thesis using False by simp
    qed
  qed
qed


text \<open>The steps of one client.\<close>

lemma stream_ok_client:
  assumes s: "stream_ok s" and c: "client_ok (setClient k c (s\<lparr>stOpen := opn, stBase := (stBase s)(k := base), stMissed := (stMissed s)(k := mi)\<rparr>)) mi base c"
      (is "client_ok ?s mi base c")
    and h: "\<And>f. f \<in> set (scFrames c) \<Longrightarrow> sfID f \<notin> stIssued s \<Longrightarrow> honest s (sfID f)"
  shows "stream_ok ?s"
proof -
  note S = stream_okD [OF s]
  have top: "top (stB ?s) = top (stB s)" by (rule top_cong) (simp_all add: setClient_def)
  have fields: "stLog ?s = stLog s" "brInbox (stB ?s) = brInbox (stB s)" "stDue ?s = stDue s"
      "stIssued ?s = stIssued s \<union> sfID ` set (scFrames c)" "stBase ?s = (stBase s)(k := base)" "stMissed ?s = (stMissed s)(k := mi)"
    by (simp_all add: setClient_def)
  show ?thesis unfolding stream_ok_def
  proof (intro conjI ballI allI impI)
    show "log_ok ?s" by (rule log_ok_frame [OF S(1)]) (simp_all add: setClient_def)
    show "in_order (stLog ?s) (brInbox (stB ?s) @ stDue ?s)" "set (brInbox (stB ?s) @ stDue ?s) \<subseteq> set (stLog ?s)"
      using S(2,3) by (simp_all add: fields)
    show "honest ?s p" if "p \<in> stIssued ?s" for p
    proof -
      have "honest s p" using S(4) h that fields(4) by blast
      then show ?thesis by (rule honest_frame [OF _ top fields(1)])
    qed
    fix j c' assume j: "gget (brClients (stB ?s)) j = Some c'"
    show "client_ok ?s (stMissed ?s j) (stBase ?s j) c'"
    proof (cases "j = k")
      case True
      then show ?thesis using j c by (simp add: setClient_def)
    next
      case False
      then have C: "client_ok s (stMissed s j) (stBase s j) c'" using j S(5) by (simp add: setClient_def)
      have "pipeline ?s c' = pipeline s c'" by (simp add: pipeline_def fields)
      then have "client_ok ?s (stMissed s j) (stBase s j) c'"
        using client_okD(1) [OF C] by (intro client_shrink [OF C]) (simp_all add: top_grows_def top fields)
      then show ?thesis using False by (simp add: fields)
    qed
  qed
qed


lemma in_order_isSync:
  assumes "in_order L es" "in_order L fs" "e \<in> set es" "x \<in> set fs" "key x = key e"
  shows "isSync x = isSync e"
  using assms by (auto simp: in_order_def key_def)

definition skipped :: "sseClient \<Rightarrow> frameEvent \<Rightarrow> bool" where
  "skipped c e \<longleftrightarrow> (if isSync e then feSync e \<le> scSyncedThrough c
     else scSkipBelow c > 0 \<and> evHistoryID (feEvent e) > 0 \<and> evHistoryID (feEvent e) \<le> scSkipBelow c)"

lemma receive_Cons:
  assumes "scQueue c = e # rest"
  shows "scQueue (receive c) = rest" "scBatch (receive c) = (if skipped c e then scBatch c else scBatch c @ [e])"
    "scFrames (receive c) = scFrames c" "scMatch (receive c) = scMatch c" "scSkipBelow (receive c) \<le> scSkipBelow c"
    "scSyncedThrough (receive c) = scSyncedThrough c" "scLagged (receive c) = scLagged c"
  using assms by (auto simp: receive_def skipped_def isSync_def Let_def)

lemma client_ok_receive:
  assumes s: "log_ok s" and c: "client_ok s mi base c" and s': "stLog s' = stLog s" "top (stB s') = top (stB s)"
    "brInbox (stB s') = brInbox (stB s)" "stDue s' = stDue s" "stIssued s \<subseteq> stIssued s'"
  shows "client_ok s' mi base (receive c)"
proof (cases "scQueue c")
  case Nil
  then show ?thesis using client_okD(1) [OF c] s'
    by (intro client_shrink [OF c]) (simp_all add: receive_def top_grows_def pipeline_def)
next
  case (Cons e rest)
  note D = client_okD [OF c]
  let ?c = "receive c"
  have P: "pipeline s c = scBatch c @ e # rest @ brInbox (stB s) @ stDue s" by (simp add: pipeline_def Cons)
  note f = receive_Cons(3-7) [OF Cons]
  consider "pipeline s' ?c = pipeline s c"
    | "pipeline s' ?c = scBatch c @ rest @ brInbox (stB s) @ stDue s"
      "if isSync e then feSync e \<le> scSyncedThrough c else evHistoryID (feEvent e) \<le> scSkipBelow c"
  proof (cases "skipped c e")
    case True
    show ?thesis
      by (rule that(2)) (use True in \<open>auto simp: pipeline_def receive_Cons(1,2) [OF Cons] s' skipped_def split: if_splits\<close>)
  next
    case False
    show ?thesis by (rule that(1)) (simp add: False pipeline_def receive_Cons(1,2) [OF Cons] s' Cons)
  qed
  then show ?thesis
  proof cases
    case 1
    then show ?thesis using D(1) f s' by (intro client_shrink [OF c]) (simp_all add: top_grows_def)
  next
    case 2
    have "in_order (stLog s) (pipeline s' ?c)"
      by (rule in_order_sub [OF D(1)]) (simp add: 2(1) P list_emb_append_mono subseq_Cons')
    moreover have "told c (key x)" if x: "x \<in> set (stLog s)" "hears c x" "base < key x" "key x = key e" for x
    proof -
      have "isSync x = isSync e" using in_order_isSync [OF D(1) log_okD(2) [OF s] _ x(1,4)] by (simp add: P)
      then show ?thesis using D(7) [OF x(1-3)] 2(2) x(4) by (auto simp: key_def split: if_splits)
    qed
    ultimately show ?thesis using f s' by (intro client_shrink [OF c]) (auto simp: top_grows_def 2(1) P)
  qed
qed

lemma client_ok_tick:
  assumes s: "log_ok s" and c: "client_ok s mi base c" and s': "stLog s' = stLog s" "top (stB s') = top (stB s)"
    "brInbox (stB s') = brInbox (stB s)" "stDue s' = stDue s" "stIssued s' = stIssued s \<union> sfID ` set (scFrames (tick (stB s) c))"
  shows "client_ok s' mi base (tick (stB s) c)"
proof -
  note D = client_okD [OF c]
  let ?c = "tick (stB s) c"
  consider "scLagged c" | "\<not> scLagged c" "scBatch c = []" | "\<not> scLagged c" "scBatch c \<noteq> []" by blast
  then show ?thesis
  proof cases
    case 1
    have "told ?c (key x)" if "x \<in> set (stLog s)" for x
      using log_top [OF s that] 1 by (auto simp: tick_def Let_def told_writeFrame told_def writeFrame_def top_def)
    moreover have "in_order (stLog s) (pipeline s' ?c)"
      by (rule in_order_sub [OF D(1)]) (simp add: 1 tick_def Let_def pipeline_def writeFrame_def s' list_emb_append2)
    moreover have "position ?c base = top (stB s)" "scSkipBelow ?c = fst (top (stB s))" "scSyncedThrough ?c = snd (top (stB s))"
      using 1 D(4) sync_position [of "stB s"] by (simp_all add: tick_def Let_def position_def writeFrame_def top_def key_def)
    ultimately show ?thesis using s' by (intro client_all_told) simp_all
  next
    case 2
    then show ?thesis using D(1) s' by (intro client_shrink [OF c]) (simp_all add: tick_def top_grows_def pipeline_def)
  next
    case 3
    then have t: "?c = (writeFrame (scBatch c) c)\<lparr>scBatch := []\<rparr>" by (simp add: tick_def)
    have P: "pipeline s c = scBatch c @ pipeline s' ?c" by (simp add: t pipeline_def writeFrame_def s')
    have B: "in_order (stLog s) (scBatch c)" "in_order (stLog s) (pipeline s' ?c)"
      by (rule in_order_sub [OF D(1)]; simp add: P list_emb_append2)+
    have T: "told ?c p \<longleftrightarrow> told c p \<or> (\<exists>e \<in> set (scBatch c). key e = p \<or> isSync e \<and> p \<le> key e)" for p
      using told_writeFrame [of "scBatch c" c p] by (simp add: t told_def writeFrame_def)
    have pos: "position ?c base = key (last (scBatch c))"
      using frame_position [OF B(1) 3(2)] by (simp add: t position_def writeFrame_def)
    have "key (last (scBatch c)) \<in> key ` set (stLog s)" using B(1) 3(2) by (auto simp: in_order_def)
    then have le: "position ?c base \<le> top (stB s)" using log_top [OF s] pos by auto
    have batch: "told ?c (key x)" if "key x \<in> key ` set (scBatch c)" for x using that T by auto
    have f: "scMatch ?c = scMatch c" "scSkipBelow ?c = scSkipBelow c" "scSyncedThrough ?c = scSyncedThrough c"
      by (simp_all add: t writeFrame_def)
    show ?thesis unfolding client_ok_def
    proof (intro conjI ballI impI)
      fix x assume x: "x \<in> set (stLog s')" "hears ?c x \<and> base < key x"
      then have x': "x \<in> set (stLog s)" "hears c x" "base < key x" using s' f by auto
      have in_or: "told c (key x) \<or> key x \<in> key ` set (scBatch c @ pipeline s' ?c)" using D(5) [OF x' 3(1)] P by simp
      show "told ?c (key x) \<or> key x \<in> key ` set (pipeline s' ?c)" using in_or T [of "key x"] batch [of x] by auto
      show "told ?c (key x)" if "key x \<le> position ?c base" "feSync x \<notin> mi"
        using in_or in_order_prefix [OF D(1) [unfolded P] 3(2)] that T [of "key x"] batch [of x] unfolding pos by blast
      show "told ?c (key x)" if "if isSync x then feSync x \<le> scSyncedThrough ?c else evHistoryID (feEvent x) \<le> scSkipBelow ?c"
        using D(7) [OF x'] that T [of "key x"] unfolding f by blast
    qed (use B(2) D(3,4,8) le f s' in auto)
  qed
qed


lemma honest_top: "log_ok s \<Longrightarrow> honest s (top (stB s))"
  using log_top by (simp add: honest_def)

lemma honest_last:
  assumes "log_ok s" "in_order (stLog s) es" "es \<noteq> []"
  shows "honest s (key (last es))"
proof -
  obtain y where y: "y \<in> set (stLog s)" "key (last es) = key y" using assms(2,3) by (force simp: in_order_def)
  then have "isSync y = (feSync y > 0)" using log_okD(2) [OF assms(1)] by (simp add: in_order_def)
  then show ?thesis using y log_okD(3,4) [OF assms(1)] by (auto simp: honest_def key_def)
qed

lemma client_batch: "client_ok s mi base c \<Longrightarrow> in_order (stLog s) (scBatch c)"
  using client_okD(1) [of s mi base c] in_order_sub by (simp add: pipeline_def)

lemma set_base_id [simp]: "s\<lparr>stOpen := stOpen s, stBase := (stBase s)(k := stBase s k), stMissed := (stMissed s)(k := stMissed s k)\<rparr> = s"
  by simp

lemma stream_ok_receive:
  assumes "stream_ok s" "gget (brClients (stB s)) k = Some c"
  shows "stream_ok (setClient k (receive c) s)"
proof -
  note S = stream_okD [OF assms(1)]
  have f: "scFrames (receive c) = scFrames c" by (cases "scQueue c") (simp_all add: receive_def Let_def)
  have "client_ok (setClient k (receive c) s) (stMissed s k) (stBase s k) (receive c)"
    by (rule client_ok_receive [OF S(1) S(5) [OF assms(2)]]) (auto simp: setClient_def intro!: top_cong)
  moreover have "sfID f \<in> stIssued s" if "f \<in> set (scFrames (receive c))" for f
    using that client_okD(8) [OF S(5) [OF assms(2)]] f by auto
  ultimately show ?thesis using stream_ok_client [OF assms(1), where k = k and c = "receive c" and opn = "stOpen s" and base = "stBase s k" and mi = "stMissed s k"] by auto
qed

lemma stream_ok_tick:
  assumes "stream_ok s" "gget (brClients (stB s)) k = Some c"
  shows "stream_ok (setClient k (tick (stB s) c) s)"
proof -
  note S = stream_okD [OF assms(1)]
  note C = S(5) [OF assms(2)]
  have "client_ok (setClient k (tick (stB s) c) s) (stMissed s k) (stBase s k) (tick (stB s) c)"
    by (rule client_ok_tick [OF S(1) C]) (auto simp: setClient_def intro!: top_cong)
  moreover have "honest s (sfID f)" if f: "f \<in> set (scFrames (tick (stB s) c))" "sfID f \<notin> stIssued s" for f
  proof -
    have "f \<notin> set (scFrames c)" using f(2) client_okD(8) [OF C] by auto
    then have "sfID f = top (stB s) \<or> scBatch c \<noteq> [] \<and> sfID f = key (last (scBatch c))"
      using f(1) frame_position [OF client_batch [OF C]] sync_position
      by (auto simp: tick_def Let_def writeFrame_def split: if_splits)
    then show ?thesis using honest_top [OF S(1)] honest_last [OF S(1) client_batch [OF C]] by auto
  qed
  ultimately show ?thesis using stream_ok_client [OF assms(1), where k = k and c = "tick (stB s) c" and opn = "stOpen s" and base = "stBase s k" and mi = "stMissed s k"] by auto
qed

lemma stream_ok_leave:
  assumes "stream_ok s" "gget (brClients (stB s)) k = Some c"
  shows "stream_ok (s\<lparr>stB := leave k (stB s), stIssued := stIssued s \<union> sfID ` set (scFrames (finish c)), stOpen := stOpen s - {k}\<rparr>)"
    (is "stream_ok ?s")
proof -
  note S = stream_okD [OF assms(1)]
  note C = S(5) [OF assms(2)]
  have b: "brReplay (leave k (stB s)) = brReplay (stB s)" "brLastSync (leave k (stB s)) = brLastSync (stB s)"
      "brInbox (leave k (stB s)) = brInbox (stB s)" "brClients (leave k (stB s)) = gdel (brClients (stB s)) k"
    by (simp_all add: leave_def assms(2) Let_def)
  have top: "top (stB ?s) = top (stB s)" by (rule top_cong) (simp_all add: b)
  have h: "honest s (sfID f)" if f: "f \<in> set (scFrames (finish c))" for f
  proof (cases "f \<in> set (scFrames c)")
    case True
    then show ?thesis using client_okD(8) [OF C] S(4) by blast
  next
    case False
    then show ?thesis using f frame_position [OF client_batch [OF C]] honest_last [OF S(1) client_batch [OF C]]
      by (auto simp: finish_def writeFrame_def split: if_splits)
  qed
  show ?thesis unfolding stream_ok_def
  proof (intro conjI ballI allI impI)
    show "log_ok ?s" by (rule log_ok_frame [OF S(1)]) (simp_all add: b)
    show "in_order (stLog ?s) (brInbox (stB ?s) @ stDue ?s)" "set (brInbox (stB ?s) @ stDue ?s) \<subseteq> set (stLog ?s)"
      using S(2,3) by (simp_all add: b)
    show "honest ?s p" if "p \<in> stIssued ?s" for p
    proof -
      have "p \<in> stIssued s \<or> (\<exists>f \<in> set (scFrames (finish c)). p = sfID f)" using that by auto
      then have "honest s p" using S(4) h by blast
      then show ?thesis by (rule honest_frame [OF _ top]) simp
    qed
    fix j c' assume "gget (brClients (stB ?s)) j = Some c'"
    then have C': "client_ok s (stMissed s j) (stBase s j) c'" using S(5) by (auto simp: b split: if_splits)
    have "pipeline ?s c' = pipeline s c'" by (simp add: pipeline_def b)
    then have "client_ok ?s (stMissed s j) (stBase s j) c'"
      using client_okD(1) [OF C'] top by (intro client_shrink [OF C']) (auto simp: top_grows_def)
    then show "client_ok ?s (stMissed ?s j) (stBase ?s j) c'" by simp
  qed
qed


text \<open>A client that reconnects: a sync, or exactly the entries after its cursor.\<close>

lemma frameCursor_changes:
  assumes "\<forall>e \<in> set es. feSync e = 0 \<and> evHistoryID (feEvent e) \<le> n" "m \<le> n"
  shows "fst (frameCursor es (m, 0)) \<le> n \<and> snd (frameCursor es (m, 0)) = 0"
  using assms by (induction es arbitrary: m) (auto simp: Let_def)

lemma replayed_key:
  assumes "replayed rt m e = Some f"
  shows "key f = (hID e, 0)" "feSync f = 0" "evHistoryID (feEvent f) = hID e"
proof -
  note r = replayEvent_id [of e]
  obtain ev where "admitted m (replayEvent e) = Some ev" "f = \<lparr>feEvent = ev, feSync = 0\<rparr>"
    using assms by (auto simp: replayed_def Let_def split: if_splits)
  then show "key f = (hID e, 0)" "feSync f = 0" "evHistoryID (feEvent f) = hID e" using admitted_key(1) r by (auto simp: key_def)
qed

text \<open>The newest sync as a replay has read it: it covers every sync up to its number, and later ones lie beyond the connection's start.\<close>

definition mark_ok :: "stream \<Rightarrow> nat \<times> nat \<Rightarrow> (nat \<times> nat) option \<Rightarrow> bool" where
  "mark_ok s base mark \<longleftrightarrow> markNo mark \<le> snd (top (stB s)) \<and> (\<forall>x \<in> set (stLog s). isSync x \<longrightarrow>
     (feSync x \<le> markNo mark \<longrightarrow> (\<exists>q n. mark = Some (q, n) \<and> evHistoryID (feEvent x) \<le> q)) \<and> (markNo mark < feSync x \<longrightarrow> base < key x))"

lemma honest_no_sync:
  assumes "mark_ok s old mark" "honest s (afterID, seen)" "fst (needsSync afterID seen mark) = False" "x \<in> set (stLog s)" "isSync x"
    "feSync x \<le> markNo mark"
  shows "key x \<le> (afterID, seen)"
proof -
  obtain q k where q: "mark = Some (q, k)" "evHistoryID (feEvent x) \<le> q" using assms(1,4-6) unfolding mark_ok_def by blast
  show ?thesis
  proof (cases "seen > 0")
    case True
    then have "seen = k" using assms(3) q by (simp add: needsSync_def split: if_splits)
    then show ?thesis using assms(2,4-6) True q by (auto simp: honest_def markNo_def)
  next
    case False
    then have "q < afterID" using assms(3) q by (simp add: needsSync_def split: if_splits)
    then show ?thesis using q by (simp add: key_def less_eq_prod_def less_prod_def)
  qed
qed

lemma replay_tells:
  assumes s: "log_ok s" and h: "brReplay (stB s) = Some h"
    and since: "Since afterID h = (entries, True)" and fits: "replay_fits rt m" "rt \<noteq> ReplayNone"
    and x: "x \<in> set (stLog s)" "accepts m (feEvent x)" "(afterID, seen) < key x" "\<not> isSync x"
  shows "\<exists>f \<in> set (List.map_filter (replayed rt m) entries). key f = key x"
proof -
  obtain n where n: "recorded n h (stEntries s)" using log_okD(1) [OF s] h by auto
  have e: "entries = filter (\<lambda>e. afterID < hID e) (stEntries s)" using Since_exact [OF n since] by simp
  have f0: "feSync x = 0" using log_okD(2) [OF s] x(1,4) by (auto simp: in_order_def)
  then have after: "afterID < evHistoryID (feEvent x)" using x(3) by (auto simp: key_def less_prod_def)
  obtain en where en: "en \<in> set (stEntries s)" "hID en = evHistoryID (feEvent x)" "keptEvent (feEvent x) = replayEvent en" "replayable en"
    using log_okD(3) [OF s x(1)] x(4) by (auto simp: inHistory_def)
  have "accepts m (replayEvent en)" using fits x(2) en(3) by (auto simp: replay_fits_def)
  moreover have "evType (replayEvent en) = t" if "rt = ReplayType t" for t
    using fits that x(2,4) en(3) kept_id(2) [of "feEvent x"] by (auto simp: replay_fits_def isSync_def)
  ultimately have "replayed rt m en \<noteq> None"
    using en(4) by (cases rt) (auto simp: replayed_def Let_def accepts_def)
  then obtain f where f: "replayed rt m en = Some f" by blast
  have "f \<in> set (List.map_filter (replayed rt m) entries)" using en after f by (force simp: map_filter_def e)
  then show ?thesis using replayed_key(1) [OF f] en(2) f0 by (auto simp: key_def)
qed


lemma told_sync: "log_ok s \<Longrightarrow> x \<in> set (stLog s) \<Longrightarrow> told (writeSync (stB s) c) (key x)"
  using log_top [of s x] by (auto simp: told_def writeSync_def writeFrame_def Let_def top_def)

text \<open>The outcomes of a replay.\<close>

lemma openStream_cases:
  assumes "brReplay b = Some h" "lastID \<noteq> []"
  obtains "openStream lastID rt mark b c = writeSync b c"
  | afterID seen entries es where "cursor lastID b = Some (afterID, seen)" "rt \<noteq> ReplayNone" "\<not> fst (needsSync afterID seen mark)"
      "Since afterID h = (entries, True)" "es = List.map_filter (replayed rt (scMatch c)) entries"
      "openStream lastID rt mark b c = (if es = [] then c else writeFrame es c)
         \<lparr>scSkipBelow := (if es = [] then afterID else evHistoryID (feEvent (last es))), scSyncedThrough := snd (needsSync afterID seen mark)\<rparr>"
proof (cases "rt = ReplayNone \<or> cursor lastID b = None")
  case True
  then show ?thesis using that(1) assms by (auto simp: openStream_def replayEvents_def)
next
  case False
  then obtain afterID seen where cur: "cursor lastID b = Some (afterID, seen)" by auto
  obtain entries complete where si: "Since afterID h = (entries, complete)" by fastforce
  obtain need covered where ne: "needsSync afterID seen mark = (need, covered)" by fastforce
  show ?thesis
  proof (cases "need \<or> \<not> complete")
    case True
    then show ?thesis using that(1) assms cur si ne by (auto simp: openStream_def replayEvents_def)
  next
    case F: False
    show ?thesis
      by (rule that(2) [OF cur]) (use False F assms cur si ne in \<open>auto simp: openStream_def replayEvents_def Let_def\<close>)
  qed
qed

lemma needsSync_covered: "snd (needsSync afterID seen mark) = markNo mark"
  by (simp add: needsSync_def markNo_def split: option.split)

lemma client_ok_resume:
  assumes s: "log_ok s" and c: "client_ok s mi0 old c" and h: "brReplay (stB s) = Some h" "lastID \<noteq> []" and mark: "mark_ok s old mark"
    and cur: "\<And>p. cursor lastID (stB s) = Some p \<Longrightarrow> honest s p" and fits: "replay_fits rt (scMatch c)"
    and base: "base = (case cursor lastID (stB s) of None \<Rightarrow> old | Some p \<Rightarrow> p)"
    and mi: "mi = {n. markNo mark < n \<and> n \<le> snd (top (stB s))}"
    and s': "stLog s' = stLog s" "top (stB s') = top (stB s)" "brInbox (stB s') = brInbox (stB s)" "stDue s' = stDue s"
      "stIssued s' = stIssued s \<union> sfID ` set (scFrames (openStream lastID rt mark (stB s) c))"
  shows "client_ok s' mi base (openStream lastID rt mark (stB s) c) \<and>
    (\<forall>f \<in> set (scFrames (openStream lastID rt mark (stB s) c)). sfID f \<notin> stIssued s \<longrightarrow> honest s (sfID f))"
    (is "client_ok s' mi base ?c \<and> ?honest")
  using h
proof (cases rule: openStream_cases [where rt = rt and c = c and mark = mark])
  case 1
  have pos: "position ?c base = top (stB s)" "scSkipBelow ?c = fst (top (stB s))" "scSyncedThrough ?c = snd (top (stB s))"
      "pipeline s' ?c = pipeline s c"
    using sync_position [of "stB s"] s' by (simp_all add: 1 writeSync_def Let_def position_def writeFrame_def top_def key_def pipeline_def)
  have "client_ok s' mi base ?c"
    using pos s' client_okD(1) [OF c] told_sync [OF s] by (intro client_all_told) (auto simp: 1)
  moreover have ?honest
    using client_okD(8) [OF c] sync_position honest_top [OF s] by (auto simp: 1 writeSync_def Let_def writeFrame_def)
  ultimately show ?thesis by blast
next
  case (2 afterID seen entries es)
  note D = client_okD [OF c]
  have b: "base = (afterID, seen)" and p: "honest s (afterID, seen)" using base 2(1) cur by auto
  obtain n where n: "recorded n h (stEntries s)" using log_okD(1) [OF s] h by auto
  have es: "feSync e = 0" "evHistoryID (feEvent e) \<le> fst (top (stB s))" if e: "e \<in> set es" for e
  proof -
    obtain en where en: "en \<in> set entries" "replayed rt (scMatch c) en = Some e" using e 2(5) by (auto simp: map_filter_def)
    have "en \<in> set (stEntries s)" using en(1) Since_exact [OF n 2(4)] by auto
    then have "hID en \<le> hsCount h" using recorded_ok(2) [OF n] by (simp add: holds_log_def)
    then show "feSync e = 0" "evHistoryID (feEvent e) \<le> fst (top (stB s))"
      using replayed_key [OF en(2)] h(1) by (simp_all add: top_eq replayPosition_def)
  qed
  have le: "afterID \<le> fst (top (stB s))" "(afterID, seen) \<le> top (stB s)" using p by (auto simp: honest_def intro: pair_le)
  have fc: "fst (frameCursor es (0, 0)) \<le> fst (top (stB s)) \<and> snd (frameCursor es (0, 0)) = 0" using frameCursor_changes [of es "fst (top (stB s))" 0] es by simp
  have hc: "honest s (frameCursor es (0, 0))" using fc by (simp add: honest_def)
  have covered: "scSyncedThrough ?c = markNo mark" by (simp add: 2(6) needsSync_covered)
  have pos: "position ?c base \<le> top (stB s)"
    using D(2) le(2) fc by (auto simp: 2(6) b position_def writeFrame_def intro!: pair_le split: if_splits)
  have same: "scLagged ?c = scLagged c" "scMatch ?c = scMatch c" "pipeline s' ?c = pipeline s c"
    using s' by (auto simp: 2(6) writeFrame_def pipeline_def)
  have more: "told c q \<Longrightarrow> told ?c q" for q by (auto simp: 2(6) told_def writeFrame_def)
  have change: "told ?c (key x)" if x: "x \<in> set (stLog s)" "hears c x" "base < key x" "\<not> isSync x" for x
  proof -
    obtain f where "f \<in> set es" "key f = key x"
      using replay_tells [OF s h(1) 2(4) fits 2(2) x(1,2) _ x(4)] x(3) b 2(5) by auto
    then show ?thesis by (auto simp: 2(6) told_def writeFrame_def)
  qed
  have newer: "markNo mark < feSync x" "old < key x" if x: "x \<in> set (stLog s)" "base < key x" "isSync x" for x
  proof -
    show "markNo mark < feSync x" using honest_no_sync [OF mark p _ x(1,3)] 2(3) x(2) b by (fastforce simp: leD)
    then show "old < key x" using mark x(1,3) unfolding mark_ok_def by blast
  qed
  have "client_ok s' mi base ?c" unfolding client_ok_def
  proof (intro conjI ballI impI)
    show "in_order (stLog s') (pipeline s' ?c)" using D(1) s' same(3) by simp
    show "position ?c base \<le> top (stB s')" using pos s' by simp
    show "scSkipBelow ?c \<le> fst (top (stB s'))" using le(1) es s' by (simp add: 2(6))
    show "scSyncedThrough ?c \<le> snd (top (stB s'))" using covered mark s' by (simp add: mark_ok_def)
    show "sfID ` set (scFrames ?c) \<subseteq> stIssued s'" using s' by simp
    fix x assume "x \<in> set (stLog s')" and x: "hears ?c x \<and> base < key x"
    then have x': "x \<in> set (stLog s)" "hears c x" "base < key x" using s'(1) same(2) by simp_all
    show "told ?c (key x) \<or> key x \<in> key ` set (pipeline s' ?c)" if l: "\<not> scLagged ?c"
    proof (cases "isSync x")
      case True
      then show ?thesis using D(5) [OF x'(1,2) newer(2) [OF x'(1,3)]] l same more [of "key x"] by metis
    qed (use change x' in blast)
    show "told ?c (key x)" if m: "key x \<le> position ?c base" "feSync x \<notin> mi"
      using change [OF x'] newer(1) [OF x'(1,3)] m(2) log_okD(3) [OF s x'(1)] mi by blast
    show "told ?c (key x)" if m: "if isSync x then feSync x \<le> scSyncedThrough ?c else evHistoryID (feEvent x) \<le> scSkipBelow ?c"
      using change [OF x'] newer(1) [OF x'(1,3)] m covered by (cases "isSync x") auto
  qed
  moreover have ?honest using D(8) hc by (auto simp: 2(6) writeFrame_def split: if_splits)
  ultimately show ?thesis by blast
qed


lemma stream_ok_resume:
  assumes s: "stream_ok s" and c: "gget (brClients (stB s)) k = Some c" and l: "lastID \<noteq> []" and mark: "mark_ok s (stBase s k) mark"
    and cur: "\<forall>p. cursor lastID (stB s) = Some p \<longrightarrow> p \<in> stIssued s" and fits: "replay_fits rt (scMatch c)"
  shows "stream_ok (setClient k (openStream lastID rt mark (stB s) c) (s\<lparr>stOpen := opn,
       stBase := (stBase s)(k := (case cursor lastID (stB s) of None \<Rightarrow> stBase s k | Some p \<Rightarrow> p)),
       stMissed := (stMissed s)(k := {n. markNo mark < n \<and> n \<le> snd (key (syncFrame (stB s)))})\<rparr>))" (is "stream_ok ?s")
proof -
  note S = stream_okD [OF s]
  obtain h where h: "brReplay (stB s) = Some h" using log_okD(1) [OF S(1)] by blast
  have hon: "honest s p" if "cursor lastID (stB s) = Some p" for p using S(4) cur that by blast
  have "client_ok ?s {n. markNo mark < n \<and> n \<le> snd (key (syncFrame (stB s)))}
      (case cursor lastID (stB s) of None \<Rightarrow> stBase s k | Some p \<Rightarrow> p) (openStream lastID rt mark (stB s) c) \<and>
    (\<forall>f \<in> set (scFrames (openStream lastID rt mark (stB s) c)). sfID f \<notin> stIssued s \<longrightarrow> honest s (sfID f))"
    by (rule client_ok_resume [OF S(1) S(5) [OF c] h l mark hon fits refl]) (auto simp: setClient_def top_def [symmetric] intro!: top_cong)
  then show ?thesis by (intro stream_ok_client [OF s]) auto
qed

lemma stream_ok_frame:
  assumes "stream_ok s" "brReplay (stB s') = brReplay (stB s)" "brLastSync (stB s') = brLastSync (stB s)" "brInbox (stB s') = brInbox (stB s)"
    "brClients (stB s') = brClients (stB s)" "stDue s' = stDue s" "stLog s' = stLog s" "stEntries s' = stEntries s"
    "stIssued s' = stIssued s" "stBase s' = stBase s" "stMissed s' = stMissed s"
  shows "stream_ok s'"
proof -
  have top: "top (stB s') = top (stB s)" by (rule top_cong [OF assms(2,3)])
  show ?thesis using assms top unfolding stream_ok_def log_ok_def honest_def client_ok_def pipeline_def by simp
qed

lemma stream_ok_start:
  assumes "recorded n h lg"
  shows "stream_ok \<lparr>stB = NewBroadcaster (Some h) epoch, stDue = [], stLog = [], stEntries = lg, stIssued = {},
     stBase = (\<lambda>_. (0, 0)), stOpen = {}, stMark = (\<lambda>_. None), stMissed = (\<lambda>_. {})\<rparr>"
  using assms by (auto simp: stream_ok_def log_ok_def NewBroadcaster_def in_order_def)

text \<open>The clients whose replay has read the newest sync and not yet the history.\<close>

definition link_ok :: "stream \<Rightarrow> bool" where
  "link_ok s \<longleftrightarrow> (\<forall>k c. gget (brClients (stB s)) k = Some c \<longrightarrow> k \<notin> stOpen s \<longrightarrow> stBase s k \<le> top (stB s) \<and>
     (\<forall>mark. stMark s k = Some mark \<longrightarrow> mark_ok s (stBase s k) mark))"

text \<open>Steps that add nothing to what was notified but what lies beyond everything before.\<close>

lemma link_ok_grow:
  assumes "link_ok s" "top_grows (stB s) (stB s')"
    "\<And>x. x \<in> set (stLog s') \<Longrightarrow> x \<in> set (stLog s) \<or> (isSync x \<longrightarrow> snd (top (stB s)) < feSync x \<and> top (stB s) < key x)"
    "\<And>k c. gget (brClients (stB s')) k = Some c \<Longrightarrow> k \<notin> stOpen s' \<Longrightarrow> k \<notin> stOpen s \<and> stBase s' k = stBase s k \<and> stMark s' k = stMark s k \<and>
       (\<exists>c. gget (brClients (stB s)) k = Some c)"
  shows "link_ok s'"
  unfolding link_ok_def
proof (intro allI impI conjI)
  fix k c assume "gget (brClients (stB s')) k = Some c" "k \<notin> stOpen s'"
  from assms(4) [OF this] have k: "stBase s' k = stBase s k" "stMark s' k = stMark s k" "stBase s k \<le> top (stB s)"
    "\<And>mark. stMark s k = Some mark \<Longrightarrow> mark_ok s (stBase s k) mark"
    using assms(1) unfolding link_ok_def by auto
  show "stBase s' k \<le> top (stB s')" using top_grows_le [OF assms(2)] k(1,3) by simp
  fix mark assume "stMark s' k = Some mark"
  then have m: "mark_ok s (stBase s k) mark" using k(2,4) by simp
  have "(feSync x \<le> markNo mark \<longrightarrow> (\<exists>q n. mark = Some (q, n) \<and> evHistoryID (feEvent x) \<le> q)) \<and> (markNo mark < feSync x \<longrightarrow> stBase s k < key x)"
    if x: "x \<in> set (stLog s')" "isSync x" for x
  proof (cases "x \<in> set (stLog s)")
    case True
    then show ?thesis using m x(2) unfolding mark_ok_def by blast
  next
    case False
    then have n: "snd (top (stB s)) < feSync x" "top (stB s) < key x" using assms(3) x by blast+
    then have "stBase s k < key x" using k(3) by (meson le_less_trans)
    then show ?thesis using m n unfolding mark_ok_def by auto
  qed
  then show "mark_ok s' (stBase s' k) mark" using m k(1) assms(2) unfolding mark_ok_def top_grows_def by auto
qed

text \<open>What the steps leave alone.\<close>

lemma clients_Broadcast: "gget (brClients (Broadcast ev b)) k = Some c \<Longrightarrow> \<exists>c'. gget (brClients b) k = Some c'"
  by (auto simp: Broadcast_def gget_mapClients recordSync_def Let_def split: if_splits)

lemma clients_fanOut: "gget (brClients (fanOut b)) k = Some c \<Longrightarrow> \<exists>c'. gget (brClients b) k = Some c'"
  by (auto simp: fanOut_def gget_mapClients split: list.splits)

lemma top_fanOut: "top (fanOut b) = top b"
  by (rule top_cong) (auto simp: fanOut_def split: list.split)

lemma link_ok_peek:
  assumes "log_ok s" "link_ok s" "k \<notin> stOpen s"
  shows "link_ok (s\<lparr>stMark := (stMark s)(k := Some (brLastSync (stB s)))\<rparr>)"
proof -
  have n: "markNo (brLastSync (stB s)) = snd (top (stB s))" by (simp add: markNo_def top_eq split: option.split)
  have "mark_ok s base (brLastSync (stB s))" for base
    using log_okD(3) [OF assms(1)] unfolding mark_ok_def n by fastforce
  then show ?thesis using assms(2) unfolding link_ok_def mark_ok_def by auto
qed

lemma sse_run_ok_link: "sse_run s \<Longrightarrow> stream_ok s \<and> link_ok s"
proof (induction rule: sse_run.induct)
  case (start n h lg epoch)
  then show ?case using stream_ok_start by (simp add: link_ok_def NewBroadcaster_def)
next
  case (change s h e ev now)
  have g: "top_grows (stB s) ((stB s)\<lparr>brReplay := Some (snd (Append now e h))\<rparr>)" by (rule top_recorded(3) [OF change(2)]) simp_all
  have st: "stream_ok s" "link_ok s" using change.IH by simp_all
  show ?case
    by (rule conjI [OF stream_ok_change [OF st(1) change.hyps(2-7)] link_ok_grow [OF st(2)]])
       (use g change.hyps(5) in \<open>auto simp: isSync_def\<close>)
next
  case (recover s h e now)
  have g: "top_grows (stB s) ((stB s)\<lparr>brReplay := Some (snd (Append now e h))\<rparr>)" by (rule top_recorded(3) [OF recover(2)]) simp_all
  have st: "stream_ok s" "link_ok s" using recover.IH by simp_all
  show ?case by (rule conjI [OF stream_ok_recover [OF st(1) recover.hyps(2-4)] link_ok_grow [OF st(2)]]) (use g in auto)
next
  case (dispatch s x)
  have "\<not> isSync x" using dispatch.IH dispatch.hyps(2) by (auto simp: stream_ok_def log_ok_def)
  then have g: "top (Broadcast (feEvent x) (stB s)) = top (stB s)" by (intro top_cong) (simp_all add: Broadcast_def isSync_def)
  have st: "stream_ok s" "link_ok s" using dispatch.IH by simp_all
  show ?case by (rule conjI [OF stream_ok_dispatch [OF st(1) dispatch.hyps(2)] link_ok_grow [OF st(2)]]) (use g in \<open>auto simp: top_grows_def dest: clients_Broadcast\<close>)
next
  case (resync s ev)
  let ?y = "\<lparr>feEvent = ev, feSync = fst (recordSync (evHistoryID ev) (stB s))\<rparr>"
  note B = Broadcast_sync [OF resync.hyps(3,4), of ?y]
  have g: "top_grows (stB s) (Broadcast ev (stB s))" "snd (top (stB s)) < feSync ?y" "top (stB s) < key ?y"
    using B(3-5) by (cases "top (stB s)"; simp add: top_grows_def key_def less_prod_def)+
  have st: "stream_ok s" "link_ok s" using resync.IH by simp_all
  show ?case by (rule conjI [OF stream_ok_resync [OF st(1) resync.hyps(2-4) refl] link_ok_grow [OF st(2)]]) (use g in \<open>auto dest: clients_Broadcast\<close>)
next
  case (fan s)
  have st: "stream_ok s" "link_ok s" using fan.IH by simp_all
  show ?case by (rule conjI [OF stream_ok_fan [OF st(1)] link_ok_grow [OF st(2)]]) (auto simp: top_grows_def top_fanOut dest: clients_fanOut)
next
  case (connect s k m owner b')
  have b: "brReplay b' = brReplay (stB s)" "brLastSync b' = brLastSync (stB s)" "brClients b' = gset (brClients (stB s)) k (newClient m owner)"
    using connect.hyps(3) by (auto simp: admitClient_def split: if_splits)
  have t: "top b' = top (stB s)" by (rule top_cong) (simp_all add: b)
  have st: "stream_ok s" "link_ok s" using connect.IH by simp_all
  show ?case using st(2) t by (intro conjI stream_ok_connect [OF st(1) connect.hyps(3)]) (auto simp: link_ok_def mark_ok_def top_def b(3) split: if_splits)
next
  case (fresh s k)
  have st: "stream_ok s" "link_ok s" using fresh.IH by simp_all
  show ?case by (rule conjI [OF stream_ok_frame [OF st(1)] link_ok_grow [OF st(2)]]) simp_all
next
  case (peek s k)
  have st: "stream_ok s" "link_ok s" using peek.IH by simp_all
  show ?case by (rule conjI [OF stream_ok_frame [OF st(1)] link_ok_peek [OF _ st(2) peek.hyps(2)]]) (use stream_okD(1) [OF st(1)] in simp_all)
next
  case (resume s k c mark lastID rt)
  have st: "stream_ok s" "link_ok s" using resume.IH by simp_all
  have m: "mark_ok s (stBase s k) mark" using st(2) resume.hyps unfolding link_ok_def by blast
  have "stream_ok (setClient k (openStream lastID rt mark (stB s) c) (s\<lparr>stOpen := insert k (stOpen s),
       stBase := (stBase s)(k := (case cursor lastID (stB s) of None \<Rightarrow> stBase s k | Some p \<Rightarrow> p)),
       stMissed := (stMissed s)(k := {n. markNo mark < n \<and> n \<le> snd (key (syncFrame (stB s)))})\<rparr>))" (is "stream_ok ?s")
    using resume.hyps by (intro stream_ok_resume [OF st(1) _ _ m]) simp_all
  moreover have "top (stB ?s) = top (stB s)" by (rule top_cong) (simp_all add: setClient_def)
  then have "link_ok ?s" by (intro link_ok_grow [OF st(2)]) (auto simp: setClient_def top_grows_def split: if_splits)
  ultimately show ?case by blast
next
  case (receive s k c)
  have "top (stB (setClient k (receive c) s)) = top (stB s)" by (rule top_cong) (simp_all add: setClient_def)
  moreover have st: "stream_ok s" "link_ok s" using receive.IH by simp_all
  ultimately show ?case using receive.hyps(2)
    by (intro conjI stream_ok_receive [OF st(1)] link_ok_grow [OF st(2)]) (auto simp: setClient_def top_grows_def split: if_splits)
next
  case (tick s k c)
  have "top (stB (setClient k (tick (stB s) c) s)) = top (stB s)" by (rule top_cong) (simp_all add: setClient_def)
  moreover have st: "stream_ok s" "link_ok s" using tick.IH by simp_all
  ultimately show ?case using tick.hyps(2)
    by (intro conjI stream_ok_tick [OF st(1)] link_ok_grow [OF st(2)]) (auto simp: setClient_def top_grows_def split: if_splits)
next
  case (leave s k c)
  have b: "brReplay (leave k (stB s)) = brReplay (stB s)" "brLastSync (leave k (stB s)) = brLastSync (stB s)"
      "brClients (leave k (stB s)) = gdel (brClients (stB s)) k"
    by (simp_all add: leave_def leave.hyps(2) Let_def)
  have t: "top (leave k (stB s)) = top (stB s)" by (rule top_cong) (simp_all add: b)
  have st: "stream_ok s" "link_ok s" using leave.IH by simp_all
  show ?case by (rule conjI [OF stream_ok_leave [OF st(1) leave.hyps(2)] link_ok_grow [OF st(2)]]) (use t in \<open>auto simp: top_grows_def b(3) split: if_splits\<close>)
next
  case (close s)
  have t: "top (CloseBroadcaster (stB s)) = top (stB s)" by (rule top_cong) (simp_all add: CloseBroadcaster_def)
  have st: "stream_ok s" "link_ok s" using close.IH by simp_all
  show ?case by (rule conjI [OF stream_ok_frame [OF st(1)] link_ok_grow [OF st(2)]]) (use t in \<open>simp_all add: top_grows_def CloseBroadcaster_def\<close>)
qed

lemma sse_run_ok: "sse_run s \<Longrightarrow> stream_ok s"
  using sse_run_ok_link by blast


section \<open>What a client can rely on\<close>

text \<open>
  C4. No event is lost silently: in every interleaving of changes, resyncs, full buffers, reconnects (each in the two steps the replay reads in) and
  departures, an event after a client's starting point that its filter admits and that is not beyond the id of the client's last frame was written to
  it, or covered by a sync that was, unless it is a sync broadcast while the client's replay stood between reading the newest sync and reading the
  history; and once nothing is in transit to a client that is not marked as lagging, everything was, those syncs too. The filter is fixed over the
  connection, and of a stream that is replayed it tells the same of an event and of what the history keeps of it (the streams that are replayed are
  like that: \<open>replayed_streams_fit\<close> in \<open>Sse_Wire\<close>).
\<close>

theorem sse_no_silent_gap:
  assumes "sse_run s" "gget (brClients (stB s)) k = Some c" "x \<in> set (stLog s)" "accepts (scMatch c) (feEvent x)" "stBase s k < key x"
  shows "(key x \<le> position c (stBase s k) \<and> feSync x \<notin> stMissed s k \<longrightarrow> told c (key x)) \<and>
    (\<not> scLagged c \<and> pipeline s c = [] \<longrightarrow> told c (key x))"
proof -
  note D = client_okD [OF stream_okD(5) [OF sse_run_ok [OF assms(1)] assms(2)]]
  show ?thesis using D(5,6) [OF assms(3-5)] by auto
qed

definition ex_event :: sseEvent where
  "ex_event = zeroEvent\<lparr>evType := EventNode, evAction := ''update'', evID := ''n1'', evHistoryID := 1\<rparr>"

definition ex_fe :: frameEvent where
  "ex_fe = \<lparr>feEvent = ex_event, feSync = 0\<rparr>"

definition ex_start :: stream where
  "ex_start = \<lparr>stB = NewBroadcaster (Some (NewHistory ''i'' 4)) ''e'', stDue = [], stLog = [], stEntries = [], stIssued = {},
     stBase = (\<lambda>_. (0, 0)), stOpen = {}, stMark = (\<lambda>_. None), stMissed = (\<lambda>_. {})\<rparr>"

definition ex_client :: "sseClient \<Rightarrow> frameEvent list \<Rightarrow> stream" where
  "ex_client c inbox = \<lparr>stB = (stB ex_start)\<lparr>brClients := [(7, c)], brOwners := [(''o'', 1)],
       brReplay := Some (snd (Append 5 ex_change (NewHistory ''i'' 4))), brInbox := inbox\<rparr>,
     stDue = [], stLog = [ex_fe], stEntries = [appended 5 ex_change (NewHistory ''i'' 4)],
     stIssued = sfID ` set (scFrames c), stBase = (\<lambda>_. (0, 0)), stOpen = {7}, stMark = (\<lambda>_. None), stMissed = (\<lambda>_. {})\<rparr>"

lemma ex_connected:
  "sse_run (ex_start\<lparr>stB := (stB ex_start)\<lparr>brClients := [(7, newClient None ''o'')], brOwners := [(''o'', 1)]\<rparr>, stOpen := {7}\<rparr>)"
proof -
  have 0: "sse_run ex_start" unfolding ex_start_def by (rule sse_run.start [OF recorded.fresh]) simp
  have b: "admitClient 7 False None ''o'' (stB ex_start) =
      (Serving 7, (stB ex_start)\<lparr>brClients := [(7, newClient None ''o'')], brOwners := [(''o'', 1)]\<rparr>)"
    by (simp add: admitClient_def ex_start_def NewBroadcaster_def MaxClients_def MaxClientsPerOwner_def gor_def)
  have k: "key (syncFrame (stB ex_start)) = (0, 0)"
    by (simp add: key_def syncFrame_def syncEvent_def replayPosition_def ex_start_def NewBroadcaster_def NewHistory_def)
  have "gget (brClients (stB ex_start)) 7 = None" by (simp add: ex_start_def NewBroadcaster_def)
  from sse_run.fresh [OF sse_run.connect [OF 0 this b], of 7] show ?thesis
    by (simp add: k) (simp add: ex_start_def fun_upd_def)
qed

lemma ex_sent: "sse_run (ex_client (newClient None ''o'') [ex_fe])"
proof -
  have g: "gap_clean ex_change" by (simp add: gap_clean_def ex_change_def zeroEntry_def KindGap_def)
  have t: "evType ex_event \<noteq> EventSync" "keptEvent ex_event = replayEvent (appended 5 ex_change (NewHistory ''i'' 4))"
      "replayable (appended 5 ex_change (NewHistory ''i'' 4))"
    by (simp_all add: ex_event_def ex_change_def keptEvent_def replayEvent_def replayable_def appended_def zeroEvent_def zeroEntry_def NewHistory_def
        KindAnnotation_def KindChange_def KindGap_def Let_def)
  let ?s = "ex_start\<lparr>stB := (stB ex_start)\<lparr>brClients := [(7, newClient None ''o'')], brOwners := [(''o'', 1)]\<rparr>, stOpen := {7}\<rparr>"
  have h: "brReplay (stB ?s) = Some (NewHistory ''i'' 4)" "stDue ?s = []" by (simp_all add: ex_start_def NewBroadcaster_def)
  note 1 = sse_run.change [OF ex_connected h g t]
  have b: "Broadcast ex_event b = b\<lparr>brInbox := brInbox b @ [ex_fe]\<rparr>" if "brInbox b = []" for b
    using that by (simp add: Broadcast_def t(1) inboxSize_def ex_fe_def)
  from sse_run.dispatch [OF 1, of ex_fe] show ?thesis
    by (simp add: ex_fe_def ex_start_def NewBroadcaster_def b) (simp add: ex_client_def ex_start_def NewBroadcaster_def newClient_def ex_fe_def)
qed

lemma ex_told: "sse_run (ex_client ((newClient None ''o'')\<lparr>scFrames := [\<lparr>sfID = (1, 0), sfEvents = [ex_fe]\<rparr>]\<rparr>) [])"
proof -
  let ?c0 = "newClient None ''o''" let ?c1 = "?c0\<lparr>scQueue := [ex_fe]\<rparr>" let ?c2 = "?c0\<lparr>scBatch := [ex_fe]\<rparr>"
  have 1: "sse_run (ex_client ?c1 [])"
    using sse_run.fan [OF ex_sent]
    by (simp add: ex_client_def fanOut_def mapClients_def deliver_def admitted_def newClient_def queueSize_def
        ex_start_def NewBroadcaster_def)
  have r: "receive ?c1 = ?c2" by (simp add: receive_def newClient_def ex_fe_def ex_event_def)
  have 2: "sse_run (ex_client ?c2 [])"
    using sse_run.receive [OF 1, of 7 ?c1] r by (simp add: ex_client_def setClient_def newClient_def ex_start_def NewBroadcaster_def)
  have t: "tick b ?c2 = ?c0\<lparr>scFrames := [\<lparr>sfID = (1, 0), sfEvents = [ex_fe]\<rparr>]\<rparr>" for b
    by (simp add: tick_def newClient_def writeFrame_def ex_fe_def ex_event_def zeroEvent_def)
  show ?thesis
    using sse_run.tick [OF 2, of 7 ?c2] t by (simp add: ex_client_def setClient_def newClient_def ex_start_def NewBroadcaster_def)
qed

theorem sse_no_silent_gap_witness:
  "told ((newClient None ''o'')\<lparr>scFrames := [\<lparr>sfID = (1, 0), sfEvents = [ex_fe]\<rparr>]\<rparr>) (key ex_fe)"
  using sse_no_silent_gap [OF ex_told, of 7 "(newClient None ''o'')\<lparr>scFrames := [\<lparr>sfID = (1, 0), sfEvents = [ex_fe]\<rparr>]\<rparr>" ex_fe]
  by (simp add: ex_client_def position_def newClient_def accepts_def admitted_def key_def ex_fe_def ex_event_def)

end
