(* ===== verification/Sse_Wire.thy ===== *)
theory Sse_Wire
  imports Sse_Run Acl_Policy Stacks "HOL-Library.Multiset"
begin

text \<open>
  The text of a stream, the ids in it, the filters of the streams and the caps on connections: the rest of
  \<open>internal/api/sse/broadcaster.go\<close>, \<open>internal/api/sse/slots.go\<close>, and the filters that \<open>internal/api/dispatch.go\<close> puts on the streams. The JSON encoder is a parameter.
\<close>

section \<open>The wire format\<close>

definition ResourcePath :: "event_type \<Rightarrow> string \<Rightarrow> string" where
  "ResourcePath typ i = (case typ of
     EventNode \<Rightarrow> ''/nodes/'' @ i
   | EventService \<Rightarrow> ''/services/'' @ i
   | EventTask \<Rightarrow> ''/tasks/'' @ i
   | EventConfig \<Rightarrow> ''/configs/'' @ i
   | EventSecret \<Rightarrow> ''/secrets/'' @ i
   | EventNetwork \<Rightarrow> ''/networks/'' @ i
   | EventVolume \<Rightarrow> ''/volumes/'' @ i
   | EventStack \<Rightarrow> ''/stacks/'' @ i
   | EventAnnotation \<Rightarrow> ''/annotations/'' @ i
   | _ \<Rightarrow> [])"

definition ResourceType :: "event_type \<Rightarrow> string" where
  "ResourceType typ = (case typ of
     EventNode \<Rightarrow> ''Node''
   | EventService \<Rightarrow> ''Service''
   | EventTask \<Rightarrow> ''Task''
   | EventConfig \<Rightarrow> ''Config''
   | EventSecret \<Rightarrow> ''Secret''
   | EventNetwork \<Rightarrow> ''Network''
   | EventVolume \<Rightarrow> ''Volume''
   | EventStack \<Rightarrow> ''Stack''
   | EventGap \<Rightarrow> ''Gap''
   | EventAnnotation \<Rightarrow> ''Annotation''
   | EventSync \<Rightarrow> [])"

record wireEvent =
  weAtID :: string
  weAtType :: string
  weType :: string
  weAction :: string
  weID :: string
  weResource :: "payload option"
  weTimestamp :: int
  weUntil :: int

definition ToSSEEvent :: "sseEvent \<Rightarrow> string \<Rightarrow> wireEvent" where
  "ToSSEEvent e basePath = (let
      path0 = (if evType e = EventGap then ''/history#'' @ FormatUint (evHistoryID e) else ResourcePath (evType e) (evID e));
      path = (if path0 \<noteq> [] then basePath @ path0 else path0)
    in \<lparr>weAtID = path, weAtType = ResourceType (evType e), weType = typeName (Some (evType e)), weAction = evAction e, weID = evID e,
        weResource = (if evAction e = ''remove'' then None else evResource e), weTimestamp = evTimestamp e, weUntil = evUntil e\<rparr>)"

definition encodeEvent :: "(wireEvent \<Rightarrow> string) \<Rightarrow> sseEvent \<Rightarrow> string \<Rightarrow> string" where
  "encodeEvent marshal e basePath = marshal (ToSSEEvent e basePath)"

definition newline :: string where "newline = [char_of (10 :: nat)]"

definition joinWith :: "string \<Rightarrow> string list \<Rightarrow> string" where
  "joinWith sep xs = concat (case xs of [] \<Rightarrow> [] | x # rest \<Rightarrow> x # map (\<lambda>y. sep @ y) rest)"

definition writeBatch :: "(wireEvent \<Rightarrow> string) \<Rightarrow> frameEvent list \<Rightarrow> string \<Rightarrow> string \<Rightarrow> string" where
  "writeBatch marshal es basePath epoch = (let
      i = frameID epoch (frameCursor es (0, 0));
      encoded = (\<lambda>e. encodeEvent marshal (feEvent e) basePath)
    in case es of
         [e] \<Rightarrow> ''id: '' @ i @ newline @ ''event: '' @ typeName (Some (evType (feEvent e))) @ newline @ ''data: '' @ encoded e @ newline @ newline
       | _ \<Rightarrow> ''id: '' @ i @ newline @ ''event: batch'' @ newline @ ''data: ['' @ joinWith '','' (map encoded es) @ '']'' @ newline @ newline)"

definition WriteBatch :: "(wireEvent \<Rightarrow> string) \<Rightarrow> sseEvent list \<Rightarrow> string \<Rightarrow> string \<Rightarrow> string" where
  "WriteBatch marshal es basePath epoch = writeBatch marshal (map (\<lambda>e. \<lparr>feEvent = e, feSync = 0\<rparr>) es) basePath epoch"

section \<open>Cursors survive the round trip\<close>

lemma dot_not_digit: "list_all isDigit s \<Longrightarrow> CHR ''.'' \<notin> set s"
  by (auto simp: list_all_iff isDigit_def)

text \<open>
  The id of a frame is the cursor a reconnecting client hands back: reading it gives exactly the position and the sync number it was
  written from, whatever the epoch, and an id written by another process (an epoch of the same length) is refused.
\<close>

theorem cursor_reads_frameID:
  assumes "fst p < 2 ^ 64" "snd p < 2 ^ 64"
  shows "cursor (frameID (brEpoch b) p) b = Some p \<and>
    (length epoch = length (brEpoch b) \<and> epoch \<noteq> brEpoch b \<longrightarrow> cursor (frameID epoch p) b = None)"
proof -
  obtain i q where p: "p = (i, q)" by fastforce
  note i = ParseUint_FormatUint [of i] and q = ParseUint_FormatUint [of q]
  have dot: "CHR ''.'' \<notin> set (FormatUint i)" using FormatUint_digits dot_not_digit by blast
  have pre: "CutPrefix (frameID (brEpoch b) p) (brEpoch b @ ''-'') = (FormatUint i @ (if q > 0 then ''.'' @ FormatUint q else []), True)"
    using CutPrefix_append [of "brEpoch b @ ''-''"] by (simp add: frameID_def p)
  have foreign: "\<not> snd (CutPrefix (frameID epoch p) (brEpoch b @ ''-''))" if "length epoch = length (brEpoch b)" "epoch \<noteq> brEpoch b"
    using that by (auto simp: CutPrefix_def frameID_def prefix_def)
  have whole: "Cut (FormatUint i) ''.'' = (FormatUint i, [], False)" using dot by (simp add: Cut_char_iff)
  have "cursor (frameID (brEpoch b) p) b = Some p"
    using pre assms i q whole Cut_char_found [OF dot] by (cases "q > 0") (simp_all add: cursor_def p)
  moreover have "cursor (frameID epoch p) b = None" if "length epoch = length (brEpoch b)" "epoch \<noteq> brEpoch b"
    using foreign [OF that] by (cases "CutPrefix (frameID epoch p) (brEpoch b @ ''-'')") (simp add: cursor_def)
  ultimately show ?thesis by blast
qed


theorem cursor_reads_frameID_witness:
  "cursor (frameID ''ab'' (12, 3)) (NewBroadcaster None ''ab'') = Some (12, 3) \<and> cursor (frameID ''cd'' (12, 3)) (NewBroadcaster None ''ab'') = None"
  using cursor_reads_frameID [of "(12, 3)" "NewBroadcaster None ''ab''" "''cd''"] by (simp add: NewBroadcaster_def)

section \<open>Whose share of the cap a request draws on\<close>

text \<open>\<open>net.SplitHostPort\<close> gives the host, or fails.\<close>

definition ownerOf :: "(string \<Rightarrow> string option) \<Rightarrow> identity option \<Rightarrow> string \<Rightarrow> string" where
  "ownerOf splitHost ident remoteAddr = (case ident of
     Some i \<Rightarrow> if idProvider i \<noteq> ''none'' then idProvider i @ '':'' @ idSubject i
       else ''addr:'' @ (case splitHost remoteAddr of Some host \<Rightarrow> host | None \<Rightarrow> remoteAddr)
   | None \<Rightarrow> ''addr:'' @ (case splitHost remoteAddr of Some host \<Rightarrow> host | None \<Rightarrow> remoteAddr))"

record slots =
  slTotal :: nat
  slOwners :: "nat gomap"

definition zeroSlots :: slots where
  "zeroSlots = \<lparr>slTotal = 0, slOwners = []\<rparr>"

datatype acquired = CapFull | CallerFull | Acquired

definition Acquire :: "string \<Rightarrow> nat \<Rightarrow> slots \<Rightarrow> acquired \<times> slots" where
  "Acquire owner mx s = (if slTotal s \<ge> mx then (CapFull, s)
     else if gor (slOwners s) owner 0 \<ge> mx div 4 then (CallerFull, s)
     else (Acquired, \<lparr>slTotal = slTotal s + 1, slOwners = gset (slOwners s) owner (gor (slOwners s) owner 0 + 1)\<rparr>))"

definition releaseSlot :: "string \<Rightarrow> slots \<Rightarrow> slots" where
  "releaseSlot owner s = \<lparr>slTotal = slTotal s - 1, slOwners = dropOwner (slOwners s) owner\<rparr>"

definition FullSlots :: "string \<Rightarrow> nat \<Rightarrow> slots \<Rightarrow> bool \<times> bool" where
  "FullSlots owner mx s = (if slTotal s \<ge> mx then (False, True)
     else (gor (slOwners s) owner 0 \<ge> mx div 4, gor (slOwners s) owner 0 \<ge> mx div 4))"

definition InUse :: "slots \<Rightarrow> nat" where
  "InUse s = slTotal s"

text \<open>Callers take slots and give each back once; \<open>held\<close> lists the owners of the slots that are taken.\<close>

inductive slots_run :: "nat \<Rightarrow> slots \<Rightarrow> string list \<Rightarrow> bool" for mx where
  empty: "slots_run mx zeroSlots []"
| take: "slots_run mx s held \<Longrightarrow> Acquire owner mx s = (Acquired, s') \<Longrightarrow> slots_run mx s' (owner # held)"
| give: "slots_run mx s held \<Longrightarrow> owner \<in> set held \<Longrightarrow> slots_run mx (releaseSlot owner s) (remove1 owner held)"

text \<open>A map that counts owners: the number of occurrences in a list, and no entry where there is none.\<close>

definition counts :: "nat gomap \<Rightarrow> string list \<Rightarrow> bool" where
  "counts m os \<longleftrightarrow> (\<forall>ow. gor m ow 0 = count_list os ow \<and> (gget m ow = None \<longleftrightarrow> ow \<notin> set os))"

lemma counts_add: "counts m os \<Longrightarrow> counts (gset m ow (gor m ow 0 + 1)) (ow # os)"
  by (auto simp: counts_def)

lemma count_remove1: "count_list (remove1 x xs) y = count_list xs y - (if x = y then 1 else 0)"
  by (induction xs) (auto simp: count_list_0_iff)

lemma counts_drop:
  assumes "counts m os" "ow \<in> set os" "mset os' = mset (remove1 ow os)"
  shows "counts (dropOwner m ow) os'"
proof -
  have c: "count_list os' x = count_list os x - (if ow = x then 1 else 0)" for x
    using arg_cong [OF assms(3), of "\<lambda>m. count m x"] count_remove1 [of ow os x] by (simp add: count_mset)
  have z: "x \<in> set os' \<longleftrightarrow> count_list os' x \<noteq> 0" "x \<in> set os \<longleftrightarrow> count_list os x \<noteq> 0" for x by (simp_all add: count_list_0_iff)
  show ?thesis using assms(1) unfolding counts_def by (auto simp: c z dropOwner_def Let_def)
qed


text \<open>
  The slots in use are exactly those taken and not given back, in all and for every caller, never more than the cap in all, never more
  than a quarter of it for one caller, and a caller whose slots are all back leaves no entry behind; \<open>Full\<close> answers what \<open>Acquire\<close> would.
\<close>

theorem slots_within_caps:
  assumes "slots_run mx s held"
  shows "InUse s = length held \<and> counts (slOwners s) held \<and> length held \<le> mx \<and> count_list held ow \<le> mx div 4 \<and>
    (snd (FullSlots ow mx s) \<longleftrightarrow> fst (Acquire ow mx s) \<noteq> Acquired) \<and> (fst (FullSlots ow mx s) \<longleftrightarrow> fst (Acquire ow mx s) = CallerFull)"
proof -
  have "slTotal s = length held \<and> counts (slOwners s) held \<and> length held \<le> mx \<and> (\<forall>ow. count_list held ow \<le> mx div 4)"
    using assms
  proof (induction rule: slots_run.induct)
    case empty
    then show ?case by (simp add: zeroSlots_def counts_def)
  next
    case (take s held owner s')
    have a: "slTotal s < mx" "gor (slOwners s) owner 0 < mx div 4" "slTotal s' = slTotal s + 1"
        "slOwners s' = gset (slOwners s) owner (gor (slOwners s) owner 0 + 1)"
      using take.hyps(2) by (auto simp: Acquire_def split: if_splits)
    have "count_list held owner < mx div 4" using a(2) take.IH by (simp add: counts_def)
    then show ?case using a(1,3,4) take.IH counts_add [of "slOwners s" held owner] by simp
  next
    case (give s held owner)
    have "length (remove1 owner held) = length held - 1" using give by (simp add: length_remove1)
    moreover have "count_list (remove1 owner held) ow \<le> mx div 4" for ow using give by (simp add: count_remove1 le_diff_conv trans_le_add1)
    moreover have "counts (dropOwner (slOwners s) owner) (remove1 owner held)" using give counts_drop by blast
    ultimately show ?case using give by (auto simp: releaseSlot_def)
  qed
  then show ?thesis by (auto simp: InUse_def FullSlots_def Acquire_def)
qed

theorem slots_within_caps_witness:
  "InUse (snd (Acquire ''a'' 8 zeroSlots)) = 1"
proof -
  have "slots_run 8 (snd (Acquire ''a'' 8 zeroSlots)) [''a'']"
    by (rule slots_run.take [OF slots_run.empty]) (simp add: Acquire_def zeroSlots_def)
  from slots_within_caps [OF this, of "''a''"] show ?thesis by simp
qed

section \<open>The caps on connections\<close>

definition owners :: "broadcaster \<Rightarrow> string list" where
  "owners b = map (\<lambda>(_, c). scOwner c) (brClients b)"

definition caps_ok :: "broadcaster \<Rightarrow> bool" where
  "caps_ok b \<longleftrightarrow> gwf (brClients b) \<and> counts (brOwners b) (owners b) \<and> length (brClients b) \<le> MaxClients \<and>
     (\<forall>ow. count_list (owners b) ow \<le> MaxClientsPerOwner)"

lemma update_new: "gget m k = None \<Longrightarrow> gset m k v = m @ [(k, v)]"
  by (induction m) (auto split: if_splits)

lemma owners_update: "gget m k = Some c \<Longrightarrow> scOwner c' = scOwner c \<Longrightarrow>
    map (\<lambda>(_, c). scOwner c) (gset m k c') = map (\<lambda>(_, c). scOwner c) m"
  by (induction m) (auto split: if_splits)

lemma owners_delete: "gwf m \<Longrightarrow> gget m k = Some c \<Longrightarrow>
    mset (map (\<lambda>(_, c). scOwner c) (gdel m k)) = mset (remove1 (scOwner c) (map (\<lambda>(_, c). scOwner c) m)) \<and> length (gdel m k) + 1 = length m"
proof (induction m)
  case (Cons e m)
  obtain k' c' where e: "e = (k', c')" by fastforce
  show ?case
  proof (cases "k' = k")
    case True
    then have "gdel m k = m" using Cons.prems(1) by (intro delete_id) (auto simp: e)
    then show ?thesis using Cons.prems(2) True by (simp add: e)
  next
    case False
    then have IH: "mset (map (\<lambda>(_, c). scOwner c) (gdel m k)) = mset (remove1 (scOwner c) (map (\<lambda>(_, c). scOwner c) m))"
        "length (gdel m k) + 1 = length m"
      using Cons by (auto simp: e)
    have "scOwner c \<in># mset (map (\<lambda>(_, c). scOwner c) m)" using Cons.prems(2) False e map_of_SomeD by fastforce
    from insert_DiffM [OF this] show ?thesis using IH False by (auto simp: e)
  qed
qed simp


lemma caps_ok_frame:
  assumes "caps_ok b" "brOwners b' = brOwners b" "owners b' = owners b" "gkeys (brClients b') = gkeys (brClients b)"
  shows "caps_ok b'"
proof -
  have "length (brClients b') = length (brClients b)" using assms(4) by (metis length_map)
  then show ?thesis using assms by (simp add: caps_ok_def)
qed

lemma owners_mapClients: "(\<And>c. scOwner (f c) = scOwner c) \<Longrightarrow> owners (mapClients f b) = owners b"
  by (simp add: owners_def mapClients_def split_def)

lemma keys_mapClients [simp]: "gkeys (brClients (mapClients f b)) = gkeys (brClients b)"
  by (simp add: mapClients_def split_def)

lemma brOwners_mapClients [simp]: "brOwners (mapClients f b) = brOwners b"
  by (simp add: mapClients_def)

lemma owners_cong [simp]: "owners (b\<lparr>brInbox := i\<rparr>) = owners b" "owners (b\<lparr>brLastSync := l\<rparr>) = owners b" "owners (b\<lparr>brReplay := r\<rparr>) = owners b"
  by (simp_all add: owners_def)

lemma scOwner_steps [simp]:
  "scOwner (deliver e c) = scOwner c" "scOwner (receive c) = scOwner c" "scOwner (tick b c) = scOwner c" "scOwner (writeSync b c) = scOwner c"
  "scOwner (writeFrame es c) = scOwner c"
  by (auto simp: deliver_def receive_def tick_def writeSync_def writeFrame_def Let_def split: option.split list.split)

lemma scOwner_openStream [simp]: "scOwner (openStream lastID rt mark b c) = scOwner c"
  by (auto simp: openStream_def replayEvents_def Let_def split: option.split prod.split)

lemma caps_ok_Broadcast: "caps_ok b \<Longrightarrow> caps_ok (Broadcast e b)"
  by (elim caps_ok_frame) (auto simp: Broadcast_def recordSync_def Let_def owners_mapClients)

lemma caps_ok_fanOut: "caps_ok b \<Longrightarrow> caps_ok (fanOut b)"
  by (elim caps_ok_frame) (auto simp: fanOut_def owners_mapClients split: list.split)

lemma gkeys_gset_Some: "gget m k = Some v \<Longrightarrow> gkeys (gset m k v') = gkeys m"
  by (induction m) (auto split: if_splits)

lemma caps_ok_client:
  assumes "caps_ok b" "gget (brClients b) k = Some c" "scOwner c' = scOwner c"
  shows "caps_ok (b\<lparr>brClients := gset (brClients b) k c'\<rparr>)"
  by (rule caps_ok_frame [OF assms(1)]) (simp_all add: owners_def owners_update [OF assms(2,3)] gkeys_gset_Some [OF assms(2)])

lemma caps_ok_admit:
  assumes "caps_ok b" "gget (brClients b) k = None" "admitClient k head m owner b = (Serving k, b')"
  shows "caps_ok b'"
proof -
  have a: "length (brClients b) < MaxClients" "gor (brOwners b) owner 0 < MaxClientsPerOwner"
      "brClients b' = brClients b @ [(k, newClient m owner)]" "brOwners b' = gset (brOwners b) owner (gor (brOwners b) owner 0 + 1)"
    using assms(3) update_new [OF assms(2)] by (auto simp: admitClient_def split: if_splits)
  have o': "owners b' = owners b @ [owner]" by (simp add: owners_def a(3) newClient_def)
  have "counts (brOwners b') (owners b')"
    using counts_add [of "brOwners b" "owners b" owner] assms(1) by (auto simp: caps_ok_def counts_def a(4) o')
  moreover have "gwf (brClients b')" using assms(1,2) by (auto simp: caps_ok_def a(3) map_of_eq_None_iff)
  moreover have "count_list (owners b) owner < MaxClientsPerOwner" using a(2) assms(1) by (simp add: caps_ok_def counts_def)
  ultimately show ?thesis using assms(1) a(1,3) by (auto simp: caps_ok_def o')
qed

lemma caps_ok_leave:
  assumes "caps_ok b" "gget (brClients b) k = Some c"
  shows "caps_ok (leave k b)"
proof -
  have w: "gwf (brClients b)" "counts (brOwners b) (owners b)" using assms(1) by (simp_all add: caps_ok_def)
  have d: "mset (owners (leave k b)) = mset (remove1 (scOwner c) (owners b))" "length (brClients (leave k b)) + 1 = length (brClients b)"
    using owners_delete [OF w(1) assms(2)] by (simp_all add: owners_def leave_def assms(2) Let_def)
  have m: "scOwner c \<in> set (owners b)" using map_of_SomeD [OF assms(2)] by (force simp: owners_def)
  have "counts (brOwners (leave k b)) (owners (leave k b))"
    using counts_drop [OF w(2) m d(1)] by (simp add: leave_def assms(2) Let_def)
  moreover have "count_list (owners (leave k b)) ow = count_list (remove1 (scOwner c) (owners b)) ow" for ow
    using arg_cong [OF d(1), of "\<lambda>m. count m ow"] by (simp add: count_mset)
  ultimately show ?thesis using assms(1) d(2) by (auto simp: caps_ok_def count_remove1 leave_def assms(2) Let_def le_diff_conv trans_le_add1)
qed


lemma sse_run_caps: "sse_run s \<Longrightarrow> caps_ok (stB s)"
proof (induction rule: sse_run.induct)
  case (start n h lg epoch)
  show ?case by (simp add: caps_ok_def NewBroadcaster_def owners_def counts_def)
next
  case (resume s k c mark lastID rt)
  then show ?case using caps_ok_client [OF resume.IH, of k c] by (simp add: setClient_def)
next
  case (receive s k c)
  then show ?case using caps_ok_client [OF receive.IH, of k c] by (simp add: setClient_def)
next
  case (tick s k c)
  then show ?case using caps_ok_client [OF tick.IH, of k c] by (simp add: setClient_def)
next
  case (connect s k m owner b')
  then show ?case using caps_ok_admit by fastforce
next
  case (close s)
  then show ?case by (simp add: caps_ok_def CloseBroadcaster_def owners_def)
next
  case (change s h e ev now)
  then show ?case by (simp add: caps_ok_def owners_def)
next
  case (recover s h e now)
  then show ?case by (simp add: caps_ok_def owners_def)
qed (simp_all add: caps_ok_Broadcast caps_ok_fanOut caps_ok_leave)

text \<open>
  At every moment at most 256 streams are open, at most 64 of them for one caller, the per-caller counters are exactly the numbers of open
  streams with no entry for a caller without one, and a request is refused for its caller's share only when that caller really holds 64.
\<close>

theorem connection_caps:
  assumes "sse_run s"
  shows "length (brClients (stB s)) \<le> 256 \<and> counts (brOwners (stB s)) (owners (stB s)) \<and> count_list (owners (stB s)) ow \<le> 64 \<and>
    (fst (admitClient k head m ow (stB s)) = TooManyFromClient \<longrightarrow> count_list (owners (stB s)) ow = 64)"
  using sse_run_caps [OF assms]
  by (auto simp: caps_ok_def MaxClients_def MaxClientsPerOwner_def admitClient_def counts_def intro: le_antisym split: if_splits)

theorem connection_caps_witness: "count_list (owners (stB (ex_client (newClient None ''o'') [ex_fe]))) ''o'' \<le> 64"
  using connection_caps [OF ex_sent, of "''o''"] by simp

section \<open>The filters of the streams\<close>

definition TypeMatcher :: "event_type \<Rightarrow> sseEvent \<Rightarrow> bool" where
  "TypeMatcher typ e \<longleftrightarrow> evType e = typ \<or> evType e = EventSync"

definition ServiceListMatcher :: "sseEvent \<Rightarrow> bool" where
  "ServiceListMatcher e = (case evType e of EventService \<Rightarrow> True | EventTask \<Rightarrow> True | EventNode \<Rightarrow> True | EventSync \<Rightarrow> True | _ \<Rightarrow> False)"

definition ResourceMatcher :: "event_type \<Rightarrow> string \<Rightarrow> sseEvent \<Rightarrow> bool" where
  "ResourceMatcher typ i = (case typ of
     EventNode \<Rightarrow> (\<lambda>e. if evType e = EventSync then True
       else if evType e = EventNode \<and> evID e = i then True
       else if evType e = EventTask then (case evResource e of Some (PResource (RTask t)) \<Rightarrow> tNodeID t = i | _ \<Rightarrow> False)
       else False)
   | EventService \<Rightarrow> (\<lambda>e. if evType e = EventSync then True
       else if evType e = EventService \<and> evID e = i then True
       else if evType e = EventTask then (case evResource e of Some (PResource (RTask t)) \<Rightarrow> tServiceID t = i | _ \<Rightarrow> False)
       else False)
   | EventTask \<Rightarrow> (\<lambda>e. evType e = EventSync \<or> evType e = EventTask \<and> evID e = i)
   | _ \<Rightarrow> (\<lambda>e. evType e = EventSync \<or> evType e = typ \<and> evID e = i))"

definition StackMatcher :: "'a inventory_scheme \<Rightarrow> string \<Rightarrow> sseEvent \<Rightarrow> bool" where
  "StackMatcher c name e \<longleftrightarrow> (if evType e = EventSync then True
     else if evAction e = ''remove'' then evStack e = name
     else if evType e \<in> {EventService, EventConfig, EventSecret, EventNetwork, EventVolume} then StackContains name (evType e) (evID e) c
     else if evType e = EventTask
       then (case evResource e of Some (PResource (RTask t)) \<Rightarrow> StackContains name EventService (tServiceID t) c | _ \<Rightarrow> False)
     else False)"

text \<open>Whatever the filter, a resync reaches the stream.\<close>

lemma syncs_pass_filters:
  "evType e = EventSync \<Longrightarrow> TypeMatcher typ e \<and> ServiceListMatcher e \<and> ResourceMatcher typ i e \<and> StackMatcher c name e"
  by (simp add: TypeMatcher_def ServiceListMatcher_def ResourceMatcher_def StackMatcher_def split: event_type.split)

section \<open>What the replayed streams admit\<close>

text \<open>
  The streams that are replayed, \<open>internal/api/dispatch.go\<close> and \<open>internal/cluster/eventacl.go\<close>: those of one type, of the services, and of all
  events (whose \<open>types\<close> parameter is here the list of the names in it), each under the caller's access control. \<open>can\<close> and \<open>mayRead\<close> are the
  evaluator's answers for the caller.
\<close>

definition eventTypeName :: "event_type \<Rightarrow> string" where
  "eventTypeName t = (case t of
     EventNode \<Rightarrow> ''node''
   | EventService \<Rightarrow> ''service''
   | EventTask \<Rightarrow> ''task''
   | EventConfig \<Rightarrow> ''config''
   | EventSecret \<Rightarrow> ''secret''
   | EventNetwork \<Rightarrow> ''network''
   | EventVolume \<Rightarrow> ''volume''
   | EventStack \<Rightarrow> ''stack''
   | EventSync \<Rightarrow> ''sync''
   | EventGap \<Rightarrow> ''gap''
   | EventAnnotation \<Rightarrow> ''annotation'')"

definition TypesFilter :: "string list option \<Rightarrow> event_match" where
  "TypesFilter types = map_option (\<lambda>names e. evType e = EventSync \<or> evType e = EventGap \<or> eventTypeName (evType e) \<in> set names) types"

definition CanReadEvent :: "sseEvent \<Rightarrow> (string \<Rightarrow> bool) \<Rightarrow> bool" where
  "CanReadEvent ev can = (if can (eventTypeName (evType ev) @ '':'' @ evName ev) then True
     else evService ev \<noteq> [] \<and> can (''service:'' @ evService ev) \<or> evStack ev \<noteq> [] \<and> can (''stack:'' @ evStack ev))"

definition aclMatchWrap :: "(string \<Rightarrow> bool) \<Rightarrow> (annotation \<Rightarrow> bool) \<Rightarrow> event_match \<Rightarrow> sseEvent \<Rightarrow> bool" where
  "aclMatchWrap can mayRead inner ev = (if (case inner of None \<Rightarrow> False | Some f \<Rightarrow> \<not> f ev) then False
     else if evType ev = EventSync then True
     else if evType ev = EventGap then True
     else (case evResource ev of
         Some (PAnnotation a) \<Rightarrow> if evType ev = EventAnnotation then mayRead a else CanReadEvent ev can
       | _ \<Rightarrow> CanReadEvent ev can))"

lemma aclMatchWrap_kept:
  "\<forall>f. inner = Some f \<longrightarrow> f (keptEvent e) = f e \<Longrightarrow> aclMatchWrap can mayRead inner (keptEvent e) = aclMatchWrap can mayRead inner e"
  by (auto simp: aclMatchWrap_def CanReadEvent_def keptEvent_def split: option.split payload.split)

lemma asRemoval_kept: "asRemoval (keptEvent e) = (if evType e = EventAnnotation then asRemoval e else None)"
  by (simp add: asRemoval_def keptEvent_def)

lemma asRemoval_annotation: "asRemoval e = Some r \<Longrightarrow> evType e = EventAnnotation"
  by (auto simp: asRemoval_def split: option.splits payload.splits if_splits)

lemma kept_fits:
  assumes "\<And>e. f (keptEvent e) = f e"
  shows "accepts (Some f) (keptEvent e) = accepts (Some f) e"
proof (cases "evType e = EventAnnotation")
  case False
  then show ?thesis using assms [of e] asRemoval_annotation [of e] by (auto simp: accepts_def admitted_def asRemoval_kept split: option.split)
qed (simp add: keptEvent_def)

text \<open>Each of them tells the same of an event and of what the history keeps of it, and admits nothing its replay leaves out.\<close>

theorem replayed_streams_fit:
  "replay_fits (ReplayType t) (Some (aclMatchWrap can mayRead (Some (TypeMatcher t)))) \<and>
   replay_fits ReplayAll (Some (aclMatchWrap can mayRead (Some ServiceListMatcher))) \<and>
   replay_fits ReplayAll (Some (aclMatchWrap can mayRead (TypesFilter types)))"
proof -
  have k: "accepts (Some (aclMatchWrap can mayRead inner)) (keptEvent e) = accepts (Some (aclMatchWrap can mayRead inner)) e"
    if "\<forall>f. inner = Some f \<longrightarrow> (\<forall>e. f (keptEvent e) = f e)" for inner e
    by (rule kept_fits) (use that in \<open>simp add: aclMatchWrap_kept\<close>)
  have "evType e = t \<or> evType e = EventSync" if "accepts (Some (aclMatchWrap can mayRead (Some (TypeMatcher t)))) e" for e
    using that by (auto simp: accepts_def admitted_def aclMatchWrap_def TypeMatcher_def asRemoval_def split: option.splits payload.splits if_splits)
  moreover have "accepts (Some (aclMatchWrap can mayRead (Some (TypeMatcher t)))) (keptEvent e) = accepts (Some (aclMatchWrap can mayRead (Some (TypeMatcher t)))) e"
      "accepts (Some (aclMatchWrap can mayRead (Some ServiceListMatcher))) (keptEvent e) = accepts (Some (aclMatchWrap can mayRead (Some ServiceListMatcher))) e"
      "accepts (Some (aclMatchWrap can mayRead (TypesFilter types))) (keptEvent e) = accepts (Some (aclMatchWrap can mayRead (TypesFilter types))) e" for e
    by (rule k; auto simp: kept_id TypeMatcher_def ServiceListMatcher_def TypesFilter_def)+
  ultimately show ?thesis unfolding replay_fits_def by auto
qed

end
