(* ===== verification/Watcher.thy ===== *)
theory Watcher
  imports Cache_Versions
begin

text \<open>
  The watcher of \<open>internal/docker/watcher.go\<close>, which applies what the Docker engine reports to the cache, with the full sync of
  \<open>client.go\<close> and the recovery of a gap of \<open>recover.go\<close>. The engine is outside the program: what it answers (an inspect, a list, a
  message) is an argument of the operation that asks. Four workers apply a batch, each resource under the lock of the cache, so
  a batch takes the order in which they get there as an argument. An operation reads one instant. Logging and metrics are left out.
\<close>

section \<open>Constants and messages\<close>

definition second :: int where
  "second = 10 ^ 9"

definition workerCount :: nat where
  "workerCount = 4"

definition settleAttempts :: nat where
  "settleAttempts = 3"

definition defaultSettleDelay :: int where
  "defaultSettleDelay = 750 * 10 ^ 6"

definition eventReplayMargin :: int where
  "eventReplayMargin = 5 * second"

definition maxBackoff :: int where
  "maxBackoff = 30 * second"

definition fullSyncTimeout :: int where
  "fullSyncTimeout = 120 * second"

definition retrySyncTimeout :: int where
  "retrySyncTimeout = 10 * second"

record message =
  msgType :: string
  msgAction :: string
  msgActorID :: string
  msgAttributes :: labels
  msgTimeNano :: int

datatype eventKey = EventKey (ekType: string) (ekID: string)

record coalesced =
  coAction :: string
  coCreated :: bool

definition coThen :: "coalesced \<Rightarrow> string \<Rightarrow> coalesced" where
  "coThen c action = \<lparr>coAction = action, coCreated = coCreated c \<or> action = ''create''\<rparr>"

definition isContainerDeath :: "string \<Rightarrow> bool" where
  "isContainerDeath action \<longleftrightarrow> action \<in> set [''die'', ''kill'', ''stop'', ''destroy'', ''oom'']"

definition actionSettle :: string where
  "actionSettle = ''settle''"

definition actionStarted :: string where
  "actionStarted = ''started''"

definition historyAction :: "string \<Rightarrow> string" where
  "historyAction action = (if action = ''destroy'' then ''remove'' else action)"

definition eventKeyFromMsg :: "message \<Rightarrow> eventKey \<times> string" where
  "eventKeyFromMsg m =
     (if msgType m = ''container'' then
        (let taskID = gor (msgAttributes m) ''com.docker.swarm.task.id'' [] in
         if taskID = [] then (EventKey [] [], [])
         else if isContainerDeath (msgAction m) then (EventKey ''task'' taskID, actionSettle)
         else if msgAction m = ''start'' then (EventKey ''task'' taskID, actionStarted)
         else (EventKey ''task'' taskID, ''update''))
      else if msgType m = ''network'' \<or> msgType m = ''volume'' then (EventKey (msgType m) (msgActorID m), historyAction (msgAction m))
      else (EventKey (msgType m) (msgActorID m), msgAction m))"

type_synonym batch = "(eventKey, coalesced) kvs"

text \<open>The message case of the loop: the action is coalesced onto what is pending for the resource.\<close>

definition coalesce :: "message \<Rightarrow> batch \<Rightarrow> batch" where
  "coalesce m pending = (case eventKeyFromMsg m of (key, action) \<Rightarrow>
     if ekID key = [] then pending
     else gset pending key (coThen (gor pending key \<lparr>coAction = [], coCreated = False\<rparr>) action))"

section \<open>Reading one resource\<close>

datatype ctxError = DeadlineExceeded | Canceled

datatype dockerError = ErrNotFound | ErrUnauthorized | ErrPermissionDenied | ErrNotImplemented | ErrUnavailable | ErrContext ctxError | ErrOther

text \<open>
  One attempt of \<open>inspectWithRetry\<close>: what the engine answered, whether the budget of the read had run out by then, and whether it
  ran out (or the watcher stopped) while the loop waited for the next attempt.
\<close>

record attempt =
  atResult :: "dockerError + resource"
  atExpired :: "ctxError option"
  atCancelled :: "ctxError option"

fun retryInspect :: "nat \<Rightarrow> nat \<Rightarrow> bool \<Rightarrow> (nat \<Rightarrow> attempt) \<Rightarrow> dockerError \<Rightarrow> dockerError + resource" where
  "retryInspect 0 k created engine lastErr = Inl lastErr"
| "retryInspect (Suc n) k created engine lastErr = (case atResult (engine k) of
     Inr r \<Rightarrow> Inr r
   | Inl err \<Rightarrow>
       (case atExpired (engine k) of
          Some e \<Rightarrow> Inl (ErrContext e)
        | None \<Rightarrow>
            if err = ErrNotFound \<and> \<not> created then Inl err
            else if err = ErrUnauthorized \<or> err = ErrPermissionDenied \<or> err = ErrNotImplemented then Inl err
            else (case atCancelled (engine k) of Some e \<Rightarrow> Inl (ErrContext e) | None \<Rightarrow> retryInspect n (k + 1) created engine err)))"

definition maxAttempts :: nat where
  "maxAttempts = 4"

definition inspectWithRetry :: "bool \<Rightarrow> (nat \<Rightarrow> attempt) \<Rightarrow> dockerError + resource" where
  "inspectWithRetry created engine = retryInspect maxAttempts 0 created engine ErrOther"

section \<open>Applying\<close>

definition applyRemove :: "env \<Rightarrow> eventKey \<Rightarrow> cache \<Rightarrow> cache" where
  "applyRemove E key c =
     (if ekType key = ''node'' then DeleteNode E (ekID key) c
      else if ekType key = ''service'' then DeleteService E (ekID key) c
      else if ekType key = ''config'' then DeleteConfig E (ekID key) c
      else if ekType key = ''secret'' then DeleteSecret E (ekID key) c
      else if ekType key = ''network'' then DeleteNetwork E (ekID key) c
      else if ekType key = ''volume'' then DeleteVolume E (ekID key) c
      else if ekType key = ''task'' then DeleteTask E (ekID key) c
      else c)"

definition apply_res :: "env \<Rightarrow> resource \<Rightarrow> cache \<Rightarrow> cache" where
  "apply_res E r c = (case r of
     RNode v \<Rightarrow> SetNode E v c
   | RService v \<Rightarrow> SetService E v c
   | RTask v \<Rightarrow> SetTask E v c
   | RConfig v \<Rightarrow> SetConfig E v c
   | RSecret v \<Rightarrow> SetSecret E v c
   | RNetwork v \<Rightarrow> SetNetwork E v c
   | RVolume v \<Rightarrow> SetVolume E v c)"

definition inspectAndApply :: "env \<Rightarrow> (nat \<Rightarrow> attempt) \<Rightarrow> bool \<Rightarrow> eventKey \<Rightarrow> cache \<Rightarrow> cache" where
  "inspectAndApply E engine created key c = (case inspectWithRetry created engine of
     Inl err \<Rightarrow> if err = ErrNotFound then applyRemove E key c else c
   | Inr r \<Rightarrow> apply_res E r c)"

text \<open>
  \<open>refreshNow\<close>, whose one attempt comes with whether the caller's own context had ended.
\<close>

definition refreshNow :: "env \<Rightarrow> dockerError + resource \<Rightarrow> bool \<Rightarrow> eventKey \<Rightarrow> cache \<Rightarrow> dockerError option \<times> cache" where
  "refreshNow E answer callerEnded key c = (case answer of
     Inl err \<Rightarrow>
       if err = ErrNotFound then (None, applyRemove E key c)
       else if err = ErrContext DeadlineExceeded \<and> \<not> callerEnded then (Some ErrUnavailable, c)
       else (Some err, c)
   | Inr r \<Rightarrow> (None, apply_res E r c))"

section \<open>Listing tasks again\<close>

record taskScope =
  scService :: string
  scNode :: string

definition taskScopes :: "batch \<Rightarrow> taskScope list" where
  "taskScopes pending = concat (map (\<lambda>(key, ev).
     if coAction ev = ''remove'' then []
     else if ekType key = ''service'' then [\<lparr>scService = ekID key, scNode = []\<rparr>]
     else if ekType key = ''node'' then [\<lparr>scService = [], scNode = ekID key\<rparr>]
     else []) pending)"

definition cachedIn :: "taskScope \<Rightarrow> cache \<Rightarrow> task list" where
  "cachedIn scope c =
     (if scService scope \<noteq> [] then ListTasksByService (scService scope) c
      else if scNode scope \<noteq> [] then ListTasksByNode (scNode scope) c
      else (case ListTasks c of None \<Rightarrow> [] | Some ts \<Rightarrow> ts))"

definition reconcileTasks :: "env \<Rightarrow> (taskScope \<Rightarrow> dockerError + task list) \<Rightarrow> taskScope \<Rightarrow> cache \<Rightarrow> dockerError option \<times> cache" where
  "reconcileTasks E listing scope c = (case listing scope of
     Inl err \<Rightarrow> (Some err, c)
   | Inr listed \<Rightarrow> (let cached = cachedIn scope c; c1 = fold (SetTask E) listed c
       in (None, fold (\<lambda>t c. if tID t \<in> set (map tID listed) then c else DeleteTask E (tID t) c) cached c1)))"

text \<open>\<open>free\<close> is whether \<open>syncMu\<close> could be taken.\<close>

definition reconcileScopes :: "env \<Rightarrow> (taskScope \<Rightarrow> dockerError + task list) \<Rightarrow> bool \<Rightarrow> taskScope list \<Rightarrow> cache \<Rightarrow> cache" where
  "reconcileScopes E listing free scopes c =
     (if scopes = [] \<or> \<not> free then c
      else fold (\<lambda>s c. snd (reconcileTasks E listing s c))
        (if length scopes > workerCount then [\<lparr>scService = [], scNode = []\<rparr>] else scopes) c)"

section \<open>Settling\<close>

definition taskCaughtUp :: "task \<Rightarrow> string \<Rightarrow> bool" where
  "taskCaughtUp t action \<longleftrightarrow> \<not> TaskIsLive t \<or> IsTerminalState (tState t) \<or> action = actionStarted \<and> tState t = TaskStateRunning"

datatype settledRead = ReadTask task | Gone

text \<open>Whether \<open>scheduleSettle\<close> starts a series of reads.\<close>

definition needsSettle :: "cache \<Rightarrow> eventKey \<Rightarrow> string \<Rightarrow> bool" where
  "needsSettle c key action = (case gget (cTasks c) (ekID key) of None \<Rightarrow> False | Some t \<Rightarrow> \<not> taskCaughtUp t action)"

text \<open>
  One \<open>settleRead\<close>: what it queues for the loop (or applies beside it where none runs), and whether the series ends.
  \<open>stopped\<close> is whether the watcher's context has ended.
\<close>

definition settleRead :: "dockerError + resource \<Rightarrow> bool \<Rightarrow> string \<Rightarrow> settledRead option \<times> bool" where
  "settleRead answer stopped action = (case answer of
     Inl err \<Rightarrow> if err = ErrNotFound then (Some Gone, True) else (None, stopped)
   | Inr (RTask t) \<Rightarrow> (Some (ReadTask t), taskCaughtUp t action)
   | Inr _ \<Rightarrow> (None, True))"

text \<open>The series of \<open>scheduleSettle\<close>: the waits it makes and what it queues, until a read ends it.\<close>

fun settleSeries :: "nat \<Rightarrow> int \<Rightarrow> (nat \<Rightarrow> dockerError + resource) \<Rightarrow> (nat \<Rightarrow> bool) \<Rightarrow> string \<Rightarrow> nat \<Rightarrow> (int \<times> settledRead option) list" where
  "settleSeries 0 delay engine stopped action k = []"
| "settleSeries (Suc n) delay engine stopped action k =
     (if stopped k then []
      else (case settleRead (engine k) (stopped (k + 1)) action of (queued, done') \<Rightarrow>
        (delay, queued) # (if done' then [] else settleSeries n (delay * 2) engine stopped action (k + 1))))"

definition scheduleSettle :: "(nat \<Rightarrow> dockerError + resource) \<Rightarrow> (nat \<Rightarrow> bool) \<Rightarrow> string \<Rightarrow> (int \<times> settledRead option) list" where
  "scheduleSettle engine stopped action = settleSeries settleAttempts defaultSettleDelay engine stopped action 0"

definition queueSettled :: "string \<Rightarrow> settledRead \<Rightarrow> settledRead gomap \<Rightarrow> settledRead gomap" where
  "queueSettled i read settled =
     (if (case gget settled i of
            None \<Rightarrow> True
          | Some Gone \<Rightarrow> True
          | Some (ReadTask queued) \<Rightarrow> (case read of Gone \<Rightarrow> True | ReadTask t \<Rightarrow> tVersion queued \<le> tVersion t))
      then gset settled i read else settled)"

definition applySettledRead :: "env \<Rightarrow> string \<Rightarrow> settledRead \<Rightarrow> cache \<Rightarrow> cache" where
  "applySettledRead E i read c =
     (if gget (cTasks c) i = None then c
      else (case read of Gone \<Rightarrow> DeleteTask E i c | ReadTask t \<Rightarrow> SetTask E t c))"

definition applySettled :: "env \<Rightarrow> settledRead gomap \<Rightarrow> cache \<Rightarrow> cache" where
  "applySettled E reads c = fold (\<lambda>(i, read). applySettledRead E i read) reads c"

section \<open>A batch\<close>

text \<open>What a batch asks the engine, and how its workers interleave.\<close>

record engineAnswers =
  anInspect :: "eventKey \<Rightarrow> nat \<Rightarrow> attempt"
  anLists :: "taskScope \<Rightarrow> dockerError + task list"
  anFree :: bool
  anOrder :: "eventKey list \<Rightarrow> eventKey list"

definition removedKeys :: "batch \<Rightarrow> eventKey list" where
  "removedKeys pending = map fst (filter (\<lambda>(_, ev). coAction ev = ''remove'') pending)"

definition keptEvents :: "batch \<Rightarrow> batch" where
  "keptEvents pending = filter (\<lambda>(_, ev). coAction ev \<noteq> ''remove'') pending"

definition createdIn :: "batch \<Rightarrow> eventKey \<Rightarrow> bool" where
  "createdIn pending key = coCreated (gor pending key \<lparr>coAction = [], coCreated = False\<rparr>)"

text \<open>The cache after the batch, and the tasks whose settling the batch starts.\<close>

definition processBatch :: "env \<Rightarrow> engineAnswers \<Rightarrow> batch \<Rightarrow> cache \<Rightarrow> (eventKey \<times> string) list \<times> cache" where
  "processBatch E a pending c = (let
      scopes = taskScopes pending;
      c1 = fold (applyRemove E) (removedKeys pending) c;
      rest = keptEvents pending
    in if rest = [] then ([], reconcileScopes E (anLists a) (anFree a) scopes c1)
       else (let
           c2 = fold (\<lambda>key. inspectAndApply E (anInspect a key) (createdIn rest key) key) (anOrder a (map fst rest)) c1;
           c3 = reconcileScopes E (anLists a) (anFree a) scopes c2
         in (filter (\<lambda>(key, action). (action = actionSettle \<or> action = actionStarted) \<and> needsSettle c3 key action)
               (map (\<lambda>(key, ev). (key, coAction ev)) rest), c3)))"

section \<open>The full sync\<close>

text \<open>What each list of a full sync answered.\<close>

record listings =
  liNodes :: "dockerError + node list"
  liServices :: "dockerError + service list"
  liTasks :: "dockerError + task list"
  liConfigs :: "dockerError + config list"
  liSecrets :: "dockerError + secret list"
  liNetworks :: "dockerError + network list"
  liVolumes :: "dockerError + volume list"

definition swarmResources :: "string list" where
  "swarmResources = [''nodes'', ''services'', ''tasks'', ''configs'', ''secrets'']"

definition syncedResources :: "string list" where
  "syncedResources = [''nodes'', ''services'', ''tasks'', ''configs'', ''secrets'', ''networks'', ''volumes'']"

datatype syncFailure = AllFailed "(string \<times> dockerError) list" | NoSwarmResource "(string \<times> dockerError) list"

definition fullSyncError :: "dockerError gomap \<Rightarrow> syncFailure option" where
  "fullSyncError failed = (let causes = List.map_filter (\<lambda>name. map_option (Pair name) (gget failed name)) syncedResources in
     if length failed = length syncedResources then Some (AllFailed causes)
     else if \<not> list_ex (\<lambda>name. gget failed name = None) swarmResources then Some (NoSwarmResource causes)
     else None)"

fun fetched :: "dockerError + 'a list \<Rightarrow> 'a list option" where
  "fetched (Inl err) = None"
| "fetched (Inr items) = Some items"

fun failure :: "string \<Rightarrow> dockerError + 'a list \<Rightarrow> dockerError gomap" where
  "failure name (Inl err) = [(name, err)]"
| "failure name (Inr items) = []"

definition failedLists :: "listings \<Rightarrow> dockerError gomap" where
  "failedLists l = failure ''nodes'' (liNodes l) @ failure ''services'' (liServices l) @ failure ''tasks'' (liTasks l) @
     failure ''configs'' (liConfigs l) @ failure ''secrets'' (liSecrets l) @ failure ''networks'' (liNetworks l) @
     failure ''volumes'' (liVolumes l)"

definition FullSync :: "listings \<Rightarrow> fullSyncData \<times> syncFailure option" where
  "FullSync l = (\<lparr>fsNodes = fetched (liNodes l), fsServices = fetched (liServices l), fsTasks = fetched (liTasks l),
      fsConfigs = fetched (liConfigs l), fsSecrets = fetched (liSecrets l), fsNetworks = fetched (liNetworks l),
      fsVolumes = fetched (liVolumes l)\<rparr>, fullSyncError (failedLists l))"

section \<open>The watcher\<close>

text \<open>
  \<open>wTimer\<close> is whether the debounce timer is armed, \<open>wRetry\<close> the delay and the time limit of the next retried sync where one is due,
  \<open>wSettling\<close> the tasks whose settling has been started and \<open>wDisk\<close> what the snapshot file holds.
\<close>

record watcher =
  wStore :: cache
  wOnWatching :: "(int \<Rightarrow> cache \<Rightarrow> cache) option"
  wWatching :: bool
  wReady :: bool
  wSnapshotPath :: string
  wSettled :: "settledRead gomap"
  wLoopRunning :: bool
  wConnected :: bool
  wLastSync :: int
  wPending :: batch
  wTimer :: bool
  wRetry :: "(int \<times> int) option"
  wSettling :: "(eventKey \<times> string) list"
  wDisk :: "cache option"

definition NewWatcher :: "cache \<Rightarrow> string \<Rightarrow> watcher" where
  "NewWatcher store snapshotPath = \<lparr>wStore = store, wOnWatching = None, wWatching = False, wReady = False, wSnapshotPath = snapshotPath,
     wSettled = [], wLoopRunning = False, wConnected = False, wLastSync = 0, wPending = [], wTimer = False, wRetry = None,
     wSettling = [], wDisk = None\<rparr>"

definition SetOnWatching :: "(int \<Rightarrow> cache \<Rightarrow> cache) \<Rightarrow> watcher \<Rightarrow> watcher" where
  "SetOnWatching f w = w\<lparr>wOnWatching := Some f\<rparr>"

definition Watching :: "watcher \<Rightarrow> bool" where
  "Watching w = wWatching w"

definition Liveness :: "watcher \<Rightarrow> bool \<times> int" where
  "Liveness w = (wConnected w, wLastSync w)"

definition setConnected :: "bool \<Rightarrow> watcher \<Rightarrow> watcher" where
  "setConnected b w = w\<lparr>wConnected := b\<rparr>"

definition startWatching :: "int \<Rightarrow> watcher \<Rightarrow> watcher" where
  "startWatching streamSince w = (if wWatching w then w
     else w\<lparr>wStore := (case wOnWatching w of None \<Rightarrow> wStore w | Some f \<Rightarrow> f streamSince (wStore w)), wWatching := True\<rparr>)"

definition eventsSince :: "env \<Rightarrow> int" where
  "eventsSince E = envNow E - eventReplayMargin"

text \<open>\<open>diskOK\<close> is whether the file could be written.\<close>

definition writeSnapshot :: "bool \<Rightarrow> watcher \<Rightarrow> watcher" where
  "writeSnapshot diskOK w = (if wSnapshotPath w = [] \<or> \<not> diskOK then w else w\<lparr>wDisk := Some (wStore w)\<rparr>)"

definition syncLocked :: "env \<Rightarrow> listings \<Rightarrow> watcher \<Rightarrow> syncFailure option \<times> watcher" where
  "syncLocked E l w = (case FullSync l of
     (data, Some err) \<Rightarrow> (Some err, w)
   | (data, None) \<Rightarrow> (None, w\<lparr>wStore := ReplaceAll E data (wStore w), wLastSync := envNow E\<rparr>))"

definition markTracking :: "watcher \<Rightarrow> watcher" where
  "markTracking w = (setConnected True w)\<lparr>wReady := True\<rparr>"

definition fullSync :: "env \<Rightarrow> listings \<Rightarrow> watcher \<Rightarrow> syncFailure option \<times> watcher" where
  "fullSync E l w = (case syncLocked E l w of
     (Some err, w') \<Rightarrow> (Some err, setConnected False w')
   | (None, w') \<Rightarrow> (None, markTracking w'))"

section \<open>The event loop\<close>

definition enterLoop :: "bool \<Rightarrow> watcher \<Rightarrow> watcher" where
  "enterLoop synced w = w\<lparr>wLoopRunning := True, wPending := [], wTimer := False,
     wRetry := if synced then None else Some (second, retrySyncTimeout)\<rparr>"

text \<open>Running what is pending through \<open>processBatch\<close>, where anything is.\<close>

definition runBatch :: "env \<Rightarrow> engineAnswers \<Rightarrow> watcher \<Rightarrow> watcher" where
  "runBatch E a w = (if wPending w = [] then w
     else (case processBatch E a (wPending w) (wStore w) of
       (settles, c) \<Rightarrow> w\<lparr>wStore := c, wPending := [], wSettling := wSettling w @ settles\<rparr>))"

definition flushPending :: "env \<Rightarrow> engineAnswers \<Rightarrow> watcher \<Rightarrow> watcher" where
  "flushPending E a w = runBatch E a (w\<lparr>wTimer := False\<rparr>)"

definition leaveLoop :: "env \<Rightarrow> engineAnswers \<Rightarrow> watcher \<Rightarrow> watcher" where
  "leaveLoop E a w = setConnected False ((runBatch E a w)\<lparr>wLoopRunning := False\<rparr>)"

definition onStreamError :: "env \<Rightarrow> engineAnswers \<Rightarrow> watcher \<Rightarrow> watcher" where
  "onStreamError E a w = leaveLoop E a (w\<lparr>wWatching := False\<rparr>)"

definition onMessage :: "message \<Rightarrow> watcher \<Rightarrow> watcher" where
  "onMessage m w = (if ekID (fst (eventKeyFromMsg m)) = [] then w
     else w\<lparr>wPending := coalesce m (wPending w), wTimer := True\<rparr>)"

definition onTimer :: "env \<Rightarrow> engineAnswers \<Rightarrow> watcher \<Rightarrow> watcher" where
  "onTimer E a w = runBatch E a (w\<lparr>wTimer := False\<rparr>)"

definition onRefresh :: "env \<Rightarrow> dockerError + resource \<Rightarrow> bool \<Rightarrow> eventKey \<Rightarrow> watcher \<Rightarrow> dockerError option \<times> watcher" where
  "onRefresh E answer callerEnded key w = (case refreshNow E answer callerEnded key (wStore w) of (err, c) \<Rightarrow> (err, w\<lparr>wStore := c\<rparr>))"

definition onSettledReady :: "env \<Rightarrow> watcher \<Rightarrow> watcher" where
  "onSettledReady E w = w\<lparr>wStore := applySettled E (wSettled w) (wStore w), wSettled := []\<rparr>"

definition onResync :: "env \<Rightarrow> engineAnswers \<Rightarrow> listings \<Rightarrow> bool \<Rightarrow> watcher \<Rightarrow> syncFailure option \<times> watcher" where
  "onResync E a l diskOK w = (case syncLocked E l (flushPending E a w) of
     (Some err, w') \<Rightarrow> (Some err, w')
   | (None, w') \<Rightarrow> (None, writeSnapshot diskOK w'))"

definition onPoll :: "env \<Rightarrow> engineAnswers \<Rightarrow> watcher \<Rightarrow> watcher" where
  "onPoll E a w = (if \<not> anFree a then w
     else w\<lparr>wStore := snd (reconcileTasks E (anLists a) \<lparr>scService = [], scNode = []\<rparr> (wStore w))\<rparr>)"

text \<open>\<open>syncFree\<close> is whether \<open>loopSync\<close> could take \<open>syncMu\<close>.\<close>

definition loopSync :: "env \<Rightarrow> engineAnswers \<Rightarrow> bool \<Rightarrow> listings \<Rightarrow> bool \<Rightarrow> watcher \<Rightarrow> bool \<times> watcher" where
  "loopSync E a syncFree l diskOK w = (let w1 = flushPending E a w in
     if \<not> syncFree then (False, w1)
     else (case syncLocked E l w1 of
       (Some err, w2) \<Rightarrow> (False, w2)
     | (None, w2) \<Rightarrow> (True, startWatching 0 (writeSnapshot diskOK (markTracking w2)))))"

definition onSyncTick :: "env \<Rightarrow> engineAnswers \<Rightarrow> bool \<Rightarrow> listings \<Rightarrow> bool \<Rightarrow> watcher \<Rightarrow> watcher" where
  "onSyncTick E a syncFree l diskOK w = (case loopSync E a syncFree l diskOK w of
     (ok, w') \<Rightarrow> if ok then w'\<lparr>wRetry := None\<rparr> else w')"

definition onRetry :: "env \<Rightarrow> engineAnswers \<Rightarrow> nat \<Rightarrow> bool \<Rightarrow> listings \<Rightarrow> bool \<Rightarrow> watcher \<Rightarrow> watcher" where
  "onRetry E a refreshWaiting syncFree l diskOK w = (case wRetry w of
     None \<Rightarrow> w
   | Some (delay, limit) \<Rightarrow>
       if refreshWaiting \<noteq> 0 then w\<lparr>wRetry := Some (min (delay * 2) maxBackoff, limit)\<rparr>
       else (case loopSync E a syncFree l diskOK w of
         (True, w') \<Rightarrow> w'\<lparr>wRetry := None\<rparr>
       | (False, w') \<Rightarrow> w'\<lparr>wRetry := Some (min (delay * 2) maxBackoff, min (limit * 2) fullSyncTimeout)\<rparr>))"

section \<open>Running\<close>

text \<open>What \<open>Run\<close> does before each event stream, at the start and again after a lost one.\<close>

definition connect :: "env \<Rightarrow> int \<Rightarrow> listings \<Rightarrow> bool \<Rightarrow> watcher \<Rightarrow> bool \<times> watcher" where
  "connect E since l diskOK w = (case fullSync E l w of
     (Some err, w') \<Rightarrow> (False, w')
   | (None, w') \<Rightarrow> (True, startWatching since (writeSnapshot diskOK w')))"

definition nextBackoff :: "bool \<Rightarrow> int \<Rightarrow> int" where
  "nextBackoff synced backoff = (if synced then second else min (backoff * 2) maxBackoff)"

definition finishRun :: "bool \<Rightarrow> watcher \<Rightarrow> watcher" where
  "finishRun diskOK w = (if wLastSync w \<noteq> 0 then writeSnapshot diskOK w else w)"

text \<open>
  How a request for the loop fared: \<open>running\<close> is what the two checks of \<open>loopRunning\<close> saw. A caller whose context ends after the loop has
  taken the request does not wait for the answer.
\<close>

datatype handoff = Taken | HandoffTimeout | CallerDone ctxError | Abandoned ctxError

definition Refresh :: "env \<Rightarrow> dockerError + resource \<Rightarrow> bool \<Rightarrow> eventKey \<Rightarrow> bool \<times> bool \<Rightarrow> handoff \<Rightarrow> watcher \<Rightarrow> dockerError option \<times> watcher" where
  "Refresh E answer callerEnded key running h w =
     (if \<not> fst running \<and> \<not> snd running then onRefresh E answer callerEnded key w
      else (case h of
        Taken \<Rightarrow> onRefresh E answer callerEnded key w
      | HandoffTimeout \<Rightarrow> (Some ErrUnavailable, w)
      | CallerDone e \<Rightarrow> (Some (ErrContext e), w)
      | Abandoned e \<Rightarrow> (Some (ErrContext e), snd (onRefresh E answer callerEnded key w))))"

datatype resyncError = ResyncFailed syncFailure | ResyncNotTaken

definition resyncBeside :: "env \<Rightarrow> listings \<Rightarrow> bool \<Rightarrow> watcher \<Rightarrow> syncFailure option \<times> watcher" where
  "resyncBeside E l diskOK w = (case syncLocked E l w of
     (Some err, w') \<Rightarrow> (Some err, w')
   | (None, w') \<Rightarrow> (None, writeSnapshot diskOK w'))"

definition resyncOnLoop :: "env \<Rightarrow> engineAnswers \<Rightarrow> listings \<Rightarrow> bool \<Rightarrow> bool \<Rightarrow> watcher \<Rightarrow> resyncError option \<times> watcher" where
  "resyncOnLoop E a l diskOK taken w =
     (if \<not> wLoopRunning w then (case resyncBeside E l diskOK w of (err, w') \<Rightarrow> (map_option ResyncFailed err, w'))
      else if \<not> taken then (Some ResyncNotTaken, w)
      else (case onResync E a l diskOK w of (err, w') \<Rightarrow> (map_option ResyncFailed err, w')))"

text \<open>The end of \<open>settleRead\<close>: beside a loop that does not run, applied; otherwise queued.\<close>

definition deliverSettled :: "env \<Rightarrow> string \<Rightarrow> settledRead \<Rightarrow> watcher \<Rightarrow> watcher" where
  "deliverSettled E i read w = (if \<not> wLoopRunning w then w\<lparr>wStore := applySettledRead E i read (wStore w)\<rparr>
     else w\<lparr>wSettled := queueSettled i read (wSettled w)\<rparr>)"

section \<open>Recovering a gap\<close>

definition recoverable :: "string \<Rightarrow> event_type option" where
  "recoverable t = gget [(''service'', EventService), (''node'', EventNode), (''secret'', EventSecret), (''config'', EventConfig),
     (''network'', EventNetwork), (''volume'', EventVolume)] t"

record recovery =
  rvFrom :: int
  rvEntries :: "historyEntry list"

definition recoverEntry :: "int \<Rightarrow> int \<Rightarrow> string gomap \<Rightarrow> message \<Rightarrow> historyEntry option" where
  "recoverEntry start until serviceStacks m = (let at' = msgTimeNano m; action = historyAction (msgAction m) in
     case recoverable (msgType m) of
       None \<Rightarrow> None
     | Some typ \<Rightarrow>
         if \<not> start < at' \<or> \<not> at' < until \<or> action \<noteq> ''create'' \<and> action \<noteq> ''update'' \<and> action \<noteq> ''remove'' then None
         else (let
             attr = gor (msgAttributes m) ''name'' [];
             name = (if attr = [] then msgActorID m else attr);
             entry = zeroEntry\<lparr>hKind := KindChange, hTimestamp := at', hType := Some typ, hAction := action,
               hResourceID := msgActorID m, hName := name, hRecovered := True\<rparr>
           in Some (if typ = EventService then entry\<lparr>hStack := gor serviceStacks (msgActorID m) []\<rparr> else entry)))"

definition recoverFrom :: "message list \<Rightarrow> int \<Rightarrow> int \<Rightarrow> string gomap \<Rightarrow> recovery" where
  "recoverFrom buffered start until serviceStacks = (let begin' = start + eventReplayMargin in
     case buffered of
       [] \<Rightarrow> \<lparr>rvFrom = 0, rvEntries = []\<rparr>
     | oldest # _ \<Rightarrow>
         if \<not> begin' < until then \<lparr>rvFrom = 0, rvEntries = []\<rparr>
         else (let complete = (if begin' < msgTimeNano oldest then msgTimeNano oldest else begin') in
           if \<not> complete < until then \<lparr>rvFrom = 0, rvEntries = []\<rparr>
           else \<lparr>rvFrom = complete, rvEntries = List.map_filter (recoverEntry begin' until serviceStacks) buffered\<rparr>))"

definition RecoverGap :: "dockerError + message list \<Rightarrow> int \<Rightarrow> int \<Rightarrow> string gomap \<Rightarrow> recovery" where
  "RecoverGap answer start until serviceStacks = (case answer of
     Inl err \<Rightarrow> \<lparr>rvFrom = 0, rvEntries = []\<rparr>
   | Inr buffered \<Rightarrow> recoverFrom buffered start until serviceStacks)"

end
