(* ===== verification/Watcher_Held.thy ===== *)
theory Watcher_Held
  imports Watcher
begin

text \<open>
  The contents of the cache by resource, and how every write of the watcher changes them: a resource applied is stored unless the cache
  holds a newer version, a removal takes one resource away, a full sync replaces what it listed.
\<close>

section \<open>The contents of the cache\<close>

definition held :: "cache \<Rightarrow> eventKey \<Rightarrow> resource option" where
  "held c k =
     (if ekType k = ''node'' then map_option RNode (gget (cNodes c) (ekID k))
      else if ekType k = ''service'' then map_option RService (gget (cServices c) (ekID k))
      else if ekType k = ''config'' then map_option RConfig (gget (cConfigs c) (ekID k))
      else if ekType k = ''secret'' then map_option RSecret (gget (cSecrets c) (ekID k))
      else if ekType k = ''network'' then map_option RNetwork (gget (cNetworks c) (ekID k))
      else if ekType k = ''volume'' then map_option RVolume (gget (cVolumes c) (ekID k))
      else if ekType k = ''task'' then map_option RTask (gget (cTasks c) (ekID k))
      else None)"

fun keyOf :: "resource \<Rightarrow> eventKey" where
  "keyOf (RNode v) = EventKey ''node'' (nodeID v)"
| "keyOf (RService v) = EventKey ''service'' (svID v)"
| "keyOf (RTask v) = EventKey ''task'' (tID v)"
| "keyOf (RConfig v) = EventKey ''config'' (cfID v)"
| "keyOf (RSecret v) = EventKey ''secret'' (seID v)"
| "keyOf (RNetwork v) = EventKey ''network'' (neID v)"
| "keyOf (RVolume v) = EventKey ''volume'' (voName v)"

fun verOf :: "resource \<Rightarrow> nat" where
  "verOf (RNode v) = nodeVersion v"
| "verOf (RService v) = svVersion v"
| "verOf (RTask v) = tVersion v"
| "verOf (RConfig v) = cfVersion v"
| "verOf (RSecret v) = seVersion v"
| "verOf (RNetwork v) = 0"
| "verOf (RVolume v) = 0"

fun redact :: "resource \<Rightarrow> resource" where
  "redact (RSecret v) = RSecret (v\<lparr>seData := None\<rparr>)"
| "redact r = r"

lemma ver_redact [simp]: "verOf (redact r) = verOf r"
  by (cases r) simp_all

lemma held_same: "same_contents c c' \<Longrightarrow> held c' = held c"
  by (simp add: same_contents_def held_def fun_eq_iff)

lemma notify_fields [simp]:
  "cNodes (notify E e c) = cNodes c" "cServices (notify E e c) = cServices c" "cConfigs (notify E e c) = cConfigs c"
  "cSecrets (notify E e c) = cSecrets c" "cNetworks (notify E e c) = cNetworks c" "cVolumes (notify E e c) = cVolumes c"
  "cTasks (notify E e c) = cTasks c"
  using notify_same [of c E e] by (simp_all add: same_contents_def)

lemma refs_fields [simp]:
  "cNodes (notifyRefChanges E o' n c) = cNodes c" "cServices (notifyRefChanges E o' n c) = cServices c"
  "cConfigs (notifyRefChanges E o' n c) = cConfigs c" "cSecrets (notifyRefChanges E o' n c) = cSecrets c"
  "cNetworks (notifyRefChanges E o' n c) = cNetworks c" "cVolumes (notifyRefChanges E o' n c) = cVolumes c"
  "cTasks (notifyRefChanges E o' n c) = cTasks c"
  using notifyRefChanges_same [of c E o' n] by (simp_all add: same_contents_def)

lemmas held_notify [simp] = held_same [OF notify_same]
lemmas held_refs [simp] = held_same [OF notifyRefChanges_same]

lemma held_notifySet [simp]: "held (notifySet E r) = held (snd r)"
  by (cases r; cases "fst r") (auto simp: notifySet_def)

lemma held_notifyDelete [simp]: "held (notifyDelete E r) = held (snd r)"
  by (cases r) (simp add: notifyDelete_def)

definition outdated :: "cache \<Rightarrow> resource \<Rightarrow> bool" where
  "outdated c r \<longleftrightarrow> (case held c (keyOf r) of None \<Rightarrow> False | Some r' \<Rightarrow> verOf r < verOf r')"

definition wrote :: "resource \<Rightarrow> cache \<Rightarrow> cache \<Rightarrow> bool" where
  "wrote r c c' \<longleftrightarrow> held c' = (held c)(keyOf r := if outdated c r then held c (keyOf r) else Some (redact r))"

lemma eventKey_all: "(\<forall>k. P k) = (\<forall>t i. P (EventKey t i))"
  by (metis eventKey.exhaust)

lemmas set_simps = wrote_def fun_eq_iff eventKey_all outdated_def Set_def rm_set_def Let_def held_def

lemma held_SetNode: "wrote (RNode v) c (SetNode E v c)"
  by (simp add: set_simps SetNode_def nodesMap_def split: option.split)

lemma held_SetConfig: "wrote (RConfig v) c (SetConfig E v c)"
  by (simp add: set_simps SetConfig_def configsMap_def configOnSet_def split: option.split)

lemma held_SetSecret: "wrote (RSecret v) c (SetSecret E v c)"
  by (simp add: set_simps SetSecret_def secretsMap_def secretOnSet_def split: option.split)

lemma held_SetNetwork: "wrote (RNetwork v) c (SetNetwork E v c)"
  by (simp add: set_simps SetNetwork_def networksMap_def networkOnSet_def split: option.split)

lemma held_SetVolume: "wrote (RVolume v) c (SetVolume E v c)"
  by (simp add: set_simps SetVolume_def volumesMap_def volumeOnSet_def split: option.split)

lemma held_storeService: "held (storeService v c) = (held c)(EventKey ''service'' (svID v) := Some (RService v))"
  by (simp add: fun_eq_iff eventKey_all held_def storeService_def Let_def split: option.split)

lemma held_SetService: "wrote (RService v) c (SetService E v c)"
proof -
  have "held (SetService E v c) = (if outdated c (RService v) then held c else held (storeService v c))"
    by (simp add: SetService_def Let_def outdated_def held_def [of c "EventKey ''service'' (svID v)"] split: option.split)
  then show ?thesis by (simp add: wrote_def held_storeService)
qed

lemma held_storeTask: "held ((storeTask v c)\<lparr>cRestarts := rt\<rparr>) = (held c)(EventKey ''task'' (tID v) := Some (RTask v))"
    "held (storeTask v c) = (held c)(EventKey ''task'' (tID v) := Some (RTask v))"
  by (simp_all add: fun_eq_iff eventKey_all held_def storeTask_def removeTaskIndex_def addTaskIndex_def Let_def split: option.split)

lemma held_SetTask: "wrote (RTask v) c (SetTask E v c)"
proof -
  have "held (SetTask E v c) = (if outdated c (RTask v) then held c else held (storeTask v c))"
    by (simp add: SetTask_def Let_def outdated_def held_storeTask held_def [of c "EventKey ''task'' (tID v)"] split: option.split)
  then show ?thesis by (simp add: wrote_def held_storeTask)
qed

lemma held_apply: "wrote r c (apply_res E r c)"
  by (cases r) (simp_all add: apply_res_def held_SetNode held_SetConfig held_SetSecret held_SetNetwork held_SetVolume held_SetService held_SetTask)

lemmas del_simps = fun_eq_iff eventKey_all Delete_def rm_del_def Let_def held_def

lemma held_DeleteNode: "held (DeleteNode E i c) = (held c)(EventKey ''node'' i := None)"
  by (simp add: del_simps DeleteNode_def nodesMap_def split: option.split)

lemma held_DeleteConfig: "held (DeleteConfig E i c) = (held c)(EventKey ''config'' i := None)"
  by (simp add: del_simps DeleteConfig_def configsMap_def split: option.split)

lemma held_DeleteSecret: "held (DeleteSecret E i c) = (held c)(EventKey ''secret'' i := None)"
  by (simp add: del_simps DeleteSecret_def secretsMap_def split: option.split)

lemma held_DeleteNetwork: "held (DeleteNetwork E i c) = (held c)(EventKey ''network'' i := None)"
  by (simp add: del_simps DeleteNetwork_def networksMap_def split: option.split)

lemma held_DeleteVolume: "held (DeleteVolume E i c) = (held c)(EventKey ''volume'' i := None)"
  by (simp add: del_simps DeleteVolume_def volumesMap_def split: option.split)

lemma held_DeleteService: "held (DeleteService E i c) = (held c)(EventKey ''service'' i := None)"
  by (simp add: del_simps DeleteService_def dropService_def split: option.split)

lemma held_DeleteTask: "held (DeleteTask E i c) = (held c)(EventKey ''task'' i := None)"
  by (simp add: del_simps DeleteTask_def removeTaskIndex_def split: option.split prod.split)

lemma held_applyRemove: "held (applyRemove E k c) = (held c)(k := None)"
proof -
  have "held c k = None" if "ekType k \<notin> {''node'', ''service'', ''config'', ''secret'', ''network'', ''volume'', ''task''}"
    using that by (simp add: held_def)
  then show ?thesis
    by (cases k) (auto simp: applyRemove_def held_DeleteNode held_DeleteConfig held_DeleteSecret held_DeleteNetwork held_DeleteVolume
        held_DeleteService held_DeleteTask)
qed

section \<open>A full sync\<close>

lemma gget_byKey:
  assumes "distinct (map key vs)"
  shows "gget (byKey key vs) i = find (\<lambda>v. key v = i) vs"
proof -
  have "gget (fold (\<lambda>v m. gset m (key v) v) vs m) i = (case find (\<lambda>v. key v = i) vs of None \<Rightarrow> gget m i | Some v \<Rightarrow> Some v)" for m
    using assms
  proof (induction vs arbitrary: m)
    case (Cons v vs)
    have "find (\<lambda>w. key w = i) vs = None" if "key v = i" using Cons.prems that by (auto simp: find_None_iff image_iff)
    with Cons show ?case by (cases "key v = i") (auto split: option.split)
  qed simp
  then show ?thesis by (simp add: byKey_def split: option.split)
qed

lemma replaceServices_frame:
  "\<exists>gone rt. replaceServices svcs remaining c =
     c\<lparr>cGoneServices := gone, cRestarts := rt, cServices := keepNewer svcs (cServices c) (Some svVersion)\<rparr>"
proof -
  define step :: "string \<times> service \<Rightarrow> cache \<Rightarrow> cache" where "step = (\<lambda>(i, old) c. (let c' = c\<lparr>cRestarts := Forget i (cRestarts c)\<rparr> in
     if remaining i \<noteq> [] then c'\<lparr>cGoneServices := gset (cGoneServices c') i old\<rparr> else c'))"
  have "\<exists>g rt. fold step xs c = c\<lparr>cGoneServices := g, cRestarts := rt\<rparr>" for xs c
  proof (induction xs arbitrary: c)
    case Nil
    show ?case by (rule exI [of _ "cGoneServices c"], rule exI [of _ "cRestarts c"]) simp
  next
    case (Cons x xs)
    have "step x c = c\<lparr>cGoneServices := if remaining (fst x) \<noteq> [] then gset (cGoneServices c) (fst x) (snd x) else cGoneServices c,
        cRestarts := Forget (fst x) (cRestarts c)\<rparr>"
      by (cases x) (simp add: step_def Let_def)
    then show ?case using Cons.IH [of "step x c"] by auto
  qed
  then show ?thesis unfolding replaceServices_def Let_def step_def [unfolded Let_def, symmetric] by (metis cache.update_convs)
qed

lemma ReplaceAll_fields:
  "cNodes (ReplaceAll E d c) = (case fsNodes d of None \<Rightarrow> cNodes c | Some vs \<Rightarrow> keepNewer (byKey nodeID vs) (cNodes c) (Some nodeVersion))"
  "cServices (ReplaceAll E d c) = (case fsServices d of None \<Rightarrow> cServices c | Some vs \<Rightarrow> keepNewer (byKey svID vs) (cServices c) (Some svVersion))"
  "cConfigs (ReplaceAll E d c) = (case fsConfigs d of None \<Rightarrow> cConfigs c | Some vs \<Rightarrow> keepNewer (byKey cfID vs) (cConfigs c) (Some cfVersion))"
  "cSecrets (ReplaceAll E d c) = (case fsSecrets d of None \<Rightarrow> cSecrets c | Some vs \<Rightarrow>
     keepNewer (byKey seID (map (\<lambda>s. s\<lparr>seData := None\<rparr>) vs)) (cSecrets c) (Some seVersion))"
  "cNetworks (ReplaceAll E d c) = (case fsNetworks d of None \<Rightarrow> cNetworks c | Some vs \<Rightarrow> byKey neID vs)"
  "cVolumes (ReplaceAll E d c) = (case fsVolumes d of None \<Rightarrow> cVolumes c | Some vs \<Rightarrow> byKey voName vs)"
proof -
  define tasks where "tasks = map_option listTasks (fsTasks d)"
  define remaining where "remaining = (\<lambda>i. case tasks of None \<Rightarrow> gor (cTasksByService c) i [] | Some ts \<Rightarrow> gor (tsByService ts) i [])"
  define c1 where "c1 = whenSome (\<lambda>ns. Replace nodesMap (byKey nodeID ns)) (fsNodes d) c"
  define c2 where "c2 = whenSome (\<lambda>ss. replaceServices (byKey svID ss) remaining) (fsServices d) c1"
  define c3 where "c3 = (case tasks of None \<Rightarrow> (([], []), c2) | Some ts \<Rightarrow> replaceTasks ts c2)"
  define c7 where "c7 = whenSome (\<lambda>vs. Replace volumesMap (byKey voName vs)) (fsVolumes d)
     (whenSome (\<lambda>vs. Replace networksMap (byKey neID vs)) (fsNetworks d)
     (whenSome (\<lambda>vs. Replace secretsMap (byKey seID (map (\<lambda>s. s\<lparr>seData := None\<rparr>) vs))) (fsSecrets d)
     (whenSome (\<lambda>vs. Replace configsMap (byKey cfID vs)) (fsConfigs d) (snd c3))))"
  have eq: "\<exists>rt. ReplaceAll E d c = notify E (newEvent EventSync ''full_sync'' [] [])
      ((rebuildStacks c7)\<lparr>cServiceRef := idx_rebuild (cServices (rebuildStacks c7)), cLastSync := envNow E, cRestarts := rt\<rparr>)"
    unfolding ReplaceAll_def Let_def case_prod_unfold c7_def c3_def c2_def c1_def remaining_def tasks_def
    by (rule exI) (rule refl)
  have c7: "cNodes (ReplaceAll E d c) = cNodes c7" "cServices (ReplaceAll E d c) = cServices c7" "cConfigs (ReplaceAll E d c) = cConfigs c7"
    "cSecrets (ReplaceAll E d c) = cSecrets c7" "cNetworks (ReplaceAll E d c) = cNetworks c7" "cVolumes (ReplaceAll E d c) = cVolumes c7"
    using eq rebuildStacks_frame [of c7] by auto
  have svc: "\<exists>gone rt. c2 = c1\<lparr>cGoneServices := gone, cRestarts := rt, cServices := (case fsServices d of None \<Rightarrow> cServices c1
      | Some vs \<Rightarrow> keepNewer (byKey svID vs) (cServices c1) (Some svVersion))\<rparr>"
  proof (cases "fsServices d")
    case None
    then have "c2 = c1\<lparr>cGoneServices := cGoneServices c1, cRestarts := cRestarts c1, cServices := cServices c1\<rparr>"
      by (simp add: c2_def whenSome_def)
    then show ?thesis unfolding None option.case by (intro exI)
  qed (use replaceServices_frame [of _ remaining c1] in \<open>simp add: c2_def whenSome_def\<close>)
  have c3: "cNodes (snd c3) = cNodes c2" "cServices (snd c3) = cServices c2" "cConfigs (snd c3) = cConfigs c2"
    "cSecrets (snd c3) = cSecrets c2" "cNetworks (snd c3) = cNetworks c2" "cVolumes (snd c3) = cVolumes c2"
    by (simp_all add: c3_def replaceTasks_def Let_def pruneGoneServices_def split: option.split)
  have c2: "cNodes c2 = cNodes c1" "cConfigs c2 = cConfigs c1" "cSecrets c2 = cSecrets c1" "cNetworks c2 = cNetworks c1" "cVolumes c2 = cVolumes c1"
    using svc by auto
  have c1: "cServices c1 = cServices c" "cConfigs c1 = cConfigs c" "cSecrets c1 = cSecrets c" "cNetworks c1 = cNetworks c" "cVolumes c1 = cVolumes c"
    by (simp_all add: c1_def whenSome_def Replace_def split: option.split)
  show "cNodes (ReplaceAll E d c) = (case fsNodes d of None \<Rightarrow> cNodes c | Some vs \<Rightarrow> keepNewer (byKey nodeID vs) (cNodes c) (Some nodeVersion))"
    unfolding c7 using c3(1) c2(1) by (simp add: c7_def c1_def whenSome_def Replace_def nodesMap_def split: option.split)
  show "cServices (ReplaceAll E d c) = (case fsServices d of None \<Rightarrow> cServices c | Some vs \<Rightarrow> keepNewer (byKey svID vs) (cServices c) (Some svVersion))"
    unfolding c7 using c3(2) c1(1) svc by (auto simp: c7_def whenSome_def Replace_def split: option.split)
  show "cConfigs (ReplaceAll E d c) = (case fsConfigs d of None \<Rightarrow> cConfigs c | Some vs \<Rightarrow> keepNewer (byKey cfID vs) (cConfigs c) (Some cfVersion))"
    unfolding c7 using c3(3) c2(2) c1(2) by (simp add: c7_def whenSome_def Replace_def configsMap_def split: option.split)
  show "cSecrets (ReplaceAll E d c) = (case fsSecrets d of None \<Rightarrow> cSecrets c | Some vs \<Rightarrow>
     keepNewer (byKey seID (map (\<lambda>s. s\<lparr>seData := None\<rparr>) vs)) (cSecrets c) (Some seVersion))"
    unfolding c7 using c3(4) c2(3) c1(3) by (simp add: c7_def whenSome_def Replace_def secretsMap_def split: option.split)
  show "cNetworks (ReplaceAll E d c) = (case fsNetworks d of None \<Rightarrow> cNetworks c | Some vs \<Rightarrow> byKey neID vs)"
    unfolding c7 using c3(5) c2(4) c1(4) by (simp add: c7_def whenSome_def Replace_def networksMap_def keepNewer_def split: option.split)
  show "cVolumes (ReplaceAll E d c) = (case fsVolumes d of None \<Rightarrow> cVolumes c | Some vs \<Rightarrow> byKey voName vs)"
    unfolding c7 using c3(6) c2(5) c1(5) by (simp add: c7_def whenSome_def Replace_def volumesMap_def keepNewer_def split: option.split)
qed

text \<open>What a full sync listed of a resource: \<open>None\<close> where its type was not listed.\<close>

definition listedAt :: "fullSyncData \<Rightarrow> eventKey \<Rightarrow> resource option option" where
  "listedAt d k =
     (if ekType k = ''node'' then map_option (\<lambda>vs. map_option RNode (gget (byKey nodeID vs) (ekID k))) (fsNodes d)
      else if ekType k = ''service'' then map_option (\<lambda>vs. map_option RService (gget (byKey svID vs) (ekID k))) (fsServices d)
      else if ekType k = ''config'' then map_option (\<lambda>vs. map_option RConfig (gget (byKey cfID vs) (ekID k))) (fsConfigs d)
      else if ekType k = ''secret'' then map_option (\<lambda>vs. map_option RSecret (gget (byKey seID vs) (ekID k))) (fsSecrets d)
      else if ekType k = ''network'' then map_option (\<lambda>vs. map_option RNetwork (gget (byKey neID vs) (ekID k))) (fsNetworks d)
      else if ekType k = ''volume'' then map_option (\<lambda>vs. map_option RVolume (gget (byKey voName vs) (ekID k))) (fsVolumes d)
      else None)"

definition merged :: "resource option \<Rightarrow> resource option \<Rightarrow> resource option" where
  "merged cached fresh = (case (fresh, cached) of
     (None, _) \<Rightarrow> None
   | (Some r, None) \<Rightarrow> Some (redact r)
   | (Some r, Some h) \<Rightarrow> Some (if verOf r < verOf h then h else redact r))"

definition evented :: "eventKey \<Rightarrow> bool" where
  "evented k \<longleftrightarrow> ekType k \<in> {''node'', ''service'', ''config'', ''secret'', ''network'', ''volume''} \<and> ekID k \<noteq> []"

lemma gget_byKey_redacted:
  "gget (byKey seID (map (\<lambda>s. s\<lparr>seData := None\<rparr>) vs)) i = map_option (\<lambda>s. s\<lparr>seData := None\<rparr>) (gget (byKey seID vs) i)"
proof -
  have "gget (fold (\<lambda>v m. gset m (seID v) v) (map (\<lambda>s. s\<lparr>seData := None\<rparr>) vs) m) i =
      map_option (\<lambda>s. s\<lparr>seData := None\<rparr>) (gget (fold (\<lambda>v m. gset m (seID v) v) vs m') i)"
    if "\<forall>i. gget m i = map_option (\<lambda>s. s\<lparr>seData := None\<rparr>) (gget m' i)" for m m'
    using that by (induction vs arbitrary: m m') simp_all
  from this [of "[]" "[]"] show ?thesis unfolding byKey_def by simp
qed

lemma gget_keepNewer:
  "gget (keepNewer fresh cached (Some ver)) i = (case gget fresh i of None \<Rightarrow> None
     | Some v \<Rightarrow> Some (case gget cached i of None \<Rightarrow> v | Some h \<Rightarrow> if ver v < ver h then h else v))"
  by (simp add: keepNewer_def gget_map_snd split: option.split)

lemma held_ReplaceAll:
  assumes "evented k"
  shows "held (ReplaceAll E d c) k = (case listedAt d k of None \<Rightarrow> held c k | Some fresh \<Rightarrow> merged (held c k) fresh)"
proof -
  from assms consider "ekType k = ''node''" | "ekType k = ''service''" | "ekType k = ''config''" | "ekType k = ''secret''"
    | "ekType k = ''network''" | "ekType k = ''volume''"
    by (auto simp: evented_def)
  then show ?thesis
    by cases (simp_all add: held_def listedAt_def ReplaceAll_fields gget_keepNewer gget_byKey_redacted merged_def split: option.split)
qed

end
