(* ===== verification/Watcher_Run.thy ===== *)
theory Watcher_Run
  imports Watcher_Held
begin

text \<open>
  A run of the engine and the watcher as a step relation, and the invariant by which the cache follows the engine. The engine is
  what is outside: it holds a resource or none under every key, gives a resource it writes a version no lower than any it gave that key
  before, and emits a message for every change but those of tasks, for which Swarm emits none. A read answers with what the engine held at
  some moment while the operation that reads was under way, so changes may fall between a read and its use.
\<close>

section \<open>The engine\<close>

record engine =
  enAt :: "eventKey \<Rightarrow> resource option"
  enTop :: "eventKey \<Rightarrow> nat"

definition change :: "engine \<Rightarrow> eventKey \<Rightarrow> resource option \<Rightarrow> engine" where
  "change s k x = \<lparr>enAt = (enAt s)(k := x), enTop = (enTop s)(k := case x of None \<Rightarrow> enTop s k | Some r \<Rightarrow> verOf r)\<rparr>"

definition admissible :: "engine \<Rightarrow> eventKey \<Rightarrow> resource option \<Rightarrow> bool" where
  "admissible s k x \<longleftrightarrow> (case x of None \<Rightarrow> True | Some r \<Rightarrow> keyOf r = k \<and> enTop s k \<le> verOf r)"

inductive evolves :: "engine \<Rightarrow> message list \<Rightarrow> engine \<Rightarrow> bool" where
  still: "evolves s [] s"
| event: "evolves s ms s1 \<Longrightarrow> eventKeyFromMsg m = (k, action) \<Longrightarrow> (action = ''remove'' \<longrightarrow> x = None) \<Longrightarrow> admissible s1 k x \<Longrightarrow>
    evolves s (ms @ [m]) (change s1 k x)"
| silent: "evolves s ms s1 \<Longrightarrow> \<not> evented k \<Longrightarrow> admissible s1 k x \<Longrightarrow> evolves s ms (change s1 k x)"

definition engine_ok :: "engine \<Rightarrow> bool" where
  "engine_ok s \<longleftrightarrow> (\<forall>k r. enAt s k = Some r \<longrightarrow> keyOf r = k \<and> verOf r = enTop s k)"

definition concerns :: "eventKey \<Rightarrow> message \<Rightarrow> bool" where
  "concerns k m \<longleftrightarrow> fst (eventKeyFromMsg m) = k"

definition owed :: "message list \<Rightarrow> eventKey \<Rightarrow> bool" where
  "owed ms k \<longleftrightarrow> list_ex (concerns k) ms"

text \<open>The action of the last message about a resource.\<close>

definition lastAction :: "message list \<Rightarrow> eventKey \<Rightarrow> string option" where
  "lastAction ms k = (case filter (concerns k) (rev ms) of [] \<Rightarrow> None | m # _ \<Rightarrow> Some (snd (eventKeyFromMsg m)))"

lemma owed_simps [simp]: "\<not> owed [] k" "owed (m # ms) k \<longleftrightarrow> concerns k m \<or> owed ms k" "owed (ms @ ms') k \<longleftrightarrow> owed ms k \<or> owed ms' k"
  by (auto simp: owed_def)

lemma lastAction_snoc: "lastAction (ms @ [m]) k = (if concerns k m then Some (snd (eventKeyFromMsg m)) else lastAction ms k)"
  by (simp add: lastAction_def)

lemma lastAction_append: "lastAction (ms @ ms') k = (if owed ms' k then lastAction ms' k else lastAction ms k)"
proof -
  have "owed ms' k = (filter (concerns k) (rev ms') \<noteq> [])" by (auto simp: owed_def list_ex_iff filter_empty_conv)
  then show ?thesis by (cases "filter (concerns k) (rev ms')") (simp_all add: lastAction_def)
qed

lemma lastAction_suffix: "suffix ms ms' \<Longrightarrow> owed ms k \<Longrightarrow> lastAction ms' k = lastAction ms k"
  by (auto simp: suffix_def lastAction_append)

lemma change_ok:
  assumes "engine_ok s" "admissible s k x"
  shows "engine_ok (change s k x)"
  unfolding engine_ok_def
proof (intro allI impI)
  fix j r assume r: "enAt (change s k x) j = Some r"
  show "keyOf r = j \<and> verOf r = enTop (change s k x) j"
  proof (cases "j = k")
    case True
    then have "x = Some r" using r by (simp add: change_def)
    then show ?thesis using assms(2) True by (simp add: admissible_def change_def)
  next
    case False
    then show ?thesis using r assms(1) unfolding engine_ok_def change_def by (metis engine.select_convs fun_upd_other)
  qed
qed

lemma evolves_ok: "evolves s ms s' \<Longrightarrow> engine_ok s \<Longrightarrow> engine_ok s'"
  by (induction rule: evolves.induct) (blast intro: change_ok)+

lemma evolves_top: "evolves s ms s' \<Longrightarrow> enTop s k \<le> enTop s' k"
  by (induction rule: evolves.induct) (auto simp: change_def admissible_def split: option.splits)

lemma evolves_same: "evolves s ms s' \<Longrightarrow> evented k \<Longrightarrow> \<not> owed ms k \<Longrightarrow> enAt s' k = enAt s k"
  by (induction rule: evolves.induct) (auto simp: change_def concerns_def)

lemma evolves_removed:
  assumes "evolves s ms s'" "evented k" "lastAction log k = Some ''remove'' \<longrightarrow> enAt s k = None"
  shows "lastAction (log @ ms) k = Some ''remove'' \<longrightarrow> enAt s' k = None"
  using assms
proof (induction rule: evolves.induct)
  case (event s ms s1 m k' action x)
  then show ?case by (auto simp: lastAction_snoc concerns_def change_def simp flip: append_assoc)
qed (auto simp: change_def)

lemma evolves_trans: "evolves s1 ms' s2 \<Longrightarrow> evolves s ms s1 \<Longrightarrow> evolves s (ms @ ms') s2"
  by (induction rule: evolves.induct) (auto intro: evolves.intros simp flip: append_assoc)

section \<open>Reads\<close>

definition readDuring :: "engine \<Rightarrow> message list \<Rightarrow> engine \<Rightarrow> eventKey \<Rightarrow> resource option \<Rightarrow> bool" where
  "readDuring s ms s' k x \<longleftrightarrow> (\<exists>ms1 ms2 s1. ms = ms1 @ ms2 \<and> evolves s ms1 s1 \<and> evolves s1 ms2 s' \<and> x = enAt s1 k)"

fun answered :: "engine \<Rightarrow> message list \<Rightarrow> engine \<Rightarrow> eventKey \<Rightarrow> dockerError + resource \<Rightarrow> bool" where
  "answered s ms s' k (Inr r) = readDuring s ms s' k (Some r)"
| "answered s ms s' k (Inl err) = (err = ErrNotFound \<longrightarrow> readDuring s ms s' k None)"

lemma readDuring_evolves: "readDuring s ms s' k x \<Longrightarrow> evolves s ms s'"
  using evolves_trans by (auto simp: readDuring_def)

text \<open>What is read is current afterwards or a message about the change is on its way.\<close>

lemma readDuring_current:
  assumes "readDuring s ms s' k x" "evented k"
  shows "owed ms k \<or> enAt s' k = x"
  using assms evolves_same by (auto simp: readDuring_def)

lemma readDuring_version:
  assumes "readDuring s ms s' k (Some r)" "engine_ok s"
  shows "keyOf r = k" "enTop s k \<le> verOf r" "verOf r \<le> enTop s' k"
proof -
  obtain ms1 ms2 s1 where s1: "evolves s ms1 s1" "evolves s1 ms2 s'" "enAt s1 k = Some r"
    using assms(1) by (auto simp: readDuring_def)
  then have "keyOf r = k \<and> verOf r = enTop s1 k" using evolves_ok [OF s1(1) assms(2)] by (auto simp: engine_ok_def)
  then show "keyOf r = k" "enTop s k \<le> verOf r" "verOf r \<le> enTop s' k" using evolves_top [OF s1(1), of k] evolves_top [OF s1(2), of k] by auto
qed

lemma retry_answer:
  "(retryInspect n j created engine e0 = Inr r \<longrightarrow> (\<exists>i. atResult (engine i) = Inr r)) \<and>
   (retryInspect n j created engine e0 = Inl ErrNotFound \<longrightarrow> e0 \<noteq> ErrNotFound \<longrightarrow> (\<exists>i. atResult (engine i) = Inl ErrNotFound))"
proof (induction n arbitrary: j e0)
  case (Suc n)
  show ?case
  proof (cases "atResult (engine j)")
    case (Inl err)
    then show ?thesis using Suc.IH [of "j + 1" err] by (auto split: option.splits if_splits)
  qed auto
qed simp

lemma inspect_answer:
  assumes "\<And>i. answered s ms s' k (atResult (engine i))"
  shows "answered s ms s' k (inspectWithRetry created engine)"
proof (cases "inspectWithRetry created engine")
  case (Inl err)
  show ?thesis using retry_answer [of maxAttempts 0 created engine ErrOther] assms
    by (auto simp: Inl inspectWithRetry_def [symmetric]) (metis answered.simps(2))
next
  case (Inr r)
  show ?thesis using retry_answer [of maxAttempts 0 created engine ErrOther r] assms
    by (auto simp: Inr inspectWithRetry_def [symmetric]) (metis answered.simps(1))
qed

section \<open>What a batch and a sync leave in the cache\<close>

lemma held_apply_merged: "held (apply_res E r c) = (held c)(keyOf r := merged (held c (keyOf r)) (Some r))"
  using held_apply [of r c E] by (cases "held c (keyOf r)") (simp_all add: wrote_def outdated_def merged_def)

definition outcome :: "resource option \<Rightarrow> dockerError + resource \<Rightarrow> resource option" where
  "outcome h answer = (case answer of Inl err \<Rightarrow> if err = ErrNotFound then None else h | Inr r \<Rightarrow> merged h (Some r))"

definition names :: "eventKey \<Rightarrow> dockerError + resource \<Rightarrow> bool" where
  "names k answer \<longleftrightarrow> (case answer of Inl err \<Rightarrow> True | Inr r \<Rightarrow> keyOf r = k)"

lemma held_inspectAndApply:
  "names k (inspectWithRetry created engine) \<Longrightarrow>
     held (inspectAndApply E engine created k c) = (held c)(k := outcome (held c k) (inspectWithRetry created engine))"
  by (auto simp: inspectAndApply_def outcome_def names_def held_apply_merged held_applyRemove split: sum.split)

lemma held_removes: "held (fold (applyRemove E) ks c) k = (if k \<in> set ks then None else held c k)"
  by (induction ks arbitrary: c) (auto simp: held_applyRemove)

lemma held_inspects:
  assumes "distinct ks" "\<And>key. key \<in> set ks \<Longrightarrow> names key (inspectWithRetry (cr key) (f key))"
  shows "held (fold (\<lambda>key. inspectAndApply E (f key) (cr key) key) ks c) k =
     (if k \<in> set ks then outcome (held c k) (inspectWithRetry (cr k) (f k)) else held c k)"
  using assms
proof (induction ks arbitrary: c)
  case (Cons key ks)
  have "held (inspectAndApply E (f key) (cr key) key c) = (held c)(key := outcome (held c key) (inspectWithRetry (cr key) (f key)))"
    using Cons.prems(2) by (intro held_inspectAndApply) simp
  then show ?case using Cons by auto
qed simp

lemma evented_not_task: "evented k \<Longrightarrow> k \<noteq> EventKey ''task'' i"
  by (auto simp: evented_def)

lemma held_task_writes:
  assumes "evented k"
  shows "held (SetTask E t c) k = held c k" "held (DeleteTask E i c) k = held c k"
  using held_SetTask [of t c E] evented_not_task [OF assms] by (simp_all add: wrote_def held_DeleteTask)

lemma held_fold: "(\<And>x c. x \<in> set xs \<Longrightarrow> held (f x c) k = held c k) \<Longrightarrow> held (fold f xs c) k = held c k"
  by (induction xs arbitrary: c) auto

lemma held_reconcileTasks: "evented k \<Longrightarrow> held (snd (reconcileTasks E listing scope c)) k = held c k"
  by (simp add: reconcileTasks_def Let_def held_fold held_task_writes split: sum.split)

lemma held_reconcileScopes: "evented k \<Longrightarrow> held (reconcileScopes E listing free scopes c) k = held c k"
  by (simp add: reconcileScopes_def held_fold held_reconcileTasks)

lemma held_applySettledRead: "evented k \<Longrightarrow> held (applySettledRead E i read c) k = held c k"
  by (simp add: applySettledRead_def held_task_writes split: settledRead.split)

lemma held_applySettled: "evented k \<Longrightarrow> held (applySettled E reads c) k = held c k"
  unfolding applySettled_def by (rule held_fold) (auto simp: held_applySettledRead)

definition batchOutcome :: "engineAnswers \<Rightarrow> batch \<Rightarrow> eventKey \<Rightarrow> resource option \<Rightarrow> resource option" where
  "batchOutcome a pending k h = (case gget pending k of
     None \<Rightarrow> h
   | Some ev \<Rightarrow> if coAction ev = ''remove'' then None else outcome h (inspectWithRetry (coCreated ev) (anInspect a k)))"

lemma gget_keptEvents: "gwf pending \<Longrightarrow> gget (keptEvents pending) k = (case gget pending k of None \<Rightarrow> None | Some ev \<Rightarrow> if coAction ev \<noteq> ''remove'' then Some ev else None)"
  unfolding keptEvents_def by (rule gget_filter)

lemma mem_removed: "gwf pending \<Longrightarrow> k \<in> set (removedKeys pending) \<longleftrightarrow> (\<exists>ev. gget pending k = Some ev \<and> coAction ev = ''remove'')"
  by (auto simp: removedKeys_def image_iff gwf_mem_iff [symmetric])

lemma mem_keptEvents: "gwf pending \<Longrightarrow> k \<in> set (map fst (keptEvents pending)) \<longleftrightarrow> (\<exists>ev. gget pending k = Some ev \<and> coAction ev \<noteq> ''remove'')"
  by (auto simp: keptEvents_def image_iff gwf_mem_iff [symmetric])

lemma held_processBatch:
  assumes "gwf pending" "evented k" "\<And>xs. mset (anOrder a xs) = mset xs"
    and names: "\<And>key ev. gget pending key = Some ev \<Longrightarrow> coAction ev \<noteq> ''remove'' \<Longrightarrow> names key (inspectWithRetry (coCreated ev) (anInspect a key))"
  shows "held (snd (processBatch E a pending c)) k = batchOutcome a pending k (held c k)"
proof -
  let ?ks = "anOrder a (map fst (keptEvents pending))"
  have created: "createdIn (keptEvents pending) key = coCreated ev" if "gget pending key = Some ev" "coAction ev \<noteq> ''remove''" for key ev
    using that assms(1) by (simp add: createdIn_def gor_def gget_keptEvents)
  have ks: "set ?ks = set (map fst (keptEvents pending))" "distinct ?ks"
    using assms(1,3) mset_eq_setD mset_eq_imp_distinct_iff by (metis, metis gwf_filter keptEvents_def)
  define c1 where "c1 = fold (applyRemove E) (removedKeys pending) c"
  define c2 where "c2 = fold (\<lambda>key. inspectAndApply E (anInspect a key) (createdIn (keptEvents pending) key) key) ?ks c1"
  have c1: "held c1 k = (if \<exists>ev. gget pending k = Some ev \<and> coAction ev = ''remove'' then None else held c k)"
    using assms(1) by (simp add: c1_def held_removes mem_removed)
  have "names key (inspectWithRetry (createdIn (keptEvents pending) key) (anInspect a key))" if "key \<in> set ?ks" for key
    using that names created assms(1) unfolding ks(1) by (auto simp: mem_keptEvents simp del: set_map)
  then have c2: "held c2 k = (if k \<in> set ?ks then outcome (held c1 k) (inspectWithRetry (createdIn (keptEvents pending) k) (anInspect a k)) else held c1 k)"
    unfolding c2_def by (rule held_inspects [OF ks(2)])
  have out: "held c2 k = batchOutcome a pending k (held c k)"
    unfolding c2 c1 ks(1) mem_keptEvents [OF assms(1)] by (auto simp: batchOutcome_def created split: option.split)
  show ?thesis
  proof (cases "keptEvents pending = []")
    case True
    then have "?ks = []" using ks(1) by simp
    then have "c2 = c1" by (simp add: c2_def)
    then show ?thesis using out True by (simp add: processBatch_def Let_def held_reconcileScopes [OF assms(2)] c1_def)
  next
    case False
    then show ?thesis using out by (simp add: processBatch_def Let_def held_reconcileScopes [OF assms(2)] c2_def c1_def)
  qed
qed

section \<open>Following the engine\<close>

text \<open>
  Per resource: a message about it is on its way; or it is in the batch, and if the batch is about to remove it, it is gone; or it is
  known to have drifted (its read failed, or nothing was listed since the stream was lost); or the cache holds what the engine holds.
\<close>

definition agrees :: "engine \<Rightarrow> cache \<Rightarrow> eventKey \<Rightarrow> bool" where
  "agrees s c k \<longleftrightarrow> held c k = map_option redact (enAt s k)"

definition tracked :: "engine \<Rightarrow> message list \<Rightarrow> batch \<Rightarrow> cache \<Rightarrow> eventKey set \<Rightarrow> eventKey \<Rightarrow> bool" where
  "tracked s stream pending c drift k \<longleftrightarrow> owed stream k \<or> (case gget pending k of
     None \<Rightarrow> k \<in> drift \<or> agrees s c k
   | Some ev \<Rightarrow> coAction ev = ''remove'' \<longrightarrow> enAt s k = None)"

definition not_ahead :: "engine \<Rightarrow> cache \<Rightarrow> eventKey \<Rightarrow> bool" where
  "not_ahead s c k \<longleftrightarrow> (\<forall>r. held c k = Some r \<longrightarrow> verOf r \<le> enTop s k)"

definition gone_ok :: "engine \<Rightarrow> message list \<Rightarrow> eventKey \<Rightarrow> bool" where
  "gone_ok s log k \<longleftrightarrow> (lastAction log k = Some ''remove'' \<longrightarrow> enAt s k = None)"

definition follows :: "engine \<Rightarrow> message list \<Rightarrow> message list \<Rightarrow> batch \<Rightarrow> cache \<Rightarrow> eventKey set \<Rightarrow> bool" where
  "follows s log stream pending c drift \<longleftrightarrow> engine_ok s \<and> suffix stream log \<and> gwf pending \<and>
     (\<forall>k. evented k \<longrightarrow> gone_ok s log k \<and> not_ahead s c k \<and> tracked s stream pending c drift k)"

lemma not_ahead_evolves: "evolves s ms s' \<Longrightarrow> not_ahead s c k \<Longrightarrow> not_ahead s' c k"
  using evolves_top unfolding not_ahead_def by (meson order_trans)

lemma follows_frame:
  assumes "follows s log stream pending c drift" "evolves s ms s'" "gwf pending'"
    and "\<And>k. evented k \<Longrightarrow> not_ahead s' c' k \<and> tracked s' (stream @ ms) pending' c' drift' k"
  shows "follows s' (log @ ms) (stream @ ms) pending' c' drift'"
  using assms evolves_ok [OF assms(2)] evolves_removed [OF assms(2)]
  by (auto simp: follows_def gone_ok_def suffix_def)

lemma follows_evolves:
  assumes "follows s log stream pending c drift" "evolves s ms s'"
  shows "follows s' (log @ ms) (stream @ ms) pending c drift"
proof (rule follows_frame [OF assms])
  fix k assume k: "evented k"
  then have "not_ahead s c k" "tracked s stream pending c drift k" using assms(1) by (simp_all add: follows_def)
  then show "not_ahead s' c k \<and> tracked s' (stream @ ms) pending c drift k"
    using not_ahead_evolves [OF assms(2)] evolves_same [OF assms(2) k]
    by (cases "owed ms k") (auto simp: tracked_def agrees_def split: option.splits)
qed (use assms(1) in \<open>simp add: follows_def\<close>)

lemma follows_coalesce:
  assumes "follows s log (m # stream) pending c drift"
  shows "follows s log stream (coalesce m pending) c drift"
proof -
  obtain k0 action where m: "eventKeyFromMsg m = (k0, action)" by (cases "eventKeyFromMsg m")
  have suf: "suffix (m # stream) log" using assms by (simp add: follows_def)
  have "tracked s stream (coalesce m pending) c drift k" if k: "evented k" for k
  proof (cases "concerns k m \<and> \<not> owed stream k")
    case True
    then have k0: "k0 = k" "ekID k0 \<noteq> []" using m k by (auto simp: concerns_def evented_def)
    have "lastAction log k = Some action"
      using True m lastAction_suffix [OF suf, of k] lastAction_append [of "[m]" stream k]
      by (simp add: lastAction_def)
    then have "action = ''remove'' \<longrightarrow> enAt s k = None" using assms k by (auto simp: follows_def gone_ok_def)
    then show ?thesis using k0 by (simp add: tracked_def coalesce_def m coThen_def)
  next
    case False
    have "tracked s (m # stream) pending c drift k" using assms k by (simp add: follows_def)
    then show ?thesis using False m by (auto simp: tracked_def coalesce_def concerns_def)
  qed
  moreover have "suffix stream log" using suf by (rule suffix_ConsD)
  moreover have "gwf (coalesce m pending)" using assms by (simp add: follows_def coalesce_def m)
  ultimately show ?thesis using assms by (simp add: follows_def)
qed

lemma current_agrees:
  assumes "readDuring s ms s' k x" "engine_ok s" "not_ahead s c k" "evented k"
  shows "merged (held c k) x = map_option redact x" "owed ms k \<or> map_option redact (enAt s' k) = map_option redact x"
    "\<And>r. x = Some r \<Longrightarrow> verOf r \<le> enTop s' k"
proof -
  show "merged (held c k) x = map_option redact x"
  proof (cases x)
    case (Some r)
    then have "enTop s k \<le> verOf r" using readDuring_version [of s ms s' k r] assms(1,2) by simp
    then show ?thesis using assms(3) by (auto simp: Some merged_def not_ahead_def split: option.split)
  qed (simp add: merged_def)
  show "owed ms k \<or> map_option redact (enAt s' k) = map_option redact x" using readDuring_current [OF assms(1,4)] by auto
  show "\<And>r. x = Some r \<Longrightarrow> verOf r \<le> enTop s' k" using readDuring_version(3) assms(1,2) by auto
qed

lemma answered_agrees:
  assumes "answered s ms s' k answer" "engine_ok s" "not_ahead s c k" "evented k" "\<nexists>err. answer = Inl err \<and> err \<noteq> ErrNotFound"
  shows "owed ms k \<or> outcome (held c k) answer = map_option redact (enAt s' k)"
    "\<And>r. outcome (held c k) answer = Some r \<Longrightarrow> verOf r \<le> enTop s' k"
proof -
  have "\<exists>x. readDuring s ms s' k x \<and> outcome (held c k) answer = merged (held c k) x"
  proof (cases answer)
    case (Inl err)
    then show ?thesis using assms(1,5) by (auto simp: outcome_def merged_def)
  next
    case (Inr r)
    then show ?thesis using assms(1) by (auto simp: outcome_def)
  qed
  then obtain x where x: "readDuring s ms s' k x" "outcome (held c k) answer = merged (held c k) x" by blast
  note cur = current_agrees [OF x(1) assms(2-4)]
  show "owed ms k \<or> outcome (held c k) answer = map_option redact (enAt s' k)" using cur x(2) by auto
  show "\<And>r. outcome (held c k) answer = Some r \<Longrightarrow> verOf r \<le> enTop s' k" using cur(1,3) x(2) by auto
qed

text \<open>The reads of a batch answer what the engine held while the batch ran; the workers apply every key once.\<close>

definition batchAnswers :: "engine \<Rightarrow> message list \<Rightarrow> engine \<Rightarrow> engineAnswers \<Rightarrow> bool" where
  "batchAnswers s ms s' a \<longleftrightarrow> (\<forall>k i. answered s ms s' k (atResult (anInspect a k i))) \<and> (\<forall>xs. mset (anOrder a xs) = mset xs)"

definition failedReads :: "engineAnswers \<Rightarrow> batch \<Rightarrow> eventKey set" where
  "failedReads a pending = {k. \<exists>ev err. gget pending k = Some ev \<and> coAction ev \<noteq> ''remove'' \<and>
     inspectWithRetry (coCreated ev) (anInspect a k) = Inl err \<and> err \<noteq> ErrNotFound}"

definition batchDrift :: "engineAnswers \<Rightarrow> batch \<Rightarrow> eventKey set \<Rightarrow> eventKey set" where
  "batchDrift a pending drift = (drift - set (map fst pending)) \<union> failedReads a pending"

lemma answered_names: "answered s ms s' k answer \<Longrightarrow> engine_ok s \<Longrightarrow> names k answer"
  using readDuring_version(1) by (cases answer) (auto simp: names_def)

lemma follows_batch:
  assumes "follows s log stream pending c drift" "evolves s ms s'" "batchAnswers s ms s' a"
  shows "follows s' (log @ ms) (stream @ ms) [] (snd (processBatch E a pending c)) (batchDrift a pending drift)"
proof (rule follows_frame [OF assms(1,2)])
  fix k assume k: "evented k"
  have ok: "engine_ok s" "gwf pending" using assms(1) by (simp_all add: follows_def)
  have before: "gone_ok s log k" "not_ahead s c k" "tracked s stream pending c drift k" using assms(1) k by (simp_all add: follows_def)
  have ans: "answered s ms s' key (inspectWithRetry cr (anInspect a key))" for key cr
    using assms(3) by (intro inspect_answer) (simp add: batchAnswers_def)
  have held: "held (snd (processBatch E a pending c)) k = batchOutcome a pending k (held c k)"
    using assms(3) answered_names [OF ans ok(1)] by (intro held_processBatch [OF ok(2) k]) (simp_all add: batchAnswers_def)
  show "not_ahead s' (snd (processBatch E a pending c)) k \<and> tracked s' (stream @ ms) [] (snd (processBatch E a pending c)) (batchDrift a pending drift) k"
  proof (cases "gget pending k")
    case None
    then have "k \<notin> set (map fst pending)" by (simp add: gget_None_iff)
    then show ?thesis using None before not_ahead_evolves [OF assms(2) before(2)] evolves_same [OF assms(2) k] held
      by (cases "owed ms k") (auto simp: tracked_def agrees_def not_ahead_def batchOutcome_def batchDrift_def)
  next
    case (Some ev)
    let ?out = "inspectWithRetry (coCreated ev) (anInspect a k)"
    show ?thesis
    proof (cases "coAction ev = ''remove''")
      case True
      then have h: "held (snd (processBatch E a pending c)) k = None" using held Some by (simp add: batchOutcome_def)
      have "owed stream k \<or> enAt s k = None" using before(3) Some True by (simp add: tracked_def)
      then show ?thesis using h evolves_same [OF assms(2) k]
        by (cases "owed ms k") (auto simp: tracked_def agrees_def not_ahead_def)
    next
      case inspected: False
      then have h: "held (snd (processBatch E a pending c)) k = outcome (held c k) ?out" using held Some by (simp add: batchOutcome_def)
      show ?thesis
      proof (cases "\<exists>err. ?out = Inl err \<and> err \<noteq> ErrNotFound")
        case True
        then have "k \<in> batchDrift a pending drift" using Some inspected by (auto simp: batchDrift_def failedReads_def)
        moreover have "outcome (held c k) ?out = held c k" using True by (auto simp: outcome_def)
        ultimately show ?thesis using h not_ahead_evolves [OF assms(2) before(2)] by (simp add: tracked_def not_ahead_def)
      next
        case False
        then show ?thesis using answered_agrees [OF ans ok(1) before(2) k False] h by (auto simp: tracked_def agrees_def not_ahead_def)
      qed
    qed
  qed
qed simp

text \<open>A full sync answers for every type it lists; the lists are not read at one moment.\<close>

definition syncAnswers :: "engine \<Rightarrow> message list \<Rightarrow> engine \<Rightarrow> listings \<Rightarrow> bool" where
  "syncAnswers s ms s' l \<longleftrightarrow> (\<forall>k fresh. listedAt (fst (FullSync l)) k = Some fresh \<longrightarrow> readDuring s ms s' k fresh)"

definition syncDrift :: "listings \<Rightarrow> eventKey set \<Rightarrow> eventKey set" where
  "syncDrift l drift = {k \<in> drift. listedAt (fst (FullSync l)) k = None}"

lemma follows_sync:
  assumes "follows s log stream [] c drift" "evolves s ms s'" "syncAnswers s ms s' l"
  shows "follows s' (log @ ms) (stream @ ms) [] (ReplaceAll E (fst (FullSync l)) c) (syncDrift l drift)"
proof (rule follows_frame [OF assms(1,2)])
  fix k assume k: "evented k"
  have ok: "engine_ok s" using assms(1) by (simp add: follows_def)
  have before: "not_ahead s c k" "tracked s stream [] c drift k" using assms(1) k by (simp_all add: follows_def)
  show "not_ahead s' (ReplaceAll E (fst (FullSync l)) c) k \<and> tracked s' (stream @ ms) [] (ReplaceAll E (fst (FullSync l)) c) (syncDrift l drift) k"
  proof (cases "listedAt (fst (FullSync l)) k")
    case None
    then show ?thesis using before not_ahead_evolves [OF assms(2) before(1)] evolves_same [OF assms(2) k]
      by (cases "owed ms k") (auto simp: tracked_def agrees_def not_ahead_def held_ReplaceAll [OF k] syncDrift_def)
  next
    case (Some fresh)
    then have read: "readDuring s ms s' k fresh" using assms(3) by (simp add: syncAnswers_def)
    show ?thesis using current_agrees [OF read ok before(1) k] Some
      by (auto simp: tracked_def agrees_def not_ahead_def held_ReplaceAll [OF k])
  qed
qed simp

lemma follows_refresh:
  assumes "follows s log stream pending c drift" "evolves s ms s'" "answered s ms s' k0 answer"
  shows "follows s' (log @ ms) (stream @ ms) pending (snd (refreshNow E answer ended k0 c)) drift"
proof (rule follows_frame [OF assms(1,2)])
  fix k assume k: "evented k"
  have ok: "engine_ok s" using assms(1) by (simp add: follows_def)
  have before: "not_ahead s c k" "tracked s stream pending c drift k" using assms(1) k by (simp_all add: follows_def)
  have held: "held (snd (refreshNow E answer ended k0 c)) k = (if k = k0 then outcome (held c k) answer else held c k)"
    using answered_names [OF assms(3) ok]
    by (auto simp: refreshNow_def outcome_def names_def held_applyRemove held_apply_merged split: sum.split)
  have same: "not_ahead s' c k \<and> tracked s' (stream @ ms) pending c drift k"
    using follows_evolves [OF assms(1,2)] k by (simp add: follows_def)
  show "not_ahead s' (snd (refreshNow E answer ended k0 c)) k \<and> tracked s' (stream @ ms) pending (snd (refreshNow E answer ended k0 c)) drift k"
  proof (cases "k = k0 \<and> (\<nexists>err. answer = Inl err \<and> err \<noteq> ErrNotFound)")
    case True
    then show ?thesis using answered_agrees [of s ms s' k answer c] assms(3) ok before(1) k held same
      by (auto simp: tracked_def agrees_def not_ahead_def split: option.splits)
  next
    case False
    then have "held (snd (refreshNow E answer ended k0 c)) k = held c k" using held by (auto simp: outcome_def)
    then show ?thesis using same by (auto simp: not_ahead_def tracked_def agrees_def split: option.splits)
  qed
qed (use assms(1) in \<open>simp add: follows_def\<close>)

section \<open>What is read beside the loop\<close>

text \<open>
  A value read beside the loop and applied later. It never has a version ahead of the engine's; and unless a reconnect or an event loop
  began since (it was overtaken), it is current or a message about the change is on its way.
\<close>

definition landing :: "engine \<Rightarrow> message list \<Rightarrow> bool \<Rightarrow> eventKey \<Rightarrow> resource option \<Rightarrow> bool" where
  "landing s stream overtaken k x \<longleftrightarrow> (\<forall>r. x = Some r \<longrightarrow> keyOf r = k \<and> verOf r \<le> enTop s k) \<and>
     (\<not> overtaken \<longrightarrow> owed stream k \<or> enAt s k = x)"

definition answerOf :: "dockerError + resource \<Rightarrow> resource option option" where
  "answerOf answer = (case answer of Inl err \<Rightarrow> if err = ErrNotFound then Some None else None | Inr r \<Rightarrow> Some (Some r))"

lemma outcome_answerOf: "outcome h answer = (case answerOf answer of None \<Rightarrow> h | Some x \<Rightarrow> merged h x)"
  by (auto simp: outcome_def answerOf_def merged_def split: sum.split)

lemma landing_overtaken: "landing s stream b k x \<Longrightarrow> landing s stream' True k x"
  by (simp add: landing_def)

lemma landing_mono: "landing s stream b k x \<Longrightarrow> (b \<Longrightarrow> b') \<Longrightarrow> landing s stream b' k x"
  by (auto simp: landing_def)

lemma landing_evolves: "landing s stream b k x \<Longrightarrow> evolves s ms s' \<Longrightarrow> evented k \<Longrightarrow> landing s' (stream @ ms) b k x"
  using evolves_top evolves_same unfolding landing_def by (metis le_trans owed_simps(3))

lemma landing_read:
  assumes "readDuring s ms s' k x" "engine_ok s" "evented k"
  shows "landing s' (stream @ ms) b k x"
  using readDuring_current [OF assms(1,3)] readDuring_version [of s ms s' k] assms(1,2) by (auto simp: landing_def)

lemma landing_answer:
  assumes "answered s ms s' k answer" "answerOf answer = Some x" "engine_ok s" "evented k"
  shows "landing s' (stream @ ms) b k x"
  using assms by (intro landing_read) (auto simp: answerOf_def split: sum.splits if_splits)

lemma follows_landed:
  assumes "follows s log stream pending c drift"
    and "\<And>k. evented k \<Longrightarrow> held c' k = held c k \<and> (k \<in> drift \<longrightarrow> k \<in> drift') \<or>
      (\<exists>x. landing s stream (k \<in> drift') k x \<and> held c' k = merged (held c k) x)"
  shows "follows s log stream pending c' drift'"
proof -
  have "not_ahead s c' k \<and> tracked s stream pending c' drift' k" if k: "evented k" for k
  proof -
    have before: "not_ahead s c k" "tracked s stream pending c drift k" "engine_ok s" using assms(1) k by (simp_all add: follows_def)
    from assms(2) [OF k] show ?thesis
    proof
      assume "held c' k = held c k \<and> (k \<in> drift \<longrightarrow> k \<in> drift')"
      then show ?thesis using before by (auto simp: not_ahead_def tracked_def agrees_def split: option.splits)
    next
      assume "\<exists>x. landing s stream (k \<in> drift') k x \<and> held c' k = merged (held c k) x"
      then obtain x where x: "landing s stream (k \<in> drift') k x" "held c' k = merged (held c k) x" by blast
      have "not_ahead s c' k"
        using x before(1) by (auto simp: not_ahead_def landing_def merged_def split: option.splits if_splits)
      moreover have "merged (held c k) x = map_option redact x" if "enAt s k = x"
        using that before(1,3) by (auto simp: merged_def not_ahead_def engine_ok_def split: option.split)
      ultimately show ?thesis using x before(2) by (auto simp: tracked_def agrees_def landing_def split: option.splits)
    qed
  qed
  then show ?thesis using assms(1) by (simp add: follows_def)
qed

section \<open>Runs\<close>

text \<open>
  The engine, every message it emitted, those of them the stream still has to deliver, the resources known to have drifted, and the
  watcher. A new stream replays what was emitted from some earlier moment on. What the loop does is one step, which spans the changes the
  engine makes meanwhile; a full sync first runs the batch. What runs beside the loop takes three steps: a check that no loop runs, a read,
  and the write. A refresh has passed its check (\<open>None\<close>) or has its answer, and a sync, of which \<open>syncMu\<close> admits one at a time, is
  \<open>Run\<close>'s own or a manual one and has its listings or not. Each of them remembers whether it was overtaken: a reconnect or an event
  loop began after its check. One that was overtaken is applied between two operations of the loop.
\<close>

record world =
  wdEngine :: engine
  wdLog :: "message list"
  wdStream :: "message list"
  wdDrift :: "eventKey set"
  wdWatcher :: watcher
  wdReads :: "(eventKey \<times> (dockerError + resource) option \<times> bool) list"
  wdSyncing :: "(bool \<times> listings option \<times> bool) option"

definition elapse :: "message list \<Rightarrow> engine \<Rightarrow> world \<Rightarrow> world" where
  "elapse ms s w = w\<lparr>wdEngine := s, wdLog := wdLog w @ ms, wdStream := wdStream w @ ms\<rparr>"

definition overtake :: "world \<Rightarrow> world" where
  "overtake w = w\<lparr>wdReads := map (\<lambda>(k, answer, _). (k, answer, True)) (wdReads w),
     wdSyncing := map_option (\<lambda>(own, l, _). (own, l, True)) (wdSyncing w)\<rparr>"

definition syncResult :: "bool \<Rightarrow> listings \<Rightarrow> eventKey set \<Rightarrow> eventKey set" where
  "syncResult free l drift = (if free \<and> snd (FullSync l) = None then syncDrift l drift else drift)"

definition besideDrift :: "bool \<Rightarrow> listings \<Rightarrow> eventKey set \<Rightarrow> eventKey set" where
  "besideDrift overtaken l drift = (if snd (FullSync l) \<noteq> None then drift
     else if overtaken then drift \<union> {k. listedAt (fst (FullSync l)) k \<noteq> None} else syncDrift l drift)"

inductive watchStep :: "world \<Rightarrow> world \<Rightarrow> bool" where
  Engine: "evolves (wdEngine w) ms s \<Longrightarrow> watchStep w (elapse ms s w)"
| Message: "wLoopRunning (wdWatcher w) \<Longrightarrow> wdStream w = m # rest \<Longrightarrow>
    watchStep w (w\<lparr>wdStream := rest, wdWatcher := onMessage m (wdWatcher w)\<rparr>)"
| Timer: "wLoopRunning (wdWatcher w) \<Longrightarrow> wTimer (wdWatcher w) \<Longrightarrow> evolves (wdEngine w) ms s \<Longrightarrow> batchAnswers (wdEngine w) ms s a \<Longrightarrow>
    watchStep w ((elapse ms s w)\<lparr>wdDrift := batchDrift a (wPending (wdWatcher w)) (wdDrift w), wdWatcher := onTimer E a (wdWatcher w)\<rparr>)"
| RefreshChecked: "\<not> wLoopRunning (wdWatcher w) \<Longrightarrow> watchStep w (w\<lparr>wdReads := (k, None, False) # wdReads w\<rparr>)"
| RefreshRead: "wdReads w = rs @ (k, None, b) # rs' \<Longrightarrow> evolves (wdEngine w) ms s \<Longrightarrow> answered (wdEngine w) ms s k answer \<Longrightarrow>
    watchStep w ((elapse ms s w)\<lparr>wdReads := rs @ (k, Some answer, b) # rs'\<rparr>)"
| RefreshApplied: "wdReads w = rs @ (k, Some answer, b) # rs' \<Longrightarrow>
    watchStep w (w\<lparr>wdReads := rs @ rs', wdDrift := if b \<and> answerOf answer \<noteq> None then insert k (wdDrift w) else wdDrift w,
      wdWatcher := snd (Refresh E answer ended k (False, False) h (wdWatcher w))\<rparr>)"
| Refreshed: "wLoopRunning (wdWatcher w) \<Longrightarrow> fst running \<or> snd running \<Longrightarrow> evolves (wdEngine w) ms s \<Longrightarrow> answered (wdEngine w) ms s k answer \<Longrightarrow>
    watchStep w ((elapse ms s w)\<lparr>wdWatcher := snd (Refresh E answer ended k running h (wdWatcher w))\<rparr>)"
| SettledReady: "watchStep w (w\<lparr>wdWatcher := onSettledReady E (wdWatcher w)\<rparr>)"
| SettledRead: "watchStep w (w\<lparr>wdWatcher := deliverSettled E i read (wdWatcher w)\<rparr>)"
| SettledBeside: "watchStep w (w\<lparr>wdWatcher := (wdWatcher w)\<lparr>wStore := applySettledRead E i read (wStore (wdWatcher w))\<rparr>\<rparr>)"
| Poll: "wLoopRunning (wdWatcher w) \<Longrightarrow> watchStep w (w\<lparr>wdWatcher := onPoll E a (wdWatcher w)\<rparr>)"
| Resynced: "wLoopRunning (wdWatcher w) \<Longrightarrow> wdSyncing w = None \<Longrightarrow> evolves (wdEngine w) ms1 s1 \<Longrightarrow> batchAnswers (wdEngine w) ms1 s1 a \<Longrightarrow>
    evolves s1 ms2 s2 \<Longrightarrow> syncAnswers s1 ms2 s2 l \<Longrightarrow>
    watchStep w ((elapse ms2 s2 (elapse ms1 s1 w))\<lparr>wdDrift := syncResult True l (batchDrift a (wPending (wdWatcher w)) (wdDrift w)),
      wdWatcher := snd (resyncOnLoop E a l diskOK True (wdWatcher w))\<rparr>)"
| SyncTick: "wLoopRunning (wdWatcher w) \<Longrightarrow> free = (wdSyncing w = None) \<Longrightarrow> evolves (wdEngine w) ms1 s1 \<Longrightarrow> batchAnswers (wdEngine w) ms1 s1 a \<Longrightarrow>
    evolves s1 ms2 s2 \<Longrightarrow> syncAnswers s1 ms2 s2 l \<Longrightarrow>
    watchStep w ((elapse ms2 s2 (elapse ms1 s1 w))\<lparr>wdDrift := syncResult free l (batchDrift a (wPending (wdWatcher w)) (wdDrift w)),
      wdWatcher := onSyncTick E a free l diskOK (wdWatcher w)\<rparr>)"
| Retry: "wLoopRunning (wdWatcher w) \<Longrightarrow> wRetry (wdWatcher w) \<noteq> None \<Longrightarrow> free = (wdSyncing w = None) \<Longrightarrow>
    evolves (wdEngine w) ms1 s1 \<Longrightarrow> batchAnswers (wdEngine w) ms1 s1 a \<Longrightarrow> evolves s1 ms2 s2 \<Longrightarrow> syncAnswers s1 ms2 s2 l \<Longrightarrow>
    watchStep w ((elapse ms2 s2 (elapse ms1 s1 w))\<lparr>wdDrift := syncResult free l (batchDrift a (wPending (wdWatcher w)) (wdDrift w)),
      wdWatcher := onRetry E a 0 free l diskOK (wdWatcher w)\<rparr>)"
| Lost: "wLoopRunning (wdWatcher w) \<Longrightarrow> evolves (wdEngine w) ms s \<Longrightarrow> batchAnswers (wdEngine w) ms s a \<Longrightarrow>
    watchStep w ((elapse ms s w)\<lparr>wdStream := [], wdDrift := UNIV, wdWatcher := onStreamError E a (wdWatcher w)\<rparr>)"
| SyncChecked: "\<not> wLoopRunning (wdWatcher w) \<Longrightarrow> wdSyncing w = None \<Longrightarrow> watchStep w (w\<lparr>wdSyncing := Some (False, None, False)\<rparr>)"
| Reconnect: "\<not> wLoopRunning (wdWatcher w) \<Longrightarrow> wdSyncing w = None \<Longrightarrow>
    watchStep w ((overtake w)\<lparr>wdStream := drop n (wdLog w), wdDrift := UNIV, wdSyncing := Some (True, None, False)\<rparr>)"
| SyncListed: "wdSyncing w = Some (own, None, b) \<Longrightarrow> evolves (wdEngine w) ms s \<Longrightarrow> syncAnswers (wdEngine w) ms s l \<Longrightarrow>
    watchStep w ((elapse ms s w)\<lparr>wdSyncing := Some (own, Some l, b)\<rparr>)"
| SyncApplied: "wdSyncing w = Some (False, Some l, b) \<Longrightarrow>
    watchStep w (w\<lparr>wdSyncing := None, wdDrift := besideDrift b l (wdDrift w), wdWatcher := snd (resyncBeside E l diskOK (wdWatcher w))\<rparr>)"
| Connected: "wdSyncing w = Some (True, Some l, b) \<Longrightarrow>
    watchStep w (w\<lparr>wdSyncing := None, wdDrift := syncResult True l (wdDrift w), wdWatcher := snd (connect E since l diskOK (wdWatcher w))\<rparr>)"
| Enter: "\<not> wLoopRunning (wdWatcher w) \<Longrightarrow> (\<And>l b. wdSyncing w \<noteq> Some (True, l, b)) \<Longrightarrow>
    watchStep w ((overtake w)\<lparr>wdWatcher := enterLoop synced (wdWatcher w)\<rparr>)"

definition hook_ok :: "watcher \<Rightarrow> bool" where
  "hook_ok wt \<longleftrightarrow> (case wOnWatching wt of None \<Rightarrow> True | Some f \<Rightarrow> \<forall>t c. same_contents c (f t c))"

inductive watchRun :: "world \<Rightarrow> bool" where
  start: "engine_ok s \<Longrightarrow> (\<And>k. evented k \<Longrightarrow> not_ahead s c k) \<Longrightarrow> hook_ok ((NewWatcher c path)\<lparr>wOnWatching := f\<rparr>) \<Longrightarrow>
    watchRun \<lparr>wdEngine = s, wdLog = [], wdStream = [], wdDrift = UNIV, wdWatcher = (NewWatcher c path)\<lparr>wOnWatching := f\<rparr>,
      wdReads = [], wdSyncing = None\<rparr>"
| more: "watchRun w \<Longrightarrow> watchStep w w' \<Longrightarrow> watchRun w'"

definition read_ok :: "engine \<Rightarrow> message list \<Rightarrow> bool \<Rightarrow> eventKey \<times> (dockerError + resource) option \<times> bool \<Rightarrow> bool" where
  "read_ok s stream running = (\<lambda>(k, a, b). (running \<longrightarrow> b) \<and> (\<forall>answer. a = Some answer \<longrightarrow>
     names k answer \<and> (evented k \<longrightarrow> (\<forall>x. answerOf answer = Some x \<longrightarrow> landing s stream b k x))))"

definition sync_ok :: "engine \<Rightarrow> message list \<Rightarrow> bool \<Rightarrow> bool \<times> listings option \<times> bool \<Rightarrow> bool" where
  "sync_ok s stream running = (\<lambda>(own, a, b). (running \<longrightarrow> b) \<and> (own \<longrightarrow> \<not> b) \<and>
     (\<forall>l k fresh. a = Some l \<longrightarrow> evented k \<longrightarrow> listedAt (fst (FullSync l)) k = Some fresh \<longrightarrow> landing s stream b k fresh))"

definition reads_ok :: "world \<Rightarrow> bool" where
  "reads_ok w \<longleftrightarrow> (\<forall>e \<in> set (wdReads w). read_ok (wdEngine w) (wdStream w) (wLoopRunning (wdWatcher w)) e)"

definition syncing_ok :: "world \<Rightarrow> bool" where
  "syncing_ok w \<longleftrightarrow> (\<forall>y. wdSyncing w = Some y \<longrightarrow> sync_ok (wdEngine w) (wdStream w) (wLoopRunning (wdWatcher w)) y)"

definition wd_ok :: "world \<Rightarrow> bool" where
  "wd_ok w \<longleftrightarrow> follows (wdEngine w) (wdLog w) (wdStream w) (wPending (wdWatcher w)) (wStore (wdWatcher w)) (wdDrift w) \<and>
     hook_ok (wdWatcher w) \<and> (wLoopRunning (wdWatcher w) \<or> wPending (wdWatcher w) = []) \<and> reads_ok w \<and> syncing_ok w"

lemma follows_held:
  "follows s log stream pending c drift \<Longrightarrow> (\<And>k. evented k \<Longrightarrow> held c' k = held c k) \<Longrightarrow> follows s log stream pending c' drift"
  by (auto simp: follows_def not_ahead_def tracked_def agrees_def split: option.splits)

lemma batchDrift_Nil [simp]: "batchDrift a [] drift = drift"
  by (simp add: batchDrift_def failedReads_def)

lemma runBatch_frame [simp]:
  "wOnWatching (runBatch E a wt) = wOnWatching wt" "wLoopRunning (runBatch E a wt) = wLoopRunning wt" "wPending (runBatch E a wt) = []"
  "wRetry (runBatch E a wt) = wRetry wt"
  by (simp_all add: runBatch_def split: prod.split)

lemma follows_runBatch:
  assumes "follows s log stream (wPending wt) (wStore wt) drift" "evolves s ms s'" "batchAnswers s ms s' a"
  shows "follows s' (log @ ms) (stream @ ms) [] (wStore (runBatch E a wt)) (batchDrift a (wPending wt) drift)"
proof (cases "wPending wt = []")
  case True
  then show ?thesis using follows_evolves [OF assms(1,2)] by (simp add: runBatch_def)
next
  case False
  then have "wStore (runBatch E a wt) = snd (processBatch E a (wPending wt) (wStore wt))" by (simp add: runBatch_def split: prod.split)
  then show ?thesis using follows_batch [OF assms] by simp
qed

lemma hook_held: "hook_ok wt \<Longrightarrow> held (wStore (startWatching since wt)) = held (wStore wt)"
  by (auto simp: startWatching_def hook_ok_def held_same split: option.split)

lemma syncLocked_cases:
  obtains err where "snd (FullSync l) = Some err" "syncLocked E l wt = (Some err, wt)"
  | "snd (FullSync l) = None" "syncLocked E l wt = (None, wt\<lparr>wStore := ReplaceAll E (fst (FullSync l)) (wStore wt), wLastSync := envNow E\<rparr>)"
  by (cases "FullSync l"; cases "snd (FullSync l)") (auto simp: syncLocked_def)

lemma follows_syncResult:
  assumes "follows s log stream [] c drift" "evolves s ms s'" "syncAnswers s ms s' l"
    and "held c' = held (if free \<and> snd (FullSync l) = None then ReplaceAll E (fst (FullSync l)) c else c)"
  shows "follows s' (log @ ms) (stream @ ms) [] c' (syncResult free l drift)"
proof (cases "free \<and> snd (FullSync l) = None")
  case True
  then show ?thesis using follows_sync [OF assms(1-3), of E] assms(4) by (auto simp: syncResult_def elim: follows_held)
next
  case False
  then show ?thesis using follows_evolves [OF assms(1,2)] assms(4) by (auto simp: syncResult_def elim: follows_held)
qed

lemma writeSnapshot_frame [simp]:
  "wStore (writeSnapshot b wt) = wStore wt" "wOnWatching (writeSnapshot b wt) = wOnWatching wt" "wPending (writeSnapshot b wt) = wPending wt"
  "wLoopRunning (writeSnapshot b wt) = wLoopRunning wt" "wRetry (writeSnapshot b wt) = wRetry wt"
  by (simp_all add: writeSnapshot_def)

lemma startWatching_frame [simp]:
  "wOnWatching (startWatching t wt) = wOnWatching wt" "wPending (startWatching t wt) = wPending wt"
  "wLoopRunning (startWatching t wt) = wLoopRunning wt" "wRetry (startWatching t wt) = wRetry wt"
  by (simp_all add: startWatching_def)

lemma tracking_frame [simp]:
  "wStore (markTracking wt) = wStore wt" "wOnWatching (markTracking wt) = wOnWatching wt" "wPending (markTracking wt) = wPending wt"
  "wLoopRunning (markTracking wt) = wLoopRunning wt"
  "wStore (setConnected b wt) = wStore wt" "wOnWatching (setConnected b wt) = wOnWatching wt" "wPending (setConnected b wt) = wPending wt"
  "wLoopRunning (setConnected b wt) = wLoopRunning wt"
  by (simp_all add: markTracking_def setConnected_def)

lemma flushPending_frame [simp]:
  "wOnWatching (flushPending E a wt) = wOnWatching wt" "wPending (flushPending E a wt) = []" "wLoopRunning (flushPending E a wt) = wLoopRunning wt"
  by (simp_all add: flushPending_def)

lemma hook_ok_cong: "wOnWatching wt' = wOnWatching wt \<Longrightarrow> hook_ok wt' = hook_ok wt"
  by (simp add: hook_ok_def)

lemma loopSync_effect:
  assumes "hook_ok wt"
  shows "held (wStore (snd (loopSync E a free l diskOK wt))) =
      held (if free \<and> snd (FullSync l) = None then ReplaceAll E (fst (FullSync l)) (wStore (flushPending E a wt)) else wStore (flushPending E a wt))"
    "wOnWatching (snd (loopSync E a free l diskOK wt)) = wOnWatching wt"
    "wPending (snd (loopSync E a free l diskOK wt)) = []"
    "wLoopRunning (snd (loopSync E a free l diskOK wt)) = wLoopRunning wt"
proof -
  have hook: "hook_ok wt' \<Longrightarrow> held (wStore (startWatching t wt')) = held (wStore wt')" for wt' t by (rule hook_held)
  show "held (wStore (snd (loopSync E a free l diskOK wt))) =
      held (if free \<and> snd (FullSync l) = None then ReplaceAll E (fst (FullSync l)) (wStore (flushPending E a wt)) else wStore (flushPending E a wt))"
    "wOnWatching (snd (loopSync E a free l diskOK wt)) = wOnWatching wt"
    "wPending (snd (loopSync E a free l diskOK wt)) = []"
    "wLoopRunning (snd (loopSync E a free l diskOK wt)) = wLoopRunning wt"
    using assms by (cases rule: syncLocked_cases [of l E "flushPending E a wt"];
      simp add: loopSync_def Let_def hook hook_ok_def [of "writeSnapshot _ _"] hook_ok_def [of wt])+
qed

lemma follows_loopSync:
  assumes "follows s log stream (wPending wt) (wStore wt) drift" "hook_ok wt"
    and "evolves s ms1 s1" "batchAnswers s ms1 s1 a" "evolves s1 ms2 s2" "syncAnswers s1 ms2 s2 l"
  shows "follows s2 ((log @ ms1) @ ms2) ((stream @ ms1) @ ms2) [] (wStore (snd (loopSync E a free l diskOK wt)))
    (syncResult free l (batchDrift a (wPending wt) drift))"
proof -
  have "follows s1 (log @ ms1) (stream @ ms1) [] (wStore (flushPending E a wt)) (batchDrift a (wPending wt) drift)"
    using follows_runBatch [of s log stream "wt\<lparr>wTimer := False\<rparr>" drift ms1 s1 a E] assms(1,3,4) by (simp add: flushPending_def)
  then show ?thesis by (rule follows_syncResult [OF _ assms(5,6) loopSync_effect(1) [OF assms(2)]])
qed

lemma onResync_effect:
  "held (wStore (snd (onResync E a l diskOK wt))) =
      held (if snd (FullSync l) = None then ReplaceAll E (fst (FullSync l)) (wStore (flushPending E a wt)) else wStore (flushPending E a wt))"
    "wOnWatching (snd (onResync E a l diskOK wt)) = wOnWatching wt" "wPending (snd (onResync E a l diskOK wt)) = []"
    "wLoopRunning (snd (onResync E a l diskOK wt)) = wLoopRunning wt"
  by (cases rule: syncLocked_cases [of l E "flushPending E a wt"]; simp add: onResync_def)+

lemma connect_effect:
  assumes "hook_ok wt"
  shows "held (wStore (snd (connect E since l diskOK wt))) =
      held (if snd (FullSync l) = None then ReplaceAll E (fst (FullSync l)) (wStore wt) else wStore wt)"
    "wOnWatching (snd (connect E since l diskOK wt)) = wOnWatching wt" "wPending (snd (connect E since l diskOK wt)) = wPending wt"
    "wLoopRunning (snd (connect E since l diskOK wt)) = wLoopRunning wt"
  using assms by (cases rule: syncLocked_cases [of l E wt];
    simp add: connect_def fullSync_def hook_held hook_ok_def [of "writeSnapshot _ _"] hook_ok_def [of wt])+

lemma hook_ok_frame [simp]: "hook_ok (wt\<lparr>wRetry := r\<rparr>) = hook_ok wt" "hook_ok (wt\<lparr>wStore := c\<rparr>) = hook_ok wt"
  by (simp_all add: hook_ok_def)

lemma follows_fields:
  "wd_ok w \<Longrightarrow> follows (wdEngine w) (wdLog w) (wdStream w) (wPending (wdWatcher w)) (wStore (wdWatcher w)) (wdDrift w)"
  by (simp add: wd_ok_def)

lemma onSyncTick_fields:
  "wStore (onSyncTick E a free l d wt) = wStore (snd (loopSync E a free l d wt))"
  "wOnWatching (onSyncTick E a free l d wt) = wOnWatching (snd (loopSync E a free l d wt))"
  "wPending (onSyncTick E a free l d wt) = wPending (snd (loopSync E a free l d wt))"
  by (simp_all add: onSyncTick_def split: prod.split)

lemma onRetry_fields:
  assumes "wRetry wt \<noteq> None"
  shows "wStore (onRetry E a 0 free l d wt) = wStore (snd (loopSync E a free l d wt))"
    "wOnWatching (onRetry E a 0 free l d wt) = wOnWatching (snd (loopSync E a free l d wt))"
    "wPending (onRetry E a 0 free l d wt) = wPending (snd (loopSync E a free l d wt))"
  using assms by (auto simp: onRetry_def split: prod.split bool.split)

lemma read_ok_evolves: "read_ok s stream running e \<Longrightarrow> evolves s ms s' \<Longrightarrow> read_ok s' (stream @ ms) running e"
  unfolding read_ok_def by (cases e) (simp, blast intro: landing_evolves)

lemma sync_ok_evolves: "sync_ok s stream running y \<Longrightarrow> evolves s ms s' \<Longrightarrow> sync_ok s' (stream @ ms) running y"
  unfolding sync_ok_def by (cases y) (simp, blast intro: landing_evolves)

lemma read_ok_overtaken: "read_ok s stream running (k, a, b) \<Longrightarrow> read_ok s stream' running' (k, a, True)"
  using landing_overtaken by (fastforce simp: read_ok_def)

lemma sync_ok_overtaken: "sync_ok s stream running (False, a, b) \<Longrightarrow> sync_ok s stream' running' (False, a, True)"
  using landing_overtaken by (fastforce simp: sync_ok_def)

lemma beside_kept:
  assumes "reads_ok w" "syncing_ok w" "evolves (wdEngine w) ms (wdEngine w')" "wdStream w' = wdStream w @ ms"
    and "wdReads w' = wdReads w" "wdSyncing w' = wdSyncing w" "wLoopRunning (wdWatcher w') = wLoopRunning (wdWatcher w)"
  shows "reads_ok w' \<and> syncing_ok w'"
  using assms read_ok_evolves [OF _ assms(3)] sync_ok_evolves [OF _ assms(3)] by (simp add: reads_ok_def syncing_ok_def)

text \<open>While the loop runs, everything in flight beside it has been overtaken, so the stream no longer matters to it.\<close>

lemma beside_loop:
  assumes "reads_ok w" "syncing_ok w" "wLoopRunning (wdWatcher w)" "evolves (wdEngine w) ms (wdEngine w')"
    and "wdReads w' = wdReads w" "wdSyncing w' = wdSyncing w"
  shows "reads_ok w' \<and> syncing_ok w'"
proof -
  have "read_ok (wdEngine w') (wdStream w') (wLoopRunning (wdWatcher w')) e" if r: "read_ok (wdEngine w) (wdStream w) True e" for e
  proof -
    obtain k a where e: "e = (k, a, True)" using r by (cases e) (simp add: read_ok_def)
    show ?thesis using read_ok_evolves [OF r assms(4)] unfolding e by (rule read_ok_overtaken)
  qed
  moreover have "sync_ok (wdEngine w') (wdStream w') (wLoopRunning (wdWatcher w')) y" if r: "sync_ok (wdEngine w) (wdStream w) True y" for y
  proof -
    obtain a where y: "y = (False, a, True)" using r by (cases y) (auto simp: sync_ok_def)
    show ?thesis using sync_ok_evolves [OF r assms(4)] unfolding y by (rule sync_ok_overtaken)
  qed
  ultimately show ?thesis using assms(1-3,5,6) by (simp add: reads_ok_def syncing_ok_def)
qed

lemma beside_overtake:
  assumes "reads_ok w" "syncing_ok w" "wdEngine w' = wdEngine w" "wdReads w' = wdReads (overtake w)" "wdSyncing w' = wdSyncing (overtake w)"
    and "\<And>l b. wdSyncing w \<noteq> Some (True, l, b)"
  shows "reads_ok w' \<and> syncing_ok w'"
proof -
  have own: "\<not> own" if "wdSyncing w = Some (own, a, b)" for own a b using assms(6) [of a b] that by (cases own) auto
  then have "syncing_ok w'" using assms(2) sync_ok_overtaken by (auto simp: syncing_ok_def assms(3,5) overtake_def)
  moreover have "reads_ok w'" using assms(1) read_ok_overtaken by (fastforce simp: reads_ok_def assms(3,4) overtake_def)
  ultimately show ?thesis by simp
qed

lemma synced_ok:
  assumes "wd_ok w" "evolves (wdEngine w) ms1 s1" "batchAnswers (wdEngine w) ms1 s1 a" "evolves s1 ms2 s2" "syncAnswers s1 ms2 s2 l"
    and "wStore wt = wStore (snd (loopSync E a free l d (wdWatcher w)))" "wOnWatching wt = wOnWatching (wdWatcher w)" "wPending wt = []"
    and "wLoopRunning (wdWatcher w)"
  shows "wd_ok ((elapse ms2 s2 (elapse ms1 s1 w))\<lparr>wdDrift := syncResult free l (batchDrift a (wPending (wdWatcher w)) (wdDrift w)), wdWatcher := wt\<rparr>)"
    (is "wd_ok ?w'")
proof -
  have "reads_ok ?w' \<and> syncing_ok ?w'"
    by (rule beside_loop [of w "ms1 @ ms2"]) (use assms(1,9) evolves_trans [OF assms(4,2)] in \<open>simp_all add: wd_ok_def elapse_def\<close>)
  then show ?thesis
    using follows_loopSync [OF follows_fields [OF assms(1)] _ assms(2-5), of E free d] assms(1,6-8) hook_ok_cong [OF assms(7)]
    by (simp add: wd_ok_def elapse_def)
qed

lemma refreshNow_held:
  assumes "names k0 answer"
  shows "held (snd (refreshNow E answer ended k0 c)) k = (if k = k0 then outcome (held c k) answer else held c k)"
  using assms by (auto simp: refreshNow_def outcome_def names_def held_applyRemove held_apply_merged split: sum.split)

lemma Refresh_frame:
  "wOnWatching (snd (Refresh E answer ended k running h wt)) = wOnWatching wt" "wPending (snd (Refresh E answer ended k running h wt)) = wPending wt"
  "wLoopRunning (snd (Refresh E answer ended k running h wt)) = wLoopRunning wt"
  by (auto simp: Refresh_def onRefresh_def split: prod.split handoff.split)

lemma resyncBeside_effect:
  "held (wStore (snd (resyncBeside E l diskOK wt))) =
      held (if snd (FullSync l) = None then ReplaceAll E (fst (FullSync l)) (wStore wt) else wStore wt)"
  "wOnWatching (snd (resyncBeside E l diskOK wt)) = wOnWatching wt" "wPending (snd (resyncBeside E l diskOK wt)) = wPending wt"
  "wLoopRunning (snd (resyncBeside E l diskOK wt)) = wLoopRunning wt"
  by (cases rule: syncLocked_cases [of l E wt]; simp add: resyncBeside_def)+

text \<open>A sync beside the loop writes what it listed, which lands.\<close>

lemma follows_besideSync:
  assumes "follows s log stream pending c drift"
    and "\<And>k fresh. evented k \<Longrightarrow> listedAt (fst (FullSync l)) k = Some fresh \<Longrightarrow> landing s stream b k fresh"
    and "held c' = held (if snd (FullSync l) = None then ReplaceAll E (fst (FullSync l)) c else c)"
  shows "follows s log stream pending c' (besideDrift b l drift)"
proof (rule follows_landed [OF assms(1)])
  fix k assume k: "evented k"
  show "held c' k = held c k \<and> (k \<in> drift \<longrightarrow> k \<in> besideDrift b l drift) \<or>
      (\<exists>x. landing s stream (k \<in> besideDrift b l drift) k x \<and> held c' k = merged (held c k) x)"
  proof (cases "snd (FullSync l) = None \<and> listedAt (fst (FullSync l)) k \<noteq> None")
    case True
    then obtain x where x: "listedAt (fst (FullSync l)) k = Some x" by blast
    have "landing s stream (k \<in> besideDrift b l drift) k x"
      by (rule landing_mono [OF assms(2) [OF k x]]) (use True x in \<open>simp add: besideDrift_def\<close>)
    moreover have "held c' k = merged (held c k) x" using True x by (simp add: assms(3) held_ReplaceAll [OF k])
    ultimately show ?thesis by blast
  next
    case False
    then have "held c' k = held c k" by (auto simp: assms(3) held_ReplaceAll [OF k])
    moreover have "k \<in> drift \<longrightarrow> k \<in> besideDrift b l drift" using False by (auto simp: besideDrift_def syncDrift_def)
    ultimately show ?thesis by blast
  qed
qed

lemma syncResult_besideDrift: "syncResult True l drift = besideDrift False l drift"
  by (simp add: syncResult_def besideDrift_def)

lemma wd_ok_fields:
  assumes "wd_ok w"
  shows "follows (wdEngine w) (wdLog w) (wdStream w) (wPending (wdWatcher w)) (wStore (wdWatcher w)) (wdDrift w)"
    "hook_ok (wdWatcher w)" "wLoopRunning (wdWatcher w) \<or> wPending (wdWatcher w) = []" "reads_ok w" "syncing_ok w"
  using assms by (simp_all add: wd_ok_def)

text \<open>What every step beside the stream and the loop has in common.\<close>

lemma wd_ok_I:
  assumes "follows (wdEngine w') (wdLog w') (wdStream w') (wPending (wdWatcher w')) (wStore (wdWatcher w')) (wdDrift w')"
    "hook_ok (wdWatcher w')" "wLoopRunning (wdWatcher w') \<or> wPending (wdWatcher w') = []" "reads_ok w' \<and> syncing_ok w'"
  shows "wd_ok w'"
  using assms by (simp add: wd_ok_def)

lemma engine_ok_of: "wd_ok w \<Longrightarrow> engine_ok (wdEngine w)"
  by (simp add: wd_ok_def follows_def)

lemma refresh_applied_ok:
  assumes "wd_ok w" "wdReads w = rs @ (k0, Some answer, b) # rs'"
  shows "wd_ok (w\<lparr>wdReads := rs @ rs', wdDrift := if b \<and> answerOf answer \<noteq> None then insert k0 (wdDrift w) else wdDrift w,
      wdWatcher := snd (Refresh E answer ended k0 (False, False) h (wdWatcher w))\<rparr>)" (is "wd_ok ?w'")
proof (rule wd_ok_I)
  note w = wd_ok_fields [OF assms(1)]
  let ?drift = "if b \<and> answerOf answer \<noteq> None then insert k0 (wdDrift w) else wdDrift w"
  let ?c' = "snd (refreshNow E answer ended k0 (wStore (wdWatcher w)))"
  have r: "names k0 answer" "evented k0 \<Longrightarrow> answerOf answer = Some x \<Longrightarrow> landing (wdEngine w) (wdStream w) b k0 x" for x
    using w(4) by (auto simp: reads_ok_def read_ok_def assms(2))
  have c': "wStore (snd (Refresh E answer ended k0 (False, False) h (wdWatcher w))) = ?c'"
    by (simp add: Refresh_def onRefresh_def split: prod.split)
  have "follows (wdEngine w) (wdLog w) (wdStream w) (wPending (wdWatcher w)) ?c' ?drift"
  proof (rule follows_landed [OF w(1)])
    fix k assume k: "evented k"
    show "held ?c' k = held (wStore (wdWatcher w)) k \<and> (k \<in> wdDrift w \<longrightarrow> k \<in> ?drift) \<or>
        (\<exists>x. landing (wdEngine w) (wdStream w) (k \<in> ?drift) k x \<and> held ?c' k = merged (held (wStore (wdWatcher w)) k) x)"
    proof (cases "k = k0 \<and> answerOf answer \<noteq> None")
      case True
      then obtain x where x: "answerOf answer = Some x" by blast
      have "landing (wdEngine w) (wdStream w) (k \<in> ?drift) k x"
        using True r(2) [OF _ x] k by (intro landing_mono [where b = b and b' = "k \<in> ?drift"]) auto
      then show ?thesis using True x by (auto simp: refreshNow_held [OF r(1)] outcome_answerOf)
    next
      case False
      then show ?thesis by (auto simp: refreshNow_held [OF r(1)] outcome_answerOf)
    qed
  qed
  then show "follows (wdEngine ?w') (wdLog ?w') (wdStream ?w') (wPending (wdWatcher ?w')) (wStore (wdWatcher ?w')) (wdDrift ?w')"
    by (simp add: c' Refresh_frame)
  show "hook_ok (wdWatcher ?w')" using w(2) hook_ok_cong [OF Refresh_frame(1)] by simp
  show "wLoopRunning (wdWatcher ?w') \<or> wPending (wdWatcher ?w') = []" using w(3) by (simp add: Refresh_frame)
  show "reads_ok ?w' \<and> syncing_ok ?w'" using w(4,5) by (auto simp: reads_ok_def syncing_ok_def assms(2) Refresh_frame)
qed

lemma refresh_read_ok:
  assumes "wd_ok w" "wdReads w = rs @ (k, None, b) # rs'" "evolves (wdEngine w) ms s" "answered (wdEngine w) ms s k answer"
  shows "wd_ok ((elapse ms s w)\<lparr>wdReads := rs @ (k, Some answer, b) # rs'\<rparr>)" (is "wd_ok ?w'")
proof (rule wd_ok_I)
  note w = wd_ok_fields [OF assms(1)]
  have kept: "reads_ok (elapse ms s w) \<and> syncing_ok (elapse ms s w)"
    using w(4,5) assms(3) by (intro beside_kept [of w ms]) (simp_all add: elapse_def)
  have "answerOf answer = Some x \<Longrightarrow> evented k \<Longrightarrow> landing s (wdStream w @ ms) b k x" for x
    using landing_answer [OF assms(4)] engine_ok_of [OF assms(1)] by blast
  then show "reads_ok ?w' \<and> syncing_ok ?w'"
    using kept answered_names [OF assms(4) engine_ok_of [OF assms(1)]] by (auto simp: reads_ok_def read_ok_def syncing_ok_def elapse_def assms(2))
qed (use wd_ok_fields [OF assms(1)] follows_evolves assms(3) in \<open>auto simp: elapse_def\<close>)

lemma sync_listed_ok:
  assumes "wd_ok w" "wdSyncing w = Some (own, None, b)" "evolves (wdEngine w) ms s" "syncAnswers (wdEngine w) ms s l"
  shows "wd_ok ((elapse ms s w)\<lparr>wdSyncing := Some (own, Some l, b)\<rparr>)" (is "wd_ok ?w'")
proof (rule wd_ok_I)
  note w = wd_ok_fields [OF assms(1)]
  have kept: "reads_ok (elapse ms s w) \<and> syncing_ok (elapse ms s w)"
    using w(4,5) assms(3) by (intro beside_kept [of w ms]) (simp_all add: elapse_def)
  have "landing s (wdStream w @ ms) b k fresh" if "evented k" "listedAt (fst (FullSync l)) k = Some fresh" for k fresh
    by (rule landing_read [OF _ engine_ok_of [OF assms(1)] that(1)]) (use assms(4) that(2) in \<open>simp add: syncAnswers_def\<close>)
  then show "reads_ok ?w' \<and> syncing_ok ?w'" using kept by (auto simp: reads_ok_def syncing_ok_def sync_ok_def elapse_def assms(2))
qed (use wd_ok_fields [OF assms(1)] follows_evolves assms(3) in \<open>auto simp: elapse_def\<close>)

lemma sync_applied_ok:
  assumes "wd_ok w" "wdSyncing w = Some (own, Some l, b)"
    and "held (wStore wt) = held (if snd (FullSync l) = None then ReplaceAll E (fst (FullSync l)) (wStore (wdWatcher w)) else wStore (wdWatcher w))"
    and "wOnWatching wt = wOnWatching (wdWatcher w)" "wPending wt = wPending (wdWatcher w)" "wLoopRunning wt = wLoopRunning (wdWatcher w)"
  shows "wd_ok (w\<lparr>wdSyncing := None, wdDrift := besideDrift b l (wdDrift w), wdWatcher := wt\<rparr>)"
proof (rule wd_ok_I)
  note w = wd_ok_fields [OF assms(1)]
  have "landing (wdEngine w) (wdStream w) b k fresh" if "evented k" "listedAt (fst (FullSync l)) k = Some fresh" for k fresh
    using w(5) assms(2) that by (simp add: syncing_ok_def sync_ok_def)
  then have "follows (wdEngine w) (wdLog w) (wdStream w) (wPending (wdWatcher w)) (wStore wt) (besideDrift b l (wdDrift w))"
    by (rule follows_besideSync [OF w(1) _ assms(3)])
  then show "follows (wdEngine (w\<lparr>wdSyncing := None, wdDrift := besideDrift b l (wdDrift w), wdWatcher := wt\<rparr>))
      (wdLog (w\<lparr>wdSyncing := None, wdDrift := besideDrift b l (wdDrift w), wdWatcher := wt\<rparr>))
      (wdStream (w\<lparr>wdSyncing := None, wdDrift := besideDrift b l (wdDrift w), wdWatcher := wt\<rparr>))
      (wPending (wdWatcher (w\<lparr>wdSyncing := None, wdDrift := besideDrift b l (wdDrift w), wdWatcher := wt\<rparr>)))
      (wStore (wdWatcher (w\<lparr>wdSyncing := None, wdDrift := besideDrift b l (wdDrift w), wdWatcher := wt\<rparr>)))
      (wdDrift (w\<lparr>wdSyncing := None, wdDrift := besideDrift b l (wdDrift w), wdWatcher := wt\<rparr>))"
    by (simp add: assms(5))
qed (use wd_ok_fields [OF assms(1)] hook_ok_cong [OF assms(4)] assms(5,6) in \<open>simp_all add: reads_ok_def syncing_ok_def\<close>)

lemma store_step_ok:
  assumes "wd_ok w" "\<And>k. evented k \<Longrightarrow> held (wStore wt) k = held (wStore (wdWatcher w)) k"
    and "wOnWatching wt = wOnWatching (wdWatcher w)" "wPending wt = wPending (wdWatcher w)" "wLoopRunning wt = wLoopRunning (wdWatcher w)"
  shows "wd_ok (w\<lparr>wdWatcher := wt\<rparr>)"
proof -
  note w = wd_ok_fields [OF assms(1)]
  have "reads_ok (w\<lparr>wdWatcher := wt\<rparr>) \<and> syncing_ok (w\<lparr>wdWatcher := wt\<rparr>)"
    using w(4,5) assms(5) by (intro beside_kept [of w "[]"]) (simp_all add: evolves.still)
  then show ?thesis using w follows_held [OF w(1) assms(2)] hook_ok_cong [OF assms(3)] by (simp add: wd_ok_def assms(4,5))
qed

lemma step_ok:
  assumes "watchStep w w'" "wd_ok w"
  shows "wd_ok w'"
  using assms
proof (induction rule: watchStep.induct)
  case (Engine w ms s)
  note w = wd_ok_fields [OF Engine(2)]
  have "reads_ok (elapse ms s w) \<and> syncing_ok (elapse ms s w)"
    using w(4,5) Engine(1) by (intro beside_kept [of w ms]) (simp_all add: elapse_def)
  then show ?case using w follows_evolves [OF w(1) Engine(1)] by (simp add: wd_ok_def elapse_def)
next
  case (Message w m rest)
  note w = wd_ok_fields [OF Message(3)]
  have f: "follows (wdEngine w) (wdLog w) rest (coalesce m (wPending (wdWatcher w))) (wStore (wdWatcher w)) (wdDrift w)"
    using follows_coalesce w(1) Message(2) by simp
  have c: "coalesce m (wPending (wdWatcher w)) = wPending (wdWatcher w)" if "ekID (fst (eventKeyFromMsg m)) = []"
    using that by (cases "eventKeyFromMsg m") (simp add: coalesce_def)
  let ?w' = "w\<lparr>wdStream := rest, wdWatcher := onMessage m (wdWatcher w)\<rparr>"
  have "reads_ok ?w' \<and> syncing_ok ?w'"
    using w(4,5) Message(1) by (intro beside_loop [of w "[]"]) (simp_all add: evolves.still)
  then show ?case using w f c Message(1)
    by (cases "ekID (fst (eventKeyFromMsg m)) = []") (simp_all add: wd_ok_def onMessage_def hook_ok_def)
next
  case (Timer w ms s a E)
  note w = wd_ok_fields [OF Timer(5)]
  let ?w' = "(elapse ms s w)\<lparr>wdDrift := batchDrift a (wPending (wdWatcher w)) (wdDrift w), wdWatcher := onTimer E a (wdWatcher w)\<rparr>"
  have "reads_ok ?w' \<and> syncing_ok ?w'"
    using w(4,5) Timer(1,3) by (intro beside_loop [of w ms]) (simp_all add: elapse_def)
  then show ?case using w follows_runBatch [of "wdEngine w" "wdLog w" "wdStream w" "(wdWatcher w)\<lparr>wTimer := False\<rparr>" "wdDrift w" ms s a E] Timer(1,3,4)
    by (simp add: wd_ok_def elapse_def onTimer_def hook_ok_def)
next
  case (RefreshChecked w k)
  then show ?case by (auto simp: wd_ok_def reads_ok_def read_ok_def syncing_ok_def)
next
  case (RefreshRead w rs k b rs' ms s answer)
  then show ?case by (intro refresh_read_ok)
next
  case (RefreshApplied w rs k answer b rs' E ended h)
  then show ?case by (intro refresh_applied_ok)
next
  case (Refreshed w running ms s k answer E ended h)
  note w = wd_ok_fields [OF Refreshed(5)]
  let ?w' = "(elapse ms s w)\<lparr>wdWatcher := snd (Refresh E answer ended k running h (wdWatcher w))\<rparr>"
  have "reads_ok ?w' \<and> syncing_ok ?w'"
    using w(4,5) Refreshed(3) by (intro beside_kept [of w ms]) (simp_all add: elapse_def Refresh_frame)
  moreover have "follows s (wdLog w @ ms) (wdStream w @ ms) (wPending (wdWatcher w)) (snd (refreshNow E answer ended k (wStore (wdWatcher w)))) (wdDrift w)"
    by (rule follows_refresh [OF w(1) Refreshed(3,4)])
  moreover have "follows s (wdLog w @ ms) (wdStream w @ ms) (wPending (wdWatcher w)) (wStore (wdWatcher w)) (wdDrift w)"
    by (rule follows_evolves [OF w(1) Refreshed(3)])
  ultimately show ?case using w(2,3)
    by (auto simp: wd_ok_def elapse_def Refresh_def onRefresh_def split: prod.split handoff.split)
next
  case (SettledReady w E)
  then show ?case by (intro store_step_ok) (simp_all add: onSettledReady_def held_applySettled)
next
  case (SettledRead w E i read)
  then show ?case by (intro store_step_ok) (simp_all add: deliverSettled_def held_applySettledRead)
next
  case (SettledBeside w E i read)
  then show ?case by (intro store_step_ok) (simp_all add: held_applySettledRead)
next
  case (Poll w E a)
  then show ?case by (intro store_step_ok) (simp_all add: onPoll_def held_reconcileTasks)
next
  case (Resynced w ms1 s1 a ms2 s2 l E diskOK)
  note w = wd_ok_fields [OF Resynced(7)]
  let ?wt = "wdWatcher w"
  have eq: "snd (resyncOnLoop E a l diskOK True ?wt) = snd (onResync E a l diskOK ?wt)"
    using Resynced(1) by (simp add: resyncOnLoop_def split: prod.split)
  have "follows s1 (wdLog w @ ms1) (wdStream w @ ms1) [] (wStore (flushPending E a ?wt)) (batchDrift a (wPending ?wt) (wdDrift w))"
    using follows_runBatch [of "wdEngine w" "wdLog w" "wdStream w" "?wt\<lparr>wTimer := False\<rparr>" "wdDrift w" ms1 s1 a E] Resynced(3,4) w(1)
    by (simp add: flushPending_def)
  then have f: "follows s2 ((wdLog w @ ms1) @ ms2) ((wdStream w @ ms1) @ ms2) [] (wStore (snd (onResync E a l diskOK ?wt)))
      (syncResult True l (batchDrift a (wPending ?wt) (wdDrift w)))"
    by (rule follows_syncResult [OF _ Resynced(5,6)]) (simp add: onResync_effect(1))
  let ?w' = "(elapse ms2 s2 (elapse ms1 s1 w))\<lparr>wdDrift := syncResult True l (batchDrift a (wPending ?wt) (wdDrift w)),
      wdWatcher := snd (resyncOnLoop E a l diskOK True ?wt)\<rparr>"
  have "reads_ok ?w' \<and> syncing_ok ?w'"
    by (rule beside_loop [of w "ms1 @ ms2"]) (use w(4,5) Resynced(1) evolves_trans [OF Resynced(5,3)] in \<open>simp_all add: elapse_def\<close>)
  then show ?case using f w(2) hook_ok_cong [OF onResync_effect(2)] by (simp add: wd_ok_def elapse_def eq onResync_effect)
next
  case (SyncTick w free ms1 s1 a ms2 s2 l E diskOK)
  have "hook_ok (wdWatcher w)" using SyncTick(7) by (simp add: wd_ok_def)
  then show ?case using SyncTick(1) by (intro synced_ok [OF SyncTick(7,3-6)]) (simp_all add: onSyncTick_fields loopSync_effect)
next
  case (Retry w free ms1 s1 a ms2 s2 l E diskOK)
  have "hook_ok (wdWatcher w)" using Retry(8) by (simp add: wd_ok_def)
  then show ?case using Retry(1) by (intro synced_ok [OF Retry(8,4-7)]) (simp_all add: onRetry_fields [OF Retry(2)] loopSync_effect)
next
  case (Lost w ms s a E)
  note w = wd_ok_fields [OF Lost(4)]
  have f: "follows s (wdLog w @ ms) (wdStream w @ ms) [] (wStore (runBatch E a ((wdWatcher w)\<lparr>wWatching := False\<rparr>))) (batchDrift a (wPending (wdWatcher w)) (wdDrift w))"
    using follows_runBatch [of "wdEngine w" "wdLog w" "wdStream w" "(wdWatcher w)\<lparr>wWatching := False\<rparr>" "wdDrift w" ms s a E] w(1) Lost(2,3) by simp
  let ?w' = "(elapse ms s w)\<lparr>wdStream := [], wdDrift := UNIV, wdWatcher := onStreamError E a (wdWatcher w)\<rparr>"
  have "reads_ok ?w' \<and> syncing_ok ?w'"
    using w(4,5) Lost(1,2) by (intro beside_loop [of w ms]) (simp_all add: elapse_def)
  then show ?case using f w(2)
    by (simp add: wd_ok_def elapse_def onStreamError_def leaveLoop_def setConnected_def hook_ok_def follows_def tracked_def)
next
  case (SyncChecked w)
  then show ?case using wd_ok_fields(1) [OF SyncChecked(3)] by (simp add: wd_ok_def reads_ok_def syncing_ok_def sync_ok_def)
next
  case (Reconnect w n)
  note w = wd_ok_fields [OF Reconnect(3)]
  let ?w' = "(overtake w)\<lparr>wdStream := drop n (wdLog w), wdDrift := UNIV\<rparr>"
  have p: "wPending (wdWatcher w) = []" using Reconnect(1) w(3) by simp
  have "reads_ok ?w' \<and> syncing_ok ?w'"
    using w(4,5) Reconnect(2) by (intro beside_overtake [of w]) (simp_all add: overtake_def)
  moreover have "follows (wdEngine w) (wdLog w) (drop n (wdLog w)) [] (wStore (wdWatcher w)) UNIV"
    using w(1) by (simp add: follows_def tracked_def p suffix_drop)
  ultimately show ?case using w(2) p Reconnect(1) by (simp add: wd_ok_def overtake_def reads_ok_def syncing_ok_def sync_ok_def)
next
  case (SyncListed w own b ms s l)
  then show ?case by (intro sync_listed_ok)
next
  case (SyncApplied w l b E diskOK)
  then show ?case by (intro sync_applied_ok [of w False l b]) (simp_all add: resyncBeside_effect)
next
  case (Connected w l b E since diskOK)
  have b: "b = False" using wd_ok_fields(5) [OF Connected(2)] Connected(1) by (simp add: syncing_ok_def sync_ok_def)
  show ?case unfolding syncResult_besideDrift using Connected wd_ok_fields(2) [OF Connected(2)] unfolding b
    by (intro sync_applied_ok [of w True l False]) (simp_all add: connect_effect)
next
  case (Enter w synced)
  note w = wd_ok_fields [OF Enter(3)]
  let ?w' = "(overtake w)\<lparr>wdWatcher := enterLoop synced (wdWatcher w)\<rparr>"
  have "reads_ok ?w' \<and> syncing_ok ?w'"
    using w(4,5) Enter(2) by (intro beside_overtake [of w]) (simp_all add: overtake_def)
  then show ?case using w(1-3) Enter(1) by (simp add: wd_ok_def enterLoop_def overtake_def hook_ok_def)
qed

lemma run_ok: "watchRun w \<Longrightarrow> wd_ok w"
proof (induction rule: watchRun.induct)
  case (start s c path f)
  then show ?case by (simp add: wd_ok_def follows_def NewWatcher_def tracked_def gone_ok_def lastAction_def reads_ok_def syncing_ok_def)
qed (rule step_ok)

text \<open>
  C3. Whenever the stream has delivered everything and no batch is pending, the cache holds of every resource (tasks aside, for which there
  are no events) exactly what the engine holds, secrets without their payload, except where the watcher may have drifted: a read of the
  resource failed, its type has not been listed since the stream was last lost, or a refresh or a sync beside the loop wrote it that was
  under way when a loop or a reconnect began. This is so in every interleaving of the engine's changes with the operations of the loop,
  each one step, and with the checks, reads and writes of refreshes and syncs beside it.
\<close>

theorem cache_follows_the_engine:
  assumes "watchRun w" "wdStream w = []" "wPending (wdWatcher w) = []" "evented k" "k \<notin> wdDrift w"
  shows "held (wStore (wdWatcher w)) k = map_option redact (enAt (wdEngine w) k)"
  using run_ok [OF assms(1)] assms(2-5) by (auto simp: wd_ok_def follows_def tracked_def agrees_def)

text \<open>A volume the first sync finds, removed afterwards: the message arrives, the timer runs the batch.\<close>

definition ex_volume :: volume where
  "ex_volume = \<lparr>voName = ''v'', voLabels = [], voDriver = ''local'', voOptions = []\<rparr>"

definition ex_vkey :: eventKey where
  "ex_vkey = EventKey ''volume'' ''v''"

definition ex_engine :: engine where
  "ex_engine = \<lparr>enAt = (\<lambda>_. None)(ex_vkey := Some (RVolume ex_volume)), enTop = \<lambda>_. 0\<rparr>"

definition ex_listings :: listings where
  "ex_listings = \<lparr>liNodes = Inr [], liServices = Inr [], liTasks = Inr [], liConfigs = Inr [], liSecrets = Inr [], liNetworks = Inr [],
     liVolumes = Inr [ex_volume]\<rparr>"

definition ex_message :: message where
  "ex_message = \<lparr>msgType = ''volume'', msgAction = ''destroy'', msgActorID = ''v'', msgAttributes = [], msgTimeNano = 0\<rparr>"

definition ex_answers :: engineAnswers where
  "ex_answers = \<lparr>anInspect = \<lambda>_ _. \<lparr>atResult = Inl ErrOther, atExpired = None, atCancelled = None\<rparr>, anLists = \<lambda>_. Inl ErrOther,
     anFree = True, anOrder = \<lambda>xs. xs\<rparr>"

definition ex_connected :: world where
  "ex_connected = \<lparr>wdEngine = ex_engine, wdLog = [], wdStream = [], wdDrift = syncResult True ex_listings UNIV,
     wdWatcher = enterLoop True (snd (connect ex_env 0 ex_listings True (NewWatcher (New 0 [] 8) []))), wdReads = [], wdSyncing = None\<rparr>"

definition ex_removed :: world where
  "ex_removed = \<lparr>wdEngine = change ex_engine ex_vkey None, wdLog = [ex_message], wdStream = [],
     wdDrift = batchDrift ex_answers (wPending (onMessage ex_message (wdWatcher ex_connected))) (wdDrift ex_connected),
     wdWatcher = onTimer ex_env ex_answers (onMessage ex_message (wdWatcher ex_connected)), wdReads = [], wdSyncing = None\<rparr>"

lemma ex_listed: "listedAt (fst (FullSync ex_listings)) k =
    (if ekType k \<in> {''node'', ''service'', ''config'', ''secret'', ''network'', ''volume''} then Some (enAt ex_engine k) else None)"
  by (cases k) (auto simp: listedAt_def FullSync_def ex_listings_def byKey_def ex_engine_def ex_vkey_def ex_volume_def)

lemma ex_synced: "snd (FullSync ex_listings) = None"
  by (simp add: FullSync_def fullSyncError_def failedLists_def ex_listings_def Let_def syncedResources_def swarmResources_def)

definition ex_before :: world where
  "ex_before = \<lparr>wdEngine = ex_engine, wdLog = [], wdStream = [], wdDrift = syncResult True ex_listings UNIV,
     wdWatcher = snd (connect ex_env 0 ex_listings True (NewWatcher (New 0 [] 8) [])), wdReads = [], wdSyncing = None\<rparr>"

lemma ex_before_run: "watchRun ex_before" "\<not> wLoopRunning (wdWatcher ex_before)"
proof -
  let ?wt = "NewWatcher (New 0 [] 8) []"
  have wt: "(NewWatcher c path)\<lparr>wOnWatching := None\<rparr> = NewWatcher c path" for c path by (simp add: NewWatcher_def)
  have "watchRun \<lparr>wdEngine = ex_engine, wdLog = [], wdStream = [], wdDrift = UNIV, wdWatcher = ?wt, wdReads = [], wdSyncing = None\<rparr>" (is "watchRun ?w")
    by (rule watchRun.start [where path = "[]" and f = None, unfolded wt]) (auto simp: engine_ok_def ex_engine_def ex_vkey_def ex_volume_def not_ahead_def held_def New_def hook_ok_def NewWatcher_def split: if_splits)
  moreover have "watchStep ?w ((overtake ?w)\<lparr>wdStream := drop 0 (wdLog ?w), wdDrift := UNIV, wdSyncing := Some (True, None, False)\<rparr>)" (is "watchStep _ ?w1")
    by (rule watchStep.Reconnect) (simp_all add: NewWatcher_def)
  moreover have "watchStep ?w1 ((elapse [] ex_engine ?w1)\<lparr>wdSyncing := Some (True, Some ex_listings, False)\<rparr>)" (is "watchStep _ ?w2")
    by (rule watchStep.SyncListed) (auto simp: overtake_def syncAnswers_def ex_listed readDuring_def intro: evolves.still split: if_splits)
  moreover have "watchStep ?w2 (?w2\<lparr>wdSyncing := None, wdDrift := syncResult True ex_listings (wdDrift ?w2),
      wdWatcher := snd (connect ex_env 0 ex_listings True (wdWatcher ?w2))\<rparr>)" (is "watchStep _ ?w3")
    by (rule watchStep.Connected [where b = False]) simp
  ultimately have "watchRun ?w3" by (blast intro: watchRun.more)
  then show "watchRun ex_before" by (simp add: ex_before_def elapse_def overtake_def)
  show "\<not> wLoopRunning (wdWatcher ex_before)" by (simp add: ex_before_def connect_effect(4) hook_ok_def NewWatcher_def)
qed

lemma ex_connected_run: "watchRun ex_connected"
proof -
  have "watchStep ex_before ((overtake ex_before)\<lparr>wdWatcher := enterLoop True (wdWatcher ex_before)\<rparr>)"
    using ex_before_run(2) by (rule watchStep.Enter) (simp add: ex_before_def)
  from watchRun.more [OF ex_before_run(1) this] show ?thesis by (simp add: ex_connected_def ex_before_def overtake_def)
qed

lemma ex_removed_run: "watchRun ex_removed"
proof -
  have m: "eventKeyFromMsg ex_message = (ex_vkey, ''remove'')"
    by (simp add: eventKeyFromMsg_def ex_message_def historyAction_def ex_vkey_def)
  have ev: "evolves ex_engine ([] @ [ex_message]) (change ex_engine ex_vkey None)"
    by (rule evolves.event [OF evolves.still m]) (simp_all add: admissible_def)
  let ?w1 = "elapse [ex_message] (change ex_engine ex_vkey None) ex_connected"
  let ?w2 = "?w1\<lparr>wdStream := [], wdWatcher := onMessage ex_message (wdWatcher ?w1)\<rparr>"
  let ?w3 = "(elapse [] (wdEngine ?w2) ?w2)\<lparr>wdDrift := batchDrift ex_answers (wPending (wdWatcher ?w2)) (wdDrift ?w2),
      wdWatcher := onTimer ex_env ex_answers (wdWatcher ?w2)\<rparr>"
  have "watchStep ex_connected ?w1" using ev by (intro watchStep.Engine) (simp add: ex_connected_def)
  moreover have "watchStep ?w1 ?w2" by (rule watchStep.Message) (simp_all add: elapse_def ex_connected_def enterLoop_def)
  moreover have "watchStep ?w2 ?w3"
    by (rule watchStep.Timer) (auto simp: elapse_def ex_connected_def enterLoop_def onMessage_def m ex_vkey_def batchAnswers_def ex_answers_def
        intro: evolves.still)
  ultimately have "watchRun ?w3" using ex_connected_run by (meson watchRun.more)
  then show ?thesis by (simp add: ex_removed_def elapse_def ex_connected_def)
qed

lemma ex_drift: "ex_vkey \<notin> wdDrift ex_connected" "ex_vkey \<notin> wdDrift ex_removed" "evented ex_vkey"
proof -
  show c: "ex_vkey \<notin> wdDrift ex_connected"
    by (simp add: ex_connected_def syncResult_def ex_synced syncDrift_def ex_listed ex_vkey_def)
  show "ex_vkey \<notin> wdDrift ex_removed" using c
    by (simp add: ex_removed_def batchDrift_def failedReads_def onMessage_def eventKeyFromMsg_def ex_message_def historyAction_def ex_vkey_def
        coalesce_def coThen_def ex_connected_def enterLoop_def)
qed (simp add: evented_def ex_vkey_def)

theorem cache_follows_the_engine_witness:
  "held (wStore (wdWatcher ex_connected)) ex_vkey = Some (RVolume ex_volume) \<and> held (wStore (wdWatcher ex_removed)) ex_vkey = None"
proof
  show "held (wStore (wdWatcher ex_connected)) ex_vkey = Some (RVolume ex_volume)"
    using cache_follows_the_engine [OF ex_connected_run _ _ ex_drift(3,1)] by (simp add: ex_connected_def enterLoop_def ex_engine_def)
  show "held (wStore (wdWatcher ex_removed)) ex_vkey = None"
    using cache_follows_the_engine [OF ex_removed_run _ _ ex_drift(3,2)] by (simp add: ex_removed_def onTimer_def change_def)
qed

text \<open>
  Why a refresh that was overtaken is excepted: it read the volume before the loop started, the volume is removed, the loop hears of it and
  drops it, and then the refresh puts it back. The stream is drained and no batch is pending.
\<close>

definition ex_late :: world where
  "ex_late = ex_removed\<lparr>wdReads := [(ex_vkey, Some (Inr (RVolume ex_volume)), True)]\<rparr>"

lemma ex_late_run: "watchRun ex_late"
proof -
  have m: "eventKeyFromMsg ex_message = (ex_vkey, ''remove'')"
    by (simp add: eventKeyFromMsg_def ex_message_def historyAction_def ex_vkey_def)
  have ev: "evolves ex_engine ([] @ [ex_message]) (change ex_engine ex_vkey None)"
    by (rule evolves.event [OF evolves.still m]) (simp_all add: admissible_def)
  let ?r = "(ex_vkey, Some (Inr (RVolume ex_volume)))"
  let ?w1 = "ex_before\<lparr>wdReads := (ex_vkey, None, False) # wdReads ex_before\<rparr>"
  let ?w2 = "(elapse [] ex_engine ?w1)\<lparr>wdReads := [] @ (ex_vkey, Some (Inr (RVolume ex_volume)), False) # []\<rparr>"
  let ?w3 = "(overtake ?w2)\<lparr>wdWatcher := enterLoop True (wdWatcher ?w2)\<rparr>"
  let ?w4 = "elapse [ex_message] (change ex_engine ex_vkey None) ?w3"
  let ?w5 = "?w4\<lparr>wdStream := [], wdWatcher := onMessage ex_message (wdWatcher ?w4)\<rparr>"
  let ?w6 = "(elapse [] (wdEngine ?w5) ?w5)\<lparr>wdDrift := batchDrift ex_answers (wPending (wdWatcher ?w5)) (wdDrift ?w5),
      wdWatcher := onTimer ex_env ex_answers (wdWatcher ?w5)\<rparr>"
  have "watchStep ex_before ?w1" using ex_before_run(2) by (rule watchStep.RefreshChecked)
  moreover have "watchStep ?w1 ?w2"
    by (rule watchStep.RefreshRead) (auto simp: ex_before_def readDuring_def ex_engine_def intro: evolves.still)
  moreover have "watchStep ?w2 ?w3"
    using ex_before_run(2) by (intro watchStep.Enter) (simp_all add: elapse_def ex_before_def)
  moreover have "watchStep ?w3 ?w4" using ev by (intro watchStep.Engine) (simp add: ex_before_def elapse_def overtake_def)
  moreover have "watchStep ?w4 ?w5" by (rule watchStep.Message) (simp_all add: elapse_def overtake_def ex_before_def enterLoop_def)
  moreover have "watchStep ?w5 ?w6"
    by (rule watchStep.Timer) (auto simp: elapse_def overtake_def ex_before_def enterLoop_def onMessage_def m ex_vkey_def batchAnswers_def
        ex_answers_def intro: evolves.still)
  ultimately have "watchRun ?w6" using ex_before_run(1) by (meson watchRun.more)
  moreover have "?w6 = ex_late"
    by (simp add: ex_late_def ex_removed_def ex_connected_def ex_before_def elapse_def overtake_def)
  ultimately show ?thesis by simp
qed

lemma overtaken_refresh_resurrects:
  "\<exists>w. watchRun w \<and> wdStream w = [] \<and> wPending (wdWatcher w) = [] \<and> enAt (wdEngine w) ex_vkey = None \<and>
     held (wStore (wdWatcher w)) ex_vkey = Some (RVolume ex_volume)"
proof -
  let ?w = "ex_late\<lparr>wdReads := [] @ [], wdDrift := if True \<and> answerOf (Inr (RVolume ex_volume)) \<noteq> None then insert ex_vkey (wdDrift ex_late) else wdDrift ex_late,
      wdWatcher := snd (Refresh ex_env (Inr (RVolume ex_volume)) False ex_vkey (False, False) Taken (wdWatcher ex_late))\<rparr>"
  have "watchStep ex_late ?w" by (rule watchStep.RefreshApplied) (simp add: ex_late_def)
  then have "watchRun ?w" using ex_late_run by (blast intro: watchRun.more)
  moreover have "wStore (wdWatcher ?w) = apply_res ex_env (RVolume ex_volume) (wStore (wdWatcher ex_late))"
    by (simp add: Refresh_def onRefresh_def refreshNow_def)
  moreover have "held (wStore (wdWatcher ex_late)) ex_vkey = None"
    using run_ok [OF ex_removed_run] ex_drift(2,3)
    by (auto simp: wd_ok_def follows_def tracked_def agrees_def ex_late_def ex_removed_def onTimer_def change_def)
  ultimately have "watchRun ?w \<and> wdStream ?w = [] \<and> wPending (wdWatcher ?w) = [] \<and> enAt (wdEngine ?w) ex_vkey = None \<and>
      held (wStore (wdWatcher ?w)) ex_vkey = Some (RVolume ex_volume)"
    by (simp add: held_apply_merged merged_def Refresh_frame ex_late_def ex_removed_def onTimer_def change_def ex_vkey_def ex_volume_def)
  then show ?thesis by blast
qed

end
