(* ===== verification/Watcher_Tasks.thy ===== *)
theory Watcher_Tasks
  imports Watcher_Run
begin

text \<open>
  Tasks, which Swarm announces by no events: what listing them again leaves in the cache, why a settle read cannot bring a task back, and
  how long settling goes on. And what is recovered of a gap.
\<close>

section \<open>Listing again\<close>

lemma held_task: "held c (EventKey ''task'' i) = map_option RTask (gget (cTasks c) i)"
  by (simp add: held_def)

definition fresher :: "task option \<Rightarrow> task \<Rightarrow> task" where
  "fresher cached t = (case cached of None \<Rightarrow> t | Some h \<Rightarrow> if tVersion t < tVersion h then h else t)"

lemma tasks_SetTask: "gget (cTasks (SetTask E t c)) i = (if i = tID t then Some (fresher (gget (cTasks c) i) t) else gget (cTasks c) i)"
proof -
  have "map_option RTask (gget (cTasks (SetTask E t c)) i) = map_option RTask (if i = tID t then Some (fresher (gget (cTasks c) i) t) else gget (cTasks c) i)"
    using held_SetTask [of t c E] unfolding held_task [symmetric] wrote_def
    by (auto simp: outdated_def fresher_def held_task split: option.split)
  then show ?thesis by (rule injD [OF option.inj_map, rotated]) (simp add: inj_def)
qed

lemma tasks_DeleteTask: "gget (cTasks (DeleteTask E j c)) i = (if i = j then None else gget (cTasks c) i)"
proof -
  have "map_option RTask (gget (cTasks (DeleteTask E j c)) i) = map_option RTask (if i = j then None else gget (cTasks c) i)"
    using fun_cong [OF held_DeleteTask, of E j c "EventKey ''task'' i"] unfolding held_task [symmetric] by (auto simp: held_task)
  then show ?thesis by (rule injD [OF option.inj_map, rotated]) (simp add: inj_def)
qed

lemma tasks_set_all:
  assumes "distinct (map tID listed)"
  shows "gget (cTasks (fold (SetTask E) listed c)) i = (case find (\<lambda>t. tID t = i) listed of
     None \<Rightarrow> gget (cTasks c) i | Some t \<Rightarrow> Some (fresher (gget (cTasks c) i) t))"
  using assms
proof (induction listed arbitrary: c)
  case (Cons t ts)
  have "find (\<lambda>x. tID x = i) ts = None" if "tID t = i" using Cons.prems that by (auto simp: find_None_iff image_iff)
  with Cons show ?case by (cases "tID t = i") (auto simp: tasks_SetTask split: option.split)
qed simp

lemma tasks_delete_all:
  "gget (cTasks (fold (\<lambda>t c. if P t then c else DeleteTask E (tID t) c) ts c)) i =
     (if \<exists>t \<in> set ts. tID t = i \<and> \<not> P t then None else gget (cTasks c) i)"
  by (induction ts arbitrary: c) (auto simp: tasks_DeleteTask)

definition inScope :: "taskScope \<Rightarrow> task \<Rightarrow> bool" where
  "inScope scope t \<longleftrightarrow> (if scService scope \<noteq> [] then tServiceID t = scService scope
     else if scNode scope \<noteq> [] then tNodeID t = scNode scope else True)"

lemma mem_map_filter: "y \<in> set (List.map_filter f xs) \<longleftrightarrow> (\<exists>x \<in> set xs. f x = Some y)"
  by (induction xs) (auto simp: map_filter_simps split: option.splits)

lemma cachedIn_exact:
  assumes "cache_ok c"
  shows "t \<in> set (cachedIn scope c) \<longleftrightarrow> gget (cTasks c) (tID t) = Some t \<and> inScope scope t"
proof -
  have k: "keyed tID (cTasks c)" and ix: "index_exact (cTasksByService c) tServiceID (cTasks c)" "index_exact (cTasksByNode c) tNodeID (cTasks c)"
    using assms by (simp_all add: cache_ok_def maps_ok_def)
  have all: "x \<in> snd ` set (cTasks c) \<longleftrightarrow> gget (cTasks c) (tID x) = Some x" for x
  proof -
    have "x \<in> snd ` set (cTasks c) \<longleftrightarrow> (\<exists>i. gget (cTasks c) i = Some x)"
      using k gwf_mem_iff [of "cTasks c" _ x] by (force simp: keyed_def image_iff)
    then show ?thesis using k unfolding keyed_def by metis
  qed
  have indexed: "t \<in> set (indexedTasks (gor by p []) c) \<longleftrightarrow> gget (cTasks c) (tID t) = Some t \<and> f t = p"
    if "index_exact by f (cTasks c)" "p \<noteq> []" for "by" f p
  proof -
    have s: "set (gor by p []) = {i. \<exists>t. gget (cTasks c) i = Some t \<and> f t = p}" using that by (simp add: index_exact_def)
    have "t \<in> set (indexedTasks (gor by p []) c) \<longleftrightarrow> (\<exists>i \<in> set (gor by p []). gget (cTasks c) i = Some t)"
      unfolding indexedTasks_def by (rule mem_map_filter)
    also have "\<dots> \<longleftrightarrow> gget (cTasks c) (tID t) = Some t \<and> f t = p" unfolding s using k by (auto simp: keyed_def)
    finally show ?thesis .
  qed
  show ?thesis using indexed [OF ix(1), of "scService scope"] indexed [OF ix(2), of "scNode scope"] all [of t]
    by (simp add: cachedIn_def inScope_def ListTasks_eq ListTasksByService_def ListTasksByNode_def)
qed

text \<open>
  C25. Listing a scope again leaves exactly the listed tasks of it in the cache, each in the newer of the listed and the cached version;
  a cached task of the scope that is not listed any more is dropped, and a task outside the scope is as it was.
\<close>

theorem relist_is_exact:
  assumes "cache_ok c" "listing scope = Inr listed" "distinct (map tID listed)"
  shows "gget (cTasks (snd (reconcileTasks E listing scope c))) i =
    (case find (\<lambda>t. tID t = i) listed of
       Some t \<Rightarrow> Some (fresher (gget (cTasks c) i) t)
     | None \<Rightarrow> (case gget (cTasks c) i of None \<Rightarrow> None | Some h \<Rightarrow> if inScope scope h then None else Some h))"
proof -
  have key: "gget (cTasks c) i = Some t \<Longrightarrow> tID t = i" for t using assms(1) by (simp add: cache_ok_def maps_ok_def keyed_def)
  have listed: "find (\<lambda>t. tID t = i) listed = None \<longleftrightarrow> i \<notin> set (map tID listed)" by (auto simp: find_None_iff)
  have "gget (cTasks (snd (reconcileTasks E listing scope c))) i =
      (if \<exists>t \<in> set (cachedIn scope c). tID t = i \<and> tID t \<notin> set (map tID listed) then None
       else gget (cTasks (fold (SetTask E) listed c)) i)"
    by (simp add: reconcileTasks_def assms(2) Let_def tasks_delete_all)
  also have "(\<exists>t \<in> set (cachedIn scope c). tID t = i \<and> tID t \<notin> set (map tID listed)) \<longleftrightarrow>
      (\<exists>h. gget (cTasks c) i = Some h \<and> inScope scope h) \<and> i \<notin> set (map tID listed)"
    using cachedIn_exact [OF assms(1)] key by blast
  finally show ?thesis unfolding tasks_set_all [OF assms(3)] listed [symmetric] by (auto split: option.split)
qed

lemma ex_cache_tasks: "gget (cTasks ex_cache) i = (if i = tID ex_task then Some ex_task else None)"
proof -
  have "held (SetSecret ex_env ex_secret (SetService ex_env ex_service (snd (AddOnChangeListener (New 0 [] 8))))) (EventKey ''task'' i) = None" for i
    using held_SetSecret [of ex_secret "SetService ex_env ex_service (snd (AddOnChangeListener (New 0 [] 8)))" ex_env]
      held_SetService [of ex_service "snd (AddOnChangeListener (New 0 [] 8))" ex_env]
    by (simp add: wrote_def) (simp add: held_task AddOnChangeListener_def New_def)
  then show ?thesis by (simp add: ex_cache_def tasks_SetTask fresher_def held_task)
qed

theorem relist_is_exact_witness:
  "gget (cTasks (snd (reconcileTasks ex_env (\<lambda>_. Inr []) \<lparr>scService = tServiceID ex_task, scNode = []\<rparr> ex_cache))) (tID ex_task) = None"
  using relist_is_exact [OF reachable_ok [OF ex_cache_reachable], of "\<lambda>_. Inr []" "\<lparr>scService = tServiceID ex_task, scNode = []\<rparr>" "[]" ex_env
      "tID ex_task"]
  by (simp add: ex_cache_tasks inScope_def ex_task_def)

section \<open>Settling\<close>

definition keyedReads :: "settledRead gomap \<Rightarrow> bool" where
  "keyedReads reads \<longleftrightarrow> (\<forall>i t. (i, ReadTask t) \<in> set reads \<longrightarrow> tID t = i)"

lemma applySettledRead_tasks:
  assumes "\<And>t. read = ReadTask t \<Longrightarrow> tID t = j" "gget (cTasks (applySettledRead E j read c)) i = Some t"
  shows "\<exists>h. gget (cTasks c) i = Some h \<and> tVersion h \<le> tVersion t"
  using assms by (cases read) (auto simp: applySettledRead_def tasks_SetTask tasks_DeleteTask fresher_def split: if_splits option.splits)

lemma settled_only_updates:
  assumes "keyedReads reads" "gget (cTasks (applySettled E reads c)) i = Some t"
  shows "\<exists>h. gget (cTasks c) i = Some h \<and> tVersion h \<le> tVersion t"
  using assms unfolding applySettled_def
proof (induction reads arbitrary: c)
  case (Cons r reads)
  obtain j read where r: "r = (j, read)" by (cases r)
  have k: "keyedReads reads" "\<And>t. read = ReadTask t \<Longrightarrow> tID t = j" using Cons.prems(1) by (auto simp: keyedReads_def r)
  obtain h where h: "gget (cTasks (applySettledRead E j read c)) i = Some h" "tVersion h \<le> tVersion t"
    using Cons.IH [OF k(1)] Cons.prems(2) by (auto simp: r)
  show ?case using applySettledRead_tasks [OF k(2) h(1)] h(2) by (meson order_trans)
qed auto

text \<open>
  C29. A task that is not in the cache stays out of it whatever settle reads the loop applies, and no settle read takes a task back to an older
  version: reads made off the loop can neither undo a removal nor an update the loop applied meanwhile.
\<close>

theorem settle_reads_never_resurrect:
  assumes "keyedReads (wSettled w)" "gget (cTasks (wStore (onSettledReady E w))) i = Some t"
  shows "\<exists>h. gget (cTasks (wStore w)) i = Some h \<and> tVersion h \<le> tVersion t"
  using settled_only_updates [OF assms(1)] assms(2) by (auto simp: onSettledReady_def)

definition ex_settling :: watcher where
  "ex_settling = (NewWatcher ex_cache [])\<lparr>wSettled := [(tID ex_task, ReadTask ex_task)]\<rparr>"

theorem settle_reads_never_resurrect_witness:
  "gget (cTasks (wStore (onSettledReady ex_env ex_settling))) ''other'' = None"
proof (rule ccontr)
  assume "gget (cTasks (wStore (onSettledReady ex_env ex_settling))) ''other'' \<noteq> None"
  then obtain t where "gget (cTasks (wStore (onSettledReady ex_env ex_settling))) ''other'' = Some t" by auto
  moreover have "keyedReads (wSettled ex_settling)" by (simp add: keyedReads_def ex_settling_def)
  ultimately show False
    using settle_reads_never_resurrect [of ex_settling ex_env "''other''" t] by (simp add: ex_settling_def NewWatcher_def ex_cache_tasks ex_task_def)
qed

lemma settleSeries_waits:
  "length (settleSeries n d engine stopped action k) \<le> n"
  "0 \<le> d \<Longrightarrow> sum_list (map fst (settleSeries n d engine stopped action k)) \<le> d * (2 ^ n - 1)"
proof (induction n arbitrary: d k)
  case (Suc n)
  { case 1 then show ?case using Suc.IH(1) by (simp split: prod.split) }
  { case 2
    have "sum_list (map fst (settleSeries n (d * 2) engine stopped action (k + 1))) \<le> d * 2 * (2 ^ n - 1)" using 2 Suc.IH(2) by simp
    moreover have "0 \<le> d * (2 ^ n - 1)" using 2 by simp
    ultimately show ?case using 2 by (auto simp: algebra_simps split: prod.split) }
qed simp_all

lemma settleSeries_ends:
  "length (settleSeries n d engine stopped action k) < n \<Longrightarrow>
     (\<exists>j. stopped j) \<or> snd (settleRead (engine (k + length (settleSeries n d engine stopped action k) - 1)) (stopped (k + length (settleSeries n d engine stopped action k))) action)"
proof (induction n arbitrary: d k)
  case (Suc n)
  show ?case
  proof (cases "stopped k")
    case False
    obtain q e where r: "settleRead (engine k) (stopped (k + 1)) action = (q, e)" by (cases "settleRead (engine k) (stopped (k + 1)) action")
    show ?thesis
    proof (cases e)
      case True
      then show ?thesis using False r by simp
    next
      case e: False
      show ?thesis using Suc.IH [of "d * 2" "k + 1"] Suc.prems False r e by (simp add: add.assoc)
    qed
  qed auto
qed simp

text \<open>
  How long a series takes when its \<open>k\<close>-th read takes \<open>took k\<close>: the waits and the reads, from its scheduling to its last answer. Every attempt
  of a read included, \<open>inspectWithRetry\<close> gives it \<open>inspectTimeout\<close>.
\<close>

definition inspectTimeout :: int where "inspectTimeout = 10 * second"

definition settleTime :: "(nat \<Rightarrow> int) \<Rightarrow> (int \<times> settledRead option) list \<Rightarrow> int" where
  "settleTime took reads = sum_list (map fst reads) + sum_list (map took [0..<length reads])"

lemma reads_bounded: "(\<And>k. took k \<le> b) \<Longrightarrow> sum_list (map took [0..<n]) \<le> int n * b" for b :: int
proof (induction n)
  case (Suc n)
  then show ?case using Suc.prems [of n] by (simp add: algebra_simps add_mono)
qed simp

text \<open>
  C33. Settling a task comes to an end: at most three reads, with at most five and a quarter seconds of waiting between them, and with what the
  reads themselves take, each cut off by its timeout of ten seconds, within thirty-five and a quarter seconds; and it stops short of three only
  because the watcher stopped or because the last read said so (the task had caught up, was gone, or was none).
\<close>

theorem settling_ends:
  assumes "\<And>k. took k \<le> inspectTimeout"
  shows "length (scheduleSettle engine stopped action) \<le> 3 \<and>
   sum_list (map fst (scheduleSettle engine stopped action)) \<le> 5250 * 10 ^ 6 \<and>
   settleTime took (scheduleSettle engine stopped action) \<le> 35250 * 10 ^ 6 \<and>
   (length (scheduleSettle engine stopped action) = 3 \<or> (\<exists>j. stopped j) \<or>
    snd (settleRead (engine (length (scheduleSettle engine stopped action) - 1)) (stopped (length (scheduleSettle engine stopped action))) action))"
proof (intro conjI)
  have three: "length (scheduleSettle engine stopped action) \<le> 3"
    using settleSeries_waits(1) [of settleAttempts] by (simp add: scheduleSettle_def settleAttempts_def)
  show "length (scheduleSettle engine stopped action) \<le> 3" by (rule three)
  show waits: "sum_list (map fst (scheduleSettle engine stopped action)) \<le> 5250 * 10 ^ 6"
    using settleSeries_waits(2) [of defaultSettleDelay settleAttempts engine stopped action 0]
    by (simp add: scheduleSettle_def settleAttempts_def defaultSettleDelay_def)
  have "sum_list (map took [0..<length (scheduleSettle engine stopped action)]) \<le> int (length (scheduleSettle engine stopped action)) * inspectTimeout"
    by (rule reads_bounded [OF assms])
  also have "\<dots> \<le> 30 * second" using three by (simp add: inspectTimeout_def second_def)
  finally show "settleTime took (scheduleSettle engine stopped action) \<le> 35250 * 10 ^ 6"
    using waits by (simp add: settleTime_def second_def)
  show "length (scheduleSettle engine stopped action) = 3 \<or> (\<exists>j. stopped j) \<or>
    snd (settleRead (engine (length (scheduleSettle engine stopped action) - 1)) (stopped (length (scheduleSettle engine stopped action))) action)"
    using settleSeries_ends [of settleAttempts defaultSettleDelay engine stopped action 0] three
    by (auto simp: scheduleSettle_def settleAttempts_def)
qed

theorem settling_ends_witness:
  "settleTime (\<lambda>k. 9 * second) (scheduleSettle (\<lambda>_. Inr (RTask ex_task)) (\<lambda>_. False) ''die'') \<le> 35250 * 10 ^ 6 \<and>
   length (scheduleSettle (\<lambda>_. Inr (RTask ex_task)) (\<lambda>_. False) ''die'') \<le> 3"
proof -
  have "9 * second \<le> inspectTimeout" by (simp add: inspectTimeout_def second_def)
  from settling_ends [of "\<lambda>_. 9 * second", OF this] show ?thesis by blast
qed

section \<open>Recovering a gap\<close>

definition isChange :: "message \<Rightarrow> bool" where
  "isChange m \<longleftrightarrow> recoverable (msgType m) \<noteq> None \<and> historyAction (msgAction m) \<in> {''create'', ''update'', ''remove''}"

lemma recoverEntry_some:
  "recoverEntry start until st m = Some e \<Longrightarrow> isChange m \<and> start < msgTimeNano m \<and> msgTimeNano m < until \<and>
     hTimestamp e = msgTimeNano m \<and> hResourceID e = msgActorID m \<and> hAction e = historyAction (msgAction m) \<and> hRecovered e"
  by (auto simp: recoverEntry_def isChange_def Let_def zeroEntry_def split: option.splits if_splits)

lemma recoverEntry_change:
  "isChange m \<Longrightarrow> start < msgTimeNano m \<Longrightarrow> msgTimeNano m < until \<Longrightarrow> recoverEntry start until st m \<noteq> None"
  by (auto simp: recoverEntry_def isChange_def Let_def split: option.split)

lemma recoverFrom_nonempty:
  assumes "rvFrom (recoverFrom buffered start until st) \<noteq> 0"
  shows "\<exists>oldest rest. buffered = oldest # rest \<and> rvFrom (recoverFrom buffered start until st) = max (start + eventReplayMargin) (msgTimeNano oldest) \<and>
    rvEntries (recoverFrom buffered start until st) = List.map_filter (recoverEntry (start + eventReplayMargin) until st) buffered"
  using assms by (cases buffered) (auto simp: recoverFrom_def Let_def max_def split: if_splits)

text \<open>
  C32. What is recovered of a gap lies inside it, after the replay margin and before the live stream begins; and from the moment the recovery
  says it is complete from, no change of a service, node, secret, config, network or volume is missing, whatever the daemon has
  forgotten before the oldest event it still holds.
\<close>

theorem recovery_is_complete:
  assumes "sorted (map msgTimeNano (forgotten @ buffered))" "rvFrom (recoverFrom buffered start until st) \<noteq> 0"
  shows "(\<forall>e \<in> set (rvEntries (recoverFrom buffered start until st)).
      start + eventReplayMargin < hTimestamp e \<and> hTimestamp e < until \<and> (\<exists>m \<in> set buffered. isChange m \<and> msgActorID m = hResourceID e)) \<and>
    (\<forall>m \<in> set (forgotten @ buffered). isChange m \<and> rvFrom (recoverFrom buffered start until st) < msgTimeNano m \<and> msgTimeNano m < until \<longrightarrow>
      (\<exists>e \<in> set (rvEntries (recoverFrom buffered start until st)). hTimestamp e = msgTimeNano m \<and> hResourceID e = msgActorID m \<and>
         hAction e = historyAction (msgAction m)))"
proof -
  obtain oldest rest where b: "buffered = oldest # rest"
    and complete: "rvFrom (recoverFrom buffered start until st) = max (start + eventReplayMargin) (msgTimeNano oldest)"
    and entries: "rvEntries (recoverFrom buffered start until st) = List.map_filter (recoverEntry (start + eventReplayMargin) until st) buffered"
    using recoverFrom_nonempty [OF assms(2)] by blast
  have old: "msgTimeNano m \<le> msgTimeNano oldest" if "m \<in> set forgotten" for m
    using assms(1) that by (auto simp: b sorted_append)
  show ?thesis
  proof (intro conjI ballI impI)
    fix e assume "e \<in> set (rvEntries (recoverFrom buffered start until st))"
    then obtain m where "m \<in> set buffered" "recoverEntry (start + eventReplayMargin) until st m = Some e"
      unfolding entries mem_map_filter by blast
    then show "start + eventReplayMargin < hTimestamp e" "hTimestamp e < until" "\<exists>m \<in> set buffered. isChange m \<and> msgActorID m = hResourceID e"
      using recoverEntry_some by force+
  next
    fix m assume m: "m \<in> set (forgotten @ buffered)"
      "isChange m \<and> rvFrom (recoverFrom buffered start until st) < msgTimeNano m \<and> msgTimeNano m < until"
    then have "m \<in> set buffered" using old complete by fastforce
    moreover obtain e where e: "recoverEntry (start + eventReplayMargin) until st m = Some e"
      using recoverEntry_change [of m "start + eventReplayMargin" until st] m(2) complete by auto
    ultimately have "e \<in> set (rvEntries (recoverFrom buffered start until st))" unfolding entries mem_map_filter by blast
    then show "\<exists>e \<in> set (rvEntries (recoverFrom buffered start until st)). hTimestamp e = msgTimeNano m \<and> hResourceID e = msgActorID m \<and>
        hAction e = historyAction (msgAction m)"
      using recoverEntry_some [OF e] by blast
  qed
qed

definition ex_buffer :: "message list" where
  "ex_buffer = [ex_message\<lparr>msgTimeNano := 7 * second\<rparr>, ex_message\<lparr>msgTimeNano := 8 * second\<rparr>]"

theorem recovery_is_complete_witness:
  "\<exists>e \<in> set (rvEntries (recoverFrom ex_buffer second (9 * second) [])). hTimestamp e = 8 * second \<and> hResourceID e = ''v'' \<and> hAction e = ''remove''"
proof -
  let ?m = "ex_message\<lparr>msgTimeNano := 8 * second\<rparr>"
  have buf: "sorted (map msgTimeNano ([] @ ex_buffer))" "rvFrom (recoverFrom ex_buffer second (9 * second) []) = 7 * second"
    by (simp_all add: ex_buffer_def recoverFrom_def Let_def second_def eventReplayMargin_def)
  have change: "isChange ?m" by (simp add: isChange_def recoverable_def historyAction_def ex_message_def)
  have nz: "rvFrom (recoverFrom ex_buffer second (9 * second) []) \<noteq> 0" using buf(2) by (simp add: second_def)
  have "?m \<in> set ([] @ ex_buffer)" by (simp add: ex_buffer_def)
  from bspec [OF conjunct2 [OF recovery_is_complete [OF buf(1) nz]] this] buf(2) change
  show ?thesis by (simp add: second_def ex_message_def historyAction_def)
qed

end
