(* ===== verification/Annotations.thy ===== *)
theory Annotations
  imports Cache_Query Go_Strings
begin

text \<open>
  The annotations of \<open>internal/cache/annotations.go\<close>: notes kept in an index ordered by ID beside a store that persists them, their
  writes, which take their IDs from the history, and the timeline that merges them with the ring. The store is outside (SQLite): it is
  the map it holds, and whether it could be taken and whether it committed are arguments of a write. The event a write dispatches
  carries the annotation of its history entry.
\<close>

section \<open>The index and its writes\<close>

definition MaxAnnotations :: nat where
  "MaxAnnotations = 10000"

datatype annotationError = ErrAnnotationsOff | ErrAnnotationLimit | ErrAnnotationNotFound | ErrStore string | ErrRefused string

record annotationIndex =
  axStore :: "(nat, annotation) kvs option"
  axOrdered :: "annotation list"

record noted =
  ntIndex :: annotationIndex
  ntCache :: cache

definition find_note :: "annotation list \<Rightarrow> nat \<Rightarrow> nat \<times> bool" where
  "find_note ordered i = BinarySearch (map anID ordered) i"

definition RestoreAnnotations :: "(nat, annotation) kvs \<Rightarrow> annotationIndex \<Rightarrow> annotationIndex" where
  "RestoreAnnotations store x = \<lparr>axStore = Some store, axOrdered = sort_key anID (axOrdered x @ map snd store)\<rparr>"

definition Annotation :: "nat \<Rightarrow> annotationIndex \<Rightarrow> annotation option" where
  "Annotation i x = (case find_note (axOrdered x) i of (p, ok) \<Rightarrow> if ok then Some (axOrdered x ! p) else None)"

definition AnnotationCount :: "annotationIndex \<Rightarrow> nat" where
  "AnnotationCount x = length (axOrdered x)"

definition AnnotationsOn :: "annotationIndex \<Rightarrow> bool" where
  "AnnotationsOn x \<longleftrightarrow> axStore x \<noteq> None"

definition holds :: "cache \<Rightarrow> annotationResource \<Rightarrow> bool" where
  "holds c r = (case arType r of
     EventService \<Rightarrow> gget (cServices c) (arID r) \<noteq> None
   | EventNode \<Rightarrow> gget (cNodes c) (arID r) \<noteq> None
   | EventStack \<Rightarrow> gget (cStacks c) (arID r) \<noteq> None
   | _ \<Rightarrow> True)"

definition WithRemovals :: "cache \<Rightarrow> annotation \<Rightarrow> annotation" where
  "WithRemovals c a = (if \<not> list_ex (\<lambda>r. \<not> holds c r) (anResources a) then a
     else (let gone = length (takeWhile (holds c) (anResources a)) in
       a\<lparr>anResources := map (\<lambda>(i, r). r\<lparr>arRemoved := i = gone \<or> i > gone \<and> \<not> holds c r\<rparr>) (enumerate 0 (anResources a))\<rparr>))"

definition placeNote :: "string \<Rightarrow> annotation \<Rightarrow> annotation list \<Rightarrow> annotation list" where
  "placeNote action a ordered = (case find_note ordered (anID a) of (i, found) \<Rightarrow>
     if action = ''remove'' then (if found then take i ordered @ drop (i + 1) ordered else ordered)
     else if found then ordered[i := a]
     else take i ordered @ a # drop i ordered)"

definition storeNote :: "string \<Rightarrow> annotation \<Rightarrow> (nat, annotation) kvs \<Rightarrow> (nat, annotation) kvs" where
  "storeNote action a store = (if action = ''remove'' then gdel store (anID a) else gset store (anID a) a)"

definition noteEntry :: "cache \<Rightarrow> string \<Rightarrow> annotation \<Rightarrow> annotation option \<Rightarrow> historyEntry" where
  "noteEntry c action a previous = zeroEntry\<lparr>hKind := KindAnnotation, hAction := action, hResourceID := FormatUint (anID a),
     hAnnotation := Some (WithRemovals c a), hPrevious := map_option (WithRemovals c) previous\<rparr>"

definition commitAnnotation :: "env \<Rightarrow> string option \<Rightarrow> annotation \<Rightarrow> annotation option \<Rightarrow> string \<Rightarrow> noted \<Rightarrow> annotationError option \<times> noted" where
  "commitAnnotation E writeErr a previous action n = (case writeErr of
     Some err \<Rightarrow> (Some (ErrStore err), n)
   | None \<Rightarrow> (let
         x = ntIndex n; c = ntCache n;
         x' = \<lparr>axStore = map_option (storeNote action a) (axStore x), axOrdered = placeNote action a (axOrdered x)\<rparr>
       in case Append (envNow E) (noteEntry c action a previous) (cHistory c) of (hid, hist) \<Rightarrow>
         (None, \<lparr>ntIndex = x', ntCache = dispatch (newEvent EventAnnotation action (FormatUint (anID a)) []) hid (c\<lparr>cHistory := hist\<rparr>)\<rparr>)))"

definition beginAnnotation :: "string option \<Rightarrow> noted \<Rightarrow> annotationError option" where
  "beginAnnotation beginErr n = (if axStore (ntIndex n) = None then Some ErrAnnotationsOff else map_option ErrStore beginErr)"

definition CreateAnnotation :: "env \<Rightarrow> string option \<Rightarrow> string option \<Rightarrow> annotation \<Rightarrow> noted \<Rightarrow> (annotationError + annotation) \<times> noted" where
  "CreateAnnotation E beginErr writeErr a0 n = (case beginAnnotation beginErr n of
     Some err \<Rightarrow> (Inl err, n)
   | None \<Rightarrow>
       if AnnotationCount (ntIndex n) \<ge> MaxAnnotations then (Inl ErrAnnotationLimit, n)
       else (let
           i = hsCount (cHistory (ntCache n)) + 1;
           a = a0\<lparr>anID := i, anVersion := i, anCreated := envNow E, anUpdated := 0, anEditor := None\<rparr>
         in case commitAnnotation E writeErr a None ''create'' n of
              (Some err, n') \<Rightarrow> (Inl err, n')
            | (None, n') \<Rightarrow> (Inr a, n')))"

definition UpdateAnnotation ::
  "env \<Rightarrow> string option \<Rightarrow> string option \<Rightarrow> nat \<Rightarrow> (annotation \<Rightarrow> string + annotation) \<Rightarrow> noted \<Rightarrow> (annotationError + annotation) \<times> noted" where
  "UpdateAnnotation E beginErr writeErr i edit n = (case beginAnnotation beginErr n of
     Some err \<Rightarrow> (Inl err, n)
   | None \<Rightarrow> (case Annotation i (ntIndex n) of
       None \<Rightarrow> (Inl ErrAnnotationNotFound, n)
     | Some current \<Rightarrow> (case edit current of
         Inl err \<Rightarrow> (Inl (ErrRefused err), n)
       | Inr edited \<Rightarrow> (let
             a = edited\<lparr>anID := anID current, anActor := anActor current, anCreated := anCreated current,
               anVersion := hsCount (cHistory (ntCache n)) + 1, anUpdated := envNow E\<rparr>
           in case commitAnnotation E writeErr a (Some current) ''update'' n of
                (Some err, n') \<Rightarrow> (Inl err, n')
              | (None, n') \<Rightarrow> (Inr a, n')))))"

definition DeleteAnnotation ::
  "env \<Rightarrow> string option \<Rightarrow> string option \<Rightarrow> nat \<Rightarrow> (annotation \<Rightarrow> string option) \<Rightarrow> noted \<Rightarrow> annotationError option \<times> noted" where
  "DeleteAnnotation E beginErr writeErr i check n = (case beginAnnotation beginErr n of
     Some err \<Rightarrow> (Some err, n)
   | None \<Rightarrow> (case Annotation i (ntIndex n) of
       None \<Rightarrow> (Some ErrAnnotationNotFound, n)
     | Some current \<Rightarrow> (case check current of
         Some err \<Rightarrow> (Some (ErrRefused err), n)
       | None \<Rightarrow> commitAnnotation E writeErr current None ''remove'' n)))"

definition tagged :: "string \<Rightarrow> string \<Rightarrow> bool" where
  "tagged pre tag \<longleftrightarrow> prefix pre tag"

definition AnnotationTags :: "string \<Rightarrow> (annotation \<Rightarrow> bool) \<Rightarrow> annotationIndex \<Rightarrow> (string \<times> nat) list" where
  "AnnotationTags pre readable x = (let
      candidates = filter (\<lambda>a. list_ex (tagged pre) (anTags a)) (axOrdered x);
      counts = fold (\<lambda>a m. if \<not> readable a then m else fold (\<lambda>tag m. if tagged pre tag then increment tag m else m) (anTags a) m) candidates []
    in sort_key (\<lambda>(tag, n). (- int n, tag)) counts)"

section \<open>The timeline\<close>

definition subjectType :: "historyQuery \<Rightarrow> event_type option" where
  "subjectType q = (if qType q \<noteq> None then qType q else (case qTypes q of [t] \<Rightarrow> Some t | _ \<Rightarrow> None))"

definition About :: "annotation \<Rightarrow> event_type option \<Rightarrow> string \<Rightarrow> string \<Rightarrow> bool" where
  "About a typ i stack \<longleftrightarrow> anResources a = [] \<or> list_ex (\<lambda>r. arID r = i \<or> stack \<noteq> [] \<and> arType r = EventStack \<and> arID r = stack \<or>
     typ = Some EventStack \<and> arType r = EventService \<and> arStack r = i) (anResources a)"

definition annotationMatchesText :: "unicode \<Rightarrow> historyQuery \<Rightarrow> annotation \<Rightarrow> bool" where
  "annotationMatchesText u q0 a = (if qTitleContains q0 = [] \<and> qSearch q0 = [] then True
     else (let q = (if \<not> qReady q0 then prepared u q0 else q0) in
       ContainsLower (anText a) (qTitleContains q) \<and>
       \<not> list_ex (\<lambda>word. \<not> ContainsLower (anText a) word \<and> \<not> list_ex (\<lambda>tag. ContainsLower tag word) (anTags a) \<and>
            \<not> actorHas (anActor a) word \<and> \<not> list_ex (\<lambda>r. nameHas (arName r) word) (anResources a)) (qWords q)))"

definition matchesAnnotation :: "unicode \<Rightarrow> historyQuery \<Rightarrow> annotation \<Rightarrow> string \<Rightarrow> bool" where
  "matchesAnnotation u q a stack = (let ending = (if anUntil a \<noteq> 0 then anUntil a else anTimestamp a) in
     if qAfter q \<noteq> 0 \<and> \<not> ending > qAfter q \<or> qBefore q \<noteq> 0 \<and> anTimestamp a > qBefore q then False
     else if \<not> matchesTags q (anTags a) \<or> \<not> matchesAuthor q (anActor a) then False
     else if qResourceID q \<noteq> [] \<and> \<not> About a (subjectType q) (qResourceID q) stack then False
     else if qResourceID q = [] \<and> anResources a \<noteq> [] \<and>
         \<not> list_ex (\<lambda>r. (qType q = None \<or> qType q = Some (arType r)) \<and> (qTypes q = [] \<or> arType r \<in> set (qTypes q))) (anResources a) then False
     else annotationMatchesText u q a)"

definition note_entry :: "annotation \<Rightarrow> historyEntry" where
  "note_entry a = zeroEntry\<lparr>hID := anID a, hKind := KindAnnotation, hTimestamp := anTimestamp a, hUntil := anUntil a, hActor := anActor a,
     hText := anText a, hTags := anTags a, hResources := anResources a, hUpdated := anUpdated a, hEditor := anEditor a, hAnnotation := Some a\<rparr>"

text \<open>The walk of \<open>annotationBatch\<close> down from the cursor.\<close>

fun batchWalk :: "(annotation \<Rightarrow> bool) \<Rightarrow> nat \<Rightarrow> annotation list \<Rightarrow> annotation list \<Rightarrow> annotation list \<times> nat" where
  "batchWalk matches n [] batch = (batch, 0)"
| "batchWalk matches n (a # rest) batch =
     (if \<not> matches a then batchWalk matches n rest batch
      else if length (batch @ [a]) = n then (batch @ [a], anID a)
      else batchWalk matches n rest (batch @ [a]))"

definition annotationBatch :: "(annotation \<Rightarrow> bool) \<Rightarrow> nat \<Rightarrow> nat \<Rightarrow> annotationIndex \<Rightarrow> annotation list \<times> nat" where
  "annotationBatch matches cursor n x = (let stop = (if cursor \<noteq> 0 then fst (find_note (axOrdered x) cursor) else length (axOrdered x))
     in batchWalk matches n (rev (take stop (axOrdered x))) [])"

text \<open>The loop of \<open>annotationEntries\<close>; the first argument bounds its rounds, and one per annotation is enough (\<open>annotationEntries_exact\<close>).\<close>

fun entriesLoop :: "nat \<Rightarrow> (annotation \<Rightarrow> bool) \<Rightarrow> (annotation \<Rightarrow> bool) \<Rightarrow> nat \<Rightarrow> nat \<Rightarrow> annotationIndex \<Rightarrow> historyEntry list \<Rightarrow> historyEntry list" where
  "entriesLoop 0 matches readable limit cursor x entries = entries"
| "entriesLoop (Suc fuel) matches readable limit cursor x entries =
     (if \<not> length entries < limit then entries
      else (case annotationBatch matches cursor (limit - length entries) x of (batch, next) \<Rightarrow>
        let entries' = entries @ map note_entry (filter readable batch) in
        if next = 0 then entries' else entriesLoop fuel matches readable limit next x entries'))"

definition serviceStackQuery :: "string \<Rightarrow> historyQuery" where
  "serviceStackQuery i = \<lparr>qType = Some EventService, qResourceID = i, qBeforeID = 0, qTitleContains = [], qSearch = [], qLimit = 1,
     qTaskName = None, qWords = [], qReady = False, qTypes = [], qKinds = [KindChange], qBefore = 0, qAfter = 0,
     qVisible = None, qTags = [], qMatchAny = False, qAuthors = [], qMembers = []\<rparr>"

definition serviceStack :: "unicode \<Rightarrow> cache \<Rightarrow> string \<Rightarrow> string" where
  "serviceStack u c i = (if i = [] then []
     else (case gget (cServices c) i of
       Some svc \<Rightarrow> gor (spLabels (svSpec svc)) StackLabel []
     | None \<Rightarrow> (case ListHistory u (serviceStackQuery i) (cHistory c) of [] \<Rightarrow> [] | e # _ \<Rightarrow> hStack e)))"

definition AnnotationOn :: "unicode \<Rightarrow> cache \<Rightarrow> annotation \<Rightarrow> event_type \<Rightarrow> string \<Rightarrow> bool" where
  "AnnotationOn u c a typ i = (let stack = (if typ = EventService \<and> list_ex (\<lambda>r. arType r = EventStack) (anResources a) then serviceStack u c i else [])
     in About a (Some typ) i stack)"

definition annotationEntries :: "unicode \<Rightarrow> historyQuery \<Rightarrow> (annotation \<Rightarrow> bool) \<Rightarrow> noted \<Rightarrow> historyEntry list" where
  "annotationEntries u q0 readable n = (let
      q = prepared u q0;
      stack = (if subjectType q = None \<or> subjectType q = Some EventService then serviceStack u (ntCache n) (qResourceID q) else [])
    in entriesLoop (Suc (length (axOrdered (ntIndex n)))) (\<lambda>a. matchesAnnotation u q a stack) readable (nat (qLimit q)) (qBeforeID q) (ntIndex n) [])"

definition stackMembers :: "cache \<Rightarrow> string \<Rightarrow> string list" where
  "stackMembers c stack = removedFromStack stack (cHistory c) @ (case gget (cStacks c) stack of None \<Rightarrow> [] | Some s \<Rightarrow> stServices s)"

fun mergeNotes :: "nat \<Rightarrow> historyEntry list \<Rightarrow> historyEntry list \<Rightarrow> historyEntry list" where
  "mergeNotes 0 ring notes = []"
| "mergeNotes (Suc n) [] [] = []"
| "mergeNotes (Suc n) (r # rs) [] = r # mergeNotes n rs []"
| "mergeNotes (Suc n) [] (a # as) = a # mergeNotes n [] as"
| "mergeNotes (Suc n) (r # rs) (a # as) = (if hID r > hID a then r # mergeNotes n rs (a # as) else a # mergeNotes n (r # rs) as)"

definition limited :: "historyQuery \<Rightarrow> historyQuery" where
  "limited q = (if qLimit q \<le> 0 then q\<lparr>qLimit := 50\<rparr> else q)"

definition memberQuery :: "cache \<Rightarrow> historyQuery \<Rightarrow> historyQuery" where
  "memberQuery c q = (if qResourceID q \<noteq> [] \<and> (qType q = Some EventStack \<or> EventStack \<in> set (qTypes q))
     then q\<lparr>qMembers := stackMembers c (qResourceID q)\<rparr> else q)"

definition Timeline :: "unicode \<Rightarrow> historyQuery \<Rightarrow> (annotation \<Rightarrow> bool) \<Rightarrow> noted \<Rightarrow> historyEntry list" where
  "Timeline u q0 readable n = (let
      q = limited q0;
      onlyNotes = (length (qKinds q) = 1 \<and> hd (qKinds q) = KindAnnotation);
      q' = (if onlyNotes then q else memberQuery (ntCache n) q);
      ring = (if onlyNotes then [] else ListHistory u q' (cHistory (ntCache n)))
    in if \<not> wantsKind q' KindAnnotation then ring
       else mergeNotes (nat (qLimit q')) ring (annotationEntries u q' readable n))"

section \<open>The index mirrors the store\<close>

definition ordered_notes :: "annotation list \<Rightarrow> bool" where
  "ordered_notes as \<longleftrightarrow> sorted_wrt (<) (map anID as)"

lemma ordered_append: "ordered_notes (as @ bs) \<longleftrightarrow> ordered_notes as \<and> ordered_notes bs \<and> (\<forall>a \<in> set as. \<forall>b \<in> set bs. anID a < anID b)"
  by (simp add: ordered_notes_def sorted_wrt_append)

lemma ordered_Cons: "ordered_notes (a # as) \<longleftrightarrow> ordered_notes as \<and> (\<forall>b \<in> set as. anID a < anID b)"
  by (auto simp: ordered_notes_def)

lemma find_note_parts:
  assumes "ordered_notes as" "find_note as v = (i, found)"
  shows "i \<le> length as" "\<forall>a \<in> set (take i as). anID a < v" "\<forall>a \<in> set (drop i as). v \<le> anID a" "found \<longleftrightarrow> v \<in> anID ` set as"
    "found \<Longrightarrow> i < length as \<and> anID (as ! i) = v \<and> as = take i as @ as ! i # drop (i + 1) as"
    "\<not> found \<Longrightarrow> \<forall>a \<in> set (drop i as). v < anID a"
proof -
  have "sorted (map anID as)" using assms(1) by (simp add: ordered_notes_def strict_sorted_imp_sorted)
  note b = BinarySearch_sorted [OF this, of v, folded find_note_def, unfolded assms(2) fst_conv snd_conv]
  show "i \<le> length as" using b(1) by simp
  show "\<forall>a \<in> set (take i as). anID a < v" using b(2) by (simp add: take_map)
  show ge: "\<forall>a \<in> set (drop i as). v \<le> anID a" using b(3) by (simp add: drop_map)
  show found: "found \<longleftrightarrow> v \<in> anID ` set as" using b(4) by simp
  show "found \<Longrightarrow> i < length as \<and> anID (as ! i) = v \<and> as = take i as @ as ! i # drop (i + 1) as"
    using assms(2) by (auto simp: find_note_def BinarySearch_def Let_def id_take_nth_drop [symmetric])
  show "\<forall>a \<in> set (drop i as). v < anID a" if "\<not> found"
    using ge found that by (metis image_eqI in_set_dropD order_le_less)
qed

lemma Annotation_iff:
  assumes "ordered_notes (axOrdered x)"
  shows "Annotation i x = Some a \<longleftrightarrow> a \<in> set (axOrdered x) \<and> anID a = i"
proof -
  obtain p found where f: "find_note (axOrdered x) i = (p, found)" by (cases "find_note (axOrdered x) i")
  note P = find_note_parts [OF assms f]
  have uniq: "a = b" if "a \<in> set (axOrdered x)" "b \<in> set (axOrdered x)" "anID a = anID b" for a b
    using assms that by (auto simp: ordered_notes_def strict_sorted_iff distinct_map inj_on_def)
  show ?thesis
  proof (cases found)
    case True
    then have "axOrdered x ! p \<in> set (axOrdered x)" "anID (axOrdered x ! p) = i" using P(5) by auto
    then show ?thesis using True uniq by (auto simp: Annotation_def f)
  next
    case False
    then show ?thesis using P(4) by (auto simp: Annotation_def f)
  qed
qed

lemma placeNote_props:
  assumes "ordered_notes as"
  shows "ordered_notes (placeNote action a as)"
    "set (placeNote action a as) = {b \<in> set as. anID b \<noteq> anID a} \<union> (if action = ''remove'' then {} else {a})"
proof -
  obtain i found where f: "find_note as (anID a) = (i, found)" by (cases "find_note as (anID a)")
  note P = find_note_parts [OF assms f]
  have "ordered_notes (placeNote action a as) \<and>
    set (placeNote action a as) = {b \<in> set as. anID b \<noteq> anID a} \<union> (if action = ''remove'' then {} else {a})"
  proof (cases found)
    case True
    define l r where "l = take i as" and "r = drop (i + 1) as"
    have i: "i < length as" "anID (as ! i) = anID a" and as: "as = l @ as ! i # r" using P(5) [OF True] by (auto simp: l_def r_def)
    have "ordered_notes (l @ as ! i # r)" using assms as by simp
    then have o: "ordered_notes (l @ r)" "ordered_notes (l @ a # r)" "\<forall>b \<in> set l \<union> set r. anID b \<noteq> anID a"
      using i(2) by (fastforce simp: ordered_append ordered_Cons)+
    have s: "{b \<in> set as. anID b \<noteq> anID a} = set l \<union> set r" using o(3) i(2) by (subst as) auto
    have "as[i := a] = l @ a # r" using i(1) by (simp add: l_def r_def upd_conv_take_nth_drop)
    then have "placeNote action a as = (if action = ''remove'' then l @ r else l @ a # r)"
      using True by (simp add: placeNote_def f l_def r_def)
    then show ?thesis using o(1,2) s by simp
  next
    case False
    define l r where "l = take i as" and "r = drop i as"
    have as: "as = l @ r" by (simp add: l_def r_def)
    have "\<forall>b \<in> set l. anID b < anID a" unfolding l_def by (rule P(2))
    moreover have "\<forall>b \<in> set r. anID a < anID b" unfolding r_def by (rule P(6) [OF False])
    moreover have "ordered_notes (l @ r)" using assms as by argo
    ultimately have o: "ordered_notes (l @ r)" "ordered_notes (l @ a # r)" "\<forall>b \<in> set l \<union> set r. anID b \<noteq> anID a"
      by (auto simp: ordered_append ordered_Cons)
    have s: "{b \<in> set as. anID b \<noteq> anID a} = set l \<union> set r" using o(3) as by auto
    have "placeNote action a as = (if action = ''remove'' then l @ r else l @ a # r)"
      using False by (simp add: placeNote_def f l_def r_def)
    then show ?thesis using o(1,2) s by simp
  qed
  then show "ordered_notes (placeNote action a as)"
    "set (placeNote action a as) = {b \<in> set as. anID b \<noteq> anID a} \<union> (if action = ''remove'' then {} else {a})"
    by simp_all
qed

definition noted_ok :: "noted \<Rightarrow> bool" where
  "noted_ok n \<longleftrightarrow> ordered_notes (axOrdered (ntIndex n)) \<and>
     (\<forall>a \<in> set (axOrdered (ntIndex n)). 0 < anID a \<and> anID a \<le> anVersion a \<and> anVersion a \<le> hsCount (cHistory (ntCache n))) \<and>
     (\<exists>store. axStore (ntIndex n) = Some store \<and> (\<forall>i a. gget store i = Some a \<longleftrightarrow> a \<in> set (axOrdered (ntIndex n)) \<and> anID a = i))"

lemma commit_cases:
  assumes "commitAnnotation E writeErr a previous action n = (err, n')"
  shows "err \<noteq> None \<and> n' = n \<or> err = None \<and>
    ntIndex n' = \<lparr>axStore = map_option (storeNote action a) (axStore (ntIndex n)), axOrdered = placeNote action a (axOrdered (ntIndex n))\<rparr> \<and>
    hsCount (cHistory (ntCache n')) = hsCount (cHistory (ntCache n)) + 1"
  using assms Append_count(2) [of "envNow E" "noteEntry (ntCache n) action a previous" "cHistory (ntCache n)"]
  by (auto simp: commitAnnotation_def Let_def dispatch_def split: option.splits prod.splits)

lemma commit_ok:
  assumes "noted_ok n" "commitAnnotation E writeErr a previous action n = (err, n')"
    and "action \<noteq> ''remove'' \<Longrightarrow> 0 < anID a \<and> anID a \<le> anVersion a \<and> anVersion a \<le> hsCount (cHistory (ntCache n)) + 1"
  shows "noted_ok n'"
proof -
  consider "n' = n" | (written) "ntIndex n' = \<lparr>axStore = map_option (storeNote action a) (axStore (ntIndex n)), axOrdered = placeNote action a (axOrdered (ntIndex n))\<rparr>"
      "hsCount (cHistory (ntCache n')) = hsCount (cHistory (ntCache n)) + 1"
    using commit_cases [OF assms(2)] by blast
  then show ?thesis
  proof cases
    case written
    have "ordered_notes (axOrdered (ntIndex n))" using assms(1) by (simp add: noted_ok_def)
    note P = placeNote_props [OF this, of action a]
    obtain store where st: "axStore (ntIndex n) = Some store" "\<And>i b. gget store i = Some b \<longleftrightarrow> b \<in> set (axOrdered (ntIndex n)) \<and> anID b = i"
      using assms(1) by (auto simp: noted_ok_def)
    have "gget (storeNote action a store) i = Some b \<longleftrightarrow> b \<in> set (placeNote action a (axOrdered (ntIndex n))) \<and> anID b = i" for i b
      using st(2) by (auto simp: storeNote_def P(2))
    moreover have "\<forall>b \<in> set (placeNote action a (axOrdered (ntIndex n))). 0 < anID b \<and> anID b \<le> anVersion b \<and> anVersion b \<le> hsCount (cHistory (ntCache n)) + 1"
      using assms(1,3) by (auto simp: P(2) noted_ok_def split: if_splits)
    ultimately show ?thesis using written P(1) st(1) by (auto simp: noted_ok_def)
  qed (use assms(1) in simp)
qed

inductive noteReach :: "noted \<Rightarrow> bool" where
  start: "gwf store \<Longrightarrow> (\<And>i a. gget store i = Some a \<Longrightarrow> anID a = i \<and> 0 < i \<and> i \<le> anVersion a \<and> anVersion a \<le> hsCount (cHistory c)) \<Longrightarrow>
    noteReach \<lparr>ntIndex = RestoreAnnotations store \<lparr>axStore = None, axOrdered = []\<rparr>, ntCache = c\<rparr>"
| Create: "noteReach n \<Longrightarrow> noteReach (snd (CreateAnnotation E beginErr writeErr a n))"
| Update: "noteReach n \<Longrightarrow> noteReach (snd (UpdateAnnotation E beginErr writeErr i edit n))"
| Delete: "noteReach n \<Longrightarrow> noteReach (snd (DeleteAnnotation E beginErr writeErr i check n))"
| Cached: "noteReach n \<Longrightarrow> hsCount (cHistory (ntCache n)) \<le> hsCount (cHistory c) \<Longrightarrow> noteReach (n\<lparr>ntCache := c\<rparr>)"

lemma noteReach_ok: "noteReach n \<Longrightarrow> noted_ok n"
proof (induction rule: noteReach.induct)
  case (start store c)
  have listed: "a \<in> set (map snd store) \<longleftrightarrow> gget store (anID a) = Some a" for a
  proof -
    have "a \<in> set (map snd store) \<longleftrightarrow> (\<exists>i. (i, a) \<in> set store)" by force
    also have "\<dots> \<longleftrightarrow> (\<exists>i. gget store i = Some a)" using gwf_mem_iff [OF start(1)] by simp
    also have "\<dots> \<longleftrightarrow> gget store (anID a) = Some a" using start(2) by metis
    finally show ?thesis .
  qed
  have "distinct (map anID (map snd store))"
  proof -
    have "anID (snd p) = fst p" if "p \<in> set store" for p
      using start(2) [of "fst p" "snd p"] gwf_mem_iff [OF start(1), of "fst p" "snd p"] that by simp
    then have "map anID (map snd store) = map fst store" by simp
    then show ?thesis using start(1) by argo
  qed
  then have sorted: "ordered_notes (sort_key anID (map snd store))"
    unfolding ordered_notes_def strict_sorted_iff by (metis mset_eq_imp_distinct_iff mset_map mset_sort sorted_sort_key)
  have mem: "a \<in> set (sort_key anID (map snd store)) \<longleftrightarrow> gget store (anID a) = Some a" for a using listed by simp
  have "0 < anID a \<and> anID a \<le> anVersion a \<and> anVersion a \<le> hsCount (cHistory c)" if "a \<in> set (sort_key anID (map snd store))" for a
    using start(2) [of "anID a" a] that unfolding mem by blast
  moreover have "gget store i = Some a \<longleftrightarrow> a \<in> set (sort_key anID (map snd store)) \<and> anID a = i" for i a
    unfolding mem using start(2) by blast
  ultimately show ?case using sorted unfolding noted_ok_def RestoreAnnotations_def by (simp only: noted.simps annotationIndex.simps append_Nil) blast
next
  case (Create n E beginErr writeErr a)
  define b where "b = a\<lparr>anID := hsCount (cHistory (ntCache n)) + 1, anVersion := hsCount (cHistory (ntCache n)) + 1, anCreated := envNow E,
    anUpdated := 0, anEditor := None\<rparr>"
  have "noted_ok (snd (commitAnnotation E writeErr b None ''create'' n))"
    using commit_ok [OF Create.IH, of E writeErr b None "''create''"] by (cases "commitAnnotation E writeErr b None ''create'' n") (simp add: b_def)
  then show ?case using Create.IH unfolding CreateAnnotation_def Let_def b_def [symmetric]
    by (auto split: option.split prod.split)
next
  case (Update n E beginErr writeErr i edit)
  have ok: "noted_ok (snd (commitAnnotation E writeErr b p ''update'' n))"
    if "Annotation i (ntIndex n) = Some current" "anID b = anID current" "anVersion b = hsCount (cHistory (ntCache n)) + 1" for b current p
  proof -
    have "0 < anID current \<and> anID current \<le> hsCount (cHistory (ntCache n))"
      using Update.IH that(1) Annotation_iff [of "ntIndex n" i current] by (fastforce simp: noted_ok_def)
    then show ?thesis using commit_ok [OF Update.IH, of E writeErr b p "''update''"] that
      by (cases "commitAnnotation E writeErr b p ''update'' n") simp
  qed
  show ?case
  proof (cases "beginAnnotation beginErr n = None \<and> (\<exists>current edited. Annotation i (ntIndex n) = Some current \<and> edit current = Inr edited)")
    case True
    then obtain current edited where e: "beginAnnotation beginErr n = None" "Annotation i (ntIndex n) = Some current" "edit current = Inr edited" by blast
    define b where "b = edited\<lparr>anID := anID current, anActor := anActor current, anCreated := anCreated current,
      anVersion := hsCount (cHistory (ntCache n)) + 1, anUpdated := envNow E\<rparr>"
    have "noted_ok (snd (commitAnnotation E writeErr b (Some current) ''update'' n))" by (rule ok [OF e(2)]) (simp_all add: b_def)
    then show ?thesis unfolding UpdateAnnotation_def e option.case sum.case Let_def b_def [symmetric] by (auto split: prod.split option.split)
  next
    case False
    then have "snd (UpdateAnnotation E beginErr writeErr i edit n) = n" by (auto simp: UpdateAnnotation_def split: option.split sum.split)
    then show ?thesis using Update.IH by simp
  qed
next
  case (Delete n E beginErr writeErr i check)
  have "noted_ok (snd (commitAnnotation E writeErr b p ''remove'' n))" for b p
    using commit_ok [OF Delete.IH, of E writeErr b p "''remove''"] by (cases "commitAnnotation E writeErr b p ''remove'' n") simp
  then show ?case using Delete.IH by (auto simp: DeleteAnnotation_def split: option.split)
next
  case (Cached n c)
  then show ?case by (fastforce simp: noted_ok_def)
qed

text \<open>
  C26. Whatever annotations are created, edited and deleted, whichever writes fail, and whatever the cache records in between, the index
  answers for every ID exactly what the store holds; its IDs grow strictly, and no version is ahead of the history.
\<close>

theorem annotations_mirror_store:
  assumes "noteReach n"
  shows "\<exists>store. axStore (ntIndex n) = Some store \<and> (\<forall>i. Annotation i (ntIndex n) = gget store i) \<and>
    sorted_wrt (<) (map anID (axOrdered (ntIndex n))) \<and> (\<forall>a \<in> set (axOrdered (ntIndex n)). anVersion a \<le> hsCount (cHistory (ntCache n)))"
proof -
  have ok: "noted_ok n" by (rule noteReach_ok [OF assms])
  then obtain store where st: "axStore (ntIndex n) = Some store"
    "\<And>i a. gget store i = Some a \<longleftrightarrow> a \<in> set (axOrdered (ntIndex n)) \<and> anID a = i" by (auto simp: noted_ok_def)
  have o: "ordered_notes (axOrdered (ntIndex n))" using ok by (simp add: noted_ok_def)
  have "Annotation i (ntIndex n) = gget store i" for i
    using st(2) Annotation_iff [OF o, of i] by (metis not_None_eq)
  then show ?thesis using st(1) ok by (auto simp: noted_ok_def ordered_notes_def)
qed

section \<open>The timeline is one merge\<close>

lemma batchWalk_eq:
  assumes "length batch < n"
  shows "batchWalk matches n as batch = (let ms = filter matches as; k = n - length batch in
     if length ms < k then (batch @ ms, 0) else (batch @ take k ms, anID (ms ! (k - 1))))"
  using assms
proof (induction as arbitrary: batch)
  case (Cons a as)
  show ?case
  proof (cases "matches a")
    case False
    then show ?thesis using Cons by simp
  next
    case m: True
    show ?thesis
    proof (cases "length batch + 1 = n")
      case True
      then have "n - length batch = Suc 0" by simp
      then show ?thesis using m True by (simp add: Let_def)
    next
      case False
      then obtain k where "n = Suc (Suc (length batch + k))" using Cons.prems less_imp_Suc_add [of "Suc (length batch)" n] by auto
      then show ?thesis using m False Cons.IH [of "batch @ [a]"] by (auto simp: Let_def)
    qed
  qed
qed (simp add: Let_def)

lemma filter_below_sorted:
  assumes "sorted_wrt (\<lambda>a b. anID b < anID a) ms" "k < length ms"
  shows "filter (\<lambda>a. anID a < anID (ms ! k)) ms = drop (Suc k) ms"
proof -
  have ms: "ms = take k ms @ ms ! k # drop (Suc k) ms" using assms(2) by (rule id_take_nth_drop)
  have "sorted_wrt (\<lambda>a b. anID b < anID a) (take k ms @ ms ! k # drop (Suc k) ms)" using assms(1) ms by argo
  then have "\<forall>a \<in> set (take k ms). anID (ms ! k) < anID a" "\<forall>a \<in> set (drop (Suc k) ms). anID a < anID (ms ! k)"
    by (simp_all add: sorted_wrt_append)
  then have "filter (\<lambda>a. anID a < anID (ms ! k)) (take k ms @ ms ! k # drop (Suc k) ms) = drop (Suc k) ms"
    by (auto simp: filter_empty_conv not_less order.strict_implies_order)
  then show ?thesis using ms by argo
qed

definition downFrom :: "nat \<Rightarrow> annotationIndex \<Rightarrow> annotation list" where
  "downFrom cursor x = filter (\<lambda>a. cursor = 0 \<or> anID a < cursor) (rev (axOrdered x))"

lemma downFrom_take:
  assumes "ordered_notes (axOrdered x)" "cursor \<noteq> 0"
  shows "rev (take (fst (find_note (axOrdered x) cursor)) (axOrdered x)) = downFrom cursor x"
proof -
  obtain i found where f: "find_note (axOrdered x) cursor = (i, found)" by (cases "find_note (axOrdered x) cursor")
  note P = find_note_parts [OF assms(1) f]
  have "filter (\<lambda>a. anID a < cursor) (take i (axOrdered x) @ drop i (axOrdered x)) = take i (axOrdered x)"
    unfolding filter_append using P(2,3) by (auto simp: filter_id_conv filter_empty_conv not_less)
  then show ?thesis using assms(2) f by (simp add: downFrom_def rev_filter [symmetric])
qed

lemma batch_eq:
  assumes "ordered_notes (axOrdered x)" "0 < n"
  shows "annotationBatch matches cursor n x = (let ms = filter matches (downFrom cursor x) in
     if length ms < n then (ms, 0) else (take n ms, anID (ms ! (n - 1))))"
proof -
  have "rev (take (if cursor \<noteq> 0 then fst (find_note (axOrdered x) cursor) else length (axOrdered x)) (axOrdered x)) = downFrom cursor x"
    using downFrom_take [OF assms(1)] by (simp add: downFrom_def)
  then show ?thesis using batchWalk_eq [of "[]" n matches] assms(2) by (simp add: annotationBatch_def Let_def)
qed

lemma filter_down:
  assumes "cursor' < cursor \<or> cursor = 0" "cursor' \<noteq> 0"
  shows "filter matches (downFrom cursor' x) = filter (\<lambda>a. anID a < cursor') (filter matches (downFrom cursor x))"
  using assms by (auto simp: downFrom_def intro!: filter_cong)

lemma entriesLoop_eq:
  assumes "ordered_notes (axOrdered x)" "\<forall>a \<in> set (axOrdered x). 0 < anID a"
  shows "length (filter matches (downFrom cursor x)) < fuel \<Longrightarrow> length entries \<le> limit \<Longrightarrow>
    entriesLoop fuel matches readable limit cursor x entries =
      take limit (entries @ map note_entry (filter readable (filter matches (downFrom cursor x))))"
proof (induction fuel arbitrary: cursor entries)
  case (Suc fuel)
  define ms where "ms = filter matches (downFrom cursor x)"
  define n where "n = limit - length entries"
  show ?case
  proof (cases "length entries < limit")
    case False
    then show ?thesis using Suc.prems(2) by simp
  next
    case True
    then have n: "0 < n" by (simp add: n_def)
    have b: "annotationBatch matches cursor n x = (if length ms < n then (ms, 0) else (take n ms, anID (ms ! (n - 1))))"
      using batch_eq [OF assms(1) n, of matches cursor] by (simp add: ms_def Let_def)
    show ?thesis
    proof (cases "length ms < n")
      case short: True
      have "length (entries @ map note_entry (filter readable ms)) \<le> limit"
        using short True length_filter_le [of readable ms] unfolding n_def length_append length_map by linarith
      then show ?thesis using True short b by (simp add: n_def ms_def [symmetric] Let_def)
    next
      case long: False
      define c' where "c' = anID (ms ! (n - 1))"
      have idx: "n - 1 < length ms" using long n by simp
      then have mem: "ms ! (n - 1) \<in> set ms" by simp
      then have c': "c' \<noteq> 0" "c' < cursor \<or> cursor = 0" using assms(2) by (auto simp: c'_def ms_def downFrom_def)
      have "sorted_wrt (\<lambda>a b. anID b < anID a) (rev (axOrdered x))"
        using assms(1) by (simp add: ordered_notes_def sorted_wrt_rev sorted_wrt_map)
      then have "sorted_wrt (\<lambda>a b. anID b < anID a) ms" unfolding ms_def downFrom_def by (intro sorted_wrt_filter)
      then have rest: "filter matches (downFrom c' x) = drop n ms"
        using filter_down [OF c'(2,1), of matches x] filter_below_sorted [OF _ idx] n by (simp add: c'_def ms_def [symmetric])
      let ?e = "entries @ map note_entry (filter readable (take n ms))"
      have "entriesLoop (Suc fuel) matches readable limit cursor x entries = entriesLoop fuel matches readable limit c' x ?e"
        using True long b c'(1) by (simp add: n_def c'_def Let_def)
      also have "\<dots> = take limit (?e @ map note_entry (filter readable (drop n ms)))"
      proof -
        have "length (filter readable (take n ms)) \<le> n" using length_filter_le [of readable "take n ms"] by (metis length_take min.bounded_iff)
        then have "length ?e \<le> limit" using True unfolding n_def length_append length_map by linarith
        moreover have "length (filter matches (downFrom c' x)) < fuel" using rest Suc.prems(1) long n by (simp add: ms_def [symmetric])
        ultimately show ?thesis using Suc.IH [of c' ?e] unfolding rest by blast
      qed
      also have "\<dots> = take limit (entries @ map note_entry (filter readable ms))"
        by (metis append.assoc append_take_drop_id filter_append map_append)
      finally show ?thesis by (simp add: ms_def)
    qed
  qed
qed simp

text \<open>One round per annotation is enough, so the bound on the rounds of \<open>entriesLoop\<close> is never met.\<close>

lemma annotationEntries_exact:
  assumes "noted_ok n"
  shows "annotationEntries u q0 readable n = (let
      q = prepared u q0;
      stack = (if subjectType q = None \<or> subjectType q = Some EventService then serviceStack u (ntCache n) (qResourceID q) else [])
    in map note_entry (take (nat (qLimit q)) (filter (\<lambda>a. (qBeforeID q = 0 \<or> anID a < qBeforeID q) \<and> matchesAnnotation u q a stack \<and> readable a)
         (rev (axOrdered (ntIndex n))))))"
proof -
  have ok: "ordered_notes (axOrdered (ntIndex n))" "\<forall>a \<in> set (axOrdered (ntIndex n)). 0 < anID a" using assms by (simp_all add: noted_ok_def)
  have "length (filter m (downFrom cursor (ntIndex n))) < Suc (length (axOrdered (ntIndex n)))" for m cursor
    unfolding downFrom_def filter_filter by (rule le_less_trans [OF length_filter_le]) simp
  then show ?thesis unfolding annotationEntries_def Let_def
    by (subst entriesLoop_eq [OF ok]) (simp_all add: downFrom_def take_map conj_assoc)
qed

definition newest_first :: "historyEntry list \<Rightarrow> bool" where
  "newest_first es \<longleftrightarrow> sorted_wrt (\<lambda>a b. hID b < hID a) es"

lemma mergeNotes_take: "mergeNotes n rs as = take n (mergeNotes (length rs + length as) rs as)"
  by (induction n rs as rule: mergeNotes.induct) (auto simp: take_Cons')

lemma mergeNotes_mset: "mset (mergeNotes (length rs + length as) rs as) = mset rs + mset as"
proof -
  have "n = length rs + length as \<Longrightarrow> mset (mergeNotes n rs as) = mset rs + mset as" for n
    by (induction n rs as rule: mergeNotes.induct) auto
  then show ?thesis by simp
qed

lemma mergeNotes_sorted:
  assumes "newest_first rs" "newest_first as" "hID ` set rs \<inter> hID ` set as = {}"
  shows "newest_first (mergeNotes (length rs + length as) rs as)"
proof -
  have set: "set (mergeNotes n rs as) \<subseteq> set rs \<union> set as" for n and rs as :: "historyEntry list"
    by (induction n rs as rule: mergeNotes.induct) auto
  have "newest_first (mergeNotes n rs as)" for n
    using assms
  proof (induction n rs as rule: mergeNotes.induct)
    case (5 n r rs a as)
    have ne: "hID r \<noteq> hID a" using 5(5) by auto
    show ?case
    proof (cases "hID r > hID a")
      case True
      have "newest_first (mergeNotes n rs (a # as))" using 5 True by (auto simp: newest_first_def)
      moreover have "\<forall>e \<in> set rs \<union> set (a # as). hID e < hID r" using 5(3,4) True by (auto simp: newest_first_def)
      ultimately show ?thesis using True set [of n rs "a # as"] by (auto simp: newest_first_def)
    next
      case False
      have "newest_first (mergeNotes n (r # rs) as)" using 5 False by (auto simp: newest_first_def)
      moreover have "\<forall>e \<in> set (r # rs) \<union> set as. hID e < hID a" using 5(3,4) False ne by (auto simp: newest_first_def)
      ultimately show ?thesis using False set [of n "r # rs" as] by (auto simp: newest_first_def)
    qed
  qed (use set in \<open>fastforce simp: newest_first_def\<close>)+
  then show ?thesis .
qed

lemma newest_first_unique:
  assumes "newest_first es" "mset es = mset xs"
  shows "es = rev (sort_key hID xs)"
proof -
  have "sorted_wrt (<) (map hID (rev es))" using assms(1) by (simp add: newest_first_def sorted_wrt_map sorted_wrt_rev)
  then have "sorted (map hID (rev es))" "distinct (map hID (rev es))" by (simp_all add: strict_sorted_iff)
  moreover from this have "inj_on hID (set xs)" using mset_eq_setD [OF assms(2)] by (simp add: distinct_map)
  ultimately have "sort_key hID xs = rev es" using assms(2) by (intro sort_key_inj_key_eq) simp_all
  then show ?thesis by simp
qed

text \<open>What a query shows, of the changes and gaps and of the annotations, without a walk, a batch or a limit.\<close>

definition shownEntry :: "unicode \<Rightarrow> historyQuery \<Rightarrow> historyEntry \<Rightarrow> bool" where
  "shownEntry u q e \<longleftrightarrow> (qBeforeID q = 0 \<or> hID e < qBeforeID q) \<and> (qAfter q = 0 \<or> entryEnd e > qAfter q) \<and> matchesEntry u q e"

definition shownNote :: "unicode \<Rightarrow> cache \<Rightarrow> historyQuery \<Rightarrow> (annotation \<Rightarrow> bool) \<Rightarrow> annotation \<Rightarrow> bool" where
  "shownNote u c q readable a \<longleftrightarrow> wantsKind q KindAnnotation \<and> (qBeforeID q = 0 \<or> anID a < qBeforeID q) \<and> readable a \<and>
     matchesAnnotation u q a (if subjectType q = None \<or> subjectType q = Some EventService then serviceStack u c (qResourceID q) else [])"

lemma scanWalk_take:
  assumes "sorted_wrt (\<lambda>a b. entryEnd b \<le> entryEnd a) es" "length result < limit"
  shows "scanWalk u q limit es result = take limit (result @ filter (shownEntry u q) es)"
  using assms
proof (induction es arbitrary: result)
  case (Cons e es)
  consider "qBeforeID q \<noteq> 0 \<and> hID e \<ge> qBeforeID q" | "\<not> (qBeforeID q \<noteq> 0 \<and> hID e \<ge> qBeforeID q)" "qAfter q \<noteq> 0 \<and> \<not> entryEnd e > qAfter q"
    | "\<not> (qBeforeID q \<noteq> 0 \<and> hID e \<ge> qBeforeID q)" "\<not> (qAfter q \<noteq> 0 \<and> \<not> entryEnd e > qAfter q)" by blast
  then show ?case
  proof cases
    case 2
    then have "filter (shownEntry u q) (e # es) = []" using Cons.prems(1) by (fastforce simp: filter_empty_conv shownEntry_def)
    then show ?thesis using 2 Cons.prems(2) by (auto simp del: filter.simps)
  next
    case 3
    then have "shownEntry u q e = matchesEntry u q e" by (auto simp: shownEntry_def)
    then show ?thesis using 3 Cons.prems Cons.IH [of result] Cons.IH [of "result @ [e]"] by auto
  qed (use Cons in \<open>auto simp: shownEntry_def\<close>)
qed simp

lemma mergeNotes_Nil: "mergeNotes n rs [] = take n rs" "mergeNotes n [] as = take n as"
proof -
  show "mergeNotes n rs [] = take n rs" by (induction rs arbitrary: n) (case_tac n; simp)+
  show "mergeNotes n [] as = take n as" by (induction as arbitrary: n) (case_tac n; simp)+
qed

lemma mergeNotes_takes: "n \<le> k \<Longrightarrow> n \<le> l \<Longrightarrow> mergeNotes n (take k rs) (take l as) = mergeNotes n rs as"
proof (induction n rs as arbitrary: k l rule: mergeNotes.induct)
  case (5 n r rs a as)
  then obtain k' l' where "k = Suc k'" "l = Suc l'" by (metis Suc_le_D)
  then show ?case using 5 5(1) [of k' l] 5(2) [of k l'] by auto
next
  case (3 n r rs)
  then show ?case by (simp only: take_Nil mergeNotes_Nil take_take) (simp add: min_def)
next
  case (4 n a as)
  then show ?case by (simp only: take_Nil mergeNotes_Nil take_take) (simp add: min_def)
qed simp_all

lemma ring_shown:
  assumes "recorded sz h lg" "hsCount h < maxUint64" "sorted (map entryEnd lg)"
    and "\<forall>e \<in> set lg. hKind e = KindAnnotation \<longrightarrow> \<not> about e (qResourceID q)" "0 < qLimit q"
  shows "ListHistory u q h = take (nat (qLimit q)) (rev (filter (shownEntry u (prepared u q)) (lastn sz lg)))"
    and "newest_first (rev (filter (shownEntry u (prepared u q)) (lastn sz lg)))"
proof -
  have "sorted (map entryEnd (lastn sz lg))" using assms(3) by (simp add: lastn_def drop_map [symmetric])
  then have "sorted_wrt (\<lambda>a b. entryEnd b \<le> entryEnd a) (rev (lastn sz lg))" by (simp add: sorted_wrt_rev sorted_map)
  then show "ListHistory u q h = take (nat (qLimit q)) (rev (filter (shownEntry u (prepared u q)) (lastn sz lg)))"
    using ListHistory_scan [OF assms(1-4), of u] assms(5) by (simp add: scanWalk_take rev_filter)
  have "newest_first (rev (lastn sz lg))"
    using newestFirst_sorted recorded_ok(2,4) [OF assms(1)] by (auto simp: newest_first_def holds_log_def sorted_wrt_map)
  then show "newest_first (rev (filter (shownEntry u (prepared u q)) (lastn sz lg)))"
    by (simp add: newest_first_def rev_filter sorted_wrt_filter)
qed

lemma notes_shown:
  assumes "noted_ok n" "wantsKind (prepared u q) KindAnnotation"
  shows "annotationEntries u q readable n =
      take (nat (qLimit (prepared u q))) (rev (map note_entry (filter (shownNote u (ntCache n) (prepared u q) readable) (axOrdered (ntIndex n)))))"
  unfolding annotationEntries_exact [OF assms(1)] Let_def using assms(2)
  by (simp add: shownNote_def [abs_def] rev_map rev_filter take_map conj_ac)

lemma notes_newest_first:
  assumes "noted_ok n"
  shows "newest_first (rev (map note_entry (filter P (axOrdered (ntIndex n)))))"
proof -
  have "sorted_wrt (\<lambda>a b. anID a < anID b) (filter P (axOrdered (ntIndex n)))"
    using assms by (simp add: noted_ok_def ordered_notes_def sorted_wrt_map sorted_wrt_filter)
  then show ?thesis by (simp add: newest_first_def sorted_wrt_rev sorted_wrt_map note_entry_def)
qed

lemma matchesAnnotation_cong:
  assumes "qReady q" "qReady q'" "qAfter q = qAfter q'" "qBefore q = qBefore q'" "qTags q = qTags q'" "qMatchAny q = qMatchAny q'"
    "qAuthors q = qAuthors q'" "qResourceID q = qResourceID q'" "qType q = qType q'" "qTypes q = qTypes q'"
    "qTitleContains q = qTitleContains q'" "qSearch q = qSearch q'" "qWords q = qWords q'"
  shows "matchesAnnotation u q a s = matchesAnnotation u q' a s"
proof -
  have "annotationMatchesText u q a = annotationMatchesText u q' a"
    unfolding annotationMatchesText_def Let_def using assms(1,2) by (simp only: assms(11-13) not_True_eq_False if_False)
  moreover have "matchesTags q = matchesTags q'" "matchesAuthor q = matchesAuthor q'" "subjectType q = subjectType q'"
    by (rule ext, simp only: matchesTags_def assms(5,6)) (rule ext, simp only: matchesAuthor_def assms(7), simp only: subjectType_def assms(9,10))
  ultimately show ?thesis unfolding matchesAnnotation_def by (simp only: assms(3,4,8-10))
qed

lemma prepared_members:
  "matchesAnnotation u (prepared u (memberQuery c q)) a s = matchesAnnotation u (prepared u q) a s"
  "subjectType (prepared u (memberQuery c q)) = subjectType (prepared u q)" "wantsKind (prepared u (memberQuery c q)) k = wantsKind q k"
  "qResourceID (prepared u (memberQuery c q)) = qResourceID q" "qBeforeID (prepared u (memberQuery c q)) = qBeforeID q"
  "qLimit (prepared u (memberQuery c q)) = qLimit q" "qKinds (prepared u (memberQuery c q)) = qKinds q"
proof -
  have m: "matchesAnnotation u (prepared u (q\<lparr>qMembers := ms\<rparr>)) a s = matchesAnnotation u (prepared u q) a s" for ms
    by (rule matchesAnnotation_cong) (simp_all add: prepared_def)
  have "q\<lparr>qMembers := qMembers q\<rparr> = q" by simp
  then obtain ms where ms: "memberQuery c q = q\<lparr>qMembers := ms\<rparr>" unfolding memberQuery_def by metis
  show "matchesAnnotation u (prepared u (memberQuery c q)) a s = matchesAnnotation u (prepared u q) a s" by (simp only: ms m)
  show "subjectType (prepared u (memberQuery c q)) = subjectType (prepared u q)" "wantsKind (prepared u (memberQuery c q)) k = wantsKind q k"
    "qResourceID (prepared u (memberQuery c q)) = qResourceID q" "qBeforeID (prepared u (memberQuery c q)) = qBeforeID q"
    "qLimit (prepared u (memberQuery c q)) = qLimit q" "qKinds (prepared u (memberQuery c q)) = qKinds q"
    unfolding ms by (simp_all add: subjectType_def wantsKind_def prepared_def)
qed

lemma shown_merged:
  assumes "noted_ok n" "\<forall>e \<in> set lg. hID e \<in> anID ` set (axOrdered (ntIndex n)) \<longrightarrow> hKind e = KindAnnotation"
    and "newest_first (rev (filter (shownEntry u q) (lastn sz lg)))"
  shows "mergeNotes L (rev (filter (shownEntry u q) (lastn sz lg))) (rev (map note_entry (filter P (axOrdered (ntIndex n))))) =
    take L (rev (sort_key hID (filter (shownEntry u q) (lastn sz lg) @ map note_entry (filter P (axOrdered (ntIndex n))))))"
    (is "mergeNotes L (rev ?es) (rev ?as) = _")
proof -
  have "e \<in> set lg \<and> hKind e \<noteq> KindAnnotation" if "e \<in> set ?es" for e
    using that set_lastn [of sz lg] by (auto simp: shownEntry_def matchesEntry_def split: if_splits)
  moreover have "hID ` set ?as \<subseteq> anID ` set (axOrdered (ntIndex n))" by (auto simp: note_entry_def)
  ultimately have "hID ` set ?es \<inter> hID ` set ?as = {}" using assms(2) by blast
  then have "mergeNotes (length (rev ?es) + length (rev ?as)) (rev ?es) (rev ?as) = rev (sort_key hID (?es @ ?as))"
    using assms(3) notes_newest_first [OF assms(1)]
    by (intro newest_first_unique mergeNotes_sorted) (simp_all only: mergeNotes_mset mset_append set_rev mset_rev)
  then show ?thesis using mergeNotes_take [of L "rev ?es" "rev ?as"] by argo
qed

text \<open>
  C22. A page of the timeline is the newest of everything the query shows: of all changes and gaps the history retains and of all annotations of
  the index, those that the query's filters admit and, of the annotations, that are readable, in the order of their IDs, newest first, with none
  dropped and none shown twice before the limit, although the two are walked apart, the annotations in batches, and each only as far as needed.
  Ends of entries do not decrease from one to the next, annotations have IDs of their own, and the history counter has not reached its end.
\<close>

theorem Timeline_is_merge:
  assumes "noteReach n" "recorded sz (cHistory (ntCache n)) lg" "hsCount (cHistory (ntCache n)) < maxUint64" "sorted (map entryEnd lg)"
    and "\<forall>e \<in> set lg. hKind e = KindAnnotation \<longrightarrow> \<not> about e (qResourceID q)"
    and "\<forall>e \<in> set lg. hID e \<in> anID ` set (axOrdered (ntIndex n)) \<longrightarrow> hKind e = KindAnnotation"
    and "q' = prepared u (memberQuery (ntCache n) (limited q))"
  shows "Timeline u q readable n = take (nat (qLimit (limited q))) (rev (sort_key hID
    (filter (shownEntry u q') (lastn sz lg) @ map note_entry (filter (shownNote u (ntCache n) q' readable) (axOrdered (ntIndex n))))))"
proof -
  define ql where "ql = limited q"
  define L where "L = nat (qLimit ql)"
  define es where "es = filter (shownEntry u q') (lastn sz lg)"
  define as where "as = map note_entry (filter (shownNote u (ntCache n) q' readable) (axOrdered (ntIndex n)))"
  have ql: "0 < qLimit ql" "qResourceID ql = qResourceID q" "qKinds ql = qKinds q" "wantsKind ql k = wantsKind q k" for k
    by (simp_all add: ql_def limited_def wantsKind_def)
  have q': "q' = prepared u (memberQuery (ntCache n) ql)" by (simp add: assms(7) ql_def)
  have mq: "qLimit (memberQuery (ntCache n) ql) = qLimit ql" "qResourceID (memberQuery (ntCache n) ql) = qResourceID q"
      "wantsKind (memberQuery (ntCache n) ql) k = wantsKind q k" for k
    using ql(2,4) by (simp_all add: memberQuery_def wantsKind_def)
  note R = ring_shown [OF assms(2-4), of "memberQuery (ntCache n) ql" u, unfolded mq, OF assms(5) ql(1), folded q' es_def L_def]
  have ok: "noted_ok n" by (rule noteReach_ok [OF assms(1)])
  have nt: "shownNote u (ntCache n) (prepared u ql) readable = shownNote u (ntCache n) q' readable"
    by (simp add: fun_eq_iff shownNote_def q' prepared_members) (simp add: prepared_def wantsKind_def)
  have N: "annotationEntries u (if P then ql else memberQuery (ntCache n) ql) readable n = take L (rev as)" if "wantsKind q KindAnnotation" for P
    using notes_shown [OF ok, of u ql readable] notes_shown [OF ok, of u "memberQuery (ntCache n) ql" readable] that ql(4) mq(3)
    by (simp add: nt as_def L_def q' [symmetric] prepared_members [of u "ntCache n" ql, folded q']) (simp add: prepared_def wantsKind_def)
  have ring: "es = []" if "qKinds q = [KindAnnotation]"
    using that ql(3) by (auto simp: es_def filter_empty_conv shownEntry_def matchesEntry_def wantsKind_def q' prepared_members)
  have nonotes: "as = []" if "\<not> wantsKind q KindAnnotation"
    using that ql(4) by (simp add: as_def shownNote_def q' prepared_members)
  have only: "(length (qKinds ql) = Suc 0 \<and> hd (qKinds ql) = KindAnnotation) \<longleftrightarrow> qKinds q = [KindAnnotation]"
    using ql(3) by (cases "qKinds q") auto
  have "Timeline u q readable n = mergeNotes L (rev es) (rev as)"
  proof (cases "wantsKind q KindAnnotation")
    case True
    have "Timeline u q readable n = mergeNotes L (if qKinds q = [KindAnnotation] then [] else take L (rev es)) (take L (rev as))"
      using True N [of "qKinds q = [KindAnnotation]"] R(1) ql(4) mq(1,3)
      by (simp add: Timeline_def Let_def ql_def [symmetric] only L_def [symmetric] split: if_splits)
    also have "\<dots> = mergeNotes L (rev es) (rev as)"
      using ring mergeNotes_takes [of L L L "rev es" "rev as"] mergeNotes_takes [of L L L "[]" "rev as"] by auto
    finally show ?thesis .
  next
    case False
    then have "qKinds q \<noteq> [KindAnnotation]" by (auto simp: wantsKind_def)
    then show ?thesis using False nonotes R(1) mq(3)
      by (simp add: Timeline_def Let_def ql_def [symmetric] only mergeNotes_Nil)
  qed
  also have "\<dots> = take L (rev (sort_key hID (es @ as)))"
    unfolding es_def as_def using R(2) [unfolded es_def] by (rule shown_merged [OF ok assms(6)])
  finally show ?thesis by (simp only: es_def as_def L_def ql_def)
qed

definition ex_note :: annotation where
  "ex_note = \<lparr>anID = 2, anTimestamp = 9, anUntil = 0, anText = ''deploy'', anTags = [], anResources = [], anActor = None,
     anUpdated = 0, anEditor = None, anVersion = 2, anCreated = 9\<rparr>"

definition ex_entry :: historyEntry where
  "ex_entry = ex_change\<lparr>hID := 1, hTimestamp := 7, hKind := KindChange\<rparr>"

definition ex_noted :: noted where
  "ex_noted = \<lparr>ntIndex = RestoreAnnotations [(2, ex_note)] \<lparr>axStore = None, axOrdered = []\<rparr>,
     ntCache = (New 0 ''i'' 1)\<lparr>cHistory := RestoreHistory [ex_entry] 2 ''i'' (NewHistory ''i'' 1)\<rparr>\<rparr>"

lemma ex_history:
  "recorded 1 (cHistory (ntCache ex_noted)) [ex_entry]" "hsCount (cHistory (ntCache ex_noted)) = 3"
proof -
  have "recorded 1 (RestoreHistory [ex_entry] 2 ''i'' (NewHistory ''i'' 1)) [ex_entry]"
    by (rule restored) (simp_all add: ex_entry_def ex_change_def zeroEntry_def gap_clean_def KindChange_def KindAnnotation_def KindGap_def)
  then show "recorded 1 (cHistory (ntCache ex_noted)) [ex_entry]" by (simp add: ex_noted_def)
  show "hsCount (cHistory (ntCache ex_noted)) = 3"
    by (simp add: ex_noted_def RestoreHistory_def restoreEntry_def NewHistory_def ex_entry_def Let_def)
qed

lemma ex_noteReach: "noteReach ex_noted"
  unfolding ex_noted_def using ex_history(2)
  by (intro start) (auto simp: ex_note_def ex_noted_def split: if_splits)

theorem annotations_mirror_store_witness: "Annotation 2 (ntIndex ex_noted) = Some ex_note"
  using annotations_mirror_store [OF ex_noteReach] by (auto simp: ex_noted_def RestoreAnnotations_def)

definition ex_timeline :: historyQuery where
  "ex_timeline = ex_query\<lparr>qResourceID := [], qTypes := [], qAfter := 0\<rparr>"

theorem Timeline_is_merge_witness:
  "Timeline ex_unicode ex_timeline (\<lambda>a. True) ex_noted = [note_entry ex_note, ex_entry]"
proof -
  let ?q = "prepared ex_unicode (memberQuery (ntCache ex_noted) (limited ex_timeline))"
  have q: "?q = prepared ex_unicode ex_timeline" by (simp add: memberQuery_def limited_def ex_timeline_def ex_query_def)
  have e: "hKind ex_entry = KindChange" "entryEnd ex_entry = 7" "hID ex_entry = 1" "hType ex_entry = Some EventNode" "hResourceID ex_entry = ''n1''"
    by (simp_all add: ex_entry_def ex_change_def zeroEntry_def entryEnd_def)
  have ordd: "axOrdered (ntIndex ex_noted) = [ex_note]" by (simp add: ex_noted_def RestoreAnnotations_def)
  have ring: "shownEntry ex_unicode (prepared ex_unicode ex_timeline) ex_entry"
    using e by (simp add: shownEntry_def matchesEntry_def wantsKind_def matchesAuthor_def matchesResource_def matchesText_def about_def
        KindChange_def KindAnnotation_def KindGap_def ex_timeline_def ex_query_def prepared_def ToLower_def ascii_def)
  have nts: "shownNote ex_unicode (ntCache ex_noted) (prepared ex_unicode ex_timeline) (\<lambda>a. True) ex_note"
    by (simp add: shownNote_def wantsKind_def ex_timeline_def ex_query_def prepared_def matchesAnnotation_def matchesTags_def matchesAuthor_def
        annotationMatchesText_def ToLower_def ascii_def ex_note_def)
  have h: "hsCount (cHistory (ntCache ex_noted)) < maxUint64" "sorted (map entryEnd [ex_entry])"
    "\<forall>e \<in> set [ex_entry]. hKind e = KindAnnotation \<longrightarrow> \<not> about e (qResourceID ex_timeline)"
    "\<forall>e \<in> set [ex_entry]. hID e \<in> anID ` set (axOrdered (ntIndex ex_noted)) \<longrightarrow> hKind e = KindAnnotation"
    by (simp_all add: ex_history(2) maxUint64_def e KindChange_def KindAnnotation_def ordd ex_note_def)
  have id: "hID (note_entry ex_note) = 2" by (simp add: note_entry_def ex_note_def)
  have "nat (qLimit (limited ex_timeline)) = 5" by (simp add: ex_timeline_def ex_query_def limited_def)
  with Timeline_is_merge [OF ex_noteReach ex_history(1) h refl, of ex_unicode "\<lambda>a. True"]
  show ?thesis unfolding q ordd by (simp add: e id ring nts lastn_def)
qed

end
