(* ===== verification/Exec.thy ===== *)
theory Exec
  imports Acl_Policy "HOL-Library.Multiset"
begin

text \<open>
  The exec sessions of \<open>internal/exec/manager.go\<close> and the handler that runs one (\<open>internal/api/exec_ws.go\<close>), with the records they
  write to the audit log (\<open>internal/audit\<close>). The manager's mutex is released between a decision and the audit write that follows it,
  so every critical section is one operation here, and what a goroutine has left to do is a list of jobs. Times are nanoseconds. The
  random session ID is an argument, as are the answers of the audit log.
\<close>

section \<open>Sessions\<close>

definition AttachWindow :: int where "AttachWindow = 60 * 10 ^ 9"
definition Retention :: int where "Retention = 5 * 60 * 10 ^ 9"

datatype execError = ErrCapacity | ErrIdentityCapacity | ErrNotFound | ErrNotOwner | ErrAlreadyAttached | ErrNotPending

record execTarget =
  tgTask :: string
  tgService :: string
  tgServiceName :: string
  tgStack :: string
  tgNode :: string
  tgContainer :: string

record owner =
  owSubject :: string
  owProvider :: string
  owDisplayName :: string
  owGroups :: "string list"

definition OwnerOf :: "identity option \<Rightarrow> owner" where
  "OwnerOf i = (case i of None \<Rightarrow> \<lparr>owSubject = [], owProvider = [], owDisplayName = [], owGroups = []\<rparr>
     | Some i \<Rightarrow> \<lparr>owSubject = idSubject i, owProvider = idProvider i, owDisplayName = idDisplayName i, owGroups = idGroups i\<rparr>)"

definition owner_Is :: "owner \<Rightarrow> identity option \<Rightarrow> bool" where
  "owner_Is ow i = (case i of None \<Rightarrow> False | Some i \<Rightarrow> owSubject ow = idSubject i \<and> owProvider ow = idProvider i)"

record auditIdentity =
  aiSubject :: string
  aiProvider :: string
  aiGroups :: "string list"

definition owner_auditIdentity :: "owner \<Rightarrow> auditIdentity" where
  "owner_auditIdentity ow = \<lparr>aiSubject = owSubject ow, aiProvider = owProvider ow, aiGroups = owGroups ow\<rparr>"

datatype sessionState = StatePending | StateConnected | StateEnded

datatype exitOutcome = OutcomeExited | OutcomeTerminated | OutcomeDetached

record exit =
  exitCode :: int
  exitOutcome :: exitOutcome

definition detached :: exit where
  "detached = \<lparr>exitCode = -1, exitOutcome = OutcomeDetached\<rparr>"

record session =
  ssID :: string
  ssOwner :: owner
  ssTarget :: execTarget
  ssTransport :: string
  ssClient :: string
  ssState :: sessionState
  ssCreatedAt :: int
  ssConnectedAt :: "int option"
  ssEndedAt :: "int option"
  ssReason :: string
  ssEndedBy :: "owner option"
  ssExit :: "exit option"
  ssBytesIn :: int
  ssBytesOut :: int

text \<open>The context of an attached session: \<open>enCancelled\<close> once its cancel function ran, \<open>enAttached\<close> while it has one.\<close>

record entry = session +
  enIdentity :: "identity option"
  enLastInput :: int
  enAttached :: bool
  enCancelled :: bool

record limits =
  lmMaxSessions :: int
  lmMaxPerIdentity :: int
  lmIdleTimeout :: int
  lmMaxDuration :: int

record manager =
  mgSessions :: "entry gomap"
  mgLastGeneration :: nat
  mgEndWrites :: int

record auditRecord =
  auTime :: int
  auEvent :: string
  auSession :: string
  auIdentity :: auditIdentity
  auClient :: string
  auTransport :: string
  auTarget :: execTarget
  auReason :: string
  auEndedBy :: "auditIdentity option"
  auOutcome :: "exitOutcome option"
  auExitCode :: "int option"
  auDuration :: "int option"
  auBytesIn :: int
  auBytesOut :: int

text \<open>\<open>NewManager\<close>; the configuration itself is an argument of the operations that read it.\<close>

definition NewManager :: "nat option \<Rightarrow> manager" where
  "NewManager policyGeneration = \<lparr>mgSessions = [], mgLastGeneration = (case policyGeneration of None \<Rightarrow> 0 | Some g \<Rightarrow> g), mgEndWrites = 0\<rparr>"

definition newEntry :: "string \<Rightarrow> int \<Rightarrow> identity option \<Rightarrow> string \<Rightarrow> execTarget \<Rightarrow> string \<Rightarrow> entry" where
  "newEntry sid now i client target transport = \<lparr>ssID = sid, ssOwner = OwnerOf i, ssTarget = target, ssTransport = transport, ssClient = client,
     ssState = StatePending, ssCreatedAt = now, ssConnectedAt = None, ssEndedAt = None, ssReason = [], ssEndedBy = None, ssExit = None,
     ssBytesIn = 0, ssBytesOut = 0, enIdentity = i, enLastInput = 0, enAttached = False, enCancelled = False\<rparr>"

definition alive :: "entry \<Rightarrow> bool" where
  "alive e \<longleftrightarrow> ssState e \<noteq> StateEnded"

definition liveCount :: "manager \<Rightarrow> nat" where
  "liveCount m = length (filter (\<lambda>(k, e). alive e) (mgSessions m))"

definition mineCount :: "identity option \<Rightarrow> manager \<Rightarrow> nat" where
  "mineCount i m = length (filter (\<lambda>(k, e). alive e \<and> owner_Is (ssOwner e) i) (mgSessions m))"

definition CreateSession ::
  "limits \<Rightarrow> int \<Rightarrow> string \<Rightarrow> identity option \<Rightarrow> string \<Rightarrow> execTarget \<Rightarrow> string \<Rightarrow> manager \<Rightarrow> (execError + entry) \<times> manager" where
  "CreateSession L now newID i client target transport m =
     (if int (mineCount i m) \<ge> lmMaxPerIdentity L then (Inl ErrIdentityCapacity, m)
      else if int (liveCount m) \<ge> lmMaxSessions L then (Inl ErrCapacity, m)
      else (let e = newEntry newID now i client target transport in (Inr e, m\<lparr>mgSessions := gset (mgSessions m) newID e\<rparr>)))"

definition GetSession :: "string \<Rightarrow> manager \<Rightarrow> session option" where
  "GetSession sid m = map_option session.truncate (gget (mgSessions m) sid)"

definition ListSessions :: "manager \<Rightarrow> session list" where
  "ListSessions m = sort_key (\<lambda>s. - ssCreatedAt s) (map (\<lambda>(k, e). session.truncate e) (mgSessions m))"

definition AttachSession :: "string \<Rightarrow> identity option \<Rightarrow> manager \<Rightarrow> execError option \<times> manager" where
  "AttachSession sid i m = (case gget (mgSessions m) sid of
     None \<Rightarrow> (Some ErrNotFound, m)
   | Some e \<Rightarrow>
       if \<not> owner_Is (ssOwner e) i then (Some ErrNotOwner, m)
       else if enAttached e \<or> ssState e = StateEnded then (Some ErrAlreadyAttached, m)
       else (None, m\<lparr>mgSessions := gset (mgSessions m) sid (e\<lparr>enAttached := True, enCancelled := False\<rparr>)\<rparr>))"

definition record_of :: "int \<Rightarrow> string \<Rightarrow> entry \<Rightarrow> auditRecord" where
  "record_of now event e = (let fin = event = ''exec.end'' in
     \<lparr>auTime = now, auEvent = event, auSession = ssID e, auIdentity = owner_auditIdentity (ssOwner e), auClient = ssClient e,
      auTransport = ssTransport e, auTarget = ssTarget e, auReason = ssReason e, auEndedBy = map_option owner_auditIdentity (ssEndedBy e),
      auOutcome = (if fin then map_option exitOutcome (ssExit e) else None),
      auExitCode = (if fin then map_option exitCode (ssExit e) else None),
      auDuration = (if fin then (case (ssConnectedAt e, ssEndedAt e) of (Some a, Some b) \<Rightarrow> Some (b - a) | _ \<Rightarrow> None) else None),
      auBytesIn = (if fin then ssBytesIn e else 0), auBytesOut = (if fin then ssBytesOut e else 0)\<rparr>)"

text \<open>The two critical sections of \<open>Connected\<close>, before and after the start record is written.\<close>

definition connectBegin :: "int \<Rightarrow> string \<Rightarrow> manager \<Rightarrow> execError + auditRecord" where
  "connectBegin now sid m = (case gget (mgSessions m) sid of
     None \<Rightarrow> Inl ErrNotFound
   | Some e \<Rightarrow>
       if \<not> enAttached e \<or> ssState e \<noteq> StatePending \<or> ssReason e \<noteq> [] then Inl ErrNotPending
       else Inr (record_of now ''exec.start'' e))"

datatype started = Started | EndedMeanwhile | Over auditRecord

definition settleStart :: "int \<Rightarrow> int \<Rightarrow> string \<Rightarrow> manager \<Rightarrow> started option \<times> manager" where
  "settleStart recNow now sid m = (case gget (mgSessions m) sid of
     None \<Rightarrow> (None, m)
   | Some e \<Rightarrow> (let m' = m\<lparr>mgSessions := gset (mgSessions m) sid (e\<lparr>ssState := StateConnected, ssConnectedAt := Some now, enLastInput := now\<rparr>)\<rparr> in
       if ssState e = StatePending \<and> ssReason e = [] then (Some Started, m')
       else if ssState e = StatePending then (Some EndedMeanwhile, m')
       else (Some (Over (record_of recNow ''exec.end'' e)), m)))"

definition Input :: "int \<Rightarrow> string \<Rightarrow> int \<Rightarrow> manager \<Rightarrow> manager" where
  "Input now sid n m = (case gget (mgSessions m) sid of None \<Rightarrow> m
     | Some e \<Rightarrow> m\<lparr>mgSessions := gset (mgSessions m) sid (e\<lparr>ssBytesIn := ssBytesIn e + n, enLastInput := now\<rparr>)\<rparr>)"

definition Output :: "string \<Rightarrow> int \<Rightarrow> manager \<Rightarrow> manager" where
  "Output sid n m = (case gget (mgSessions m) sid of None \<Rightarrow> m
     | Some e \<Rightarrow> m\<lparr>mgSessions := gset (mgSessions m) sid (e\<lparr>ssBytesOut := ssBytesOut e + n\<rparr>)\<rparr>)"

text \<open>The critical section of \<open>End\<close>, with the cancel it calls for an attached session; true when \<open>Finish\<close> is to follow.\<close>

definition EndSession :: "string \<Rightarrow> string \<Rightarrow> identity option \<Rightarrow> manager \<Rightarrow> bool \<times> manager" where
  "EndSession sid reason byID m = (case gget (mgSessions m) sid of
     None \<Rightarrow> (False, m)
   | Some e \<Rightarrow>
       if ssState e = StateEnded \<or> ssReason e \<noteq> [] then (False, m)
       else (\<not> enAttached e, m\<lparr>mgSessions := gset (mgSessions m) sid (e\<lparr>ssReason := reason,
          ssEndedBy := (if byID \<noteq> None then Some (OwnerOf byID) else ssEndedBy e), enCancelled := enAttached e\<rparr>)\<rparr>))"

definition AbortSession :: "string \<Rightarrow> string \<Rightarrow> manager \<Rightarrow> manager" where
  "AbortSession sid reason m = (case gget (mgSessions m) sid of
     None \<Rightarrow> m
   | Some e \<Rightarrow> if ssState e \<noteq> StateEnded \<and> ssReason e = [] then m\<lparr>mgSessions := gset (mgSessions m) sid (e\<lparr>ssReason := reason\<rparr>)\<rparr> else m)"

text \<open>The critical section of \<open>Finish\<close>, with the end record to write if the session was connected.\<close>

definition finished :: "int \<Rightarrow> exit \<Rightarrow> entry \<Rightarrow> entry" where
  "finished now x e = (let e' = e\<lparr>ssState := StateEnded, ssEndedAt := Some now, ssExit := Some x, enCancelled := enAttached e\<rparr> in
     if exitOutcome x = OutcomeExited then e'\<lparr>ssReason := ''exited'', ssEndedBy := None\<rparr>
     else if ssReason e' = [] then e'\<lparr>ssReason := ''exited''\<rparr> else e')"

definition FinishSession :: "int \<Rightarrow> int \<Rightarrow> string \<Rightarrow> exit \<Rightarrow> manager \<Rightarrow> auditRecord option \<times> manager" where
  "FinishSession recNow now sid x m = (case gget (mgSessions m) sid of
     None \<Rightarrow> (None, m)
   | Some e \<Rightarrow>
       if ssState e = StateEnded then (None, m)
       else (let wasConnected = ssState e = StateConnected; e' = finished now x e;
            m' = m\<lparr>mgSessions := gset (mgSessions m) sid e'\<rparr> in
         if wasConnected then (Some (record_of recNow ''exec.end'' e'), m'\<lparr>mgEndWrites := mgEndWrites m' + 1\<rparr>) else (None, m')))"

definition denial :: "int \<Rightarrow> string \<Rightarrow> identity option \<Rightarrow> execTarget \<Rightarrow> string \<Rightarrow> string \<Rightarrow> string \<Rightarrow> auditRecord" where
  "denial now sid i target transport client reason =
     record_of now ''exec.denied'' ((newEntry sid 0 i client target transport)\<lparr>ssReason := reason\<rparr>)"

definition Denied :: "int \<Rightarrow> identity option \<Rightarrow> string \<Rightarrow> execTarget \<Rightarrow> string \<Rightarrow> auditRecord" where
  "Denied now i client target reason = denial now [] i target [] client reason"

definition DeniedAttach :: "int \<Rightarrow> string \<Rightarrow> identity option \<Rightarrow> string \<Rightarrow> string \<Rightarrow> manager \<Rightarrow> auditRecord option" where
  "DeniedAttach now sid i client reason m =
     map_option (\<lambda>e. denial now sid i (ssTarget e) (ssTransport e) client reason) (gget (mgSessions m) sid)"

text \<open>The sessions \<open>write\<close> ends when a record could not be written.\<close>

definition running :: "manager \<Rightarrow> string list" where
  "running m = map fst (filter (\<lambda>(k, e). ssState e = StateConnected) (mgSessions m))"

definition stale :: "int \<Rightarrow> entry \<Rightarrow> bool" where
  "stale now e \<longleftrightarrow> ssState e = StateEnded \<and> (case ssEndedAt e of None \<Rightarrow> False | Some t \<Rightarrow> now - t > Retention)"

definition overdue :: "limits \<Rightarrow> int \<Rightarrow> entry \<Rightarrow> string option" where
  "overdue L now e =
     (if ssState e = StateEnded then None
      else if ssState e = StatePending \<and> \<not> enAttached e \<and> now - ssCreatedAt e > AttachWindow then Some ''not_attached''
      else if ssState e = StateConnected \<and> now - the (ssConnectedAt e) > lmMaxDuration L then Some ''max_duration''
      else if ssState e = StateConnected \<and> now - enLastInput e > lmIdleTimeout L then Some ''idle_timeout''
      else None)"

definition Sweep ::
  "limits \<Rightarrow> int \<Rightarrow> nat option \<Rightarrow> (identity option \<Rightarrow> execTarget \<Rightarrow> bool) option \<Rightarrow> manager \<Rightarrow> (string \<times> string) list \<times> manager" where
  "Sweep L now policyGeneration authorize m = (let
      generation = (case (policyGeneration, authorize) of (Some g, Some _) \<Rightarrow> g | _ \<Rightarrow> 0);
      revoke = (authorize \<noteq> None \<and> generation \<noteq> mgLastGeneration m);
      late = List.map_filter (\<lambda>(k, e). map_option (Pair k) (overdue L now e)) (mgSessions m);
      checks = (if revoke then filter (\<lambda>(k, e). alive e \<and> overdue L now e = None) (mgSessions m) else []);
      withdrawn = filter (\<lambda>(k, e). \<not> (case authorize of None \<Rightarrow> True | Some f \<Rightarrow> f (enIdentity e) (ssTarget e))) checks
    in (late @ map (\<lambda>(k, e). (k, ''revoked'')) withdrawn,
        m\<lparr>mgSessions := filter (\<lambda>(k, e). \<not> stale now e) (mgSessions m),
          mgLastGeneration := (if revoke then generation else mgLastGeneration m)\<rparr>))"

definition settling :: "manager \<Rightarrow> bool" where
  "settling m \<longleftrightarrow> mgEndWrites m > 0 \<or> list_ex (\<lambda>(k, e). enAttached e \<and> alive e) (mgSessions m)"

section \<open>Goroutines\<close>

text \<open>
  What a goroutine has left to do. \<open>Handle\<close> is the handler of an attached session before its shell is open, \<open>WriteStart\<close> and
  \<open>SettleStart\<close> the two halves of \<open>Connected\<close>, \<open>Pump\<close> the pump of \<open>runExecSession\<close>; \<open>LateCount\<close>, \<open>LateTake\<close> and \<open>AwaitStart\<close> are the steps
  of \<open>abortLate\<close>. \<open>WriteCounted\<close> writes an end record that \<open>endWrites\<close> counts, \<open>WriteRecord\<close> one it does not, \<open>LateLand\<close> is a write that
  was given up and goes on aside.
\<close>

datatype execJob =
    Handle string
  | WriteStart string int auditRecord
  | SettleStart string int
  | Pump string
  | CallEnd string string "identity option"
  | CallAbort string string
  | CallFinish string exit
  | EndRunning
  | LateCount string auditRecord
  | LateTake string auditRecord
  | AwaitStart auditRecord auditRecord
  | WriteCounted auditRecord
  | CountDown
  | WriteRecord auditRecord
  | LateLand auditRecord

record effect =
  efManager :: manager
  efNext :: "execJob list"
  efSpawned :: "execJob list"
  efLogged :: "auditRecord list"
  efLost :: "auditRecord list"

abbreviation eff :: "manager \<Rightarrow> execJob list \<Rightarrow> effect" where
  "eff m js \<equiv> \<lparr>efManager = m, efNext = js, efSpawned = [], efLogged = [], efLost = []\<rparr>"

text \<open>One step of a job: the manager after it, what the goroutine does next, a goroutine it starts, and the records that landed or are lost.\<close>

inductive jobStep :: "manager \<Rightarrow> execJob \<Rightarrow> effect \<Rightarrow> bool" for m where
  Refused: "reason \<noteq> [] \<Longrightarrow> jobStep m (Handle sid) (eff m [CallAbort sid reason])"
| Opened: "jobStep m (Handle sid) (eff m (case connectBegin now sid m of
    Inl err \<Rightarrow> [CallAbort sid ''not_started''] | Inr rec \<Rightarrow> [WriteStart sid now rec]))"
| StartWritten: "jobStep m (WriteStart sid now rec) ((eff m [SettleStart sid now])\<lparr>efLogged := [rec]\<rparr>)"
| StartFailed: "jobStep m (WriteStart sid now rec)
    ((eff m [EndRunning, CallAbort sid ''audit_unavailable'', CallAbort sid ''audit_unavailable''])\<lparr>efLost := [rec]\<rparr>)"
| StartAbandoned: "jobStep m (WriteStart sid now rec) (eff m [EndRunning, LateCount sid rec, CallAbort sid ''audit_unavailable''])"
| Settled: "settleStart recNow now sid m = (Some r, m') \<Longrightarrow> jobStep m (SettleStart sid now) (eff m' (case r of
    Started \<Rightarrow> [Pump sid]
  | EndedMeanwhile \<Rightarrow> [CallFinish sid detached, CallAbort sid ''not_started'']
  | Over rec \<Rightarrow> [WriteRecord rec, CallAbort sid ''not_started'']))"
| Pumped: "jobStep m (Pump sid) (eff m (if exitOutcome x = OutcomeExited then [CallFinish sid x] else [CallEnd sid ''connection_lost'' None, CallFinish sid x]))"
| Ended: "EndSession sid reason byID m = (finish, m') \<Longrightarrow> jobStep m (CallEnd sid reason byID) (eff m' (if finish then [CallFinish sid detached] else []))"
| Aborted: "jobStep m (CallAbort sid reason) (eff (AbortSession sid reason m) [CallFinish sid detached])"
| Finished: "FinishSession recNow now sid x m = (rec, m') \<Longrightarrow>
    jobStep m (CallFinish sid x) (eff m' (case rec of None \<Rightarrow> [] | Some rec \<Rightarrow> [WriteCounted rec]))"
| Running: "jobStep m EndRunning (eff m (map (\<lambda>sid. CallEnd sid ''audit_unavailable'' None) (running m)))"
| LateCounted: "jobStep m (LateCount sid rec) (eff (m\<lparr>mgEndWrites := mgEndWrites m + 1\<rparr>) [CallAbort sid ''audit_unavailable'', LateTake sid rec])"
| LateTaken: "gget (mgSessions m) sid = Some e \<Longrightarrow>
    jobStep m (LateTake sid rec) ((eff m [])\<lparr>efSpawned := [AwaitStart rec (record_of now ''exec.end'' e)]\<rparr>)"
| Landed: "jobStep m (AwaitStart rec endRec) ((eff m [WriteCounted endRec])\<lparr>efLogged := [rec]\<rparr>)"
| NotLanded: "jobStep m (AwaitStart rec endRec) ((eff m [CountDown])\<lparr>efLost := [rec]\<rparr>)"
| CountedWritten: "jobStep m (WriteCounted rec) ((eff m [CountDown])\<lparr>efLogged := [rec]\<rparr>)"
| CountedFailed: "jobStep m (WriteCounted rec) ((eff m [EndRunning, CountDown])\<lparr>efLost := [rec]\<rparr>)"
| CountedAbandoned: "jobStep m (WriteCounted rec) ((eff m [EndRunning, CountDown])\<lparr>efSpawned := [LateLand rec]\<rparr>)"
| Counted: "jobStep m CountDown (eff (m\<lparr>mgEndWrites := mgEndWrites m - 1\<rparr>) [])"
| RecordWritten: "jobStep m (WriteRecord rec) ((eff m [])\<lparr>efLogged := [rec]\<rparr>)"
| RecordFailed: "jobStep m (WriteRecord rec) ((eff m [EndRunning])\<lparr>efLost := [rec]\<rparr>)"
| RecordAbandoned: "jobStep m (WriteRecord rec) ((eff m [EndRunning])\<lparr>efSpawned := [LateLand rec]\<rparr>)"
| LateLanded: "jobStep m (LateLand rec) ((eff m [])\<lparr>efLogged := [rec]\<rparr>)"
| LateFailed: "jobStep m (LateLand rec) ((eff m [])\<lparr>efLost := [rec]\<rparr>)"

inductive_cases jobStepE: "jobStep m j f"

record execWorld =
  xwManager :: manager
  xwThreads :: "execJob list list"
  xwLog :: "auditRecord list"
  xwLost :: "auditRecord list"
  xwUsed :: "string set"

abbreviation jobs :: "execWorld \<Rightarrow> execJob list" where
  "jobs w \<equiv> concat (xwThreads w)"

text \<open>A start record is settled, written or given up, well before its session would be swept away: a write takes two seconds at most.\<close>

fun awaits :: "execJob \<Rightarrow> string option" where
  "awaits (SettleStart sid _) = Some sid"
| "awaits (WriteStart sid _ _) = Some sid"
| "awaits (LateCount sid _) = Some sid"
| "awaits (LateTake sid _) = Some sid"
| "awaits _ = None"

definition timely :: "int \<Rightarrow> execWorld \<Rightarrow> bool" where
  "timely now w \<longleftrightarrow> (\<forall>j \<in> set (jobs w). \<forall>sid e. awaits j = Some sid \<longrightarrow> gget (mgSessions (xwManager w)) sid = Some e \<longrightarrow> \<not> stale now e)"

inductive execStep :: "limits \<Rightarrow> execWorld \<Rightarrow> execWorld \<Rightarrow> bool" for L where
  Thread: "xwThreads w = ts1 @ (j # js) # ts2 \<Longrightarrow> jobStep (xwManager w) j f \<Longrightarrow>
    execStep L w (w\<lparr>xwManager := efManager f, xwThreads := ts1 @ (efNext f @ js) # ts2 @ [efSpawned f],
      xwLog := xwLog w @ efLogged f, xwLost := xwLost w @ efLost f\<rparr>)"
| Created: "sid \<notin> xwUsed w \<Longrightarrow> CreateSession L now sid i client target transport (xwManager w) = (Inr e, m') \<Longrightarrow>
    execStep L w (w\<lparr>xwManager := m', xwUsed := insert sid (xwUsed w)\<rparr>)"
| Attached: "AttachSession sid i (xwManager w) = (None, m') \<Longrightarrow>
    execStep L w (w\<lparr>xwManager := m', xwThreads := xwThreads w @ [[Handle sid]]\<rparr>)"
| Refuse: "execStep L w (w\<lparr>xwThreads := xwThreads w @ [[WriteRecord (Denied now i client target reason)]]\<rparr>)"
| RefuseAttach: "DeniedAttach now sid i client reason (xwManager w) = Some rec \<Longrightarrow>
    execStep L w (w\<lparr>xwThreads := xwThreads w @ [[WriteRecord rec]]\<rparr>)"
| Typed: "execStep L w (w\<lparr>xwManager := Input now sid n (xwManager w)\<rparr>)"
| Printed: "execStep L w (w\<lparr>xwManager := Output sid n (xwManager w)\<rparr>)"
| Stop: "reason \<noteq> [] \<Longrightarrow> execStep L w (w\<lparr>xwThreads := xwThreads w @ [[CallEnd sid reason byID]]\<rparr>)"
| Swept: "timely now w \<Longrightarrow> Sweep L now generation authorize (xwManager w) = (endings, m') \<Longrightarrow>
    execStep L w (w\<lparr>xwManager := m', xwThreads := xwThreads w @ [map (\<lambda>(sid, reason). CallEnd sid reason None) endings]\<rparr>)"
| Shutdown: "execStep L w (w\<lparr>xwThreads := xwThreads w @ [map (\<lambda>s. CallEnd (ssID s) ''shutdown'' None) (ListSessions (xwManager w))]\<rparr>)"

inductive execRun :: "limits \<Rightarrow> execWorld \<Rightarrow> bool" for L where
  start: "execRun L \<lparr>xwManager = NewManager g, xwThreads = [], xwLog = [], xwLost = [], xwUsed = {}\<rparr>"
| step: "execRun L w \<Longrightarrow> execStep L w w' \<Longrightarrow> execRun L w'"

section \<open>What a job stands for\<close>

fun tokenOf :: "execJob \<Rightarrow> string option" where
  "tokenOf (Handle sid) = Some sid"
| "tokenOf (WriteStart sid _ _) = Some sid"
| "tokenOf (LateCount sid _) = Some sid"
| "tokenOf (LateTake sid _) = Some sid"
| "tokenOf (AwaitStart rec _) = Some (auSession rec)"
| "tokenOf _ = None"

fun dueOf :: "execJob \<Rightarrow> string option" where
  "dueOf (SettleStart sid _) = Some sid"
| "dueOf (WriteCounted rec) = Some (auSession rec)"
| "dueOf (LateLand rec) = (if auEvent rec = ''exec.end'' then Some (auSession rec) else None)"
| "dueOf _ = None"

fun openOf :: "execJob \<Rightarrow> string option" where
  "openOf (WriteStart sid _ _) = Some sid"
| "openOf (SettleStart sid _) = Some sid"
| "openOf _ = None"

fun closeOf :: "execJob \<Rightarrow> string option" where
  "closeOf (CallFinish sid _) = Some sid"
| "closeOf (CallAbort sid _) = Some sid"
| "closeOf (Pump sid) = Some sid"
| "closeOf _ = None"

fun counted :: "execJob \<Rightarrow> bool" where
  "counted (LateTake _ _) = True"
| "counted (AwaitStart _ _) = True"
| "counted (WriteCounted _) = True"
| "counted CountDown = True"
| "counted _ = False"

definition isStart :: "string \<Rightarrow> auditRecord \<Rightarrow> bool" where
  "isStart sid r \<longleftrightarrow> auEvent r = ''exec.start'' \<and> auSession r = sid"

definition isEnd :: "string \<Rightarrow> auditRecord \<Rightarrow> bool" where
  "isEnd sid r \<longleftrightarrow> auEvent r = ''exec.end'' \<and> auSession r = sid"

fun job_wf :: "execJob \<Rightarrow> bool" where
  "job_wf (WriteStart sid _ rec) \<longleftrightarrow> isStart sid rec"
| "job_wf (LateCount sid rec) \<longleftrightarrow> isStart sid rec"
| "job_wf (LateTake sid rec) \<longleftrightarrow> isStart sid rec"
| "job_wf (AwaitStart rec endRec) \<longleftrightarrow> isStart (auSession rec) rec \<and> isEnd (auSession rec) endRec"
| "job_wf (WriteCounted rec) \<longleftrightarrow> isEnd (auSession rec) rec"
| "job_wf (WriteRecord rec) \<longleftrightarrow> auEvent rec = ''exec.denied''"
| "job_wf (LateLand rec) \<longleftrightarrow> auEvent rec \<noteq> ''exec.start''"
| "job_wf (CallEnd _ reason _) \<longleftrightarrow> reason \<noteq> []"
| "job_wf (CallAbort _ reason) \<longleftrightarrow> reason \<noteq> []"
| "job_wf _ \<longleftrightarrow> True"

definition cnt :: "(execJob \<Rightarrow> string option) \<Rightarrow> string \<Rightarrow> execJob multiset \<Rightarrow> nat" where
  "cnt f sid J = size (filter_mset (\<lambda>j. f j = Some sid) J)"

definition starts :: "string \<Rightarrow> auditRecord list \<Rightarrow> nat" where
  "starts sid rs = length (filter (isStart sid) rs)"

definition ends :: "string \<Rightarrow> auditRecord list \<Rightarrow> nat" where
  "ends sid rs = length (filter (isEnd sid) rs)"

definition connected :: "string \<Rightarrow> manager \<Rightarrow> nat" where
  "connected sid m = (case gget (mgSessions m) sid of Some e \<Rightarrow> if ssState e = StateConnected then 1 else 0 | None \<Rightarrow> 0)"

definition closed :: "entry \<Rightarrow> bool" where
  "closed e \<longleftrightarrow> ssReason e \<noteq> [] \<or> ssState e = StateEnded"

definition tokens :: "string \<Rightarrow> execJob multiset \<Rightarrow> auditRecord list \<Rightarrow> auditRecord list \<Rightarrow> nat" where
  "tokens sid J lg lost = cnt tokenOf sid J + starts sid lg + starts sid lost"

lemma cnt_simps [simp]:
  "cnt f sid {#} = 0" "cnt f sid (add_mset j J) = (if f j = Some sid then 1 else 0) + cnt f sid J" "cnt f sid (J + K) = cnt f sid J + cnt f sid K"
  by (simp_all add: cnt_def)

lemma cnt_pos: "0 < cnt f sid J \<longleftrightarrow> (\<exists>j. j \<in># J \<and> f j = Some sid)"
  by (induction J) auto

lemma rec_counts [simp]:
  "starts sid [] = 0" "ends sid [] = 0" "starts sid (r # rs) = (if isStart sid r then 1 else 0) + starts sid rs"
  "ends sid (r # rs) = (if isEnd sid r then 1 else 0) + ends sid rs"
  "starts sid (rs @ rs') = starts sid rs + starts sid rs'" "ends sid (rs @ rs') = ends sid rs + ends sid rs'"
  by (simp_all add: starts_def ends_def)

lemma isStart_not_isEnd: "isStart sid r \<Longrightarrow> \<not> isEnd sid' r" "isEnd sid r \<Longrightarrow> \<not> isStart sid' r"
  by (auto simp: isStart_def isEnd_def)

lemma record_of_simps [simp]: "auEvent (record_of now ev e) = ev" "auSession (record_of now ev e) = ssID e"
  by (simp_all add: record_of_def Let_def)

section \<open>What a step does to a session\<close>

definition advances :: "execJob \<Rightarrow> string \<Rightarrow> entry \<Rightarrow> entry \<Rightarrow> bool" where
  "advances j sid e e' \<longleftrightarrow> ssID e' = ssID e \<and> ssOwner e' = ssOwner e \<and> enAttached e' = enAttached e \<and> (closed e \<longrightarrow> closed e') \<and>
     (ssState e' = ssState e \<or> (\<exists>x. j = CallFinish sid x) \<and> ssState e' = StateEnded \<or>
      (\<exists>now. j = SettleStart sid now) \<and> ssState e = StatePending \<and> ssState e' = StateConnected)"

definition same_keys :: "execJob \<Rightarrow> manager \<Rightarrow> manager \<Rightarrow> bool" where
  "same_keys j m m' \<longleftrightarrow> (\<forall>sid. rel_option (advances j sid) (gget (mgSessions m) sid) (gget (mgSessions m') sid)) \<and>
     (gwf (mgSessions m) \<longrightarrow> gwf (mgSessions m'))"

lemma same_keys_refl [simp]: "same_keys j m m" "same_keys j m (m\<lparr>mgEndWrites := n\<rparr>)"
  by (auto simp: same_keys_def advances_def intro: option.rel_refl)

lemma same_keys_gset:
  assumes "gget (mgSessions m) sid = Some e" "advances j sid e e'"
  shows "same_keys j m (m\<lparr>mgSessions := gset (mgSessions m) sid e'\<rparr>)"
    "same_keys j m (m\<lparr>mgSessions := gset (mgSessions m) sid e', mgEndWrites := n\<rparr>)"
  using assms by (auto simp: same_keys_def advances_def intro: option.rel_refl)

lemma advances_more:
  "\<lbrakk>ssID e' = ssID e; ssOwner e' = ssOwner e; enAttached e' = enAttached e; ssState e' = ssState e; ssReason e \<noteq> [] \<Longrightarrow> ssReason e' \<noteq> []\<rbrakk> \<Longrightarrow> advances j sid e e'"
  by (auto simp: advances_def closed_def)

lemma jobStep_sessions:
  assumes "jobStep m j f" "job_wf j"
  shows "same_keys j m (efManager f)"
  using assms
proof (cases rule: jobStep.cases)
  case (Settled recNow now sid r m')
  then show ?thesis
    by (auto simp: settleStart_def Let_def advances_def closed_def split: option.splits if_splits intro!: same_keys_gset)
next
  case (Ended sid reason byID finish m')
  then show ?thesis using assms(2)
    by (auto simp: EndSession_def split: option.splits if_splits intro!: same_keys_gset advances_more)
next
  case (Aborted sid reason)
  then show ?thesis using assms(2)
    by (auto simp: AbortSession_def split: option.splits intro!: same_keys_gset advances_more)
next
  case (Finished recNow now sid x rec m')
  have "advances j sid e (finished now x e)" for e
    using Finished(1) by (auto simp: advances_def finished_def Let_def closed_def)
  then show ?thesis using Finished
    by (auto simp: FinishSession_def Let_def split: option.splits if_splits intro!: same_keys_gset)
qed simp_all

definition keyed_sessions :: "manager \<Rightarrow> string set \<Rightarrow> bool" where
  "keyed_sessions m used \<longleftrightarrow> gwf (mgSessions m) \<and> (\<forall>sid e. gget (mgSessions m) sid = Some e \<longrightarrow> ssID e = sid \<and> sid \<in> used)"

lemma cnt_calls [simp]:
  "cnt tokenOf sid (image_mset (\<lambda>x. CallEnd (g x) (h x) (k x)) M) = 0" "cnt dueOf sid (image_mset (\<lambda>x. CallEnd (g x) (h x) (k x)) M) = 0"
  "cnt openOf sid (image_mset (\<lambda>x. CallEnd (g x) (h x) (k x)) M) = 0" "cnt closeOf sid (image_mset (\<lambda>x. CallEnd (g x) (h x) (k x)) M) = 0"
  "filter_mset counted (image_mset (\<lambda>x. CallEnd (g x) (h x) (k x)) M) = {#}"
  by (induction M) simp_all

abbreviation births :: "effect \<Rightarrow> execJob multiset" where
  "births f \<equiv> mset (efNext f) + mset (efSpawned f)"

lemma jobStep_wf:
  assumes "jobStep m j f" "job_wf j" "keyed_sessions m used"
    and "\<And>sid now. j = SettleStart sid now \<Longrightarrow> \<exists>e. gget (mgSessions m) sid = Some e \<and> ssState e = StatePending"
  shows "\<forall>i \<in># births f. job_wf i"
  using assms
proof (cases rule: jobStep.cases)
  case (Settled recNow now sid r m')
  then obtain e where "gget (mgSessions m) sid = Some e" "ssState e = StatePending" using assms(4) by blast
  then show ?thesis using Settled by (auto simp: settleStart_def Let_def split: if_splits)
next
  case (Finished recNow now sid x rec m')
  have "ssID (finished now x e) = ssID e" for e by (simp add: finished_def Let_def)
  then show ?thesis using Finished by (auto simp: FinishSession_def Let_def isEnd_def split: option.splits if_splits)
qed (auto simp: connectBegin_def isStart_def isEnd_def keyed_sessions_def split: option.splits if_splits sum.splits)

lemma jobStep_tokens:
  assumes "jobStep m j f" "job_wf j"
  shows "cnt tokenOf sid (births f) + starts sid (efLogged f) + starts sid (efLost f) \<le> (if tokenOf j = Some sid then 1 else 0)"
  using assms
  by (cases rule: jobStep.cases) (auto simp: isStart_def isEnd_def split: option.splits sum.splits started.splits)

lemma jobStep_counted:
  assumes "jobStep m j f"
    and "\<And>sid now. j = SettleStart sid now \<Longrightarrow> \<exists>e. gget (mgSessions m) sid = Some e \<and> ssState e = StatePending"
  shows "mgEndWrites (efManager f) + (if counted j then 1 else 0) = mgEndWrites m + int (size (filter_mset counted (births f)))"
  using assms
proof (cases rule: jobStep.cases)
  case (Settled recNow now sid r m')
  then show ?thesis by (auto simp: settleStart_def Let_def split: option.splits if_splits)
next
  case (Ended sid reason byID finish m')
  then show ?thesis by (auto simp: EndSession_def split: option.splits if_splits)
next
  case (Aborted sid reason)
  then show ?thesis by (auto simp: AbortSession_def split: option.splits)
next
  case (Finished recNow now sid x rec m')
  then show ?thesis by (auto simp: FinishSession_def Let_def split: option.splits if_splits)
qed (auto split: sum.splits)

lemma connected_cong: "gget (mgSessions m') sid = gget (mgSessions m) sid \<Longrightarrow> connected sid m' = connected sid m"
  by (simp add: connected_def)

lemma jobStep_balance:
  assumes "jobStep m j f" "job_wf j" "keyed_sessions m used"
    and "\<And>sid now. j = SettleStart sid now \<Longrightarrow> \<exists>e. gget (mgSessions m) sid = Some e \<and> ssState e = StatePending"
  shows "starts sid (efLogged f) + connected sid m + (if dueOf j = Some sid then 1 else 0) =
    connected sid (efManager f) + cnt dueOf sid (births f) + ends sid (efLogged f) + ends sid (efLost f)"
  using assms
proof (cases rule: jobStep.cases)
  case (Settled recNow now sid' r m')
  then obtain e where "gget (mgSessions m) sid' = Some e" "ssState e = StatePending" using assms(4) by blast
  then show ?thesis using Settled by (auto simp: settleStart_def Let_def connected_def split: if_splits)
next
  case (Ended sid' reason byID finish m')
  then show ?thesis by (auto simp: EndSession_def connected_def split: option.splits if_splits)
next
  case (Aborted sid' reason)
  then show ?thesis by (auto simp: AbortSession_def connected_def split: option.splits)
next
  case (Finished recNow now sid' x rec m')
  have "ssID (finished now x e) = ssID e" "ssState (finished now x e) = StateEnded" for e by (simp_all add: finished_def Let_def)
  then show ?thesis using Finished assms(3)
    by (auto simp: FinishSession_def Let_def connected_def keyed_sessions_def split: option.splits if_splits)
qed (auto simp: isStart_def isEnd_def connected_def split: option.splits sum.splits)

section \<open>The invariant\<close>

fun handOf :: "execJob \<Rightarrow> string option" where
  "handOf (Handle sid) = Some sid"
| "handOf (LateCount sid _) = Some sid"
| "handOf _ = None"

definition session_ok ::
  "manager \<Rightarrow> execJob multiset \<Rightarrow> auditRecord list \<Rightarrow> auditRecord list \<Rightarrow> string set \<Rightarrow> string \<Rightarrow> bool" where
  "session_ok m J lg lost used sid \<longleftrightarrow>
     starts sid lg = connected sid m + cnt dueOf sid J + ends sid lg + ends sid lost \<and>
     tokens sid J lg lost \<le> 1 \<and>
     (0 < tokens sid J lg lost \<or> 0 < cnt closeOf sid J \<longrightarrow> sid \<in> used) \<and>
     (\<forall>e. gget (mgSessions m) sid = Some e \<longrightarrow> 0 < tokens sid J lg lost \<or> Pump sid \<in># J \<or> ssState e = StateConnected \<longrightarrow> enAttached e) \<and>
     (0 < cnt openOf sid J \<longrightarrow> cnt closeOf sid J = 0 \<and> (\<exists>e. gget (mgSessions m) sid = Some e \<and> ssState e = StatePending)) \<and>
     (\<forall>e. gget (mgSessions m) sid = Some e \<longrightarrow> 0 < cnt closeOf sid J \<longrightarrow> \<not> enAttached e \<or> Handle sid \<in># J \<longrightarrow> closed e) \<and>
     (\<forall>j \<in># J. awaits j = Some sid \<longrightarrow> gget (mgSessions m) sid \<noteq> None)"

lemma session_okD:
  assumes "session_ok m J lg lost used sid"
  shows "starts sid lg = connected sid m + cnt dueOf sid J + ends sid lg + ends sid lost" "tokens sid J lg lost \<le> 1"
    "0 < tokens sid J lg lost \<or> 0 < cnt closeOf sid J \<Longrightarrow> sid \<in> used"
    "\<And>e. gget (mgSessions m) sid = Some e \<Longrightarrow> 0 < tokens sid J lg lost \<or> Pump sid \<in># J \<or> ssState e = StateConnected \<Longrightarrow> enAttached e"
    "0 < cnt openOf sid J \<Longrightarrow> cnt closeOf sid J = 0 \<and> (\<exists>e. gget (mgSessions m) sid = Some e \<and> ssState e = StatePending)"
    "\<And>e. gget (mgSessions m) sid = Some e \<Longrightarrow> 0 < cnt closeOf sid J \<Longrightarrow> \<not> enAttached e \<or> Handle sid \<in># J \<Longrightarrow> closed e"
    "\<And>j. j \<in># J \<Longrightarrow> awaits j = Some sid \<Longrightarrow> gget (mgSessions m) sid \<noteq> None"
  using assms by (auto simp: session_ok_def)

lemma one_handler:
  assumes "session_ok m J lg lost used sid"
  shows "cnt openOf sid J + cnt handOf sid J \<le> 1" "0 < cnt openOf sid J + cnt handOf sid J \<Longrightarrow> 0 < tokens sid J lg lost"
    "tokens sid J lg lost = 0 \<Longrightarrow> cnt openOf sid J = 0"
proof -
  have point: "(if openOf j = Some sid then 1 else 0) + (if handOf j = Some sid then 1 else 0) \<le>
    (if tokenOf j = Some sid then 1 else (0::nat)) + (if dueOf j = Some sid then 1 else 0)" for j by (cases j) auto
  have le: "cnt openOf sid J + cnt handOf sid J \<le> cnt tokenOf sid J + cnt dueOf sid J"
  proof (induction J)
    case (add j J)
    then show ?case using point [of j] unfolding cnt_simps by linarith
  qed simp
  then show "cnt openOf sid J + cnt handOf sid J \<le> 1" "0 < cnt openOf sid J + cnt handOf sid J \<Longrightarrow> 0 < tokens sid J lg lost"
    "tokens sid J lg lost = 0 \<Longrightarrow> cnt openOf sid J = 0"
    using session_okD(1,2) [OF assms] unfolding tokens_def by linarith+
qed

lemma births_plain: assumes "jobStep m j f" shows "Handle sid \<notin># births f"
  using assms by (cases rule: jobStep.cases) (auto split: option.splits sum.splits started.splits if_splits)

lemma births_open:
  assumes "jobStep m j f" "0 < cnt openOf sid (births f)"
  shows "efManager f = m \<and> cnt closeOf sid (births f) = 0 \<and>
    (j = Handle sid \<and> (\<exists>e. gget (mgSessions m) sid = Some e \<and> ssState e = StatePending \<and> ssReason e = []) \<or> (\<exists>now rec. j = WriteStart sid now rec))"
  using assms
  by (cases rule: jobStep.cases) (auto simp: connectBegin_def split: option.splits sum.splits started.splits if_splits)

lemma births_close:
  assumes "jobStep m j f" "job_wf j" "0 < cnt closeOf sid (births f)"
  shows "closeOf j = Some sid \<or> handOf j = Some sid \<or> openOf j = Some sid \<or>
    (\<exists>e e'. gget (mgSessions m) sid = Some e \<and> \<not> enAttached e \<and> gget (mgSessions (efManager f)) sid = Some e' \<and> closed e')"
  using assms
proof (cases rule: jobStep.cases)
  case (Ended sid' reason byID finish m')
  then show ?thesis using assms(2,3) by (auto simp: EndSession_def closed_def split: option.splits if_splits)
qed (auto split: option.splits sum.splits started.splits if_splits)

lemma births_pump: assumes "jobStep m j f" "Pump sid \<in># births f" shows "\<exists>now. j = SettleStart sid now"
  using assms by (cases rule: jobStep.cases) (auto split: option.splits sum.splits started.splits if_splits)

lemma births_awaits:
  assumes "jobStep m j f" "i \<in># births f" "awaits i = Some sid"
  shows "awaits j = Some sid \<or> gget (mgSessions m) sid \<noteq> None"
  using assms by (cases rule: jobStep.cases) (auto simp: connectBegin_def split: option.splits sum.splits started.splits if_splits)

definition exec_ok :: "manager \<Rightarrow> execJob multiset \<Rightarrow> auditRecord list \<Rightarrow> auditRecord list \<Rightarrow> string set \<Rightarrow> bool" where
  "exec_ok m J lg lost used \<longleftrightarrow> keyed_sessions m used \<and> (\<forall>j \<in># J. job_wf j) \<and> mgEndWrites m = int (size (filter_mset counted J)) \<and>
     (\<forall>sid. session_ok m J lg lost used sid)"

lemma rel_optionD:
  "rel_option P x y \<Longrightarrow> x = Some a \<Longrightarrow> \<exists>b. y = Some b \<and> P a b" "rel_option P x y \<Longrightarrow> y = Some b \<Longrightarrow> \<exists>a. x = Some a \<and> P a b"
  by (cases x; cases y; simp)+

lemma pos_split: "0 < cnt f sid (J + K) \<longleftrightarrow> 0 < cnt f sid J \<or> 0 < cnt f sid K"
  by simp

lemma session_ok_job:
  assumes ok: "session_ok m (add_mset j R) lg lost used sid" and step: "jobStep m j f" and wf: "job_wf j" and keyed: "keyed_sessions m used"
    and settle: "\<And>sid now. j = SettleStart sid now \<Longrightarrow> \<exists>e. gget (mgSessions m) sid = Some e \<and> ssState e = StatePending"
  shows "session_ok (efManager f) (R + births f) (lg @ efLogged f) (lost @ efLost f) used sid" (is "session_ok ?m ?J ?lg ?lost used sid")
proof -
  note S = session_okD [OF ok]
  note one = one_handler [OF ok]
  have rel: "rel_option (advances j sid) (gget (mgSessions m) sid) (gget (mgSessions ?m) sid)"
    using jobStep_sessions [OF step wf] by (simp add: same_keys_def)
  have tok: "tokens sid ?J ?lg ?lost \<le> tokens sid (add_mset j R) lg lost"
    using jobStep_tokens [OF step wf, of sid] by (simp add: tokens_def)
  have fromj: "0 < tokens sid (add_mset j R) lg lost" if "openOf j = Some sid \<or> handOf j = Some sid" using one(2) that by auto
  have new_close: "closeOf j = Some sid \<or> handOf j = Some sid \<or> openOf j = Some sid \<or>
    (\<exists>e e'. gget (mgSessions m) sid = Some e \<and> \<not> enAttached e \<and> gget (mgSessions ?m) sid = Some e' \<and> closed e')"
    if "0 < cnt closeOf sid ?J" "cnt closeOf sid R = 0" using births_close [OF step wf, of sid] that by simp
  show ?thesis unfolding session_ok_def
  proof (intro conjI allI ballI impI)
    show "starts sid ?lg = connected sid ?m + cnt dueOf sid ?J + ends sid ?lg + ends sid ?lost"
      using S(1) jobStep_balance [where sid = sid, OF step wf keyed] settle by fastforce
    show "tokens sid ?J ?lg ?lost \<le> 1" using tok S(2) by simp
    show "sid \<in> used" if a: "0 < tokens sid ?J ?lg ?lost \<or> 0 < cnt closeOf sid ?J"
    proof (cases "0 < tokens sid (add_mset j R) lg lost \<or> 0 < cnt closeOf sid (add_mset j R)")
      case False
      then have "cnt closeOf sid R = 0" "closeOf j \<noteq> Some sid" by (auto split: if_splits)
      then show ?thesis using a tok False new_close fromj keyed by (auto simp: keyed_sessions_def)
    qed (rule S(3))
    show "enAttached e'" if g: "gget (mgSessions ?m) sid = Some e'"
      and a: "0 < tokens sid ?J ?lg ?lost \<or> Pump sid \<in># ?J \<or> ssState e' = StateConnected" for e'
    proof -
      obtain e where e: "gget (mgSessions m) sid = Some e" "advances j sid e e'" using rel_optionD(2) [OF rel g] by blast
      have "openOf j = Some sid" if "Pump sid \<in># births f" using births_pump [OF step that] by auto
      then have "enAttached e" using S(4) [OF e(1)] a tok e(2) fromj by (fastforce simp: advances_def)
      then show ?thesis using e(2) by (simp add: advances_def)
    qed
    show "closed e'" if g: "gget (mgSessions ?m) sid = Some e'" and c: "0 < cnt closeOf sid ?J" and a: "\<not> enAttached e' \<or> Handle sid \<in># ?J" for e'
    proof -
      obtain e where e: "gget (mgSessions m) sid = Some e" "advances j sid e e'" using rel_optionD(2) [OF rel g] by blast
      have h: "0 < cnt handOf sid R" if "Handle sid \<in># ?J" using that births_plain [OF step] cnt_pos [of handOf sid R] by fastforce
      show ?thesis
      proof (cases "0 < cnt closeOf sid (add_mset j R)")
        case True
        have "\<not> enAttached e \<or> Handle sid \<in># add_mset j R" using a e(2) births_plain [OF step] by (auto simp: advances_def)
        then show ?thesis using S(6) [OF e(1) True] e(2) by (simp add: advances_def)
      next
        case False
        then have "cnt closeOf sid R = 0" "closeOf j \<noteq> Some sid" by (auto split: if_splits)
        moreover have "enAttached e'" if "handOf j = Some sid \<or> openOf j = Some sid" using S(4) [OF e(1)] fromj that e(2) by (auto simp: advances_def)
        ultimately show ?thesis using new_close c a g h one(1) by (auto split: if_splits)
      qed
    qed
    show "gget (mgSessions ?m) sid \<noteq> None" if "i \<in># ?J" "awaits i = Some sid" for i
    proof -
      have "gget (mgSessions m) sid \<noteq> None"
        using that S(7) [of j] S(7) [of i] births_awaits [OF step, of i sid] by auto
      then show ?thesis using rel_optionD(1) [OF rel] by auto
    qed
    assume o: "0 < cnt openOf sid ?J"
    have "cnt closeOf sid ?J = 0 \<and> (\<exists>e. gget (mgSessions ?m) sid = Some e \<and> ssState e = StatePending)"
    proof (cases "0 < cnt openOf sid R")
      case True
      then have c: "cnt closeOf sid (add_mset j R) = 0" and "\<exists>e. gget (mgSessions m) sid = Some e \<and> ssState e = StatePending" using S(5) by simp_all
      then obtain e where e: "gget (mgSessions m) sid = Some e" "ssState e = StatePending" by blast
      obtain e' where e': "gget (mgSessions ?m) sid = Some e'" "advances j sid e e'" using rel_optionD(1) [OF rel e(1)] by blast
      have j: "openOf j \<noteq> Some sid" "handOf j \<noteq> Some sid" "closeOf j \<noteq> Some sid" using one(1) True c by (auto split: if_splits)
      have "enAttached e" using S(4) [OF e(1)] one(2) True by simp
      moreover have "cnt closeOf sid R = 0" using c by simp
      ultimately have "\<not> 0 < cnt closeOf sid ?J" using new_close j e(1) by (metis option.inject)
      moreover have "ssState e' = StatePending" using e'(2) e(2) j by (auto simp: advances_def)
      ultimately show ?thesis using e'(1) by auto
    next
      case False
      then have b: "0 < cnt openOf sid (births f)" using o by simp
      note B = births_open [OF step b]
      have m: "?m = m" and nc: "cnt closeOf sid (births f) = 0" using B by simp_all
      from B consider (h) e where "j = Handle sid" "gget (mgSessions m) sid = Some e" "ssState e = StatePending" "ssReason e = []"
        | (w) now rec where "j = WriteStart sid now rec" by blast
      then show ?thesis
      proof cases
        case h
        then have "cnt closeOf sid R = 0" using S(6) [OF h(2)] by (auto simp: closed_def)
        then show ?thesis using h nc m by simp
      next
        case w
        then show ?thesis using S(5) nc m by simp
      qed
    qed
    then show "cnt closeOf sid ?J = 0" "\<exists>e. gget (mgSessions ?m) sid = Some e \<and> ssState e = StatePending" by simp_all
  qed
qed

lemma exec_ok_job:
  assumes "exec_ok m (add_mset j R) lg lost used" "jobStep m j f"
  shows "exec_ok (efManager f) (R + births f) (lg @ efLogged f) (lost @ efLost f) used"
proof -
  have ok: "keyed_sessions m used" "\<forall>i \<in># add_mset j R. job_wf i" "mgEndWrites m = int (size (filter_mset counted (add_mset j R)))"
    "\<And>sid. session_ok m (add_mset j R) lg lost used sid" using assms(1) by (simp_all add: exec_ok_def)
  then have wf: "job_wf j" by simp
  have settle: "\<exists>e. gget (mgSessions m) sid = Some e \<and> ssState e = StatePending" if "j = SettleStart sid now" for sid now
    using session_okD(5) [OF ok(4), of sid] that by simp
  have "keyed_sessions (efManager f) used"
    unfolding keyed_sessions_def
  proof (intro conjI allI impI)
    note same = jobStep_sessions [OF assms(2) wf, unfolded same_keys_def]
    show "gwf (mgSessions (efManager f))" using same ok(1) by (simp add: keyed_sessions_def)
    fix sid e' assume g: "gget (mgSessions (efManager f)) sid = Some e'"
    have "rel_option (advances j sid) (gget (mgSessions m) sid) (gget (mgSessions (efManager f)) sid)" using same by blast
    then obtain e where "gget (mgSessions m) sid = Some e" "advances j sid e e'" using rel_optionD(2) [OF _ g] by metis
    then show "ssID e' = sid" "sid \<in> used" using ok(1) by (auto simp: keyed_sessions_def advances_def)
  qed
  moreover have "\<forall>i \<in># births f. job_wf i" by (rule jobStep_wf [OF assms(2) wf ok(1)]) (rule settle)
  moreover have "mgEndWrites (efManager f) + (if counted j then 1 else 0) = mgEndWrites m + int (size (filter_mset counted (births f)))"
    by (rule jobStep_counted [OF assms(2)]) (rule settle)
  moreover have "session_ok (efManager f) (R + births f) (lg @ efLogged f) (lost @ efLost f) used sid" for sid
    by (rule session_ok_job [OF ok(4) assms(2) wf ok(1)]) (rule settle)
  ultimately show ?thesis unfolding exec_ok_def using ok(2,3) by (intro conjI allI) (auto split: if_splits)
qed

definition neutral :: "string \<Rightarrow> execJob \<Rightarrow> bool" where
  "neutral sid j \<longleftrightarrow> tokenOf j \<noteq> Some sid \<and> dueOf j \<noteq> Some sid \<and> openOf j \<noteq> Some sid \<and> closeOf j \<noteq> Some sid \<and> awaits j \<noteq> Some sid"

lemma neutral_cnt:
  assumes "\<forall>j \<in># K. neutral sid j"
  shows "cnt tokenOf sid K = 0" "cnt dueOf sid K = 0" "cnt openOf sid K = 0" "cnt closeOf sid K = 0" "Handle sid \<notin># K" "Pump sid \<notin># K"
  using assms by (auto simp: neutral_def cnt_def)

lemma session_ok_spawn:
  assumes "session_ok m J lg lost used sid" "\<forall>j \<in># K. neutral sid j"
  shows "session_ok m (J + K) lg lost used sid"
  using assms neutral_cnt [OF assms(2)] by (auto simp: session_ok_def tokens_def neutral_def)

lemma session_ok_used: "session_ok m J lg lost used sid \<Longrightarrow> used \<subseteq> used' \<Longrightarrow> session_ok m J lg lost used' sid"
  by (auto simp: session_ok_def)

lemma open_awaits: "0 < cnt openOf sid J \<Longrightarrow> \<exists>j \<in># J. awaits j = Some sid"
proof -
  assume "0 < cnt openOf sid J"
  then obtain j where "j \<in># J" "openOf j = Some sid" by (auto simp: cnt_pos)
  moreover from this(2) have "awaits j = Some sid" by (cases j) simp_all
  ultimately show ?thesis by blast
qed

lemma session_ok_manager:
  assumes ok: "session_ok m J lg lost used sid"
    and new: "\<And>e'. gget (mgSessions m') sid = Some e' \<Longrightarrow>
      \<exists>e. gget (mgSessions m) sid = Some e \<and> enAttached e' = enAttached e \<and> ssState e' = ssState e \<and> (closed e \<longrightarrow> closed e')"
    and gone: "\<And>e. gget (mgSessions m) sid = Some e \<Longrightarrow> gget (mgSessions m') sid = None \<Longrightarrow> ssState e = StateEnded \<and> (\<forall>j \<in># J. awaits j \<noteq> Some sid)"
  shows "session_ok m' J lg lost used sid"
proof -
  note S = session_okD [OF ok]
  have c: "connected sid m' = connected sid m"
    using new gone by (fastforce simp: connected_def split: option.splits)
  have present: "gget (mgSessions m') sid \<noteq> None" if "j \<in># J" "awaits j = Some sid" for j
    using S(7) [OF that] gone that by (metis not_None_eq)
  show ?thesis unfolding session_ok_def
  proof (intro conjI allI ballI impI)
    show "enAttached e'" if "gget (mgSessions m') sid = Some e'" "0 < tokens sid J lg lost \<or> Pump sid \<in># J \<or> ssState e' = StateConnected" for e'
      using new [OF that(1)] S(4) that(2) by auto
    show "closed e'" if "gget (mgSessions m') sid = Some e'" "0 < cnt closeOf sid J" "\<not> enAttached e' \<or> Handle sid \<in># J" for e'
      using new [OF that(1)] S(6) that(2,3) by auto
    assume o: "0 < cnt openOf sid J"
    then show "cnt closeOf sid J = 0" using S(5) by simp
    obtain e' where "gget (mgSessions m') sid = Some e'" using open_awaits [OF o] present by blast
    then show "\<exists>e. gget (mgSessions m') sid = Some e \<and> ssState e = StatePending" using new S(5) [OF o] by fastforce
  qed (use S(1-3) c present in auto)
qed

lemma session_ok_same:
  assumes "session_ok m J lg lost used sid" "gget (mgSessions m') sid = gget (mgSessions m) sid"
  shows "session_ok m' J lg lost used sid"
  using assms(1) connected_cong [OF assms(2)] unfolding session_ok_def assms(2) by simp

section \<open>The environment\<close>

abbreviation world_ok :: "execWorld \<Rightarrow> bool" where
  "world_ok w \<equiv> exec_ok (xwManager w) (mset (jobs w)) (xwLog w) (xwLost w) (xwUsed w)"

lemma exec_ok_spawn:
  assumes "exec_ok m J lg lost used" "\<forall>j \<in># K. job_wf j \<and> \<not> counted j \<and> (\<forall>sid. neutral sid j)"
  shows "exec_ok m (J + K) lg lost used"
proof -
  have "filter_mset counted K = {#}" using assms(2) by simp
  then show ?thesis using assms session_ok_spawn [of m J lg lost used _ K] unfolding exec_ok_def by (intro conjI allI) auto
qed

lemma neutral_calls: "\<forall>j \<in># mset (map (\<lambda>x. CallEnd (g x) (h x) (k x)) xs). (\<forall>x \<in> set xs. h x \<noteq> []) \<longrightarrow> job_wf j \<and> \<not> counted j \<and> (\<forall>sid. neutral sid j)"
  by (auto simp: neutral_def)

lemma exec_ok_manager:
  assumes "exec_ok m J lg lost used" "gwf (mgSessions m')" "mgEndWrites m' = mgEndWrites m"
    and "\<And>sid e'. gget (mgSessions m') sid = Some e' \<Longrightarrow>
      \<exists>e. gget (mgSessions m) sid = Some e \<and> ssID e' = ssID e \<and> enAttached e' = enAttached e \<and> ssState e' = ssState e \<and> (closed e \<longrightarrow> closed e')"
    and "\<And>sid e. gget (mgSessions m) sid = Some e \<Longrightarrow> gget (mgSessions m') sid = None \<Longrightarrow> ssState e = StateEnded \<and> (\<forall>j \<in># J. awaits j \<noteq> Some sid)"
  shows "exec_ok m' J lg lost used"
proof -
  have ok: "keyed_sessions m used" "\<And>sid. session_ok m J lg lost used sid" using assms(1) by (simp_all add: exec_ok_def)
  have "session_ok m' J lg lost used sid" for sid
    by (rule session_ok_manager [OF ok(2)]) (use assms(4,5) in blast)+
  moreover have "keyed_sessions m' used" unfolding keyed_sessions_def
  proof (intro conjI allI impI assms(2))
    fix sid e' assume "gget (mgSessions m') sid = Some e'"
    then obtain e where "gget (mgSessions m) sid = Some e" "ssID e' = ssID e" using assms(4) by blast
    then show "ssID e' = sid" "sid \<in> used" using ok(1) by (auto simp: keyed_sessions_def)
  qed
  ultimately show ?thesis using assms(1,3) by (simp add: exec_ok_def)
qed

lemma exec_ok_touch:
  assumes "exec_ok m J lg lost used" "gget (mgSessions m) sid = Some e" "m' = m\<lparr>mgSessions := gset (mgSessions m) sid e'\<rparr>"
    and "ssID e' = ssID e" "enAttached e' = enAttached e" "ssState e' = ssState e" "ssReason e' = ssReason e"
  shows "exec_ok m' J lg lost used"
  using assms(2-) assms(1) by (intro exec_ok_manager [OF assms(1)]) (auto simp: exec_ok_def keyed_sessions_def closed_def split: if_splits)

lemma exec_ok_create:
  assumes "exec_ok m J lg lost used" "sid \<notin> used" "CreateSession L now sid i client target transport m = (Inr e, m')"
  shows "exec_ok m' J lg lost (insert sid used)"
proof -
  have ok: "keyed_sessions m used" "\<And>sid. session_ok m J lg lost used sid" using assms(1) by (simp_all add: exec_ok_def)
  have e: "e = newEntry sid now i client target transport" and m': "m' = m\<lparr>mgSessions := gset (mgSessions m) sid e\<rparr>"
    using assms(3) by (auto simp: CreateSession_def Let_def split: if_splits)
  have "gget (mgSessions m) sid = None" using ok(1) assms(2) by (metis keyed_sessions_def not_None_eq)
  moreover have S: "tokens sid J lg lost = 0" "cnt closeOf sid J = 0" using session_okD(3) [OF ok(2), of sid] assms(2) by (metis gr0I)+
  moreover have "cnt openOf sid J = 0" by (rule one_handler(3) [OF ok(2) S(1)])
  moreover have "Pump sid \<notin># J" using S(2) cnt_pos [of closeOf sid J] by auto
  ultimately have "session_ok m' J lg lost (insert sid used) sid"
    using ok(2) [of sid] by (auto simp: session_ok_def m' e newEntry_def connected_def)
  moreover have "session_ok m' J lg lost (insert sid used) sid'" if "sid' \<noteq> sid" for sid'
    by (rule session_ok_used [OF session_ok_manager [OF ok(2)]]) (use that in \<open>auto simp: m'\<close>)
  moreover have "keyed_sessions m' (insert sid used)" using ok(1) by (auto simp: keyed_sessions_def m' e newEntry_def split: if_splits)
  moreover have "mgEndWrites m' = mgEndWrites m" by (simp add: m')
  ultimately show ?thesis using assms(1) unfolding exec_ok_def by metis
qed

lemma exec_ok_attach:
  assumes "exec_ok m J lg lost used" "AttachSession sid i m = (None, m')"
  shows "exec_ok m' (add_mset (Handle sid) J) lg lost used"
proof -
  have ok: "keyed_sessions m used" "\<And>sid. session_ok m J lg lost used sid" using assms(1) by (simp_all add: exec_ok_def)
  obtain e where e: "gget (mgSessions m) sid = Some e" "\<not> enAttached e"
    and m': "m' = m\<lparr>mgSessions := gset (mgSessions m) sid (e\<lparr>enAttached := True, enCancelled := False\<rparr>)\<rparr>"
    using assms(2) by (auto simp: AttachSession_def split: option.splits if_splits)
  note S = session_okD [OF ok(2) [of sid]]
  have t: "tokens sid J lg lost = 0" "Pump sid \<notin># J" "ssState e \<noteq> StateConnected" using S(4) [OF e(1)] e(2) by (metis gr0I)+
  have "cnt openOf sid J = 0" by (rule one_handler(3) [OF ok(2) t(1)])
  moreover have "tokens sid (add_mset (Handle sid) J) lg lost = 1" using t(1) by (simp add: tokens_def)
  moreover have "connected sid m' = connected sid m" using e(1) t(3) by (simp add: connected_def m')
  moreover have "sid \<in> used" using ok(1) e(1) by (simp add: keyed_sessions_def)
  moreover have "closed e" if "0 < cnt closeOf sid J" using S(6) [OF e(1) that] e(2) by simp
  ultimately have "session_ok m' (add_mset (Handle sid) J) lg lost used sid"
    unfolding session_ok_def using S(1) by (intro conjI allI impI ballI) (auto simp: m' closed_def)
  moreover have "session_ok m' (add_mset (Handle sid) J) lg lost used sid'" if "sid' \<noteq> sid" for sid'
  proof -
    have "session_ok m (J + {#Handle sid#}) lg lost used sid'" by (rule session_ok_spawn [OF ok(2)]) (use that in \<open>simp add: neutral_def\<close>)
    moreover have "gget (mgSessions m') sid' = gget (mgSessions m) sid'" using that by (simp add: m')
    ultimately have "session_ok m' (J + {#Handle sid#}) lg lost used sid'" by (rule session_ok_same)
    then show ?thesis by simp
  qed
  moreover have "keyed_sessions m' used" using ok(1) e(1) by (auto simp: keyed_sessions_def m' split: if_splits)
  moreover have "mgEndWrites m' = mgEndWrites m" by (simp add: m')
  moreover have "(\<forall>j \<in># J. job_wf j) \<and> mgEndWrites m = int (size (filter_mset counted J))" using assms(1) by (simp add: exec_ok_def)
  ultimately show ?thesis unfolding exec_ok_def by (intro conjI allI) (metis, simp_all, metis)
qed

lemma overdue_reason: "overdue L now e \<noteq> Some []"
  by (auto simp: overdue_def split: if_splits)

lemma exec_ok_sweep:
  assumes "exec_ok m J lg lost used" "Sweep L now generation authorize m = (endings, m')"
    and "\<And>j sid e. j \<in># J \<Longrightarrow> awaits j = Some sid \<Longrightarrow> gget (mgSessions m) sid = Some e \<Longrightarrow> \<not> stale now e"
  shows "exec_ok m' (J + mset (map (\<lambda>(sid, reason). CallEnd sid reason None) endings)) lg lost used"
proof -
  have wf: "gwf (mgSessions m)" using assms(1) by (simp add: exec_ok_def keyed_sessions_def)
  have m': "mgSessions m' = filter (\<lambda>(k, e). \<not> stale now e) (mgSessions m)" "mgEndWrites m' = mgEndWrites m"
    using assms(2) unfolding Sweep_def Let_def by (simp_all only: prod.inject) force+
  have endings: "\<forall>(sid, reason) \<in> set endings. reason \<noteq> []"
    using assms(2) unfolding Sweep_def Let_def by (auto simp: map_filter_def overdue_reason)
  have g: "gget (mgSessions m') sid = Some e \<longleftrightarrow> gget (mgSessions m) sid = Some e \<and> \<not> stale now e" for sid e
    unfolding m'(1) gget_filter [OF wf] by (auto split: option.split)
  have "exec_ok m' J lg lost used"
  proof (rule exec_ok_manager [OF assms(1) _ m'(2)])
    show "gwf (mgSessions m')" using gwf_filter [OF wf] by (simp add: m'(1))
    fix sid e assume e: "gget (mgSessions m) sid = Some e" "gget (mgSessions m') sid = None"
    then have "stale now e" using g [of sid e] by simp
    then show "ssState e = StateEnded \<and> (\<forall>j \<in># J. awaits j \<noteq> Some sid)" using assms(3) e(1) by (auto simp: stale_def)
  qed (auto simp: g)
  moreover have "\<forall>j \<in># mset (map (\<lambda>(sid, reason). CallEnd sid reason None) endings). job_wf j \<and> \<not> counted j \<and> (\<forall>sid. neutral sid j)"
    using endings by (auto simp: neutral_def)
  ultimately show ?thesis by (rule exec_ok_spawn)
qed

lemma execStep_ok:
  assumes "execStep L w w'" "world_ok w"
  shows "world_ok w'"
  using assms
proof (cases rule: execStep.cases)
  case (Thread ts1 j js ts2 f)
  have "mset (jobs w) = add_mset j (mset (concat ts1) + mset js + mset (concat ts2))" by (simp add: Thread(2) ac_simps)
  then have "exec_ok (xwManager w) (add_mset j (mset (concat ts1) + mset js + mset (concat ts2))) (xwLog w) (xwLost w) (xwUsed w)"
    using assms(2) by simp
  from exec_ok_job [OF this Thread(3)] show ?thesis by (simp add: Thread(1) ac_simps)
next
  case (Created sid now i client target transport e m')
  then show ?thesis using exec_ok_create [OF assms(2) Created(2,3)] by simp
next
  case (Attached sid i m')
  then show ?thesis using exec_ok_attach [OF assms(2) Attached(2)] by simp
next
  case (Refuse now i client target reason)
  then show ?thesis using exec_ok_spawn [OF assms(2), of "{#WriteRecord (Denied now i client target reason)#}"]
    by (simp add: neutral_def Denied_def denial_def)
next
  case (RefuseAttach now sid i client reason rec)
  then show ?thesis using exec_ok_spawn [OF assms(2), of "{#WriteRecord rec#}"]
    by (auto simp: neutral_def DeniedAttach_def denial_def)
next
  case (Typed now sid n)
  then show ?thesis using assms(2) by (auto simp: Input_def split: option.split intro: exec_ok_touch)
next
  case (Printed sid n)
  then show ?thesis using assms(2) by (auto simp: Output_def split: option.split intro: exec_ok_touch)
next
  case (Stop reason sid byID)
  then show ?thesis using exec_ok_spawn [OF assms(2), of "{#CallEnd sid reason byID#}"] by (simp add: neutral_def)
next
  case (Swept now generation authorize endings m')
  have "exec_ok m' (mset (jobs w) + mset (map (\<lambda>(sid, reason). CallEnd sid reason None) endings)) (xwLog w) (xwLost w) (xwUsed w)"
    by (rule exec_ok_sweep [OF assms(2) Swept(3)]) (use Swept(2) in \<open>auto simp: timely_def\<close>)
  then show ?thesis by (simp add: Swept(1))
next
  case Shutdown
  have "\<forall>j \<in># mset (map (\<lambda>s. CallEnd (ssID s) ''shutdown'' None) (ListSessions (xwManager w))). job_wf j \<and> \<not> counted j \<and> (\<forall>sid. neutral sid j)"
    by (auto simp: neutral_def)
  from exec_ok_spawn [OF assms(2) this] show ?thesis by (simp add: Shutdown)
qed

lemma execRun_ok: "execRun L w \<Longrightarrow> world_ok w"
proof (induction rule: execRun.induct)
  case (start g)
  then show ?case
    by (simp add: exec_ok_def NewManager_def keyed_sessions_def session_ok_def tokens_def connected_def)
qed (rule execStep_ok)

text \<open>
  C5. Whatever sessions are opened, attached, ended, swept and shut down at once, and whichever audit writes fail or land late, a
  session's start is recorded at most once, a shell runs only once its start is recorded, and every recorded start is answered by exactly
  one end record: written, lost to the audit log, or still owed by a shell that runs or a goroutine that will write it.
\<close>

theorem audit_pairs_starts_and_ends:
  assumes "execRun L w"
  shows "starts sid (xwLog w) \<le> 1 \<and>
    starts sid (xwLog w) = connected sid (xwManager w) + cnt dueOf sid (mset (jobs w)) + ends sid (xwLog w) + ends sid (xwLost w) \<and>
    (connected sid (xwManager w) = 1 \<longrightarrow> starts sid (xwLog w) = 1 \<and> ends sid (xwLog w) = 0)"
proof -
  have ok: "session_ok (xwManager w) (mset (jobs w)) (xwLog w) (xwLost w) (xwUsed w) sid" using execRun_ok [OF assms] by (simp add: exec_ok_def)
  have "starts sid (xwLog w) \<le> 1" using session_okD(2) [OF ok] by (simp add: tokens_def)
  then show ?thesis using session_okD(1) [OF ok] by (intro conjI impI) linarith+
qed

section \<open>Shutting down\<close>

definition givenUp :: "string \<Rightarrow> execJob multiset \<Rightarrow> nat" where
  "givenUp sid J = size (filter_mset (\<lambda>j. \<exists>rec. j = LateLand rec \<and> isEnd sid rec) J)"

lemma due_settled:
  assumes "session_ok m J lg lost used sid" "\<not> settling m" "\<forall>j \<in># J. \<not> counted j"
  shows "connected sid m = 0" "cnt dueOf sid J = givenUp sid J"
proof -
  note S = session_okD [OF assms(1)]
  have live: "\<not> (enAttached e \<and> alive e)" if "gget (mgSessions m) sid = Some e" for e
    using assms(2) map_of_SomeD [OF that] by (auto simp: settling_def list_ex_iff)
  have "ssState e \<noteq> StateConnected" if "gget (mgSessions m) sid = Some e" for e
    using live [OF that] S(4) [OF that] by (auto simp: alive_def)
  then show "connected sid m = 0" by (simp add: connected_def split: option.split)
  have ns: "SettleStart sid now \<notin># J" for now
  proof
    assume "SettleStart sid now \<in># J"
    then have o: "0 < cnt openOf sid J" using cnt_pos [of openOf sid J] by force
    then obtain e where e: "gget (mgSessions m) sid = Some e" "ssState e = StatePending" using S(5) by blast
    have "enAttached e" using S(4) [OF e(1)] one_handler(2) [OF assms(1)] o by simp
    then show False using live [OF e(1)] e(2) by (simp add: alive_def)
  qed
  have "(dueOf j = Some sid) = (\<exists>rec. j = LateLand rec \<and> isEnd sid rec)" if j: "j \<in># J" for j
  proof -
    have "\<not> counted j" using assms(3) j by blast
    moreover have "\<nexists>now. j = SettleStart sid now" using ns j by blast
    ultimately show ?thesis by (cases j) (simp_all add: isEnd_def)
  qed
  then show "cnt dueOf sid J = givenUp sid J" unfolding cnt_def givenUp_def
    by (intro arg_cong [of _ _ size] filter_mset_cong refl)
qed

text \<open>
  C30. When \<open>settling\<close> is false, which is what \<open>Shutdown\<close> waits for unless its context expires first, no session is connected and every start
  in the audit log has its end record written, or failed, or given up at the deadline of its write; the last may still land in the log later, and
  no other end record is still to be written.
\<close>

theorem shutdown_leaves_no_start_unanswered:
  assumes "execRun L w" "\<not> settling (xwManager w)"
  shows "connected sid (xwManager w) = 0 \<and> starts sid (xwLog w) = ends sid (xwLog w) + ends sid (xwLost w) + givenUp sid (mset (jobs w))"
proof -
  have ok: "world_ok w" by (rule execRun_ok [OF assms(1)])
  then have s: "session_ok (xwManager w) (mset (jobs w)) (xwLog w) (xwLost w) (xwUsed w) sid" by (simp add: exec_ok_def)
  have "mgEndWrites (xwManager w) \<le> 0" using assms(2) by (simp add: settling_def)
  then have "size (filter_mset counted (mset (jobs w))) = 0" using ok by (simp add: exec_ok_def)
  then have "\<forall>j \<in># mset (jobs w). \<not> counted j" unfolding size_eq_0_iff_empty filter_mset_eq_mempty_iff by blast
  then show ?thesis using due_settled [OF s assms(2)] session_okD(1) [OF s] by simp
qed

section \<open>Nothing gets stuck\<close>

lemma jobStep_total:
  assumes "\<And>sid now. j = SettleStart sid now \<Longrightarrow> gget (mgSessions m) sid \<noteq> None" "\<And>sid rec. j = LateTake sid rec \<Longrightarrow> gget (mgSessions m) sid \<noteq> None"
  shows "\<exists>f. jobStep m j f"
proof (cases j)
  case (SettleStart sid now)
  then obtain e where "gget (mgSessions m) sid = Some e" using assms(1) by blast
  then have "\<exists>r m'. settleStart 0 now sid m = (Some r, m')" by (simp add: settleStart_def Let_def)
  then obtain r m' where "settleStart 0 now sid m = (Some r, m')" by blast
  then show ?thesis unfolding SettleStart by (blast intro: jobStep.Settled)
next
  case (CallEnd sid reason byID)
  obtain b m' where "EndSession sid reason byID m = (b, m')" by (cases "EndSession sid reason byID m")
  then show ?thesis unfolding CallEnd by (blast intro: jobStep.Ended)
next
  case (CallFinish sid x)
  obtain r m' where "FinishSession 0 0 sid x m = (r, m')" by (cases "FinishSession 0 0 sid x m")
  then show ?thesis unfolding CallFinish by (blast intro: jobStep.Finished)
next
  case (LateTake sid rec)
  then show ?thesis using assms(2) by (blast intro: jobStep.LateTaken)
qed (blast intro: jobStep.intros)+

text \<open>
  No goroutine is ever without a next step: in particular a session whose start record is still being written, or was given up, is
  still there when \<open>Connected\<close> and \<open>abortLate\<close> look it up, so the entry they read is never nil.
\<close>

theorem exec_goroutines_progress:
  assumes "execRun L w" "xwThreads w = ts1 @ (j # js) # ts2"
  shows "\<exists>f. jobStep (xwManager w) j f"
proof -
  have j: "j \<in># mset (jobs w)" using assms(2) by simp
  have "session_ok (xwManager w) (mset (jobs w)) (xwLog w) (xwLost w) (xwUsed w) sid" for sid using execRun_ok [OF assms(1)] by (simp add: exec_ok_def)
  from session_okD(7) [OF this j] show ?thesis by (intro jobStep_total) auto
qed

section \<open>Capacity\<close>

definition liveSet :: "(owner \<Rightarrow> bool) \<Rightarrow> manager \<Rightarrow> string set" where
  "liveSet P m = {sid. \<exists>e. gget (mgSessions m) sid = Some e \<and> alive e \<and> P (ssOwner e)}"

lemma live_length:
  assumes "gwf (mgSessions m)"
  shows "length (filter (\<lambda>(k, e). alive e \<and> P (ssOwner e)) (mgSessions m)) = card (liveSet P m)" "finite (liveSet P m)"
proof -
  let ?xs = "filter (\<lambda>(k, e). alive e \<and> P (ssOwner e)) (mgSessions m)"
  have "liveSet P m = fst ` set ?xs"
  proof (intro set_eqI iffI)
    fix sid assume "sid \<in> liveSet P m"
    then obtain e where e: "gget (mgSessions m) sid = Some e" "alive e" "P (ssOwner e)" unfolding liveSet_def by blast
    have "(sid, e) \<in> set ?xs" using map_of_SomeD [OF e(1)] e(2,3) by simp
    then show "sid \<in> fst ` set ?xs" by (rule image_eqI [rotated]) (rule fst_conv [symmetric])
  next
    fix sid assume "sid \<in> fst ` set ?xs"
    then obtain e where e: "(sid, e) \<in> set (mgSessions m)" "alive e" "P (ssOwner e)" by auto
    have "gget (mgSessions m) sid = Some e" by (rule map_of_is_SomeI [OF assms e(1)])
    then show "sid \<in> liveSet P m" using e(2,3) unfolding liveSet_def by blast
  qed
  moreover have d: "distinct (map fst ?xs)" by (rule gwf_filter [OF assms])
  have "card (set (map fst ?xs)) = length ?xs" unfolding distinct_card [OF d] by (rule length_map)
  ultimately show "length ?xs = card (liveSet P m)" "finite (liveSet P m)" by simp_all
qed

lemma live_mono:
  assumes "\<And>sid e'. gget (mgSessions m') sid = Some e' \<Longrightarrow> alive e' \<Longrightarrow>
      \<exists>e. gget (mgSessions m) sid = Some e \<and> alive e \<and> ssOwner e' = ssOwner e"
  shows "liveSet P m' \<subseteq> liveSet P m"
  using assms by (fastforce simp: liveSet_def)

lemma execStep_live:
  assumes "execStep L w w'" "world_ok w"
  shows "liveSet P (xwManager w') \<subseteq> liveSet P (xwManager w) \<or>
    (\<exists>now sid i client target transport e. CreateSession L now sid i client target transport (xwManager w) = (Inr e, xwManager w'))"
  using assms
proof (cases rule: execStep.cases)
  case (Thread ts1 j js ts2 f)
  have "job_wf j" using assms(2) Thread(2) by (simp add: exec_ok_def)
  note same = jobStep_sessions [OF Thread(3) this, unfolded same_keys_def]
  have "liveSet P (efManager f) \<subseteq> liveSet P (xwManager w)"
  proof (rule live_mono)
    fix sid e' assume g: "gget (mgSessions (efManager f)) sid = Some e'" "alive e'"
    have "rel_option (advances j sid) (gget (mgSessions (xwManager w)) sid) (gget (mgSessions (efManager f)) sid)" using same by blast
    then obtain e where "gget (mgSessions (xwManager w)) sid = Some e" "advances j sid e e'" using rel_optionD(2) [OF _ g(1)] by metis
    then show "\<exists>e. gget (mgSessions (xwManager w)) sid = Some e \<and> alive e \<and> ssOwner e' = ssOwner e"
      using g(2) by (auto simp: advances_def alive_def)
  qed
  then show ?thesis by (simp add: Thread(1))
next
  case (Attached sid i m')
  have "liveSet P m' \<subseteq> liveSet P (xwManager w)"
    by (rule live_mono) (use Attached(2) in \<open>auto simp: AttachSession_def alive_def split: option.splits if_splits\<close>)
  then show ?thesis by (simp add: Attached(1))
next
  case (Typed now sid n)
  have "liveSet P (Input now sid n (xwManager w)) \<subseteq> liveSet P (xwManager w)"
    by (rule live_mono) (auto simp: Input_def alive_def split: option.splits if_splits)
  then show ?thesis by (simp add: Typed)
next
  case (Printed sid n)
  have "liveSet P (Output sid n (xwManager w)) \<subseteq> liveSet P (xwManager w)"
    by (rule live_mono) (auto simp: Output_def alive_def split: option.splits if_splits)
  then show ?thesis by (simp add: Printed)
next
  case (Swept now generation authorize endings m')
  have wf: "gwf (mgSessions (xwManager w))" using assms(2) by (simp add: exec_ok_def keyed_sessions_def)
  have "mgSessions m' = filter (\<lambda>(k, e). \<not> stale now e) (mgSessions (xwManager w))"
    using Swept(3) unfolding Sweep_def Let_def by (simp_all only: prod.inject) force
  then have "liveSet P m' \<subseteq> liveSet P (xwManager w)"
    by (intro live_mono) (auto simp: gget_filter [OF wf] split: option.splits if_splits)
  then show ?thesis by (simp add: Swept(1))
qed auto

lemma create_live:
  assumes "gwf (mgSessions m)" "CreateSession L now sid i client target transport m = (Inr e, m')"
  shows "int (card (liveSet (\<lambda>_. True) m')) \<le> lmMaxSessions L"
    "\<lbrakk>j = Some x; (idSubject x, idProvider x) \<noteq> ([], []); int (card (liveSet (\<lambda>ow. owner_Is ow j) m)) \<le> max 0 (lmMaxPerIdentity L)\<rbrakk> \<Longrightarrow>
      int (card (liveSet (\<lambda>ow. owner_Is ow j) m')) \<le> max 0 (lmMaxPerIdentity L)"
proof -
  have g: "int (mineCount i m) < lmMaxPerIdentity L" "int (liveCount m) < lmMaxSessions L"
    and m': "m' = m\<lparr>mgSessions := gset (mgSessions m) sid (newEntry sid now i client target transport)\<rparr>"
    using assms(2) by (auto simp: CreateSession_def Let_def split: if_splits)
  have sub: "liveSet P m' \<subseteq> (if P (OwnerOf i) then insert sid (liveSet P m) else liveSet P m)" for P
    by (auto simp: liveSet_def m' newEntry_def split: if_splits)
  have card: "int (card (liveSet P m')) \<le> int (card (liveSet P m)) + (if P (OwnerOf i) then 1 else 0)" for P
    using card_mono [OF _ sub [of P]] live_length(2) [OF assms(1), of P] card_insert_le_m1 [of "card (liveSet P m) + 1"]
    by (auto simp: card_insert_if split: if_splits)
  show "int (card (liveSet (\<lambda>_. True) m')) \<le> lmMaxSessions L"
    using card [of "\<lambda>_. True"] g(2) live_length(1) [OF assms(1), of "\<lambda>_. True"] by (simp add: liveCount_def)
  assume x: "j = Some x" "(idSubject x, idProvider x) \<noteq> ([], [])" and le: "int (card (liveSet (\<lambda>ow. owner_Is ow j) m)) \<le> max 0 (lmMaxPerIdentity L)"
  show "int (card (liveSet (\<lambda>ow. owner_Is ow j) m')) \<le> max 0 (lmMaxPerIdentity L)"
  proof (cases "owner_Is (OwnerOf i) j")
    case True
    then have "(\<lambda>ow. owner_Is ow j) = (\<lambda>ow. owner_Is ow i)" using x by (auto simp: owner_Is_def OwnerOf_def split: option.splits)
    then show ?thesis using card [of "\<lambda>ow. owner_Is ow j"] g(1) live_length(1) [OF assms(1), of "\<lambda>ow. owner_Is ow i"] True
      by (simp add: mineCount_def)
  next
    case False
    then show ?thesis using card [of "\<lambda>ow. owner_Is ow j"] le by simp
  qed
qed

text \<open>
  C31. However requests, goroutines and sweeps interleave, there are never more live exec sessions than the configured number, nor more
  of one identity than its share.
\<close>

theorem exec_caps_hold:
  assumes "execRun L w" "(idSubject x, idProvider x) \<noteq> ([], [])"
  shows "int (liveCount (xwManager w)) \<le> max 0 (lmMaxSessions L) \<and> int (mineCount (Some x) (xwManager w)) \<le> max 0 (lmMaxPerIdentity L)"
proof -
  have wf: "gwf (mgSessions (xwManager w))" if "execRun L w" for w using execRun_ok [OF that] by (simp add: exec_ok_def keyed_sessions_def)
  have "int (card (liveSet (\<lambda>_. True) (xwManager w))) \<le> max 0 (lmMaxSessions L) \<and>
    int (card (liveSet (\<lambda>ow. owner_Is ow (Some x)) (xwManager w))) \<le> max 0 (lmMaxPerIdentity L)"
    using assms(1)
  proof (induction rule: execRun.induct)
    case (start g)
    then show ?case by (simp add: liveSet_def NewManager_def)
  next
    case (step w w')
    have mono: "card (liveSet P (xwManager w')) \<le> card (liveSet P (xwManager w))" if "liveSet P (xwManager w') \<subseteq> liveSet P (xwManager w)" for P
      by (rule card_mono [OF live_length(2) [OF wf [OF step(1)]] that])
    show ?case
    proof (cases "\<exists>now sid i client target transport e. CreateSession L now sid i client target transport (xwManager w) = (Inr e, xwManager w')")
      case True
      then obtain now sid i client target transport e where "CreateSession L now sid i client target transport (xwManager w) = (Inr e, xwManager w')" by blast
      from create_live [OF wf [OF step(1)] this] assms(2) step.IH show ?thesis by fastforce
    next
      case False
      then have "liveSet P (xwManager w') \<subseteq> liveSet P (xwManager w)" for P using execStep_live [OF step(2) execRun_ok [OF step(1)]] by blast
      then show ?thesis using mono step.IH by (meson le_trans of_nat_le_iff order.trans)
    qed
  qed
  then show ?thesis using live_length(1) [OF wf [OF assms(1)], of "\<lambda>_. True"]
      live_length(1) [OF wf [OF assms(1)], of "\<lambda>ow. owner_Is ow (Some x)"]
    by (simp add: liveCount_def mineCount_def)
qed

section \<open>A session from start to end\<close>

definition ex_user :: identity where
  "ex_user = \<lparr>idSubject = ''ann'', idDisplayName = ''Ann'', idEmail = [], idGroups = [], idProvider = ''oidc'', idRaw = [], idExpiresAt = None, idClientID = []\<rparr>"

definition ex_target :: execTarget where
  "ex_target = \<lparr>tgTask = ''t'', tgService = ''s'', tgServiceName = ''web'', tgStack = [], tgNode = ''n'', tgContainer = ''c''\<rparr>"

definition ex_limits :: limits where
  "ex_limits = \<lparr>lmMaxSessions = 2, lmMaxPerIdentity = 1, lmIdleTimeout = 100, lmMaxDuration = 100\<rparr>"

definition ex_attached :: entry where
  "ex_attached = (newEntry ''x'' 1 (Some ex_user) ''ip'' ex_target ''local'')\<lparr>enAttached := True, enCancelled := False\<rparr>"

definition ex_connected :: entry where
  "ex_connected = ex_attached\<lparr>ssState := StateConnected, ssConnectedAt := Some 2, enLastInput := 2\<rparr>"

definition ex_exit :: exit where
  "ex_exit = \<lparr>exitCode = 0, exitOutcome = OutcomeExited\<rparr>"

definition ex_start :: auditRecord where "ex_start = record_of 2 ''exec.start'' ex_attached"
definition ex_end :: auditRecord where "ex_end = record_of 3 ''exec.end'' (finished 3 ex_exit ex_connected)"

definition ex_world :: "entry \<Rightarrow> int \<Rightarrow> execJob list \<Rightarrow> nat \<Rightarrow> auditRecord list \<Rightarrow> execWorld" where
  "ex_world e n js k lg = \<lparr>xwManager = \<lparr>mgSessions = [(''x'', e)], mgLastGeneration = 0, mgEndWrites = n\<rparr>,
     xwThreads = js # replicate k [], xwLog = lg, xwLost = [], xwUsed = {''x''}\<rparr>"

lemma ex_thread:
  assumes "execRun L (ex_world e n [j] k lg)"
    and "jobStep \<lparr>mgSessions = [(''x'', e)], mgLastGeneration = 0, mgEndWrites = n\<rparr> j
      \<lparr>efManager = \<lparr>mgSessions = [(''x'', e')], mgLastGeneration = 0, mgEndWrites = n'\<rparr>, efNext = js, efSpawned = [], efLogged = lg', efLost = []\<rparr>"
  shows "execRun L (ex_world e' n' js (Suc k) (lg @ lg'))"
proof -
  define f where "f = \<lparr>efManager = \<lparr>mgSessions = [(''x'', e')], mgLastGeneration = 0, mgEndWrites = n'\<rparr>, efNext = js, efSpawned = [], efLogged = lg', efLost = []\<rparr>"
  have "execStep L (ex_world e n [j] k lg) ((ex_world e n [j] k lg)\<lparr>xwManager := efManager f, xwThreads := [] @ (efNext f @ []) # replicate k [] @ [efSpawned f],
      xwLog := xwLog (ex_world e n [j] k lg) @ efLogged f, xwLost := xwLost (ex_world e n [j] k lg) @ efLost f\<rparr>)"
    by (rule execStep.Thread) (use assms(2) in \<open>simp_all add: ex_world_def f_def\<close>)
  then have "execRun L ((ex_world e n [j] k lg)\<lparr>xwManager := efManager f, xwThreads := [] @ (efNext f @ []) # replicate k [] @ [efSpawned f],
      xwLog := xwLog (ex_world e n [j] k lg) @ efLogged f, xwLost := xwLost (ex_world e n [j] k lg) @ efLost f\<rparr>)"
    by (rule execRun.step [OF assms(1)])
  then show ?thesis by (simp add: ex_world_def f_def replicate_append_same)
qed

lemma ex_run_connected: "execRun ex_limits (ex_world ex_connected 0 [Pump ''x''] 3 [ex_start])"
proof -
  define w0 where "w0 = \<lparr>xwManager = NewManager None, xwThreads = [], xwLog = [], xwLost = [], xwUsed = {}\<rparr>"
  define e where "e = newEntry ''x'' 1 (Some ex_user) ''ip'' ex_target ''local''"
  have r0: "execRun ex_limits w0" unfolding w0_def by (rule start)
  have c: "CreateSession ex_limits 1 ''x'' (Some ex_user) ''ip'' ex_target ''local'' (xwManager w0) =
      (Inr e, \<lparr>mgSessions = [(''x'', e)], mgLastGeneration = 0, mgEndWrites = 0\<rparr>)"
    by (simp add: CreateSession_def w0_def NewManager_def mineCount_def liveCount_def ex_limits_def e_def Let_def)
  have "''x'' \<notin> xwUsed w0" by (simp add: w0_def)
  note r = execRun.step [OF r0 execStep.Created [OF this c]]
  define w1 where "w1 = w0\<lparr>xwManager := \<lparr>mgSessions = [(''x'', e)], mgLastGeneration = 0, mgEndWrites = 0\<rparr>, xwUsed := insert ''x'' (xwUsed w0)\<rparr>"
  have "AttachSession ''x'' (Some ex_user) (xwManager w1) = (None, \<lparr>mgSessions = [(''x'', ex_attached)], mgLastGeneration = 0, mgEndWrites = 0\<rparr>)"
    by (simp add: w1_def AttachSession_def e_def newEntry_def OwnerOf_def owner_Is_def ex_attached_def)
  from execRun.step [OF r [folded w1_def] execStep.Attached [OF this]]
  have 1: "execRun ex_limits (ex_world ex_attached 0 [Handle ''x''] 0 [])" by (simp add: ex_world_def w1_def w0_def)
  have b: "connectBegin 2 ''x'' \<lparr>mgSessions = [(''x'', ex_attached)], mgLastGeneration = 0, mgEndWrites = 0\<rparr> = Inr ex_start"
    by (simp add: connectBegin_def ex_attached_def newEntry_def ex_start_def)
  have 2: "execRun ex_limits (ex_world ex_attached 0 [WriteStart ''x'' 2 ex_start] 1 ([] @ []))"
    using ex_thread [OF 1 Opened [where now = 2]] by (simp add: b)
  have 3: "execRun ex_limits (ex_world ex_attached 0 [SettleStart ''x'' 2] 2 [ex_start])"
    using ex_thread [OF 2, of ex_attached 0 "[SettleStart ''x'' 2]" "[ex_start]"]
      StartWritten [of "\<lparr>mgSessions = [(''x'', ex_attached)], mgLastGeneration = 0, mgEndWrites = 0\<rparr>" "''x''" 2 ex_start]
    by (simp add: numeral_2_eq_2)
  have s: "settleStart 2 2 ''x'' \<lparr>mgSessions = [(''x'', ex_attached)], mgLastGeneration = 0, mgEndWrites = 0\<rparr> =
      (Some Started, \<lparr>mgSessions = [(''x'', ex_connected)], mgLastGeneration = 0, mgEndWrites = 0\<rparr>)"
    by (simp add: settleStart_def ex_attached_def newEntry_def ex_connected_def)
  show ?thesis using ex_thread [OF 3 Settled [OF s, unfolded started.case]] by (simp add: numeral_3_eq_3 numeral_2_eq_2)
qed

theorem audit_pairs_starts_and_ends_witness:
  "starts ''x'' (xwLog (ex_world ex_connected 0 [Pump ''x''] 3 [ex_start])) = 1 \<and> ends ''x'' (xwLog (ex_world ex_connected 0 [Pump ''x''] 3 [ex_start])) = 0"
proof -
  have "connected ''x'' (xwManager (ex_world ex_connected 0 [Pump ''x''] 3 [ex_start])) = 1" by (simp add: ex_world_def ex_connected_def connected_def)
  then show ?thesis using audit_pairs_starts_and_ends [OF ex_run_connected, of "''x''"] by blast
qed

theorem exec_caps_hold_witness:
  "int (liveCount (xwManager (ex_world ex_connected 0 [Pump ''x''] 3 [ex_start]))) \<le> 2 \<and>
   int (mineCount (Some ex_user) (xwManager (ex_world ex_connected 0 [Pump ''x''] 3 [ex_start]))) \<le> 1"
  using exec_caps_hold [OF ex_run_connected, of ex_user] by (simp add: ex_limits_def ex_user_def)

theorem exec_goroutines_progress_witness:
  "\<exists>f. jobStep (xwManager (ex_world ex_connected 0 [Pump ''x''] 3 [ex_start])) (Pump ''x'') f"
  by (rule exec_goroutines_progress [OF ex_run_connected, of "[]" _ "[]" "replicate 3 []"]) (simp add: ex_world_def)

lemma ex_run_ended: "execRun ex_limits (ex_world (finished 3 ex_exit ex_connected) 0 [] 7 [ex_start, ex_end])"
proof -
  let ?m = "\<lambda>e n. \<lparr>mgSessions = [(''x'', e)], mgLastGeneration = 0, mgEndWrites = n\<rparr>"
  let ?e = "finished 3 ex_exit ex_connected"
  have p: "jobStep (?m ex_connected 0) (Pump ''x'') (eff (?m ex_connected 0) [CallFinish ''x'' ex_exit])"
    using Pumped [of _ "''x''" ex_exit] by (simp add: ex_exit_def)
  have 1: "execRun ex_limits (ex_world ex_connected 0 [CallFinish ''x'' ex_exit] 4 ([ex_start] @ []))"
    using ex_thread [OF ex_run_connected p] by simp
  have f: "FinishSession 3 3 ''x'' ex_exit (?m ex_connected 0) = (Some ex_end, ?m ?e 1)"
    by (simp add: FinishSession_def ex_connected_def ex_end_def Let_def)
  have 2: "execRun ex_limits (ex_world ?e 1 [WriteCounted ex_end] 5 (([ex_start] @ []) @ []))"
    using ex_thread [OF 1 Finished [OF f, unfolded option.case]] by simp
  have 3: "execRun ex_limits (ex_world ?e 1 [CountDown] 6 ((([ex_start] @ []) @ []) @ [ex_end]))"
    using ex_thread [OF 2, of ?e 1 "[CountDown]" "[ex_end]"] CountedWritten [of "?m ?e 1" ex_end] by simp
  show ?thesis using ex_thread [OF 3, of ?e 0 "[]" "[]"] Counted [of "?m ?e 1"] by simp
qed

theorem shutdown_leaves_no_start_unanswered_witness:
  "connected ''x'' (xwManager (ex_world (finished 3 ex_exit ex_connected) 0 [] 7 [ex_start, ex_end])) = 0 \<and>
   starts ''x'' [ex_start, ex_end] = ends ''x'' [ex_start, ex_end]"
proof -
  let ?w = "ex_world (finished 3 ex_exit ex_connected) 0 [] 7 [ex_start, ex_end]"
  have "\<not> settling (xwManager ?w)" by (simp add: ex_world_def settling_def finished_def Let_def alive_def ex_exit_def)
  from shutdown_leaves_no_start_unanswered [OF ex_run_ended this, of "''x''"]
  have "connected ''x'' (xwManager ?w) = 0 \<and> starts ''x'' (xwLog ?w) = ends ''x'' (xwLog ?w) + ends ''x'' (xwLost ?w) + givenUp ''x'' (mset (jobs ?w))" .
  moreover have "xwLog ?w = [ex_start, ex_end]" "xwLost ?w = []" "mset (jobs ?w) = {#}" by (simp_all add: ex_world_def)
  ultimately show ?thesis by (simp only: rec_counts(2) givenUp_def filter_empty_mset size_empty add_0_right simp_thms)
qed

end
