(* ===== verification/Timeline_Store.thy ===== *)
theory Timeline_Store
  imports History
begin

text \<open>
  The persisted timeline: the statements \<open>internal/timeline/sqlite.go\<close> runs on its tables, each as the function of the tables it is,
  and the writer of \<open>writer.go\<close> that copies the history ring into them once a second. A row is the entry it was made from without what
  only annotations carry; annotations are a table of IDs and versions here, written beside the ring by \<open>Put\<close> and \<open>Delete\<close>. Whether a
  transaction commits and what the clock says are arguments. Times are nanoseconds.
\<close>

section \<open>The store\<close>

definition ringKind :: "historyEntry \<Rightarrow> bool" where
  "ringKind e \<longleftrightarrow> hKind e = KindChange \<or> hKind e = KindGap"

definition row_of :: "historyEntry \<Rightarrow> historyEntry" where
  "row_of e = zeroEntry\<lparr>hID := hID e, hKind := hKind e, hTimestamp := hTimestamp e, hUntil := hUntil e, hRecoveredFrom := hRecoveredFrom e,
     hType := hType e, hAction := hAction e, hResourceID := hResourceID e, hName := hName e, hActor := hActor e, hService := hService e,
     hStack := hStack e, hServiceID := hServiceID e, hSlot := hSlot e, hNodeID := hNodeID e, hServiceName := hServiceName e,
     hRecovered := hRecovered e, hSummary := hSummary e\<rparr>"

record coverageRow =
  cvID :: nat
  cvStarted :: int
  cvSeen :: int

text \<open>The tables, ordered by ID, with the open coverage row (0 for none) and the count of ring rows the store keeps.\<close>

record timelineStore =
  stRows :: "historyEntry list"
  stVersions :: "(nat, nat) kvs"
  stLast :: nat
  stCoverage :: "coverageRow list"
  stOpen :: nat
  stStored :: int
  stInstance :: string

record batch =
  btEntries :: "historyEntry list"
  btSeenAt :: int
  btLast :: nat
  btKeep :: int

definition insertRow :: "historyEntry \<Rightarrow> historyEntry list \<times> int \<Rightarrow> historyEntry list \<times> int" where
  "insertRow e s = (case s of (rows, inserted) \<Rightarrow>
     if hID e \<in> hID ` set rows then (rows, inserted)
     else (insort_key hID (row_of e) rows, if ringKind e then inserted + 1 else inserted))"

definition insertRows :: "historyEntry list \<Rightarrow> historyEntry list \<Rightarrow> historyEntry list \<times> int" where
  "insertRows entries rows = fold insertRow entries (rows, 0)"

definition maxOr0 :: "nat list \<Rightarrow> nat" where
  "maxOr0 xs = fold max xs 0"

definition heartbeated :: "coverageRow \<Rightarrow> bool" where
  "heartbeated c \<longleftrightarrow> cvSeen c > cvStarted c"

definition pruneCoverage :: "historyEntry list \<Rightarrow> coverageRow list \<Rightarrow> coverageRow list" where
  "pruneCoverage rows cs = filter (\<lambda>c. \<not> ((case filter ringKind rows of [] \<Rightarrow> False | rs \<Rightarrow> cvSeen c < Min (hTimestamp ` set rs)) \<and>
     cvID c < maxOr0 (map cvID cs) \<and> \<not> (filter heartbeated cs \<noteq> [] \<and> cvID c = maxOr0 (map cvID (filter heartbeated cs))))) cs"

definition CommitBatch :: "batch \<Rightarrow> timelineStore \<Rightarrow> timelineStore" where
  "CommitBatch b st = (case insertRows (btEntries b) (stRows st) of (rows, inserted) \<Rightarrow> let
      stored = stStored st + inserted;
      newest = (if btLast b > 0 then max (stLast st) (btLast b) else stLast st);
      coverage = (if stOpen st \<noteq> 0 \<and> btSeenAt b \<noteq> 0
        then map (\<lambda>c. if cvID c = stOpen st then c\<lparr>cvSeen := max (btSeenAt b) (cvStarted c + 1)\<rparr> else c) (stCoverage st) else stCoverage st)
    in if btKeep b \<le> 0 then st\<lparr>stRows := rows, stLast := newest, stCoverage := coverage, stStored := stored\<rparr>
       else (let
          excess = stored - btKeep b;
          doomed = set (map hID (take (nat excess) (filter ringKind rows)));
          rows' = (if excess > 0 then filter (\<lambda>e. hID e \<notin> doomed) rows else rows);
          stored' = (if excess > 0 then stored - int (length rows - length rows') else stored)
        in st\<lparr>stRows := rows', stLast := newest, stCoverage := pruneCoverage rows' coverage, stStored := stored'\<rparr>))"

definition RestoreRows :: "nat \<Rightarrow> timelineStore \<Rightarrow> historyEntry list \<times> nat" where
  "RestoreRows limit st = (lastn limit (filter ringKind (stRows st)),
     max (max (maxOr0 (map hID (stRows st))) (maxOr0 (map snd (stVersions st)))) (stLast st))"

definition LastSeen :: "timelineStore \<Rightarrow> int option" where
  "LastSeen st = (case sort_key (\<lambda>c. (\<not> heartbeated c, - int (cvID c))) (stCoverage st) of [] \<Rightarrow> None | c # _ \<Rightarrow> Some (cvSeen c))"

definition OpenCoverage :: "int \<Rightarrow> timelineStore \<Rightarrow> timelineStore" where
  "OpenCoverage now st = (let i = maxOr0 (map cvID (stCoverage st)) + 1 in
     st\<lparr>stCoverage := stCoverage st @ [\<lparr>cvID = i, cvStarted = now, cvSeen = now\<rparr>], stOpen := i\<rparr>)"

definition PutAnnotation :: "nat \<Rightarrow> nat \<Rightarrow> timelineStore \<Rightarrow> timelineStore" where
  "PutAnnotation i version st = st\<lparr>stVersions := gset (stVersions st) i version\<rparr>"

definition DeleteAnnotationRow :: "nat \<Rightarrow> timelineStore \<Rightarrow> timelineStore" where
  "DeleteAnnotationRow i st = st\<lparr>stVersions := gdel (stVersions st) i\<rparr>"

section \<open>The writer\<close>

definition quietHeartbeat :: int where "quietHeartbeat = 15 * 10 ^ 9"

record timelineWriter =
  twKeep :: int
  twLastWritten :: nat
  twRetained :: bool
  twHeartbeat :: int
  twReady :: bool
  twGapChecked :: bool
  twCovering :: bool
  twSeenAt :: int

definition NewWriter :: "history \<Rightarrow> int \<Rightarrow> timelineWriter" where
  "NewWriter h keep = \<lparr>twKeep = keep, twLastWritten = hsCount h, twRetained = False, twHeartbeat = 0, twReady = False, twGapChecked = False,
     twCovering = False, twSeenAt = 0\<rparr>"

text \<open>
  \<open>recordGapLocked\<close>: the gap it records, if any, from when to when the stream began; \<open>fails\<close> when the store cannot answer \<open>LastSeen\<close>.
  The clock is read twice, before and after recording.
\<close>

definition recordGapLocked :: "int \<Rightarrow> int \<Rightarrow> bool \<Rightarrow> int \<Rightarrow> timelineStore \<Rightarrow> timelineWriter \<Rightarrow> (int \<times> int) option \<times> timelineWriter" where
  "recordGapLocked now later fails streamSince st w =
     (if twSeenAt w = 0 \<and> fails then (None, w)
      else (let previous = (if twSeenAt w \<noteq> 0 then Some (twSeenAt w) else LastSeen st) in
        (case previous of Some p \<Rightarrow> if p < now then Some (p, streamSince) else None | None \<Rightarrow> None,
         w\<lparr>twGapChecked := True, twSeenAt := later\<rparr>)))"

definition RecordGapWriter :: "int \<Rightarrow> int \<Rightarrow> bool \<Rightarrow> int \<Rightarrow> timelineStore \<Rightarrow> timelineWriter \<Rightarrow> (int \<times> int) option \<times> timelineWriter" where
  "RecordGapWriter now later fails streamSince st w = recordGapLocked now later fails streamSince st (w\<lparr>twCovering := False\<rparr>)"

definition openCoverage ::
  "int \<Rightarrow> int \<Rightarrow> int \<Rightarrow> bool \<Rightarrow> bool \<Rightarrow> timelineStore \<times> timelineWriter \<Rightarrow> (int \<times> int) option \<times> timelineStore \<times> timelineWriter" where
  "openCoverage now later openedAt seenFails openFails s = (case s of (st, w) \<Rightarrow>
     (case (if \<not> twGapChecked w then recordGapLocked now later seenFails 0 st w else (None, w)) of (gap, w1) \<Rightarrow>
        if \<not> twGapChecked w1 then (gap, st, w1)
        else if openFails then (gap, st\<lparr>stOpen := 0\<rparr>, w1)
        else (gap, OpenCoverage openedAt st, w1\<lparr>twCovering := True, twSeenAt := openedAt\<rparr>)))"

definition flushBatch :: "int \<Rightarrow> bool \<Rightarrow> history \<Rightarrow> timelineWriter \<Rightarrow> batch \<times> nat" where
  "flushBatch now watched h w = (let
      entries = fst (Since (twLastWritten w) h);
      newest = (if entries \<noteq> [] then hID (last entries) else twLastWritten w);
      kept = filter (\<lambda>e. hKind e \<noteq> KindAnnotation) entries;
      lastID = (if newest > twLastWritten w then newest else 0);
      seen = (if twCovering w \<and> watched \<and> (lastID > 0 \<or> now - twHeartbeat w \<ge> quietHeartbeat) then now else 0)
    in (\<lparr>btEntries = kept, btSeenAt = seen, btLast = lastID, btKeep = (if kept \<noteq> [] \<or> \<not> twRetained w then twKeep w else 0)\<rparr>, newest))"

definition flush :: "int \<Rightarrow> bool \<Rightarrow> bool \<Rightarrow> history \<Rightarrow> timelineStore \<times> timelineWriter \<Rightarrow> timelineStore \<times> timelineWriter" where
  "flush now watched fails h s = (case s of (st, w) \<Rightarrow> (case flushBatch now watched h w of (b, newest) \<Rightarrow>
     if btEntries b = [] \<and> btSeenAt b = 0 \<and> btKeep b = 0 \<and> btLast b = 0 then (st, w\<lparr>twLastWritten := newest\<rparr>)
     else if fails then (st, w)
     else (CommitBatch b st, w\<lparr>twRetained := True, twLastWritten := newest,
        twHeartbeat := (if btSeenAt b \<noteq> 0 then btSeenAt b else twHeartbeat w),
        twSeenAt := (if twCovering w \<and> btSeenAt b > twSeenAt w then btSeenAt b else twSeenAt w)\<rparr>)))"

text \<open>\<open>Run\<close>: watching began, a tick, and the final write of a clean stop. The gap an opening records reaches the ring.\<close>

definition onReady ::
  "int \<Rightarrow> int \<Rightarrow> int \<Rightarrow> bool \<Rightarrow> bool \<Rightarrow> timelineStore \<times> timelineWriter \<Rightarrow> (int \<times> int) option \<times> timelineStore \<times> timelineWriter" where
  "onReady now later openedAt seenFails openFails s = (case s of (st, w) \<Rightarrow> openCoverage now later openedAt seenFails openFails (st, w\<lparr>twReady := True\<rparr>))"

definition onTick ::
  "int \<Rightarrow> int \<Rightarrow> int \<Rightarrow> bool \<Rightarrow> bool \<Rightarrow> timelineStore \<times> timelineWriter \<Rightarrow> (int \<times> int) option \<times> timelineStore \<times> timelineWriter" where
  "onTick now later openedAt seenFails openFails s = (if twReady (snd s) \<and> \<not> twCovering (snd s) then openCoverage now later openedAt seenFails openFails s else (None, s))"

definition onStop :: "int \<Rightarrow> bool \<Rightarrow> bool \<Rightarrow> history \<Rightarrow> timelineStore \<times> timelineWriter \<Rightarrow> timelineStore \<times> timelineWriter" where
  "onStop now watched fails h s = flush now watched fails h (fst s, (snd s)\<lparr>twHeartbeat := 0\<rparr>)"

text \<open>
  \<open>restoreTimeline\<close> of \<open>main.go\<close>: the history of a new process, and the store with every ID up to its count reserved, unless the commit of
  that reservation \<open>fails\<close>: the process then goes on with the store as it was. When the database cannot be opened, read back or its annotations
  read (\<open>opens\<close>), there is no store: the history then lives in memory under an instance of its own.
\<close>

definition restoreTimeline :: "bool \<Rightarrow> bool \<Rightarrow> nat \<Rightarrow> nat \<Rightarrow> string \<Rightarrow> timelineStore \<Rightarrow> history \<times> timelineStore option" where
  "restoreTimeline opens fails keep sz inst st = (if \<not> opens then (NewHistory inst sz, None)
     else (case RestoreRows keep st of (entries, newest) \<Rightarrow>
       let h = RestoreHistory entries newest (stInstance st) (NewHistory inst sz)
       in (h, Some (if fails then st else CommitBatch \<lparr>btEntries = [], btSeenAt = 0, btLast = hsCount h, btKeep = 0\<rparr> st))))"

section \<open>What a commit does to the rows\<close>

lemma lastn_map: "lastn n (map f xs) = map f (lastn n xs)"
  by (simp add: lastn_def drop_map)

lemma lastn_rev: "lastn n xs = rev (take n (rev xs))"
  by (simp add: rev_take_lastn [symmetric])

lemma lastn_append_lastn: "lastn n (lastn m xs @ ys) = lastn (min n (m + length ys)) (xs @ ys)"
  by (auto simp: lastn_rev min_def)

lemma lastn_lastn: "lastn m (lastn n xs) = lastn (min m n) xs"
  by (simp add: lastn_rev)

lemma last_lastn: "xs \<noteq> [] \<Longrightarrow> 0 < n \<Longrightarrow> lastn n xs \<noteq> [] \<and> last (lastn n xs) = last xs"
  by (simp add: lastn_def not_le diff_less)

lemma last_filter_last: "xs \<noteq> [] \<Longrightarrow> P (last xs) \<Longrightarrow> filter P xs \<noteq> [] \<and> last (filter P xs) = last xs"
  by (induction xs) (auto split: if_splits)

lemma row_of_simps [simp]: "hID (row_of e) = hID e" "hKind (row_of e) = hKind e" "ringKind (row_of e) = ringKind e" "row_of (row_of e) = row_of e"
  "gap_clean (row_of e) = gap_clean e"
  by (simp_all add: row_of_def ringKind_def gap_clean_def)

definition rows_ok :: "historyEntry list \<Rightarrow> bool" where
  "rows_ok rows \<longleftrightarrow> sorted_wrt (<) (map hID rows) \<and> (\<forall>e \<in> set rows. ringKind e \<and> 0 < hID e \<and> gap_clean e)"

lemma insort_last: "\<forall>r \<in> set rows. f r < f e \<Longrightarrow> insort_key f e rows = rows @ [e]" for f :: "'a \<Rightarrow> nat"
  by (induction rows) auto

lemma insertRows_fresh:
  assumes "sorted_wrt (<) (map hID entries)" "\<forall>e \<in> set entries. ringKind e \<and> (\<forall>r \<in> set rows. hID r < hID e)"
  shows "fold insertRow entries (rows, n) = (rows @ map row_of entries, n + int (length entries))"
  using assms
proof (induction entries arbitrary: rows n)
  case (Cons e es)
  have "insort_key hID (row_of e) rows = rows @ [row_of e]" using Cons.prems(2) by (intro insort_last) simp
  then have "insertRow e (rows, n) = (rows @ [row_of e], n + 1)" using Cons.prems(2) by (auto simp: insertRow_def)
  moreover have "fold insertRow es (rows @ [row_of e], n + 1) = ((rows @ [row_of e]) @ map row_of es, n + 1 + int (length es))"
    by (rule Cons.IH) (use Cons.prems in auto)
  ultimately show ?case by simp
qed simp

lemma sorted_filter_doomed:
  fixes f :: "'a \<Rightarrow> nat"
  assumes "sorted_wrt (<) (map f xs)"
  shows "filter (\<lambda>x. f x \<notin> set (map f (take n xs))) xs = drop n xs"
proof -
  have "sorted_wrt (<) (map f (take n xs) @ map f (drop n xs))" using assms by (metis append_take_drop_id map_append)
  then have "\<forall>y \<in> set (map f (take n xs)). \<forall>x \<in> set (drop n xs). y < f x" by (simp add: sorted_wrt_append)
  then have "\<forall>x \<in> set (drop n xs). f x \<notin> set (map f (take n xs))" by (metis less_irrefl)
  then have "filter (\<lambda>x. f x \<notin> set (map f (take n xs))) (take n xs @ drop n xs) = drop n xs"
    unfolding filter_append by (auto simp: filter_empty_conv filter_id_conv)
  then show ?thesis by simp
qed

lemma CommitBatch_rows:
  assumes "rows_ok (stRows st)" "stStored st = int (length (stRows st))" "0 < keep"
    and "sorted_wrt (<) (map hID (btEntries b))" "\<forall>e \<in> set (btEntries b). ringKind e \<and> gap_clean e \<and> 0 < hID e \<and> (\<forall>r \<in> set (stRows st). hID r < hID e)"
    and "btKeep b = int keep \<or> btKeep b = 0 \<and> btEntries b = []"
  shows "stRows (CommitBatch b st) = (if btKeep b = 0 then stRows st else lastn keep (stRows st @ map row_of (btEntries b)))"
    "stStored (CommitBatch b st) = int (length (stRows (CommitBatch b st)))" "rows_ok (stRows (CommitBatch b st))"
    "stLast (CommitBatch b st) = (if btLast b > 0 then max (stLast st) (btLast b) else stLast st)" "stVersions (CommitBatch b st) = stVersions st"
proof -
  define all where "all = stRows st @ map row_of (btEntries b)"
  have ins: "insertRows (btEntries b) (stRows st) = (all, int (length (btEntries b)))"
    using insertRows_fresh [OF assms(4)] assms(5) by (simp add: insertRows_def all_def)
  have ok: "rows_ok all" using assms(1,4,5) by (auto simp: rows_ok_def all_def sorted_wrt_append comp_def)
  then have "filter ringKind all = all" "sorted_wrt (<) (map hID all)" by (simp_all add: rows_ok_def filter_id_conv)
  note doom = this(1) sorted_filter_doomed [OF this(2)]
  have stored: "stStored st + int (length (btEntries b)) = int (length all)" using assms(2) by (simp add: all_def)
  have D: "stRows (CommitBatch b st) = (if btKeep b = 0 then stRows st else lastn keep all) \<and>
      stStored (CommitBatch b st) = int (length (if btKeep b = 0 then stRows st else lastn keep all))"
  proof (cases "btKeep b = 0")
    case True
    then have "all = stRows st" "btEntries b = []" using assms(3,6) by (auto simp: all_def)
    then show ?thesis using True ins stored by (simp add: CommitBatch_def Let_def)
  next
    case False
    then have k: "btKeep b = int keep" using assms(6) by auto
    show ?thesis
    proof (cases "keep < length all")
      case True
      have n: "nat (int (length all) - int keep) = length all - keep" by linarith
      have d: "filter (\<lambda>e. hID e \<notin> hID ` set (take (nat (int (length all) - int keep)) all)) all = lastn keep all"
        unfolding n using doom(2) [of "length all - keep"] by (simp add: lastn_def)
      have "stRows (CommitBatch b st) = lastn keep all \<and> stStored (CommitBatch b st) = int (length all) - int (length all - length (lastn keep all))"
        using True False assms(3) by (simp add: CommitBatch_def ins Let_def stored k doom(1) d)
      then show ?thesis using True False by (simp add: length_lastn)
    next
      case short: False
      then show ?thesis using False assms(3) by (simp add: CommitBatch_def ins Let_def stored k lastn_short)
    qed
  qed
  then show "stRows (CommitBatch b st) = (if btKeep b = 0 then stRows st else lastn keep (stRows st @ map row_of (btEntries b)))"
    "stStored (CommitBatch b st) = int (length (stRows (CommitBatch b st)))" by (simp_all add: all_def)
  have "rows_ok (lastn keep all)" using ok unfolding rows_ok_def
    by (auto simp: lastn_def drop_map [symmetric] sorted_wrt_drop dest: in_set_dropD)
  then show "rows_ok (stRows (CommitBatch b st))" using D assms(1) by (cases "btKeep b = 0") simp_all
  show "stLast (CommitBatch b st) = (if btLast b > 0 then max (stLast st) (btLast b) else stLast st)" "stVersions (CommitBatch b st) = stVersions st"
    by (simp_all add: CommitBatch_def Let_def ins)
qed

section \<open>The writer over the lives of its process\<close>

text \<open>
  The store, the process if one runs, everything the database's history was ever given, in every life, and whether the writer has kept up so far:
  it lost nothing to a ring that overran it, nor to a crash. Every life has its own number of rows to keep (\<open>tlKeeps\<close>, newest first) and its own
  ring. \<open>tlNamed\<close> is the newest ID a commit that succeeded has named, at a start that of the reservation; \<open>tlSafe\<close> says that at no start the
  IDs already handed out lay further beyond \<open>tlNamed\<close> than the new ring has slots. A life without a store leaves the database as it was.
\<close>

record timelineWorld =
  tlStore :: timelineStore
  tlProc :: "(timelineWriter \<times> history) option"
  tlIssued :: "historyEntry list"
  tlWhole :: bool
  tlKeeps :: "nat list"
  tlNamed :: nat
  tlSafe :: bool

definition recordable :: "historyEntry \<Rightarrow> bool" where
  "recordable e \<longleftrightarrow> gap_clean e \<and> (hKind e = [] \<or> ringKind e \<or> hKind e = KindAnnotation)"

definition unwritten :: "timelineWriter \<Rightarrow> timelineWorld \<Rightarrow> historyEntry list" where
  "unwritten w t = filter (\<lambda>e. ringKind e \<and> twLastWritten w < hID e) (tlIssued t)"

definition named :: "timelineWriter \<Rightarrow> timelineWriter \<Rightarrow> nat \<Rightarrow> nat" where
  "named w w' n = (if twLastWritten w < twLastWritten w' then twLastWritten w' else n)"

inductive timelineStep :: "timelineWorld \<Rightarrow> timelineWorld \<Rightarrow> bool" where
  Recorded: "tlProc t = Some (w, h) \<Longrightarrow> recordable e \<Longrightarrow>
    timelineStep t (t\<lparr>tlProc := Some (w, snd (Append now e h)), tlIssued := tlIssued t @ [appended now e h]\<rparr>)"
| Noted: "tlProc t \<noteq> None \<Longrightarrow> timelineStep t (t\<lparr>tlStore := PutAnnotation i version (tlStore t)\<rparr>)"
| Unnoted: "tlProc t \<noteq> None \<Longrightarrow> timelineStep t (t\<lparr>tlStore := DeleteAnnotationRow i (tlStore t)\<rparr>)"
| Flushed: "tlProc t = Some (w, h) \<Longrightarrow> flush now watched fails h (tlStore t, w) = (st, w') \<Longrightarrow>
    timelineStep t (t\<lparr>tlStore := st, tlProc := Some (w', h), tlWhole := tlWhole t \<and> snd (Since (twLastWritten w) h), tlNamed := named w w' (tlNamed t)\<rparr>)"
| Stopping: "tlProc t = Some (w, h) \<Longrightarrow> onStop now watched fails h (tlStore t, w) = (st, w') \<Longrightarrow>
    timelineStep t (t\<lparr>tlStore := st, tlProc := Some (w', h), tlWhole := tlWhole t \<and> snd (Since (twLastWritten w) h), tlNamed := named w w' (tlNamed t)\<rparr>)"
| Ready: "tlProc t = Some (w, h) \<Longrightarrow> onReady now later openedAt seenFails openFails (tlStore t, w) = (gap, st, w') \<Longrightarrow>
    timelineStep t (t\<lparr>tlStore := st, tlProc := Some (w', h)\<rparr>)"
| Ticked: "tlProc t = Some (w, h) \<Longrightarrow> onTick now later openedAt seenFails openFails (tlStore t, w) = (gap, st, w') \<Longrightarrow>
    timelineStep t (t\<lparr>tlStore := st, tlProc := Some (w', h)\<rparr>)"
| Gap: "tlProc t = Some (w, h) \<Longrightarrow> RecordGapWriter now later fails streamSince (tlStore t) w = (gap, w') \<Longrightarrow>
    timelineStep t (t\<lparr>tlProc := Some (w', h)\<rparr>)"
| Ended: "tlProc t = Some (w, h) \<Longrightarrow> timelineStep t (t\<lparr>tlProc := None, tlWhole := tlWhole t \<and> unwritten w t = []\<rparr>)"
| Restarted: "tlProc t = None \<Longrightarrow> 0 < keep \<Longrightarrow> 0 < sz \<Longrightarrow> restoreTimeline True fails keep sz inst (tlStore t) = (h, Some st) \<Longrightarrow>
    timelineStep t (t\<lparr>tlStore := st, tlProc := Some (NewWriter h (int keep), h), tlKeeps := keep # tlKeeps t,
      tlNamed := (if fails then tlNamed t else hsCount h), tlSafe := tlSafe t \<and> (\<forall>e \<in> set (tlIssued t). hID e \<le> tlNamed t + sz)\<rparr>)"
| Unpersisted: "tlProc t = None \<Longrightarrow> restoreTimeline opens fails keep sz inst (tlStore t) = (h, None) \<Longrightarrow> timelineStep t t"

definition emptyStore :: "string \<Rightarrow> timelineStore" where
  "emptyStore inst = \<lparr>stRows = [], stVersions = [], stLast = 0, stCoverage = [], stOpen = 0, stStored = 0, stInstance = inst\<rparr>"

inductive timelineRun :: "timelineWorld \<Rightarrow> bool" where
  start: "timelineRun \<lparr>tlStore = emptyStore inst, tlProc = None, tlIssued = [], tlWhole = True, tlKeeps = [], tlNamed = 0, tlSafe = True\<rparr>"
| step: "timelineRun t \<Longrightarrow> timelineStep t t' \<Longrightarrow> timelineRun t'"

definition told :: "nat \<Rightarrow> nat \<Rightarrow> historyEntry list \<Rightarrow> historyEntry list" where
  "told m n issued = map row_of (lastn m (filter ringKind (filter (\<lambda>e. hID e \<le> n) issued)))"

definition store_ok :: "timelineStore \<Rightarrow> bool" where
  "store_ok st \<longleftrightarrow> rows_ok (stRows st) \<and> stStored st = int (length (stRows st))"

definition proc_ok :: "nat list \<Rightarrow> timelineStore \<Rightarrow> historyEntry list \<Rightarrow> bool \<Rightarrow> timelineWriter \<Rightarrow> history \<Rightarrow> bool" where
  "proc_ok keeps st issued whole w h \<longleftrightarrow> 0 < hsSize h \<and> (\<exists>lg. recorded (hsSize h) h lg \<and>
     filter (\<lambda>e. twLastWritten w < hID e) lg = filter (\<lambda>e. twLastWritten w < hID e) issued \<and>
     (twLastWritten w < hsCount h \<longrightarrow> lg \<noteq> [] \<and> hID (last lg) = hsCount h)) \<and>
     (\<exists>keep \<in> set keeps. 0 < keep \<and> twKeep w = int keep) \<and> twLastWritten w \<le> hsCount h \<and>
     (\<forall>e \<in> set issued. hID e \<le> hsCount h) \<and> (\<forall>r \<in> set (stRows st). hID r \<le> twLastWritten w) \<and>
     (whole \<longrightarrow> (\<exists>m. \<exists>k \<in> set keeps. k \<le> m \<and> stRows st = told m (twLastWritten w) issued))"

definition timeline_ok :: "timelineWorld \<Rightarrow> bool" where
  "timeline_ok t \<longleftrightarrow> store_ok (tlStore t) \<and> sorted_wrt (<) (map hID (tlIssued t)) \<and> tlNamed t \<le> stLast (tlStore t) \<and>
     (\<forall>e \<in> set (tlIssued t). 0 < hID e \<and> (ringKind e \<or> hKind e = KindAnnotation) \<and> gap_clean e) \<and>
     (case tlProc t of
        Some (w, h) \<Rightarrow> proc_ok (tlKeeps t) (tlStore t) (tlIssued t) (tlWhole t) w h
      | None \<Rightarrow> tlWhole t \<longrightarrow> (\<exists>m. (tlKeeps t = [] \<and> tlIssued t = [] \<or> (\<exists>k \<in> set (tlKeeps t). k \<le> m)) \<and>
          stRows (tlStore t) = map row_of (lastn m (filter ringKind (tlIssued t)))))"

lemma Since_parts:
  assumes "recorded sz h lg" "afterID \<le> hsCount h"
  shows "fst (Since afterID h) = filter (\<lambda>e. afterID < hID e) (lastn sz lg)" "snd (Since afterID h) \<Longrightarrow> filter (\<lambda>e. afterID < hID e) (lastn sz lg) = filter (\<lambda>e. afterID < hID e) lg"
proof -
  note R = recorded_ok [OF assms(1)]
  have lg: "\<forall>e \<in> set lg. hID e \<le> hsCount h" and nf: "newestFirst h = rev (lastn sz lg)" using R(2,4) by (auto simp: holds_log_def)
  have le: "\<forall>e \<in> set (lastn sz lg). hID e \<le> hsCount h" using lg set_lastn [of sz lg] by blast
  show f: "fst (Since afterID h) = filter (\<lambda>e. afterID < hID e) (lastn sz lg)"
  proof (cases "afterID = hsCount h")
    case True
    then show ?thesis using le by (auto simp: Since_def filter_empty_conv not_less)
  next
    case False
    then show ?thesis using assms(2) takeWhile_sorted_filter [OF newestFirst_sorted [OF R(2)], of afterID]
      by (simp add: Since_def Let_def nf rev_filter)
  qed
  assume "snd (Since afterID h)"
  then have "Since afterID h = (fst (Since afterID h), True)" by (metis prod.collapse)
  from Since_exact [OF assms(1) this] f show "filter (\<lambda>e. afterID < hID e) (lastn sz lg) = filter (\<lambda>e. afterID < hID e) lg" by simp
qed

lemma flush_cases:
  assumes "recorded sz h lg" "twLastWritten w \<le> hsCount h" "0 < sz" "twLastWritten w < hsCount h \<longrightarrow> lg \<noteq> [] \<and> hID (last lg) = hsCount h"
    and "flush now watched fails h (st, w) = (st', w')"
  shows "(st', w') = (st, w) \<or>
    (\<exists>b. st' = CommitBatch b st \<and> btEntries b = filter (\<lambda>e. hKind e \<noteq> KindAnnotation \<and> twLastWritten w < hID e) (lastn sz lg) \<and>
       btLast b = (if twLastWritten w < hsCount h then hsCount h else 0) \<and> (btKeep b = twKeep w \<or> btKeep b = 0 \<and> btEntries b = []) \<and>
       twLastWritten w' = hsCount h \<and> twKeep w' = twKeep w)"
proof -
  let ?es = "filter (\<lambda>e. twLastWritten w < hID e) (lastn sz lg)"
  have es: "fst (Since (twLastWritten w) h) = ?es" by (rule Since_parts(1) [OF assms(1,2)])
  have newest: "(if ?es \<noteq> [] then hID (last ?es) else twLastWritten w) = hsCount h"
  proof (cases "twLastWritten w < hsCount h")
    case True
    then have "lastn sz lg \<noteq> []" "hID (last (lastn sz lg)) = hsCount h" using assms(3,4) last_lastn [of lg sz] by auto
    then show ?thesis using last_filter_last [of "lastn sz lg" "\<lambda>e. twLastWritten w < hID e"] True by simp
  next
    case False
    have "\<forall>e \<in> set lg. hID e \<le> hsCount h" using recorded_ok(2) [OF assms(1)] by (simp add: holds_log_def)
    then have "?es = []" using False set_lastn [of sz lg] by (fastforce simp: filter_empty_conv)
    then show ?thesis using False assms(2) by simp
  qed
  obtain b newest where fb: "flushBatch now watched h w = (b, newest)" by (cases "flushBatch now watched h w")
  then have b: "newest = hsCount h" "btEntries b = filter (\<lambda>e. hKind e \<noteq> KindAnnotation) ?es"
    "btLast b = (if twLastWritten w < hsCount h then hsCount h else 0)" "btKeep b = twKeep w \<or> btKeep b = 0 \<and> btEntries b = []"
    using newest unfolding flushBatch_def Let_def es by (simp_all only: prod.inject) force+
  have quiet: "w\<lparr>twLastWritten := newest\<rparr> = w" if "btLast b = 0" using that b(1,3) assms(2) by (cases w) (auto split: if_splits)
  show ?thesis
  proof (cases "btEntries b = [] \<and> btSeenAt b = 0 \<and> btKeep b = 0 \<and> btLast b = 0 \<or> fails")
    case True
    then show ?thesis using assms(5) quiet by (auto simp: flush_def fb split: if_splits)
  next
    case False
    then have "st' = CommitBatch b st" "twLastWritten w' = newest" "twKeep w' = twKeep w"
      using assms(5) by (auto simp: flush_def fb Let_def split: if_splits)
    then show ?thesis using b by (intro disjI2 exI [of _ b]) (auto simp: conj_commute)
  qed
qed

lemma told_split:
  assumes "sorted_wrt (<) (map hID issued)"
  shows "filter (\<lambda>e. hID e \<le> n) issued @ filter (\<lambda>e. n < hID e) issued = issued"
  using assms
proof (induction issued)
  case (Cons e es)
  show ?case
  proof (cases "hID e \<le> n")
    case False
    then have "filter (\<lambda>e. hID e \<le> n) es = []" using Cons.prems by (auto simp: filter_empty_conv not_le)
    then show ?thesis using False Cons by simp
  qed (use Cons in simp)
qed simp

lemma told_all: "\<forall>e \<in> set issued. hID e \<le> n \<Longrightarrow> told m n issued = map row_of (lastn m (filter ringKind issued))"
  by (simp add: told_def filter_id_conv)

lemma flush_ok:
  assumes ok: "store_ok st" "sorted_wrt (<) (map hID issued)" "\<forall>e \<in> set issued. 0 < hID e \<and> (ringKind e \<or> hKind e = KindAnnotation) \<and> gap_clean e"
    and p: "proc_ok keeps st issued whole w h" and f: "flush now watched fails h (st, w) = (st', w')"
  shows "store_ok st' \<and> proc_ok keeps st' issued (whole \<and> snd (Since (twLastWritten w) h)) w' h \<and> stLast st \<le> stLast st' \<and>
    (twLastWritten w < twLastWritten w' \<longrightarrow> twLastWritten w' \<le> stLast st')"
proof -
  let ?W = "twLastWritten w"
  obtain lg keep where lg: "recorded (hsSize h) h lg" "filter (\<lambda>e. ?W < hID e) lg = filter (\<lambda>e. ?W < hID e) issued"
    "?W < hsCount h \<longrightarrow> lg \<noteq> [] \<and> hID (last lg) = hsCount h"
    and P: "twKeep w = int keep" "?W \<le> hsCount h" "\<forall>e \<in> set issued. hID e \<le> hsCount h" "\<forall>r \<in> set (stRows st). hID r \<le> ?W"
      "whole \<longrightarrow> (\<exists>m. \<exists>k \<in> set keeps. k \<le> m \<and> stRows st = told m ?W issued)" and keep: "keep \<in> set keeps" "0 < keep" and pos: "0 < hsSize h"
    using p by (auto simp: proc_ok_def)
  from flush_cases [OF lg(1) P(2) pos lg(3) f] show ?thesis
  proof (elim disjE exE)
    assume "(st', w') = (st, w)"
    then show ?thesis using ok(1) p by (auto simp: proc_ok_def)
  next
    fix b
    let ?E = "filter (\<lambda>e. hKind e \<noteq> KindAnnotation \<and> ?W < hID e) (lastn (hsSize h) lg)"
    assume "st' = CommitBatch b st \<and> btEntries b = ?E \<and> btLast b = (if ?W < hsCount h then hsCount h else 0) \<and>
      (btKeep b = twKeep w \<or> btKeep b = 0 \<and> btEntries b = []) \<and> twLastWritten w' = hsCount h \<and> twKeep w' = twKeep w"
    then have B: "st' = CommitBatch b st" "btEntries b = ?E" "btLast b = (if ?W < hsCount h then hsCount h else 0)"
      "btKeep b = int keep \<or> btKeep b = 0 \<and> btEntries b = []" "twLastWritten w' = hsCount h" "twKeep w' = int keep" using P(1) by auto
    have L: "sorted_wrt (<) (map hID lg)" "\<forall>e \<in> set lg. hID e \<le> hsCount h" using recorded_ok(2) [OF lg(1)] by (simp_all add: holds_log_def)
    have sub: "set ?E \<subseteq> set (filter (\<lambda>e. ?W < hID e) issued)" unfolding lg(2) [symmetric] using set_lastn [of "hsSize h" lg] by auto
    have "sorted_wrt (<) (map hID ?E)" using L(1) by (simp add: sorted_wrt_map lastn_def sorted_wrt_filter sorted_wrt_drop)
    moreover have E: "\<forall>e \<in> set ?E. ringKind e \<and> gap_clean e \<and> 0 < hID e \<and> (\<forall>r \<in> set (stRows st). hID r < hID e)"
      using sub ok(3) P(4) by fastforce
    ultimately have C: "stRows st' = (if btKeep b = 0 then stRows st else lastn keep (stRows st @ map row_of ?E))"
      "stStored st' = int (length (stRows st'))" "rows_ok (stRows st')"
      "stLast st' = (if btLast b > 0 then max (stLast st) (btLast b) else stLast st)"
      using CommitBatch_rows [of st keep b] ok(1) keep(2) B(2,4) unfolding B(1) store_ok_def by simp_all
    have "store_ok st'" using C by (simp add: store_ok_def)
    moreover have "\<forall>r \<in> set (stRows st'). hID r \<le> hsCount h"
    proof
      fix r assume "r \<in> set (stRows st')"
      then have "r \<in> set (stRows st) \<or> r \<in> row_of ` set ?E" using C(1) set_lastn [of keep "stRows st @ map row_of ?E"] by (auto split: if_splits)
      then show "hID r \<le> hsCount h"
      proof
        assume "r \<in> row_of ` set ?E"
        then obtain e where "r = row_of e" "e \<in> set issued" using sub by auto
        then show ?thesis using P(3) by simp
      qed (use P(2,4) in fastforce)
    qed
    moreover have "\<exists>m. \<exists>k \<in> set keeps. k \<le> m \<and> stRows st' = told m (hsCount h) issued" if w: "whole" and s: "snd (Since ?W h)"
    proof -
      obtain m k where m: "k \<in> set keeps" "k \<le> m" "stRows st = told m ?W issued" using P(5) w by blast
      have "?E = filter (\<lambda>e. hKind e \<noteq> KindAnnotation) (filter (\<lambda>e. ?W < hID e) (lastn (hsSize h) lg))"
        unfolding filter_filter by (intro filter_cong refl) blast
      also have "\<dots> = filter (\<lambda>e. hKind e \<noteq> KindAnnotation) (filter (\<lambda>e. ?W < hID e) lg)"
        unfolding Since_parts(2) [OF lg(1) P(2) s] ..
      also have "\<dots> = filter ringKind (filter (\<lambda>e. ?W < hID e) issued)"
        unfolding lg(2) using ok(3) by (intro filter_cong refl) (auto simp: ringKind_def KindChange_def KindGap_def KindAnnotation_def)
      finally have e: "?E = filter ringKind (filter (\<lambda>e. ?W < hID e) issued)" .
      let ?old = "filter ringKind (filter (\<lambda>e. hID e \<le> ?W) issued)"
      have all: "?old @ ?E = filter ringKind issued" unfolding e filter_append [symmetric] told_split [OF ok(2)] ..
      define m' where "m' = (if btKeep b = 0 then m else min keep (m + length ?E))"
      have "stRows st' = map row_of (lastn m' (filter ringKind issued))"
      proof (cases "btKeep b = 0")
        case True
        then have "?E = []" using B(2,4) keep(2) by (metis int_ops(1) less_numeral_extra(3) of_nat_eq_iff)
        then have "filter ringKind issued = ?old" using all by (metis append_Nil2)
        then show ?thesis using C(1) True m(3) by (simp add: m'_def told_def)
      next
        case False
        then have "stRows st' = map row_of (lastn keep (lastn m ?old @ ?E))" using C(1) m(3) by (simp add: told_def lastn_map [symmetric])
        then show ?thesis using False by (simp only: lastn_append_lastn all m'_def if_False)
      qed
      moreover have "keep \<le> m' \<or> k \<le> m'" using m(2) unfolding m'_def min_def by simp
      then have "\<exists>k \<in> set keeps. k \<le> m'" using m(1) keep(1) by blast
      ultimately show ?thesis using told_all [OF P(3), of m'] by metis
    qed
    moreover have "filter (\<lambda>e. hsCount h < hID e) lg = filter (\<lambda>e. hsCount h < hID e) issued"
      using L(2) P(3) by (metis (no_types, lifting) filter_False linorder_not_less)
    moreover have "stLast st \<le> stLast st'" "?W < hsCount h \<longrightarrow> hsCount h \<le> stLast st'" using C(4) B(3) by (auto split: if_splits)
    ultimately show ?thesis using lg(1) B(5,6) P(3) keep pos by (auto simp: proc_ok_def)
  qed
qed

lemma proc_ok_cong:
  assumes "proc_ok keeps st issued whole w h" "stRows st' = stRows st" "twKeep w' = twKeep w" "twLastWritten w' = twLastWritten w"
  shows "proc_ok keeps st' issued whole w' h"
  using assms by (simp add: proc_ok_def)

lemma gap_frame:
  "RecordGapWriter now later fails streamSince st w = (gap, w') \<Longrightarrow> twKeep w' = twKeep w \<and> twLastWritten w' = twLastWritten w"
  by (auto simp: RecordGapWriter_def recordGapLocked_def Let_def split: if_splits)

lemma open_frame:
  "openCoverage now later openedAt seenFails openFails (st, w) = (gap, st', w') \<Longrightarrow>
    stRows st' = stRows st \<and> stLast st' = stLast st \<and> stStored st' = stStored st \<and> twKeep w' = twKeep w \<and> twLastWritten w' = twLastWritten w"
  by (auto simp: openCoverage_def recordGapLocked_def OpenCoverage_def Let_def split: if_splits)

lemma timeline_store_ok_cong: "store_ok st \<Longrightarrow> stRows st' = stRows st \<Longrightarrow> stStored st' = stStored st \<Longrightarrow> store_ok st'"
  by (simp add: store_ok_def)

lemma Append_counts: "hsCount (snd (Append now e h)) = hsCount h + 1" "hID (appended now e h) = hsCount h + 1"
  by (simp_all add: Append_def appended_def stepCursor_def Let_def)

lemma proc_ok_append:
  assumes "proc_ok keeps st issued whole w h" "recordable e"
  shows "proc_ok keeps st (issued @ [appended now e h]) whole w (snd (Append now e h))"
proof -
  obtain lg where lg: "recorded (hsSize h) h lg" "filter (\<lambda>e. twLastWritten w < hID e) lg = filter (\<lambda>e. twLastWritten w < hID e) issued"
    using assms(1) by (auto simp: proc_ok_def)
  have P: "twLastWritten w \<le> hsCount h" "\<forall>e \<in> set issued. hID e \<le> hsCount h" using assms(1) by (auto simp: proc_ok_def)
  have r: "recorded (hsSize h) (snd (Append now e h)) (lg @ [appended now e h])" using append [OF lg(1)] assms(2) by (simp add: recordable_def)
  moreover have "told m (twLastWritten w) (issued @ [appended now e h]) = told m (twLastWritten w) issued" for m
    using P(1) by (simp add: told_def Append_counts)
  moreover have "\<forall>x \<in> set (issued @ [appended now e h]). hID x \<le> hsCount (snd (Append now e h))" using P(2) by (auto simp: Append_counts le_Suc_eq)
  ultimately show ?thesis using assms(1) lg(2) recorded_ok(4) [OF r] unfolding proc_ok_def
    by (intro conjI exI [of _ "lg @ [appended now e h]"]) (auto simp: Append_counts)
qed

lemma appended_ok:
  assumes "recordable e"
  shows "0 < hID (appended now e h)" "ringKind (appended now e h) \<or> hKind (appended now e h) = KindAnnotation" "gap_clean (appended now e h)"
  using assms by (auto simp: appended_def recordable_def ringKind_def gap_clean_def KindChange_def KindGap_def)

lemma fold_max_le: "fold max xs n \<le> m \<longleftrightarrow> n \<le> m \<and> (\<forall>x \<in> set xs. x \<le> (m::nat))"
  by (induction xs arbitrary: n) auto

lemma restart_ok:
  assumes "store_ok st" "nm \<le> stLast st" "\<forall>e \<in> set issued. hID e \<le> nm + sz"
    "whole \<longrightarrow> (\<exists>m. (keeps = [] \<and> issued = [] \<or> (\<exists>k \<in> set keeps. k \<le> m)) \<and> stRows st = map row_of (lastn m (filter ringKind issued)))"
    and r: "restoreTimeline True fails keep sz inst st = (h, Some st')" and pos: "0 < keep" "0 < sz"
  shows "store_ok st' \<and> proc_ok (keep # keeps) st' issued whole (NewWriter h (int keep)) h \<and> recorded sz h (lastn keep (stRows st)) \<and>
    (if fails then nm else hsCount h) \<le> stLast st'"
proof -
  obtain newest where n: "RestoreRows keep st = (lastn keep (stRows st), newest)" "stLast st \<le> newest" "\<forall>e \<in> set (stRows st). hID e \<le> newest"
  proof (rule that)
    show "RestoreRows keep st = (lastn keep (stRows st), snd (RestoreRows keep st))"
      using assms(1) by (simp add: RestoreRows_def store_ok_def rows_ok_def filter_id_conv)
    show "stLast st \<le> snd (RestoreRows keep st)" by (simp add: RestoreRows_def)
    have "\<forall>e \<in> set (stRows st). hID e \<le> maxOr0 (map hID (stRows st))"
      using fold_max_le [of "map hID (stRows st)" 0 "maxOr0 (map hID (stRows st))"] by (simp add: maxOr0_def)
    then show "\<forall>e \<in> set (stRows st). hID e \<le> snd (RestoreRows keep st)" by (force simp: RestoreRows_def)
  qed
  have "sorted_wrt (<) (map hID (stRows st))" "\<forall>e \<in> set (stRows st). hKind e \<noteq> KindAnnotation \<and> 0 < hID e \<and> gap_clean e"
    using assms(1) by (auto simp: store_ok_def rows_ok_def ringKind_def KindChange_def KindGap_def KindAnnotation_def)
  then have rows: "sorted_wrt (<) (map hID (lastn keep (stRows st)))" "\<forall>e \<in> set (lastn keep (stRows st)). hKind e \<noteq> KindAnnotation \<and> 0 < hID e \<and> gap_clean e"
    using set_lastn [of keep "stRows st"] by (auto simp: lastn_def drop_map [symmetric] sorted_wrt_drop)
  have h: "h = RestoreHistory (lastn keep (stRows st)) newest (stInstance st) (NewHistory inst sz)"
    and st': "st' = (if fails then st else CommitBatch \<lparr>btEntries = [], btSeenAt = 0, btLast = hsCount h, btKeep = 0\<rparr> st)"
    using r by (auto simp: restoreTimeline_def n(1) Let_def)
  have rec: "recorded sz h (lastn keep (stRows st))" unfolding h using restored [OF pos(2) rows(2,1)] .
  have sz: "hsSize h = sz" by (rule recorded_ok(4) [OF rec])
  have frame: "hsSize (fold restoreEntry es h0) = hsSize h0" for es h0
    by (induction es arbitrary: h0) (simp_all add: restoreEntry_def stepCursor_def)
  have cnt: "newest + sz \<le> hsCount h" by (simp add: h RestoreHistory_def Let_def NewHistory_def)
  have le: "\<forall>e \<in> set (stRows st). hID e \<le> hsCount h" using n(3) cnt by fastforce
  have same: "stRows st' = stRows st" "stStored st' = stStored st" "stLast st \<le> stLast st'" "\<not> fails \<longrightarrow> hsCount h \<le> stLast st'"
    by (simp_all add: st' CommitBatch_def insertRows_def Let_def)
  have i: "\<forall>e \<in> set issued. hID e \<le> hsCount h" using assms(2,3) cnt n(2) by fastforce
  have "proc_ok (keep # keeps) st' issued whole (NewWriter h (int keep)) h"
    unfolding proc_ok_def sz
  proof (intro conjI exI [of _ "lastn keep (stRows st)"] impI rec)
    show "filter (\<lambda>e. twLastWritten (NewWriter h (int keep)) < hID e) (lastn keep (stRows st)) = filter (\<lambda>e. twLastWritten (NewWriter h (int keep)) < hID e) issued"
      using le i set_lastn [of keep "stRows st"] by (fastforce simp: NewWriter_def filter_empty_conv not_less)
    show "\<exists>m. \<exists>k \<in> set (keep # keeps). k \<le> m \<and> stRows st' = told m (twLastWritten (NewWriter h (int keep))) issued" if w: whole
    proof -
      obtain m where m: "keeps = [] \<and> issued = [] \<or> (\<exists>k \<in> set keeps. k \<le> m)" "stRows st = map row_of (lastn m (filter ringKind issued))" using assms(4) w by blast
      show ?thesis
      proof (cases "keeps = [] \<and> issued = []")
        case True
        then have "stRows st' = told keep (twLastWritten (NewWriter h (int keep))) issued" using m(2) same(1) by (simp add: told_def lastn_def)
        then show ?thesis by auto
      next
        case False
        have "stRows st' = told m (twLastWritten (NewWriter h (int keep))) issued" using m(2) told_all [OF i] by (simp add: same(1) NewWriter_def)
        then show ?thesis using False m(1) by auto
      qed
    qed
  qed (use same le i pos in \<open>simp_all add: NewWriter_def\<close>)
  then show ?thesis using timeline_store_ok_cong [OF assms(1) same(1,2)] rec assms(2) same(3,4) by auto
qed

lemma timelineStep_ok:
  assumes "timelineStep t t'" "tlSafe t'" "timeline_ok t"
  shows "timeline_ok t'"
proof -
  have ok: "store_ok (tlStore t)" "sorted_wrt (<) (map hID (tlIssued t))"
    "\<forall>e \<in> set (tlIssued t). 0 < hID e \<and> (ringKind e \<or> hKind e = KindAnnotation) \<and> gap_clean e" and nm: "tlNamed t \<le> stLast (tlStore t)"
    using assms(3) by (auto simp: timeline_ok_def)
  have proc: "proc_ok (tlKeeps t) (tlStore t) (tlIssued t) (tlWhole t) w h" if "tlProc t = Some (w, h)" for w h
    using assms(3) that by (simp add: timeline_ok_def)
  show ?thesis using assms(1)
  proof (cases rule: timelineStep.cases)
    case (Recorded w h e now)
    have "\<forall>x \<in> set (tlIssued t). hID x \<le> hsCount h" using proc [OF Recorded(2)] by (simp add: proc_ok_def)
    then have "sorted_wrt (<) (map hID (tlIssued t @ [appended now e h]))" using ok(2) by (auto simp: sorted_wrt_append Append_counts less_Suc_eq_le)
    then show ?thesis using ok nm proc_ok_append [OF proc [OF Recorded(2)] Recorded(3)] appended_ok [OF Recorded(3)]
      by (auto simp: timeline_ok_def Recorded(1))
  next
    case (Noted i version)
    then show ?thesis using assms(3) by (auto simp: timeline_ok_def PutAnnotation_def store_ok_def proc_ok_def)
  next
    case (Unnoted i)
    then show ?thesis using assms(3) by (auto simp: timeline_ok_def DeleteAnnotationRow_def store_ok_def proc_ok_def)
  next
    case (Flushed w h now watched fails st w')
    then show ?thesis using flush_ok [OF ok proc [OF Flushed(2)] Flushed(3)] ok nm by (auto simp: timeline_ok_def named_def)
  next
    case (Stopping w h now watched fails st w')
    have "flush now watched fails h (tlStore t, w\<lparr>twHeartbeat := 0\<rparr>) = (st, w')" using Stopping(3) by (simp add: onStop_def)
    moreover have "proc_ok (tlKeeps t) (tlStore t) (tlIssued t) (tlWhole t) (w\<lparr>twHeartbeat := 0\<rparr>) h" by (rule proc_ok_cong [OF proc [OF Stopping(2)]]) simp_all
    ultimately show ?thesis using flush_ok [OF ok, of _ _ "w\<lparr>twHeartbeat := 0\<rparr>"] ok nm by (fastforce simp: timeline_ok_def named_def Stopping(1))
  next
    case (Ready w h now later openedAt seenFails openFails gap st w')
    have "openCoverage now later openedAt seenFails openFails (tlStore t, w\<lparr>twReady := True\<rparr>) = (gap, st, w')" using Ready(3) by (simp add: onReady_def)
    note F = open_frame [OF this]
    have "proc_ok (tlKeeps t) st (tlIssued t) (tlWhole t) w' h" by (rule proc_ok_cong [OF proc [OF Ready(2)]]) (simp_all add: F)
    then show ?thesis using ok nm timeline_store_ok_cong [OF ok(1), of st] F by (simp add: timeline_ok_def Ready(1))
  next
    case (Ticked w h now later openedAt seenFails openFails gap st w')
    have F: "stRows st = stRows (tlStore t) \<and> stLast st = stLast (tlStore t) \<and> stStored st = stStored (tlStore t) \<and> twKeep w' = twKeep w \<and> twLastWritten w' = twLastWritten w"
      using Ticked(3) open_frame [of now later openedAt seenFails openFails "tlStore t" w gap st w'] by (auto simp: onTick_def split: if_splits)
    have "proc_ok (tlKeeps t) st (tlIssued t) (tlWhole t) w' h" by (rule proc_ok_cong [OF proc [OF Ticked(2)]]) (simp_all add: F)
    then show ?thesis using ok nm timeline_store_ok_cong [OF ok(1), of st] F by (simp add: timeline_ok_def Ticked(1))
  next
    case (Gap w h now later fails streamSince gap w')
    note F = gap_frame [OF Gap(3)]
    have "proc_ok (tlKeeps t) (tlStore t) (tlIssued t) (tlWhole t) w' h" by (rule proc_ok_cong [OF proc [OF Gap(2)]]) (simp_all add: F)
    then show ?thesis using ok nm by (simp add: timeline_ok_def Gap(1))
  next
    case (Ended w h)
    have P: "\<forall>e \<in> set (tlIssued t). hID e \<le> hsCount h" "tlWhole t \<longrightarrow> (\<exists>m. \<exists>k \<in> set (tlKeeps t). k \<le> m \<and> stRows (tlStore t) = told m (twLastWritten w) (tlIssued t))"
      using proc [OF Ended(2)] by (auto simp: proc_ok_def)
    have "told m (twLastWritten w) (tlIssued t) = map row_of (lastn m (filter ringKind (tlIssued t)))" if "unwritten w t = []" for m
    proof -
      have "filter ringKind (filter (\<lambda>e. twLastWritten w < hID e) (tlIssued t)) = []" using that by (auto simp: unwritten_def filter_empty_conv)
      then have "filter ringKind (tlIssued t) = filter ringKind (filter (\<lambda>e. hID e \<le> twLastWritten w) (tlIssued t))"
        using told_split [OF ok(2), of "twLastWritten w"] by (metis append_Nil2 filter_append)
      then show ?thesis by (simp add: told_def)
    qed
    then show ?thesis using ok nm P by (fastforce simp: timeline_ok_def Ended(1))
  next
    case (Restarted keep sz fails inst h st)
    have "\<forall>e \<in> set (tlIssued t). hID e \<le> tlNamed t + sz" using assms(2) by (simp add: Restarted(1))
    moreover have "tlWhole t \<longrightarrow> (\<exists>m. (tlKeeps t = [] \<and> tlIssued t = [] \<or> (\<exists>k \<in> set (tlKeeps t). k \<le> m)) \<and>
        stRows (tlStore t) = map row_of (lastn m (filter ringKind (tlIssued t))))"
      using assms(3) Restarted(2) by (simp add: timeline_ok_def)
    ultimately show ?thesis using restart_ok [OF ok(1) nm _ _ Restarted(5,3,4)] ok by (simp add: timeline_ok_def Restarted(1))
  next
    case (Unpersisted opens fails keep sz inst h)
    then show ?thesis using assms(3) by simp
  qed
qed

lemma tlSafe_before: "timelineStep t t' \<Longrightarrow> tlSafe t' \<Longrightarrow> tlSafe t"
  by (induction rule: timelineStep.induct) simp_all

lemma timelineRun_ok: "timelineRun t \<Longrightarrow> tlSafe t \<Longrightarrow> timeline_ok t"
proof (induction rule: timelineRun.induct)
  case (start inst)
  then show ?case by (simp add: timeline_ok_def store_ok_def emptyStore_def rows_ok_def lastn_def)
next
  case (step t t')
  then show ?case using timelineStep_ok tlSafe_before by blast
qed

text \<open>
  C28. No history ID of a database is ever handed out twice, over all the lives of the processes that use it, whatever the sizes of their rings:
  IDs only grow, through failed commits, clean stops and crashes that lose what was not written yet. The one condition is that at no start the IDs
  handed out so far lay further beyond the newest ID a commit had named than the new ring has slots: where the commits that reserve IDs at a
  start succeed, no life ends with more IDs unwritten than that. A reservation that fails is in the runs too, and counts as naming nothing
  (\<open>failed_reservation_reissues\<close>).
\<close>

theorem history_ids_never_reused:
  assumes "timelineRun t" "tlSafe t"
  shows "sorted_wrt (<) (map hID (tlIssued t))"
  using timelineRun_ok [OF assms] by (simp add: timeline_ok_def)

text \<open>
  C27. A restart brings back the record: unless the ring overran the writer or a crash lost what was not written yet, the ring of the new
  process holds exactly the newest changes and gaps of everything recorded in every life of the process before it: as many as it keeps
  and has slots for, or, where an earlier life kept fewer, at least as many as the fewest kept in any life.
\<close>

theorem restart_brings_back_the_record:
  assumes "timelineRun t" "tlSafe t" "tlProc t = None" "tlWhole t" "0 < keep" "0 < sz" "\<forall>e \<in> set (tlIssued t). hID e \<le> tlNamed t + sz"
    and "restoreTimeline True fails keep sz inst (tlStore t) = (h, Some st)"
  shows "\<exists>m. \<exists>k \<in> set (keep # tlKeeps t). k \<le> m \<and> m \<le> keep \<and> newestFirst h = rev (map row_of (lastn (min sz m) (filter ringKind (tlIssued t))))"
proof -
  have ok: "timeline_ok t" by (rule timelineRun_ok [OF assms(1,2)])
  then obtain m where m: "tlKeeps t = [] \<and> tlIssued t = [] \<or> (\<exists>k \<in> set (tlKeeps t). k \<le> m)"
      "stRows (tlStore t) = map row_of (lastn m (filter ringKind (tlIssued t)))"
    and s: "store_ok (tlStore t)" "tlNamed t \<le> stLast (tlStore t)" using assms(3,4) by (auto simp: timeline_ok_def)
  have "recorded sz h (lastn keep (stRows (tlStore t)))" using restart_ok [OF s assms(7) _ assms(8,5,6), of True] m by blast
  then have "newestFirst h = rev (map row_of (lastn (min sz (min keep m)) (filter ringKind (tlIssued t))))"
    using recorded_ok(2,4) [of sz h] m(2) by (simp add: holds_log_def lastn_map lastn_lastn min.assoc)
  moreover have "newestFirst h = rev (map row_of (lastn (min sz keep) (filter ringKind (tlIssued t))))" if "tlIssued t = []"
    using calculation that by (simp add: lastn_def)
  moreover have "\<exists>k \<in> set (keep # tlKeeps t). k \<le> min keep m" if "\<exists>k \<in> set (tlKeeps t). k \<le> m" using that by (auto simp: min_def)
  ultimately show ?thesis using m(1) by (metis list.set_intros(1) min.cobounded1 order_refl)
qed

section \<open>Two lives\<close>

definition ex_h1 :: history where "ex_h1 = fst (restoreTimeline True False 2 2 ''i'' (emptyStore ''db''))"
definition ex_st1 :: timelineStore where "ex_st1 = the (snd (restoreTimeline True False 2 2 ''i'' (emptyStore ''db'')))"
definition ex_h2 :: history where "ex_h2 = snd (Append 7 ex_change ex_h1)"
definition ex_h3 :: history where "ex_h3 = snd (Append 8 ex_change ex_h2)"
definition ex_st3 :: timelineStore where "ex_st3 = fst (flush 9 True False ex_h3 (ex_st1, NewWriter ex_h1 2))"
definition ex_w3 :: timelineWriter where "ex_w3 = snd (flush 9 True False ex_h3 (ex_st1, NewWriter ex_h1 2))"
definition ex_issued :: "historyEntry list" where "ex_issued = [appended 7 ex_change ex_h1, appended 8 ex_change ex_h2]"
definition ex_ended :: timelineWorld where "ex_ended = \<lparr>tlStore = ex_st3, tlProc = None, tlIssued = ex_issued, tlWhole = True, tlKeeps = [2], tlNamed = 4,
     tlSafe = True\<rparr>"

lemma ex_first_life:
  "hsCount ex_h1 = 2" "hsCount ex_h2 = 3" "hsCount ex_h3 = 4" "map hID ex_issued = [3, 4]" "snd (Since 2 ex_h3)" "twLastWritten ex_w3 = 4"
proof -
  have h1: "ex_h1 = (NewHistory ''db'' 2)\<lparr>hsCount := 2\<rparr>"
    by (simp add: ex_h1_def restoreTimeline_def RestoreRows_def emptyStore_def lastn_def maxOr0_def RestoreHistory_def NewHistory_def Let_def)
  show c: "hsCount ex_h1 = 2" unfolding h1 by (cases "NewHistory ''db'' 2") simp
  then show "hsCount ex_h2 = 3" "hsCount ex_h3 = 4" by (simp_all add: ex_h2_def ex_h3_def Append_counts)
  with c show "map hID ex_issued = [3, 4]" by (simp add: ex_issued_def Append_counts)
  show s: "snd (Since 2 ex_h3)"
    by (simp add: ex_h3_def ex_h2_def h1 Since_def Append_def NewHistory_def stepCursor_def Let_def ex_change_def zeroEntry_def)
  have "flush 9 True False ex_h3 (ex_st1, NewWriter ex_h1 2) = (ex_st3, ex_w3)" by (simp add: ex_st3_def ex_w3_def)
  moreover have "recorded 2 ex_h3 ([] @ [appended 7 ex_change ex_h1] @ [appended 8 ex_change ex_h2])"
  proof -
    have "ex_h1 = RestoreHistory [] 0 ''db'' (NewHistory ''i'' 2)" by (simp add: h1 RestoreHistory_def NewHistory_def Let_def)
    then have "recorded 2 ex_h1 []" using restored [of 2 "[]" 0 "''db''" "''i''"] by simp
    moreover have "gap_clean ex_change" by (simp add: gap_clean_def ex_change_def zeroEntry_def KindGap_def)
    ultimately show ?thesis unfolding ex_h3_def ex_h2_def using append [of 2] by (metis append_assoc)
  qed
  ultimately have "(ex_st3, ex_w3) = (ex_st1, NewWriter ex_h1 2) \<or> twLastWritten ex_w3 = 4"
    using flush_cases [of 2 ex_h3 _ "NewWriter ex_h1 2" 9 True False ex_st1 ex_st3 ex_w3] c
    by (fastforce simp: NewWriter_def \<open>hsCount ex_h3 = 4\<close> Append_counts ex_h2_def)
  moreover have "twRetained ex_w3" by (simp add: ex_w3_def flush_def flushBatch_def Let_def NewWriter_def split: if_splits)
  moreover have "\<not> twRetained (NewWriter ex_h1 2)" by (simp add: NewWriter_def)
  ultimately show "twLastWritten ex_w3 = 4" by (metis prod.inject)
qed

abbreviation ex_world_at :: "timelineStore \<Rightarrow> (timelineWriter \<times> history) option \<Rightarrow> historyEntry list \<Rightarrow> nat \<Rightarrow> timelineWorld" where
  "ex_world_at st p es n \<equiv> \<lparr>tlStore = st, tlProc = p, tlIssued = es, tlWhole = True, tlKeeps = [2], tlNamed = n, tlSafe = True\<rparr>"

lemma ex_run_ended_timeline: "timelineRun ex_ended"
proof -
  have "snd (restoreTimeline True False 2 2 ''i'' (emptyStore ''db'')) \<noteq> None" by (simp add: restoreTimeline_def Let_def split: prod.split)
  then have r: "restoreTimeline True False 2 2 ''i'' (emptyStore ''db'') = (ex_h1, Some ex_st1)" by (simp add: ex_h1_def ex_st1_def prod_eq_iff)
  have rec: "recordable ex_change" by (simp add: recordable_def gap_clean_def ex_change_def zeroEntry_def KindGap_def)
  have f: "flush 9 True False ex_h3 (ex_st1, NewWriter ex_h1 2) = (ex_st3, ex_w3)" by (simp add: ex_st3_def ex_w3_def)
  have 0: "timelineRun \<lparr>tlStore = emptyStore ''db'', tlProc = None, tlIssued = [], tlWhole = True, tlKeeps = [], tlNamed = 0, tlSafe = True\<rparr>" by (rule start)
  have 1: "timelineRun (ex_world_at ex_st1 (Some (NewWriter ex_h1 2, ex_h1)) [] 2)"
    using timelineRun.step [OF 0 timelineStep.Restarted [of _ 2 2 False "''i''" ex_h1 ex_st1]] r ex_first_life(1) by simp
  have 2: "timelineRun (ex_world_at ex_st1 (Some (NewWriter ex_h1 2, ex_h2)) [appended 7 ex_change ex_h1] 2)"
    using timelineRun.step [OF 1 timelineStep.Recorded [of _ _ ex_h1 ex_change 7]] rec by (simp add: ex_h2_def)
  have 3: "timelineRun (ex_world_at ex_st1 (Some (NewWriter ex_h1 2, ex_h3)) ex_issued 2)"
    using timelineRun.step [OF 2 timelineStep.Recorded [of _ _ ex_h2 ex_change 8]] rec by (simp add: ex_h3_def ex_issued_def)
  have 4: "timelineRun (ex_world_at ex_st3 (Some (ex_w3, ex_h3)) ex_issued 4)"
    using timelineRun.step [OF 3 timelineStep.Flushed [of _ _ ex_h3 9 True False ex_st3 ex_w3]] f ex_first_life(1,5,6)
    by (simp add: NewWriter_def named_def)
  have "unwritten ex_w3 (ex_world_at ex_st3 (Some (ex_w3, ex_h3)) ex_issued 4) = []"
    using ex_first_life(4,6) by (auto simp: unwritten_def filter_empty_conv ex_issued_def)
  then show ?thesis using timelineRun.step [OF 4 timelineStep.Ended [of _ ex_w3 ex_h3]] by (simp add: ex_ended_def)
qed

theorem history_ids_never_reused_witness: "sorted_wrt (<) (map hID (tlIssued ex_ended)) \<and> map hID (tlIssued ex_ended) = [3, 4]"
  using history_ids_never_reused [OF ex_run_ended_timeline] ex_first_life(4) by (simp add: ex_ended_def)

theorem restart_brings_back_the_record_witness:
  "newestFirst (fst (restoreTimeline True True 2 2 ''j'' ex_st3)) = [row_of (appended 8 ex_change ex_h2), row_of (appended 7 ex_change ex_h1)]"
proof -
  have "\<exists>m. \<exists>k \<in> set (2 # tlKeeps ex_ended). k \<le> m \<and> m \<le> 2 \<and>
      newestFirst (fst (restoreTimeline True True 2 2 ''j'' ex_st3)) = rev (map row_of (lastn (min 2 m) (filter ringKind (tlIssued ex_ended))))"
    by (rule restart_brings_back_the_record [OF ex_run_ended_timeline, of _ _ True "''j''" _ ex_st3])
      (use ex_first_life(4) in \<open>auto simp: ex_ended_def ex_issued_def restoreTimeline_def Let_def split: prod.split\<close>)
  moreover have "ringKind (appended n ex_change h)" for n h by (simp add: ringKind_def appended_def ex_change_def zeroEntry_def)
  ultimately show ?thesis by (auto simp: ex_ended_def ex_issued_def lastn_def)
qed

text \<open>
  When the commit of a start's reservation fails and the process crashes before it writes anything, the next process hands out the same IDs
  again, although the crash lost a single one: both hand out 3 after an empty database with two slots.
\<close>

lemma failed_reservation_reissues:
  assumes "restoreTimeline True True 2 2 inst (emptyStore i) = (h, Some st)" "restoreTimeline True fails 2 2 inst' st = (h', Some st')"
  shows "hID (appended now e h) = 3 \<and> hID (appended now' e' h') = 3"
proof -
  have st: "st = emptyStore i" and c: "hsCount h = 2"
    using assms(1) by (auto simp: restoreTimeline_def RestoreRows_def emptyStore_def lastn_def maxOr0_def RestoreHistory_def NewHistory_def Let_def)
  have "hsCount h' = 2"
    using assms(2) unfolding st by (auto simp: restoreTimeline_def RestoreRows_def emptyStore_def lastn_def maxOr0_def RestoreHistory_def NewHistory_def Let_def)
  then show ?thesis using c by (simp add: Append_counts)
qed

end
