(* ===== verification/Netguard.thy ===== *)
theory Netguard
  imports Prelude "HOL-Library.Word"
begin

text \<open>
  The addresses an outbound fetch may reach, \<open>internal/netguard/netguard.go\<close>. A \<open>net.IP\<close> is a list of bytes, of length 4 or 16
  (any other length is no address); its predicates and \<open>IPNet.Contains\<close> are those of Go's \<open>net\<close> package. The dialer that calls
  \<open>Check\<close> on every resolved address is I/O.
\<close>

unbundle bit_operations_syntax

section \<open>Addresses\<close>

type_synonym ip = "8 word list"

definition v4InV6Prefix :: ip where
  "v4InV6Prefix = [0, 0, 0, 0, 0, 0, 0, 0, 0, 0, 0xff, 0xff]"

definition To4 :: "ip \<Rightarrow> ip option" where
  "To4 ip = (if length ip = 4 then Some ip
     else if length ip = 16 \<and> take 12 ip = v4InV6Prefix then Some (drop 12 ip) else None)"

definition To16 :: "ip \<Rightarrow> ip option" where
  "To16 ip = (if length ip = 4 then Some (v4InV6Prefix @ ip) else if length ip = 16 then Some ip else None)"

definition IPv4 :: "8 word \<Rightarrow> 8 word \<Rightarrow> 8 word \<Rightarrow> 8 word \<Rightarrow> ip" where
  "IPv4 a b c d = v4InV6Prefix @ [a, b, c, d]"

definition zeros :: "nat \<Rightarrow> ip" where
  "zeros n = replicate n 0"

text \<open>\<open>ip.Equal\<close>: an IPv4 address and the same address in IPv6 form are equal.\<close>

definition EqualIP :: "ip \<Rightarrow> ip \<Rightarrow> bool" where
  "EqualIP x y = (if length x = length y then x = y
     else if length x = 4 \<and> length y = 16 then take 12 y = v4InV6Prefix \<and> x = drop 12 y
     else if length x = 16 \<and> length y = 4 then take 12 x = v4InV6Prefix \<and> drop 12 x = y
     else False)"

definition IsUnspecified :: "ip \<Rightarrow> bool" where
  "IsUnspecified ip \<longleftrightarrow> EqualIP ip (IPv4 0 0 0 0) \<or> EqualIP ip (zeros 16)"

definition IsLoopback :: "ip \<Rightarrow> bool" where
  "IsLoopback ip = (case To4 ip of Some b \<Rightarrow> b ! 0 = 127 | None \<Rightarrow> EqualIP ip (zeros 15 @ [1]))"

definition IsPrivate :: "ip \<Rightarrow> bool" where
  "IsPrivate ip = (case To4 ip of
     Some b \<Rightarrow> b ! 0 = 10 \<or> b ! 0 = 172 \<and> b ! 1 AND 0xf0 = 16 \<or> b ! 0 = 192 \<and> b ! 1 = 168
   | None \<Rightarrow> length ip = 16 \<and> ip ! 0 AND 0xfe = 0xfc)"

definition IsMulticast :: "ip \<Rightarrow> bool" where
  "IsMulticast ip = (case To4 ip of
     Some b \<Rightarrow> b ! 0 AND 0xf0 = 0xe0
   | None \<Rightarrow> length ip = 16 \<and> ip ! 0 = 0xff)"

definition IsLinkLocalMulticast :: "ip \<Rightarrow> bool" where
  "IsLinkLocalMulticast ip = (case To4 ip of
     Some b \<Rightarrow> b ! 0 = 224 \<and> b ! 1 = 0 \<and> b ! 2 = 0
   | None \<Rightarrow> length ip = 16 \<and> ip ! 0 = 0xff \<and> ip ! 1 AND 0x0f = 0x02)"

definition IsLinkLocalUnicast :: "ip \<Rightarrow> bool" where
  "IsLinkLocalUnicast ip = (case To4 ip of
     Some b \<Rightarrow> b ! 0 = 169 \<and> b ! 1 = 254
   | None \<Rightarrow> length ip = 16 \<and> ip ! 0 = 0xfe \<and> ip ! 1 AND 0xc0 = 0x80)"

section \<open>Networks\<close>

text \<open>A network is its address and the number of leading bits that count. \<open>maskBytes\<close> is \<open>net.CIDRMask\<close>.\<close>

type_synonym ipnet = "ip \<times> nat"

fun maskBytes :: "nat \<Rightarrow> nat \<Rightarrow> ip" where
  "maskBytes 0 ones = []"
| "maskBytes (Suc l) ones = (if ones \<ge> 8 then 0xff # maskBytes l (ones - 8) else NOT (drop_bit ones 0xff) # maskBytes l 0)"

definition ContainsIP :: "ipnet \<Rightarrow> ip \<Rightarrow> bool" where
  "ContainsIP n ip = (case n of (nn, ones) \<Rightarrow>
     (let x = (case To4 ip of Some b \<Rightarrow> b | None \<Rightarrow> ip) in
       length x = length nn \<and>
       list_all (\<lambda>((a, m), b). a AND m = b AND m) (zip (zip nn (maskBytes (length nn) ones)) x)))"

definition cgnatBlock :: ipnet where
  "cgnatBlock = ([100, 64, 0, 0], 10)"

definition specialUseBlocks :: "ipnet list" where
  "specialUseBlocks = [([0, 0, 0, 0], 8), ([192, 0, 0, 0], 24), ([192, 0, 2, 0], 24), ([198, 18, 0, 0], 15),
     ([198, 51, 100, 0], 24), ([203, 0, 113, 0], 24), ([240, 0, 0, 0], 4),
     (0x01 # zeros 15, 64), ([0x20, 0x01] @ zeros 14, 23), ([0x20, 0x01, 0x0d, 0xb8] @ zeros 12, 32)]"

definition localNAT64Block :: ipnet where
  "localNAT64Block = ([0, 0x64, 0xff, 0x9b, 0, 1] @ zeros 10, 48)"

section \<open>The policy\<close>

record guardPolicy =
  gpAllowLoopback :: bool
  gpAllowPrivate :: bool

datatype refusal = LocalNAT64 | Loopback | PrivateAddress | CGNAT | LinkLocal | Unspecified | Multicast | SpecialUse | Embedded refusal

definition nat64Prefix :: ip where
  "nat64Prefix = [0, 0x64, 0xff, 0x9b, 0, 0, 0, 0, 0, 0, 0, 0]"

definition embeddedIPv4 :: "ip \<Rightarrow> ip option" where
  "embeddedIPv4 ip = (case To16 ip of
     None \<Rightarrow> None
   | Some ip16 \<Rightarrow> if To4 ip \<noteq> None then None
       else if take 12 ip16 = nat64Prefix then Some (IPv4 (ip16 ! 12) (ip16 ! 13) (ip16 ! 14) (ip16 ! 15))
       else if ip16 ! 0 = 0x20 \<and> ip16 ! 1 = 0x02 then Some (IPv4 (ip16 ! 2) (ip16 ! 3) (ip16 ! 4) (ip16 ! 5))
       else if take 12 ip16 = zeros 12 \<and> \<not> IsUnspecified ip \<and> \<not> IsLoopback ip
         then Some (IPv4 (ip16 ! 12) (ip16 ! 13) (ip16 ! 14) (ip16 ! 15))
       else None)"

lemma To4_IPv4 [simp]: "To4 (IPv4 a b c d) = Some [a, b, c, d]"
  by (simp add: To4_def IPv4_def v4InV6Prefix_def)

lemma embedded_To4: "embeddedIPv4 ip = Some v4 \<Longrightarrow> To4 ip = None \<and> (\<exists>a b c d. v4 = IPv4 a b c d)"
  by (auto simp: embeddedIPv4_def split: option.splits if_splits)

text \<open>The recursion is on the address embedded in an IPv6 address, which embeds none itself.\<close>

function Check :: "guardPolicy \<Rightarrow> ip \<Rightarrow> refusal option" where
  "Check p ip = (if ContainsIP localNAT64Block ip then Some LocalNAT64
     else (case (case embeddedIPv4 ip of None \<Rightarrow> None | Some v4 \<Rightarrow> Check p v4) of
       Some err \<Rightarrow> Some (Embedded err)
     | None \<Rightarrow>
         if IsLoopback ip \<and> \<not> gpAllowLoopback p then Some Loopback
         else if IsPrivate ip \<and> \<not> gpAllowPrivate p then Some PrivateAddress
         else if ContainsIP cgnatBlock ip \<and> \<not> gpAllowPrivate p then Some CGNAT
         else if IsLinkLocalUnicast ip \<or> IsLinkLocalMulticast ip then Some LinkLocal
         else if IsUnspecified ip then Some Unspecified
         else if IsMulticast ip then Some Multicast
         else if list_ex (\<lambda>n. ContainsIP n ip) specialUseBlocks then Some SpecialUse
         else None))"
  by pat_completeness auto
termination
  by (relation "measure (\<lambda>(p, ip). if To4 ip = None then 1 else 0)") (use embedded_To4 in \<open>force+\<close>)

declare Check.simps [simp del]

definition PrivateIP :: "ip \<Rightarrow> bool" where
  "PrivateIP ip \<longleftrightarrow> IsPrivate ip \<or> ContainsIP cgnatBlock ip"


section \<open>What the policy admits\<close>

text \<open>Reference: IPv4 addresses as numbers, and the intervals no fetch may reach.\<close>

definition number :: "ip \<Rightarrow> nat" where
  "number b = ((unat (b ! 0) * 256 + unat (b ! 1)) * 256 + unat (b ! 2)) * 256 + unat (b ! 3)"

definition forbidden :: "guardPolicy \<Rightarrow> (nat \<times> nat) list" where
  "forbidden p = [(0x00000000, 0x00ffffff), (0xa9fe0000, 0xa9feffff), (0xc0000000, 0xc00000ff), (0xc0000200, 0xc00002ff),
      (0xc6120000, 0xc613ffff), (0xc6336400, 0xc63364ff), (0xcb007100, 0xcb0071ff), (0xe0000000, 0xefffffff), (0xf0000000, 0xffffffff)] @
     (if gpAllowLoopback p then [] else [(0x7f000000, 0x7fffffff)]) @
     (if gpAllowPrivate p then [] else [(0x0a000000, 0x0affffff), (0xac100000, 0xac1fffff), (0xc0a80000, 0xc0a8ffff), (0x64400000, 0x647fffff)])"

definition isForbidden :: "guardPolicy \<Rightarrow> nat \<Rightarrow> bool" where
  "isForbidden p n \<longleftrightarrow> list_ex (\<lambda>(lo, hi). lo \<le> n \<and> n \<le> hi) (forbidden p)"

lemma high_bits: "unat ((a :: 8 word) AND NOT (mask n)) = unat a - unat a mod 2 ^ n"
proof -
  have d: "a AND NOT (mask n) = a - take_bit n a"
    using disjunctive_diff [of "take_bit n a" a] by (auto simp: bit_simps intro!: bit_word_eqI)
  have le: "take_bit n a \<le> a" by (simp add: word_le_nat_alt unsigned_take_bit_eq take_bit_nat_less_eq_self)
  have "unat (take_bit n a) = unat a mod 2 ^ n" unfolding unsigned_take_bit_eq by (simp only: take_bit_eq_mod)
  then show ?thesis unfolding d using le by (simp add: unat_sub)
qed

lemma div_block: "0 < k \<Longrightarrow> (k * (x div k) = k * m) = (k * m \<le> x \<and> x < k * Suc m)" for x k m :: nat
proof
  assume "0 < k" "k * (x div k) = k * m"
  then show "k * m \<le> x \<and> x < k * Suc m"
    using times_div_less_eq_dividend [of k x] dividend_less_times_div [of k x] by simp
next
  assume "0 < k" "k * m \<le> x \<and> x < k * Suc m"
  then show "k * (x div k) = k * m" using div_nat_eqI [of k m x] by simp
qed

lemma mask_block:
  assumes "w = NOT (mask n :: 8 word)" "unat v = 2 ^ n * m"
  shows "(a AND w = v) = (2 ^ n * m \<le> unat a \<and> unat a < 2 ^ n * Suc m)"
  unfolding word_unat_eq_iff assms high_bits minus_mod_eq_mult_div by (rule div_block) simp

lemma byte_masks:
  fixes a :: "8 word"
  shows "(a AND 0xf0 = 16) = (16 \<le> unat a \<and> unat a < 32)" "(a AND 0xf0 = 0xe0) = (0xe0 \<le> unat a \<and> unat a < 0xf0)"
    "(a AND - 16 = 0xf0) = (0xf0 \<le> unat a)" "(a AND - 64 = 64) = (64 \<le> unat a \<and> unat a < 128)" "(a AND - 2 = 18) = (18 \<le> unat a \<and> unat a < 20)"
    "a AND 255 = a" "a AND - 256 = 0"
proof -
  have b: "unat a < 256" using unsigned_less [of a] by simp
  have m: "0xf0 = NOT (mask 4 :: 8 word)" "- 16 = NOT (mask 4 :: 8 word)" "- 64 = NOT (mask 6 :: 8 word)" "- 2 = NOT (mask 1 :: 8 word)"
    by (simp_all add: mask_eq_exp_minus_1)
  show "(a AND 0xf0 = 16) = (16 \<le> unat a \<and> unat a < 32)" using mask_block [OF m(1), where v = "16" and m = 1 and a = a] by simp
  show "(a AND 0xf0 = 0xe0) = (0xe0 \<le> unat a \<and> unat a < 0xf0)" using mask_block [OF m(1), where v = "0xe0" and m = 14 and a = a] by simp
  show "(a AND - 16 = 0xf0) = (0xf0 \<le> unat a)" using mask_block [OF m(2), where v = "0xf0" and m = 15 and a = a] b by simp
  show "(a AND - 64 = 64) = (64 \<le> unat a \<and> unat a < 128)" using mask_block [OF m(3), where v = "64" and m = 1 and a = a] by simp
  show "(a AND - 2 = 18) = (18 \<le> unat a \<and> unat a < 20)" using mask_block [OF m(4), where v = "18" and m = 9 and a = a] by simp
  have "255 = (- 1 :: 8 word)" "- 256 = (0 :: 8 word)" by simp_all
  then show "a AND 255 = a" "a AND - 256 = 0" by (metis bit.conj_one_right, metis bit.conj_zero_right)
qed

lemma To4_cases:
  assumes "To4 ip = Some bs"
  obtains a b c d where "bs = [a, b, c, d]"
proof -
  have "length bs = 4" using assms by (auto simp: To4_def split: if_splits)
  then obtain a b c d where "bs = [a, b, c, d]" by (auto simp: eval_nat_numeral length_Suc_conv)
  then show ?thesis by (rule that)
qed

lemma To4_embeds_none: "To4 ip = Some bs \<Longrightarrow> embeddedIPv4 ip = None"
  by (auto simp: embeddedIPv4_def split: option.split)

text \<open>The tests of \<open>Check\<close> on an IPv4 address, byte by byte.\<close>

lemma v4_tests:
  assumes "To4 ip = Some [a, b, c, d]"
  shows "\<not> ContainsIP localNAT64Block ip" "IsLoopback ip = (a = 127)"
    "IsPrivate ip = (a = 10 \<or> a = 172 \<and> 16 \<le> unat b \<and> unat b < 32 \<or> a = 192 \<and> b = 168)"
    "ContainsIP cgnatBlock ip = (a = 100 \<and> 64 \<le> unat b \<and> unat b < 128)"
    "IsLinkLocalUnicast ip = (a = 169 \<and> b = 254)" "IsLinkLocalMulticast ip = (a = 224 \<and> b = 0 \<and> c = 0)"
    "IsMulticast ip = (0xe0 \<le> unat a \<and> unat a < 0xf0)"
    "list_ex (\<lambda>n. ContainsIP n ip) specialUseBlocks = (a = 0 \<or> a = 192 \<and> b = 0 \<and> c = 0 \<or> a = 192 \<and> b = 0 \<and> c = 2 \<or>
       a = 198 \<and> 18 \<le> unat b \<and> unat b < 20 \<or> a = 198 \<and> b = 51 \<and> c = 100 \<or> a = 203 \<and> b = 0 \<and> c = 113 \<or> 0xf0 \<le> unat a)"
  using assms by (simp_all add: ContainsIP_def localNAT64Block_def cgnatBlock_def specialUseBlocks_def zeros_def IsLoopback_def IsPrivate_def
      IsLinkLocalUnicast_def IsLinkLocalMulticast_def IsMulticast_def byte_masks)


definition num :: "nat \<Rightarrow> nat \<Rightarrow> nat \<Rightarrow> nat \<Rightarrow> nat" where
  "num a b c d = ((a * 256 + b) * 256 + c) * 256 + d"

lemma number_interval:
  assumes "b < 256" "c < 256" "d < 256"
  shows "(x * 0x1000000 \<le> num a b c d \<and> num a b c d \<le> y * 0x1000000 + 0xffffff) = (x \<le> a \<and> a \<le> y)"
    and "z < 256 \<Longrightarrow> (x * 0x1000000 + y * 0x10000 \<le> num a b c d \<and> num a b c d \<le> x * 0x1000000 + z * 0x10000 + 0xffff) = (a = x \<and> y \<le> b \<and> b \<le> z)"
    and "y < 256 \<Longrightarrow> z < 256 \<Longrightarrow> (x * 0x1000000 + y * 0x10000 + z * 0x100 \<le> num a b c d \<and> num a b c d \<le> x * 0x1000000 + y * 0x10000 + z * 0x100 + 0xff) =
      (a = x \<and> b = y \<and> c = z)"
proof -
  show "(x * 0x1000000 \<le> num a b c d \<and> num a b c d \<le> y * 0x1000000 + 0xffffff) = (x \<le> a \<and> a \<le> y)"
    using assms unfolding num_def by auto
  show "(x * 0x1000000 + y * 0x10000 \<le> num a b c d \<and> num a b c d \<le> x * 0x1000000 + z * 0x10000 + 0xffff) = (a = x \<and> y \<le> b \<and> b \<le> z)" if "z < 256"
    using assms that unfolding num_def by (cases a x rule: linorder_cases) auto
  show "(x * 0x1000000 + y * 0x10000 + z * 0x100 \<le> num a b c d \<and> num a b c d \<le> x * 0x1000000 + y * 0x10000 + z * 0x100 + 0xff) =
      (a = x \<and> b = y \<and> c = z)" if "y < 256" "z < 256"
    using assms that unfolding num_def by (cases a x rule: linorder_cases; cases b y rule: linorder_cases) auto
qed

lemma byte_bounds: "unat (a :: 8 word) < 256"
  using unsigned_less [of a] by simp

lemma byte_num: "((a :: 8 word) = numeral k) = (unat a = unat (numeral k :: 8 word))" "((a :: 8 word) = 0) = (unat a = 0)"
  by (simp_all add: word_unat_eq_iff)

lemma v4_unspecified:
  assumes "To4 ip = Some [a, b, c, d]"
  shows "IsUnspecified ip \<Longrightarrow> a = 0"
  using assms by (auto simp: IsUnspecified_def EqualIP_def To4_def IPv4_def v4InV6Prefix_def zeros_def numeral_eq_Suc split: if_splits)

text \<open>The forbidden intervals, byte by byte.\<close>

lemma v4_intervals:
  "(number [a, b, c, d] \<le> 0x00ffffff) = (a = 0)"
  "(0xa9fe0000 \<le> number [a, b, c, d] \<and> number [a, b, c, d] \<le> 0xa9feffff) = (a = 169 \<and> b = 254)"
  "(0xc0000000 \<le> number [a, b, c, d] \<and> number [a, b, c, d] \<le> 0xc00000ff) = (a = 192 \<and> b = 0 \<and> c = 0)"
  "(0xc0000200 \<le> number [a, b, c, d] \<and> number [a, b, c, d] \<le> 0xc00002ff) = (a = 192 \<and> b = 0 \<and> c = 2)"
  "(0xc6120000 \<le> number [a, b, c, d] \<and> number [a, b, c, d] \<le> 0xc613ffff) = (a = 198 \<and> 18 \<le> unat b \<and> unat b < 20)"
  "(0xc6336400 \<le> number [a, b, c, d] \<and> number [a, b, c, d] \<le> 0xc63364ff) = (a = 198 \<and> b = 51 \<and> c = 100)"
  "(0xcb007100 \<le> number [a, b, c, d] \<and> number [a, b, c, d] \<le> 0xcb0071ff) = (a = 203 \<and> b = 0 \<and> c = 113)"
  "(0xe0000000 \<le> number [a, b, c, d] \<and> number [a, b, c, d] \<le> 0xefffffff) = (0xe0 \<le> unat a \<and> unat a < 0xf0)"
  "(0xf0000000 \<le> number [a, b, c, d] \<and> number [a, b, c, d] \<le> 0xffffffff) = (0xf0 \<le> unat a)"
  "(0x7f000000 \<le> number [a, b, c, d] \<and> number [a, b, c, d] \<le> 0x7fffffff) = (a = 127)"
  "(0x0a000000 \<le> number [a, b, c, d] \<and> number [a, b, c, d] \<le> 0x0affffff) = (a = 10)"
  "(0xac100000 \<le> number [a, b, c, d] \<and> number [a, b, c, d] \<le> 0xac1fffff) = (a = 172 \<and> 16 \<le> unat b \<and> unat b < 32)"
  "(0xc0a80000 \<le> number [a, b, c, d] \<and> number [a, b, c, d] \<le> 0xc0a8ffff) = (a = 192 \<and> b = 168)"
  "(0x64400000 \<le> number [a, b, c, d] \<and> number [a, b, c, d] \<le> 0x647fffff) = (a = 100 \<and> 64 \<le> unat b \<and> unat b < 128)"
proof -
  have N: "number [a, b, c, d] = num (unat a) (unat b) (unat c) (unat d)" by (simp add: number_def num_def)
  note bb = byte_bounds [of a] byte_bounds [of b] byte_bounds [of c] byte_bounds [of d]
  note I1 = number_interval(1) [OF bb(2-4), where a = "unat a"] and I2 = number_interval(2) [OF bb(2-4), where a = "unat a"]
    and I3 = number_interval(3) [OF bb(2-4), where a = "unat a"]
  show "(number [a, b, c, d] \<le> 0x00ffffff) = (a = 0)" using I1 [of 0 0] unfolding N byte_num by simp
  show "(0xa9fe0000 \<le> number [a, b, c, d] \<and> number [a, b, c, d] \<le> 0xa9feffff) = (a = 169 \<and> b = 254)"
    using I2 [of 254 169 254] unfolding N byte_num by auto
  show "(0xc0000000 \<le> number [a, b, c, d] \<and> number [a, b, c, d] \<le> 0xc00000ff) = (a = 192 \<and> b = 0 \<and> c = 0)"
    using I3 [of 0 0 192] unfolding N byte_num by simp
  show "(0xc0000200 \<le> number [a, b, c, d] \<and> number [a, b, c, d] \<le> 0xc00002ff) = (a = 192 \<and> b = 0 \<and> c = 2)"
    using I3 [of 0 2 192] unfolding N byte_num by simp
  show "(0xc6120000 \<le> number [a, b, c, d] \<and> number [a, b, c, d] \<le> 0xc613ffff) = (a = 198 \<and> 18 \<le> unat b \<and> unat b < 20)"
    using I2 [of 19 198 18] unfolding N byte_num by auto
  show "(0xc6336400 \<le> number [a, b, c, d] \<and> number [a, b, c, d] \<le> 0xc63364ff) = (a = 198 \<and> b = 51 \<and> c = 100)"
    using I3 [of 51 100 198] unfolding N byte_num by simp
  show "(0xcb007100 \<le> number [a, b, c, d] \<and> number [a, b, c, d] \<le> 0xcb0071ff) = (a = 203 \<and> b = 0 \<and> c = 113)"
    using I3 [of 0 113 203] unfolding N byte_num by simp
  show "(0xe0000000 \<le> number [a, b, c, d] \<and> number [a, b, c, d] \<le> 0xefffffff) = (0xe0 \<le> unat a \<and> unat a < 0xf0)"
    using I1 [of 224 239] unfolding N by auto
  show "(0xf0000000 \<le> number [a, b, c, d] \<and> number [a, b, c, d] \<le> 0xffffffff) = (0xf0 \<le> unat a)"
    using I1 [of 240 255] bb(1) unfolding N by auto
  show "(0x7f000000 \<le> number [a, b, c, d] \<and> number [a, b, c, d] \<le> 0x7fffffff) = (a = 127)" using I1 [of 127 127] unfolding N byte_num by auto
  show "(0x0a000000 \<le> number [a, b, c, d] \<and> number [a, b, c, d] \<le> 0x0affffff) = (a = 10)" using I1 [of 10 10] unfolding N byte_num by auto
  show "(0xac100000 \<le> number [a, b, c, d] \<and> number [a, b, c, d] \<le> 0xac1fffff) = (a = 172 \<and> 16 \<le> unat b \<and> unat b < 32)"
    using I2 [of 31 172 16] unfolding N byte_num by auto
  show "(0xc0a80000 \<le> number [a, b, c, d] \<and> number [a, b, c, d] \<le> 0xc0a8ffff) = (a = 192 \<and> b = 168)"
    using I2 [of 168 192 168] unfolding N byte_num by auto
  show "(0x64400000 \<le> number [a, b, c, d] \<and> number [a, b, c, d] \<le> 0x647fffff) = (a = 100 \<and> 64 \<le> unat b \<and> unat b < 128)"
    using I2 [of 127 100 64] unfolding N byte_num by auto
qed

lemma Check_v4:
  assumes "To4 ip = Some [a, b, c, d]"
  shows "(Check p ip = None) = (\<not> isForbidden p (number [a, b, c, d]))"
proof -
  note bb = byte_bounds [of a] byte_bounds [of b] byte_bounds [of c] byte_bounds [of d]
  have e: "embeddedIPv4 ip = None" by (rule To4_embeds_none [OF assms])
  have sub: "IsUnspecified ip \<Longrightarrow> list_ex (\<lambda>n. ContainsIP n ip) specialUseBlocks" "IsLinkLocalMulticast ip \<Longrightarrow> IsMulticast ip"
    using v4_unspecified [OF assms] v4_tests(6-8) [OF assms] by simp_all
  have "(Check p ip = None) = (\<not> (IsLoopback ip \<and> \<not> gpAllowLoopback p \<or> (IsPrivate ip \<or> ContainsIP cgnatBlock ip) \<and> \<not> gpAllowPrivate p \<or>
      IsLinkLocalUnicast ip \<or> IsLinkLocalMulticast ip \<or> IsUnspecified ip \<or> IsMulticast ip \<or> list_ex (\<lambda>n. ContainsIP n ip) specialUseBlocks))"
    by (subst Check.simps) (auto simp: e v4_tests(1) [OF assms])
  also have "\<dots> = (\<not> (IsLoopback ip \<and> \<not> gpAllowLoopback p \<or> (IsPrivate ip \<or> ContainsIP cgnatBlock ip) \<and> \<not> gpAllowPrivate p \<or>
      IsLinkLocalUnicast ip \<or> IsMulticast ip \<or> list_ex (\<lambda>n. ContainsIP n ip) specialUseBlocks))"
    using sub by blast
  also have "(IsLoopback ip \<and> \<not> gpAllowLoopback p \<or> (IsPrivate ip \<or> ContainsIP cgnatBlock ip) \<and> \<not> gpAllowPrivate p \<or>
      IsLinkLocalUnicast ip \<or> IsMulticast ip \<or> list_ex (\<lambda>n. ContainsIP n ip) specialUseBlocks) = isForbidden p (number [a, b, c, d])"
    unfolding v4_tests [OF assms] isForbidden_def forbidden_def v4_intervals by (auto simp: v4_intervals)
  finally show ?thesis .
qed


text \<open>The IPv4 address that traffic to an address ends up at.\<close>

definition leadsTo :: "ip \<Rightarrow> ip \<Rightarrow> bool" where
  "leadsTo ip bs \<longleftrightarrow> length ip = 4 \<and> bs = ip \<or> length ip = 16 \<and>
     (take 12 ip = [0, 0, 0, 0, 0, 0, 0, 0, 0, 0, 0xff, 0xff] \<and> bs = drop 12 ip \<or>
      take 12 ip = [0, 0x64, 0xff, 0x9b, 0, 0, 0, 0, 0, 0, 0, 0] \<and> bs = drop 12 ip \<or>
      take 2 ip = [0x20, 0x02] \<and> bs = take 4 (drop 2 ip) \<or>
      take 12 ip = [0, 0, 0, 0, 0, 0, 0, 0, 0, 0, 0, 0] \<and> drop 12 ip \<noteq> [0, 0, 0, 0] \<and> drop 12 ip \<noteq> [0, 0, 0, 1] \<and> bs = drop 12 ip)"

lemma length16: "length ip = 16 \<Longrightarrow> \<exists>a b c d e f g h i j k l m n p q. ip = [a, b, c, d, e, f, g, h, i, j, k, l, m, n, p, q]"
  by (simp add: eval_nat_numeral length_Suc_conv) blast

lemma zeros_12: "zeros 12 = [0, 0, 0, 0, 0, 0, 0, 0, 0, 0, 0, 0]"
  by (simp add: zeros_def eval_nat_numeral)

lemma zeros_15: "zeros 15 = [0, 0, 0, 0, 0, 0, 0, 0, 0, 0, 0, 0, 0, 0, 0]"
  by (simp add: zeros_def eval_nat_numeral)

lemma zeros_16: "zeros 16 = [0, 0, 0, 0, 0, 0, 0, 0, 0, 0, 0, 0, 0, 0, 0, 0]"
  by (simp add: zeros_def eval_nat_numeral)

lemma leadsTo_cases:
  assumes "leadsTo ip bs"
  shows "To4 ip = Some bs \<or> embeddedIPv4 ip = Some (v4InV6Prefix @ bs)"
proof (cases "length ip = 16")
  case True
  obtain a b c d e f g h i j k l m n p q where ip: "ip = [a, b, c, d, e, f, g, h, i, j, k, l, m, n, p, q]"
    using length16 [OF True] by (elim exE) (rule that)
  have len: "length ip = 16" by (rule True)
  consider (mapped) "take 12 ip = v4InV6Prefix" "bs = drop 12 ip"
    | (nat64) "take 12 ip = nat64Prefix" "bs = drop 12 ip"
    | (six) "take 2 ip = [0x20, 0x02]" "bs = take 4 (drop 2 ip)"
    | (compatible) "take 12 ip = zeros 12" "drop 12 ip \<noteq> [0, 0, 0, 0]" "drop 12 ip \<noteq> [0, 0, 0, 1]" "bs = drop 12 ip"
    using assms len unfolding leadsTo_def v4InV6Prefix_def nat64Prefix_def zeros_12 by linarith
  then show ?thesis
  proof cases
    case mapped
    then show ?thesis by (simp add: To4_def len)
  next
    case nat64
    then have "To4 ip = None" by (simp add: To4_def len nat64Prefix_def v4InV6Prefix_def)
    with nat64 show ?thesis by (simp add: embeddedIPv4_def To16_def ip IPv4_def)
  next
    case six
    then have "a = 0x20" "b = 0x02" "bs = [c, d, e, f]" by (simp_all add: ip)
    moreover from this have "To4 ip = None" "take 12 ip \<noteq> nat64Prefix" by (simp_all add: To4_def ip nat64Prefix_def v4InV6Prefix_def)
    ultimately show ?thesis by (simp add: embeddedIPv4_def To16_def ip IPv4_def)
  next
    case compatible
    then have t: "To4 ip = None" "take 12 ip \<noteq> nat64Prefix" by (simp_all add: To4_def len zeros_12 nat64Prefix_def v4InV6Prefix_def)
    have z: "a = 0" using compatible(1) by (simp add: ip zeros_12)
    have "\<not> IsUnspecified ip" "\<not> IsLoopback ip"
      using compatible t by (simp_all add: IsUnspecified_def IsLoopback_def EqualIP_def ip zeros_16 zeros_15 zeros_12 IPv4_def v4InV6Prefix_def)
    with compatible t z show ?thesis by (simp add: embeddedIPv4_def To16_def ip IPv4_def)
  qed
next
  case False
  then show ?thesis using assms by (auto simp: leadsTo_def To4_def)
qed

text \<open>
  C13. An address passes the guard iff the IPv4 address it stands for lies in none of the intervals that are not globally reachable (those of
  loopback and of private networks only where the policy does not allow them); and an IPv6 address that passes does not lead to such
  an address through NAT64, 6to4 or an IPv4-compatible form either.
\<close>

theorem guard_admits_only_reachable:
  assumes "leadsTo ip bs"
  shows "(To4 ip \<noteq> None \<longrightarrow> (Check p ip = None \<longleftrightarrow> \<not> isForbidden p (number bs))) \<and> (Check p ip = None \<longrightarrow> \<not> isForbidden p (number bs))"
proof (cases "To4 ip")
  case None
  then have e: "embeddedIPv4 ip = Some (v4InV6Prefix @ bs)" using leadsTo_cases [OF assms] by simp
  then obtain a b c d where v: "bs = [a, b, c, d]" using embedded_To4 [OF e] by (auto simp: IPv4_def)
  have "Check p (v4InV6Prefix @ bs) = None" if "Check p ip = None"
    using that e by (subst (asm) Check.simps) (auto split: if_splits option.splits)
  then show ?thesis using Check_v4 [of "IPv4 a b c d" a b c d p] None by (simp add: v IPv4_def [symmetric])
next
  case (Some bs')
  then have "To4 ip = Some bs" using leadsTo_cases [OF assms] To4_embeds_none by auto
  moreover obtain a b c d where "bs = [a, b, c, d]" using To4_cases calculation by blast
  ultimately show ?thesis using Check_v4 [of ip a b c d p] by simp
qed

definition ex_metadata :: ip where
  "ex_metadata = nat64Prefix @ [169, 254, 169, 254]"

theorem guard_admits_only_reachable_witness:
  "Check \<lparr>gpAllowLoopback = True, gpAllowPrivate = True\<rparr> ex_metadata \<noteq> None"
proof -
  have "leadsTo ex_metadata [169, 254, 169, 254]" by (simp add: leadsTo_def ex_metadata_def nat64Prefix_def)
  from guard_admits_only_reachable [OF this, of "\<lparr>gpAllowLoopback = True, gpAllowPrivate = True\<rparr>"]
  show ?thesis by (auto simp: isForbidden_def forbidden_def number_def)
qed

end
