(* ===== verification/Placement.thy ===== *)
theory Placement
  imports Swarm History Go_Strings Netguard
begin

text \<open>
  Where a service may run: placement constraints (\<open>internal/placement/constraints.go\<close>), the scheduling filters and the
  drain assessment built on them (\<open>internal/cluster/constraints.go\<close>, \<open>drainimpact.go\<close>), and the eligible nodes of a global
  service (\<open>internal/cache/cache.go\<close>). Unicode's tables and the parsers of \<open>net\<close> are the functions of \<open>goText\<close>.
\<close>

section \<open>Text\<close>

record goText = unicode +
  gtEqualFold :: "string \<Rightarrow> string \<Rightarrow> bool"
  gtTrimSpace :: "string \<Rightarrow> string"
  gtParseIP :: "string \<Rightarrow> ip option"
  gtParseCIDR :: "string \<Rightarrow> ipnet option"

text \<open>\<open>strings.EqualFold\<close> and \<open>TrimSpace\<close> decide ASCII text without the tables.\<close>

definition EqualFold :: "goText \<Rightarrow> string \<Rightarrow> string \<Rightarrow> bool" where
  "EqualFold u s t = (if ascii s \<and> ascii t then map lowerByte s = map lowerByte t else gtEqualFold u s t)"

definition TrimSpace :: "goText \<Rightarrow> string \<Rightarrow> string" where
  "TrimSpace u s = (if ascii s then rev (dropWhile space (rev (dropWhile space s))) else gtTrimSpace u s)"

definition toLower :: "goText \<Rightarrow> string \<Rightarrow> string" where
  "toLower u s = ToLower (unicode.truncate u) s"

section \<open>Constraints\<close>

definition cutPrefixFold :: "goText \<Rightarrow> string \<Rightarrow> string \<Rightarrow> string \<times> bool" where
  "cutPrefixFold u s pre = (if length s < length pre \<or> \<not> EqualFold u (take (length pre) s) pre then (s, False)
     else (drop (length pre) s, True))"

definition addressMatches :: "goText \<Rightarrow> string \<Rightarrow> string \<Rightarrow> bool \<times> bool" where
  "addressMatches u addr value = (let nodeIP = (case gtParseIP u addr of Some ip \<Rightarrow> ip | None \<Rightarrow> []) in
     case gtParseIP u value of
       Some ip \<Rightarrow> (EqualIP ip nodeIP, True)
     | None \<Rightarrow> (case gtParseCIDR u value of Some subnet \<Rightarrow> (ContainsIP subnet nodeIP, True) | None \<Rightarrow> (False, False)))"

definition nodeAttribute :: "goText \<Rightarrow> node \<Rightarrow> string \<Rightarrow> string \<times> bool" where
  "nodeAttribute u node key = (case cutPrefixFold u key ''node.labels.'' of
     (label, True) \<Rightarrow> (gor (nodeLabels node) label [], label \<noteq> [])
   | (_, False) \<Rightarrow> (case cutPrefixFold u key ''engine.labels.'' of
       (label, True) \<Rightarrow> (gor (nodeEngineLabels node) label [], label \<noteq> [])
     | (_, False) \<Rightarrow> (let k = toLower u key in
         if k = ''node.id'' then (nodeID node, True)
         else if k = ''node.hostname'' then (nodeHostname node, True)
         else if k = ''node.role'' then ((if nodeManager node \<noteq> None then ''manager'' else ''worker''), True)
         else if k = ''node.platform.os'' then (nodeOS node, True)
         else if k = ''node.platform.arch'' then (nodeArch node, True)
         else ([], False))))"

text \<open>The operators in the order the loop tries them.\<close>

fun splitWith :: "goText \<Rightarrow> string \<Rightarrow> string list \<Rightarrow> (string \<times> string \<times> string) option" where
  "splitWith u raw [] = None"
| "splitWith u raw (cand # rest) = (case Cut raw cand of (key, value, found) \<Rightarrow>
     if \<not> found then splitWith u raw rest
     else (let k = TrimSpace u key; v = TrimSpace u value in if k = [] \<or> v = [] then None else Some (k, cand, v)))"

definition splitConstraint :: "goText \<Rightarrow> string \<Rightarrow> (string \<times> string \<times> string) option" where
  "splitConstraint u raw = splitWith u raw [''=='', ''!='']"

text \<open>One constraint against a node: \<open>None\<close> where it cannot be evaluated.\<close>

definition matchesNode :: "goText \<Rightarrow> node \<Rightarrow> string \<Rightarrow> bool option" where
  "matchesNode u node raw = (case splitConstraint u raw of
     None \<Rightarrow> None
   | Some (key, op, value) \<Rightarrow>
       map_option (\<lambda>matches. if op = ''!='' then \<not> matches else matches)
         (if EqualFold u key ''node.ip''
          then (case addressMatches u (nodeAddr node) value of (matches, valid) \<Rightarrow> if valid then Some matches else None)
          else (case nodeAttribute u node key of (actual, known) \<Rightarrow> if known then Some (EqualFold u actual value) else None)))"

fun Satisfies :: "goText \<Rightarrow> node \<Rightarrow> string list \<Rightarrow> bool \<times> string" where
  "Satisfies u node [] = (True, [])"
| "Satisfies u node (raw # rest) = (if matchesNode u node raw = Some True then Satisfies u node rest else (False, TrimSpace u raw))"

section \<open>Platforms and the replica cap\<close>

definition isAttestationPlatform :: "platform \<Rightarrow> bool" where
  "isAttestationPlatform p \<longleftrightarrow> platArch p = ''unknown'' \<and> platOS p = ''unknown''"

definition normalizeArch :: "string \<Rightarrow> string" where
  "normalizeArch arch = (if arch \<in> set [''x86_64'', ''x86-64'', ''amd64''] then ''amd64''
     else if arch \<in> set [''aarch64'', ''arm64'', ''armv8'', ''armv8l''] then ''arm64''
     else if arch \<in> set [''i386'', ''i686'', ''x86'', ''386''] then ''386''
     else if arch \<in> set [''armv7l'', ''armv7'', ''armhf'', ''arm''] then ''arm''
     else arch)"

definition renderPlatform :: "platform \<Rightarrow> string \<Rightarrow> string" where
  "renderPlatform p absent = (if platOS p = [] then absent else platOS p) @ ''/'' @ (if platArch p = [] then absent else platArch p)"

definition describePlatform :: "platform \<Rightarrow> string" where
  "describePlatform p = renderPlatform p ''any''"

definition describeNodePlatform :: "platform \<Rightarrow> string" where
  "describeNodePlatform p = renderPlatform p ''unknown''"

definition platformMatches :: "node \<Rightarrow> platform \<Rightarrow> bool" where
  "platformMatches node want \<longleftrightarrow>
     (platArch want = [] \<or> normalizeArch (nodeArch node) = [] \<or> normalizeArch (platArch want) = normalizeArch (nodeArch node)) \<and>
     (platOS want = [] \<or> nodeOS node = [] \<or> platOS want = nodeOS node)"

definition joinComma :: "string list \<Rightarrow> string" where
  "joinComma xs = concat (case xs of [] \<Rightarrow> [] | x # rest \<Rightarrow> x # map (\<lambda>y. '', '' @ y) rest)"

fun supportsFrom :: "node \<Rightarrow> platform list \<Rightarrow> string list \<Rightarrow> bool \<times> string" where
  "supportsFrom node [] named = (if named = [] then (True, [])
     else (False, ''runs '' @ describeNodePlatform (Platform (nodeOS node) (nodeArch node)) @ ''; the service supports '' @ joinComma named))"
| "supportsFrom node (want # rest) named = (if isAttestationPlatform want then supportsFrom node rest named
     else if platformMatches node want then (True, [])
     else supportsFrom node rest (named @ [describePlatform want]))"

definition nodeSupportsPlatform :: "node \<Rightarrow> platform list \<Rightarrow> bool \<times> string" where
  "nodeSupportsPlatform node platforms = (if platforms = [] then (True, []) else supportsFrom node platforms [])"

definition nodeCanHost :: "goText \<Rightarrow> node \<Rightarrow> serviceSpec \<Rightarrow> nat \<Rightarrow> bool \<times> string" where
  "nodeCanHost u node spec placed = (case Satisfies u node (spConstraints spec) of
     (False, reason) \<Rightarrow> (False, reason)
   | (True, _) \<Rightarrow> (case nodeSupportsPlatform node (spPlatforms spec) of
       (False, reason) \<Rightarrow> (False, reason)
     | (True, _) \<Rightarrow> if spMaxReplicas spec > 0 \<and> placed \<ge> spMaxReplicas spec
         then (False, ''already runs '' @ FormatUint placed @ '' of at most '' @ FormatUint (spMaxReplicas spec) @ '' replica(s) per node'')
         else (True, [])))"

end
