(* ===== verification/Drain.thy ===== *)
theory Drain
  imports Placement Cache_Query "HOL-Library.Product_Lexorder"
begin

text \<open>
  The drain assessment, \<open>internal/cluster/drainimpact.go\<close>, with the graph types of \<open>topology.go\<close> and the node states of
  \<open>state.go\<close>: which services on a node could move elsewhere when it is drained, and which are stranded.
\<close>

section \<open>Graphs\<close>

record topologyNode =
  tnID :: string
  tnLabel :: string
  tnType :: string
  tnGroup :: string
  tnDetail :: string
  tnState :: string

record topologyEdge =
  teSource :: string
  teTarget :: string
  teLabel :: string

record topologyGraph =
  tgView :: string
  tgSubject :: string
  tgNote :: string
  tgNodes :: "topologyNode list"
  tgEdges :: "topologyEdge list"

definition newGraph :: "string \<Rightarrow> topologyNode list \<Rightarrow> topologyEdge list \<Rightarrow> topologyGraph" where
  "newGraph view nodes edges = \<lparr>tgView = view, tgSubject = [], tgNote = [],
     tgNodes = sort_key (\<lambda>n. (tnType n, tnLabel n, tnID n)) nodes, tgEdges = sort_key (\<lambda>e. (teSource e, teTarget e)) edges\<rparr>"

definition StripImageDigest :: "string \<Rightarrow> string" where
  "StripImageDigest img = (case Cut img ''@sha256:'' of (before, _, ok) \<Rightarrow> if ok then before else img)"

definition serviceNode :: "service \<Rightarrow> string \<Rightarrow> topologyNode" where
  "serviceNode svc st = \<lparr>tnID = svID svc, tnLabel = spName (svSpec svc), tnType = ''service'', tnGroup = gor (spLabels (svSpec svc)) StackLabel [],
     tnDetail = (case spContainer (svSpec svc) of None \<Rightarrow> [] | Some c \<Rightarrow> StripImageDigest (csImage c)), tnState = st\<rparr>"

definition nodeStateName :: "node_state \<Rightarrow> string" where
  "nodeStateName s = (case s of NodeStateReady \<Rightarrow> ''ready'' | NodeStateDown \<Rightarrow> ''down'' | NodeStateUnknown \<Rightarrow> ''unknown'' | NodeStateDisconnected \<Rightarrow> ''disconnected'')"

definition availabilityName :: "availability \<Rightarrow> string" where
  "availabilityName a = (case a of NodeAvailabilityActive \<Rightarrow> ''active'' | NodeAvailabilityPause \<Rightarrow> ''pause'' | NodeAvailabilityDrain \<Rightarrow> ''drain'')"

definition DeriveNodeState :: "node \<Rightarrow> string" where
  "DeriveNodeState n = (if nodeState n \<noteq> NodeStateReady then nodeStateName (nodeState n)
     else if nodeAvailability n \<noteq> NodeAvailabilityActive then availabilityName (nodeAvailability n)
     else nodeStateName NodeStateReady)"

section \<open>Where one service could go\<close>

definition DrainStateMovable :: string where "DrainStateMovable = ''movable''"
definition DrainStateStranded :: string where "DrainStateStranded = ''stranded''"
definition DrainStateGlobal :: string where "DrainStateGlobal = ''global''"

text \<open>The loop over the candidates: the accepted ones, and why the last of the others failed.\<close>

definition assess :: "goText \<Rightarrow> serviceSpec \<Rightarrow> nat gomap \<Rightarrow> node \<Rightarrow> string \<times> node list \<Rightarrow> string \<times> node list" where
  "assess u spec placed n acc = (case acc of (blocked, accepted) \<Rightarrow>
     (case nodeCanHost u n spec (gor placed (nodeID n) 0) of (ok, reason) \<Rightarrow>
        if ok then (blocked, accepted @ [n]) else (reason, accepted)))"

text \<open>The free slots under the cap, added up in a 64-bit word.\<close>

definition freeSlots :: "nat \<Rightarrow> nat gomap \<Rightarrow> string list \<Rightarrow> nat" where
  "freeSlots cap placed ids = sum_list (map (\<lambda>i. if gor placed i 0 < cap then cap - gor placed i 0 else 0) ids) mod 2 ^ 64"

definition placementFor :: "goText \<Rightarrow> service \<Rightarrow> nat \<Rightarrow> node list \<Rightarrow> nat gomap \<Rightarrow> string \<times> string \<times> string list" where
  "placementFor u svc running candidates placed = (if spMode (svSpec svc) = Global
     then (DrainStateGlobal, ''one task per node; draining stops it here rather than moving it'', [])
     else (let (blocked, acceptedNodes) = fold (assess u (svSpec svc) placed) candidates ([], []);
               accepted = map nodeID acceptedNodes; cap = spMaxReplicas (svSpec svc)
       in if accepted \<noteq> []
          then if cap > 0 \<and> freeSlots cap placed accepted < running
            then (DrainStateStranded, FormatUint running @ '' task(s) here, but the '' @ FormatUint (length accepted) @
              '' candidate node(s) have room for '' @ FormatUint (freeSlots cap placed accepted) @ '' between them: at most '' @
              FormatUint cap @ '' replica(s) per node'', [])
            else (DrainStateMovable, FormatUint running @ '' task(s) here; '' @ FormatUint (length accepted) @ '' node(s) can take them'', accepted)
          else if blocked \<noteq> [] then (DrainStateStranded, blocked, [])
          else (DrainStateStranded, ''no other node is ready and active'', [])))"

section \<open>The assessment\<close>

text \<open>The live tasks per service: those on the target, and those each other node carries.\<close>

definition bump :: "string \<Rightarrow> nat gomap \<Rightarrow> nat gomap" where
  "bump k m = gset m k (gor m k 0 + 1)"

definition countTask :: "string \<Rightarrow> service gomap \<Rightarrow> task \<Rightarrow> nat gomap \<times> nat gomap gomap \<Rightarrow> nat gomap \<times> nat gomap gomap" where
  "countTask target byID t acc = (case acc of (onTarget, placed) \<Rightarrow>
     if \<not> TaskIsLive t then acc
     else if gget byID (tServiceID t) = None then acc
     else if tNodeID t = target then (bump (tServiceID t) onTarget, placed)
     else (onTarget, gset placed (tServiceID t) (bump (tNodeID t) (gor placed (tServiceID t) []))))"

definition candidate_node :: "string \<Rightarrow> node \<Rightarrow> bool" where
  "candidate_node target n \<longleftrightarrow> nodeID n \<noteq> target \<and> nodeState n = NodeStateReady \<and> nodeAvailability n = NodeAvailabilityActive"

definition DrainImpactGraph :: "goText \<Rightarrow> node \<Rightarrow> node list \<Rightarrow> task list \<Rightarrow> service list \<Rightarrow> topologyGraph" where
  "DrainImpactGraph u target clusterNodes tasks services = (let
      servicesByID = fold (\<lambda>svc m. gset m (svID svc) svc) services [];
      (onTarget, placed) = fold (countTask (nodeID target) servicesByID) tasks ([], []);
      candidates = filter (candidate_node (nodeID target)) clusterNodes;
      nodes = map (\<lambda>n. \<lparr>tnID = nodeID n, tnLabel = nodeHostname n, tnType = ''node'', tnGroup = [], tnDetail = nodeRole n, tnState = DeriveNodeState n\<rparr>) candidates;
      verdicts = map (\<lambda>(sid, running). (the (gget servicesByID sid), sid,
        placementFor u (the (gget servicesByID sid)) running candidates (gor placed sid []))) onTarget
    in (newGraph ''drain-impact''
         (nodes @ map (\<lambda>(svc, sid, state, detail, accepted). (serviceNode svc state)\<lparr>tnDetail := detail\<rparr>) verdicts)
         (concat (map (\<lambda>(svc, sid, state, detail, accepted). map (\<lambda>i. \<lparr>teSource = sid, teTarget = i, teLabel = ''can host''\<rparr>) accepted) verdicts)))
       \<lparr>tgSubject := nodeHostname target\<rparr>)"

definition NoteHiddenNodes :: "topologyGraph \<Rightarrow> nat \<Rightarrow> int \<Rightarrow> topologyGraph" where
  "NoteHiddenNodes graph visible hidden = (if hidden \<le> 0 then graph
     else graph\<lparr>tgNote := ''assessed against the '' @ FormatUint visible @ '' node(s) you can read; '' @ FormatUint (nat hidden) @
       '' more are hidden by your grants, so a service reported stranded may be placeable on one of them''\<rparr>)"


section \<open>What the verdict means\<close>

text \<open>
  A plan moves all the tasks: a number of them to each candidate, only to nodes that satisfy the constraints and the platforms, and
  within the replica cap together with what the node already carries.
\<close>

definition fits_node :: "goText \<Rightarrow> serviceSpec \<Rightarrow> (string \<Rightarrow> nat) \<Rightarrow> node \<Rightarrow> nat \<Rightarrow> bool" where
  "fits_node u spec held n k \<longleftrightarrow> k = 0 \<or> fst (Satisfies u n (spConstraints spec)) \<and> fst (nodeSupportsPlatform n (spPlatforms spec)) \<and>
     (spMaxReplicas spec > 0 \<longrightarrow> held (nodeID n) + k \<le> spMaxReplicas spec)"

definition plan :: "goText \<Rightarrow> serviceSpec \<Rightarrow> (string \<Rightarrow> nat) \<Rightarrow> node list \<Rightarrow> nat \<Rightarrow> nat list \<Rightarrow> bool" where
  "plan u spec held candidates running ks \<longleftrightarrow> sum_list ks = running \<and> list_all2 (fits_node u spec held) candidates ks"

lemma fold_assess:
  "snd (fold (assess u spec placed) ns (b, acc)) = acc @ filter (\<lambda>n. fst (nodeCanHost u n spec (gor placed (nodeID n) 0))) ns"
  by (induction ns arbitrary: b acc) (auto simp: assess_def split: prod.splits)

lemma nodeCanHost_fits:
  "fst (nodeCanHost u n spec (held (nodeID n))) \<longleftrightarrow> fits_node u spec held n 1"
  by (auto simp: nodeCanHost_def fits_node_def split: prod.splits bool.splits)

text \<open>How much room a node has.\<close>

definition room :: "nat \<Rightarrow> (string \<Rightarrow> nat) \<Rightarrow> node \<Rightarrow> nat" where
  "room cap held n = (if held (nodeID n) < cap then cap - held (nodeID n) else 0)"

lemma fits_room: "spMaxReplicas spec > 0 \<Longrightarrow> fits_node u spec held n k \<longleftrightarrow> k = 0 \<or> fits_node u spec held n 1 \<and> k \<le> room (spMaxReplicas spec) held n"
  by (auto simp: fits_node_def room_def)

lemma fits_uncapped: "spMaxReplicas spec = 0 \<Longrightarrow> fits_node u spec held n k \<longleftrightarrow> k = 0 \<or> fits_node u spec held n 1"
  by (auto simp: fits_node_def)

lemma spread:
  fixes running :: nat
  assumes "running \<le> sum_list (map cap ns)"
  shows "\<exists>ks. sum_list ks = running \<and> list_all2 (\<lambda>n k. k \<le> cap n) ns ks"
  using assms
proof (induction ns arbitrary: running)
  case (Cons n ns)
  define k where "k = min running (cap n)"
  have "running - k \<le> sum_list (map cap ns)" using Cons.prems by (simp add: k_def min_def; arith)
  then obtain ks where "sum_list ks = running - k" "list_all2 (\<lambda>n k. k \<le> cap n) ns ks" using Cons.IH by blast
  then show ?case by (intro exI [of _ "k # ks"]) (simp add: k_def)
qed simp

lemma list_all2_sum_le: "list_all2 (\<lambda>n k. k \<le> cap n) ns ks \<Longrightarrow> sum_list ks \<le> sum_list (map cap ns)" for cap :: "'a \<Rightarrow> nat"
  by (induction rule: list_all2_induct) auto

lemma plan_capped:
  assumes "spMaxReplicas spec > 0"
  shows "(\<exists>ks. plan u spec held ns running ks) \<longleftrightarrow>
    running \<le> sum_list (map (room (spMaxReplicas spec) held) (filter (\<lambda>n. fits_node u spec held n 1) ns))"
proof -
  let ?cap = "\<lambda>n. if fits_node u spec held n 1 then room (spMaxReplicas spec) held n else 0"
  have c: "fits_node u spec held n k \<longleftrightarrow> k \<le> ?cap n" for n k
    using fits_room [OF assms, of u held n k] by auto
  have s: "sum_list (map ?cap ns) = sum_list (map (room (spMaxReplicas spec) held) (filter (\<lambda>n. fits_node u spec held n 1) ns))"
    by (induction ns) auto
  have f: "list_all2 (fits_node u spec held) ns ks = list_all2 (\<lambda>n k. k \<le> ?cap n) ns ks" for ks
    by (rule arg_cong [where f = "\<lambda>R. list_all2 R ns ks"]) (use c in \<open>intro ext; blast\<close>)
  show ?thesis unfolding plan_def f using spread [of running ?cap ns] list_all2_sum_le [of ?cap ns] unfolding s by blast
qed

lemma plan_uncapped:
  assumes "spMaxReplicas spec = 0" "0 < running"
  shows "(\<exists>ks. plan u spec held ns running ks) \<longleftrightarrow> filter (\<lambda>n. fits_node u spec held n 1) ns \<noteq> []"
proof
  assume "\<exists>ks. plan u spec held ns running ks"
  then obtain ks where ks: "sum_list ks = running" "list_all2 (fits_node u spec held) ns ks" by (auto simp: plan_def)
  then obtain k where "k \<in> set ks" "k > 0" using assms(2) sum_list_eq_0_iff [of ks] by auto
  then obtain i where i: "i < length ks" "ks ! i > 0" by (auto simp: in_set_conv_nth)
  then have "fits_node u spec held (ns ! i) 1" "i < length ns"
    using list_all2_nthD2 [OF ks(2) i(1)] list_all2_lengthD [OF ks(2)] i fits_uncapped [OF assms(1), of u held "ns ! i" "ks ! i"] by simp_all
  then show "filter (\<lambda>n. fits_node u spec held n 1) ns \<noteq> []" by (auto simp: filter_empty_conv)
next
  assume "filter (\<lambda>n. fits_node u spec held n 1) ns \<noteq> []"
  then obtain n where "n \<in> set ns" "fits_node u spec held n 1" by (auto simp: filter_empty_conv)
  then obtain xs ys where ns: "ns = xs @ n # ys" by (meson split_list)
  have z: "list_all2 (fits_node u spec held) zs (replicate (length zs) 0)" for zs by (induction zs) (auto simp: fits_node_def)
  have "fits_node u spec held n running" using \<open>fits_node u spec held n 1\<close> fits_uncapped [OF assms(1)] by blast
  then have "plan u spec held ns running (replicate (length xs) 0 @ running # replicate (length ys) 0)"
    by (simp add: plan_def ns list_all2_append z sum_list_replicate)
  then show "\<exists>ks. plan u spec held ns running ks" by blast
qed


lemma placementFor_movable:
  assumes "spMode (svSpec svc) \<noteq> Global" "0 < running" "sum_list (map (room (spMaxReplicas (svSpec svc)) (\<lambda>i. gor placed i 0)) ns) < 2 ^ 64"
  shows "fst (placementFor u svc running ns placed) = (if \<exists>ks. plan u (svSpec svc) (\<lambda>i. gor placed i 0) ns running ks then DrainStateMovable else DrainStateStranded)"
proof -
  let ?spec = "svSpec svc" let ?cap = "spMaxReplicas ?spec" let ?held = "\<lambda>i. gor placed i 0"
  let ?ok = "filter (\<lambda>n. fits_node u ?spec ?held n 1) ns"
  have "snd (fold (assess u ?spec placed) ns ([], [])) = ?ok"
    using fold_assess [of u ?spec placed ns "[]" "[]"] unfolding nodeCanHost_fits [of u _ ?spec ?held] by simp
  then obtain blocked where f: "fold (assess u ?spec placed) ns ([], []) = (blocked, ?ok)" by (cases "fold (assess u ?spec placed) ns ([], [])") auto
  have le: "sum_list (map (room ?cap ?held) ?ok) \<le> sum_list (map (room ?cap ?held) ns)" by (induction ns) auto
  have m: "map (\<lambda>i. if ?held i < ?cap then ?cap - ?held i else 0) (map nodeID ?ok) = map (room ?cap ?held) ?ok" by (simp add: room_def)
  have free: "freeSlots ?cap placed (map nodeID ?ok) = sum_list (map (room ?cap ?held) ?ok)"
    by (simp only: freeSlots_def m mod_less [OF le_less_trans [OF le assms(3)]])
  have empty: "\<not> running \<le> sum_list (map (room ?cap ?held) ?ok)" if "?ok = []" using that assms(2) by simp
  show ?thesis
  proof (cases "?cap > 0")
    case True
    show ?thesis unfolding placementFor_def f free plan_capped [OF True] using assms(1) True empty by (auto simp: Let_def free [unfolded One_nat_def])
  next
    case False
    then have z: "?cap = 0" by simp
    show ?thesis unfolding placementFor_def f plan_uncapped [OF z assms(2)] using assms(1) z by (auto simp: Let_def)
  qed
qed

text \<open>The counts behind the assessment.\<close>

abbreviation live_at :: "string \<Rightarrow> string \<Rightarrow> task \<Rightarrow> bool" where
  "live_at sid nid t \<equiv> TaskIsLive t \<and> tServiceID t = sid \<and> tNodeID t = nid"

lemma bump_count [simp]: "gor (bump k m) j 0 = gor m j 0 + (if j = k then 1 else 0)"
  by (simp add: bump_def)

lemma countTask_onTarget:
  assumes "gget byID sid \<noteq> None"
  shows "gor (fst (fold (countTask target byID) ts acc)) sid 0 = gor (fst acc) sid 0 + length (filter (live_at sid target) ts)"
proof (induction ts arbitrary: acc)
  case (Cons t ts)
  have "gor (fst (countTask target byID t acc)) sid 0 = gor (fst acc) sid 0 + (if live_at sid target t then 1 else 0)"
    using assms by (auto simp: countTask_def split: prod.splits)
  then show ?case by (simp add: Cons.IH)
qed simp

lemma countTask_placed:
  assumes "gget byID sid \<noteq> None" "nid \<noteq> target"
  shows "gor (gor (snd (fold (countTask target byID) ts acc)) sid []) nid 0 =
    gor (gor (snd acc) sid []) nid 0 + length (filter (live_at sid nid) ts)"
proof (induction ts arbitrary: acc)
  case (Cons t ts)
  have "gor (gor (snd (countTask target byID t acc)) sid []) nid 0 = gor (gor (snd acc) sid []) nid 0 + (if live_at sid nid t then 1 else 0)"
    using assms by (auto simp: countTask_def split: prod.splits)
  then show ?case by (simp add: Cons.IH)
qed simp

lemma countTask_wf:
  assumes "gwf (fst acc)" "\<forall>k v. gget (fst acc) k = Some v \<longrightarrow> v > 0"
  shows "gwf (fst (fold (countTask target byID) ts acc)) \<and> (\<forall>k v. gget (fst (fold (countTask target byID) ts acc)) k = Some v \<longrightarrow> v > 0)"
  using assms
proof (induction ts arbitrary: acc)
  case (Cons t ts)
  have "gwf (fst (countTask target byID t acc)) \<and> (\<forall>k v. gget (fst (countTask target byID t acc)) k = Some v \<longrightarrow> v > 0)"
    using Cons.prems by (auto simp: countTask_def bump_def split: prod.splits)
  then show ?case using Cons.IH [of "countTask target byID t acc"] by simp
qed simp


lemma plan_cong:
  assumes "\<And>n. n \<in> set ns \<Longrightarrow> held (nodeID n) = held' (nodeID n)"
  shows "plan u spec held ns running ks = plan u spec held' ns running ks"
proof -
  have "list_all2 (fits_node u spec held) ns ks = list_all2 (fits_node u spec held') ns ks"
    using assms by (induction ns arbitrary: ks) (auto simp: list_all2_Cons1 fits_node_def)
  then show ?thesis by (simp add: plan_def)
qed

definition carried :: "task list \<Rightarrow> string \<Rightarrow> string \<Rightarrow> nat" where
  "carried tasks sid nid = length (filter (live_at sid nid) tasks)"

lemma byID_lookup:
  fixes svc :: service
  assumes "distinct (map svID services)" "svc \<in> set services"
  shows "gget (fold (\<lambda>svc m. gset m (svID svc) svc) services m) (svID svc) = Some svc"
  using assms
proof (induction services arbitrary: m)
  case (Cons s services)
  have keep: "svID x \<notin> svID ` set ss \<Longrightarrow> gget (fold (\<lambda>svc m. gset m (svID svc) svc) ss m) (svID x) = gget m (svID x)" for ss m and x :: service
    by (induction ss arbitrary: m) auto
  show ?case using Cons keep [of svc services] by auto
qed simp

text \<open>
  C14. The verdict on a service with tasks on the node to be drained: a global service is called that; any other is called movable iff all those
  tasks can be moved, that is, iff there is a distribution of them over the other ready and active nodes that satisfy the service's constraints
  and platforms, which keeps every node within the replica cap together with the tasks it carries now; otherwise it is called stranded. The
  room under the cap is added up in 64 bits, so the number of candidate nodes times the cap must stay below \<open>2 ^ 64\<close> (\<open>freeSlots_wraps\<close>).
\<close>

theorem drain_verdict_is_a_plan:
  assumes "svc \<in> set services" "distinct (map svID services)"
    "0 < carried tasks (svID svc) (nodeID target)" "candidates = filter (candidate_node (nodeID target)) clusterNodes"
    "length candidates * spMaxReplicas (svSpec svc) < 2 ^ 64"
  shows "\<exists>v \<in> set (tgNodes (DrainImpactGraph u target clusterNodes tasks services)). tnID v = svID svc \<and> tnType v = ''service'' \<and>
    tnState v = (if spMode (svSpec svc) = Global then ''global''
      else if \<exists>ks. plan u (svSpec svc) (carried tasks (svID svc)) candidates (carried tasks (svID svc) (nodeID target)) ks
      then ''movable'' else ''stranded'')"
proof -
  let ?byID = "fold (\<lambda>svc m. gset m (svID svc) svc) services []" let ?sid = "svID svc"
  obtain onTarget placed where acc: "fold (countTask (nodeID target) ?byID) tasks ([], []) = (onTarget, placed)" by fastforce
  have s: "gget ?byID ?sid = Some svc" by (rule byID_lookup [OF assms(2,1)])
  have run: "gor onTarget ?sid 0 = carried tasks ?sid (nodeID target)"
    using countTask_onTarget [of ?byID ?sid "nodeID target" tasks "([], [])"] s acc by (simp add: carried_def)
  then have mem: "(?sid, carried tasks ?sid (nodeID target)) \<in> set onTarget"
    using assms(3) by (auto simp: gor_def dest: map_of_SomeD split: option.splits)
  let ?held = "\<lambda>i. gor (gor placed ?sid []) i 0"
  have held: "?held (nodeID n) = carried tasks ?sid (nodeID n)" if "n \<in> set candidates" for n
  proof -
    have "nodeID n \<noteq> nodeID target" using that by (simp add: assms(4) candidate_node_def)
    then show ?thesis using countTask_placed [of ?byID ?sid "nodeID n" "nodeID target" tasks "([], [])"] s acc by (simp add: carried_def gor_def)
  qed
  have "sum_list (map (room (spMaxReplicas (svSpec svc)) ?held) ns) \<le> length ns * spMaxReplicas (svSpec svc)" for ns
    by (induction ns) (auto simp: room_def)
  then have "sum_list (map (room (spMaxReplicas (svSpec svc)) ?held) candidates) < 2 ^ 64" using assms(5) by (meson le_less_trans)
  note P = placementFor_movable [OF _ assms(3) this, of u]
  obtain state detail accepted where pf: "placementFor u svc (carried tasks ?sid (nodeID target)) candidates (gor placed ?sid []) = (state, detail, accepted)"
    by (cases "placementFor u svc (carried tasks ?sid (nodeID target)) candidates (gor placed ?sid [])") auto
  have "(serviceNode svc state)\<lparr>tnDetail := detail\<rparr> \<in> set (tgNodes (DrainImpactGraph u target clusterNodes tasks services))"
    using mem s pf by (force simp: DrainImpactGraph_def acc newGraph_def Let_def assms(4))
  moreover have "plan u (svSpec svc) ?held candidates r ks = plan u (svSpec svc) (carried tasks ?sid) candidates r ks" for r ks
    by (rule plan_cong) (rule held)
  moreover have "state = ''global''" if "spMode (svSpec svc) = Global" using pf that by (simp add: placementFor_def DrainStateGlobal_def)
  ultimately show ?thesis using P pf by (intro bexI) (auto simp: serviceNode_def DrainStateMovable_def DrainStateStranded_def)
qed


definition ex_text :: goText where
  "ex_text = \<lparr>uToLower = id, uFields = (\<lambda>_. []), gtEqualFold = (=), gtTrimSpace = id, gtParseIP = (\<lambda>_. None), gtParseCIDR = (\<lambda>_. None)\<rparr>"

definition ex_node :: "string \<Rightarrow> node" where
  "ex_node i = \<lparr>nodeID = i, nodeVersion = 1, nodeRole = ''worker'', nodeHostname = i, nodeLabels = [], nodeEngineLabels = [], nodeOS = ''linux'',
     nodeArch = ''amd64'', nodeAddr = [], nodeState = NodeStateReady, nodeAvailability = NodeAvailabilityActive, nodeManager = None,
     nodeNanoCPUs = 0, nodeMemory = 0\<rparr>"

definition ex_pinned :: service where
  "ex_pinned = ex_service\<lparr>svSpec := (svSpec ex_service)\<lparr>spPlacement := Some \<lparr>plConstraints = [''node.hostname==n1''], plPlatforms = [], plMaxReplicas = 0, plRest = []\<rparr>\<rparr>\<rparr>"

text \<open>A service pinned to the node that is drained has no plan, and is called stranded.\<close>

theorem drain_verdict_is_a_plan_witness:
  "\<exists>v \<in> set (tgNodes (DrainImpactGraph ex_text (ex_node ''n1'') [ex_node ''n1'', ex_node ''n2''] [ex_task] [ex_pinned])).
     tnID v = ''s1'' \<and> tnState v = ''stranded''"
proof -
  have c: "carried [ex_task] ''s1'' ''n1'' = 1" by (simp add: carried_def ex_task_def TaskIsLive_def)
  have s: "svID ex_pinned = ''s1''" "spMode (svSpec ex_pinned) \<noteq> Global" "spMaxReplicas (svSpec ex_pinned) = 0" "spConstraints (svSpec ex_pinned) = [''node.hostname==n1'']"
    by (simp_all add: ex_pinned_def ex_service_def spMaxReplicas_def spConstraints_def)
  have cand: "\<not> candidate_node ''n1'' (ex_node ''n1'')" "candidate_node ''n1'' (ex_node ''n2'')"
    by (simp_all add: candidate_node_def ex_node_def)
  have "\<not> fst (Satisfies ex_text (ex_node ''n2'') [''node.hostname==n1''])" by code_simp
  then have "\<not> (\<exists>ks. plan ex_text (svSpec ex_pinned) held [ex_node ''n2''] 1 ks)" for held
    by (auto simp: plan_def list_all2_Cons1 fits_node_def s(4))
  moreover have i: "nodeID (ex_node ''n1'') = ''n1''" by (simp add: ex_node_def)
  ultimately have "\<exists>v \<in> set (tgNodes (DrainImpactGraph ex_text (ex_node ''n1'') [ex_node ''n1'', ex_node ''n2''] [ex_task] [ex_pinned])).
      tnID v = ''s1'' \<and> tnType v = ''service'' \<and> tnState v = ''stranded''"
    using drain_verdict_is_a_plan [of ex_pinned "[ex_pinned]" "[ex_task]" "ex_node ''n1''" "[ex_node ''n2'']" "[ex_node ''n1'', ex_node ''n2'']" ex_text]
    by (simp add: s c cand del: not_ex)
  then show ?thesis by blast
qed


text \<open>The free slots are added up in 64 bits: two empty nodes under a cap of \<open>2 ^ 63\<close> count as no room at all.\<close>

lemma freeSlots_wraps: "freeSlots (2 ^ 63) [] [''a'', ''b''] = 0"
  by (simp add: freeSlots_def)

end
