(* ===== verification/Cluster_State.thy ===== *)
theory Cluster_State
  imports Drain
begin

text \<open>
  The condition of services and of the swarm: \<open>internal/quorum/quorum.go\<close>, \<open>internal/cluster/state.go\<close> and \<open>converge.go\<close>, and the
  eligible nodes of \<open>internal/cache/cache.go\<close>. A wait for convergence looks once per tick, and one look takes the lock of the cache three
  times; the caches it finds are three of each look, and the looks a list, one per tick until the context ends.
\<close>

section \<open>Quorum\<close>

record quorum =
  qmManagers :: nat
  qmReachable :: nat
  qmSize :: nat
  qmHeld :: bool
  qmCanLose :: nat

definition QuorumSize :: "nat \<Rightarrow> nat" where
  "QuorumSize managers = managers div 2 + 1"

definition ReachableManager :: "node \<Rightarrow> bool" where
  "ReachableManager n = (case nodeManager n of None \<Rightarrow> False | Some r \<Rightarrow> r \<noteq> ReachabilityUnreachable)"

definition countManager :: "node \<Rightarrow> quorum \<Rightarrow> quorum" where
  "countManager n q = (if nodeManager n = None then q
     else (let q1 = q\<lparr>qmManagers := qmManagers q + 1\<rparr> in if ReachableManager n then q1\<lparr>qmReachable := qmReachable q1 + 1\<rparr> else q1))"

definition QuorumOf :: "node list \<Rightarrow> quorum" where
  "QuorumOf nodes = (let q = fold countManager nodes \<lparr>qmManagers = 0, qmReachable = 0, qmSize = 0, qmHeld = False, qmCanLose = 0\<rparr> in
     if qmManagers q = 0 then q
     else (let size' = QuorumSize (qmManagers q) in
       q\<lparr>qmSize := size', qmHeld := (qmReachable q \<ge> size'), qmCanLose := qmReachable q - size'\<rparr>))"

section \<open>Service states\<close>

text \<open>The conversion \<open>int(n)\<close> of an unsigned 64-bit number.\<close>

definition goInt :: "nat \<Rightarrow> int" where
  "goInt n = (let m = n mod 2 ^ 64 in if m < 2 ^ 63 then int m else int m - 2 ^ 64)"

definition serviceUpdateInFlight :: "service \<Rightarrow> bool" where
  "serviceUpdateInFlight svc = (case svUpdateState svc of
     None \<Rightarrow> False
   | Some st \<Rightarrow> st \<in> {UpdateStateUpdating, UpdateStateRollbackStarted, UpdateStateRollbackPaused})"

definition jobTotalCompletions :: "service \<Rightarrow> int" where
  "jobTotalCompletions svc = (case spMode (svSpec svc) of
     ReplicatedJob conc completions \<Rightarrow> (case completions of Some n \<Rightarrow> goInt n | None \<Rightarrow> (case conc of Some n \<Rightarrow> goInt n | None \<Rightarrow> 1))
   | _ \<Rightarrow> 0)"

definition jobTarget :: "service \<Rightarrow> int" where
  "jobTarget svc = max (jobTotalCompletions svc) 1"

definition StateCompleted :: string where "StateCompleted = ''completed''"

definition jobState :: "service \<Rightarrow> int \<Rightarrow> int \<Rightarrow> string" where
  "jobState svc runningCount completedCount = (if runningCount > 0 then ''running''
     else if completedCount \<ge> jobTarget svc then StateCompleted else ''failed'')"

definition ReplicaCount :: "service \<Rightarrow> int" where
  "ReplicaCount svc = (case spMode (svSpec svc) of Replicated (Some n) \<Rightarrow> goInt n | _ \<Rightarrow> 0)"

definition DesiredTaskCount :: "service \<Rightarrow> int \<Rightarrow> int" where
  "DesiredTaskCount svc eligibleNodes = (if IsJobService svc then jobTarget svc
     else if spMode (svSpec svc) = Global then eligibleNodes else ReplicaCount svc)"

text \<open>What is outstanding, in place of the progress line: whether the service has settled, and why not.\<close>

datatype progress = UpdateInProgress int | JobCompleted int | JobWaiting int int | TasksRunning int
  | ReplicasRunning int int | ReplicasWaiting int int | NotInCache | NotVisibleYet nat nat

definition ServiceConverged :: "service \<Rightarrow> int \<Rightarrow> int \<Rightarrow> bool \<times> progress" where
  "ServiceConverged svc runningCount completedCount = (if serviceUpdateInFlight svc then (False, UpdateInProgress runningCount)
     else if IsJobService svc
       then (if jobState svc runningCount completedCount = StateCompleted then (True, JobCompleted completedCount)
             else (False, JobWaiting completedCount runningCount))
     else (case spMode (svSpec svc) of
         Replicated (Some n) \<Rightarrow> (let desired = goInt n in
           if runningCount = desired then (True, ReplicasRunning runningCount desired) else (False, ReplicasWaiting runningCount desired))
       | _ \<Rightarrow> (True, TasksRunning runningCount)))"

type_synonym eligible = "int option"

definition EligibleIn :: "nat gomap \<Rightarrow> string \<Rightarrow> eligible" where
  "EligibleIn counts serviceID = map_option int (gget counts serviceID)"

definition DeriveServiceState :: "service \<Rightarrow> int \<Rightarrow> int \<Rightarrow> eligible \<Rightarrow> bool \<Rightarrow> string" where
  "DeriveServiceState svc runningCount completedCount elig flapping = (if serviceUpdateInFlight svc then ''updating''
     else if IsJobService svc then jobState svc runningCount completedCount
     else if spMode (svSpec svc) = Global
       then (if runningCount = 0 \<and> (case elig of None \<Rightarrow> True | Some n \<Rightarrow> n > 0) then ''pending''
             else if flapping then ''flapping'' else ''running'')
     else (let desired = ReplicaCount svc in
       if desired > 0 \<and> runningCount = 0 then ''failed''
       else if runningCount < desired then ''pending''
       else if flapping then ''flapping'' else ''running''))"

record serviceStates =
  ssConverged :: nat
  ssDegraded :: nat

definition CountServiceStates :: "nat gomap \<Rightarrow> nat gomap \<Rightarrow> bool gomap \<Rightarrow> service list \<Rightarrow> nat gomap \<Rightarrow> serviceStates" where
  "CountServiceStates runningBy completedBy flapping services elig = fold (\<lambda>svc st.
     (let state = DeriveServiceState svc (int (gor runningBy (svID svc) 0)) (int (gor completedBy (svID svc) 0))
            (EligibleIn elig (svID svc)) (gor flapping (svID svc) False) in
      if state = ''running'' \<or> state = StateCompleted then st\<lparr>ssConverged := ssConverged st + 1\<rparr>
      else if state \<in> {''failed'', ''pending'', ''flapping''} then st\<lparr>ssDegraded := ssDegraded st + 1\<rparr> else st))
     services \<lparr>ssConverged = 0, ssDegraded = 0\<rparr>"

section \<open>Eligible nodes\<close>

definition schedulableNodesLocked :: "bool \<Rightarrow> cache \<Rightarrow> node list" where
  "schedulableNodesLocked withPaused c = filter (\<lambda>n. nodeState n = NodeStateReady \<and>
     (nodeAvailability n = NodeAvailabilityActive \<or> withPaused \<and> nodeAvailability n = NodeAvailabilityPause)) (map snd (cNodes c))"

definition globalTaskCount :: "goText \<Rightarrow> service \<Rightarrow> node list \<Rightarrow> nat" where
  "globalTaskCount u svc nodes = (if spConstraints (svSpec svc) = [] then length nodes
     else length (filter (\<lambda>n. fst (Satisfies u n (spConstraints (svSpec svc)))) nodes))"

definition EligibleNodeCounts :: "goText \<Rightarrow> service list \<Rightarrow> cache \<Rightarrow> nat gomap" where
  "EligibleNodeCounts u services c = (let elig = schedulableNodesLocked False c in
     fold (\<lambda>svc out. if spMode (svSpec svc) = Global then gset out (svID svc) (globalTaskCount u svc elig) else out) services [])"

section \<open>Waiting for a write to settle\<close>

text \<open>
  A look reads the service, its running tasks and its completed tasks apart (\<open>converge.go\<close> lines 61 and 73), and the cache may move between:
  the three caches are those each read finds.
\<close>

record look =
  lkService :: cache
  lkRunning :: cache
  lkCompleted :: cache

definition serviceConvergedAt :: "look \<Rightarrow> string \<Rightarrow> nat \<Rightarrow> bool \<times> progress" where
  "serviceConvergedAt c serviceID minVersion = (case gget (cServices (lkService c)) serviceID of
     None \<Rightarrow> (False, NotInCache)
   | Some svc \<Rightarrow> if svVersion svc < minVersion then (False, NotVisibleYet (svVersion svc) minVersion)
       else ServiceConverged svc (int (RunningTaskCount (svID svc) (lkRunning c))) (int (CompletedJobTaskCount (svID svc) (lkCompleted c))))"

datatype awaited = Settled progress | GaveUp progress

text \<open>The first look, and the one at each tick before the bounded context is done.\<close>

fun AwaitService :: "string \<Rightarrow> nat \<Rightarrow> look \<Rightarrow> look list \<Rightarrow> awaited" where
  "AwaitService serviceID minVersion c later = (case serviceConvergedAt c serviceID minVersion of
     (True, progress) \<Rightarrow> Settled progress
   | (False, progress) \<Rightarrow> (case later of [] \<Rightarrow> GaveUp progress | c' # rest \<Rightarrow> AwaitService serviceID minVersion c' rest))"

declare AwaitService.simps [simp del]


section \<open>What they promise\<close>

lemma countManager_fold:
  "qmManagers (fold countManager ns q) = qmManagers q + length (filter (\<lambda>n. nodeManager n \<noteq> None) ns)"
  "qmReachable (fold countManager ns q) = qmReachable q + length (filter ReachableManager ns)"
  "qmHeld (fold countManager ns q) = qmHeld q"
  by (induction ns arbitrary: q) (auto simp: countManager_def Let_def ReachableManager_def)

lemma QuorumOf_fields:
  assumes "\<exists>n \<in> set ns. nodeManager n \<noteq> None"
  defines "m \<equiv> length (filter (\<lambda>n. nodeManager n \<noteq> None) ns)" and "r \<equiv> length (filter ReachableManager ns)"
  shows "qmHeld (QuorumOf ns) \<longleftrightarrow> m < 2 * r" "qmCanLose (QuorumOf ns) = r - (m div 2 + 1)" "qmManagers (QuorumOf ns) = m" "r \<le> m"
proof -
  have "m \<noteq> 0" using assms(1) by (auto simp: m_def filter_empty_conv)
  then show "qmHeld (QuorumOf ns) \<longleftrightarrow> m < 2 * r" "qmCanLose (QuorumOf ns) = r - (m div 2 + 1)" "qmManagers (QuorumOf ns) = m"
    by (auto simp: QuorumOf_def Let_def countManager_fold QuorumSize_def m_def r_def)
  have "length (filter ReachableManager ns) \<le> length (filter (\<lambda>n. nodeManager n \<noteq> None) ns)"
    by (induction ns) (auto simp: ReachableManager_def split: option.splits)
  then show "r \<le> m" by (simp add: m_def r_def)
qed

text \<open>Managers that become unreachable.\<close>

definition loseNodes :: "string set \<Rightarrow> node list \<Rightarrow> node list" where
  "loseNodes ids = map (\<lambda>n. if nodeID n \<in> ids \<and> nodeManager n \<noteq> None then n\<lparr>nodeManager := Some ReachabilityUnreachable\<rparr> else n)"

lemma loseNodes_counts:
  "length (filter (\<lambda>n. nodeManager n \<noteq> None) (loseNodes ids ns)) = length (filter (\<lambda>n. nodeManager n \<noteq> None) ns)"
  "length (filter ReachableManager (loseNodes ids ns)) + length (filter (\<lambda>n. ReachableManager n \<and> nodeID n \<in> ids) ns) = length (filter ReachableManager ns)"
  by (induction ns) (auto simp: loseNodes_def ReachableManager_def split: option.splits)

text \<open>
  C38. A swarm whose quorum is held has more than half of its managers reachable, and \<open>CanLose\<close> is exactly how many more it may lose: after
  any set of reachable managers becomes unreachable, quorum is still held iff there were no more than \<open>CanLose\<close> of them.
\<close>

theorem quorum_can_lose:
  assumes "qmHeld (QuorumOf ns)"
  shows "qmManagers (QuorumOf ns) < 2 * qmReachable (QuorumOf ns) \<and>
    (qmHeld (QuorumOf (loseNodes ids ns)) \<longleftrightarrow> length (filter (\<lambda>n. ReachableManager n \<and> nodeID n \<in> ids) ns) \<le> qmCanLose (QuorumOf ns))"
proof -
  have m: "\<exists>n \<in> set ns. nodeManager n \<noteq> None"
    using assms by (auto simp: QuorumOf_def Let_def countManager_fold filter_empty_conv split: if_splits)
  then have m': "\<exists>n \<in> set (loseNodes ids ns). nodeManager n \<noteq> None"
    using loseNodes_counts(1) [of ids ns] by (metis (mono_tags, lifting) filter_empty_conv length_0_conv)
  have r: "qmReachable (QuorumOf ns) = length (filter ReachableManager ns)"
    by (simp add: QuorumOf_def Let_def countManager_fold)
  show ?thesis using QuorumOf_fields [OF m] QuorumOf_fields [OF m'] loseNodes_counts [of ids ns] assms r by auto
qed

definition ex_manager :: "string \<Rightarrow> node" where
  "ex_manager i = (ex_node i)\<lparr>nodeManager := Some ReachabilityReachable\<rparr>"

theorem quorum_can_lose_witness:
  "\<not> qmHeld (QuorumOf (loseNodes {''a'', ''b''} [ex_manager ''a'', ex_manager ''b'', ex_manager ''c'']))"
proof -
  have "qmHeld (QuorumOf [ex_manager ''a'', ex_manager ''b'', ex_manager ''c''])" "qmCanLose (QuorumOf [ex_manager ''a'', ex_manager ''b'', ex_manager ''c'']) = 1"
    by (simp_all add: QuorumOf_def countManager_def ReachableManager_def ex_manager_def ex_node_def QuorumSize_def Let_def)
  with quorum_can_lose [OF this(1), of "{''a'', ''b''}"] show ?thesis
    by (simp add: ReachableManager_def ex_manager_def ex_node_def)
qed

text \<open>
  The state shown and the end of a wait agree: an update in flight is shown as updating and is not settled; a job is settled iff it is
  shown as completed; a replicated service is settled iff it runs exactly its replicas, and then it is shown as running or flapping.
  A global service is settled as soon as no update is in flight, and may still be shown as pending.
\<close>

theorem settled_states_agree:
  assumes "0 \<le> runningCount"
  shows "(serviceUpdateInFlight svc \<longrightarrow> \<not> fst (ServiceConverged svc runningCount completedCount) \<and>
       DeriveServiceState svc runningCount completedCount elig flapping = ''updating'') \<and>
    (\<not> serviceUpdateInFlight svc \<and> IsJobService svc \<longrightarrow>
       (fst (ServiceConverged svc runningCount completedCount) \<longleftrightarrow> DeriveServiceState svc runningCount completedCount elig flapping = ''completed'')) \<and>
    (\<not> serviceUpdateInFlight svc \<and> spMode (svSpec svc) = Replicated (Some n) \<longrightarrow>
       (fst (ServiceConverged svc runningCount completedCount) \<longleftrightarrow> runningCount = goInt n) \<and>
       (runningCount = goInt n \<longrightarrow> DeriveServiceState svc runningCount completedCount elig flapping = (if flapping then ''flapping'' else ''running''))) \<and>
    (\<not> serviceUpdateInFlight svc \<and> spMode (svSpec svc) = Global \<longrightarrow> fst (ServiceConverged svc runningCount completedCount) \<and>
       (DeriveServiceState svc 0 completedCount None flapping = ''pending''))"
  using assms by (auto simp: ServiceConverged_def DeriveServiceState_def IsJobService_def ReplicaCount_def StateCompleted_def jobState_def Let_def)

theorem settled_states_agree_witness:
  "fst (ServiceConverged ex_service 1 0)" 
  using settled_states_agree [of 1 ex_service 0 None False 1]
  by (simp add: ex_service_def serviceUpdateInFlight_def goInt_def)


lemma AwaitService_iff:
  "(\<exists>p. AwaitService i v c later = Settled p) \<longleftrightarrow> (\<exists>c' \<in> set (c # later). fst (serviceConvergedAt c' i v))"
proof (induction later arbitrary: c)
  case Nil
  show ?case by (subst AwaitService.simps) (auto split: prod.split bool.split)
next
  case (Cons c' rest)
  then show ?case using Cons.IH [of c'] by (subst AwaitService.simps) (auto split: prod.split bool.split)
qed

text \<open>How many tasks of a service the task table holds that count, and when a service counts as settled, over what the table holds.\<close>

definition tasksThat :: "(task \<Rightarrow> bool) \<Rightarrow> string \<Rightarrow> cache \<Rightarrow> nat" where
  "tasksThat P i c = length (filter (\<lambda>t. P t \<and> tServiceID t = i) (map snd (cTasks c)))"

definition runs :: "task \<Rightarrow> bool" where
  "runs t \<longleftrightarrow> tState t = TaskStateRunning \<and> tDesiredState t \<notin> {TaskStateShutdown, TaskStateRemove}"

definition completesRun :: "string \<Rightarrow> cache \<Rightarrow> task \<Rightarrow> bool" where
  "completesRun i c t \<longleftrightarrow> tState t = TaskStateComplete \<and> (\<exists>svc. gget (cServices c) i = Some svc \<and>
     ((\<exists>a b. spMode (svSpec svc) = ReplicatedJob a b) \<or> spMode (svSpec svc) = GlobalJob) \<and>
     (\<forall>m n. svJobIteration svc = Some m \<and> tJobIteration t = Some n \<longrightarrow> n = m))"

definition jobNeeds :: "nat option \<Rightarrow> nat option \<Rightarrow> int" where
  "jobNeeds concurrent completions = max 1 (case completions of Some n \<Rightarrow> goInt n | None \<Rightarrow> (case concurrent of Some n \<Rightarrow> goInt n | None \<Rightarrow> 1))"

definition settled :: "look \<Rightarrow> string \<Rightarrow> service \<Rightarrow> bool" where
  "settled l i svc \<longleftrightarrow>
     svUpdateState svc \<notin> {Some UpdateStateUpdating, Some UpdateStateRollbackStarted, Some UpdateStateRollbackPaused} \<and>
     (case spMode (svSpec svc) of
        Replicated (Some n) \<Rightarrow> int (tasksThat runs i (lkRunning l)) = goInt n
      | ReplicatedJob a b \<Rightarrow> tasksThat runs i (lkRunning l) = 0 \<and>
          jobNeeds a b \<le> int (tasksThat (completesRun i (lkCompleted l)) i (lkCompleted l))
      | GlobalJob \<Rightarrow> tasksThat runs i (lkRunning l) = 0 \<and> 1 \<le> tasksThat (completesRun i (lkCompleted l)) i (lkCompleted l)
      | _ \<Rightarrow> True)"

lemma RunningTaskCount_tasks:
  assumes "reachable c" "i \<noteq> []"
  shows "RunningTaskCount i c = tasksThat runs i c"
  unfolding RunningTaskCount_def indexed_count [OF assms] tasksThat_def
  by (intro arg_cong [of _ _ length] filter_cong) (auto simp: CountsAsRunningReplica_def TaskIsLive_def runs_def)

lemma CompletedJobTaskCount_tasks:
  assumes "reachable c" "i \<noteq> []"
  shows "CompletedJobTaskCount i c = tasksThat (completesRun i c) i c"
proof (cases "gget (cServices c) i")
  case None
  then show ?thesis by (simp add: CompletedJobTaskCount_def tasksThat_def completesRun_def)
next
  case (Some svc)
  then have "CompletedJobTaskCount i c = length (filter (\<lambda>t. CountsAsJobCompletion svc t \<and> tServiceID t = i) (map snd (cTasks c)))"
    by (simp add: CompletedJobTaskCount_def indexed_count [OF assms])
  moreover have "CountsAsJobCompletion svc t = completesRun i c t" for t
    using Some by (auto simp: CountsAsJobCompletion_def completesRun_def IsJobService_def is_ReplicatedJob_def inCurrentJobRun_def
        split: option.splits)
  ultimately show ?thesis by (simp add: tasksThat_def)
qed

lemma converged_is_settled:
  assumes "reachable (lkService l)" "reachable (lkRunning l)" "reachable (lkCompleted l)" "i \<noteq> []"
  shows "fst (serviceConvergedAt l i v) \<longleftrightarrow> (\<exists>svc. gget (cServices (lkService l)) i = Some svc \<and> v \<le> svVersion svc \<and> settled l i svc)"
proof (cases "gget (cServices (lkService l)) i")
  case None
  then show ?thesis by (simp add: serviceConvergedAt_def)
next
  case (Some svc)
  then have "svID svc = i" using reachable_ok [OF assms(1)] by (simp add: cache_ok_def maps_ok_def keyed_def)
  moreover have "fst (ServiceConverged svc (int (tasksThat runs i (lkRunning l))) (int (tasksThat (completesRun i (lkCompleted l)) i (lkCompleted l))))
    = settled l i svc"
    by (cases "svUpdateState svc"; cases "spMode (svSpec svc)")
      (auto simp: ServiceConverged_def settled_def serviceUpdateInFlight_def IsJobService_def jobState_def jobTarget_def jobTotalCompletions_def
        jobNeeds_def StateCompleted_def Let_def max.commute split: option.splits)
  ultimately show ?thesis
    using Some by (auto simp: serviceConvergedAt_def RunningTaskCount_tasks [OF assms(2,4)] CompletedJobTaskCount_tasks [OF assms(3,4)])
qed

text \<open>
  C36. A wait for a write ends with success iff one of its looks finds the service at the version the write produced or a later one, with no
  update in flight, and finds its tasks settled: a replicated service runs exactly its replicas, a job has nothing running and its run
  complete, and another service only has to be there. An older version is never taken for the result, however settled it looks. The three
  reads of a look may find three different caches, and the counts are those of the task table at their own read.
\<close>

theorem await_needs_the_written_version:
  assumes "\<forall>l \<in> set (l0 # later). reachable (lkService l) \<and> reachable (lkRunning l) \<and> reachable (lkCompleted l)" "i \<noteq> []"
  shows "(\<exists>p. AwaitService i v l0 later = Settled p) \<longleftrightarrow>
    (\<exists>l \<in> set (l0 # later). \<exists>svc. gget (cServices (lkService l)) i = Some svc \<and> v \<le> svVersion svc \<and> settled l i svc)"
  unfolding AwaitService_iff using converged_is_settled assms by (metis (no_types, lifting))

theorem await_needs_the_written_version_witness:
  "(\<exists>p. AwaitService ''s1'' 3 \<lparr>lkService = New 0 [] 8, lkRunning = ex_cache, lkCompleted = New 0 [] 8\<rparr>
       [\<lparr>lkService = ex_cache, lkRunning = ex_cache, lkCompleted = New 0 [] 8\<rparr>] = Settled p) \<and>
   \<not> (\<exists>p. AwaitService ''s1'' 4 \<lparr>lkService = ex_cache, lkRunning = ex_cache, lkCompleted = ex_cache\<rparr> [] = Settled p)"
proof
  let ?first = "\<lparr>lkService = New 0 [] 8, lkRunning = ex_cache, lkCompleted = New 0 [] 8\<rparr>"
  let ?last = "\<lparr>lkService = ex_cache, lkRunning = ex_cache, lkCompleted = New 0 [] 8\<rparr>"
  have svc: "gget (cServices ex_cache) ''s1'' = Some ex_service" and tasks: "tasksThat runs ''s1'' ex_cache = 1"
    by code_simp+
  show "\<exists>p. AwaitService ''s1'' 3 ?first [?last] = Settled p"
    using await_needs_the_written_version [of ?first "[?last]" "''s1''" 3] svc tasks
    by (simp add: ex_cache_reachable reachable.start settled_def ex_service_def goInt_def)
  show "\<not> (\<exists>p. AwaitService ''s1'' 4 \<lparr>lkService = ex_cache, lkRunning = ex_cache, lkCompleted = ex_cache\<rparr> [] = Settled p)"
    using await_needs_the_written_version [of "\<lparr>lkService = ex_cache, lkRunning = ex_cache, lkCompleted = ex_cache\<rparr>" "[]" "''s1''" 4] svc
    by (simp add: ex_cache_reachable ex_service_def)
qed

end
