(* ===== verification/Ipam.thy ===== *)
theory Ipam
  imports Swarm Go_Strings
begin

text \<open>
  The IPv4 address pools of swarm networks, \<open>internal/ipam/ipam.go\<close>, with what it uses of \<open>net/netip\<close>: an address that is not a
  dotted quad never satisfies \<open>Is4\<close>, so only those are parsed. Addresses are numbers below \<open>2 ^ 32\<close>.
\<close>

section \<open>Parsing\<close>

text \<open>\<open>parseIPv4\<close>: four decimal fields up to 255, without leading zeros. The state is the value and the number of digits of the current field.\<close>

fun quad :: "string \<Rightarrow> nat \<Rightarrow> nat \<Rightarrow> nat list \<Rightarrow> nat list option" where
  "quad [] val digLen done = (if digLen > 0 \<and> length done = 3 then Some (done @ [val]) else None)"
| "quad (c # s) val digLen done = (if isDigit c
     then (if digLen = 1 \<and> val = 0 then None
           else (let v = val * 10 + (of_char c - 48) in if v > 255 then None else quad s v (digLen + 1) done))
     else if c = CHR ''.'' then (if digLen = 0 \<or> length done = 3 then None else quad s 0 0 (done @ [val]))
     else None)"

definition ParseAddr4 :: "string \<Rightarrow> nat option" where
  "ParseAddr4 s = map_option (foldl (\<lambda>n b. n * 256 + b) 0) (quad s 0 0 [])"

text \<open>\<open>ParsePrefix\<close> splits at the last slash.\<close>

definition lastSlash :: "string \<Rightarrow> (string \<times> string) option" where
  "lastSlash s = (if CHR ''/'' \<in> set s
     then Some (rev (drop 1 (dropWhile (\<lambda>c. c \<noteq> CHR ''/'') (rev s))), rev (takeWhile (\<lambda>c. c \<noteq> CHR ''/'') (rev s))) else None)"

definition ParsePrefix4 :: "string \<Rightarrow> (nat \<times> nat) option" where
  "ParsePrefix4 s = (case lastSlash s of
     None \<Rightarrow> None
   | Some (a, bits) \<Rightarrow> (case ParseAddr4 a of
       None \<Rightarrow> None
     | Some addr \<Rightarrow> if length bits > 1 \<and> hd bits = CHR ''0'' then None
         else (case ParseUint bits of Some n \<Rightarrow> if n \<le> 32 then Some (addr, n) else None | None \<Rightarrow> None)))"

definition Masked :: "nat \<times> nat \<Rightarrow> nat \<times> nat" where
  "Masked p = (case p of (addr, bits) \<Rightarrow> (addr - addr mod 2 ^ (32 - bits), bits))"

definition bounds :: "nat \<times> nat \<Rightarrow> nat \<times> nat" where
  "bounds p = (case p of (addr, bits) \<Rightarrow> (addr, addr + 2 ^ (32 - bits) - 1))"

section \<open>The size of a pool\<close>

text \<open>The first address from \<open>low\<close> that is not reserved.\<close>

function firstFree :: "nat \<Rightarrow> nat \<Rightarrow> nat list \<Rightarrow> nat option" where
  "firstFree low high reserved = (if low > high then None else if low \<notin> set reserved then Some low else firstFree (low + 1) high reserved)"
  by pat_completeness auto
termination
  by (relation "measure (\<lambda>(low, high, _). Suc high - low)") auto

declare firstFree.simps [simp del]

definition reserve :: "nat \<Rightarrow> nat list \<Rightarrow> nat list" where
  "reserve a reserved = (if a \<in> set reserved then reserved else a # reserved)"

definition usable :: "ipamConfig \<Rightarrow> nat option" where
  "usable cfg = (case ParsePrefix4 (icSubnet cfg) of
     None \<Rightarrow> None
   | Some p \<Rightarrow> (let
        subnet = Masked p;
        (first, last') = bounds subnet;
        (low, high) = (case ParsePrefix4 (icIPRange cfg) of
            None \<Rightarrow> (first, last')
          | Some pool \<Rightarrow> (case bounds (Masked pool) of (poolFirst, poolLast) \<Rightarrow> (max first poolFirst, min last' poolLast)));
        edges = (if snd subnet \<le> 30 then reserve last' [first] else []);
        reserved = (case ParseAddr4 (icGateway cfg) of
            Some gw \<Rightarrow> reserve gw edges
          | None \<Rightarrow> (case firstFree low high edges of None \<Rightarrow> edges | Some a \<Rightarrow> reserve a edges))
      in if ParsePrefix4 (icIPRange cfg) \<noteq> None \<and> low > high then Some 0
         else Some (high - low + 1 - length (filter (\<lambda>a. low \<le> a \<and> a \<le> high) reserved))))"

definition Counted :: "network \<Rightarrow> bool" where
  "Counted n = (if neScope n \<noteq> ''swarm'' \<or> neIPAMDriver n \<noteq> [] \<and> neIPAMDriver n \<noteq> ''default'' then False
     else list_ex (\<lambda>cfg. usable cfg \<noteq> None) (neIPAMConfig n))"

section \<open>What is taken\<close>

record addresses =
  adUsable :: nat
  adUsed :: nat
  adVIPs :: nat
  adTaskAddresses :: nat
  adLoadBalancers :: nat
  adExcludesAttachedContainers :: bool

record tally =
  taAddr :: addresses
  taIngress :: bool
  taTaken :: "nat list"
  taNodes :: "string list"

definition newTally :: "network \<Rightarrow> tally" where
  "newTally n = \<lparr>taAddr = \<lparr>adUsable = sum_list (List.map_filter usable (neIPAMConfig n)), adUsed = 0, adVIPs = 0, adTaskAddresses = 0,
     adLoadBalancers = 0, adExcludesAttachedContainers = neAttachable n\<rparr>, taIngress = neIngress n, taTaken = [], taNodes = []\<rparr>"

definition takeAddr :: "string \<Rightarrow> tally \<Rightarrow> bool \<times> tally" where
  "takeAddr addr t = (case ParsePrefix4 addr of
     None \<Rightarrow> (False, t)
   | Some (a, _) \<Rightarrow> if a \<in> set (taTaken t) then (False, t) else (True, t\<lparr>taTaken := a # taTaken t\<rparr>))"

definition takeVIP :: "string \<times> string \<Rightarrow> tally gomap \<Rightarrow> tally gomap" where
  "takeVIP vip ts = (case gget ts (fst vip) of
     None \<Rightarrow> ts
   | Some t \<Rightarrow> (case takeAddr (snd vip) t of (fresh, t') \<Rightarrow>
       gset ts (fst vip) (if fresh then t'\<lparr>taAddr := (taAddr t')\<lparr>adVIPs := adVIPs (taAddr t') + 1\<rparr>\<rparr> else t')))"

definition takeTaskAddr :: "string \<Rightarrow> tally \<Rightarrow> tally" where
  "takeTaskAddr addr t = (case takeAddr addr t of (fresh, t') \<Rightarrow>
     if fresh then t'\<lparr>taAddr := (taAddr t')\<lparr>adTaskAddresses := adTaskAddresses (taAddr t') + 1\<rparr>\<rparr> else t')"

definition joinNode :: "string \<Rightarrow> tally \<Rightarrow> tally" where
  "joinNode nid t = (if nid \<noteq> [] \<and> nid \<notin> set (taNodes t) then t\<lparr>taNodes := nid # taNodes t\<rparr> else t)"

definition attach :: "string \<Rightarrow> string \<times> string list \<Rightarrow> tally gomap \<Rightarrow> tally gomap" where
  "attach nid attachment ts = (case gget ts (fst attachment) of
     None \<Rightarrow> ts
   | Some t \<Rightarrow> gset ts (fst attachment) (fold takeTaskAddr (snd attachment) (joinNode nid t)))"

definition liveTask :: "task \<Rightarrow> bool" where
  "liveTask t \<longleftrightarrow> tState t \<in> {TaskStateNew, TaskStateAllocated, TaskStatePending, TaskStateAssigned, TaskStateAccepted, TaskStatePreparing,
     TaskStateReady, TaskStateStarting, TaskStateRunning}"

definition finishTally :: "nat \<Rightarrow> tally \<Rightarrow> addresses" where
  "finishTally nodes t = (let lb = (if taIngress t then nodes else length (taNodes t)); a = taAddr t in
     a\<lparr>adLoadBalancers := lb, adUsed := adVIPs a + adTaskAddresses a + lb\<rparr>)"

definition CountAddresses :: "network list \<Rightarrow> service list \<Rightarrow> task list \<Rightarrow> nat \<Rightarrow> addresses gomap" where
  "CountAddresses networks services tasks nodes = (let
      t0 = fold (\<lambda>n ts. if Counted n then gset ts (neID n) (newTally n) else ts) networks [];
      t1 = fold (\<lambda>svc. fold takeVIP (svVIPs svc)) services t0;
      t2 = fold (\<lambda>t. if liveTask t then fold (attach (tNodeID t)) (tAttachments t) else id) tasks t1
    in map (\<lambda>(i, t). (i, finishTally nodes t)) t2)"


section \<open>Pools are counted exactly\<close>

text \<open>Reference: the addresses that share a prefix, those a pool may hand out, and what is set aside among them.\<close>

definition inPrefix :: "nat \<times> nat \<Rightarrow> nat \<Rightarrow> bool" where
  "inPrefix p a \<longleftrightarrow> a div 2 ^ (32 - snd p) = fst p div 2 ^ (32 - snd p)"

definition handedOut :: "ipamConfig \<Rightarrow> nat \<times> nat \<Rightarrow> nat set" where
  "handedOut cfg p = {a. inPrefix p a \<and> (\<forall>pool. ParsePrefix4 (icIPRange cfg) = Some pool \<longrightarrow> inPrefix pool a)}"

definition edgesOf :: "nat \<times> nat \<Rightarrow> nat set" where
  "edgesOf p = (if snd p \<le> 30 then {Min {a. inPrefix p a}, Max {a. inPrefix p a}} else {})"

definition gatewayOf :: "ipamConfig \<Rightarrow> nat \<times> nat \<Rightarrow> nat set" where
  "gatewayOf cfg p = (case ParseAddr4 (icGateway cfg) of
     Some gw \<Rightarrow> {gw}
   | None \<Rightarrow> (let F = handedOut cfg p - edgesOf p in if F = {} then {} else {Min F}))"

lemma div_range:
  fixes a k q :: nat
  assumes "0 < k"
  shows "a div k = q \<longleftrightarrow> k * q \<le> a \<and> a \<le> k * q + k - 1"
proof
  assume "a div k = q"
  moreover have "k * (a div k) \<le> a" "a < k + k * (a div k)" using assms dividend_less_times_div [of k a] by simp_all
  ultimately show "k * q \<le> a \<and> a \<le> k * q + k - 1" by auto
next
  assume "k * q \<le> a \<and> a \<le> k * q + k - 1"
  then have "k * q \<le> a" "a < k * Suc q" using assms by auto
  then show "a div k = q" by (rule div_nat_eqI)
qed

lemma bounds_Masked: "bounds (Masked (addr, bits)) = (let k = 2 ^ (32 - bits); q = addr div k in (k * q, k * q + k - 1))"
  by (simp add: bounds_def Masked_def minus_mod_eq_mult_div Let_def)

lemma prefix_block: "{a. inPrefix p a} = {fst (bounds (Masked p)) .. snd (bounds (Masked p))}"
  using div_range [of "2 ^ (32 - snd p)"] by (cases p) (auto simp: inPrefix_def bounds_Masked Let_def)

lemma bounds_le: "fst (bounds (Masked p)) \<le> snd (bounds (Masked p))"
proof (cases p)
  case (Pair addr bits)
  have "0 < (2 :: nat) ^ (32 - bits)" by simp
  then show ?thesis unfolding Pair bounds_Masked Let_def fst_conv snd_conv by linarith
qed

lemma firstFree_Min:
  "firstFree low high reserved = (if {low..high} - set reserved = {} then None else Some (Min ({low..high} - set reserved)))"
proof (induction low high reserved rule: firstFree.induct)
  case (1 low high reserved)
  show ?case
  proof (cases "low > high \<or> low \<notin> set reserved")
    case True
    then show ?thesis
    proof
      assume "low > high"
      then show ?thesis by (simp add: firstFree.simps [of low])
    next
      assume l: "low \<notin> set reserved"
      show ?thesis
      proof (cases "low > high")
        case False
        then have "Min ({low..high} - set reserved) = low" using l by (intro Min_eqI) auto
        moreover have "low \<in> {low..high} - set reserved" using False l by simp
        moreover have "firstFree low high reserved = Some low" using False l by (simp add: firstFree.simps [of low])
        ultimately show ?thesis by (metis empty_iff)
      qed (simp add: firstFree.simps [of low])
    qed
  next
    case False
    then have s: "{low..high} - set reserved = {low + 1..high} - set reserved" by (auto simp: not_less_eq_eq le_Suc_eq Suc_le_eq) (metis le_eq_less_or_eq)
    show ?thesis using 1 False unfolding s by (simp add: firstFree.simps [of low])
  qed
qed

lemma length_filter_card: "distinct xs \<Longrightarrow> length (filter P xs) = card (set xs \<inter> {x. P x})"
  by (metis distinct_card distinct_filter set_filter Collect_conj_eq Collect_mem_eq)

lemma distinct_reserve: "distinct (reserve a xs) = distinct xs" "set (reserve a xs) = insert a (set xs)"
  by (auto simp: reserve_def)

lemma left_over:
  assumes "low \<le> high" "distinct xs"
  shows "high - low + 1 - length (filter (\<lambda>a. low \<le> a \<and> a \<le> high) xs) = card ({low..high} - set xs)"
proof -
  have "card ({low..high} - set xs) = card {low..high} - card ({low..high} \<inter> set xs)" by (simp add: card_Diff_subset_Int)
  moreover have "set xs \<inter> {a. low \<le> a \<and> a \<le> high} = {low..high} \<inter> set xs" by auto
  ultimately show ?thesis using assms length_filter_card [OF assms(2), of "\<lambda>a. low \<le> a \<and> a \<le> high"] by simp
qed


definition poolRange :: "ipamConfig \<Rightarrow> nat \<times> nat \<Rightarrow> nat \<times> nat" where
  "poolRange cfg p = (case ParsePrefix4 (icIPRange cfg) of
     None \<Rightarrow> bounds (Masked p)
   | Some pool \<Rightarrow> (max (fst (bounds (Masked p))) (fst (bounds (Masked pool))), min (snd (bounds (Masked p))) (snd (bounds (Masked pool)))))"

lemma handedOut_range: "handedOut cfg p = {fst (poolRange cfg p) .. snd (poolRange cfg p)}"
proof -
  have i: "inPrefix q a \<longleftrightarrow> a \<in> {fst (bounds (Masked q)) .. snd (bounds (Masked q))}" for q a using prefix_block [of q] by blast
  show ?thesis by (auto simp: handedOut_def poolRange_def i split: option.split)
qed

lemma edges_list:
  "set (if snd (Masked p) \<le> 30 then reserve (snd (bounds (Masked p))) [fst (bounds (Masked p))] else []) = edgesOf p"
  "distinct (if snd (Masked p) \<le> 30 then reserve (snd (bounds (Masked p))) [fst (bounds (Masked p))] else [])"
proof -
  have "Min {a. inPrefix p a} = fst (bounds (Masked p))" "Max {a. inPrefix p a} = snd (bounds (Masked p))"
    unfolding prefix_block using bounds_le [of p] by (auto intro!: Min_eqI Max_eqI)
  moreover have "snd (Masked p) = snd p" by (cases p) (simp add: Masked_def)
  ultimately show "set (if snd (Masked p) \<le> 30 then reserve (snd (bounds (Masked p))) [fst (bounds (Masked p))] else []) = edgesOf p"
    "distinct (if snd (Masked p) \<le> 30 then reserve (snd (bounds (Masked p))) [fst (bounds (Masked p))] else [])"
    by (auto simp: edgesOf_def distinct_reserve)
qed

text \<open>
  C35. The size of a pool is exactly the number of addresses left to hand out: those of the subnet, and of the range within it where one is
  given, without the network and broadcast addresses (on a prefix up to /30) and without the gateway, which is the one configured or
  else the lowest address left. Only an IPv4 subnet has a size.
\<close>

theorem usable_exact:
  "usable cfg = (case ParsePrefix4 (icSubnet cfg) of None \<Rightarrow> None | Some p \<Rightarrow> Some (card (handedOut cfg p - edgesOf p - gatewayOf cfg p)))"
proof (cases "ParsePrefix4 (icSubnet cfg)")
  case None
  then show ?thesis by (simp add: usable_def)
next
  case (Some p)
  obtain low high where r: "poolRange cfg p = (low, high)" by fastforce
  define edges where "edges = (if snd (Masked p) \<le> 30 then reserve (snd (bounds (Masked p))) [fst (bounds (Masked p))] else [])"
  define reserved where "reserved = (case ParseAddr4 (icGateway cfg) of
      Some gw \<Rightarrow> reserve gw edges | None \<Rightarrow> (case firstFree low high edges of None \<Rightarrow> edges | Some a \<Rightarrow> reserve a edges))"
  have e: "set edges = edgesOf p" "distinct edges" unfolding edges_def by (rule edges_list)+
  have H: "handedOut cfg p = {low..high}" by (simp add: handedOut_range r)
  have res: "distinct reserved" "handedOut cfg p - set reserved = handedOut cfg p - edgesOf p - gatewayOf cfg p"
    by (auto simp: reserved_def distinct_reserve e gatewayOf_def H firstFree_Min split: option.split)
  have U: "usable cfg = (if ParsePrefix4 (icIPRange cfg) \<noteq> None \<and> low > high then Some 0
      else Some (high - low + 1 - length (filter (\<lambda>a. low \<le> a \<and> a \<le> high) reserved)))"
  proof -
    obtain f l where b: "bounds (Masked p) = (f, l)" by fastforce
    show ?thesis
    proof (cases "ParsePrefix4 (icIPRange cfg)")
      case None
      then show ?thesis using r b unfolding usable_def Some reserved_def edges_def poolRange_def
        by (simp add: Let_def split: option.split)
    next
      case S: (Some pool)
      obtain pf pl where pb: "bounds (Masked pool) = (pf, pl)" by fastforce
      show ?thesis using r b S pb unfolding usable_def Some reserved_def edges_def poolRange_def
        by (simp add: Let_def split: option.split)
    qed
  qed
  show ?thesis
  proof (cases "low > high")
    case True
    then have "ParsePrefix4 (icIPRange cfg) \<noteq> None" using r bounds_le [of p] by (auto simp: poolRange_def split: option.splits)
    then show ?thesis using True by (simp add: U Some H)
  next
    case False
    then show ?thesis using left_over [of low high reserved] res by (simp add: U Some H)
  qed
qed


section \<open>Addresses in use are counted once\<close>

definition parsed :: "string list \<Rightarrow> nat set" where
  "parsed addrs = {a. \<exists>s \<in> set addrs. \<exists>b. ParsePrefix4 s = Some (a, b)}"

definition vipsOn :: "string \<Rightarrow> service list \<Rightarrow> string list" where
  "vipsOn i services = concat (map (\<lambda>svc. map snd (filter (\<lambda>v. fst v = i) (svVIPs svc))) services)"

definition attachmentsOn :: "string \<Rightarrow> task list \<Rightarrow> (string \<times> string list) list" where
  "attachmentsOn i tasks = concat (map (\<lambda>t. map (\<lambda>a. (tNodeID t, snd a)) (filter (\<lambda>a. fst a = i) (tAttachments t))) (filter liveTask tasks))"

definition takeOneVIP :: "string \<Rightarrow> tally \<Rightarrow> tally" where
  "takeOneVIP addr t = (case takeAddr addr t of (fresh, t') \<Rightarrow> if fresh then t'\<lparr>taAddr := (taAddr t')\<lparr>adVIPs := adVIPs (taAddr t') + 1\<rparr>\<rparr> else t')"

definition attachOne :: "string \<times> string list \<Rightarrow> tally \<Rightarrow> tally" where
  "attachOne at' t = fold takeTaskAddr (snd at') (joinNode (fst at') t)"

lemma takeVIP_get: "gget (takeVIP v ts) i = (if fst v = i then map_option (takeOneVIP (snd v)) (gget ts i) else gget ts i)"
  by (auto simp: takeVIP_def takeOneVIP_def split: option.split prod.split)

lemma takeVIPs_get: "gget (fold takeVIP vs ts) i = map_option (fold takeOneVIP (map snd (filter (\<lambda>v. fst v = i) vs))) (gget ts i)"
  by (induction vs arbitrary: ts) (auto simp: takeVIP_get option.map_comp o_def option.map_id0)

lemma allVIPs_get: "gget (fold (\<lambda>svc. fold takeVIP (svVIPs svc)) services ts) i = map_option (fold takeOneVIP (vipsOn i services)) (gget ts i)"
  by (induction services arbitrary: ts) (auto simp: takeVIPs_get vipsOn_def option.map_comp o_def option.map_id0)

lemma attach_get: "gget (attach nid a ts) i = (if fst a = i then map_option (attachOne (nid, snd a)) (gget ts i) else gget ts i)"
  by (auto simp: attach_def attachOne_def split: option.split)

lemma attaches_get: "gget (fold (attach nid) as ts) i = map_option (fold attachOne (map (\<lambda>a. (nid, snd a)) (filter (\<lambda>a. fst a = i) as))) (gget ts i)"
  by (induction as arbitrary: ts) (auto simp: attach_get option.map_comp o_def option.map_id0)

lemma allAttaches_get:
  "gget (fold (\<lambda>t. if liveTask t then fold (attach (tNodeID t)) (tAttachments t) else id) tasks ts) i =
    map_option (fold attachOne (attachmentsOn i tasks)) (gget ts i)"
  by (induction tasks arbitrary: ts) (auto simp: attaches_get attachmentsOn_def option.map_comp o_def option.map_id0)

text \<open>Each address is taken once; \<open>tally_ok\<close> relates the counters to the addresses and nodes seen.\<close>

definition tally_ok :: "tally \<Rightarrow> nat set \<Rightarrow> string set \<Rightarrow> bool" where
  "tally_ok t seen ns \<longleftrightarrow> distinct (taTaken t) \<and> set (taTaken t) = seen \<and> length (taTaken t) = adVIPs (taAddr t) + adTaskAddresses (taAddr t) \<and>
     distinct (taNodes t) \<and> set (taNodes t) = ns"

lemma takeOneVIP_ok:
  "tally_ok t seen ns \<Longrightarrow> tally_ok (takeOneVIP addr t) (seen \<union> parsed [addr]) ns \<and> adTaskAddresses (taAddr (takeOneVIP addr t)) = adTaskAddresses (taAddr t) \<and>
     taIngress (takeOneVIP addr t) = taIngress t \<and> adUsable (taAddr (takeOneVIP addr t)) = adUsable (taAddr t)"
  by (auto simp: takeOneVIP_def takeAddr_def tally_ok_def parsed_def split: option.split prod.split)

lemma takeTaskAddr_ok:
  "tally_ok t seen ns \<Longrightarrow> tally_ok (takeTaskAddr addr t) (seen \<union> parsed [addr]) ns \<and> adVIPs (taAddr (takeTaskAddr addr t)) = adVIPs (taAddr t) \<and>
     taIngress (takeTaskAddr addr t) = taIngress t \<and> adUsable (taAddr (takeTaskAddr addr t)) = adUsable (taAddr t)"
  by (auto simp: takeTaskAddr_def takeAddr_def tally_ok_def parsed_def split: option.split prod.split)


lemma parsed_Cons: "parsed (a # as) = parsed [a] \<union> parsed as"
  by (auto simp: parsed_def)

lemma parsed_Nil [simp]: "parsed [] = {}"
  by (simp add: parsed_def)

lemma takeVIPs_ok:
  "tally_ok t seen ns \<Longrightarrow> tally_ok (fold takeOneVIP as t) (seen \<union> parsed as) ns \<and> adTaskAddresses (taAddr (fold takeOneVIP as t)) = adTaskAddresses (taAddr t) \<and>
     taIngress (fold takeOneVIP as t) = taIngress t \<and> adUsable (taAddr (fold takeOneVIP as t)) = adUsable (taAddr t)"
proof (induction as arbitrary: t seen)
  case (Cons a as)
  show ?case using Cons.IH [OF conjunct1 [OF takeOneVIP_ok [OF Cons.prems, of a]]] takeOneVIP_ok [OF Cons.prems, of a]
    by (simp add: parsed_Cons [of a as] Un_assoc)
qed simp

lemma takeTaskAddrs_ok:
  "tally_ok t seen ns \<Longrightarrow> tally_ok (fold takeTaskAddr as t) (seen \<union> parsed as) ns \<and> adVIPs (taAddr (fold takeTaskAddr as t)) = adVIPs (taAddr t) \<and>
     taIngress (fold takeTaskAddr as t) = taIngress t \<and> adUsable (taAddr (fold takeTaskAddr as t)) = adUsable (taAddr t)"
proof (induction as arbitrary: t seen)
  case (Cons a as)
  show ?case using Cons.IH [OF conjunct1 [OF takeTaskAddr_ok [OF Cons.prems, of a]]] takeTaskAddr_ok [OF Cons.prems, of a]
    by (simp add: parsed_Cons [of a as] Un_assoc)
qed simp

lemma joinNode_ok: "tally_ok t seen ns \<Longrightarrow> tally_ok (joinNode nid t) seen (ns \<union> ({nid} - {[]})) \<and> taAddr (joinNode nid t) = taAddr t \<and> taIngress (joinNode nid t) = taIngress t"
  by (auto simp: joinNode_def tally_ok_def)

lemma attachOne_ok:
  "tally_ok t seen ns \<Longrightarrow> tally_ok (fold attachOne as t) (seen \<union> parsed (concat (map snd as))) (ns \<union> (fst ` set as - {[]})) \<and>
     adVIPs (taAddr (fold attachOne as t)) = adVIPs (taAddr t) \<and> taIngress (fold attachOne as t) = taIngress t \<and>
     adUsable (taAddr (fold attachOne as t)) = adUsable (taAddr t)"
proof (induction as arbitrary: t seen ns)
  case (Cons a as)
  note j = joinNode_ok [OF Cons.prems, of "fst a"]
  note k = takeTaskAddrs_ok [OF conjunct1 [OF j], of "snd a"]
  have u: "parsed (snd a @ concat (map snd as)) = parsed (snd a) \<union> parsed (concat (map snd as))" by (auto simp: parsed_def)
  have n: "insert (fst a) (fst ` set as) - {[]} = ({fst a} - {[]}) \<union> (fst ` set as - {[]})" by auto
  show ?case using Cons.IH [OF conjunct1 [OF k]] j k by (simp add: attachOne_def u n Un_assoc)
qed simp

lemma tallies_get:
  assumes "n \<in> set networks" "distinct (map neID networks)" "Counted n"
  shows "gget (fold (\<lambda>n ts. if Counted n then gset ts (neID n) (newTally n) else ts) networks ts) (neID n) = Some (newTally n)"
  using assms
proof (induction networks arbitrary: ts)
  case (Cons m networks)
  have keep: "neID x \<notin> neID ` set ms \<Longrightarrow> gget (fold (\<lambda>n ts. if Counted n then gset ts (neID n) (newTally n) else ts) ms ts) (neID x) = gget ts (neID x)"
    for ms ts and x :: network
    by (induction ms arbitrary: ts) auto
  show ?case using Cons keep [of n networks] by auto
qed simp

text \<open>
  Every address in use counts once: for a swarm network on the default driver, the addresses counted are the distinct IPv4 addresses of the
  virtual IPs on it and of the live tasks attached to it, and the load balancers one per node with such a task, or one per node of the
  swarm on the ingress network.
\<close>

theorem addresses_counted_once:
  assumes "n \<in> set networks" "distinct (map neID networks)" "Counted n"
    "vips = parsed (vipsOn (neID n) services)" "taskAddrs = parsed (concat (map snd (attachmentsOn (neID n) tasks)))"
    "lb = (if neIngress n then nodes else card (fst ` set (attachmentsOn (neID n) tasks) - {[]}))"
  shows "\<exists>a. gget (CountAddresses networks services tasks nodes) (neID n) = Some a \<and> adVIPs a = card vips \<and>
    adVIPs a + adTaskAddresses a = card (vips \<union> taskAddrs) \<and> adLoadBalancers a = lb \<and> adUsed a = card (vips \<union> taskAddrs) + lb \<and>
    adUsable a = sum_list (List.map_filter usable (neIPAMConfig n))"
proof -
  let ?t1 = "fold takeOneVIP (vipsOn (neID n) services) (newTally n)"
  let ?t2 = "fold attachOne (attachmentsOn (neID n) tasks) ?t1"
  have 0: "tally_ok (newTally n) {} {}" by (simp add: tally_ok_def newTally_def)
  note 1 = takeVIPs_ok [OF 0, of "vipsOn (neID n) services"]
  note 2 = attachOne_ok [OF conjunct1 [OF 1], of "attachmentsOn (neID n) tasks"]
  have g: "gget (CountAddresses networks services tasks nodes) (neID n) = Some (finishTally nodes ?t2)"
    unfolding CountAddresses_def Let_def gget_map_snd [of "\<lambda>_. finishTally nodes"] allAttaches_get allVIPs_get tallies_get [OF assms(1-3)] by simp
  have c1: "adVIPs (taAddr ?t1) = card vips"
    using 1 distinct_card [of "taTaken ?t1"] by (simp add: tally_ok_def assms(4) newTally_def)
  have c2: "adVIPs (taAddr ?t2) + adTaskAddresses (taAddr ?t2) = card (vips \<union> taskAddrs)"
    using 2 distinct_card [of "taTaken ?t2"] by (simp add: tally_ok_def assms(4,5))
  have c3: "length (taNodes ?t2) = card (fst ` set (attachmentsOn (neID n) tasks) - {[]})"
    using 2 distinct_card [of "taNodes ?t2"] by (simp add: tally_ok_def)
  have "taIngress ?t2 = neIngress n" "adUsable (taAddr ?t2) = sum_list (List.map_filter usable (neIPAMConfig n))" "adVIPs (taAddr ?t2) = card vips"
    using 1 2 c1 by (simp_all add: newTally_def)
  then show ?thesis using g c2 c3 assms(6) by (simp add: finishTally_def Let_def)
qed


lemma usable_None: "usable cfg = None \<longleftrightarrow> ParsePrefix4 (icSubnet cfg) = None"
  by (simp add: usable_def Let_def split: option.split prod.split)

definition ex_network :: network where
  "ex_network = \<lparr>neID = ''w'', neName = ''w'', neLabels = [], neScope = ''swarm'', neIPAMDriver = [],
     neIPAMConfig = [\<lparr>icSubnet = ''0.0.0.0/30'', icIPRange = [], icGateway = []\<rparr>], neAttachable = False, neIngress = False\<rparr>"

definition ex_balanced :: service where
  "ex_balanced = \<lparr>svID = ''s'', svVersion = 1, svSpec = zeroSpec\<lparr>spName := ''s''\<rparr>, svPrevious = None, svJobIteration = None,
     svUpdateState = None, svVIPs = [(''w'', ''0.0.0.2/30''), (''w'', ''0.0.0.2/30'')]\<rparr>"

lemma ex_prefixes: "ParsePrefix4 ''0.0.0.0/30'' = Some (0, 30)" "ParsePrefix4 ''0.0.0.2/30'' = Some (2, 30)"
  by (simp_all add: ParsePrefix4_def lastSlash_def ParseAddr4_def isDigit_def ParseUint_def digitsValue_def)

theorem addresses_counted_once_witness:
  "\<exists>a. gget (CountAddresses [ex_network] [ex_balanced] [] 3) ''w'' = Some a \<and> adUsed a = 1"
proof -
  have c: "Counted ex_network" by (simp add: Counted_def ex_network_def usable_None ex_prefixes)
  have i: "neID ex_network = ''w''" "\<not> neIngress ex_network" by (simp_all add: ex_network_def)
  have v: "parsed (vipsOn ''w'' [ex_balanced]) = {2}" by (auto simp: parsed_def vipsOn_def ex_balanced_def ex_prefixes)
  have t: "attachmentsOn ''w'' [] = []" by (simp add: attachmentsOn_def)
  show ?thesis
    using addresses_counted_once [OF _ _ c, of "[ex_network]" _ "[ex_balanced]" _ "[]" _ 3, OF _ _ refl refl refl] by (auto simp: i v t)
qed

end
