(* ===== verification/Versions.thy ===== *)
theory Versions
  imports Stacks Go_Strings "HOL-Library.Product_Lexorder"
begin

text \<open>
  The versions that rotation leaves of a config or secret, \<open>internal/versions/versions.go\<close>: the logical name of an item, and its
  rank among the versions of that name in its stack.
\<close>

section \<open>Logical names\<close>

definition VersionLabel :: string where "VersionLabel = ''cetacean.version-of''"
definition deploymentActionLabel :: string where "deploymentActionLabel = ''com.matchory.deployment.name''"

text \<open>\<open>cmp.Or\<close>: the first of two strings that is not empty.\<close>

definition cmpOr :: "string \<Rightarrow> string \<Rightarrow> string" where
  "cmpOr a b = (if a \<noteq> [] then a else b)"

definition declaredName :: "labels \<Rightarrow> string" where
  "declaredName ls = cmpOr (gor ls VersionLabel []) (gor ls deploymentActionLabel [])"

definition hexLetter :: "char \<Rightarrow> bool" where
  "hexLetter c \<longleftrightarrow> c \<in> set ''abcdefABCDEF''"

text \<open>
  The regular expression \<open>(?i)[_-](?:([0-9a-f]{8,})|v[0-9]+)$\<close>: the leftmost separator whose rest is a hash or a v-number.
\<close>

definition isHash :: "string \<Rightarrow> bool" where
  "isHash s \<longleftrightarrow> length s \<ge> 8 \<and> list_all (\<lambda>c. isDigit c \<or> hexLetter c) s"

definition isVNumber :: "string \<Rightarrow> bool" where
  "isVNumber s = (case s of c # n \<Rightarrow> c \<in> set ''vV'' \<and> n \<noteq> [] \<and> list_all isDigit n | [] \<Rightarrow> False)"

fun findSuffix :: "string \<Rightarrow> string \<Rightarrow> (string \<times> string) option" where
  "findSuffix pre [] = None"
| "findSuffix pre (c # s) = (if c \<in> set ''_-'' \<and> (isHash s \<or> isVNumber s) then Some (pre, s) else findSuffix (pre @ [c]) s)"

definition stripSuffix :: "string \<Rightarrow> string" where
  "stripSuffix name = (case findSuffix [] name of
     None \<Rightarrow> name
   | Some (pre, s) \<Rightarrow> if isHash s \<and> \<not> list_ex hexLetter s then name else pre)"

record item =
  itID :: string
  itName :: string
  itLabels :: labels
  itCreated :: int

record membership =
  mbOf :: string
  mbStack :: string
  mbInferred :: bool
  mbRank :: nat
  mbCount :: nat

text \<open>The group's key: its stack and its name.\<close>

type_synonym groupKey = "string \<times> string"

fun cutStack :: "string \<Rightarrow> string \<Rightarrow> string list \<Rightarrow> string" where
  "cutStack stack name [] = name"
| "cutStack stack name (sep # rest) = (case CutPrefix name (stack @ sep) of (r, ok) \<Rightarrow> if ok \<and> r \<noteq> [] then r else cutStack stack name rest)"

definition Key :: "item \<Rightarrow> groupKey" where
  "Key it = (let stack = gor (itLabels it) StackLabel [] in
     if gor (itLabels it) VersionLabel [] = [] \<and> gor (itLabels it) deploymentActionLabel [] \<noteq> [] then (stack, gor (itLabels it) deploymentActionLabel [])
     else (let name = cmpOr (gor (itLabels it) VersionLabel []) (stripSuffix (itName it)) in
       (stack, if stack \<noteq> [] then cutStack stack name [''_'', ''-''] else name)))"

section \<open>Groups\<close>

definition groupItems :: "item list \<Rightarrow> (groupKey, item list) kvs" where
  "groupItems items = fold (\<lambda>it groups. gset groups (Key it) (gor groups (Key it) [] @ [it])) items []"

text \<open>Newest first: the last created, the greater ID on a tie.\<close>

definition newestFirst_items :: "item list \<Rightarrow> item list" where
  "newestFirst_items ms = rev (sort_key (\<lambda>it. (itCreated it, itID it)) ms)"

definition rankMembers :: "groupKey \<Rightarrow> item list \<Rightarrow> membership gomap \<Rightarrow> membership gomap" where
  "rankMembers k ms out = (if length ms < 2 then out
     else (let sorted_members = newestFirst_items ms; inferred = list_ex (\<lambda>m. declaredName (itLabels m) = []) ms in
       fold (\<lambda>(rank, m) out. gset out (itID m) \<lparr>mbOf = snd k, mbStack = fst k, mbInferred = inferred, mbRank = rank, mbCount = length ms\<rparr>)
         (enumerate 0 sorted_members) out))"

definition Group :: "item list \<Rightarrow> membership gomap" where
  "Group items = fold (\<lambda>(k, ms). rankMembers k ms) (groupItems items) []"

definition SecretItem :: "secret \<Rightarrow> item" where
  "SecretItem s = \<lparr>itID = seID s, itName = seName s, itLabels = seLabels s, itCreated = seCreated s\<rparr>"

definition ConfigItem :: "config \<Rightarrow> item" where
  "ConfigItem c = \<lparr>itID = cfID c, itName = cfName c, itLabels = cfLabels c, itCreated = cfCreated c\<rparr>"

definition SecretItems :: "secret list \<Rightarrow> item list" where
  "SecretItems secrets = map SecretItem secrets"

definition ConfigItems :: "config list \<Rightarrow> item list" where
  "ConfigItems configs = map ConfigItem configs"

section \<open>Ranks\<close>

lemma gor_groupItems: "gor (fold (\<lambda>it groups. gset groups (Key it) (gor groups (Key it) [] @ [it])) items groups) k [] =
    gor groups k [] @ filter (\<lambda>it. Key it = k) items"
  by (induction items arbitrary: groups) auto

lemma gwf_groupItems: "gwf groups \<Longrightarrow> gwf (fold (\<lambda>it groups. gset groups (Key it) (gor groups (Key it) [] @ [it])) items groups)"
  by (induction items arbitrary: groups) auto

lemma groupItems_members:
  assumes "(k, ms) \<in> set (groupItems items)"
  shows "ms = filter (\<lambda>it. Key it = k) items"
proof -
  have "gwf (groupItems items)" unfolding groupItems_def by (rule gwf_groupItems) simp
  then have "gget (groupItems items) k = Some ms" using assms by simp
  then show ?thesis using gor_groupItems [of items "[]" k] by (simp add: groupItems_def gor_def)
qed

lemma groupItems_key: "filter (\<lambda>it. Key it = k) items \<noteq> [] \<Longrightarrow> (k, filter (\<lambda>it. Key it = k) items) \<in> set (groupItems items)"
  using gor_groupItems [of items "[]" k] by (auto simp: groupItems_def gor_def dest: map_of_SomeD split: option.splits)

abbreviation newer :: "item \<Rightarrow> item \<Rightarrow> bool" where
  "newer a b \<equiv> (itCreated b, itID b) < (itCreated a, itID a)"

lemma fold_ranked:
  assumes "distinct (map itID (map snd es))"
  shows "gget (fold (\<lambda>(rank, m) out. gset out (itID m) (f rank)) es out) i =
    (case find (\<lambda>(rank, m). itID m = i) es of Some (rank, _) \<Rightarrow> Some (f rank) | None \<Rightarrow> gget out i)"
  using assms
proof (induction es arbitrary: out)
  case (Cons e es)
  obtain rank m where e: "e = (rank, m)" by fastforce
  have "find (\<lambda>(rank, m). itID m = i) es = None" if "itID m = i" using Cons.prems that by (force simp: e find_None_iff)
  then show ?case using Cons by (auto simp: e split: option.split)
qed simp


lemma desc_rank:
  fixes f :: "'a \<Rightarrow> 'b :: linorder"
  assumes "distinct (map f ms)" "x \<in> set ms"
  shows "\<exists>r < length ms. rev (sort_key f ms) ! r = x \<and> r = length (filter (\<lambda>y. f x < f y) ms)"
proof -
  let ?ys = "rev (sort_key f ms)"
  have m: "mset ?ys = mset ms" by simp
  have "sorted (map f (sort_key f ms))" "distinct (map f (sort_key f ms))"
    using assms(1) by (simp_all add: distinct_map)
  then have s: "sorted_wrt (>) (map f ?ys)"
    by (simp add: rev_map [symmetric] sorted_wrt_rev strict_sorted_iff)
  obtain r where r: "r < length ms" "?ys ! r = x" using assms(2) m by (metis in_set_conv_nth length_rev length_sort set_mset_mset)
  have split: "?ys = take r ?ys @ x # drop (Suc r) ?ys" using r by (metis id_take_nth_drop length_rev length_sort)
  have "filter (\<lambda>y. f x < f y) ?ys = take r ?ys"
  proof -
    have "sorted_wrt (>) (map f (take r ?ys) @ f x # map f (drop (Suc r) ?ys))" using s split by (metis list.simps(9) map_append)
    then have "\<forall>y \<in> set (take r ?ys). f x < f y" "\<forall>y \<in> set (drop (Suc r) ?ys). f y < f x" by (auto simp: sorted_wrt_append)
    then show ?thesis by (subst split) (auto simp: filter_id_conv filter_empty_conv dest: less_asym)
  qed
  then have "length (filter (\<lambda>y. f x < f y) ?ys) = r" using r by simp
  moreover have "length (filter (\<lambda>y. f x < f y) ?ys) = length (filter (\<lambda>y. f x < f y) ms)" by (metis m mset_filter size_mset)
  ultimately show ?thesis using r by auto
qed

lemma ranked_other:
  fixes f :: "nat \<Rightarrow> membership"
  assumes "\<forall>e \<in> set es. itID (snd e) \<noteq> i"
  shows "gget (fold (\<lambda>(rank, m) out. gset out (itID m) (f rank)) es out) i = gget out i"
  using assms by (induction es arbitrary: out) auto

lemma enumerate_mem: "e \<in> set (enumerate 0 xs) \<Longrightarrow> snd e \<in> set xs"
  by (auto simp: in_set_enumerate_eq) (metis nth_mem)

lemma find_SomeD: "find P xs = Some x \<Longrightarrow> x \<in> set xs \<and> P x"
  by (induction xs) (auto split: if_splits)

lemma rankMembers_other:
  assumes "i \<notin> itID ` set ms"
  shows "gget (rankMembers k ms out) i = gget out i"
proof -
  let ?f = "\<lambda>rank. \<lparr>mbOf = snd k, mbStack = fst k, mbInferred = list_ex (\<lambda>m. declaredName (itLabels m) = []) ms, mbRank = rank, mbCount = length ms\<rparr>"
  have "\<forall>e \<in> set (enumerate 0 (newestFirst_items ms)). itID (snd e) \<noteq> i"
    using assms enumerate_mem [of _ "newestFirst_items ms"] by (fastforce simp: newestFirst_items_def)
  from ranked_other [OF this, of ?f] show ?thesis by (simp add: rankMembers_def Let_def)
qed

lemma rankMembers_member:
  assumes "it \<in> set ms" "distinct (map itID ms)" "2 \<le> length ms"
  shows "gget (rankMembers k ms out) (itID it) = Some \<lparr>mbOf = snd k, mbStack = fst k,
    mbInferred = list_ex (\<lambda>m. declaredName (itLabels m) = []) ms, mbRank = length (filter (\<lambda>x. newer x it) ms), mbCount = length ms\<rparr>"
proof -
  let ?es = "enumerate 0 (newestFirst_items ms)"
  have d: "distinct (map (\<lambda>it. (itCreated it, itID it)) ms)" using assms(2) by (auto simp: distinct_map inj_on_def)
  obtain r where r: "r < length ms" "newestFirst_items ms ! r = it" "r = length (filter (\<lambda>x. newer x it) ms)"
    using desc_rank [OF d assms(1)] by (auto simp: newestFirst_items_def)
  have ids: "distinct (map itID (map snd ?es))" using assms(2) by (simp add: newestFirst_items_def distinct_map)
  have "(r, it) \<in> set ?es" using r(1,2) by (auto simp: in_set_enumerate_eq newestFirst_items_def)
  then have "find (\<lambda>(rank, m). itID m = itID it) ?es \<noteq> None" unfolding find_None_iff by force
  then obtain e where e: "find (\<lambda>(rank, m). itID m = itID it) ?es = Some e" by blast
  then have "e \<in> set ?es" "itID (snd e) = itID it" using find_SomeD [OF e] by auto
  then have "e = (r, it)" using ids \<open>(r, it) \<in> set ?es\<close> unfolding map_map distinct_map inj_on_def by fastforce
  let ?f = "\<lambda>rank. \<lparr>mbOf = snd k, mbStack = fst k, mbInferred = list_ex (\<lambda>m. declaredName (itLabels m) = []) ms, mbRank = rank, mbCount = length ms\<rparr>"
  show ?thesis using fold_ranked [OF ids, of ?f out "itID it"] e \<open>e = (r, it)\<close> assms(3) r(3) by (simp add: rankMembers_def Let_def)
qed


text \<open>
  Versions are ranked exactly: an item with a unique ID is listed iff another item has the same logical name in the same stack; its rank is
  the number of versions newer than it, its count the number of versions, and the group counts as inferred unless every version
  declares it with a label.
\<close>

theorem versions_ranked:
  assumes "distinct (map itID items)" "it \<in> set items" "ms = filter (\<lambda>x. Key x = Key it) items"
  shows "gget (Group items) (itID it) = (if length ms < 2 then None else Some \<lparr>mbOf = snd (Key it), mbStack = fst (Key it),
    mbInferred = list_ex (\<lambda>m. declaredName (itLabels m) = []) ms, mbRank = length (filter (\<lambda>x. newer x it) ms), mbCount = length ms\<rparr>)"
proof -
  have "ms \<noteq> []" using assms(2,3) by (auto simp: filter_empty_conv)
  then have "(Key it, ms) \<in> set (groupItems items)" using groupItems_key [of "Key it" items] assms(3) by simp
  then obtain before rest where g: "groupItems items = before @ (Key it, ms) # rest" by (meson split_list)
  have w: "gwf (groupItems items)" unfolding groupItems_def by (rule gwf_groupItems) simp
  have other: "itID it \<notin> itID ` set ns" if "(k, ns) \<in> set before \<union> set rest" for k ns
  proof
    assume "itID it \<in> itID ` set ns"
    then obtain x where x: "x \<in> set ns" "itID x = itID it" by auto
    have "ns = filter (\<lambda>it. Key it = k) items" using groupItems_members that g by auto
    then have "x = it" "Key x = k" using x assms(1,2) by (auto simp: distinct_map inj_on_def)
    then show False using w that by (force simp: g)
  qed
  have skip: "gget (fold (\<lambda>(k, ms). rankMembers k ms) gs out) (itID it) = gget out (itID it)" if "set gs \<subseteq> set before \<union> set rest" for gs out
    using that
  proof (induction gs arbitrary: out)
    case (Cons g gs)
    obtain k ns where "g = (k, ns)" by fastforce
    then show ?case using Cons rankMembers_other [OF other, of k ns] by simp
  qed simp
  have d: "it \<in> set ms" "distinct (map itID ms)" using assms by (auto simp: distinct_map inj_on_def)
  show ?thesis
  proof (cases "length ms < 2")
    case True
    then show ?thesis unfolding Group_def g using skip [of rest] skip [of before] by (simp add: rankMembers_def)
  next
    case False
    then show ?thesis unfolding Group_def g using skip [of rest] rankMembers_member [OF d, of "Key it"] by simp
  qed
qed

definition ex_item :: "string \<Rightarrow> string \<Rightarrow> int \<Rightarrow> item" where
  "ex_item i name created = \<lparr>itID = i, itName = name, itLabels = [], itCreated = created\<rparr>"

theorem versions_ranked_witness:
  "map_option mbRank (gget (Group [ex_item ''a'' ''key_v1'' 1, ex_item ''b'' ''key_v2'' 2]) ''a'') = Some 1"
proof -
  have k: "Key (ex_item ''a'' ''key_v1'' 1) = ([], ''key'')" "Key (ex_item ''b'' ''key_v2'' 2) = ([], ''key'')" by code_simp+
  show ?thesis
    using versions_ranked [of "[ex_item ''a'' ''key_v1'' 1, ex_item ''b'' ''key_v2'' 2]" "ex_item ''a'' ''key_v1'' 1", OF _ _ refl]
    by (simp add: k) (simp add: ex_item_def)
qed

end
