(* ===== verification/Spec2Isabelle.thy ===== *)
theory Spec2Isabelle
  imports Acl_Cache Oauth_Server Sse_Wire Watcher_Tasks Annotations Exec Timeline_Store Cluster_State Ipam Versions
begin

text \<open>
  A verification development for Cetacean, a read-mostly control plane for Docker Swarm written in Go.

  \<^bold>\<open>The program.\<close> A watcher (\<open>internal/docker\<close>) lists the swarm and follows the engine's event stream; what it learns
  goes into an in-memory cache (\<open>internal/cache\<close>), which keeps the resources by ID, derives stacks, references and restart
  counts from them, and records every change in a ring of history entries. A change is then handed to listeners: the
  broadcaster of the event streams (\<open>internal/api/sse\<close>) and a writer that persists the ring (\<open>internal/timeline\<close>). The HTTP
  and MCP servers answer from the cache, for whom the access control (\<open>internal/acl\<close>) permits it; identities come from an
  upstream or from tokens the program issues as an OAuth server (\<open>internal/oauth\<close>). Writes go to the Docker API and come
  back as events, matched to the actor who announced them. Terminals into containers are sessions (\<open>internal/exec\<close>) with an
  audit record before and after each.

  \<^bold>\<open>Groundwork.\<close>
  \<^item> \<open>Prelude\<close>: Go maps as association lists with distinct keys (\<open>gget\<close>, \<open>gset\<close>, \<open>gdel\<close>, \<open>gwf\<close>), and list lemmas.
  \<^item> \<open>Go_Strings\<close>, \<open>Glob\<close>: what the sources call of \<open>strings\<close>, \<open>unicode/utf8\<close> and \<open>path.Match\<close>, on byte strings.
  \<^item> \<open>Sort_By_Index\<close>, \<open>Binary_Search\<close>: the in-place permutation of \<open>cache/resourcemap.go\<close> and Go's \<open>slices.BinarySearch\<close>.
  \<^item> \<open>Swarm\<close>: Docker's types, each record with the fields the sources read.

  \<^bold>\<open>Access control\<close> (\<open>internal/acl\<close>, \<open>internal/auth/identity.go\<close>).
  \<^item> \<open>Acl_Policy\<close> (\<open>policy.go\<close>, \<open>match.go\<close>, \<open>source*.go\<close>): validation, matching, the providers. Validated grants never reach
    the bad-pattern branch; the locale \<open>grant_source\<close> says so of every provider and is interpreted on the three of them.
  \<^item> \<open>Acl_Evaluator\<close> (\<open>evaluator.go\<close>, \<open>source_token.go\<close>, \<open>fingerprint.go\<close>): \<open>Can\<close>, its batch forms and type projections,
    refined to the relation \<open>covered\<close>, which has no cached flags. The locale \<open>stack_resolver\<close> is what the evaluator
    relies on of the cache; \<open>Acl_Cache\<close> interprets it on the cache (\<open>resolver.go\<close>).

  \<^bold>\<open>Cache\<close> (\<open>internal/cache\<close>).
  \<^item> \<open>Resource_Map\<close>, \<open>Stacks\<close>, \<open>Service_Refs\<close>, \<open>Restarts\<close>, \<open>Attribution\<close>, \<open>History\<close>: one theory per file, with its own invariant.
    \<open>History_List\<close> proves the two paths of \<open>History.List\<close> equal.
  \<^item> \<open>Cache\<close> (\<open>cache.go\<close>, \<open>resolver.go\<close>): the state behind the lock and every operation on it. \<open>Cache_Inv\<close> proves the invariant of
    each write through the locales \<open>resource_map\<close> and \<open>labelled_map\<close>, interpreted on the maps of nodes, configs, secrets,
    networks and volumes; \<open>Cache_Reach\<close> adds the full sync and every reachable cache; \<open>Cache_Query\<close> the reads, and that the
    stack index is what the labels say under every name but the empty one;
    \<open>Cache_Versions\<close> that no object gives way to an older version of it.
  \<^item> \<open>Annotations\<close> (\<open>annotations.go\<close>): notes kept beside a store, and the timeline that merges them with the ring.

  \<^bold>\<open>Watcher\<close> (\<open>internal/docker/watcher.go\<close>, \<open>recover.go\<close>, the sync of \<open>client.go\<close>).
  \<^item> \<open>Watcher\<close> has the operations, \<open>Watcher_Held\<close> what each does to the contents of the cache, \<open>Watcher_Run\<close> the step relation of
    engine and watcher with the invariant by which the cache follows the engine. An operation of the loop is one step; a refresh or a sync
    beside the loop checks, reads and writes in steps of their own, and what one wrote that a loop or a reconnect overtook counts as
    drift (\<open>wdDrift\<close>; \<open>overtaken_refresh_resurrects\<close> is a run in which it brings a removed resource back). \<open>Watcher_Tasks\<close> has the
    listing of tasks, settling with its waits and read timeouts, and the recovery of a gap.

  \<^bold>\<open>Streams and record\<close>.
  \<^item> \<open>Sse\<close>, \<open>Sse_Run\<close>, \<open>Sse_Wire\<close> (\<open>internal/api/sse\<close>): broadcaster, replay and cursors; every interleaving of notifier,
    goroutine and clients; frames, filters and slots. The replay of a resumed stream reads the newest sync in one step and the history in
    a later one; a sync between the two can go missing, and \<open>stMissed\<close> keeps which. A stream is replayed only where its filter admits of
    what the history keeps of an event all it admits of the event; \<open>replayed_streams_fit\<close> shows this of the filters of \<open>dispatch.go\<close>.
  \<^item> \<open>Timeline_Store\<close> (\<open>internal/timeline\<close>, \<open>restoreTimeline\<close> of \<open>main.go\<close>): the statements run on the tables, the writer,
    the restart with each of its ways to fail, and the lives of one database as a step relation, in which the retention and the size of
    the ring may change from life to life, the commit that reserves IDs may fail, and a life may go on without the database. \<open>tlSafe\<close>
    holds as long as, at every start, the IDs handed out lay no further beyond the newest one named by a commit than the new ring has
    slots; IDs are unique under it, and \<open>failed_reservation_reissues\<close> is a run that breaks it.
  \<^item> \<open>Exec\<close> (\<open>internal/exec\<close>, \<open>internal/audit\<close>, \<open>api/exec_ws.go\<close>): the manager's critical sections, and every interleaving of them.

  \<^bold>\<open>OAuth server\<close> (\<open>internal/oauth\<close>).
  \<^item> \<open>Oauth_Tokens\<close> (\<open>store.go\<close>, \<open>persist.go\<close>), \<open>Oauth_Consent\<close> (\<open>consent_store.go\<close>, \<open>consent.go\<close>), \<open>Oauth_Clients\<close> (\<open>dcr.go\<close>),
    \<open>Oauth_Jwt\<close> (\<open>jwt.go\<close>), and \<open>Oauth_Server\<close>, the endpoints over them (\<open>server.go\<close>, \<open>resource.go\<close>, \<open>identity.go\<close>).

  \<^bold>\<open>Cluster arithmetic.\<close>
  \<^item> \<open>Placement\<close>, \<open>Drain\<close>, \<open>Cluster_State\<close> (\<open>internal/placement\<close>, \<open>internal/cluster\<close>, \<open>internal/quorum\<close>): constraints, the drain
    assessment, derived states and waits. \<open>Ipam\<close>, \<open>Versions\<close>, \<open>Netguard\<close>: one package each.

  \<^bold>\<open>Parameters.\<close> Code outside the repository is an argument: hashes and MACs, base64, JSON and ECDSA (record \<open>jwtLib\<close>, laws
  \<open>codec_laws\<close>, which ask of JSON only what Go's encoder keeps: text up to \<open>coerceUTF8\<close>, raw messages up to compaction, 64-bit
  numbers), \<open>url.Parse\<close>, the parsers of \<open>net\<close>, Unicode's tables, random draws, the clock, and the answers of Docker, of SQLite and
  of the audit file. What the engine does is a step of the relation in \<open>Watcher_Run\<close>; whether a transaction or an audit
  write lands is an argument of the operation that makes it.

  \<^bold>\<open>Grain.\<close> What runs under one lock is one step, and an operation that reads the clock more than once reads one instant.
  A batch of the watcher takes the order in which its workers apply it as an argument. A tick of a stream, and the making
  of a sync frame, is one step. A look of a wait (\<open>Cluster_State\<close>) reads three caches, one for each lock it takes.
  In \<open>Exec\<close> the mutex is released between a decision and the audit write that follows it, so these are steps of their own;
  \<open>timely\<close> says that an audit write finishes before its session's retention ends.

  \<^bold>\<open>Bounds.\<close> Recursion is structural or has a measure; no loop is cut short. \<open>entriesLoop\<close> of \<open>Annotations\<close> is given one round per
  annotation, and each round that goes on takes one. \<open>retryInspect\<close> has the code's four attempts, and settling its three reads.
  A wait for convergence (\<open>Cluster_State\<close>) is a recursion over its looks until its context ends. Counters are kept at
  their width where the code can overflow them (\<open>Restarts\<close>, \<open>Drain\<close>, \<open>Ipam\<close>); IDs and versions, which grow by one, are unbounded.

  \<^bold>\<open>Not modelled.\<close> The HTTP handlers and middleware, the MCP server and its projections, feeds and graphs, the problem registry, compose
  rendering, logs, configuration, tracing, metrics and Prometheus, image checks, attestations, integrations, filter expressions and
  recommendations: they encode, decode or forward, mostly through third-party packages. The OIDC, Tailscale and certificate
  logins go through such packages too. Of the files a component persists, only the contents are modelled. \<open>ParsePolicy\<close>,
  \<open>SnapshotGrants\<close>, the key derivation and the discovery documents of the OAuth server, the network and placement views of
  \<open>topology.go\<close>, and the frames of the terminal's WebSocket are left out.
\<close>

end
